(* ===== verification/Prelude.thy ===== *)
theory Prelude
  imports Main "HOL-Library.Word" "HOL-Library.Multiset"
begin

text \<open>
  Shared vocabulary of the development: the result type of fallible code (a failed
  \<open>CHECK\<close>, a \<open>LOG(FATAL)\<close>, a thrown exception, a use after free or an out of range
  access is a value of \<open>err\<close>), the combinators that sequence it, the \<open>size_t\<close>
  operations whose wrap-around matters, and generic lemmas on lists, multisets and
  results that the components share.
\<close>

section \<open>Errors and results\<close>

datatype err =
    Check_failed      \<comment> \<open>a \<open>CHECK\<close> macro aborts the process\<close>
  | Fatal             \<comment> \<open>\<open>LOG(FATAL)\<close>\<close>
  | Runtime_error     \<comment> \<open>\<open>throw std::runtime_error\<close>\<close>
  | Invalid_argument  \<comment> \<open>\<open>throw std::invalid_argument\<close>\<close>
  | Use_after_free    \<comment> \<open>dereference of a pointer whose target was deleted\<close>
  | Out_of_range      \<comment> \<open>an index past the end of a vector\<close>
  | Div_by_zero

type_synonym 'a res = "err + 'a"

type_synonym byte = "8 word"

definition bindE :: "'a res \<Rightarrow> ('a \<Rightarrow> 'b res) \<Rightarrow> 'b res" where
  "bindE m f = (case m of Inl e \<Rightarrow> Inl e | Inr x \<Rightarrow> f x)"

definition check :: "bool \<Rightarrow> unit res" where
  "check b = (if b then Inr () else Inl Check_failed)"

fun foldE :: "('a \<Rightarrow> 's \<Rightarrow> 's res) \<Rightarrow> 'a list \<Rightarrow> 's \<Rightarrow> 's res" where
  "foldE f [] s = Inr s"
| "foldE f (x # xs) s = bindE (f x s) (foldE f xs)"

definition nth_res :: "'a list \<Rightarrow> nat \<Rightarrow> 'a res" where
  "nth_res xs i = (if i < length xs then Inr (xs ! i) else Inl Out_of_range)"

named_theorems res_simps \<open>equations that evaluate the result combinators\<close>

lemma bindE_Inr [simp, res_simps]: "bindE (Inr x) f = f x"
  by (simp add: bindE_def)

lemma bindE_Inl [simp, res_simps]: "bindE (Inl e) f = Inl e"
  by (simp add: bindE_def)

lemma bindE_eq_Inr [simp]: "bindE m f = Inr y \<longleftrightarrow> (\<exists>x. m = Inr x \<and> f x = Inr y)"
  by (cases m) auto

lemma bindE_assoc: "bindE (bindE m f) g = bindE m (\<lambda>x. bindE (f x) g)"
  by (cases m) auto

lemma bindE_cong: "(\<And>x. m = Inr x \<Longrightarrow> f x = g x) \<Longrightarrow> bindE m f = bindE m g"
  by (cases m) auto

text \<open>For recursion under \<open>bindE\<close>: the continuation runs on results only.\<close>

lemma bindE_fundef_cong:
  "m = m' \<Longrightarrow> (\<And>y. m' = Inr y \<Longrightarrow> f y = g y) \<Longrightarrow> bindE m f = bindE m' g"
  by (cases m') auto

lemma check_eq_Inr [simp]: "check b = Inr u \<longleftrightarrow> b"
  by (simp add: check_def)

lemma check_True [simp, res_simps]: "check True = Inr ()"
  by (simp add: check_def)

lemma check_False [simp, res_simps]: "check False = Inl Check_failed"
  by (simp add: check_def)

lemma nth_res_eq_Inr [simp]: "nth_res xs i = Inr x \<longleftrightarrow> i < length xs \<and> xs ! i = x"
  by (auto simp: nth_res_def)

lemma nth_res_less [simp]: "i < length xs \<Longrightarrow> nth_res xs i = Inr (xs ! i)"
  by (simp add: nth_res_def)

lemma foldE_append: "foldE f (xs @ ys) s = bindE (foldE f xs s) (foldE f ys)"
proof (induction xs arbitrary: s)
  case Nil
  then show ?case by simp
next
  case (Cons x xs)
  then show ?case by (cases "f x s") auto
qed

text \<open>A loop keeps a relation between the elements still to be processed and the state.\<close>

lemma foldE_total:
  assumes "P xs s"
    and "\<And>x ys t. P (x # ys) t \<Longrightarrow> \<exists>t'. f x t = Inr t' \<and> P ys t'"
  shows "\<exists>s'. foldE f xs s = Inr s' \<and> P [] s'"
  using assms(1)
proof (induction xs arbitrary: s)
  case Nil
  then show ?case by simp
next
  case (Cons x xs)
  obtain t where t: "f x s = Inr t" "P xs t"
    using assms(2) Cons.prems by blast
  then show ?case using Cons.IH by auto
qed

lemma foldE_invar:
  assumes "foldE f xs s = Inr s'" and "P s"
    and "\<And>x t t'. P t \<Longrightarrow> f x t = Inr t' \<Longrightarrow> P t'"
  shows "P s'"
  using assms(1,2)
proof (induction xs arbitrary: s)
  case Nil
  then show ?case by simp
next
  case (Cons x xs)
  then show ?case using assms(3) by fastforce
qed

section \<open>Unsigned 64-bit sizes\<close>

text \<open>
  Sizes are \<open>nat\<close>; a subtraction on \<open>size_t\<close> whose result the code uses without a
  guard is written with its wrap-around. Both operands are below \<open>2 ^ 64\<close>.
\<close>

definition size_sub :: "nat \<Rightarrow> nat \<Rightarrow> nat" where
  "size_sub a b = (if b \<le> a then a - b else 2 ^ 64 - (b - a))"

lemma size_sub_le [simp]: "b \<le> a \<Longrightarrow> size_sub a b = a - b"
  by (simp add: size_sub_def)

lemma size_sub_word:
  assumes "a < 2 ^ 64" "b < 2 ^ 64"
  shows "of_nat (size_sub a b) = (of_nat a - of_nat b :: 64 word)"
proof (cases "b \<le> a")
  case True
  then show ?thesis by (simp add: of_nat_diff)
next
  case False
  have m: "(of_nat (2 ^ 64) :: 64 word) = 0"
    by simp
  from False assms have "of_nat (size_sub a b) = (of_nat (2 ^ 64) - of_nat (b - a) :: 64 word)"
    by (simp add: size_sub_def of_nat_diff)
  also have "\<dots> = of_nat a - of_nat b"
    using False m by (simp add: of_nat_diff)
  finally show ?thesis .
qed

definition round_up_div :: "nat \<Rightarrow> nat \<Rightarrow> nat" where
  "round_up_div n m = (n + m - 1) div m"

lemma round_up_div_le_iff: "0 < m \<Longrightarrow> round_up_div n m \<le> k \<longleftrightarrow> n \<le> k * m"
proof -
  assume m: "0 < m"
  have "round_up_div n m \<le> k \<longleftrightarrow> round_up_div n m < Suc k" by auto
  also have "\<dots> \<longleftrightarrow> n + m - 1 < Suc k * m"
    using m by (simp add: round_up_div_def div_less_iff_less_mult)
  also have "\<dots> \<longleftrightarrow> n \<le> k * m" using m by auto
  finally show ?thesis .
qed

lemma round_up_div_ge: "0 < m \<Longrightarrow> n \<le> round_up_div n m * m"
  using round_up_div_le_iff[of m n "round_up_div n m"] by simp

section \<open>Lists and multisets\<close>

definition sub_slice :: "'a list \<Rightarrow> nat \<Rightarrow> nat \<Rightarrow> 'a list" where
  "sub_slice xs i j = take (j - i) (drop i xs)"

definition slice_res :: "'a list \<Rightarrow> nat \<Rightarrow> nat \<Rightarrow> 'a list res" where
  "slice_res xs i j = (if i \<le> j \<and> j \<le> length xs then Inr (sub_slice xs i j) else Inl Check_failed)"

lemma length_sub_slice [simp]: "j \<le> length xs \<Longrightarrow> length (sub_slice xs i j) = j - i"
  by (simp add: sub_slice_def)

lemma slice_res_ok [simp]: "i \<le> j \<Longrightarrow> j \<le> length xs \<Longrightarrow> slice_res xs i j = Inr (sub_slice xs i j)"
  by (simp add: slice_res_def)

lemma slice_take_drop: "i \<le> j \<Longrightarrow> take i xs @ sub_slice xs i j = take j xs"
  by (metis le_add_diff_inverse sub_slice_def take_add)

lemma mset_take_Suc:
  "n < length xs \<Longrightarrow> mset (take (Suc n) xs) = add_mset (xs ! n) (mset (take n xs))"
  by (simp add: take_Suc_conv_app_nth)

lemma mset_take_drop: "mset (take k xs) + mset (drop k xs) = mset xs"
  unfolding mset_append[symmetric] by (simp only: append_take_drop_id)

lemma set_take_Suc:
  "n < length xs \<Longrightarrow> set (take (Suc n) xs) = insert (xs ! n) (set (take n xs))"
  by (simp add: take_Suc_conv_app_nth)

lemma distinct_take_Suc:
  "n < length xs \<Longrightarrow>
    distinct (take (Suc n) xs) \<longleftrightarrow> distinct (take n xs) \<and> xs ! n \<notin> set (take n xs)"
  by (simp add: take_Suc_conv_app_nth)

lemma sum_mset_size_filter_add:
  "size {#x \<in># add_mset a M. P x#} = (if P a then 1 else 0) + size {#x \<in># M. P x#}"
  by simp

end
