(* ===== verification/Page_Allocator.thy ===== *)
theory Page_Allocator
  imports Prelude
begin

text \<open>
  \<open>core/framework/xtensor/page_allocator.{h,cpp}\<close>: virtual pages of each model and DP group,
  and the count of physical pages used on each worker. The methods lock \<open>mtx_\<close>, change
  the state, unlock, call the workers to map or unmap pages, and lock again. Each
  definition below is one critical section, so that theory \<open>Page_Allocator_Steps\<close> can
  interleave them; the methods themselves are their compositions, at the end of this
  file. The broadcasts to the workers (\<open>XTensorAllocator\<close>) are the parameters \<open>bmap\<close>,
  \<open>bunmap\<close>, \<open>bweight\<close>: their success or failure. Page ids, worker numbers and DP ranks are
  \<open>nat\<close>; the ranks the code checks to be non-negative are \<open>int\<close> arguments.
\<close>

section \<open>State\<close>

definition MIN_RESERVED_PAGES :: nat where "MIN_RESERVED_PAGES = 8"

definition MAX_RESERVED_PAGES :: nat where "MAX_RESERVED_PAGES = 32"

record dp_group_pages =
  num_free_virt_pages :: nat
  free_virt_page_list :: "nat list"
  reserved_virt_page_list :: "nat list"
  allocated_virt_page_list :: "nat set"

record model_state =
  ms_num_layers :: nat
  num_total_virt_pages :: nat
  phy_pages_per_virt_page :: nat
  weight_pages_allocated :: nat
  is_sleeping :: bool
  pending_map_ops :: nat
  dp_groups :: "dp_group_pages list"
  model_dp_size :: int
  model_tp_size :: int
  model_world_size :: int

record pa_state =
  pa_initialized :: bool
  pa_dp_size :: nat
  pa_page_size :: nat
  enable_page_prealloc :: bool
  num_total_phy_pages :: nat
  worker_pages_used :: "nat list"
  max_world_size :: nat
  model_states :: "string \<Rightarrow> model_state option"
  prealloc_needed :: bool

definition get_model_state :: "string \<Rightarrow> pa_state \<Rightarrow> model_state res" where
  "get_model_state m s = (case model_states s m of None \<Rightarrow> Inl Check_failed | Some st \<Rightarrow> Inr st)"

definition group_of :: "model_state \<Rightarrow> nat \<Rightarrow> dp_group_pages res" where
  "group_of st d = nth_res (dp_groups st) d"

definition put_group :: "string \<Rightarrow> nat \<Rightarrow> dp_group_pages \<Rightarrow> pa_state \<Rightarrow> pa_state" where
  "put_group m d g s =
     (case model_states s m of
        None \<Rightarrow> s
      | Some st \<Rightarrow> s\<lparr>model_states := (model_states s)(m \<mapsto> st\<lparr>dp_groups := (dp_groups st)[d := g]\<rparr>)\<rparr>)"

definition add_pending :: "string \<Rightarrow> pa_state \<Rightarrow> pa_state" where
  "add_pending m s =
     (case model_states s m of
        None \<Rightarrow> s
      | Some st \<Rightarrow> s\<lparr>model_states := (model_states s)(m \<mapsto> st\<lparr>pending_map_ops := pending_map_ops st + 1\<rparr>)\<rparr>)"

definition sub_pending :: "string \<Rightarrow> pa_state \<Rightarrow> pa_state" where
  "sub_pending m s =
     (case model_states s m of
        None \<Rightarrow> s
      | Some st \<Rightarrow> s\<lparr>model_states := (model_states s)(m \<mapsto> st\<lparr>pending_map_ops := pending_map_ops st - 1\<rparr>)\<rparr>)"

section \<open>Physical pages of the workers\<close>

definition get_dp_group_worker_range :: "string \<Rightarrow> nat \<Rightarrow> pa_state \<Rightarrow> nat \<times> nat" where
  "get_dp_group_worker_range m d s =
     (let tp = (case model_states s m of
                  Some st \<Rightarrow> if model_tp_size st > 0 then nat (model_tp_size st) else 1
                | None \<Rightarrow> 1) in
      (d * tp, min (d * tp + tp) (max_world_size s)))"

definition worker_free :: "pa_state \<Rightarrow> nat \<Rightarrow> nat" where
  "worker_free s w = size_sub (num_total_phy_pages s) (worker_pages_used s ! w)"

definition get_min_free_pages_in_range :: "nat \<Rightarrow> nat \<Rightarrow> pa_state \<Rightarrow> nat" where
  "get_min_free_pages_in_range a b s =
     fold (\<lambda>w acc. min acc (worker_free s w)) [a..<min b (max_world_size s)] (num_total_phy_pages s)"

definition has_enough_phy_pages_for_dp :: "string \<Rightarrow> nat \<Rightarrow> nat \<Rightarrow> pa_state \<Rightarrow> bool" where
  "has_enough_phy_pages_for_dp m d n s =
     (case get_dp_group_worker_range m d s of (a, b) \<Rightarrow> get_min_free_pages_in_range a b s \<ge> n)"

definition on_workers :: "nat \<Rightarrow> nat \<Rightarrow> (nat \<Rightarrow> nat) \<Rightarrow> pa_state \<Rightarrow> pa_state" where
  "on_workers a b f s =
     s\<lparr>worker_pages_used := map (\<lambda>w. if a \<le> w \<and> w < b then f (worker_pages_used s ! w)
                                      else worker_pages_used s ! w) [0..<length (worker_pages_used s)]\<rparr>"

definition release_count :: "nat \<Rightarrow> nat \<Rightarrow> nat" where
  "release_count n used = (if used \<ge> n then used - n else 0)"

definition consume_phy_pages_for_dp :: "string \<Rightarrow> nat \<Rightarrow> nat \<Rightarrow> pa_state \<Rightarrow> bool \<times> pa_state" where
  "consume_phy_pages_for_dp m d n s =
     (case get_dp_group_worker_range m d s of (a, b) \<Rightarrow>
      if get_min_free_pages_in_range a b s < n then (False, s)
      else (True, on_workers a b (\<lambda>u. u + n) s))"

definition release_phy_pages_for_dp :: "string \<Rightarrow> nat \<Rightarrow> nat \<Rightarrow> pa_state \<Rightarrow> pa_state" where
  "release_phy_pages_for_dp m d n s =
     (case get_dp_group_worker_range m d s of (a, b) \<Rightarrow> on_workers a b (release_count n) s)"

section \<open>Initialisation and registration\<close>

definition pa_new :: pa_state where
  "pa_new = \<lparr>pa_initialized = False, pa_dp_size = 1, pa_page_size = 0, enable_page_prealloc = True,
     num_total_phy_pages = 0, worker_pages_used = [], max_world_size = 0,
     model_states = (\<lambda>_. None), prealloc_needed = False\<rparr>"

definition pa_init :: "nat \<Rightarrow> nat \<Rightarrow> nat \<Rightarrow> int \<Rightarrow> bool \<Rightarrow> pa_state \<Rightarrow> pa_state" where
  "pa_init granularity num_phy_pages dp_size world prealloc s =
     (if pa_initialized s then s
      else let w = (if world > 0 then nat world else 1) in
           s\<lparr>pa_initialized := True, pa_dp_size := dp_size, max_world_size := w,
             pa_page_size := granularity, enable_page_prealloc := prealloc,
             num_total_phy_pages := num_phy_pages,
             worker_pages_used := worker_pages_used s @ replicate (w - length (worker_pages_used s)) 0\<rparr>)"

definition register_model :: "string \<Rightarrow> nat \<Rightarrow> pa_state \<Rightarrow> (bool \<times> pa_state) res" where
  "register_model m layers s =
     bindE (check (pa_initialized s)) (\<lambda>_.
       if model_states s m \<noteq> None then Inr (False, s)
       else if layers = 0 then Inl Div_by_zero
       else let n = num_total_phy_pages s div layers div 2;
                g = \<lparr>num_free_virt_pages = n, free_virt_page_list = [0..<n],
                     reserved_virt_page_list = [], allocated_virt_page_list = {}\<rparr>;
                st = \<lparr>ms_num_layers = layers, num_total_virt_pages = n, phy_pages_per_virt_page = 2 * layers,
                      weight_pages_allocated = 0, is_sleeping = False, pending_map_ops = 0,
                      dp_groups = replicate (pa_dp_size s) g,
                      model_dp_size = 0, model_tp_size = 0, model_world_size = 0\<rparr>
            in Inr (True, s\<lparr>model_states := (model_states s)(m \<mapsto> st)\<rparr>))"

definition set_model_parallel_strategy :: "string \<Rightarrow> int \<Rightarrow> int \<Rightarrow> pa_state \<Rightarrow> pa_state" where
  "set_model_parallel_strategy m dp tp s =
     (case model_states s m of
        None \<Rightarrow> s
      | Some st \<Rightarrow> s\<lparr>model_states := (model_states s)(m \<mapsto>
          st\<lparr>model_dp_size := dp, model_tp_size := tp, model_world_size := dp * tp\<rparr>)\<rparr>)"

section \<open>alloc_kv_cache_page\<close>

datatype alloc_out =
    Reserved nat       \<comment> \<open>a mapped page from the reserved list, tracked as allocated\<close>
  | Need_map nat       \<comment> \<open>a page from the free list, to be mapped outside the lock\<close>
  | Retry              \<comment> \<open>\<open>continue\<close> after a failed consume\<close>
  | Wait               \<comment> \<open>\<open>cond_.wait(lock)\<close>\<close>

text \<open>One iteration of the loop under the lock, on the group's state.\<close>

definition alloc_iter :: "string \<Rightarrow> nat \<Rightarrow> model_state \<Rightarrow> pa_state \<Rightarrow> (alloc_out \<times> pa_state) res" where
  "alloc_iter m d st s =
     bindE (group_of st d) (\<lambda>g.
       case reserved_virt_page_list g of
         p # rest \<Rightarrow>
           let g' = g\<lparr>reserved_virt_page_list := rest,
                      num_free_virt_pages := size_sub (num_free_virt_pages g) 1,
                      allocated_virt_page_list := insert p (allocated_virt_page_list g)\<rparr>;
               s' = (if length rest < MIN_RESERVED_PAGES then s\<lparr>prealloc_needed := True\<rparr> else s)
           in Inr (Reserved p, put_group m d g' s')
       | [] \<Rightarrow>
           let n = phy_pages_per_virt_page st in
           if free_virt_page_list g \<noteq> [] \<and> has_enough_phy_pages_for_dp m d n s
           then let p = hd (free_virt_page_list g);
                    g' = g\<lparr>free_virt_page_list := tl (free_virt_page_list g),
                           num_free_virt_pages := size_sub (num_free_virt_pages g) 1\<rparr>
                in case consume_phy_pages_for_dp m d n s of
                     (True, s') \<Rightarrow> Inr (Need_map p, put_group m d g' s')
                   | (False, s') \<Rightarrow> Inr (Retry, s')
           else if free_virt_page_list g = [] then Inl Runtime_error
           else if \<not> has_enough_phy_pages_for_dp m d n s then Inl Runtime_error
           else if \<not> enable_page_prealloc s then Inl Runtime_error
           else Inr (Wait, s))"

text \<open>The checks, one iteration, and the increment of \<open>pending_map_ops\<close> before unlocking.\<close>

definition alloc_section1 :: "string \<Rightarrow> int \<Rightarrow> pa_state \<Rightarrow> (alloc_out \<times> pa_state) res" where
  "alloc_section1 m dp_rank s =
     bindE (check (pa_initialized s)) (\<lambda>_.
     bindE (check (0 \<le> dp_rank \<and> dp_rank < int (pa_dp_size s))) (\<lambda>_.
     bindE (get_model_state m s) (\<lambda>st.
     bindE (check (\<not> is_sleeping st)) (\<lambda>_.
     bindE (alloc_iter m (nat dp_rank) st s) (\<lambda>(out, s').
       case out of Need_map p \<Rightarrow> Inr (out, add_pending m s') | _ \<Rightarrow> Inr (out, s'))))))"

text \<open>After the mapping: undo on failure.\<close>

definition alloc_section2 :: "string \<Rightarrow> nat \<Rightarrow> nat \<Rightarrow> bool \<Rightarrow> pa_state \<Rightarrow> pa_state res" where
  "alloc_section2 m d p map_success s =
     bindE (get_model_state m s) (\<lambda>st.
     bindE (group_of st d) (\<lambda>g.
       let s1 = sub_pending m s in
       if map_success then Inr s1
       else let g' = g\<lparr>free_virt_page_list := p # free_virt_page_list g,
                       num_free_virt_pages := num_free_virt_pages g + 1\<rparr>
            in Inr (release_phy_pages_for_dp m d (phy_pages_per_virt_page st) (put_group m d g' s1))))"

definition alloc_section3 :: "string \<Rightarrow> nat \<Rightarrow> nat \<Rightarrow> pa_state \<Rightarrow> pa_state res" where
  "alloc_section3 m d p s =
     bindE (get_model_state m s) (\<lambda>st.
     bindE (group_of st d) (\<lambda>g.
       Inr (put_group m d (g\<lparr>allocated_virt_page_list := insert p (allocated_virt_page_list g)\<rparr>) s)))"

section \<open>free_kv_cache_pages and trim_kv_cache\<close>

definition free_section1 :: "string \<Rightarrow> int \<Rightarrow> nat list \<Rightarrow> pa_state \<Rightarrow> (nat list \<times> pa_state) res" where
  "free_section1 m dp_rank ps s =
     bindE (check (0 \<le> dp_rank \<and> dp_rank < int (pa_dp_size s))) (\<lambda>_.
     bindE (get_model_state m s) (\<lambda>st.
     bindE (group_of st (nat dp_rank)) (\<lambda>g.
       let g1 = g\<lparr>allocated_virt_page_list := allocated_virt_page_list g - set ps,
                  num_free_virt_pages := num_free_virt_pages g + length ps\<rparr> in
       if is_sleeping st then Inr (ps, put_group m (nat dp_rank) g1 s)
       else let num_to_reserve = size_sub MAX_RESERVED_PAGES (length (reserved_virt_page_list g));
                actual_reserve = min num_to_reserve (length ps)
            in if num_to_reserve > 0
               then Inr (drop actual_reserve ps,
                         put_group m (nat dp_rank)
                           (g1\<lparr>reserved_virt_page_list := reserved_virt_page_list g @ take actual_reserve ps\<rparr>) s)
               else Inr (ps, put_group m (nat dp_rank) g1 s))))"

definition trim_section1 :: "string \<Rightarrow> int \<Rightarrow> pa_state \<Rightarrow> (nat list \<times> pa_state) res" where
  "trim_section1 m dp_rank s =
     bindE (check (0 \<le> dp_rank \<and> dp_rank < int (pa_dp_size s))) (\<lambda>_.
     bindE (get_model_state m s) (\<lambda>st.
     bindE (group_of st (nat dp_rank)) (\<lambda>g.
       Inr (reserved_virt_page_list g, put_group m (nat dp_rank) (g\<lparr>reserved_virt_page_list := []\<rparr>) s))))"

text \<open>The second section is the same in both methods.\<close>

definition unmap_section2 :: "string \<Rightarrow> nat \<Rightarrow> nat list \<Rightarrow> bool \<Rightarrow> pa_state \<Rightarrow> pa_state res" where
  "unmap_section2 m d ps unmap_success s =
     bindE (get_model_state m s) (\<lambda>st.
     bindE (group_of st d) (\<lambda>g.
       if unmap_success
       then Inr (release_phy_pages_for_dp m d (length ps * phy_pages_per_virt_page st)
                  (put_group m d (g\<lparr>free_virt_page_list := free_virt_page_list g @ ps\<rparr>) s))
       else Inr (put_group m d (g\<lparr>reserved_virt_page_list := reserved_virt_page_list g @ ps\<rparr>) s)))"

section \<open>Weight pages\<close>

definition weight_workers :: "model_state \<Rightarrow> pa_state \<Rightarrow> nat" where
  "weight_workers st s =
     min (if model_world_size st > 0 then nat (model_world_size st) else max_world_size s) (max_world_size s)"

definition weight_alloc_section :: "string \<Rightarrow> nat \<Rightarrow> pa_state \<Rightarrow> (bool \<times> pa_state) res" where
  "weight_alloc_section m n s =
     bindE (check (pa_initialized s)) (\<lambda>_.
     bindE (get_model_state m s) (\<lambda>st.
       let b = weight_workers st s in
       if get_min_free_pages_in_range 0 b s < n then Inr (False, s)
       else let s1 = on_workers 0 b (\<lambda>u. u + n) s
            in Inr (True, s1\<lparr>model_states := (model_states s1)(m \<mapsto> st\<lparr>weight_pages_allocated := n\<rparr>)\<rparr>)))"

definition weight_free_section :: "string \<Rightarrow> nat \<Rightarrow> pa_state \<Rightarrow> pa_state res" where
  "weight_free_section m n s =
     bindE (check (pa_initialized s)) (\<lambda>_.
     bindE (get_model_state m s) (\<lambda>st.
       Inr (on_workers 0 (weight_workers st s) (release_count n) s)))"

definition set_weight_pages_count :: "string \<Rightarrow> nat \<Rightarrow> pa_state \<Rightarrow> pa_state res" where
  "set_weight_pages_count m n s =
     bindE (get_model_state m s) (\<lambda>st.
       Inr (s\<lparr>model_states := (model_states s)(m \<mapsto> st\<lparr>weight_pages_allocated := n\<rparr>)\<rparr>))"

section \<open>sleep_model and wakeup_model\<close>

text \<open>The mapped pages of the groups, as both methods collect them; \<open>allocated\<close> gives the
  iteration order of the set.\<close>

definition mapped_groups :: "(nat set \<Rightarrow> nat list) \<Rightarrow> model_state \<Rightarrow> nat \<Rightarrow> (nat \<times> nat list) list" where
  "mapped_groups order st dp_size =
     filter (\<lambda>(d, ps). ps \<noteq> [])
       (map (\<lambda>d. (d, reserved_virt_page_list (dp_groups st ! d) @ order (allocated_virt_page_list (dp_groups st ! d))))
         [0..<dp_size])"

datatype sleep_out =
    Not_slept                              \<comment> \<open>unknown or already sleeping: \<open>return false\<close>\<close>
  | Sleep_wait                             \<comment> \<open>map operations pending: \<open>cond_.wait(lock)\<close>\<close>
  | Sleep_unmap "(nat \<times> nat list) list" nat nat  \<comment> \<open>groups to unmap, pages per virtual page, weight pages\<close>

text \<open>\<open>resumed\<close>: the thread returns from \<open>cond_.wait\<close>; it does not look at \<open>is_sleeping\<close> again.\<close>

definition sleep_section1 ::
    "(nat set \<Rightarrow> nat list) \<Rightarrow> string \<Rightarrow> bool \<Rightarrow> pa_state \<Rightarrow> (sleep_out \<times> pa_state) res" where
  "sleep_section1 order m resumed s =
     (case model_states s m of
        None \<Rightarrow> Inr (Not_slept, s)
      | Some st \<Rightarrow>
          if \<not> resumed \<and> is_sleeping st then Inr (Not_slept, s)
          else if pending_map_ops st > 0 then Inr (Sleep_wait, s)
          else if length (dp_groups st) < pa_dp_size s then Inl Out_of_range
          else Inr (Sleep_unmap (mapped_groups order st (pa_dp_size s)) (phy_pages_per_virt_page st)
                      (weight_pages_allocated st),
                    s\<lparr>model_states := (model_states s)(m \<mapsto> st\<lparr>is_sleeping := True\<rparr>)\<rparr>))"

fun sleep_section2 :: "string \<Rightarrow> nat \<Rightarrow> ((nat \<times> nat list) \<times> bool) list \<Rightarrow> pa_state \<Rightarrow> pa_state" where
  "sleep_section2 m ppv [] s = s"
| "sleep_section2 m ppv (((d, ps), ok) # gs) s =
     sleep_section2 m ppv gs (if ok then release_phy_pages_for_dp m d (length ps * ppv) s else s)"

text \<open>Pages to consume on worker \<open>w\<close>: the mapped pages of the groups it serves and the weights.\<close>

definition wakeup_need :: "string \<Rightarrow> (nat \<times> nat list) list \<Rightarrow> model_state \<Rightarrow> pa_state \<Rightarrow> nat \<Rightarrow> nat" where
  "wakeup_need m gs st s w =
     (\<Sum>(d, ps) \<leftarrow> gs. case get_dp_group_worker_range m d s of (a, b) \<Rightarrow>
        if a \<le> w \<and> w < b then length ps * phy_pages_per_virt_page st else 0) +
     (if w < weight_workers st s then weight_pages_allocated st else 0)"

definition wakeup_section1 ::
    "(nat set \<Rightarrow> nat list) \<Rightarrow> string \<Rightarrow> pa_state \<Rightarrow> (((nat \<times> nat list) list \<times> nat) option \<times> pa_state) res" where
  "wakeup_section1 order m s =
     (case model_states s m of
        None \<Rightarrow> Inr (None, s)
      | Some st \<Rightarrow>
          if \<not> is_sleeping st then Inr (None, s)
          else if length (dp_groups st) < pa_dp_size s then Inl Out_of_range
          else let gs = mapped_groups order st (pa_dp_size s);
                   need = wakeup_need m gs st s in
               if \<exists>w \<in> set [0..<max_world_size s]. need w \<noteq> 0 \<and> worker_free s w < need w then Inr (None, s)
               else Inr (Some (gs, weight_pages_allocated st),
                         s\<lparr>worker_pages_used := map (\<lambda>w. worker_pages_used s ! w + need w)
                                                  [0..<length (worker_pages_used s)]\<rparr>))"

definition wakeup_section3 :: "string \<Rightarrow> pa_state \<Rightarrow> pa_state" where
  "wakeup_section3 m s =
     (case model_states s m of
        None \<Rightarrow> s
      | Some st \<Rightarrow> s\<lparr>model_states := (model_states s)(m \<mapsto> st\<lparr>is_sleeping := False\<rparr>)\<rparr>)"

section \<open>prealloc_worker\<close>

text \<open>
  The first section visits every model and group and takes pages from the free lists;
  \<open>collect_one\<close> is the body of its inner loop.
\<close>

type_synonym reserve_job = "string \<times> nat \<times> nat list"

definition collect_one :: "string \<Rightarrow> nat \<Rightarrow> pa_state \<times> reserve_job list \<Rightarrow> (pa_state \<times> reserve_job list) res" where
  "collect_one m d acc =
     (case acc of (s, jobs) \<Rightarrow>
      bindE (get_model_state m s) (\<lambda>st.
        if is_sleeping st then Inr (s, jobs)
        else bindE (group_of st d) (\<lambda>g.
          if phy_pages_per_virt_page st = 0 then Inl Div_by_zero
          else
            let want = (if length (reserved_virt_page_list g) < MIN_RESERVED_PAGES
                        then MIN_RESERVED_PAGES - length (reserved_virt_page_list g) else 0);
                max_by_phy = (case get_dp_group_worker_range m d s of (a, b) \<Rightarrow>
                                get_min_free_pages_in_range a b s) div phy_pages_per_virt_page st;
                to_reserve = min (min want (length (free_virt_page_list g))) max_by_phy in
            if to_reserve = 0 then Inr (s, jobs)
            else let ps = take to_reserve (free_virt_page_list g);
                     g' = g\<lparr>free_virt_page_list := drop to_reserve (free_virt_page_list g)\<rparr> in
                 case consume_phy_pages_for_dp m d (length ps * phy_pages_per_virt_page st) s of
                   (True, s') \<Rightarrow> Inr (put_group m d g' s', jobs @ [(m, d, ps)])
                 | (False, s') \<Rightarrow> Inr (s', jobs))))"

definition prealloc_section1 :: "string list \<Rightarrow> pa_state \<Rightarrow> (pa_state \<times> reserve_job list) res" where
  "prealloc_section1 order s =
     foldE (\<lambda>(m, d). collect_one m d) (List.product order [0..<pa_dp_size s])
       (s\<lparr>prealloc_needed := False\<rparr>, [])"

text \<open>Before mapping: give the pages back when the model went to sleep meanwhile.\<close>

definition prealloc_section2 :: "reserve_job \<Rightarrow> pa_state \<Rightarrow> (bool \<times> pa_state) res" where
  "prealloc_section2 job s =
     (case job of (m, d, ps) \<Rightarrow>
      (case model_states s m of
         None \<Rightarrow> Inr (False, s)
       | Some st \<Rightarrow>
           if is_sleeping st
           then bindE (group_of st d) (\<lambda>g.
                  Inr (False, release_phy_pages_for_dp m d (length ps * phy_pages_per_virt_page st)
                    (put_group m d (g\<lparr>free_virt_page_list := ps @ free_virt_page_list g\<rparr>) s)))
           else Inr (True, add_pending m s)))"

definition prealloc_section3 :: "reserve_job \<Rightarrow> bool \<Rightarrow> pa_state \<Rightarrow> pa_state res" where
  "prealloc_section3 job map_success s =
     (case job of (m, d, ps) \<Rightarrow>
      (case model_states s m of
         None \<Rightarrow> Inr s
       | Some st \<Rightarrow>
           let s1 = sub_pending m s; n = length ps * phy_pages_per_virt_page st in
           bindE (group_of st d) (\<lambda>g.
             if \<not> map_success
             then Inr (release_phy_pages_for_dp m d n
                    (put_group m d (g\<lparr>free_virt_page_list := ps @ free_virt_page_list g\<rparr>) s1))
             else if \<not> is_sleeping st
             then Inr (put_group m d (g\<lparr>reserved_virt_page_list := reserved_virt_page_list g @ ps\<rparr>) s1)
             else Inr (release_phy_pages_for_dp m d n s1))))"

section \<open>The methods\<close>

partial_function (option) pa_alloc_loop ::
    "string \<Rightarrow> int \<Rightarrow> pa_state \<Rightarrow> (alloc_out \<times> pa_state) res option" where
  "pa_alloc_loop m d s =
     (case alloc_section1 m d s of
        Inl e \<Rightarrow> Some (Inl e)
      | Inr (out, s') \<Rightarrow>
          (case out of
             Retry \<Rightarrow> pa_alloc_loop m d s'
           | Wait \<Rightarrow> None
           | _ \<Rightarrow> Some (Inr (out, s'))))"

text \<open>A \<open>Wait\<close> with no other thread running never returns. The result is the page or \<open>nullptr\<close>.\<close>

definition alloc_kv_cache_page ::
    "(string \<Rightarrow> nat \<Rightarrow> nat list \<Rightarrow> bool) \<Rightarrow> string \<Rightarrow> int \<Rightarrow> pa_state \<Rightarrow> (nat option \<times> pa_state) res option" where
  "alloc_kv_cache_page bmap m d s =
     (case pa_alloc_loop m d s of
        None \<Rightarrow> None
      | Some (Inl e) \<Rightarrow> Some (Inl e)
      | Some (Inr (Need_map p, s1)) \<Rightarrow>
          let ok = bmap m (nat d) [p] in
          Some (bindE (alloc_section2 m (nat d) p ok s1) (\<lambda>s2.
            if \<not> ok then Inr (None, s2)
            else let s3 = (if enable_page_prealloc s2 then s2\<lparr>prealloc_needed := True\<rparr> else s2) in
                 bindE (alloc_section3 m (nat d) p s3) (\<lambda>s4. Inr (Some p, s4))))
      | Some (Inr (Reserved p, s1)) \<Rightarrow> Some (Inr (Some p, s1))
      | Some (Inr (_, s1)) \<Rightarrow> Some (Inr (None, s1)))"

definition free_kv_cache_pages ::
    "(string \<Rightarrow> nat \<Rightarrow> nat list \<Rightarrow> bool) \<Rightarrow> string \<Rightarrow> int \<Rightarrow> nat list \<Rightarrow> pa_state \<Rightarrow> pa_state res" where
  "free_kv_cache_pages bunmap m d ps s =
     bindE (free_section1 m d ps s) (\<lambda>(us, s1).
       if us = [] then Inr s1 else unmap_section2 m (nat d) us (bunmap m (nat d) us) s1)"

definition trim_kv_cache ::
    "(string \<Rightarrow> nat \<Rightarrow> nat list \<Rightarrow> bool) \<Rightarrow> string \<Rightarrow> int \<Rightarrow> pa_state \<Rightarrow> pa_state res" where
  "trim_kv_cache bunmap m d s =
     bindE (trim_section1 m d s) (\<lambda>(us, s1).
       if us = [] then Inr s1 else unmap_section2 m (nat d) us (bunmap m (nat d) us) s1)"

definition alloc_weight_pages :: "(string \<Rightarrow> nat \<Rightarrow> bool) \<Rightarrow> string \<Rightarrow> nat \<Rightarrow> pa_state \<Rightarrow> (bool \<times> pa_state) res" where
  "alloc_weight_pages bweight m n s =
     bindE (weight_alloc_section m n s) (\<lambda>(ok, s1). Inr (ok \<and> bweight m n, s1))"

definition free_weight_pages :: "(string \<Rightarrow> bool) \<Rightarrow> string \<Rightarrow> nat \<Rightarrow> pa_state \<Rightarrow> (bool \<times> pa_state) res" where
  "free_weight_pages bfree m n s =
     (if \<not> bfree m then Inr (False, s)
      else bindE (weight_free_section m n s) (\<lambda>s1. Inr (True, s1)))"

text \<open>\<open>sleep_model\<close>, when no map operation is pending (otherwise it waits, and never returns alone).\<close>

definition sleep_model ::
    "(nat set \<Rightarrow> nat list) \<Rightarrow> (string \<Rightarrow> nat \<Rightarrow> nat list \<Rightarrow> bool) \<Rightarrow> (string \<Rightarrow> bool) \<Rightarrow>
      string \<Rightarrow> bool \<Rightarrow> pa_state \<Rightarrow> (bool \<times> pa_state) res option" where
  "sleep_model order bunmap bfree m skip_weight_release s =
     (case sleep_section1 order m False s of
        Inl e \<Rightarrow> Some (Inl e)
      | Inr (Not_slept, s1) \<Rightarrow> Some (Inr (False, s1))
      | Inr (Sleep_wait, s1) \<Rightarrow> None
      | Inr (Sleep_unmap gs ppv weights, s1) \<Rightarrow>
          Some (bindE (if \<not> skip_weight_release \<and> weights > 0 then free_weight_pages bfree m weights s1
                       else Inr (True, s1)) (\<lambda>(ok, s2).
            if \<not> ok then Inr (False, s2)
            else let rs = map (\<lambda>(d, ps). ((d, ps), bunmap m d ps)) gs in
                 Inr (list_all snd rs, sleep_section2 m ppv rs s2))))"

definition wakeup_model ::
    "(nat set \<Rightarrow> nat list) \<Rightarrow> (string \<Rightarrow> nat \<Rightarrow> nat list \<Rightarrow> bool) \<Rightarrow> (string \<Rightarrow> nat \<Rightarrow> bool) \<Rightarrow>
      string \<Rightarrow> pa_state \<Rightarrow> (bool \<times> pa_state) res" where
  "wakeup_model order bmap bweight m s =
     bindE (wakeup_section1 order m s) (\<lambda>(r, s1).
       case r of
         None \<Rightarrow> Inr (False, s1)
       | Some (gs, weights) \<Rightarrow>
           if list_all (\<lambda>(d, ps). bmap m d ps) gs \<and> (weights > 0 \<longrightarrow> bweight m weights)
           then let s2 = wakeup_section3 m s1 in
                Inr (True, if enable_page_prealloc s2 then s2\<lparr>prealloc_needed := True\<rparr> else s2)
           else Inr (False, s1))"

definition get_virt_page_id :: "nat \<Rightarrow> nat \<Rightarrow> nat \<Rightarrow> nat" where
  "get_virt_page_id page_size block_id block_mem_size = block_id * block_mem_size div page_size"

definition get_num_reserved_virt_pages :: "string \<Rightarrow> int \<Rightarrow> pa_state \<Rightarrow> nat res" where
  "get_num_reserved_virt_pages m dp_rank s =
     bindE (check (0 \<le> dp_rank \<and> dp_rank < int (pa_dp_size s))) (\<lambda>_.
     bindE (get_model_state m s) (\<lambda>st.
     bindE (group_of st (nat dp_rank)) (\<lambda>g. Inr (length (reserved_virt_page_list g)))))"

definition get_num_inuse_virt_pages :: "string \<Rightarrow> int \<Rightarrow> pa_state \<Rightarrow> nat res" where
  "get_num_inuse_virt_pages m dp_rank s =
     bindE (check (0 \<le> dp_rank \<and> dp_rank < int (pa_dp_size s))) (\<lambda>_.
     bindE (get_model_state m s) (\<lambda>st.
     bindE (group_of st (nat dp_rank)) (\<lambda>g.
       Inr (size_sub (num_total_virt_pages st) (num_free_virt_pages g)))))"

end
