(* ===== verification/Page_Allocator_Steps.thy ===== *)
theory Page_Allocator_Steps
  imports Page_Allocator
begin

text \<open>
  All interleavings of the critical sections of \<open>PageAllocator\<close>. A state of the system is
  the allocator and the multiset of operations in flight, each holding the pages it has
  taken off the lists. \<open>pa_step\<close> has one rule per critical section; \<open>virt_inv\<close> says that at
  every moment each virtual page of a group is in exactly one place, that
  \<open>num_free_virt_pages\<close> and \<open>pending_map_ops\<close> are exact, and that no page is being mapped for a
  sleeping model; \<open>phys_inv\<close> that no worker's count exceeds the physical pages.
\<close>

section \<open>Operations in flight\<close>

datatype flight =
    F_map string nat nat               \<comment> \<open>\<open>alloc_kv_cache_page\<close> maps a page\<close>
  | F_track string nat nat             \<comment> \<open>mapped, not yet in the allocated set\<close>
  | F_unmap string nat "nat list"      \<comment> \<open>\<open>free_kv_cache_pages\<close> or \<open>trim_kv_cache\<close> unmaps pages\<close>
  | F_job string nat "nat list"        \<comment> \<open>pages the preallocation thread has taken\<close>
  | F_jobmap string nat "nat list"     \<comment> \<open>the preallocation thread maps them\<close>
  | F_sleepwait string                 \<comment> \<open>\<open>sleep_model\<close> waits for pending map operations\<close>
  | F_sleep string "(nat \<times> nat list) list" nat  \<comment> \<open>\<open>sleep_model\<close> unmaps\<close>
  | F_wake string                      \<comment> \<open>\<open>wakeup_model\<close> maps\<close>

fun flight_pages :: "string \<Rightarrow> nat \<Rightarrow> flight \<Rightarrow> nat multiset" where
  "flight_pages m d (F_map m' d' p) = (if m' = m \<and> d' = d then {#p#} else {#})"
| "flight_pages m d (F_track m' d' p) = (if m' = m \<and> d' = d then {#p#} else {#})"
| "flight_pages m d (F_unmap m' d' ps) = (if m' = m \<and> d' = d then mset ps else {#})"
| "flight_pages m d (F_job m' d' ps) = (if m' = m \<and> d' = d then mset ps else {#})"
| "flight_pages m d (F_jobmap m' d' ps) = (if m' = m \<and> d' = d then mset ps else {#})"
| "flight_pages m d _ = {#}"

text \<open>Pages in flight that \<open>num_free_virt_pages\<close> counts as free.\<close>

fun flight_free :: "string \<Rightarrow> nat \<Rightarrow> flight \<Rightarrow> nat" where
  "flight_free m d (F_unmap m' d' ps) = (if m' = m \<and> d' = d then length ps else 0)"
| "flight_free m d (F_job m' d' ps) = (if m' = m \<and> d' = d then length ps else 0)"
| "flight_free m d (F_jobmap m' d' ps) = (if m' = m \<and> d' = d then length ps else 0)"
| "flight_free m d _ = 0"

fun flight_maps :: "string \<Rightarrow> flight \<Rightarrow> nat" where
  "flight_maps m (F_map m' d' p) = (if m' = m then 1 else 0)"
| "flight_maps m (F_jobmap m' d' ps) = (if m' = m then 1 else 0)"
| "flight_maps m _ = 0"

definition busy :: "flight multiset \<Rightarrow> string \<Rightarrow> nat \<Rightarrow> nat multiset" where
  "busy F m d = sum_mset (image_mset (flight_pages m d) F)"

definition busy_free :: "flight multiset \<Rightarrow> string \<Rightarrow> nat \<Rightarrow> nat" where
  "busy_free F m d = sum_mset (image_mset (flight_free m d) F)"

definition map_ops :: "flight multiset \<Rightarrow> string \<Rightarrow> nat" where
  "map_ops F m = sum_mset (image_mset (flight_maps m) F)"

lemma busy_simps [simp]:
  "busy {#} m d = {#}" "busy (add_mset f F) m d = flight_pages m d f + busy F m d"
  "busy (F + G) m d = busy F m d + busy G m d"
  "busy_free {#} m d = 0" "busy_free (add_mset f F) m d = flight_free m d f + busy_free F m d"
  "busy_free (F + G) m d = busy_free F m d + busy_free G m d"
  "map_ops {#} m = 0" "map_ops (add_mset f F) m = flight_maps m f + map_ops F m"
  "map_ops (F + G) m = map_ops F m + map_ops G m"
  by (simp_all add: busy_def busy_free_def map_ops_def)

section \<open>The step relation\<close>

type_synonym pa_sys = "pa_state \<times> flight multiset"

definition job_flight :: "reserve_job \<Rightarrow> flight" where
  "job_flight j = (case j of (m, d, ps) \<Rightarrow> F_job m d ps)"

definition holds_pages :: "string \<Rightarrow> nat \<Rightarrow> nat list \<Rightarrow> pa_state \<Rightarrow> bool" where
  "holds_pages m d ps s \<longleftrightarrow> distinct ps \<and>
     (\<exists>st. model_states s m = Some st \<and> d < length (dp_groups st) \<and>
        set ps \<subseteq> allocated_virt_page_list (dp_groups st ! d))"

text \<open>
  A client frees only pages it holds (\<open>holds_pages\<close>); everything else is up to the
  scheduler and to the outcome \<open>ok\<close> of the calls to the workers.
\<close>

inductive pa_step :: "pa_sys \<Rightarrow> pa_sys \<Rightarrow> bool" where
  register: "register_model m layers s = Inr (b, s') \<Longrightarrow> pa_step (s, F) (s', F)"
| strategy: "pa_step (s, F) (set_model_parallel_strategy m dp tp s, F)"
| alloc_reserved: "alloc_section1 m d s = Inr (Reserved p, s') \<Longrightarrow> pa_step (s, F) (s', F)"
| alloc_map: "alloc_section1 m d s = Inr (Need_map p, s') \<Longrightarrow>
    pa_step (s, F) (s', add_mset (F_map m (nat d) p) F)"
| alloc_fail: "alloc_section2 m d p False s = Inr s' \<Longrightarrow> pa_step (s, add_mset (F_map m d p) F) (s', F)"
| alloc_mapped: "alloc_section2 m d p True s = Inr s' \<Longrightarrow>
    pa_step (s, add_mset (F_map m d p) F) (s', add_mset (F_track m d p) F)"
| trigger: "pa_step (s, F) (s\<lparr>prealloc_needed := b\<rparr>, F)"
| alloc_track: "alloc_section3 m d p s = Inr s' \<Longrightarrow> pa_step (s, add_mset (F_track m d p) F) (s', F)"
| free1: "holds_pages m (nat d) ps s \<Longrightarrow> free_section1 m d ps s = Inr (us, s') \<Longrightarrow>
    pa_step (s, F) (s', if us = [] then F else add_mset (F_unmap m (nat d) us) F)"
| trim1: "trim_section1 m d s = Inr (us, s') \<Longrightarrow>
    pa_step (s, F) (s', if us = [] then F else add_mset (F_unmap m (nat d) us) F)"
| unmap2: "unmap_section2 m d us ok s = Inr s' \<Longrightarrow> pa_step (s, add_mset (F_unmap m d us) F) (s', F)"
| pre1: "prealloc_section1 order s = Inr (s', jobs) \<Longrightarrow>
    pa_step (s, F) (s', mset (map job_flight jobs) + F)"
| pre2_skip: "prealloc_section2 (m, d, ps) s = Inr (False, s') \<Longrightarrow> pa_step (s, add_mset (F_job m d ps) F) (s', F)"
| pre2_map: "prealloc_section2 (m, d, ps) s = Inr (True, s') \<Longrightarrow>
    pa_step (s, add_mset (F_job m d ps) F) (s', add_mset (F_jobmap m d ps) F)"
| pre3: "prealloc_section3 (m, d, ps) ok s = Inr s' \<Longrightarrow> pa_step (s, add_mset (F_jobmap m d ps) F) (s', F)"
| weight_alloc: "weight_alloc_section m n s = Inr (b, s') \<Longrightarrow> pa_step (s, F) (s', F)"
| weight_free: "weight_free_section m n s = Inr s' \<Longrightarrow> pa_step (s, F) (s', F)"
| weight_set: "set_weight_pages_count m n s = Inr s' \<Longrightarrow> pa_step (s, F) (s', F)"
| sleep_wait: "sleep_section1 ord m False s = Inr (Sleep_wait, s') \<Longrightarrow> pa_step (s, F) (s', add_mset (F_sleepwait m) F)"
| sleep1: "sleep_section1 ord m False s = Inr (Sleep_unmap gs ppv w, s') \<Longrightarrow>
    pa_step (s, F) (s', add_mset (F_sleep m gs ppv) F)"
| sleep_resume: "sleep_section1 ord m True s = Inr (Sleep_unmap gs ppv w, s') \<Longrightarrow>
    pa_step (s, add_mset (F_sleepwait m) F) (s', add_mset (F_sleep m gs ppv) F)"
| sleep2: "map fst rs = gs \<Longrightarrow> pa_step (s, add_mset (F_sleep m gs ppv) F) (sleep_section2 m ppv rs s, F)"
| wake1: "wakeup_section1 ord m s = Inr (Some r, s') \<Longrightarrow> pa_step (s, F) (s', add_mset (F_wake m) F)"
| wake3: "pa_step (s, add_mset (F_wake m) F) (wakeup_section3 m s, F)"
| wake_fail: "pa_step (s, add_mset (F_wake m) F) (s, F)"

definition pa_start :: "pa_state \<Rightarrow> pa_sys" where
  "pa_start s = (s, {#})"

definition pa_reachable :: "pa_state \<Rightarrow> pa_sys \<Rightarrow> bool" where
  "pa_reachable s0 x \<longleftrightarrow> pa_step\<^sup>*\<^sup>* (pa_start s0) x"

section \<open>Invariants\<close>

definition group_inv :: "nat \<Rightarrow> flight multiset \<Rightarrow> string \<Rightarrow> nat \<Rightarrow> dp_group_pages \<Rightarrow> bool" where
  "group_inv n F m d g \<longleftrightarrow>
     finite (allocated_virt_page_list g) \<and>
     mset (free_virt_page_list g) + mset (reserved_virt_page_list g) + mset_set (allocated_virt_page_list g) +
       busy F m d = mset [0..<n] \<and>
     num_free_virt_pages g =
       length (free_virt_page_list g) + length (reserved_virt_page_list g) + busy_free F m d"

definition model_inv :: "nat \<Rightarrow> flight multiset \<Rightarrow> string \<Rightarrow> model_state \<Rightarrow> bool" where
  "model_inv dps F m st \<longleftrightarrow>
     length (dp_groups st) = dps \<and> 0 < phy_pages_per_virt_page st \<and>
     pending_map_ops st = map_ops F m \<and> (is_sleeping st \<longrightarrow> map_ops F m = 0) \<and>
     (\<forall>d < dps. group_inv (num_total_virt_pages st) F m d (dp_groups st ! d))"

definition quiet :: "flight multiset \<Rightarrow> string \<Rightarrow> bool" where
  "quiet F m \<longleftrightarrow> map_ops F m = 0 \<and> (\<forall>d. busy F m d = {#} \<and> busy_free F m d = 0)"

definition virt_inv :: "pa_sys \<Rightarrow> bool" where
  "virt_inv x \<longleftrightarrow> (case x of (s, F) \<Rightarrow>
     \<forall>m. (case model_states s m of None \<Rightarrow> quiet F m | Some st \<Rightarrow> model_inv (pa_dp_size s) F m st))"

definition phys_inv :: "pa_state \<Rightarrow> bool" where
  "phys_inv s \<longleftrightarrow> length (worker_pages_used s) = max_world_size s \<and>
     (\<forall>u \<in> set (worker_pages_used s). u \<le> num_total_phy_pages s)"

lemma virt_invD: "virt_inv (s, F) \<Longrightarrow> model_states s m = Some st \<Longrightarrow> model_inv (pa_dp_size s) F m st"
  unfolding virt_inv_def by (metis (mono_tags, lifting) case_prod_conv option.simps(5))

lemma virt_invN: "virt_inv (s, F) \<Longrightarrow> model_states s m = None \<Longrightarrow> quiet F m"
  unfolding virt_inv_def by (metis (mono_tags, lifting) case_prod_conv option.simps(4))

text \<open>What does not touch the models keeps \<open>virt_inv\<close>.\<close>

lemma virt_inv_cong:
  "model_states s' = model_states s \<Longrightarrow> pa_dp_size s' = pa_dp_size s \<Longrightarrow> virt_inv (s', F) = virt_inv (s, F)"
  by (simp add: virt_inv_def cong: option.case_cong)

lemma on_workers_sel [simp]:
  "model_states (on_workers a b f s) = model_states s" "pa_dp_size (on_workers a b f s) = pa_dp_size s"
  "max_world_size (on_workers a b f s) = max_world_size s"
  "num_total_phy_pages (on_workers a b f s) = num_total_phy_pages s"
  "pa_initialized (on_workers a b f s) = pa_initialized s"
  "enable_page_prealloc (on_workers a b f s) = enable_page_prealloc s"
  by (simp_all add: on_workers_def)

lemma release_sel [simp]:
  "model_states (release_phy_pages_for_dp m d n s) = model_states s"
  "pa_dp_size (release_phy_pages_for_dp m d n s) = pa_dp_size s"
  "max_world_size (release_phy_pages_for_dp m d n s) = max_world_size s"
  "num_total_phy_pages (release_phy_pages_for_dp m d n s) = num_total_phy_pages s"
  by (simp_all add: release_phy_pages_for_dp_def split: prod.split)

lemma consume_sel:
  assumes "consume_phy_pages_for_dp m d n s = (b, s')"
  shows "model_states s' = model_states s" "pa_dp_size s' = pa_dp_size s"
    "max_world_size s' = max_world_size s" "num_total_phy_pages s' = num_total_phy_pages s"
  using assms by (auto simp: consume_phy_pages_for_dp_def split: prod.splits if_splits)

text \<open>One group of one model changes together with the operations in flight.\<close>

lemma virt_inv_update:
  assumes inv: "virt_inv (s, F)" and st: "model_states s m = Some st"
    and ms: "model_states s' = (model_states s)(m \<mapsto> st')" "pa_dp_size s' = pa_dp_size s"
    and st': "dp_groups st' = (dp_groups st)[d := g']" "num_total_virt_pages st' = num_total_virt_pages st"
      "phy_pages_per_virt_page st' = phy_pages_per_virt_page st"
    and pend: "pending_map_ops st' = map_ops F' m" "is_sleeping st' \<Longrightarrow> map_ops F' m = 0"
    and g': "d < pa_dp_size s" "group_inv (num_total_virt_pages st) F' m d g'"
    and frame: "\<And>m' d'. (m', d') \<noteq> (m, d) \<Longrightarrow> busy F' m' d' = busy F m' d' \<and> busy_free F' m' d' = busy_free F m' d'"
      "\<And>m'. m' \<noteq> m \<Longrightarrow> map_ops F' m' = map_ops F m'"
  shows "virt_inv (s', F')"
proof -
  have "case model_states s' m' of None \<Rightarrow> quiet F' m' | Some t \<Rightarrow> model_inv (pa_dp_size s') F' m' t" for m'
  proof (cases "m' = m")
    case True
    note mi = virt_invD[OF inv st]
    have "group_inv (num_total_virt_pages st') F' m d' (dp_groups st' ! d')" if d': "d' < pa_dp_size s" for d'
    proof (cases "d' = d")
      case True
      then show ?thesis using g' mi st' by (simp add: model_inv_def)
    next
      case False
      then show ?thesis using mi st' frame(1)[of m d'] d' by (simp add: model_inv_def group_inv_def)
    qed
    then show ?thesis using True ms st' mi pend by (simp add: model_inv_def)
  next
    case False
    then have fr: "busy F' m' d' = busy F m' d' \<and> busy_free F' m' d' = busy_free F m' d'" for d'
      using frame(1)[of m' d'] by simp
    show ?thesis
    proof (cases "model_states s m'")
      case None
      then show ?thesis
        using False ms virt_invN[OF inv None] frame(2)[OF False] fr by (simp add: quiet_def)
    next
      case (Some t)
      then show ?thesis
        using False ms virt_invD[OF inv Some] frame(2)[OF False] fr by (simp add: model_inv_def group_inv_def)
    qed
  qed
  then show ?thesis unfolding virt_inv_def by simp
qed

text \<open>Only the flags and counters of one model change.\<close>

lemma virt_inv_flags:
  assumes inv: "virt_inv (s, F)" and st: "model_states s m = Some st"
    and ms: "model_states s' = (model_states s)(m \<mapsto> st')" "pa_dp_size s' = pa_dp_size s"
    and st': "dp_groups st' = dp_groups st" "num_total_virt_pages st' = num_total_virt_pages st"
      "phy_pages_per_virt_page st' = phy_pages_per_virt_page st"
    and pend: "pending_map_ops st' = map_ops F' m" "is_sleeping st' \<Longrightarrow> map_ops F' m = 0"
    and frame: "\<And>m' d'. busy F' m' d' = busy F m' d' \<and> busy_free F' m' d' = busy_free F m' d'"
      "\<And>m'. m' \<noteq> m \<Longrightarrow> map_ops F' m' = map_ops F m'"
  shows "virt_inv (s', F')"
proof -
  have "case model_states s' m' of None \<Rightarrow> quiet F' m' | Some t \<Rightarrow> model_inv (pa_dp_size s') F' m' t" for m'
  proof (cases "m' = m")
    case True
    then show ?thesis
      using ms st' pend virt_invD[OF inv st] frame by (simp add: model_inv_def group_inv_def)
  next
    case False
    then show ?thesis
      using ms virt_invD[OF inv, of m'] virt_invN[OF inv, of m'] frame
      by (cases "model_states s m'") (simp_all add: model_inv_def group_inv_def quiet_def)
  qed
  then show ?thesis unfolding virt_inv_def by simp
qed

lemma virt_inv_put:
  assumes inv: "virt_inv (s, F)" and st: "model_states s m = Some st"
    and ms: "model_states s' = (model_states s)(m \<mapsto> st\<lparr>dp_groups := (dp_groups st)[d := g'], pending_map_ops := k\<rparr>)"
    and dps: "pa_dp_size s' = pa_dp_size s" and d: "d < length (dp_groups st)"
    and pend: "k = map_ops F' m" "is_sleeping st \<Longrightarrow> map_ops F' m = 0"
    and g': "group_inv (num_total_virt_pages st) F' m d g'"
    and frame: "\<And>m' d'. (m', d') \<noteq> (m, d) \<Longrightarrow> busy F' m' d' = busy F m' d' \<and> busy_free F' m' d' = busy_free F m' d'"
      "\<And>m'. m' \<noteq> m \<Longrightarrow> map_ops F' m' = map_ops F m'"
  shows "virt_inv (s', F')"
proof -
  have "d < pa_dp_size s" using virt_invD[OF inv st] d by (simp add: model_inv_def)
  from virt_inv_update[OF inv st ms dps _ _ _ _ _ this g' frame] show ?thesis using pend by simp
qed

section \<open>Each critical section keeps the virtual pages\<close>

lemma put_group_sel [simp]:
  "pa_dp_size (put_group m d g s) = pa_dp_size s" "max_world_size (put_group m d g s) = max_world_size s"
  "num_total_phy_pages (put_group m d g s) = num_total_phy_pages s"
  "worker_pages_used (put_group m d g s) = worker_pages_used s"
  "pa_initialized (put_group m d g s) = pa_initialized s"
  by (simp_all add: put_group_def split: option.split)

lemma pending_sel [simp]:
  "pa_dp_size (add_pending m s) = pa_dp_size s" "pa_dp_size (sub_pending m s) = pa_dp_size s"
  "worker_pages_used (add_pending m s) = worker_pages_used s" "worker_pages_used (sub_pending m s) = worker_pages_used s"
  "max_world_size (add_pending m s) = max_world_size s" "max_world_size (sub_pending m s) = max_world_size s"
  "num_total_phy_pages (add_pending m s) = num_total_phy_pages s"
  "num_total_phy_pages (sub_pending m s) = num_total_phy_pages s"
  by (simp_all add: add_pending_def sub_pending_def split: option.split)

lemma put_group_models:
  "model_states s m = Some st \<Longrightarrow>
    model_states (put_group m d g s) = (model_states s)(m \<mapsto> st\<lparr>dp_groups := (dp_groups st)[d := g]\<rparr>)"
  by (simp add: put_group_def)

lemma pending_models:
  "model_states s m = Some st \<Longrightarrow>
    model_states (add_pending m s) = (model_states s)(m \<mapsto> st\<lparr>pending_map_ops := pending_map_ops st + 1\<rparr>)"
  "model_states s m = Some st \<Longrightarrow>
    model_states (sub_pending m s) = (model_states s)(m \<mapsto> st\<lparr>pending_map_ops := pending_map_ops st - 1\<rparr>)"
  by (simp_all add: add_pending_def sub_pending_def)

lemma upd_commute:
  "st\<lparr>pending_map_ops := k, dp_groups := x\<rparr> = st\<lparr>dp_groups := x, pending_map_ops := k\<rparr>" for st :: model_state
  by (cases st) simp

lemmas models_upd = put_group_models pending_models

lemma get_model_state_Inr [simp]: "get_model_state m s = Inr st \<longleftrightarrow> model_states s m = Some st"
  by (simp add: get_model_state_def split: option.split)

lemma group_of_Inr [simp]: "group_of st d = Inr g \<longleftrightarrow> d < length (dp_groups st) \<and> dp_groups st ! d = g"
  by (auto simp: group_of_def)

text \<open>A page in a list or in flight is not in the allocated set.\<close>

lemma group_inv_fresh:
  assumes "group_inv n F m d g"
    and "p \<in># mset (free_virt_page_list g) + mset (reserved_virt_page_list g) + busy F m d"
  shows "p \<notin> allocated_virt_page_list g"
proof
  assume p: "p \<in> allocated_virt_page_list g"
  let ?L = "mset (free_virt_page_list g) + mset (reserved_virt_page_list g) + busy F m d"
  let ?A = "mset_set (allocated_virt_page_list g)"
  have eq: "?L + ?A = mset [0..<n]" using assms(1) by (simp add: group_inv_def add_ac)
  have "count ?A p = 1" using p assms(1) by (simp add: group_inv_def)
  moreover have "0 < count ?L p" using assms(2) by (simp add: count_greater_zero_iff)
  moreover have "count (mset [0..<n]) p \<le> 1"
    using distinct_count_atmost_1[of "[0..<n]"] by (cases "p \<in> set [0..<n]") auto
  ultimately show False using eq by (metis add.commute add_le_same_cancel1 count_union le_zero_eq not_gr_zero)
qed

lemma model_group:
  assumes "virt_inv (s, F)" "model_states s m = Some st" "d < length (dp_groups st)"
  shows "group_inv (num_total_virt_pages st) F m d (dp_groups st ! d)" "d < pa_dp_size s"
    "pending_map_ops st = map_ops F m" "is_sleeping st \<Longrightarrow> map_ops F m = 0"
  using virt_invD[OF assms(1,2)] assms(3) by (auto simp: model_inv_def)

lemma alloc_section1_cases:
  assumes "alloc_section1 m d s = Inr (out, s')"
  obtains st s1 where "model_states s m = Some st" "\<not> is_sleeping st" "alloc_iter m (nat d) st s = Inr (out, s1)"
    "s' = (case out of Need_map p \<Rightarrow> add_pending m s1 | _ \<Rightarrow> s1)"
proof -
  obtain st a s1 where *: "model_states s m = Some st" "\<not> is_sleeping st" "alloc_iter m (nat d) st s = Inr (a, s1)"
    "(case a of Need_map p \<Rightarrow> Inr (a, add_pending m s1) | _ \<Rightarrow> Inr (a, s1)) = (Inr (out, s') :: (alloc_out \<times> pa_state) res)"
    using assms by (auto simp: alloc_section1_def)
  then show thesis using that by (cases a) auto
qed

lemma alloc_reserved_virt:
  assumes "virt_inv (s, F)" "alloc_section1 m d s = Inr (Reserved p, s')"
  shows "virt_inv (s', F)"
proof -
  obtain st s1 where st: "model_states s m = Some st" and it: "alloc_iter m (nat d) st s = Inr (Reserved p, s1)" "s' = s1"
    by (rule alloc_section1_cases[OF assms(2)]) simp
  define g where "g = dp_groups st ! nat d"
  obtain rest s0 where r: "nat d < length (dp_groups st)" "reserved_virt_page_list g = p # rest"
    "s' = put_group m (nat d) (g\<lparr>reserved_virt_page_list := rest,
       num_free_virt_pages := size_sub (num_free_virt_pages g) 1,
       allocated_virt_page_list := insert p (allocated_virt_page_list g)\<rparr>) s0"
    "model_states s0 = model_states s" "pa_dp_size s0 = pa_dp_size s"
    using it by (auto simp: alloc_iter_def Let_def g_def split: list.splits if_splits prod.splits bool.splits)
  note G = model_group[OF assms(1) st r(1), folded g_def]
  have "p \<notin> allocated_virt_page_list g" using group_inv_fresh[OF G(1)] r(2) by simp
  then have "group_inv (num_total_virt_pages st) F m (nat d) (g\<lparr>reserved_virt_page_list := rest,
       num_free_virt_pages := size_sub (num_free_virt_pages g) 1,
       allocated_virt_page_list := insert p (allocated_virt_page_list g)\<rparr>)"
    using G(1) r(2) by (simp add: group_inv_def)
  moreover have "model_states s' = (model_states s)(m \<mapsto> st\<lparr>dp_groups := (dp_groups st)[nat d :=
      g\<lparr>reserved_virt_page_list := rest, num_free_virt_pages := size_sub (num_free_virt_pages g) 1,
       allocated_virt_page_list := insert p (allocated_virt_page_list g)\<rparr>], pending_map_ops := pending_map_ops st\<rparr>)"
    using r(3,4) st put_group_models[of s0 m st] by simp
  ultimately show ?thesis
    using r G by (intro virt_inv_put[OF assms(1) st]) simp_all
qed

lemma alloc_map_virt:
  assumes "virt_inv (s, F)" "alloc_section1 m d s = Inr (Need_map p, s')"
  shows "virt_inv (s', add_mset (F_map m (nat d) p) F)"
proof -
  obtain st s1 where st: "model_states s m = Some st" "\<not> is_sleeping st"
    and it: "alloc_iter m (nat d) st s = Inr (Need_map p, s1)" "s' = add_pending m s1"
    using alloc_section1_cases[OF assms(2)] by auto
  define g where "g = dp_groups st ! nat d"
  obtain rest s0 b where r: "nat d < length (dp_groups st)" "free_virt_page_list g = p # rest"
    "s1 = put_group m (nat d) (g\<lparr>free_virt_page_list := rest,
       num_free_virt_pages := size_sub (num_free_virt_pages g) 1\<rparr>) s0"
    "consume_phy_pages_for_dp m (nat d) (phy_pages_per_virt_page st) s = (b, s0)"
    using it by (auto simp: alloc_iter_def Let_def g_def neq_Nil_conv split: list.splits if_splits prod.splits bool.splits)
  note G = model_group[OF assms(1) st(1) r(1), folded g_def]
  have "group_inv (num_total_virt_pages st) (add_mset (F_map m (nat d) p) F) m (nat d) (g\<lparr>free_virt_page_list := rest,
       num_free_virt_pages := size_sub (num_free_virt_pages g) 1\<rparr>)"
    using G(1) r(2) by (simp add: group_inv_def)
  moreover have "model_states s' = (model_states s)(m \<mapsto> st\<lparr>dp_groups := (dp_groups st)[nat d :=
      g\<lparr>free_virt_page_list := rest, num_free_virt_pages := size_sub (num_free_virt_pages g) 1\<rparr>],
      pending_map_ops := pending_map_ops st + 1\<rparr>)"
    using r(3) st it(2) consume_sel(1)[OF r(4)] by (simp add: models_upd[of _ m])
  ultimately show ?thesis
    using r it(2) st(2) G consume_sel(2)[OF r(4)] by (intro virt_inv_put[OF assms(1) st(1)]) auto
qed

lemma alloc_fail_virt:
  assumes "virt_inv (s, add_mset (F_map m d p) F)" "alloc_section2 m d p False s = Inr s'"
  shows "virt_inv (s', F)"
proof -
  define g where "g s = dp_groups s ! d" for s :: model_state
  define g' where "g' s = g s\<lparr>free_virt_page_list := p # free_virt_page_list (g s),
    num_free_virt_pages := num_free_virt_pages (g s) + 1\<rparr>" for s
  obtain st where st: "model_states s m = Some st" and d: "d < length (dp_groups st)"
    and s': "s' = release_phy_pages_for_dp m d (phy_pages_per_virt_page st) (put_group m d (g' st) (sub_pending m s))"
    using assms(2) by (auto simp: alloc_section2_def Let_def g_def g'_def)
  note G = model_group[OF assms(1) st d, folded g_def]
  have ms: "model_states s' = (model_states s)(m \<mapsto> st\<lparr>dp_groups := (dp_groups st)[d := g' st],
      pending_map_ops := pending_map_ops st - 1\<rparr>)" and dps: "pa_dp_size s' = pa_dp_size s"
    using s' st by (simp_all add: models_upd[of _ m] upd_commute)
  have "group_inv (num_total_virt_pages st) F m d (g' st)" using G(1) by (simp add: group_inv_def g'_def)
  then show ?thesis using st d G by (intro virt_inv_put[OF assms(1) st ms dps]) auto
qed

lemma alloc_mapped_virt:
  assumes "virt_inv (s, add_mset (F_map m d p) F)" "alloc_section2 m d p True s = Inr s'"
  shows "virt_inv (s', add_mset (F_track m d p) F)"
proof -
  obtain st where st: "model_states s m = Some st" and d: "d < length (dp_groups st)" and s': "s' = sub_pending m s"
    using assms(2) by (auto simp: alloc_section2_def Let_def)
  note G = model_group[OF assms(1) st d]
  show ?thesis
    using s' st d G
    by (intro virt_inv_put[OF assms(1) st, where g' = "dp_groups st ! d"]) (auto simp: models_upd[of _ m] group_inv_def)
qed

lemma alloc_track_virt:
  assumes "virt_inv (s, add_mset (F_track m d p) F)" "alloc_section3 m d p s = Inr s'"
  shows "virt_inv (s', F)"
proof -
  define g where "g s = dp_groups s ! d" for s :: model_state
  obtain st where st: "model_states s m = Some st" and d: "d < length (dp_groups st)"
    and s': "s' = put_group m d (g st\<lparr>allocated_virt_page_list := insert p (allocated_virt_page_list (g st))\<rparr>) s"
    using assms(2) by (auto simp: alloc_section3_def g_def)
  note G = model_group[OF assms(1) st d, folded g_def]
  have "p \<notin> allocated_virt_page_list (g st)" by (rule group_inv_fresh[OF G(1)]) simp
  then have "group_inv (num_total_virt_pages st) F m d
      (g st\<lparr>allocated_virt_page_list := insert p (allocated_virt_page_list (g st))\<rparr>)"
    using G(1) by (simp add: group_inv_def)
  then show ?thesis
    using s' st d G by (intro virt_inv_put[OF assms(1) st]) (auto simp: models_upd[of _ m])
qed

lemma mset_set_Diff_list:
  assumes "finite A" "distinct ps" "set ps \<subseteq> A"
  shows "mset_set A = mset ps + mset_set (A - set ps)"
proof -
  have "mset_set A = mset_set (A - set ps) + mset_set (set ps)"
    using assms by (metis Diff_disjoint Int_commute List.finite_set Un_Diff_cancel2 finite_Diff mset_set_Union sup.absorb1)
  then show ?thesis using assms(2) by (simp add: mset_set_set add.commute)
qed

lemma free1_virt:
  assumes "virt_inv (s, F)" "holds_pages m (nat d) ps s" "free_section1 m d ps s = Inr (us, s')"
  shows "virt_inv (s', if us = [] then F else add_mset (F_unmap m (nat d) us) F)"
proof -
  define g where "g s = dp_groups s ! nat d" for s :: model_state
  obtain st where st: "model_states s m = Some st" "nat d < length (dp_groups st)" "distinct ps"
    "set ps \<subseteq> allocated_virt_page_list (g st)"
    using assms(2) by (auto simp: holds_pages_def g_def)
  obtain k where k: "us = drop k ps" "s' = put_group m (nat d)
     (g st\<lparr>allocated_virt_page_list := allocated_virt_page_list (g st) - set ps,
           num_free_virt_pages := num_free_virt_pages (g st) + length ps,
           reserved_virt_page_list := reserved_virt_page_list (g st) @ take k ps\<rparr>) s"
  proof -
    have d: "0 \<le> d" "d < int (pa_dp_size s)" using assms(3) by (auto simp: free_section1_def)
    have noop: "g st\<lparr>allocated_virt_page_list := a, num_free_virt_pages := n,
        reserved_virt_page_list := reserved_virt_page_list (g st)\<rparr> =
      g st\<lparr>allocated_virt_page_list := a, num_free_virt_pages := n\<rparr>" for a n by (cases "g st") simp
    let ?r = "size_sub MAX_RESERVED_PAGES (length (reserved_virt_page_list (g st)))"
    let ?g1 = "g st\<lparr>allocated_virt_page_list := allocated_virt_page_list (g st) - set ps,
       num_free_virt_pages := num_free_virt_pages (g st) + length ps\<rparr>"
    have ms: "get_model_state m s = Inr st" "group_of st (nat d) = Inr (g st)" using st by (simp_all add: g_def)
    have eq: "free_section1 m d ps s = (if is_sleeping st \<or> ?r = 0 then Inr (ps, put_group m (nat d) ?g1 s)
      else Inr (drop (min ?r (length ps)) ps, put_group m (nat d)
        (?g1\<lparr>reserved_virt_page_list := reserved_virt_page_list (g st) @ take (min ?r (length ps)) ps\<rparr>) s))"
      unfolding free_section1_def Let_def using d by (simp add: ms)
    show thesis
    proof (cases "is_sleeping st \<or> ?r = 0")
      case True
      then show thesis using eq assms(3) that[of 0] noop by simp
    next
      case False
      then show thesis using eq assms(3) that[of "min ?r (length ps)"] by simp
    qed
  qed
  note G = model_group[OF assms(1) st(1,2), folded g_def]
  let ?F = "if us = [] then F else add_mset (F_unmap m (nat d) us) F"
  have bz: "busy ?F m (nat d) = mset us + busy F m (nat d)" "busy_free ?F m (nat d) = length us + busy_free F m (nat d)"
    by simp_all
  have "mset_set (allocated_virt_page_list (g st)) = mset ps + mset_set (allocated_virt_page_list (g st) - set ps)"
    using G(1) st(3,4) by (intro mset_set_Diff_list) (simp_all add: group_inv_def)
  moreover have "mset ps = mset (take k ps) + mset us"
    unfolding k(1) by (simp only: mset_take_drop)
  ultimately have al: "mset_set (allocated_virt_page_list (g st)) =
      mset (take k ps) + mset us + mset_set (allocated_virt_page_list (g st) - set ps)"
    by simp
  let ?g = "g st\<lparr>allocated_virt_page_list := allocated_virt_page_list (g st) - set ps,
     num_free_virt_pages := num_free_virt_pages (g st) + length ps,
     reserved_virt_page_list := reserved_virt_page_list (g st) @ take k ps\<rparr>"
  have "group_inv (num_total_virt_pages st) ?F m (nat d) ?g"
    unfolding group_inv_def bz
  proof (intro conjI)
    show "num_free_virt_pages ?g = length (free_virt_page_list ?g) + length (reserved_virt_page_list ?g) +
        (length us + busy_free F m (nat d))"
      using G(1) by (simp add: group_inv_def k(1) min_def)
  qed (use G(1) al in \<open>simp_all add: group_inv_def add_ac\<close>)
  then show ?thesis
    using k(2) st G by (intro virt_inv_put[OF assms(1) st(1)]) (auto simp: models_upd[of _ m])
qed

lemma trim1_virt:
  assumes "virt_inv (s, F)" "trim_section1 m d s = Inr (us, s')"
  shows "virt_inv (s', if us = [] then F else add_mset (F_unmap m (nat d) us) F)"
proof -
  define g where "g s = dp_groups s ! nat d" for s :: model_state
  obtain st where st: "model_states s m = Some st" "nat d < length (dp_groups st)"
    and s': "us = reserved_virt_page_list (g st)" "s' = put_group m (nat d) (g st\<lparr>reserved_virt_page_list := []\<rparr>) s"
    using assms(2) by (auto simp: trim_section1_def g_def)
  note G = model_group[OF assms(1) st, folded g_def]
  let ?F = "if us = [] then F else add_mset (F_unmap m (nat d) us) F"
  have bz: "busy ?F m (nat d) = mset us + busy F m (nat d)" "busy_free ?F m (nat d) = length us + busy_free F m (nat d)"
    by simp_all
  have "group_inv (num_total_virt_pages st) ?F m (nat d) (g st\<lparr>reserved_virt_page_list := []\<rparr>)"
    using G(1) unfolding group_inv_def bz by (auto simp: s'(1) add_ac)
  then show ?thesis
    using s'(2) st G by (intro virt_inv_put[OF assms(1) st(1)]) (auto simp: models_upd[of _ m])
qed

lemma unmap2_virt:
  assumes "virt_inv (s, add_mset (F_unmap m d us) F)" "unmap_section2 m d us ok s = Inr s'"
  shows "virt_inv (s', F)"
proof -
  define g where "g s = dp_groups s ! d" for s :: model_state
  obtain st where st: "model_states s m = Some st" "d < length (dp_groups st)"
    using assms(2) by (auto simp: unmap_section2_def)
  note G = model_group[OF assms(1) st, folded g_def]
  define g' where "g' = (if ok then g st\<lparr>free_virt_page_list := free_virt_page_list (g st) @ us\<rparr>
    else g st\<lparr>reserved_virt_page_list := reserved_virt_page_list (g st) @ us\<rparr>)"
  have ms: "model_states s' = (model_states s)(m \<mapsto> st\<lparr>dp_groups := (dp_groups st)[d := g'],
      pending_map_ops := pending_map_ops st\<rparr>)" and dps: "pa_dp_size s' = pa_dp_size s"
    using assms(2) st by (auto simp: unmap_section2_def g_def g'_def models_upd[of _ m] split: if_splits)
  have "group_inv (num_total_virt_pages st) F m d g'"
    using G(1) by (auto simp: group_inv_def g'_def add_ac)
  then show ?thesis using st G ms dps by (intro virt_inv_put[OF assms(1) st(1) ms dps]) auto
qed

lemma consume_False: "consume_phy_pages_for_dp m d n s = (False, s') \<Longrightarrow> s' = s"
  by (auto simp: consume_phy_pages_for_dp_def split: prod.splits if_splits)

lemma collect_one_cases:
  assumes "collect_one m d (s, jobs) = Inr (s', jobs')" "model_states s m = Some st"
  obtains (same) "s' = s" "jobs' = jobs"
  | (took) k s0 n where "d < length (dp_groups st)" "jobs' = jobs @ [(m, d, take k (free_virt_page_list (dp_groups st ! d)))]"
      "s' = put_group m d ((dp_groups st ! d)\<lparr>free_virt_page_list := drop k (free_virt_page_list (dp_groups st ! d))\<rparr>) s0"
      "consume_phy_pages_for_dp m d n s = (True, s0)"
proof (cases "is_sleeping st")
  case True
  then show thesis using assms same by (simp add: collect_one_def get_model_state_def)
next
  case False
  define g where "g = dp_groups st ! d"
  have ms: "get_model_state m s = Inr st" using assms(2) by simp
  have d: "d < length (dp_groups st)" and ppv: "phy_pages_per_virt_page st \<noteq> 0"
    using assms False by (auto simp: collect_one_def ms split: if_splits)
  have gr: "group_of st d = Inr g" using d by (simp add: g_def)
  define k where "k = min (min (if length (reserved_virt_page_list g) < MIN_RESERVED_PAGES
      then MIN_RESERVED_PAGES - length (reserved_virt_page_list g) else 0) (length (free_virt_page_list g)))
      ((case get_dp_group_worker_range m d s of (a, b) \<Rightarrow> get_min_free_pages_in_range a b s) div phy_pages_per_virt_page st)"
  define n where "n = length (take k (free_virt_page_list g)) * phy_pages_per_virt_page st"
  have eq: "collect_one m d (s, jobs) = (if k = 0 then Inr (s, jobs) else
      case consume_phy_pages_for_dp m d n s of
        (True, s') \<Rightarrow> Inr (put_group m d (g\<lparr>free_virt_page_list := drop k (free_virt_page_list g)\<rparr>) s',
                          jobs @ [(m, d, take k (free_virt_page_list g))])
      | (False, s') \<Rightarrow> Inr (s', jobs))"
    unfolding collect_one_def prod.case ms bindE_Inr gr Let_def k_def[symmetric] n_def[symmetric]
    using False ppv by simp
  show thesis
  proof (cases "k = 0")
    case True
    then show thesis using eq assms(1) same by simp
  next
    case k: False
    obtain b s0 where c: "consume_phy_pages_for_dp m d n s = (b, s0)" by (cases "consume_phy_pages_for_dp m d n s")
    show thesis
    proof (cases b)
      case True
      then show thesis using eq assms(1) k c d took[of k s0 n] by (simp add: g_def)
    next
      case False
      then show thesis using eq assms(1) k c consume_False[of m d n s s0] same by simp
    qed
  qed
qed

lemma collect_one_virt:
  assumes "virt_inv (s, mset (map job_flight jobs) + F)" "collect_one m d (s, jobs) = Inr (s', jobs')"
  shows "virt_inv (s', mset (map job_flight jobs') + F) \<and> pa_dp_size s' = pa_dp_size s"
proof -
  obtain st where st: "model_states s m = Some st" using assms(2) by (auto simp: collect_one_def)
  from assms(2) st show ?thesis
  proof (cases rule: collect_one_cases)
    case same
    then show ?thesis using assms(1) by simp
  next
    case (took k s0 n)
    define g where "g = dp_groups st ! d"
    note c = took[folded g_def]
    let ?ps = "take k (free_virt_page_list g)"
    note G = model_group[OF assms(1) st c(1), folded g_def]
    let ?F = "mset (map job_flight jobs') + F"
    have bz: "?F = add_mset (F_job m d ?ps) (mset (map job_flight jobs) + F)"
      unfolding c(2) by (simp add: job_flight_def)
    have ms: "model_states s' = (model_states s)(m \<mapsto> st\<lparr>dp_groups := (dp_groups st)[d :=
        g\<lparr>free_virt_page_list := drop k (free_virt_page_list g)\<rparr>], pending_map_ops := pending_map_ops st\<rparr>)"
      and dps: "pa_dp_size s' = pa_dp_size s"
      using c(3) st consume_sel[OF c(4)] by (simp_all add: models_upd[of _ m])
    have "mset (free_virt_page_list g) = mset ?ps + mset (drop k (free_virt_page_list g))"
      by (simp only: mset_take_drop)
    then have "group_inv (num_total_virt_pages st) ?F m d (g\<lparr>free_virt_page_list := drop k (free_virt_page_list g)\<rparr>)"
      using G(1) unfolding bz group_inv_def by (simp add: add_ac min_def)
    moreover have "pending_map_ops st = map_ops ?F m" "is_sleeping st \<Longrightarrow> map_ops ?F m = 0"
      using G(3,4) unfolding bz by simp_all
    ultimately have "virt_inv (s', ?F)"
      unfolding bz by (intro virt_inv_put[OF assms(1) st ms dps c(1)]) auto
    then show ?thesis using dps by simp
  qed
qed

lemma pre1_virt:
  assumes "virt_inv (s, F)" "prealloc_section1 order s = Inr (s', jobs)"
  shows "virt_inv (s', mset (map job_flight jobs) + F)"
proof -
  have "virt_inv (fst y, mset (map job_flight (snd y)) + F)"
    if "foldE (\<lambda>(m, d). collect_one m d) xs y0 = Inr y" "virt_inv (fst y0, mset (map job_flight (snd y0)) + F)" for xs y0 y
    using that by (rule foldE_invar) (use collect_one_virt in \<open>auto simp del: mset_map\<close>)
  from this[OF assms(2)[unfolded prealloc_section1_def]] show ?thesis
    using assms(1) virt_inv_cong[of "s\<lparr>prealloc_needed := False\<rparr>" s F] by simp
qed

lemma pre2_skip_virt:
  assumes "virt_inv (s, add_mset (F_job m d ps) F)" "prealloc_section2 (m, d, ps) s = Inr (False, s')"
  shows "virt_inv (s', F)"
proof (cases "model_states s m")
  case None
  have "quiet (add_mset (F_job m d ps) F) m" by (rule virt_invN[OF assms(1) None])
  then have "ps = []" by (auto simp: quiet_def) (metis mset_zero_iff)
  have "s' = s" using assms(2) None by (simp add: prealloc_section2_def)
  have b: "busy (add_mset (F_job m d ps) F) = busy F" "busy_free (add_mset (F_job m d ps) F) = busy_free F"
    "map_ops (add_mset (F_job m d ps) F) = map_ops F"
    using \<open>ps = []\<close> by (auto simp: fun_eq_iff)
  then have "quiet (add_mset (F_job m d ps) F) = quiet F" "model_inv k (add_mset (F_job m d ps) F) = model_inv k F" for k
    by (simp_all add: fun_eq_iff quiet_def model_inv_def group_inv_def)
  then show ?thesis using assms(1) \<open>s' = s\<close> by (simp add: virt_inv_def cong: option.case_cong)
next
  case (Some st)
  define g where "g = dp_groups st ! d"
  define g' where "g' = g\<lparr>free_virt_page_list := ps @ free_virt_page_list g\<rparr>"
  have d: "d < length (dp_groups st)"
    and s': "s' = release_phy_pages_for_dp m d (length ps * phy_pages_per_virt_page st) (put_group m d g' s)"
    using assms(2) Some by (auto simp: prealloc_section2_def g_def g'_def split: if_splits)
  note G = model_group[OF assms(1) Some d, folded g_def]
  have ms: "model_states s' = (model_states s)(m \<mapsto> st\<lparr>dp_groups := (dp_groups st)[d := g'],
      pending_map_ops := pending_map_ops st\<rparr>)" and dps: "pa_dp_size s' = pa_dp_size s"
    using s' Some by (simp_all add: models_upd[of _ m])
  have "group_inv (num_total_virt_pages st) F m d g'"
    using G(1) by (simp add: group_inv_def g'_def add_ac)
  then show ?thesis using d G by (intro virt_inv_put[OF assms(1) Some ms dps]) auto
qed

lemma pre2_map_virt:
  assumes "virt_inv (s, add_mset (F_job m d ps) F)" "prealloc_section2 (m, d, ps) s = Inr (True, s')"
  shows "virt_inv (s', add_mset (F_jobmap m d ps) F)"
proof -
  obtain st where st: "model_states s m = Some st" "\<not> is_sleeping st" and s': "s' = add_pending m s"
    using assms(2) by (auto simp: prealloc_section2_def split: option.splits if_splits)
  have mi: "model_inv (pa_dp_size s) (add_mset (F_job m d ps) F) m st" by (rule virt_invD[OF assms(1) st(1)])
  show ?thesis
    using st s' mi
    by (intro virt_inv_flags[OF assms(1) st(1), where st' = "st\<lparr>pending_map_ops := pending_map_ops st + 1\<rparr>"])
      (auto simp: models_upd[of _ m] model_inv_def)
qed

lemma pre3_virt:
  assumes "virt_inv (s, add_mset (F_jobmap m d ps) F)" "prealloc_section3 (m, d, ps) ok s = Inr s'"
  shows "virt_inv (s', F)"
proof (cases "model_states s m")
  case None
  have "quiet (add_mset (F_jobmap m d ps) F) m" by (rule virt_invN[OF assms(1) None])
  then show ?thesis by (simp add: quiet_def)
next
  case (Some st)
  define g where "g = dp_groups st ! d"
  define g' where "g' = (if ok then g\<lparr>reserved_virt_page_list := reserved_virt_page_list g @ ps\<rparr>
    else g\<lparr>free_virt_page_list := ps @ free_virt_page_list g\<rparr>)"
  have d: "d < length (dp_groups st)"
    using assms(2) Some by (auto simp: prealloc_section3_def Let_def)
  note G = model_group[OF assms(1) Some d, folded g_def]
  have aw: "\<not> is_sleeping st" using G(4) by auto
  have gr: "group_of st d = Inr g" using d by (simp add: g_def)
  have ms: "model_states s' = (model_states s)(m \<mapsto> st\<lparr>dp_groups := (dp_groups st)[d := g'],
      pending_map_ops := pending_map_ops st - 1\<rparr>)" and dps: "pa_dp_size s' = pa_dp_size s"
  proof -
    have s': "s' = (if ok then put_group m d g' (sub_pending m s)
        else release_phy_pages_for_dp m d (length ps * phy_pages_per_virt_page st) (put_group m d g' (sub_pending m s)))"
      using assms(2) Some aw gr by (simp add: prealloc_section3_def Let_def g'_def split: if_splits)
    show "model_states s' = (model_states s)(m \<mapsto> st\<lparr>dp_groups := (dp_groups st)[d := g'],
        pending_map_ops := pending_map_ops st - 1\<rparr>)" "pa_dp_size s' = pa_dp_size s"
      using Some by (simp_all add: s' models_upd[of _ m] upd_commute)
  qed
  have "group_inv (num_total_virt_pages st) F m d g'"
    using G(1) by (auto simp: group_inv_def g'_def add_ac)
  then show ?thesis using d G by (intro virt_inv_put[OF assms(1) Some ms dps]) auto
qed

text \<open>The branch of \<open>prealloc_worker\<close> for a model that fell asleep during the mapping never runs.\<close>

lemma pre3_awake:
  assumes "virt_inv (s, add_mset (F_jobmap m d ps) F)" "model_states s m = Some st"
  shows "\<not> is_sleeping st"
  using virt_invD[OF assms] by (auto simp: model_inv_def)

lemma flags_virt:
  assumes "virt_inv (s, F)" "model_states s m = Some st" "model_states s' = (model_states s)(m \<mapsto> st')"
    "pa_dp_size s' = pa_dp_size s" "dp_groups st' = dp_groups st" "num_total_virt_pages st' = num_total_virt_pages st"
    "phy_pages_per_virt_page st' = phy_pages_per_virt_page st" "pending_map_ops st' = pending_map_ops st"
    "is_sleeping st' \<Longrightarrow> is_sleeping st \<or> pending_map_ops st = 0"
  shows "virt_inv (s', F)"
  using virt_invD[OF assms(1,2)] assms
  by (intro virt_inv_flags[OF assms(1-7)]) (auto simp: model_inv_def)

lemma register_virt:
  assumes "virt_inv (s, F)" "register_model m layers s = Inr (b, s')"
  shows "virt_inv (s', F)"
proof (cases "model_states s m")
  case (Some st)
  then show ?thesis using assms by (simp add: register_model_def)
next
  case None
  note q = virt_invN[OF assms(1) None]
  obtain st where s': "s' = s\<lparr>model_states := (model_states s)(m \<mapsto> st)\<rparr>" "length (dp_groups st) = pa_dp_size s"
    "0 < phy_pages_per_virt_page st" "pending_map_ops st = 0" "\<not> is_sleeping st"
    "\<forall>d < pa_dp_size s. dp_groups st ! d = \<lparr>num_free_virt_pages = num_total_virt_pages st,
      free_virt_page_list = [0..<num_total_virt_pages st], reserved_virt_page_list = [], allocated_virt_page_list = {}\<rparr>"
    using assms(2) None by (auto simp: register_model_def Let_def split: if_splits)
  have "model_inv (pa_dp_size s) F m st"
    using s' q by (auto simp: model_inv_def quiet_def group_inv_def)
  moreover have "case model_states s m' of None \<Rightarrow> quiet F m' | Some t \<Rightarrow> model_inv (pa_dp_size s) F m' t" for m'
    using assms(1) by (simp add: virt_inv_def)
  ultimately show ?thesis unfolding virt_inv_def by (simp add: s'(1) cong: option.case_cong)
qed

lemma no_page_flights:
  "(\<And>m' d'. flight_pages m' d' f = {#} \<and> flight_free m' d' f = 0 \<and> flight_maps m' f = 0) \<Longrightarrow>
    virt_inv (s, add_mset f F) = virt_inv (s, F)"
  by (simp add: virt_inv_def quiet_def model_inv_def group_inv_def cong: option.case_cong)

end
