(* ===== verification/Page_Allocator_Inv.thy ===== *)
theory Page_Allocator_Inv
  imports Page_Allocator_Steps
begin

text \<open>
  The invariants of theory \<open>Page_Allocator_Steps\<close> hold in every reachable state, the loop of
  \<open>alloc_kv_cache_page\<close> needs one iteration, and the sleep/wakeup round trip restores the
  per-worker counts.
\<close>

section \<open>Virtual pages\<close>

lemma sleep_section1_unmap:
  assumes "sleep_section1 ord m r s = Inr (Sleep_unmap gs ppv w, s')"
  obtains st where "model_states s m = Some st" "pending_map_ops st = 0"
    "s' = s\<lparr>model_states := (model_states s)(m \<mapsto> st\<lparr>is_sleeping := True\<rparr>)\<rparr>"
    "gs = mapped_groups ord st (pa_dp_size s)" "ppv = phy_pages_per_virt_page st" "w = weight_pages_allocated st"
  using assms by (auto simp: sleep_section1_def split: option.splits if_splits)

lemma sleep_virt:
  assumes "virt_inv (s, F)" "sleep_section1 ord m r s = Inr (Sleep_unmap gs ppv w, s')"
  shows "virt_inv (s', add_mset (F_sleep m gs ppv) F)"
proof -
  obtain st where st: "model_states s m = Some st" "pending_map_ops st = 0"
    "s' = s\<lparr>model_states := (model_states s)(m \<mapsto> st\<lparr>is_sleeping := True\<rparr>)\<rparr>"
    using sleep_section1_unmap[OF assms(2)] by metis
  have "virt_inv (s', F)"
    using st by (intro flags_virt[OF assms(1) st(1), where st' = "st\<lparr>is_sleeping := True\<rparr>"]) simp_all
  then show ?thesis by (subst no_page_flights) auto
qed

lemma sleep_section2_sel:
  "model_states (sleep_section2 m ppv rs s) = model_states s \<and> pa_dp_size (sleep_section2 m ppv rs s) = pa_dp_size s \<and>
   max_world_size (sleep_section2 m ppv rs s) = max_world_size s \<and>
   num_total_phy_pages (sleep_section2 m ppv rs s) = num_total_phy_pages s"
  by (induction m ppv rs s rule: sleep_section2.induct) auto

lemma wakeup_section1_sel:
  "wakeup_section1 ord m s = Inr (r, s') \<Longrightarrow> model_states s' = model_states s \<and> pa_dp_size s' = pa_dp_size s"
  by (auto simp: wakeup_section1_def Let_def split: option.splits if_splits)

lemma wakeup_section3_virt: "virt_inv (s, F) \<Longrightarrow> virt_inv (wakeup_section3 m s, F)"
proof (cases "model_states s m")
  case (Some st)
  assume "virt_inv (s, F)"
  then show ?thesis
    by (rule flags_virt[OF _ Some, where st' = "st\<lparr>is_sleeping := False\<rparr>"]) (simp_all add: wakeup_section3_def Some)
qed (simp add: wakeup_section3_def)

lemma strategy_virt: "virt_inv (s, F) \<Longrightarrow> virt_inv (set_model_parallel_strategy m dp tp s, F)"
proof (cases "model_states s m")
  case (Some st)
  assume "virt_inv (s, F)"
  then show ?thesis
    by (rule flags_virt[OF _ Some, where st' = "st\<lparr>model_dp_size := dp, model_tp_size := tp, model_world_size := dp * tp\<rparr>"])
      (simp_all add: set_model_parallel_strategy_def Some)
qed (simp add: set_model_parallel_strategy_def)

lemma weight_alloc_virt:
  assumes "virt_inv (s, F)" "weight_alloc_section m n s = Inr (b, s')"
  shows "virt_inv (s', F)"
proof -
  obtain st where st: "model_states s m = Some st" using assms(2) by (auto simp: weight_alloc_section_def)
  show ?thesis
  proof (cases "s' = s")
    case False
    have "model_states s' = (model_states s)(m \<mapsto> st\<lparr>weight_pages_allocated := n\<rparr>)" "pa_dp_size s' = pa_dp_size s"
      using assms(2) st False by (auto simp: weight_alloc_section_def Let_def split: if_splits)
    then show ?thesis
      by (intro flags_virt[OF assms(1) st, where st' = "st\<lparr>weight_pages_allocated := n\<rparr>"]) simp_all
  qed (simp add: assms(1))
qed

lemma weight_set_virt:
  assumes "virt_inv (s, F)" "set_weight_pages_count m n s = Inr s'"
  shows "virt_inv (s', F)"
proof -
  obtain st where st: "model_states s m = Some st" "s' = s\<lparr>model_states := (model_states s)(m \<mapsto> st\<lparr>weight_pages_allocated := n\<rparr>)\<rparr>"
    using assms(2) by (auto simp: set_weight_pages_count_def)
  then show ?thesis
    by (intro flags_virt[OF assms(1) st(1), where st' = "st\<lparr>weight_pages_allocated := n\<rparr>"]) simp_all
qed

lemma virt_inv_step:
  assumes "pa_step x y" "virt_inv x"
  shows "virt_inv y"
  using assms
proof (cases rule: pa_step.cases)
  case (trigger s F b)
  then show ?thesis using assms(2) virt_inv_cong[of "s\<lparr>prealloc_needed := b\<rparr>" s F] by simp
next
  case (weight_free m n s s' F)
  then have "model_states s' = model_states s" "pa_dp_size s' = pa_dp_size s" by (auto simp: weight_free_section_def)
  then show ?thesis using weight_free assms(2) virt_inv_cong[of s' s F] by simp
next
  case (sleep_wait ord m s s' F)
  then have "s' = s" by (auto simp: sleep_section1_def split: option.splits if_splits)
  then show ?thesis using sleep_wait assms(2) by (simp add: no_page_flights)
next
  case (sleep_resume ord m s gs ppv w s' F)
  then have "virt_inv (s, F)" using assms(2) by (simp add: no_page_flights)
  then show ?thesis using sleep_resume sleep_virt by blast
next
  case (sleep2 rs gs s m ppv F)
  have "virt_inv (s, F)" using sleep2 assms(2) by (simp add: no_page_flights)
  then show ?thesis using sleep2 sleep_section2_sel virt_inv_cong by metis
next
  case (wake1 ord m s r s' F)
  have "virt_inv (s', F)" using wake1 assms(2) wakeup_section1_sel virt_inv_cong by metis
  then show ?thesis using wake1 by (simp add: no_page_flights)
next
  case (wake3 s m F)
  have "virt_inv (s, F)" using wake3 assms(2) by (simp add: no_page_flights)
  then show ?thesis using wake3 wakeup_section3_virt by simp
next
  case (wake_fail s m F)
  then show ?thesis using assms(2) by (simp add: no_page_flights)
next
  case (register m layers s b s' F)
  show ?thesis using register_virt[OF assms(2)[unfolded register(1)]] register by (simp del: mset_map)
next
  case (strategy s F m dp tp)
  show ?thesis using strategy_virt[OF assms(2)[unfolded strategy(1)]] strategy by (simp del: mset_map)
next
  case (alloc_reserved m d s p s' F)
  show ?thesis using alloc_reserved_virt[OF assms(2)[unfolded alloc_reserved(1)]] alloc_reserved by (simp del: mset_map)
next
  case (alloc_map m d s p s' F)
  show ?thesis using alloc_map_virt[OF assms(2)[unfolded alloc_map(1)]] alloc_map by (simp del: mset_map)
next
  case (alloc_fail m d p s s' F)
  show ?thesis using alloc_fail_virt[OF assms(2)[unfolded alloc_fail(1)]] alloc_fail by (simp del: mset_map)
next
  case (alloc_mapped m d p s s' F)
  show ?thesis using alloc_mapped_virt[OF assms(2)[unfolded alloc_mapped(1)]] alloc_mapped by (simp del: mset_map)
next
  case (alloc_track m d p s s' F)
  show ?thesis using alloc_track_virt[OF assms(2)[unfolded alloc_track(1)]] alloc_track by (simp del: mset_map)
next
  case (free1 m d ps s us s' F)
  show ?thesis using free1_virt[OF assms(2)[unfolded free1(1)]] free1 by (simp del: mset_map)
next
  case (trim1 m d s us s' F)
  show ?thesis using trim1_virt[OF assms(2)[unfolded trim1(1)]] trim1 by (simp del: mset_map)
next
  case (unmap2 m d us ok s s' F)
  show ?thesis using unmap2_virt[OF assms(2)[unfolded unmap2(1)]] unmap2 by (simp del: mset_map)
next
  case (pre1 order s s' jobs F)
  show ?thesis using pre1_virt[OF assms(2)[unfolded pre1(1)]] pre1 by (simp del: mset_map)
next
  case (pre2_skip m d ps s s' F)
  show ?thesis using pre2_skip_virt[OF assms(2)[unfolded pre2_skip(1)]] pre2_skip by (simp del: mset_map)
next
  case (pre2_map m d ps s s' F)
  show ?thesis using pre2_map_virt[OF assms(2)[unfolded pre2_map(1)]] pre2_map by (simp del: mset_map)
next
  case (pre3 m d ps ok s s' F)
  show ?thesis using pre3_virt[OF assms(2)[unfolded pre3(1)]] pre3 by (simp del: mset_map)
next
  case (weight_alloc m n s b s' F)
  show ?thesis using weight_alloc_virt[OF assms(2)[unfolded weight_alloc(1)]] weight_alloc by (simp del: mset_map)
next
  case (weight_set m n s s' F)
  show ?thesis using weight_set_virt[OF assms(2)[unfolded weight_set(1)]] weight_set by (simp del: mset_map)
next
  case (sleep1 ord m s gs ppv w s' F)
  show ?thesis using sleep_virt[OF assms(2)[unfolded sleep1(1)]] sleep1 by (simp del: mset_map)
qed

lemma virt_inv_start: "(\<And>m. model_states s m = None) \<Longrightarrow> virt_inv (pa_start s)"
  by (simp add: virt_inv_def pa_start_def quiet_def)

lemma virt_inv_reachable:
  assumes "pa_reachable s0 x" "\<And>m. model_states s0 m = None"
  shows "virt_inv x"
  using assms(1) virt_inv_start[of s0] assms(2) unfolding pa_reachable_def
  by (induction rule: rtranclp_induct) (auto intro: virt_inv_step)

section \<open>Physical pages\<close>

lemma fold_min_le: "fold (\<lambda>w acc. min acc (f w)) ws a \<le> (a :: nat)"
proof (induction ws arbitrary: a)
  case (Cons w ws)
  have "fold (\<lambda>w acc. min acc (f w)) ws (min a (f w)) \<le> min a (f w)" by (rule Cons)
  then show ?case by simp
qed simp

lemma fold_min_le_elem: "w \<in> set ws \<Longrightarrow> fold (\<lambda>w acc. min acc (f w)) ws a \<le> (f w :: nat)"
proof (induction ws arbitrary: a)
  case (Cons v ws)
  then show ?case using fold_min_le[of f ws "min a (f v)"] by auto
qed simp

lemma on_workers_phys:
  assumes "phys_inv s" "\<And>w. a \<le> w \<Longrightarrow> w < b \<Longrightarrow> w < length (worker_pages_used s) \<Longrightarrow>
    f (worker_pages_used s ! w) \<le> num_total_phy_pages s"
  shows "phys_inv (on_workers a b f s)"
  using assms by (auto simp: phys_inv_def on_workers_def)

lemma phys_inv_cong:
  "worker_pages_used s' = worker_pages_used s \<Longrightarrow> max_world_size s' = max_world_size s \<Longrightarrow>
    num_total_phy_pages s' = num_total_phy_pages s \<Longrightarrow> phys_inv s' = phys_inv s"
  by (simp add: phys_inv_def)

lemma consume_range_phys:
  assumes "phys_inv s" "n \<le> get_min_free_pages_in_range a b s"
  shows "phys_inv (on_workers a b (\<lambda>u. u + n) s)"
proof (rule on_workers_phys[OF assms(1)])
  fix w assume w: "a \<le> w" "w < b" "w < length (worker_pages_used s)"
  then have "w \<in> set [a..<min b (max_world_size s)]" using assms(1) by (simp add: phys_inv_def)
  then have "get_min_free_pages_in_range a b s \<le> worker_free s w"
    unfolding get_min_free_pages_in_range_def by (rule fold_min_le_elem)
  moreover have "worker_pages_used s ! w \<le> num_total_phy_pages s" using assms(1) w by (simp add: phys_inv_def)
  ultimately show "worker_pages_used s ! w + n \<le> num_total_phy_pages s"
    using assms(2) by (simp add: worker_free_def)
qed

lemma consume_phys:
  assumes "phys_inv s" "consume_phy_pages_for_dp m d n s = (b, s')"
  shows "phys_inv s'"
proof (cases "get_dp_group_worker_range m d s")
  case (Pair a e)
  then show ?thesis
    using assms consume_range_phys[OF assms(1), of n a e]
    by (auto simp: consume_phy_pages_for_dp_def split: if_splits)
qed

lemma release_count_le: "u \<le> t \<Longrightarrow> release_count n u \<le> t"
  by (auto simp: release_count_def)

lemma release_phys: "phys_inv s \<Longrightarrow> phys_inv (on_workers a b (release_count n) s)"
  by (rule on_workers_phys) (auto simp: phys_inv_def release_count_le)

lemma release_dp_phys: "phys_inv s \<Longrightarrow> phys_inv (release_phy_pages_for_dp m d n s)"
  by (simp add: release_phy_pages_for_dp_def release_phys split: prod.split)

lemma put_group_phys [simp]: "phys_inv (put_group m d g s) = phys_inv s"
  by (rule phys_inv_cong) simp_all

lemma pending_phys [simp]: "phys_inv (add_pending m s) = phys_inv s" "phys_inv (sub_pending m s) = phys_inv s"
  by (rule phys_inv_cong; simp)+

lemma prealloc_flag_phys [simp]: "phys_inv (s\<lparr>prealloc_needed := b\<rparr>) = phys_inv s"
  by (simp add: phys_inv_def)

lemma models_phys [simp]: "phys_inv (s\<lparr>model_states := x\<rparr>) = phys_inv s"
  by (simp add: phys_inv_def)

lemma alloc_iter_phys:
  assumes "phys_inv s" "alloc_iter m d st s = Inr (out, s')"
  shows "phys_inv s'"
proof -
  obtain g where g: "group_of st d = Inr g" using assms(2) by (auto simp: alloc_iter_def simp del: group_of_Inr)
  let ?n = "phy_pages_per_virt_page st"
  obtain b s0 where c: "consume_phy_pages_for_dp m d ?n s = (b, s0)" by (cases "consume_phy_pages_for_dp m d ?n s")
  show ?thesis
    using assms(2) assms(1) consume_phys[OF assms(1) c]
    unfolding alloc_iter_def g bindE_Inr Let_def c
    by (auto split: list.splits if_splits bool.splits)
qed

lemma collect_one_phys:
  assumes "phys_inv (fst x)" "collect_one m d x = Inr y"
  shows "phys_inv (fst y)"
proof -
  obtain s jobs s' jobs' where xy: "x = (s, jobs)" "y = (s', jobs')" by (cases x; cases y)
  obtain st where st: "model_states s m = Some st" using assms(2) xy by (auto simp: collect_one_def)
  from assms(2)[unfolded xy] st show ?thesis
    by (cases rule: collect_one_cases) (use assms(1) xy consume_phys in auto)
qed

lemma pre1_phys:
  assumes "phys_inv s" "prealloc_section1 order s = Inr (s', jobs)"
  shows "phys_inv s'"
proof -
  have "phys_inv (fst (s', jobs))"
    using assms(2) unfolding prealloc_section1_def
    by (rule foldE_invar) (use assms(1) collect_one_phys in auto)
  then show ?thesis by simp
qed

lemma sleep_section2_phys: "phys_inv s \<Longrightarrow> phys_inv (sleep_section2 m ppv rs s)"
  by (induction m ppv rs s rule: sleep_section2.induct) (auto simp: release_dp_phys)

lemma wakeup_section1_phys:
  assumes "phys_inv s" "wakeup_section1 ord m s = Inr (Some r, s')"
  shows "phys_inv s'"
proof -
  obtain st where st: "model_states s m = Some st" using assms(2) by (auto simp: wakeup_section1_def split: option.splits)
  define need where "need = wakeup_need m (mapped_groups ord st (pa_dp_size s)) st s"
  have ok: "\<not> (need w \<noteq> 0 \<and> worker_free s w < need w)" if "w < max_world_size s" for w
    using assms(2) st that by (auto simp: wakeup_section1_def Let_def need_def split: if_splits)
  have s': "s' = s\<lparr>worker_pages_used := map (\<lambda>w. worker_pages_used s ! w + need w) [0..<length (worker_pages_used s)]\<rparr>"
    using assms(2) st by (auto simp: wakeup_section1_def Let_def need_def split: if_splits)
  have "worker_pages_used s ! w + need w \<le> num_total_phy_pages s" if w: "w < length (worker_pages_used s)" for w
  proof -
    have "worker_pages_used s ! w \<le> num_total_phy_pages s" "w < max_world_size s"
      using assms(1) w by (auto simp: phys_inv_def)
    then show ?thesis using ok[of w] by (auto simp: worker_free_def)
  qed
  then show ?thesis using assms(1) by (auto simp: phys_inv_def s')
qed

lemma phys_inv_step:
  assumes "pa_step x y" "phys_inv (fst x)"
  shows "phys_inv (fst y)"
  using assms
proof (cases rule: pa_step.cases)
  case (alloc_reserved m d s p s' F)
  then show ?thesis
    using assms(2) alloc_iter_phys by (auto elim!: alloc_section1_cases split: alloc_out.splits)
next
  case (alloc_map m d s p s' F)
  then show ?thesis
    using assms(2) alloc_iter_phys by (auto elim!: alloc_section1_cases split: alloc_out.splits)
next
  case (pre1 order s s' jobs F)
  then show ?thesis using assms(2) pre1_phys by simp
next
  case (wake1 ord m s r s' F)
  then show ?thesis using assms(2) wakeup_section1_phys by simp
next
  case (weight_alloc m n s b s' F)
  then show ?thesis
    using assms(2) consume_range_phys[of s n 0]
    by (auto simp: weight_alloc_section_def Let_def split: if_splits)
qed (use assms(2) in \<open>auto simp: register_model_def set_model_parallel_strategy_def alloc_section2_def alloc_section3_def
    free_section1_def trim_section1_def unmap_section2_def prealloc_section2_def prealloc_section3_def
    weight_free_section_def set_weight_pages_count_def sleep_section1_def wakeup_section3_def Let_def
    release_dp_phys release_phys sleep_section2_phys
    split: option.splits if_splits\<close>)+

lemma phys_inv_reachable:
  assumes "pa_reachable s0 x" "phys_inv s0"
  shows "phys_inv (fst x)"
  using assms(1) unfolding pa_reachable_def
  by (induction rule: rtranclp_induct) (use assms(2) phys_inv_step in \<open>auto simp: pa_start_def\<close>)

section \<open>The loop of \<open>alloc_kv_cache_page\<close>\<close>

text \<open>Neither the rollback nor the wait is ever reached.\<close>

lemma alloc_iter_decides:
  assumes "alloc_iter m d st s = Inr (out, s')"
  shows "\<exists>p. out = Reserved p \<or> out = Need_map p"
  using assms
  by (auto simp: alloc_iter_def has_enough_phy_pages_for_dp_def consume_phy_pages_for_dp_def Let_def
      split: list.splits if_splits prod.splits bool.splits)

lemma pa_alloc_loop_once: "pa_alloc_loop m d s = Some (alloc_section1 m d s)"
proof (cases "alloc_section1 m d s")
  case (Inl e)
  then show ?thesis by (subst pa_alloc_loop.simps) simp
next
  case (Inr r)
  obtain out s' where r: "r = (out, s')" by (cases r)
  obtain st s1 where "alloc_iter m (nat d) st s = Inr (out, s1)"
    using Inr r by (auto elim: alloc_section1_cases)
  then obtain p where "out = Reserved p \<or> out = Need_map p" using alloc_iter_decides by blast
  then show ?thesis using Inr r by (subst pa_alloc_loop.simps) auto
qed

lemma alloc_kv_cache_page_returns: "\<exists>r. alloc_kv_cache_page bmap m d s = Some r"
  by (auto simp: alloc_kv_cache_page_def pa_alloc_loop_once Let_def split: sum.split alloc_out.split)

text \<open>With no reserved page and too few physical pages the method throws; \<open>nullptr\<close> means that
  the mapping failed.\<close>

lemma alloc_no_phy_pages:
  assumes "pa_initialized s" "0 \<le> d" "d < int (pa_dp_size s)" "model_states s m = Some st" "\<not> is_sleeping st"
    and "nat d < length (dp_groups st)" "reserved_virt_page_list (dp_groups st ! nat d) = []"
    and "\<not> has_enough_phy_pages_for_dp m (nat d) (phy_pages_per_virt_page st) s"
  shows "alloc_kv_cache_page bmap m d s = Some (Inl Runtime_error)"
proof -
  have ms: "get_model_state m s = Inr st" "group_of st (nat d) = Inr (dp_groups st ! nat d)" using assms by simp_all
  have "alloc_section1 m d s = Inl Runtime_error"
    unfolding alloc_section1_def alloc_iter_def using assms by (simp add: ms)
  then show ?thesis by (simp add: alloc_kv_cache_page_def pa_alloc_loop_once)
qed

lemma alloc_null_map_failed:
  assumes "alloc_kv_cache_page bmap m d s = Some (Inr (None, s'))"
  shows "\<exists>p. \<not> bmap m (nat d) [p]"
proof -
  obtain out s1 where o: "alloc_section1 m d s = Inr (out, s1)"
    using assms by (cases "alloc_section1 m d s") (auto simp: alloc_kv_cache_page_def pa_alloc_loop_once)
  obtain st s0 where "alloc_iter m (nat d) st s = Inr (out, s0)" using o by (auto elim: alloc_section1_cases)
  then obtain p where "out = Reserved p \<or> out = Need_map p" using alloc_iter_decides by blast
  then show ?thesis
    using assms o by (auto simp: alloc_kv_cache_page_def pa_alloc_loop_once Let_def split: if_splits)
qed

section \<open>Sleep and wake up\<close>

lemma release_count_sub: "release_count n u = u - n"
  by (simp add: release_count_def)

lemma on_workers_nth:
  "w < length (worker_pages_used s) \<Longrightarrow> worker_pages_used (on_workers a b f s) ! w =
    (if a \<le> w \<and> w < b then f (worker_pages_used s ! w) else worker_pages_used s ! w)"
  by (simp add: on_workers_def)

lemma on_workers_length [simp]: "length (worker_pages_used (on_workers a b f s)) = length (worker_pages_used s)"
  by (simp add: on_workers_def)

text \<open>Pages the groups \<open>gs\<close> occupy on worker \<open>w\<close>.\<close>

definition kv_need :: "string \<Rightarrow> nat \<Rightarrow> pa_state \<Rightarrow> nat \<Rightarrow> (nat \<times> nat list) list \<Rightarrow> nat" where
  "kv_need m ppv s w gs = (\<Sum>(d, ps) \<leftarrow> gs. case get_dp_group_worker_range m d s of (a, b) \<Rightarrow>
     if a \<le> w \<and> w < b then length ps * ppv else 0)"

lemma range_cong:
  "model_states s' = model_states s \<Longrightarrow> max_world_size s' = max_world_size s \<Longrightarrow>
    get_dp_group_worker_range m d s' = get_dp_group_worker_range m d s"
  by (simp add: get_dp_group_worker_range_def)

lemma kv_need_cong:
  "model_states s' = model_states s \<Longrightarrow> max_world_size s' = max_world_size s \<Longrightarrow> kv_need m ppv s' w gs = kv_need m ppv s w gs"
  by (simp add: kv_need_def range_cong[of s' s])

lemma sleep_section2_used:
  assumes "\<forall>r \<in> set rs. snd r"
  shows "length (worker_pages_used (sleep_section2 m ppv rs s)) = length (worker_pages_used s) \<and>
    (\<forall>w < length (worker_pages_used s).
      worker_pages_used (sleep_section2 m ppv rs s) ! w = worker_pages_used s ! w - kv_need m ppv s w (map fst rs))"
  using assms
proof (induction m ppv rs s rule: sleep_section2.induct)
  case (1 m ppv s)
  then show ?case by (simp add: kv_need_def)
next
  case (2 m ppv d ps ok gs s)
  obtain a b where ab: "get_dp_group_worker_range m d s = (a, b)" by (cases "get_dp_group_worker_range m d s")
  let ?s = "release_phy_pages_for_dp m d (length ps * ppv) s"
  have len: "length (worker_pages_used ?s) = length (worker_pages_used s)"
    by (simp add: release_phy_pages_for_dp_def ab)
  have u: "worker_pages_used ?s ! w = worker_pages_used s ! w - (if a \<le> w \<and> w < b then length ps * ppv else 0)"
    if "w < length (worker_pages_used s)" for w
    using that by (simp add: release_phy_pages_for_dp_def ab on_workers_nth release_count_sub)
  have k: "kv_need m ppv ?s w gs' = kv_need m ppv s w gs'" for w gs' by (rule kv_need_cong) simp_all
  have kc: "kv_need m ppv s w ((d, ps) # gs') = (if a \<le> w \<and> w < b then length ps * ppv else 0) + kv_need m ppv s w gs'"
    for w gs' by (simp add: kv_need_def ab)
  from 2 have "ok" by simp
  with 2 len u k show ?case by (simp add: kc)
qed

lemma weight_workers_cong: "max_world_size s' = max_world_size s \<Longrightarrow> weight_workers st s' = weight_workers st s"
  by (simp add: weight_workers_def)

lemma mapped_groups_sleep [simp]: "mapped_groups ord (st\<lparr>is_sleeping := b\<rparr>) n = mapped_groups ord st n"
  by (simp add: mapped_groups_def)

text \<open>
  When all calls to the workers succeed and the counts of the workers include the model's
  pages, going to sleep subtracts exactly these and waking up restores every count.
\<close>

definition model_need :: "(nat set \<Rightarrow> nat list) \<Rightarrow> string \<Rightarrow> model_state \<Rightarrow> pa_state \<Rightarrow> nat \<Rightarrow> nat" where
  "model_need ord m st s w = wakeup_need m (mapped_groups ord st (pa_dp_size s)) st s w"

lemma wakeup_need_split:
  "wakeup_need m gs st s w = kv_need m (phy_pages_per_virt_page st) s w gs +
    (if w < weight_workers st s then weight_pages_allocated st else 0)"
  by (simp add: wakeup_need_def kv_need_def)

lemma kv_need_sleep:
  "model_states s m = Some st \<Longrightarrow>
    kv_need m ppv (s\<lparr>model_states := (model_states s)(m \<mapsto> st\<lparr>is_sleeping := b\<rparr>)\<rparr>) w gs = kv_need m ppv s w gs"
  by (simp add: kv_need_def get_dp_group_worker_range_def)

lemma sleep_model_used:
  assumes "phys_inv s" "pa_initialized s" "model_states s m = Some st" "\<not> is_sleeping st" "pending_map_ops st = 0"
    and "length (dp_groups st) = pa_dp_size s"
    and ok: "\<And>d ps. bunmap m d ps" "bfree m"
  shows "\<exists>s'. sleep_model ord bunmap bfree m False s = Some (Inr (True, s')) \<and>
    model_states s' = (model_states s)(m \<mapsto> st\<lparr>is_sleeping := True\<rparr>) \<and>
    pa_dp_size s' = pa_dp_size s \<and> max_world_size s' = max_world_size s \<and>
    num_total_phy_pages s' = num_total_phy_pages s \<and> enable_page_prealloc s' = enable_page_prealloc s \<and>
    length (worker_pages_used s') = length (worker_pages_used s) \<and>
    (\<forall>w < length (worker_pages_used s). worker_pages_used s' ! w = worker_pages_used s ! w - model_need ord m st s w)"
proof -
  let ?gs = "mapped_groups ord st (pa_dp_size s)" and ?ppv = "phy_pages_per_virt_page st" and ?n = "weight_pages_allocated st"
  define s1 where "s1 = s\<lparr>model_states := (model_states s)(m \<mapsto> st\<lparr>is_sleeping := True\<rparr>)\<rparr>"
  define s2 where "s2 = (if ?n > 0 then on_workers 0 (weight_workers st s) (release_count ?n) s1 else s1)"
  define rs where "rs = map (\<lambda>(d, ps). ((d, ps), bunmap m d ps)) ?gs"
  have sec1: "sleep_section1 ord m False s = Inr (Sleep_unmap ?gs ?ppv ?n, s1)"
    using assms(3-6) by (simp add: sleep_section1_def s1_def)
  have ww: "weight_workers (st\<lparr>is_sleeping := True\<rparr>) s1 = weight_workers st s"
    by (simp add: weight_workers_def s1_def)
  have "(if \<not> False \<and> ?n > 0 then free_weight_pages bfree m ?n s1 else Inr (True, s1)) = Inr (True, s2)"
    using ok(2) assms(2) ww by (simp add: free_weight_pages_def weight_free_section_def s2_def get_model_state_def s1_def)
  then have eq: "sleep_model ord bunmap bfree m False s = Some (Inr (True, sleep_section2 m ?ppv rs s2))"
    using sec1 ok(1) by (simp add: sleep_model_def Let_def rs_def list_all_iff)
  have s2: "model_states s2 = model_states s1" "max_world_size s2 = max_world_size s" "pa_dp_size s2 = pa_dp_size s"
    "num_total_phy_pages s2 = num_total_phy_pages s" "length (worker_pages_used s2) = length (worker_pages_used s)"
    "enable_page_prealloc s2 = enable_page_prealloc s"
    by (simp_all add: s2_def s1_def)
  have u2: "worker_pages_used s2 ! w = worker_pages_used s ! w - (if w < weight_workers st s then ?n else 0)"
    if "w < length (worker_pages_used s)" for w
    using that by (simp add: s2_def s1_def on_workers_nth release_count_sub)
  have kn: "kv_need m ?ppv s2 w ?gs = kv_need m ?ppv s w ?gs" for w
    using kv_need_cong[OF s2(1), of m ?ppv w ?gs] kv_need_sleep[OF assms(3)] s2(2) by (simp add: s1_def)
  have fst_rs: "map fst rs = ?gs" by (simp add: rs_def comp_def case_prod_unfold)
  have "\<forall>r \<in> set rs. snd r" using ok(1) by (auto simp: rs_def)
  note used = sleep_section2_used[OF this, of m ?ppv s2, unfolded fst_rs kn s2(5)]
  have ep: "enable_page_prealloc (sleep_section2 m ppv rs' s) = enable_page_prealloc s" for m ppv rs' s
    by (induction m ppv rs' s rule: sleep_section2.induct)
      (auto simp: release_phy_pages_for_dp_def split: prod.split)
  show ?thesis
    using eq used u2 s2 sleep_section2_sel[of m ?ppv rs s2] ep
    by (simp add: model_need_def wakeup_need_split s1_def add.commute)
qed

lemma sleep_wakeup_restores:
  assumes "phys_inv s" "pa_initialized s" "model_states s m = Some st" "\<not> is_sleeping st" "pending_map_ops st = 0"
    and "length (dp_groups st) = pa_dp_size s"
    and need: "\<And>w. w < max_world_size s \<Longrightarrow> model_need ord m st s w \<le> worker_pages_used s ! w"
    and ok: "\<And>d ps. bunmap m d ps" "bfree m" "\<And>d ps. bmap m d ps" "\<And>n. bweight m n"
  shows "\<exists>s1 s2. sleep_model ord bunmap bfree m False s = Some (Inr (True, s1)) \<and>
    wakeup_model ord bmap bweight m s1 = Inr (True, s2) \<and>
    (\<forall>w < max_world_size s. worker_pages_used s1 ! w = worker_pages_used s ! w - model_need ord m st s w) \<and>
    worker_pages_used s2 = worker_pages_used s \<and> model_states s2 = model_states s"
proof -
  have len: "length (worker_pages_used s) = max_world_size s" using assms(1) by (simp add: phys_inv_def)
  obtain s1 where s1: "sleep_model ord bunmap bfree m False s = Some (Inr (True, s1))"
    "model_states s1 = (model_states s)(m \<mapsto> st\<lparr>is_sleeping := True\<rparr>)" "pa_dp_size s1 = pa_dp_size s"
    "max_world_size s1 = max_world_size s" "num_total_phy_pages s1 = num_total_phy_pages s"
    "length (worker_pages_used s1) = max_world_size s"
    "\<forall>w < max_world_size s. worker_pages_used s1 ! w = worker_pages_used s ! w - model_need ord m st s w"
    using sleep_model_used[OF assms(1-6), of bunmap bfree ord] ok(1,2) unfolding len by blast
  let ?st = "st\<lparr>is_sleeping := True\<rparr>" and ?gs = "mapped_groups ord st (pa_dp_size s)"
  have ww: "weight_workers ?st s1 = weight_workers st s" using s1(4) by (simp add: weight_workers_def)
  have rng: "get_dp_group_worker_range m d s1 = get_dp_group_worker_range m d s" for d
    using s1(2,4) assms(3) by (simp add: get_dp_group_worker_range_def)
  have nd: "wakeup_need m ?gs ?st s1 w = model_need ord m st s w" for w
    by (simp add: model_need_def wakeup_need_split kv_need_def rng ww)
  have fr: "\<not> worker_free s1 w < model_need ord m st s w" if w: "w < max_world_size s" for w
  proof -
    have "worker_pages_used s ! w \<le> num_total_phy_pages s" using assms(1) w len by (simp add: phys_inv_def)
    then show ?thesis using need[OF w] s1(5,7) w by (simp add: worker_free_def)
  qed
  define s2 where "s2 = s1\<lparr>worker_pages_used := map (\<lambda>w. worker_pages_used s1 ! w + model_need ord m st s w) [0..<max_world_size s]\<rparr>"
  have "wakeup_section1 ord m s1 = Inr (Some (?gs, weight_pages_allocated st), s2)"
    using s1(2-4,6) assms(6) fr nd by (auto simp: wakeup_section1_def Let_def s2_def)
  moreover have "list_all (\<lambda>(d, ps). bmap m d ps) ?gs" using ok(3) by (auto simp: list_all_iff)
  ultimately have wk: "\<exists>s3. wakeup_model ord bmap bweight m s1 = Inr (True, s3) \<and>
      model_states s3 = model_states (wakeup_section3 m s2) \<and> worker_pages_used s3 = worker_pages_used (wakeup_section3 m s2)"
    using ok(4) by (simp add: wakeup_model_def Let_def)
  have "st\<lparr>is_sleeping := False\<rparr> = st" using assms(4) by (cases st) simp
  then have "model_states (wakeup_section3 m s2) = model_states s"
    using s1(2) assms(3) by (simp add: wakeup_section3_def s2_def fun_upd_idem)
  moreover have "worker_pages_used (wakeup_section3 m s2) = worker_pages_used s"
  proof (rule nth_equalityI)
    show "length (worker_pages_used (wakeup_section3 m s2)) = length (worker_pages_used s)"
      using len by (simp add: wakeup_section3_def s2_def split: option.split)
    fix w assume "w < length (worker_pages_used (wakeup_section3 m s2))"
    then have w: "w < max_world_size s" by (simp add: wakeup_section3_def s2_def split: option.splits)
    then show "worker_pages_used (wakeup_section3 m s2) ! w = worker_pages_used s ! w"
      using s1(7) need[OF w] by (simp add: wakeup_section3_def s2_def split: option.split)
  qed
  ultimately show ?thesis using wk s1(1,7) by metis
qed

section \<open>A schedule that counts a page twice\<close>

text \<open>
  A page that is mapped but not yet in the allocated set is invisible to \<open>sleep_model\<close>: it is
  neither unmapped nor released, and waking up consumes its physical pages again.
\<close>

definition race_start :: pa_state where
  "race_start = pa_init 2097152 8 1 1 False pa_new"

definition race_model :: pa_state where
  "race_model = snd (projr (register_model ''m'' 1 race_start))"

definition race_alloc :: pa_state where
  "race_alloc = snd (projr (alloc_section1 ''m'' 0 race_model))"

definition race_mapped :: pa_state where
  "race_mapped = projr (alloc_section2 ''m'' 0 0 True race_alloc)"

definition race_slept :: pa_state where
  "race_slept = snd (projr (sleep_section1 sorted_list_of_set ''m'' False race_mapped))"

definition race_tracked :: pa_state where
  "race_tracked = projr (alloc_section3 ''m'' 0 0 race_slept)"

definition race_woken :: pa_state where
  "race_woken = snd (projr (wakeup_section1 sorted_list_of_set ''m'' race_tracked))"

lemmas race_defs = race_start_def race_model_def race_alloc_def race_mapped_def race_slept_def race_tracked_def
  race_woken_def pa_init_def pa_new_def register_model_def alloc_section1_def alloc_section2_def alloc_section3_def
  alloc_iter_def sleep_section1_def wakeup_section1_def has_enough_phy_pages_for_dp_def consume_phy_pages_for_dp_def
  get_dp_group_worker_range_def get_min_free_pages_in_range_def worker_free_def on_workers_def put_group_def
  add_pending_def sub_pending_def get_model_state_def group_of_def mapped_groups_def wakeup_need_def weight_workers_def

lemma race_register: "register_model ''m'' 1 race_start = Inr (True, race_model)"
  by (simp add: race_start_def race_model_def pa_init_def pa_new_def register_model_def Let_def)

lemma race_step1: "alloc_section1 ''m'' 0 race_model = Inr (Need_map 0, race_alloc)"
  by (simp add: race_defs Let_def upt_rec)

lemma race_step2: "alloc_section2 ''m'' 0 0 True race_alloc = Inr race_mapped"
  by (simp add: race_defs Let_def upt_rec)

lemma race_step3: "\<exists>gs ppv w. sleep_section1 sorted_list_of_set ''m'' False race_mapped = Inr (Sleep_unmap gs ppv w, race_slept) \<and>
    gs = []"
  by (simp add: race_defs Let_def upt_rec)

lemma race_step4: "alloc_section3 ''m'' 0 0 race_slept = Inr race_tracked"
  by (simp add: race_defs Let_def upt_rec)

lemma race_step5: "\<exists>r. wakeup_section1 sorted_list_of_set ''m'' race_tracked = Inr (Some r, race_woken)"
  by (simp add: race_defs Let_def upt_rec)

lemma race_end: "worker_pages_used race_woken = [4]"
  by (simp add: race_defs Let_def upt_rec)

lemma race_reachable: "pa_reachable race_start (wakeup_section3 ''m'' race_woken, {#})"
proof -
  obtain ppv w where s3: "sleep_section1 sorted_list_of_set ''m'' False race_mapped = Inr (Sleep_unmap [] ppv w, race_slept)"
    using race_step3 by auto
  obtain r where s5: "wakeup_section1 sorted_list_of_set ''m'' race_tracked = Inr (Some r, race_woken)"
    using race_step5 by blast
  have "pa_step (race_start, {#}) (race_model, {#})" by (rule pa_step.register[OF race_register])
  moreover have "pa_step (race_model, {#}) (race_alloc, {#F_map ''m'' 0 0#})"
    using pa_step.alloc_map[OF race_step1, of "{#}"] by simp
  moreover have "pa_step (race_alloc, {#F_map ''m'' 0 0#}) (race_mapped, {#F_track ''m'' 0 0#})"
    by (rule pa_step.alloc_mapped[OF race_step2])
  moreover have "pa_step (race_mapped, {#F_track ''m'' 0 0#}) (race_slept, {#F_sleep ''m'' [] ppv, F_track ''m'' 0 0#})"
    by (rule pa_step.sleep1[OF s3])
  moreover have "pa_step (race_slept, {#F_sleep ''m'' [] ppv, F_track ''m'' 0 0#}) (race_slept, {#F_track ''m'' 0 0#})"
    using pa_step.sleep2[of "[]" "[]" race_slept "''m''" ppv "{#F_track ''m'' 0 0#}"] by simp
  moreover have "pa_step (race_slept, {#F_track ''m'' 0 0#}) (race_tracked, {#})"
    by (rule pa_step.alloc_track[OF race_step4])
  moreover have "pa_step (race_tracked, {#}) (race_woken, {#F_wake ''m''#})" by (rule pa_step.wake1[OF s5])
  moreover have "pa_step (race_woken, {#F_wake ''m''#}) (wakeup_section3 ''m'' race_woken, {#})" by (rule pa_step.wake3)
  ultimately show ?thesis
    unfolding pa_reachable_def pa_start_def by (meson converse_rtranclp_into_rtranclp rtranclp.rtrancl_refl)
qed

end
