(* ===== verification/Page_Source.thy ===== *)
theory Page_Source
  imports Page_Allocator_Inv
begin

text \<open>
  What a client of \<open>PageAllocator\<close> relies on, as a locale: \<open>alloc_page\<close> hands out a page the
  client does not hold, \<open>free_pages\<close> takes held pages back, and neither changes the other
  pages held. The interpretation shows that \<open>alloc_kv_cache_page\<close> and \<open>free_kv_cache_pages\<close>
  of a registered model and DP rank, called while no other operation is in flight, keep
  this contract; what is held is \<open>allocated_virt_page_list\<close> of the group.
\<close>

locale page_source =
  fixes alloc_page :: "'p \<Rightarrow> (nat option \<times> 'p) res"
    and free_pages :: "nat list \<Rightarrow> 'p \<Rightarrow> 'p res"
    and src_ok :: "'p \<Rightarrow> bool"
    and held :: "'p \<Rightarrow> nat set"
  assumes alloc_some: "src_ok p \<Longrightarrow> alloc_page p = Inr (Some v, p') \<Longrightarrow>
      src_ok p' \<and> v \<notin> held p \<and> held p' = insert v (held p)"
    and alloc_none: "src_ok p \<Longrightarrow> alloc_page p = Inr (None, p') \<Longrightarrow> src_ok p' \<and> held p' = held p"
    and free_held: "src_ok p \<Longrightarrow> distinct vs \<Longrightarrow> set vs \<subseteq> held p \<Longrightarrow>
      \<exists>p'. free_pages vs p = Inr p' \<and> src_ok p' \<and> held p' = held p - set vs"

section \<open>The allocator as a page source\<close>

definition pa_alloc_page ::
    "(string \<Rightarrow> nat \<Rightarrow> nat list \<Rightarrow> bool) \<Rightarrow> string \<Rightarrow> int \<Rightarrow> pa_state \<Rightarrow> (nat option \<times> pa_state) res" where
  "pa_alloc_page bmap m d s = the (alloc_kv_cache_page bmap m d s)"

definition pa_held :: "string \<Rightarrow> nat \<Rightarrow> pa_state \<Rightarrow> nat set" where
  "pa_held m d s = (case model_states s m of
     None \<Rightarrow> {} | Some st \<Rightarrow> allocated_virt_page_list (dp_groups st ! d))"

definition pa_ready :: "string \<Rightarrow> int \<Rightarrow> pa_state \<Rightarrow> bool" where
  "pa_ready m d s \<longleftrightarrow> virt_inv (s, {#}) \<and> model_states s m \<noteq> None \<and> 0 \<le> d \<and> d < int (pa_dp_size s)"

lemma put_group_held:
  assumes "model_states s m = Some st" "d < length (dp_groups st)"
  shows "pa_held m d (put_group m d g s) = allocated_virt_page_list g"
  using assms by (simp add: pa_held_def put_group_def)

lemma held_cong: "model_states s' = model_states s \<Longrightarrow> pa_held m d s' = pa_held m d s"
  by (simp add: pa_held_def)

lemma pending_held [simp]: "pa_held m d (add_pending m' s) = pa_held m d s" "pa_held m d (sub_pending m' s) = pa_held m d s"
  by (auto simp: pa_held_def add_pending_def sub_pending_def split: option.split)

lemma section1_dp: "alloc_section1 m d s = Inr (out, s') \<Longrightarrow> pa_dp_size s' = pa_dp_size s"
  by (auto elim!: alloc_section1_cases simp: alloc_iter_def Let_def split: list.splits if_splits prod.splits bool.splits
      alloc_out.splits dest: consume_sel(2))

lemma section1_model:
  "alloc_section1 m d s = Inr (out, s') \<Longrightarrow> model_states s' m \<noteq> None"
  by (auto elim!: alloc_section1_cases simp: alloc_iter_def Let_def put_group_def add_pending_def consume_phy_pages_for_dp_def
      split: list.splits if_splits prod.splits bool.splits alloc_out.splits option.splits)

lemma section1_reserved_held:
  assumes "virt_inv (s, F)" "alloc_section1 m d s = Inr (Reserved p, s')"
  shows "p \<notin> pa_held m (nat d) s \<and> pa_held m (nat d) s' = insert p (pa_held m (nat d) s)"
proof -
  obtain st s1 where st: "model_states s m = Some st" and it: "alloc_iter m (nat d) st s = Inr (Reserved p, s1)" "s' = s1"
    by (rule alloc_section1_cases[OF assms(2)]) simp
  define g where "g = dp_groups st ! nat d"
  obtain rest s0 where r: "nat d < length (dp_groups st)" "reserved_virt_page_list g = p # rest"
    "s' = put_group m (nat d) (g\<lparr>reserved_virt_page_list := rest,
       num_free_virt_pages := size_sub (num_free_virt_pages g) 1,
       allocated_virt_page_list := insert p (allocated_virt_page_list g)\<rparr>) s0"
    "model_states s0 = model_states s"
    using it by (auto simp: alloc_iter_def Let_def g_def split: list.splits if_splits prod.splits bool.splits)
  have "p \<notin> allocated_virt_page_list g"
    using group_inv_fresh[OF model_group(1)[OF assms(1) st r(1), folded g_def]] r(2) by simp
  then show ?thesis using st r put_group_held[of s0 m st "nat d"] by (simp add: pa_held_def g_def)
qed

lemma section1_map_held:
  assumes "alloc_section1 m d s = Inr (Need_map p, s')"
  shows "pa_held m (nat d) s' = pa_held m (nat d) s"
proof -
  obtain st s1 where st: "model_states s m = Some st"
    and it: "alloc_iter m (nat d) st s = Inr (Need_map p, s1)" "s' = add_pending m s1"
    by (rule alloc_section1_cases[OF assms]) simp
  define g where "g = dp_groups st ! nat d"
  obtain rest s0 b where r: "nat d < length (dp_groups st)"
    "s1 = put_group m (nat d) (g\<lparr>free_virt_page_list := rest,
       num_free_virt_pages := size_sub (num_free_virt_pages g) 1\<rparr>) s0"
    "consume_phy_pages_for_dp m (nat d) (phy_pages_per_virt_page st) s = (b, s0)"
    using it by (auto simp: alloc_iter_def Let_def g_def neq_Nil_conv split: list.splits if_splits prod.splits bool.splits)
  have "model_states s0 m = Some st" using consume_sel(1)[OF r(3)] st by simp
  moreover have "pa_held m (nat d) s = allocated_virt_page_list g" using st by (simp add: pa_held_def g_def)
  ultimately show ?thesis using r(1,2) it(2) by (simp add: put_group_held)
qed

lemma section2_held:
  assumes "alloc_section2 m d p ok s = Inr s'"
  shows "pa_held m d s' = pa_held m d s \<and> model_states s' m \<noteq> None \<and> pa_dp_size s' = pa_dp_size s"
proof -
  obtain st where st: "model_states s m = Some st" "d < length (dp_groups st)"
    using assms by (auto simp: alloc_section2_def Let_def)
  have sp: "model_states (sub_pending m s) m = Some (st\<lparr>pending_map_ops := pending_map_ops st - 1\<rparr>)"
    using st by (simp add: models_upd)
  have ms: "get_model_state m s = Inr st" "group_of st d = Inr (dp_groups st ! d)" using st by simp_all
  have rel: "pa_held m d (release_phy_pages_for_dp m d n x) = pa_held m d x" for n x by (rule held_cong) simp
  have old: "pa_held m d s = allocated_virt_page_list (dp_groups st ! d)" using st by (simp add: pa_held_def)
  have new: "pa_held m d (put_group m d g (sub_pending m s)) = allocated_virt_page_list g" for g
    using put_group_held[OF sp] st(2) by simp
  show ?thesis
    using assms sp by (cases ok) (auto simp: alloc_section2_def ms Let_def rel new old put_group_models[OF sp])
qed

lemma section3_held:
  assumes "alloc_section3 m d p s = Inr s'"
  shows "pa_held m d s' = insert p (pa_held m d s) \<and> model_states s' m \<noteq> None \<and> pa_dp_size s' = pa_dp_size s"
  using assms by (auto simp: alloc_section3_def put_group_held put_group_models pa_held_def)

lemma virt_inv_trigger: "virt_inv (s\<lparr>prealloc_needed := b\<rparr>, F) = virt_inv (s, F)"
  by (rule virt_inv_cong) simp_all

text \<open>The page being tracked is not held yet.\<close>

lemma track_fresh:
  assumes "virt_inv (s, {#F_track m d p#})" "alloc_section3 m d p s = Inr s'"
  shows "p \<notin> pa_held m d s"
proof -
  obtain st where st: "model_states s m = Some st" "d < length (dp_groups st)"
    using assms(2) by (auto simp: alloc_section3_def)
  have "p \<notin> allocated_virt_page_list (dp_groups st ! d)"
    by (rule group_inv_fresh[OF model_group(1)[OF assms(1) st]]) simp
  then show ?thesis using st by (simp add: pa_held_def)
qed

text \<open>The outcomes of the method, by its critical sections.\<close>

lemma pa_alloc_page_cases:
  assumes "pa_alloc_page bmap m d s = Inr (r, s')"
  obtains p where "alloc_section1 m d s = Inr (Reserved p, s')" "r = Some p"
  | p s1 where "alloc_section1 m d s = Inr (Need_map p, s1)" "alloc_section2 m (nat d) p False s1 = Inr s'" "r = None"
  | p s1 s2 b where "alloc_section1 m d s = Inr (Need_map p, s1)" "alloc_section2 m (nat d) p True s1 = Inr s2"
      "alloc_section3 m (nat d) p (s2\<lparr>prealloc_needed := b\<rparr>) = Inr s'" "r = Some p"
proof (cases "alloc_section1 m d s")
  case (Inl e)
  then show thesis using assms by (simp add: pa_alloc_page_def alloc_kv_cache_page_def pa_alloc_loop_once)
next
  case (Inr x)
  obtain out s1 where x: "alloc_section1 m d s = Inr (out, s1)" using Inr by (cases x) simp
  obtain st s0 where "alloc_iter m (nat d) st s = Inr (out, s0)" using x by (auto elim: alloc_section1_cases)
  then obtain p where "out = Reserved p \<or> out = Need_map p" using alloc_iter_decides by blast
  then show thesis
  proof
    assume "out = Reserved p"
    then show thesis using that(1)[of p] x assms by (simp add: pa_alloc_page_def alloc_kv_cache_page_def pa_alloc_loop_once)
  next
    assume o: "out = Need_map p"
    let ?ok = "bmap m (nat d) [p]"
    obtain s2 where s2: "alloc_section2 m (nat d) p ?ok s1 = Inr s2"
      using assms x o by (auto simp: pa_alloc_page_def alloc_kv_cache_page_def pa_alloc_loop_once Let_def)
    show thesis
    proof (cases ?ok)
      case False
      then show thesis
        using that(2)[of p s1] x o s2 assms by (simp add: pa_alloc_page_def alloc_kv_cache_page_def pa_alloc_loop_once)
    next
      case True
      have "s2 = s2\<lparr>prealloc_needed := prealloc_needed s2\<rparr>" by (cases s2) simp
      moreover have "alloc_section3 m (nat d) p (if enable_page_prealloc s2 then s2\<lparr>prealloc_needed := True\<rparr> else s2) = Inr s'"
        "r = Some p"
        using True x o s2 assms by (auto simp: pa_alloc_page_def alloc_kv_cache_page_def pa_alloc_loop_once Let_def)
      ultimately show thesis using that(3)[of p s1 s2] x o s2 True by metis
    qed
  qed
qed

lemma pa_alloc_page_some:
  assumes "pa_ready m d s" "pa_alloc_page bmap m d s = Inr (Some p, s')"
  shows "pa_ready m d s' \<and> p \<notin> pa_held m (nat d) s \<and> pa_held m (nat d) s' = insert p (pa_held m (nat d) s)"
proof -
  have inv: "virt_inv (s, {#})" using assms(1) by (simp add: pa_ready_def)
  from assms(2) show ?thesis
  proof (cases rule: pa_alloc_page_cases)
    case (1 q)
    then show ?thesis
      using assms(1) section1_dp[OF 1(1)] section1_model[OF 1(1)] section1_reserved_held[OF inv 1(1)]
        alloc_reserved_virt[OF inv 1(1)] by (simp add: pa_ready_def)
  next
    case (3 q s1 s2 b)
    let ?s2 = "s2\<lparr>prealloc_needed := b\<rparr>"
    have v: "virt_inv (?s2, {#F_track m (nat d) q#})"
      using alloc_mapped_virt[OF alloc_map_virt[OF inv 3(1)] 3(2)] by (simp add: virt_inv_trigger)
    have "pa_held m (nat d) ?s2 = pa_held m (nat d) s"
      using section1_map_held[OF 3(1)] section2_held[OF 3(2)] held_cong[of ?s2 s2] by simp
    then show ?thesis
      using assms(1) 3 track_fresh[OF v 3(3)] section3_held[OF 3(3)] section2_held[OF 3(2)] section1_dp[OF 3(1)]
        alloc_track_virt[OF v 3(3)] by (auto simp: pa_ready_def)
  qed simp
qed

lemma pa_alloc_page_none:
  assumes "pa_ready m d s" "pa_alloc_page bmap m d s = Inr (None, s')"
  shows "pa_ready m d s' \<and> pa_held m (nat d) s' = pa_held m (nat d) s"
proof -
  have inv: "virt_inv (s, {#})" using assms(1) by (simp add: pa_ready_def)
  from assms(2) show ?thesis
  proof (cases rule: pa_alloc_page_cases)
    case (2 q s1)
    then show ?thesis
      using assms(1) section1_dp[OF 2(1)] section1_map_held[OF 2(1)] section2_held[OF 2(2)]
        alloc_fail_virt[OF alloc_map_virt[OF inv 2(1)] 2(2)] by (simp add: pa_ready_def)
  qed simp_all
qed

lemma free_section1_total:
  assumes "pa_ready m d s"
  shows "\<exists>us s1. free_section1 m d ps s = Inr (us, s1) \<and> pa_held m (nat d) s1 = pa_held m (nat d) s - set ps \<and>
    model_states s1 m \<noteq> None \<and> pa_dp_size s1 = pa_dp_size s"
proof -
  obtain st where st: "model_states s m = Some st" "nat d < length (dp_groups st)" "0 \<le> d" "d < int (pa_dp_size s)"
    using assms virt_invD[of s "{#}" m] by (auto simp: pa_ready_def model_inv_def)
  have ms: "get_model_state m s = Inr st" "group_of st (nat d) = Inr (dp_groups st ! nat d)" using st by simp_all
  show ?thesis
    using st by (simp add: free_section1_def ms Let_def put_group_held[OF st(1,2)] put_group_models[OF st(1)])
      (simp add: pa_held_def)
qed

lemma unmap_section2_total:
  assumes "model_states s m = Some st" "d < length (dp_groups st)"
  shows "\<exists>s'. unmap_section2 m d us ok s = Inr s' \<and> pa_held m d s' = pa_held m d s \<and>
    model_states s' m \<noteq> None \<and> pa_dp_size s' = pa_dp_size s"
proof -
  have ms: "get_model_state m s = Inr st" "group_of st d = Inr (dp_groups st ! d)" using assms by simp_all
  have rel: "pa_held m d (release_phy_pages_for_dp m d n x) = pa_held m d x" for n x by (rule held_cong) simp
  show ?thesis
    using assms(1)
    by (simp add: unmap_section2_def ms rel put_group_held[OF assms] put_group_models[OF assms(1)]) (simp add: pa_held_def)
qed

lemma free_kv_cache_pages_held:
  assumes "pa_ready m d s" "distinct ps" "set ps \<subseteq> pa_held m (nat d) s"
  shows "\<exists>s'. free_kv_cache_pages bunmap m d ps s = Inr s' \<and> pa_ready m d s' \<and>
    pa_held m (nat d) s' = pa_held m (nat d) s - set ps"
proof -
  have inv: "virt_inv (s, {#})" using assms(1) by (simp add: pa_ready_def)
  obtain st where st: "model_states s m = Some st" "nat d < length (dp_groups st)"
    using assms(1) virt_invD[of s "{#}" m] by (auto simp: pa_ready_def model_inv_def)
  obtain us s1 where f: "free_section1 m d ps s = Inr (us, s1)" "pa_held m (nat d) s1 = pa_held m (nat d) s - set ps"
    "model_states s1 m \<noteq> None" "pa_dp_size s1 = pa_dp_size s"
    using free_section1_total[OF assms(1)] by blast
  have hp: "holds_pages m (nat d) ps s" using st assms(2,3) by (simp add: holds_pages_def pa_held_def)
  note v1 = free1_virt[OF inv hp f(1)]
  show ?thesis
  proof (cases "us = []")
    case True
    then show ?thesis using f v1 assms(1) by (simp add: free_kv_cache_pages_def pa_ready_def)
  next
    case False
    obtain st1 where st1: "model_states s1 m = Some st1" using f(3) by blast
    have "nat d < length (dp_groups st1)"
      using virt_invD[OF v1 st1] assms(1) f(4) by (simp add: model_inv_def pa_ready_def nat_less_iff)
    then obtain s2 where u: "unmap_section2 m (nat d) us (bunmap m (nat d) us) s1 = Inr s2"
      "pa_held m (nat d) s2 = pa_held m (nat d) s1" "model_states s2 m \<noteq> None" "pa_dp_size s2 = pa_dp_size s1"
      using unmap_section2_total[OF st1] by blast
    have "virt_inv (s2, {#})" using unmap2_virt[OF _ u(1)] v1 False by simp
    then show ?thesis using f u False assms(1) by (simp add: free_kv_cache_pages_def pa_ready_def)
  qed
qed

interpretation pa: page_source "pa_alloc_page bmap m d" "free_kv_cache_pages bunmap m d" "pa_ready m d" "pa_held m (nat d)"
  for bmap bunmap :: "string \<Rightarrow> nat \<Rightarrow> nat list \<Rightarrow> bool" and m :: string and d :: int
  by unfold_locales (use pa_alloc_page_some pa_alloc_page_none free_kv_cache_pages_held in blast)+

end
