(* ===== verification/Virt_Page.thy ===== *)
theory Virt_Page
  imports Page_Allocator
begin

text \<open>
  \<open>core/framework/xtensor/virt_page.{h,cpp}\<close>: the blocks inside one virtual page. Page and
  block ids are non-negative and far below \<open>2 ^ 63\<close> (page id times page size is an address
  range), so they are \<open>nat\<close>; \<open>num_kv_blocks_\<close> is an unsigned difference and keeps its
  wrap-around.
\<close>

record virt_page =
  vp_id :: nat
  vp_page_size :: nat
  vp_range :: "(nat \<times> nat) option"
  vp_num_kv_blocks :: "nat option"
  vp_free_list :: "nat list"

definition get_block_range :: "nat \<Rightarrow> nat \<Rightarrow> nat \<Rightarrow> nat \<times> nat" where
  "get_block_range page_id page_size block_mem_size =
     ((page_id * page_size + block_mem_size - 1) div block_mem_size,
      ((page_id + 1) * page_size) div block_mem_size)"

definition get_num_blocks :: "nat \<Rightarrow> nat \<Rightarrow> nat" where
  "get_num_blocks page_size block_mem_size = page_size div block_mem_size"

definition vp_new :: "nat \<Rightarrow> nat \<Rightarrow> virt_page" where
  "vp_new page_id page_size =
     \<lparr>vp_id = page_id, vp_page_size = page_size, vp_range = None, vp_num_kv_blocks = None, vp_free_list = []\<rparr>"

definition require_init :: "virt_page \<Rightarrow> unit res" where
  "require_init v = check (vp_range v \<noteq> None \<and> vp_num_kv_blocks v \<noteq> None)"

text \<open>A negative difference becomes a huge \<open>size_t\<close>, for which \<open>reserve\<close> throws \<open>length_error\<close>.\<close>

definition vp_init :: "nat \<Rightarrow> virt_page \<Rightarrow> virt_page res" where
  "vp_init block_mem_size v =
     (if block_mem_size = 0 then Inl Div_by_zero
      else case get_block_range (vp_id v) (vp_page_size v) block_mem_size of (a, b) \<Rightarrow>
           if size_sub b a \<ge> 2 ^ 60 then Inl Runtime_error
           else Inr (v\<lparr>vp_range := Some (a, b), vp_num_kv_blocks := Some (size_sub b a), vp_free_list := [a..<b]\<rparr>))"

definition vp_full :: "virt_page \<Rightarrow> bool res" where
  "vp_full v = bindE (require_init v) (\<lambda>_. Inr (vp_free_list v = []))"

definition vp_empty :: "virt_page \<Rightarrow> bool res" where
  "vp_empty v = bindE (require_init v) (\<lambda>_. Inr (Some (length (vp_free_list v)) = vp_num_kv_blocks v))"

definition vp_alloc :: "nat \<Rightarrow> virt_page \<Rightarrow> (nat list \<times> virt_page) res" where
  "vp_alloc num_blocks v =
     bindE (vp_full v) (\<lambda>full.
       if full then Inl Runtime_error
       else let n = min num_blocks (length (vp_free_list v)) in
            Inr (take n (vp_free_list v), v\<lparr>vp_free_list := drop n (vp_free_list v)\<rparr>))"

definition vp_free :: "nat \<Rightarrow> virt_page \<Rightarrow> virt_page res" where
  "vp_free b v = bindE (require_init v) (\<lambda>_. Inr (v\<lparr>vp_free_list := vp_free_list v @ [b]\<rparr>))"

definition vp_free_batch :: "nat list \<Rightarrow> virt_page \<Rightarrow> virt_page res" where
  "vp_free_batch bs v = bindE (require_init v) (\<lambda>_. Inr (v\<lparr>vp_free_list := vp_free_list v @ bs\<rparr>))"

definition vp_num_free :: "virt_page \<Rightarrow> nat res" where
  "vp_num_free v = bindE (require_init v) (\<lambda>_. Inr (length (vp_free_list v)))"

section \<open>Block ranges\<close>

lemma in_range_iff:
  assumes "0 < bm"
  shows "b \<in> {fst (get_block_range p ps bm)..<snd (get_block_range p ps bm)} \<longleftrightarrow>
    p * ps \<le> b * bm \<and> (b + 1) * bm \<le> (p + 1) * ps"
proof -
  have "fst (get_block_range p ps bm) \<le> b \<longleftrightarrow> p * ps \<le> b * bm"
    using round_up_div_le_iff[OF assms, of "p * ps" b] by (simp add: get_block_range_def round_up_div_def)
  moreover have "b < snd (get_block_range p ps bm) \<longleftrightarrow> (b + 1) * bm \<le> (p + 1) * ps"
    using less_eq_div_iff_mult_less_eq[OF assms, of "b + 1" "(p + 1) * ps"] by (simp add: get_block_range_def Suc_le_eq)
  ultimately show ?thesis by auto
qed

text \<open>A block lies in the page \<open>get_virt_page_id\<close> computes for it, and in no other.\<close>

lemma block_page:
  assumes "0 < bm" "b \<in> {fst (get_block_range p ps bm)..<snd (get_block_range p ps bm)}"
  shows "get_virt_page_id ps b bm = p"
proof -
  have r: "p * ps \<le> b * bm" "(b + 1) * bm \<le> (p + 1) * ps" using in_range_iff[OF assms(1)] assms(2) by auto
  then have "b * bm < (p + 1) * ps" using assms(1) by (simp add: algebra_simps)
  then have "b * bm div ps = p" using r(1) by (intro div_nat_eqI) (simp_all add: mult.commute)
  then show ?thesis by (simp add: get_virt_page_id_def)
qed

lemma block_ranges_disjoint:
  assumes "0 < bm" "p \<noteq> q"
  shows "{fst (get_block_range p ps bm)..<snd (get_block_range p ps bm)} \<inter>
    {fst (get_block_range q ps bm)..<snd (get_block_range q ps bm)} = {}"
  using block_page[OF assms(1), of _ p ps] block_page[OF assms(1), of _ q ps] assms(2) by blast

lemma range_divisible:
  assumes "0 < bm" "bm dvd ps"
  shows "get_block_range p ps bm = (p * get_num_blocks ps bm, (p + 1) * get_num_blocks ps bm)"
proof -
  obtain k where k: "ps = bm * k" using assms(2) by blast
  have "(p * (bm * k) + bm - 1) div bm = p * k"
  proof -
    have "p * (bm * k) + bm - 1 = (bm - 1) + (p * k) * bm" using assms(1) by (simp add: algebra_simps)
    then show ?thesis using assms(1) by (simp only: div_mult_self1) simp
  qed
  moreover have "(p + 1) * (bm * k) div bm = (p + 1) * k"
    using assms(1) by (metis mult.left_commute nonzero_mult_div_cancel_left neq0_conv)
  ultimately show ?thesis using assms(1) k by (simp add: get_block_range_def get_num_blocks_def)
qed

lemma range_card_bounds:
  assumes "0 < bm"
  shows "snd (get_block_range p ps bm) - fst (get_block_range p ps bm) \<le> get_num_blocks ps bm"
proof -
  define a b where "a = fst (get_block_range p ps bm)" and "b = snd (get_block_range p ps bm)"
  show ?thesis
  proof (cases "a < b")
    case True
    have "a \<in> {a..<b}" "b - 1 \<in> {a..<b}" using True by auto
    then have "p * ps \<le> a * bm" "(b - 1 + 1) * bm \<le> (p + 1) * ps"
      using in_range_iff[OF assms, of _ p ps] unfolding a_def b_def by blast+
    then have "b * bm \<le> ps + a * bm" using True by (simp add: algebra_simps)
    then have "(b - a) * bm \<le> ps" by (simp add: diff_mult_distrib)
    then have "b - a \<le> ps div bm" using assms by (simp add: less_eq_div_iff_mult_less_eq)
    then show ?thesis by (simp add: a_def b_def get_num_blocks_def)
  qed (simp add: a_def b_def)
qed

section \<open>Pages\<close>

definition vp_ok :: "virt_page \<Rightarrow> nat set \<Rightarrow> bool" where
  "vp_ok v used \<longleftrightarrow> (\<exists>a b. vp_range v = Some (a, b) \<and> vp_num_kv_blocks v = Some (b - a) \<and> a \<le> b \<and>
     distinct (vp_free_list v) \<and> set (vp_free_list v) \<inter> used = {} \<and> set (vp_free_list v) \<union> used = {a..<b})"

lemma vp_ok_init: "vp_ok v u \<Longrightarrow> require_init v = Inr ()"
  by (auto simp: vp_ok_def require_init_def)

lemma vp_init_ok:
  assumes "0 < bm" "get_block_range (vp_id v) (vp_page_size v) bm = (a, b)" "a \<le> b" "b - a < 2 ^ 60"
  shows "\<exists>v'. vp_init bm v = Inr v' \<and> vp_ok v' {} \<and> vp_range v' = Some (a, b) \<and> vp_id v' = vp_id v \<and>
    vp_free_list v' = [a..<b]"
  using assms by (auto simp: vp_init_def vp_ok_def)

lemma vp_alloc_ok:
  fixes n :: nat
  assumes "vp_ok v u" "vp_free_list v \<noteq> []"
  defines "bs \<equiv> take n (vp_free_list v)"
  shows "\<exists>v'. vp_alloc n v = Inr (bs, v') \<and> vp_ok v' (u \<union> set bs) \<and> vp_range v' = vp_range v \<and> vp_id v' = vp_id v \<and>
    vp_free_list v' = drop n (vp_free_list v)"
proof -
  let ?f = "vp_free_list v"
  have m: "take (min n (length ?f)) ?f = take n ?f" "drop (min n (length ?f)) ?f = drop n ?f"
    by (simp_all add: min_def)
  have "vp_alloc n v = Inr (bs, v\<lparr>vp_free_list := drop n ?f\<rparr>)"
    using assms(2) vp_ok_init[OF assms(1)] by (simp add: vp_alloc_def vp_full_def Let_def m bs_def)
  moreover have "vp_ok (v\<lparr>vp_free_list := drop n ?f\<rparr>) (u \<union> set bs)"
  proof -
    obtain a b where ab: "vp_range v = Some (a, b)" "vp_num_kv_blocks v = Some (b - a)" "a \<le> b" "distinct ?f"
      "set ?f \<inter> u = {}" "set ?f \<union> u = {a..<b}"
      using assms(1) by (auto simp: vp_ok_def)
    have s: "set ?f = set bs \<union> set (drop n ?f)" unfolding bs_def by (metis append_take_drop_id set_append)
    have d: "set bs \<inter> set (drop n ?f) = {}" unfolding bs_def by (rule set_take_disj_set_drop_if_distinct[OF ab(4) order_refl])
    have "set (drop n ?f) \<inter> (u \<union> set bs) = {}" using s d ab(5) by blast
    moreover have "set (drop n ?f) \<union> (u \<union> set bs) = {a..<b}" unfolding ab(6)[symmetric] s by blast
    ultimately show ?thesis unfolding vp_ok_def using ab(1-4) by simp
  qed
  ultimately show ?thesis by auto
qed

lemma vp_free_batch_ok:
  assumes "vp_ok v u" "set bs \<subseteq> u" "distinct bs"
  shows "\<exists>v'. vp_free_batch bs v = Inr v' \<and> vp_ok v' (u - set bs) \<and> vp_range v' = vp_range v \<and> vp_id v' = vp_id v \<and>
    vp_free_list v' = vp_free_list v @ bs"
proof -
  have "vp_free_batch bs v = Inr (v\<lparr>vp_free_list := vp_free_list v @ bs\<rparr>)"
    using vp_ok_init[OF assms(1)] by (simp add: vp_free_batch_def)
  moreover have "vp_ok (v\<lparr>vp_free_list := vp_free_list v @ bs\<rparr>) (u - set bs)"
    using assms unfolding vp_ok_def by simp blast
  ultimately show ?thesis by auto
qed

lemma vp_empty_iff:
  assumes "vp_ok v u"
  shows "vp_empty v = Inr (u = {})"
proof -
  obtain a b where ab: "vp_num_kv_blocks v = Some (b - a)" "distinct (vp_free_list v)"
    "set (vp_free_list v) \<inter> u = {}" "set (vp_free_list v) \<union> u = {a..<b}"
    using assms by (auto simp: vp_ok_def)
  have fin: "finite u" using ab(4) by (metis finite_Un finite_atLeastLessThan)
  have "b - a = card (set (vp_free_list v) \<union> u)" using ab(4) by simp
  also have "\<dots> = length (vp_free_list v) + card u"
    using ab(2,3) fin by (simp add: card_Un_disjoint distinct_card)
  finally have "length (vp_free_list v) = b - a \<longleftrightarrow> card u = 0" by auto
  then show ?thesis
    using ab(1) vp_ok_init[OF assms] fin by (simp add: vp_empty_def)
qed

end
