(* ===== verification/XTensor_Block_Manager.thy ===== *)
theory XTensor_Block_Manager
  imports Page_Source Virt_Page
begin

text \<open>
  \<open>core/framework/xtensor/xtensor_block_manager_impl.{h,cpp}\<close>: KV cache blocks carved out of
  virtual pages. The page allocator is a parameter (\<open>alloc_page\<close>, \<open>free_pages\<close> and the number
  of reserved pages), used through the locale \<open>page_source\<close>. The two \<open>unordered_map\<close>s are
  association lists with one entry per key; \<open>pick\<close> is the entry \<open>begin()\<close> refers to and \<open>iter\<close>
  the order in which a map is visited. Block ids fit into \<open>int32_t\<close>.
\<close>

section \<open>State and operations\<close>

type_synonym pages = "(nat \<times> virt_page) list"

record xbm =
  xb_num_blocks :: nat
  xb_page_size :: nat
  xb_block_mem_size :: nat
  xb_num_avail :: nat
  xb_avail :: pages
  xb_full :: pages
  xb_reserved :: "nat list"
  xb_padding :: "nat option"

definition erase_page :: "nat \<Rightarrow> pages \<Rightarrow> pages" where
  "erase_page k ps = filter (\<lambda>e. fst e \<noteq> k) ps"

definition set_page :: "nat \<Rightarrow> virt_page \<Rightarrow> pages \<Rightarrow> pages" where
  "set_page k v ps = (k, v) # erase_page k ps"

definition xbm_new :: "nat \<Rightarrow> nat \<Rightarrow> nat \<Rightarrow> xbm" where
  "xbm_new num_blocks block_mem_size page_size =
     \<lparr>xb_num_blocks = num_blocks, xb_page_size = page_size, xb_block_mem_size = block_mem_size,
      xb_num_avail = 0, xb_avail = [], xb_full = [], xb_reserved = [], xb_padding = None\<rparr>"

text \<open>The page to allocate from: an available one, or a new one from the allocator.\<close>

definition current_page ::
    "(pages \<Rightarrow> nat) \<Rightarrow> ('p \<Rightarrow> (nat option \<times> 'p) res) \<Rightarrow> xbm \<times> 'p \<Rightarrow> ((nat \<times> virt_page) option \<times> xbm \<times> 'p) res" where
  "current_page pick alloc_page xp =
     (case xp of (x, p) \<Rightarrow>
      if xb_avail x = [] then
        bindE (alloc_page p) (\<lambda>(r, p1).
          case r of
            None \<Rightarrow> Inr (None, x, p1)
          | Some k \<Rightarrow>
              bindE (vp_init (xb_block_mem_size x) (vp_new k (xb_page_size x))) (\<lambda>v.
              bindE (vp_num_free v) (\<lambda>n.
                Inr (Some (k, v), x\<lparr>xb_num_avail := xb_num_avail x + n, xb_avail := set_page k v (xb_avail x)\<rparr>, p1))))
      else bindE (nth_res (xb_avail x) (pick (xb_avail x))) (\<lambda>e. Inr (Some e, x, p)))"

definition take_from_page :: "nat \<Rightarrow> nat \<times> virt_page \<Rightarrow> xbm \<Rightarrow> (nat list \<times> nat \<times> xbm) res" where
  "take_from_page need e x =
     (case e of (k, v) \<Rightarrow>
      bindE (vp_num_free v) (\<lambda>free.
      let n = min free need in
      bindE (vp_alloc n v) (\<lambda>(bs, v1).
      bindE (vp_full v1) (\<lambda>full.
        let x1 = (if full then x\<lparr>xb_full := set_page k v1 (xb_full x), xb_avail := erase_page k (xb_avail x)\<rparr>
                  else x\<lparr>xb_avail := set_page k v1 (xb_avail x)\<rparr>)
        in Inr (bs, n, x1\<lparr>xb_num_avail := size_sub (xb_num_avail x1) n\<rparr>)))))"

declare bindE_fundef_cong [fundef_cong]

lemma take_from_page_pos:
  assumes "take_from_page need e x = Inr (bs, n, x')" "0 < need"
  shows "0 < n"
  using assms by (auto simp: take_from_page_def vp_alloc_def vp_full_def vp_num_free_def Let_def split: prod.splits if_splits)

text \<open>The loop of \<open>alloc_internal\<close>: every round takes at least one block or raises.\<close>

function alloc_from_pages ::
    "(pages \<Rightarrow> nat) \<Rightarrow> ('p \<Rightarrow> (nat option \<times> 'p) res) \<Rightarrow> nat \<Rightarrow> nat list \<Rightarrow> xbm \<times> 'p \<Rightarrow> (nat list \<times> xbm \<times> 'p) res" where
  "alloc_from_pages pick alloc_page need ret xp =
     (if need = 0 then Inr (ret, xp)
      else bindE (current_page pick alloc_page xp) (\<lambda>(r, x1, p1).
             case r of
               None \<Rightarrow> Inr (ret, x1, p1)
             | Some e \<Rightarrow>
                 bindE (take_from_page need e x1) (\<lambda>(bs, n, x2).
                   alloc_from_pages pick alloc_page (need - n) (ret @ bs) (x2, p1))))"
  by pat_completeness auto
termination
  by (relation "measure (\<lambda>(_, _, need, _, _). need)") (auto dest: take_from_page_pos)

text \<open>\<open>alloc_internal\<close>; the call of \<open>available_size_internal\<close> only feeds a warning.\<close>

definition alloc_internal ::
    "(pages \<Rightarrow> nat) \<Rightarrow> ('p \<Rightarrow> (nat option \<times> 'p) res) \<Rightarrow> nat \<Rightarrow> xbm \<times> 'p \<Rightarrow> (nat list \<times> xbm \<times> 'p) res" where
  "alloc_internal pick alloc_page need_size xp =
     (case xp of (x, p) \<Rightarrow>
      let k = min (length (xb_reserved x)) need_size in
      alloc_from_pages pick alloc_page (need_size - k) (take k (xb_reserved x))
        (x\<lparr>xb_reserved := drop k (xb_reserved x)\<rparr>, p))"

definition xb_allocate_one ::
    "(pages \<Rightarrow> nat) \<Rightarrow> ('p \<Rightarrow> (nat option \<times> 'p) res) \<Rightarrow> xbm \<times> 'p \<Rightarrow> (nat option \<times> xbm \<times> 'p) res" where
  "xb_allocate_one pick alloc_page xp =
     bindE (alloc_internal pick alloc_page 1 xp) (\<lambda>(bs, xp1).
       Inr (case bs of [] \<Rightarrow> None | b # _ \<Rightarrow> Some b, xp1))"

definition reserve_xtensor_padding_blocks ::
    "(pages \<Rightarrow> nat) \<Rightarrow> ('p \<Rightarrow> (nat option \<times> 'p) res) \<Rightarrow> xbm \<times> 'p \<Rightarrow> (xbm \<times> 'p) res" where
  "reserve_xtensor_padding_blocks pick alloc_page xp =
     bindE (alloc_internal pick alloc_page 1 xp) (\<lambda>(bs, x1, p1).
       if bs = [] \<or> hd bs \<noteq> 0 then Inl Fatal else Inr (x1\<lparr>xb_padding := Some (hd bs)\<rparr>, p1))"

text \<open>\<open>free_blocks\<close>: the blocks are grouped by page; \<open>free_group\<close> handles one group.\<close>

definition group_blocks :: "(nat \<Rightarrow> nat) \<Rightarrow> nat list \<Rightarrow> (nat \<times> nat list) list" where
  "group_blocks page_of bs = map (\<lambda>k. (k, filter (\<lambda>b. page_of b = k) bs)) (remdups (map page_of bs))"

definition free_group :: "nat \<times> nat list \<Rightarrow> xbm \<times> nat list \<Rightarrow> (xbm \<times> nat list) res" where
  "free_group kb xf =
     (case (kb, xf) of ((k, idxs), (x, to_free)) \<Rightarrow>
      let was_full = (map_of (xb_full x) k \<noteq> None);
          page = (if was_full then map_of (xb_full x) k else map_of (xb_avail x) k) in
      case page of
        None \<Rightarrow> Inr (x, to_free)
      | Some v \<Rightarrow>
          bindE (vp_free_batch idxs v) (\<lambda>v1.
          bindE (vp_empty v1) (\<lambda>empty.
          bindE (vp_num_free v1) (\<lambda>n.
            let x1 = x\<lparr>xb_num_avail := xb_num_avail x + length idxs\<rparr> in
            if empty then
              let x2 = x1\<lparr>xb_num_avail := size_sub (xb_num_avail x1) n\<rparr> in
              Inr (if was_full then x2\<lparr>xb_full := erase_page k (xb_full x)\<rparr>
                   else x2\<lparr>xb_avail := erase_page k (xb_avail x)\<rparr>, to_free @ [k])
            else if was_full then
              Inr (x1\<lparr>xb_avail := set_page k v1 (xb_avail x), xb_full := erase_page k (xb_full x)\<rparr>, to_free)
            else Inr (x1\<lparr>xb_avail := set_page k v1 (xb_avail x)\<rparr>, to_free)))))"

definition xb_free_blocks ::
    "((nat \<times> nat list) list \<Rightarrow> (nat \<times> nat list) list) \<Rightarrow> (nat list \<Rightarrow> 'p \<Rightarrow> 'p res) \<Rightarrow> nat \<Rightarrow>
      nat list \<Rightarrow> xbm \<times> 'p \<Rightarrow> (xbm \<times> 'p) res" where
  "xb_free_blocks iter free_pages psize indices xp =
     (case xp of (x, p) \<Rightarrow>
      if indices = [] then Inr (x, p)
      else let page_of = (\<lambda>b. get_virt_page_id psize b (xb_block_mem_size x)) in
           bindE (foldE free_group (iter (group_blocks page_of indices)) (x, [])) (\<lambda>(x1, to_free).
             if to_free = [] then Inr (x1, p)
             else bindE (free_pages to_free p) (\<lambda>p1. Inr (x1, p1))))"

definition xb_free ::
    "((nat \<times> nat list) list \<Rightarrow> (nat \<times> nat list) list) \<Rightarrow> (nat list \<Rightarrow> 'p \<Rightarrow> 'p res) \<Rightarrow> nat \<Rightarrow>
      nat \<Rightarrow> xbm \<times> 'p \<Rightarrow> (xbm \<times> 'p) res" where
  "xb_free iter free_pages psize b xp = xb_free_blocks iter free_pages psize [b] xp"

definition xbm_destroy ::
    "(nat list \<Rightarrow> 'p \<Rightarrow> 'p res) \<Rightarrow> bool \<Rightarrow> xbm \<times> 'p \<Rightarrow> 'p res" where
  "xbm_destroy free_pages alive xp =
     (case xp of (x, p) \<Rightarrow>
      let ids = map fst (xb_avail x) @ map fst (xb_full x) in
      if ids \<noteq> [] \<and> alive then free_pages ids p else Inr p)"

definition available_size :: "nat \<Rightarrow> xbm \<Rightarrow> nat" where
  "available_size reserved_pages x =
     xb_num_avail x + length (xb_reserved x) +
     reserved_pages * get_num_blocks (xb_page_size x) (xb_block_mem_size x)"

definition try_to_reserve ::
    "(pages \<Rightarrow> nat) \<Rightarrow> ('p \<Rightarrow> (nat option \<times> 'p) res) \<Rightarrow> ('p \<Rightarrow> nat) \<Rightarrow> nat \<Rightarrow> xbm \<times> 'p \<Rightarrow> (bool \<times> xbm \<times> 'p) res" where
  "try_to_reserve pick alloc_page num_reserved need xp =
     (case xp of (x, p) \<Rightarrow>
      if available_size (num_reserved p) x < need then Inr (False, x, p)
      else bindE (alloc_internal pick alloc_page need (x, p)) (\<lambda>(bs, x1, p1).
             if bs = [] then Inr (False, x1, p1)
             else Inr (True, x1\<lparr>xb_reserved := xb_reserved x1 @ bs\<rparr>, p1)))"

definition free_reserved ::
    "((nat \<times> nat list) list \<Rightarrow> (nat \<times> nat list) list) \<Rightarrow> (nat list \<Rightarrow> 'p \<Rightarrow> 'p res) \<Rightarrow> nat \<Rightarrow>
      xbm \<times> 'p \<Rightarrow> (xbm \<times> 'p) res" where
  "free_reserved iter free_pages psize xp =
     (case xp of (x, p) \<Rightarrow>
      if xb_reserved x = [] then Inr (x, p)
      else xb_free_blocks iter free_pages psize (xb_reserved x) (x\<lparr>xb_reserved := []\<rparr>, p))"

definition xb_trim :: "('p \<Rightarrow> 'p res) \<Rightarrow> xbm \<times> 'p \<Rightarrow> (xbm \<times> 'p) res" where
  "xb_trim trim_pages xp = (case xp of (x, p) \<Rightarrow> bindE (trim_pages p) (\<lambda>p1. Inr (x, p1)))"

definition get_num_allocated_blocks :: "xbm \<Rightarrow> nat" where
  "get_num_allocated_blocks x =
     (let per_page = get_num_blocks (xb_page_size x) (xb_block_mem_size x) in
      length (xb_full x) * per_page + size_sub (length (xb_avail x) * per_page) (xb_num_avail x) +
      length (xb_reserved x))"

definition xb_num_total_blocks :: "xbm \<Rightarrow> nat" where
  "xb_num_total_blocks x = xb_num_blocks x"

definition get_mapped_memory_size :: "nat \<Rightarrow> nat \<Rightarrow> nat \<Rightarrow> nat" where
  "get_mapped_memory_size inuse_virt_pages phy_per_virt page_size = inuse_virt_pages * phy_per_virt * page_size"

end
