(* ===== verification/XTensor_Blocks.thy ===== *)
theory XTensor_Blocks
  imports XTensor_Block_Manager
begin

text \<open>
  Correctness of \<open>XTensorBlockManagerImpl\<close> over any \<open>page_source\<close>: the pages it lists are those
  it holds, every block in use lies in exactly one of them, a page without used blocks is
  given back, and \<open>num_avail_blocks_\<close> is the number of free blocks of the available pages.
\<close>

section \<open>Invariant\<close>

definition page_blocks :: "xbm \<Rightarrow> nat \<Rightarrow> nat set" where
  "page_blocks x k =
     {fst (get_block_range k (xb_page_size x) (xb_block_mem_size x))..<
      snd (get_block_range k (xb_page_size x) (xb_block_mem_size x))}"

text \<open>Every page has room for a block, and not absurdly many.\<close>

definition geometry_ok :: "nat \<Rightarrow> nat \<Rightarrow> bool" where
  "geometry_ok ps bm \<longleftrightarrow> 0 < bm \<and> ps < 2 ^ 60 \<and> (\<forall>k. fst (get_block_range k ps bm) < snd (get_block_range k ps bm))"

definition page_ok :: "xbm \<Rightarrow> nat set \<Rightarrow> nat \<times> virt_page \<Rightarrow> bool" where
  "page_ok x used e \<longleftrightarrow>
     vp_range (snd e) = Some (get_block_range (fst e) (xb_page_size x) (xb_block_mem_size x)) \<and>
     vp_ok (snd e) (used \<inter> page_blocks x (fst e))"

definition free_count :: "pages \<Rightarrow> nat" where
  "free_count ps = (\<Sum>e \<leftarrow> ps. length (vp_free_list (snd e)))"

text \<open>\<open>fresh\<close> are pages that may be without a used block; between operations there are none.\<close>

definition xb_inv :: "nat set \<Rightarrow> xbm \<Rightarrow> nat set \<Rightarrow> nat set \<Rightarrow> bool" where
  "xb_inv fresh x hs used \<longleftrightarrow>
     geometry_ok (xb_page_size x) (xb_block_mem_size x) \<and>
     distinct (map fst (xb_avail x) @ map fst (xb_full x)) \<and> set (map fst (xb_avail x) @ map fst (xb_full x)) = hs \<and>
     (\<forall>e \<in> set (xb_avail x) \<union> set (xb_full x). page_ok x used e) \<and>
     (\<forall>e \<in> set (xb_avail x). vp_free_list (snd e) \<noteq> []) \<and> (\<forall>e \<in> set (xb_full x). vp_free_list (snd e) = []) \<and>
     (\<forall>k \<in> hs - fresh. used \<inter> page_blocks x k \<noteq> {}) \<and>
     xb_num_avail x = free_count (xb_avail x) \<and> used \<subseteq> \<Union> (page_blocks x ` hs) \<and>
     distinct (xb_reserved x) \<and> set (xb_reserved x) \<subseteq> used"

lemma geometry_divisible:
  assumes "0 < bm" "bm dvd ps" "0 < ps" "ps < 2 ^ 60"
  shows "geometry_ok ps bm"
proof -
  have "0 < get_num_blocks ps bm" using assms by (simp add: get_num_blocks_def div_greater_zero_iff dvd_imp_le)
  then show ?thesis using assms by (simp add: geometry_ok_def range_divisible)
qed

lemma xbm_new_inv: "geometry_ok ps bm \<Longrightarrow> xb_inv {} (xbm_new n bm ps) {} {}"
  by (simp add: xb_inv_def xbm_new_def free_count_def)

lemma page_blocks_disjoint: "geometry_ok (xb_page_size x) (xb_block_mem_size x) \<Longrightarrow> k \<noteq> l \<Longrightarrow>
    page_blocks x k \<inter> page_blocks x l = {}"
  unfolding page_blocks_def by (rule block_ranges_disjoint) (simp_all add: geometry_ok_def)

lemma page_blocks_cong: "xb_page_size x' = xb_page_size x \<Longrightarrow> xb_block_mem_size x' = xb_block_mem_size x \<Longrightarrow>
    page_blocks x' = page_blocks x"
  by (auto simp: page_blocks_def)

lemma page_ok_cong:
  assumes "xb_page_size x' = xb_page_size x" "xb_block_mem_size x' = xb_block_mem_size x"
    and "used' \<inter> page_blocks x (fst e) = used \<inter> page_blocks x (fst e)"
  shows "page_ok x' used' e = page_ok x used e"
  using assms page_blocks_cong[OF assms(1,2)] by (simp add: page_ok_def)

section \<open>The page lists\<close>

lemma erase_page_sel [simp]:
  "set (erase_page k ps) = {e \<in> set ps. fst e \<noteq> k}" "map fst (erase_page k ps) = filter (\<lambda>j. j \<noteq> k) (map fst ps)"
  by (auto simp: erase_page_def filter_map o_def)

lemma set_page_sel [simp]:
  "set (set_page k v ps) = insert (k, v) {e \<in> set ps. fst e \<noteq> k}"
  "map fst (set_page k v ps) = k # filter (\<lambda>j. j \<noteq> k) (map fst ps)"
  by (simp_all add: set_page_def)

lemma free_count_erase:
  assumes "distinct (map fst ps)" "(k, v) \<in> set ps"
  shows "free_count ps = free_count (erase_page k ps) + length (vp_free_list v)"
  using assms
proof (induction ps)
  case (Cons e ps)
  show ?case
  proof (cases "e = (k, v)")
    case True
    then have "erase_page k ps = ps" using Cons.prems(1) by (auto simp: erase_page_def filter_id_conv image_iff)
    then show ?thesis using True by (simp add: free_count_def erase_page_def)
  next
    case False
    then have "(k, v) \<in> set ps" "fst e \<noteq> k" using Cons.prems by (auto simp: image_iff)
    then show ?thesis using Cons by (simp add: free_count_def erase_page_def)
  qed
qed simp

lemma free_count_erase_absent: "k \<notin> fst ` set ps \<Longrightarrow> free_count (erase_page k ps) = free_count ps"
proof -
  assume "k \<notin> fst ` set ps"
  then have "erase_page k ps = ps" by (auto simp: erase_page_def filter_id_conv image_iff)
  then show ?thesis by simp
qed

lemma free_count_set [simp]: "free_count (set_page k v ps) = length (vp_free_list v) + free_count (erase_page k ps)"
  by (simp add: free_count_def set_page_def)

lemma erase_page_absent: "k \<notin> fst ` set ps \<Longrightarrow> erase_page k ps = ps"
  by (auto simp: erase_page_def filter_id_conv image_iff)

section \<open>Changing one page\<close>

lemma page_ok_bounds:
  assumes "page_ok x used (k, v)"
  shows "set (vp_free_list v) \<union> (used \<inter> page_blocks x k) = page_blocks x k" "set (vp_free_list v) \<inter> used = {}"
    "distinct (vp_free_list v)"
proof -
  obtain a b where ab: "get_block_range k (xb_page_size x) (xb_block_mem_size x) = (a, b)" by fastforce
  then have pb: "page_blocks x k = {a..<b}" by (simp add: page_blocks_def)
  have v: "set (vp_free_list v) \<inter> (used \<inter> {a..<b}) = {}" "set (vp_free_list v) \<union> (used \<inter> {a..<b}) = {a..<b}"
    "distinct (vp_free_list v)"
    using assms by (auto simp: page_ok_def vp_ok_def ab pb)
  show "set (vp_free_list v) \<union> (used \<inter> page_blocks x k) = page_blocks x k" using v(2) pb by simp
  show "set (vp_free_list v) \<inter> used = {}" using v(1,2) by blast
  show "distinct (vp_free_list v)" by (rule v(3))
qed

text \<open>
  Page \<open>k\<close> gets the contents \<open>v\<close> and moves to the list its free blocks put it in; or it is
  removed. The used blocks change on page \<open>k\<close> only.
\<close>

definition page_change :: "xbm \<Rightarrow> xbm \<Rightarrow> nat set \<Rightarrow> nat set \<Rightarrow> nat \<Rightarrow> bool" where
  "page_change x x' used used' k \<longleftrightarrow>
     xb_page_size x' = xb_page_size x \<and> xb_block_mem_size x' = xb_block_mem_size x \<and>
     (\<forall>j. j \<noteq> k \<longrightarrow> used' \<inter> page_blocks x j = used \<inter> page_blocks x j) \<and>
     used' \<subseteq> used \<union> page_blocks x k \<and> distinct (xb_reserved x') \<and> set (xb_reserved x') \<subseteq> used' \<and>
     xb_num_avail x' = free_count (xb_avail x')"

lemma page_change_same:
  assumes "page_change x x' used used' k"
  shows "page_blocks x' = page_blocks x" "fst e \<noteq> k \<Longrightarrow> page_ok x' used' e = page_ok x used e"
  using assms page_blocks_cong[of x' x] page_ok_cong[of x' x used' e used] by (simp_all add: page_change_def)

lemma xb_keys:
  assumes "xb_inv fresh x hs used"
  shows "distinct (map fst (xb_avail x))" "distinct (map fst (xb_full x))"
    "set (map fst (xb_avail x)) \<inter> set (map fst (xb_full x)) = {}"
    "set (map fst (xb_avail x)) \<union> set (map fst (xb_full x)) = hs"
  using assms by (simp_all add: xb_inv_def)

lemma xb_invD:
  assumes "xb_inv fresh x hs used"
  shows "geometry_ok (xb_page_size x) (xb_block_mem_size x)" "xb_num_avail x = free_count (xb_avail x)"
    "distinct (xb_reserved x)" "set (xb_reserved x) \<subseteq> used"
    "\<And>e. e \<in> set (xb_avail x) \<Longrightarrow> page_ok x used e \<and> vp_free_list (snd e) \<noteq> []"
    "\<And>e. e \<in> set (xb_full x) \<Longrightarrow> page_ok x used e \<and> vp_free_list (snd e) = []"
    "used \<subseteq> \<Union> (page_blocks x ` hs)"
  using assms unfolding xb_inv_def by blast+

lemma page_replaced:
  assumes inv: "xb_inv fresh x hs used" and k: "k \<in> hs" and ch: "page_change x x' used used' k"
    and v: "page_ok x' used' (k, v)" "used' \<inter> page_blocks x k \<noteq> {}"
    and av: "xb_avail x' = (if vp_free_list v = [] then erase_page k (xb_avail x) else set_page k v (xb_avail x))"
    and fu: "xb_full x' = (if vp_free_list v = [] then set_page k v (xb_full x) else erase_page k (xb_full x))"
  shows "xb_inv (fresh - {k}) x' hs used'"
proof -
  note I = inv[unfolded xb_inv_def] and C = ch[unfolded page_change_def]
  note keys = xb_keys[OF inv] and same = page_change_same[OF ch]
  have sizes: "xb_page_size x' = xb_page_size x" "xb_block_mem_size x' = xb_block_mem_size x" using C by simp_all
  have used_cover: "used' \<subseteq> \<Union> (page_blocks x ` hs)" using I C k by blast
  show ?thesis
    unfolding xb_inv_def sizes same(1)
  proof (intro conjI)
  show "distinct (map fst (xb_avail x') @ map fst (xb_full x'))"
    using keys unfolding av fu by (auto simp: distinct_filter simp del: set_map)
  show "set (map fst (xb_avail x') @ map fst (xb_full x')) = hs"
    using keys k unfolding av fu by (auto simp del: set_map)
  show "\<forall>e \<in> set (xb_avail x') \<union> set (xb_full x'). page_ok x' used' e"
    using I same(2) v unfolding av fu by auto
  show "\<forall>e \<in> set (xb_avail x'). vp_free_list (snd e) \<noteq> []" "\<forall>e \<in> set (xb_full x'). vp_free_list (snd e) = []"
    using I unfolding av fu by auto
  show "\<forall>j \<in> hs - (fresh - {k}). used' \<inter> page_blocks x j \<noteq> {}"
    using I C v(2) by (metis Diff_iff singletonD)
qed (use I C used_cover in \<open>simp_all\<close>)
qed

lemma page_removed:
  assumes inv: "xb_inv fresh x hs used" and k: "k \<in> hs" and ch: "page_change x x' used used' k"
    and v: "used' \<inter> page_blocks x k = {}"
    and av: "xb_avail x' = erase_page k (xb_avail x)" and fu: "xb_full x' = erase_page k (xb_full x)"
  shows "xb_inv fresh x' (hs - {k}) used'"
proof -
  note I = inv[unfolded xb_inv_def] and C = ch[unfolded page_change_def]
  note keys = xb_keys[OF inv] and same = page_change_same[OF ch]
  have sizes: "xb_page_size x' = xb_page_size x" "xb_block_mem_size x' = xb_block_mem_size x" using C by simp_all
  have used_cover: "used' \<subseteq> \<Union> (page_blocks x ` hs)" using I C k by blast
  show ?thesis
    unfolding xb_inv_def sizes same(1)
  proof (intro conjI)
  show "distinct (map fst (xb_avail x') @ map fst (xb_full x'))"
    using keys unfolding av fu by (auto simp: distinct_filter simp del: set_map)
  show "set (map fst (xb_avail x') @ map fst (xb_full x')) = hs - {k}"
    using keys k unfolding av fu by (auto simp del: set_map)
  show "\<forall>e \<in> set (xb_avail x') \<union> set (xb_full x'). page_ok x' used' e"
    using I same(2) unfolding av fu by auto
  show "\<forall>e \<in> set (xb_avail x'). vp_free_list (snd e) \<noteq> []" "\<forall>e \<in> set (xb_full x'). vp_free_list (snd e) = []"
    using I unfolding av fu by auto
  show "\<forall>j \<in> hs - {k} - fresh. used' \<inter> page_blocks x j \<noteq> {}"
    using I C by (metis Diff_iff singletonI)
  show "used' \<subseteq> \<Union> (page_blocks x ` (hs - {k}))" using used_cover v by blast
qed (use I C in \<open>simp_all\<close>)
qed

section \<open>Allocation\<close>

lemma used_other_page:
  assumes "geometry_ok (xb_page_size x) (xb_block_mem_size x)" "S \<subseteq> page_blocks x k" "j \<noteq> k"
  shows "(used \<union> S) \<inter> page_blocks x j = used \<inter> page_blocks x j" "(used - S) \<inter> page_blocks x j = used \<inter> page_blocks x j"
  using page_blocks_disjoint[OF assms(1,3)] assms(2) by blast+

lemma take_from_page_ok:
  assumes inv: "xb_inv {k} x hs used" and e: "(k, v) \<in> set (xb_avail x)" and need: "0 < need"
  shows "\<exists>bs x'. take_from_page need (k, v) x = Inr (bs, length bs, x') \<and> bs = take need (vp_free_list v) \<and>
    bs \<noteq> [] \<and> distinct bs \<and> set bs \<inter> used = {} \<and>
    xb_inv {} x' hs (used \<union> set bs) \<and> xb_reserved x' = xb_reserved x"
proof -
  note D = xb_invD[OF inv] and keys = xb_keys[OF inv]
  have pk: "page_ok x used (k, v)" and ne: "vp_free_list v \<noteq> []" using D(5)[OF e] by simp_all
  have vo: "vp_ok v (used \<inter> page_blocks x k)" using pk by (simp add: page_ok_def)
  define bs where "bs = take need (vp_free_list v)"
  define n where "n = min (length (vp_free_list v)) need"
  have bsn: "take n (vp_free_list v) = bs" "length bs = n" "drop n (vp_free_list v) = drop need (vp_free_list v)"
    by (auto simp: bs_def n_def min_def)
  obtain v1 where v1: "vp_alloc n v = Inr (bs, v1)" "vp_ok v1 (used \<inter> page_blocks x k \<union> set bs)"
    "vp_range v1 = vp_range v" "vp_free_list v1 = drop need (vp_free_list v)"
    using vp_alloc_ok[OF vo ne, of n] bsn by auto
  have b: "bs \<noteq> []" "distinct bs" using need ne page_ok_bounds(3)[OF pk] by (simp_all add: bs_def)
  have "set bs \<subseteq> set (vp_free_list v)" unfolding bs_def by (rule set_take_subset)
  then have bu: "set bs \<inter> used = {}" "set bs \<subseteq> page_blocks x k" using page_ok_bounds[OF pk] by blast+
  define x1 where "x1 = (if vp_free_list v1 = []
      then x\<lparr>xb_full := set_page k v1 (xb_full x), xb_avail := erase_page k (xb_avail x)\<rparr>
      else x\<lparr>xb_avail := set_page k v1 (xb_avail x)\<rparr>)"
  define x' where "x' = x1\<lparr>xb_num_avail := size_sub (xb_num_avail x1) n\<rparr>"
  have eq: "take_from_page need (k, v) x = Inr (bs, length bs, x')"
    using v1(1) vp_ok_init[OF vo] vp_ok_init[OF v1(2)] bsn(2)
    by (simp add: take_from_page_def vp_num_free_def vp_full_def Let_def n_def x'_def x1_def)
  have fc: "free_count (xb_avail x) = free_count (erase_page k (xb_avail x)) + length (vp_free_list v)"
    by (rule free_count_erase[OF keys(1) e])
  have "k \<in> set (map fst (xb_avail x))" using e by force
  then have kf: "k \<in> hs" "k \<notin> fst ` set (xb_full x)" using keys(3,4) by auto
  have lv: "length (vp_free_list v1) + n = length (vp_free_list v)" using v1(4) by (simp add: n_def min_def)
  have num: "xb_num_avail x' = free_count (xb_avail x')"
    using lv fc D(2) by (cases "vp_free_list v1 = []") (simp_all add: x'_def x1_def)
  have res: "distinct (xb_reserved x')" "set (xb_reserved x') \<subseteq> used \<union> set bs" 
    using D(3,4) by (auto simp: x'_def x1_def)
  have sz: "xb_page_size x' = xb_page_size x" "xb_block_mem_size x' = xb_block_mem_size x" by (simp_all add: x'_def x1_def)
  have pc: "page_change x x' used (used \<union> set bs) k"
    using used_other_page(1)[OF D(1) bu(2)] bu(2) num res sz unfolding page_change_def by blast
  have "page_ok x' (used \<union> set bs) (k, v1)"
  proof -
    have "(used \<union> set bs) \<inter> page_blocks x k = used \<inter> page_blocks x k \<union> set bs" using bu(2) by blast
    then show ?thesis using pk v1(2,3) sz page_change_same(1)[OF pc] by (simp add: page_ok_def)
  qed
  then have "xb_inv ({k} - {k}) x' hs (used \<union> set bs)"
  proof (rule page_replaced[OF inv kf(1) pc])
    show "(used \<union> set bs) \<inter> page_blocks x k \<noteq> {}" using b(1) bu(2) by (cases bs) auto
  qed (use kf(2) in \<open>simp_all add: x'_def x1_def erase_page_absent\<close>)
  moreover have "xb_reserved x' = xb_reserved x" by (simp add: x'_def x1_def)
  ultimately show ?thesis using eq b bu(1) bs_def by (metis Diff_cancel)
qed

lemma xb_inv_fresh: "xb_inv {} x hs used \<Longrightarrow> xb_inv F x hs used"
  by (simp add: xb_inv_def)

text \<open>A page the manager did not hold has no used block.\<close>

lemma new_page_inv:
  assumes inv: "xb_inv {} x hs used" and k: "k \<notin> hs" and av: "xb_avail x = []"
  shows "\<exists>v n. vp_init (xb_block_mem_size x) (vp_new k (xb_page_size x)) = Inr v \<and> vp_num_free v = Inr n \<and>
    xb_inv {k} (x\<lparr>xb_num_avail := xb_num_avail x + n, xb_avail := set_page k v []\<rparr>) (insert k hs) used"
proof -
  note D = xb_invD[OF inv] and keys = xb_keys[OF inv]
  obtain a b where ab: "get_block_range k (xb_page_size x) (xb_block_mem_size x) = (a, b)" by fastforce
  have bm: "0 < xb_block_mem_size x" "xb_page_size x < 2 ^ 60" using D(1) by (simp_all add: geometry_ok_def)
  have lt: "a < b" using D(1) ab unfolding geometry_ok_def by (metis fst_conv snd_conv)
  have "b - a \<le> xb_page_size x div xb_block_mem_size x"
    using range_card_bounds[OF bm(1), of k "xb_page_size x"] ab by (simp add: get_num_blocks_def)
  then have sz: "b - a < 2 ^ 60" using bm(2) div_le_dividend[of "xb_page_size x" "xb_block_mem_size x"] by linarith
  obtain v where v: "vp_init (xb_block_mem_size x) (vp_new k (xb_page_size x)) = Inr v" "vp_ok v {}"
    "vp_range v = Some (a, b)" "vp_free_list v = [a..<b]"
    using vp_init_ok[OF bm(1) _ less_imp_le[OF lt] sz, of "vp_new k (xb_page_size x)"] ab by (auto simp: vp_new_def)
  have no: "used \<inter> page_blocks x k = {}"
  proof (rule ccontr)
    assume "used \<inter> page_blocks x k \<noteq> {}"
    then obtain c j where c: "c \<in> page_blocks x k" "j \<in> hs" "c \<in> page_blocks x j" using D(7) by blast
    then have "j \<noteq> k" using k by blast
    then show False using page_blocks_disjoint[OF D(1), of j k] c by blast
  qed
  define x' where "x' = x\<lparr>xb_num_avail := xb_num_avail x + (b - a), xb_avail := set_page k v []\<rparr>"
  have sel: "xb_page_size x' = xb_page_size x" "xb_block_mem_size x' = xb_block_mem_size x"
    "xb_reserved x' = xb_reserved x" "xb_full x' = xb_full x" "xb_avail x' = [(k, v)]" "xb_num_avail x' = xb_num_avail x + (b - a)"
    by (simp_all add: x'_def set_page_def erase_page_def)
  have pb: "page_blocks x' = page_blocks x" by (rule page_blocks_cong) (rule sel)+
  have pk: "page_ok x' used (k, v)" using v(2,3) ab no by (simp add: page_ok_def pb sel)
  have same: "page_ok x' used e = page_ok x used e" for e by (rule page_ok_cong) (simp_all add: sel)
  have "xb_inv {k} x' (insert k hs) used"
    unfolding xb_inv_def pb sel
  proof (intro conjI)
    show "distinct (map fst [(k, v)] @ map fst (xb_full x))" "set (map fst [(k, v)] @ map fst (xb_full x)) = insert k hs"
      using keys k av by auto
    show "\<forall>e \<in> set [(k, v)] \<union> set (xb_full x). page_ok x' used e" using D(6) pk same by simp
    show "\<forall>e \<in> set [(k, v)]. vp_free_list (snd e) \<noteq> []" "\<forall>e \<in> set (xb_full x). vp_free_list (snd e) = []"
      using lt v(4) D(6) by simp_all
    show "\<forall>j \<in> insert k hs - {k}. used \<inter> page_blocks x j \<noteq> {}" using inv unfolding xb_inv_def by blast
    show "xb_num_avail x + (b - a) = free_count [(k, v)]" using D(2) av v(4) by (simp add: free_count_def)
    show "used \<subseteq> \<Union> (page_blocks x ` insert k hs)" using D(7) by blast
  qed (rule D)+
  moreover have "vp_num_free v = Inr (b - a)" using vp_ok_init[OF v(2)] v(4) by (simp add: vp_num_free_def)
  ultimately show ?thesis using v(1) unfolding x'_def by (intro exI[of _ v] exI[of _ "b - a"] conjI)
qed

definition pick_ok :: "(pages \<Rightarrow> nat) \<Rightarrow> bool" where
  "pick_ok pick \<longleftrightarrow> (\<forall>ps. ps \<noteq> [] \<longrightarrow> pick ps < length ps)"

lemma current_page_avail:
  assumes "pick_ok pick" "xb_avail x \<noteq> []"
  shows "\<exists>e. e \<in> set (xb_avail x) \<and> current_page pick ap (x, p) = Inr (Some e, x, p)"
  using assms by (intro exI[of _ "xb_avail x ! pick (xb_avail x)"]) (simp add: current_page_def pick_ok_def)

text \<open>What the available pages hold is handed out without a call of the allocator.\<close>

lemma alloc_available:
  assumes "pick_ok pick" "xb_inv {} x hs used" "need \<le> xb_num_avail x"
  shows "\<exists>bs x'. alloc_from_pages pick ap need ret (x, p) = Inr (ret @ bs, x', p) \<and> length bs = need \<and>
    distinct bs \<and> set bs \<inter> used = {} \<and> xb_inv {} x' hs (used \<union> set bs)"
  using assms(2,3)
proof (induction need arbitrary: x ret used rule: less_induct)
  case (less need)
  show ?case
  proof (cases "need = 0")
    case True
    then show ?thesis using less.prems by (intro exI[of _ "[]"]) simp
  next
    case False
    have "xb_avail x \<noteq> []" using False less.prems xb_invD(2)[OF less.prems(1)] by (auto simp: free_count_def)
    then obtain k v where e: "(k, v) \<in> set (xb_avail x)" "current_page pick ap (x, p) = Inr (Some (k, v), x, p)"
      using current_page_avail[OF assms(1)] by fastforce
    obtain bs x1 where t: "take_from_page need (k, v) x = Inr (bs, length bs, x1)" "bs = take need (vp_free_list v)"
      "bs \<noteq> []" "distinct bs" "set bs \<inter> used = {}" "xb_inv {} x1 hs (used \<union> set bs)"
      using take_from_page_ok[OF xb_inv_fresh[OF less.prems(1)] e(1)] False by blast
    have n: "xb_num_avail x1 + length bs = xb_num_avail x"
    proof -
      have "xb_num_avail x1 = size_sub (xb_num_avail x) (length bs)"
        using t(1) by (auto simp: take_from_page_def Let_def split: if_splits)
      moreover have "length bs \<le> xb_num_avail x" using t(2) less.prems(2) by simp
      ultimately show ?thesis by simp
    qed
    have lt: "need - length bs < need" "need - length bs \<le> xb_num_avail x1" using t(3) False n less.prems(2) by auto
    obtain cs x2 where r: "alloc_from_pages pick ap (need - length bs) (ret @ bs) (x1, p) = Inr ((ret @ bs) @ cs, x2, p)"
      "length cs = need - length bs" "distinct cs" "set cs \<inter> (used \<union> set bs) = {}"
      "xb_inv {} x2 hs (used \<union> set bs \<union> set cs)"
      using less.IH[OF lt(1) t(6) lt(2)] by blast
    have "alloc_from_pages pick ap need ret (x, p) = Inr (ret @ (bs @ cs), x2, p)"
      using False e(2) t(1) r(1) by (subst alloc_from_pages.simps) simp
    moreover have "length (bs @ cs) = need" using r(2) t(2) by simp
    moreover have "distinct (bs @ cs)" "set (bs @ cs) \<inter> used = {}" using r(3,4) t(4,5) by auto
    moreover have "xb_inv {} x2 hs (used \<union> set (bs @ cs))" using r(5) by (simp add: Un_assoc)
    ultimately show ?thesis by blast
  qed
qed

section \<open>Freeing\<close>

lemma free_group_ok:
  assumes inv: "xb_inv {} x hs used" and k: "k \<in> hs" and ids: "distinct idxs" "idxs \<noteq> []" "set idxs \<subseteq> used \<inter> page_blocks x k"
    and res: "set idxs \<inter> set (xb_reserved x) = {}"
  shows "\<exists>x'. free_group (k, idxs) (x, to_free) = Inr (x', to_free @ (if used \<inter> page_blocks x k = set idxs then [k] else [])) \<and>
    xb_inv {} x' (if used \<inter> page_blocks x k = set idxs then hs - {k} else hs) (used - set idxs) \<and>
    page_blocks x' = page_blocks x \<and> xb_reserved x' = xb_reserved x \<and> xb_page_size x' = xb_page_size x \<and>
    xb_block_mem_size x' = xb_block_mem_size x"
proof -
  note D = xb_invD[OF inv] and keys = xb_keys[OF inv]
  define wf where "wf = (map_of (xb_full x) k \<noteq> None)"
  define page where "page = (if wf then map_of (xb_full x) k else map_of (xb_avail x) k)"
  have wf_iff: "wf \<longleftrightarrow> k \<in> fst ` set (xb_full x)" by (simp add: wf_def map_of_eq_None_iff)
  have "k \<in> fst ` set (xb_avail x)" if "\<not> wf" using that keys(4) k wf_iff by auto
  then obtain v where v: "page = Some v" using wf_def page_def by (metis map_of_eq_None_iff not_Some_eq)
  then have mem: "(k, v) \<in> (if wf then set (xb_full x) else set (xb_avail x))"
    using keys(1,2) by (auto simp: page_def dest: map_of_SomeD)
  then have pk: "page_ok x used (k, v)" using D(5,6) by (auto split: if_splits)
  then have vo: "vp_ok v (used \<inter> page_blocks x k)" by (simp add: page_ok_def)
  obtain v1 where v1: "vp_free_batch idxs v = Inr v1" "vp_ok v1 (used \<inter> page_blocks x k - set idxs)"
    "vp_range v1 = vp_range v" "vp_free_list v1 = vp_free_list v @ idxs"
    using vp_free_batch_ok[OF vo ids(3,1)] by blast
  define emp where "emp = (used \<inter> page_blocks x k = set idxs)"
  have em: "vp_empty v1 = Inr emp" using vp_empty_iff[OF v1(2)] ids(3) by (auto simp: emp_def)
  have nf: "vp_num_free v1 = Inr (length (vp_free_list v) + length idxs)"
    using vp_ok_init[OF v1(2)] v1(4) by (simp add: vp_num_free_def)
  define x' where "x' = x\<lparr>xb_num_avail := (if emp then size_sub (xb_num_avail x + length idxs) (length (vp_free_list v) + length idxs)
      else xb_num_avail x + length idxs),
    xb_avail := (if emp then if wf then xb_avail x else erase_page k (xb_avail x) else set_page k v1 (xb_avail x)),
    xb_full := (if wf then erase_page k (xb_full x) else xb_full x)\<rparr>"
  have eq: "free_group (k, idxs) (x, to_free) = Inr (x', to_free @ (if emp then [k] else []))"
  proof (cases wf)
    case True
    then have "map_of (xb_full x) k = Some v" using v by (simp add: page_def)
    then show ?thesis using v1(1) em nf True by (cases emp) (simp_all add: free_group_def Let_def x'_def)
  next
    case False
    then have "map_of (xb_full x) k = None" "map_of (xb_avail x) k = Some v" using v by (simp_all add: page_def wf_def)
    then show ?thesis using v1(1) em nf False by (cases emp) (simp_all add: free_group_def Let_def x'_def)
  qed
  have num: "xb_num_avail x' = free_count (xb_avail x')"
  proof (cases wf)
    case True
    then have "vp_free_list v = []" "k \<notin> fst ` set (xb_avail x)" using mem D(6) wf_iff keys(3) by auto
    then show ?thesis using True D(2) v1(4) by (simp add: x'_def free_count_erase_absent)
  next
    case False
    then show ?thesis using free_count_erase[OF keys(1), of k v] mem D(2) v1(4) by (simp add: x'_def)
  qed
  have sz: "xb_page_size x' = xb_page_size x" "xb_block_mem_size x' = xb_block_mem_size x" "xb_reserved x' = xb_reserved x"
    by (simp_all add: x'_def)
  have pc: "page_change x x' used (used - set idxs) k"
    using used_other_page(2)[OF D(1), of "set idxs" k _ used] ids(3) num D(3,4) res sz unfolding page_change_def by auto
  have ab: "erase_page k (xb_full x) = xb_full x" if "\<not> wf" using that wf_iff by (simp add: erase_page_absent)
  have aa: "erase_page k (xb_avail x) = xb_avail x" if wf using that wf_iff keys(3) by (intro erase_page_absent) auto
  have "xb_inv {} x' (if emp then hs - {k} else hs) (used - set idxs)"
  proof (cases emp)
    case True
    then have no: "(used - set idxs) \<inter> page_blocks x k = {}" by (auto simp: emp_def)
    have "xb_avail x' = erase_page k (xb_avail x)" "xb_full x' = erase_page k (xb_full x)"
      using True aa ab by (simp_all add: x'_def)
    from page_removed[OF inv k pc no this] show ?thesis using True by simp
  next
    case False
    have "(used - set idxs) \<inter> page_blocks x k = used \<inter> page_blocks x k - set idxs" by blast
    moreover have "page_ok x' (used - set idxs) (k, v1)"
      using pk v1(2,3) sz page_change_same(1)[OF pc] calculation by (simp add: page_ok_def)
    moreover have "used \<inter> page_blocks x k - set idxs \<noteq> {}" using False ids(3) by (auto simp: emp_def)
    moreover have "vp_free_list v1 \<noteq> []" using v1(4) ids(2) by simp
    moreover have "xb_avail x' = set_page k v1 (xb_avail x)" "xb_full x' = erase_page k (xb_full x)"
      using False ab by (simp_all add: x'_def)
    ultimately have "xb_inv ({} - {k}) x' hs (used - set idxs)"
      using page_replaced[OF inv k pc, of v1] by simp
    then show ?thesis using False by simp
  qed
  then show ?thesis using eq sz page_change_same(1)[OF pc] unfolding emp_def by blast
qed


text \<open>The groups of one call: distinct pages, each with some of its used blocks.\<close>

definition groups_ok :: "xbm \<Rightarrow> nat set \<Rightarrow> nat set \<Rightarrow> (nat \<times> nat list) list \<Rightarrow> bool" where
  "groups_ok x hs used gs \<longleftrightarrow> distinct (map fst gs) \<and>
     (\<forall>(k, idxs) \<in> set gs. k \<in> hs \<and> distinct idxs \<and> idxs \<noteq> [] \<and> set idxs \<subseteq> used \<inter> page_blocks x k \<and>
        set idxs \<inter> set (xb_reserved x) = {})"

definition group_set :: "(nat \<times> nat list) list \<Rightarrow> nat set" where
  "group_set gs = (\<Union>g \<in> set gs. set (snd g))"

lemma free_groups_ok:
  assumes "xb_inv {} x hs used" "groups_ok x hs used gs"
  shows "\<exists>x' fs. foldE free_group gs (x, to_free) = Inr (x', to_free @ fs) \<and> distinct fs \<and> set fs \<subseteq> fst ` set gs \<and>
    set fs \<subseteq> hs \<and> xb_inv {} x' (hs - set fs) (used - group_set gs) \<and> xb_reserved x' = xb_reserved x"
  using assms
proof (induction gs arbitrary: x hs used to_free)
  case Nil
  then show ?case by (simp add: group_set_def)
next
  case (Cons g gs)
  obtain k idxs where g: "g = (k, idxs)" by (cases g)
  have G: "k \<in> hs" "distinct idxs" "idxs \<noteq> []" "set idxs \<subseteq> used \<inter> page_blocks x k" "set idxs \<inter> set (xb_reserved x) = {}"
    "k \<notin> fst ` set gs" "distinct (map fst gs)"
    using Cons.prems(2) g by (auto simp: groups_ok_def)
  define emp where "emp = (used \<inter> page_blocks x k = set idxs)"
  define hs1 where "hs1 = (if emp then hs - {k} else hs)"
  obtain x1 where x1: "free_group (k, idxs) (x, to_free) = Inr (x1, to_free @ (if emp then [k] else []))"
    "xb_inv {} x1 hs1 (used - set idxs)" "page_blocks x1 = page_blocks x" "xb_reserved x1 = xb_reserved x"
    using free_group_ok[OF Cons.prems(1) G(1-5)] unfolding emp_def hs1_def by blast
  have "groups_ok x1 hs1 (used - set idxs) gs"
    unfolding groups_ok_def
  proof (intro conjI ballI, rule G(7), clarify)
    fix j js assume j: "(j, js) \<in> set gs"
    then have jk: "j \<noteq> k" using G(6) by force
    have P: "j \<in> hs" "distinct js" "js \<noteq> []" "set js \<subseteq> used \<inter> page_blocks x j" "set js \<inter> set (xb_reserved x) = {}"
      using Cons.prems(2) j by (auto simp: groups_ok_def)
    have "set js \<inter> set idxs = {}"
      using P(4) G(4) page_blocks_disjoint[OF xb_invD(1)[OF Cons.prems(1)] jk] by blast
    then show "j \<in> hs1 \<and> distinct js \<and> js \<noteq> [] \<and> set js \<subseteq> (used - set idxs) \<inter> page_blocks x1 j \<and> set js \<inter> set (xb_reserved x1) = {}"
      using P jk x1(3,4) by (auto simp: hs1_def)
  qed
  from Cons.IH[OF x1(2) this] obtain x2 fs where r:
    "foldE free_group gs (x1, to_free @ (if emp then [k] else [])) = Inr (x2, (to_free @ (if emp then [k] else [])) @ fs)"
    "distinct fs" "set fs \<subseteq> fst ` set gs" "set fs \<subseteq> hs1" "xb_inv {} x2 (hs1 - set fs) (used - set idxs - group_set gs)"
    "xb_reserved x2 = xb_reserved x1" by blast
  let ?fs = "(if emp then [k] else []) @ fs"
  have "used - set idxs - group_set gs = used - group_set (g # gs)" "hs1 - set fs = hs - set ?fs"
    using g by (auto simp: group_set_def hs1_def)
  moreover have "foldE free_group (g # gs) (x, to_free) = Inr (x2, to_free @ ?fs)" using r(1) x1(1) g by simp
  moreover have "distinct ?fs" "set ?fs \<subseteq> fst ` set (g # gs)" "set ?fs \<subseteq> hs"
    using r(2-4) G(1,6) g by (auto simp: hs1_def split: if_splits)
  ultimately show ?case using r(5,6) x1(4) by metis
qed

lemma group_blocks_ok:
  assumes inv: "xb_inv {} x hs used" and bs: "distinct bs" "set bs \<subseteq> used - set (xb_reserved x)"
    and gs: "mset gs = mset (group_blocks (\<lambda>b. get_virt_page_id (xb_page_size x) b (xb_block_mem_size x)) bs)"
  shows "groups_ok x hs used gs" "group_set gs = set bs"
proof -
  let ?pg = "\<lambda>b. get_virt_page_id (xb_page_size x) b (xb_block_mem_size x)"
  have pg: "?pg b \<in> hs \<and> b \<in> page_blocks x (?pg b)" if b: "b \<in> set bs" for b
  proof -
    obtain k where k: "k \<in> hs" "b \<in> page_blocks x k" using b bs(2) xb_invD(7)[OF inv] by blast
    then have "?pg b = k"
      using block_page[of "xb_block_mem_size x" b k "xb_page_size x"] xb_invD(1)[OF inv] by (simp add: page_blocks_def geometry_ok_def)
    then show ?thesis using k by simp
  qed
  have sg: "set gs = (\<lambda>k. (k, filter (\<lambda>b. ?pg b = k) bs)) ` ?pg ` set bs"
    using mset_eq_setD[OF gs] by (simp add: group_blocks_def image_image)
  have "mset (map fst gs) = mset (remdups (map ?pg bs))"
    using gs by (simp add: group_blocks_def multiset.map_comp o_def del: mset_remdups_subset_eq)
  then have "distinct (map fst gs)" by (metis distinct_remdups mset_eq_imp_distinct_iff)
  then show "groups_ok x hs used gs"
    using sg pg bs unfolding groups_ok_def by (auto simp: filter_empty_conv) (metis pg)
  show "group_set gs = set bs" by (auto simp: group_set_def sg)
qed

section \<open>The manager over a page source\<close>

context page_source
begin

text \<open>An error of the allocation loop is an error of the allocator; a short result means that the
  allocator had no page.\<close>

definition alloc_post :: "nat set \<Rightarrow> nat \<Rightarrow> nat list \<Rightarrow> nat list \<Rightarrow> (nat list \<times> xbm \<times> 'p) res \<Rightarrow> bool" where
  "alloc_post used need ret reserved r \<longleftrightarrow> (case r of
      Inl e \<Rightarrow> \<exists>q. src_ok q \<and> alloc_page q = Inl e
    | Inr (ret', x', p') \<Rightarrow> \<exists>bs. ret' = ret @ bs \<and> distinct bs \<and> set bs \<inter> used = {} \<and> length bs \<le> need \<and>
        src_ok p' \<and> xb_inv {} x' (held p') (used \<union> set bs) \<and> xb_reserved x' = reserved \<and>
        (length bs < need \<longrightarrow> (\<exists>q. src_ok q \<and> alloc_page q = Inr (None, p'))))"

lemma alloc_post_append:
  assumes "alloc_post (used \<union> set bs) (need - length bs) (ret @ bs) reserved r"
    and "distinct bs" "set bs \<inter> used = {}" "length bs \<le> need"
  shows "alloc_post used need ret reserved r"
proof (cases r)
  case (Inl e)
  then show ?thesis using assms(1) by (simp add: alloc_post_def)
next
  case (Inr s)
  obtain ret' x' p' where r: "r = Inr (ret', x', p')" using Inr by (cases s) auto
  obtain cs where c: "ret' = (ret @ bs) @ cs" "distinct cs" "set cs \<inter> (used \<union> set bs) = {}" "length cs \<le> need - length bs"
    "src_ok p'" "xb_inv {} x' (held p') (used \<union> set bs \<union> set cs)" "xb_reserved x' = reserved"
    "length cs < need - length bs \<longrightarrow> (\<exists>q. src_ok q \<and> alloc_page q = Inr (None, p'))"
    using assms(1) r by (auto simp: alloc_post_def)
  have "ret' = ret @ (bs @ cs)" "distinct (bs @ cs)" "set (bs @ cs) \<inter> used = {}" "length (bs @ cs) \<le> need"
    using c(1-4) assms(2-4) by auto
  moreover have "xb_inv {} x' (held p') (used \<union> set (bs @ cs))" using c(6) by (simp add: Un_assoc)
  moreover have "length (bs @ cs) < need \<longrightarrow> (\<exists>q. src_ok q \<and> alloc_page q = Inr (None, p'))"
    using c(8) by (simp add: less_diff_conv add.commute)
  ultimately show ?thesis unfolding alloc_post_def r sum.case prod.case using c(5,7) by blast
qed

text \<open>What \<open>current_page\<close> may do.\<close>

lemma current_page_cases:
  assumes "pick_ok pick" "src_ok p" "xb_inv {} x (held p) used"
  obtains (raise) e where "current_page pick alloc_page (x, p) = Inl e" "alloc_page p = Inl e"
  | (none) p1 where "current_page pick alloc_page (x, p) = Inr (None, x, p1)" "alloc_page p = Inr (None, p1)"
  | (page) k v x1 p1 where "current_page pick alloc_page (x, p) = Inr (Some (k, v), x1, p1)" "(k, v) \<in> set (xb_avail x1)"
      "src_ok p1" "xb_inv {k} x1 (held p1) used" "xb_reserved x1 = xb_reserved x"
proof (cases "xb_avail x = []")
  case False
  obtain k v where e: "(k, v) \<in> set (xb_avail x)" "current_page pick alloc_page (x, p) = Inr (Some (k, v), x, p)"
    using current_page_avail[OF assms(1) False] by fastforce
  show thesis by (rule page[OF e(2,1) assms(2) xb_inv_fresh[OF assms(3)]]) simp
next
  case True
  consider e where "alloc_page p = Inl e" | p1 where "alloc_page p = Inr (None, p1)" | k p1 where "alloc_page p = Inr (Some k, p1)"
    by (metis option.exhaust sumE surj_pair)
  then show thesis
  proof cases
    case 1
    then show thesis using True raise by (simp add: current_page_def)
  next
    case 2
    then show thesis using True none by (simp add: current_page_def)
  next
    case (3 k p1)
    have h: "src_ok p1" "k \<notin> held p" "held p1 = insert k (held p)" using alloc_some[OF assms(2)] 3 by auto
    obtain v n where v: "vp_init (xb_block_mem_size x) (vp_new k (xb_page_size x)) = Inr v" "vp_num_free v = Inr n"
      "xb_inv {k} (x\<lparr>xb_num_avail := xb_num_avail x + n, xb_avail := set_page k v []\<rparr>) (insert k (held p)) used"
      using new_page_inv[OF assms(3) h(2) True] by blast
    have "current_page pick alloc_page (x, p) =
      Inr (Some (k, v), x\<lparr>xb_num_avail := xb_num_avail x + n, xb_avail := set_page k v []\<rparr>, p1)"
      using True 3 v(1,2) by (simp add: current_page_def)
    from page[OF this _ h(1)] v(3) h(3) show thesis by simp
  qed
qed

lemma alloc_from_pages_ok:
  assumes "pick_ok pick" "src_ok p" "xb_inv {} x (held p) used"
  shows "alloc_post used need ret (xb_reserved x) (alloc_from_pages pick alloc_page need ret (x, p))"
  using assms(2,3)
proof (induction need arbitrary: x p ret used rule: less_induct)
  case (less need)
  show ?case
  proof (cases "need = 0")
    case True
    then show ?thesis using less.prems by (simp add: alloc_post_def)
  next
    case False
    from assms(1) less.prems show ?thesis
    proof (cases rule: current_page_cases)
      case (raise e)
      then have "alloc_from_pages pick alloc_page need ret (x, p) = Inl e" using False by (subst alloc_from_pages.simps) simp
      then show ?thesis using raise(2) less.prems(1) by (auto simp: alloc_post_def)
    next
      case (none p1)
      then have "alloc_from_pages pick alloc_page need ret (x, p) = Inr (ret, x, p1)"
        using False by (subst alloc_from_pages.simps) simp
      then show ?thesis using none(2) alloc_none[OF less.prems(1)] less.prems by (auto simp: alloc_post_def)
    next
      case (page k v x1 p1)
      obtain bs x2 where t: "take_from_page need (k, v) x1 = Inr (bs, length bs, x2)" "bs = take need (vp_free_list v)"
        "bs \<noteq> []" "distinct bs" "set bs \<inter> used = {}" "xb_inv {} x2 (held p1) (used \<union> set bs)" "xb_reserved x2 = xb_reserved x1"
        using take_from_page_ok[OF page(4,2)] False by blast
      have lb: "length bs \<le> need" "need - length bs < need" using t(2,3) False by auto
      have "alloc_from_pages pick alloc_page need ret (x, p) =
          alloc_from_pages pick alloc_page (need - length bs) (ret @ bs) (x2, p1)"
        using False page(1) t(1) by (subst alloc_from_pages.simps) simp
      then show ?thesis
        using alloc_post_append[OF less.IH[OF lb(2) page(3) t(6)] t(4,5) lb(1)] t(7) page(5) by simp
    qed
  qed
qed

lemma drop_reserved_inv:
  assumes "xb_inv {} x hs used"
  shows "xb_inv {} (x\<lparr>xb_reserved := drop k (xb_reserved x)\<rparr>) hs used"
proof -
  let ?x1 = "x\<lparr>xb_reserved := drop k (xb_reserved x)\<rparr>"
  have "page_blocks ?x1 = page_blocks x" by (rule page_blocks_cong) simp_all
  then show ?thesis using assms by (auto simp: xb_inv_def page_ok_def dest: in_set_dropD)
qed

lemma alloc_internal_err:
  assumes "pick_ok pick" "src_ok p" "xb_inv {} x (held p) used"
    and "alloc_internal pick alloc_page need (x, p) = Inl e"
  shows "\<exists>q. src_ok q \<and> alloc_page q = Inl e"
proof -
  let ?k = "min (length (xb_reserved x)) need"
  show ?thesis
    using alloc_from_pages_ok[OF assms(1,2) drop_reserved_inv[OF assms(3)], of "need - ?k" "take ?k (xb_reserved x)" ?k]
      assms(4)
    by (simp add: alloc_post_def alloc_internal_def Let_def)
qed

lemma alloc_internal_ok:
  assumes "pick_ok pick" "src_ok p" "xb_inv {} x (held p) used"
    and "alloc_internal pick alloc_page need (x, p) = Inr (ret, x', p')"
  shows "distinct ret \<and> length ret \<le> need \<and> set ret \<inter> (used - set (xb_reserved x)) = {} \<and>
    src_ok p' \<and> xb_inv {} x' (held p') (used \<union> set ret) \<and>
    (used \<union> set ret) - set (xb_reserved x') = (used - set (xb_reserved x)) \<union> set ret \<and>
    (length ret < need \<longrightarrow> (\<exists>q. src_ok q \<and> alloc_page q = Inr (None, p')))"
proof -
  let ?k = "min (length (xb_reserved x)) need" and ?res = "xb_reserved x"
  let ?x1 = "x\<lparr>xb_reserved := drop ?k ?res\<rparr>"
  note D = xb_invD[OF assms(3)]
  have split: "set ?res = set (take ?k ?res) \<union> set (drop ?k ?res)" by (metis append_take_drop_id set_append)
  have disj: "set (take ?k ?res) \<inter> set (drop ?k ?res) = {}" using D(3) by (simp add: set_take_disj_set_drop_if_distinct)
  have inv1: "xb_inv {} ?x1 (held p) used" by (rule drop_reserved_inv[OF assms(3)])
  obtain bs where b: "ret = take ?k ?res @ bs" "distinct bs" "set bs \<inter> used = {}" "length bs \<le> need - ?k" "src_ok p'"
    "xb_inv {} x' (held p') (used \<union> set bs)" "xb_reserved x' = drop ?k ?res"
    "length bs < need - ?k \<longrightarrow> (\<exists>q. src_ok q \<and> alloc_page q = Inr (None, p'))"
    using alloc_from_pages_ok[OF assms(1,2) inv1, of "need - ?k" "take ?k ?res"] assms(4)
    by (auto simp: alloc_post_def alloc_internal_def Let_def)
  have tk: "length (take ?k ?res) = ?k" "?k \<le> need" by auto
  have sub: "set (take ?k ?res) \<subseteq> used" using D(4) split by blast
  have dist: "distinct ret" using b(1-3) D(3) sub by auto
  have len: "length ret \<le> need" "length ret < need \<longrightarrow> length bs < need - ?k" using b(1,4) tk by auto
  have un: "used \<union> set ret = used \<union> set bs" using b(1) sub by auto
  have fresh: "set ret \<inter> (used - set ?res) = {}" using b(1,3) split by auto
  have cl: "(used \<union> set bs) - set (drop ?k ?res) = (used - set ?res) \<union> set ret"
    using b(1,3) split disj D(4) sub by auto
  show ?thesis using dist len un fresh cl b(5-8) by auto
qed

text \<open>Freeing blocks in use succeeds and gives the pages left without a used block back.\<close>

lemma xb_free_blocks_ok:
  assumes "src_ok p" "xb_inv {} x (held p) used" "distinct bs" "set bs \<subseteq> used - set (xb_reserved x)"
    and "\<And>gs. mset (iter gs) = mset gs"
  shows "\<exists>x' p'. xb_free_blocks iter free_pages (xb_page_size x) bs (x, p) = Inr (x', p') \<and> src_ok p' \<and>
    xb_inv {} x' (held p') (used - set bs) \<and> xb_reserved x' = xb_reserved x"
proof (cases "bs = []")
  case True
  then show ?thesis using assms by (simp add: xb_free_blocks_def)
next
  case False
  let ?gs = "iter (group_blocks (\<lambda>b. get_virt_page_id (xb_page_size x) b (xb_block_mem_size x)) bs)"
  note G = group_blocks_ok[OF assms(2-4) assms(5)]
  obtain x1 fs where f: "foldE free_group ?gs (x, []) = Inr (x1, [] @ fs)" "distinct fs" "set fs \<subseteq> held p"
    "xb_inv {} x1 (held p - set fs) (used - set bs)" "xb_reserved x1 = xb_reserved x"
    using free_groups_ok[OF assms(2) G(1), of "[]"] unfolding G(2) by blast
  obtain p1 where p1: "free_pages fs p = Inr p1" "src_ok p1" "held p1 = held p - set fs"
    using free_held[OF assms(1) f(2,3)] by blast
  show ?thesis
  proof (cases "fs = []")
    case True
    then show ?thesis using f assms(1) False by (simp add: xb_free_blocks_def Let_def)
  next
    case ne: False
    then show ?thesis using f p1 False by (simp add: xb_free_blocks_def Let_def)
  qed
qed

lemma try_to_reserve_ok:
  assumes "pick_ok pick" "src_ok p" "xb_inv {} x (held p) used"
    and "try_to_reserve pick alloc_page nres need (x, p) = Inr (True, x', p')"
  shows "\<exists>bs. bs \<noteq> [] \<and> src_ok p' \<and> xb_inv {} x' (held p') (used \<union> set bs) \<and> set bs \<subseteq> set (xb_reserved x') \<and>
    (used \<union> set bs) - set (xb_reserved x') = used - set (xb_reserved x)"
proof -
  obtain bs x1 where a: "alloc_internal pick alloc_page need (x, p) = Inr (bs, x1, p')" "bs \<noteq> []"
    "x' = x1\<lparr>xb_reserved := xb_reserved x1 @ bs\<rparr>"
    using assms(4) by (auto simp: try_to_reserve_def split: if_splits)
  note A = alloc_internal_ok[OF assms(1-3) a(1)]
  have D: "xb_inv {} x1 (held p') (used \<union> set bs)" using A by blast
  have dj: "set bs \<inter> set (xb_reserved x1) = {}" using A by blast
  have "page_blocks x' = page_blocks x1" by (rule page_blocks_cong) (simp_all add: a(3))
  then have "xb_inv {} x' (held p') (used \<union> set bs)"
    using D A dj xb_invD(3)[OF D] by (auto simp: xb_inv_def page_ok_def a(3))
  moreover have "(used \<union> set bs) - set (xb_reserved x') = used - set (xb_reserved x)"
    using A by (auto simp: a(3))
  ultimately show ?thesis using A a(2,3) by auto
qed

lemma free_reserved_ok:
  assumes "src_ok p" "xb_inv {} x (held p) used" "\<And>gs. mset (iter gs) = mset gs"
  shows "\<exists>x' p'. free_reserved iter free_pages (xb_page_size x) (x, p) = Inr (x', p') \<and> src_ok p' \<and>
    xb_inv {} x' (held p') (used - set (xb_reserved x)) \<and> xb_reserved x' = []"
proof (cases "xb_reserved x = []")
  case True
  then show ?thesis using assms by (simp add: free_reserved_def)
next
  case False
  let ?x1 = "x\<lparr>xb_reserved := []\<rparr>"
  have "page_blocks ?x1 = page_blocks x" by (rule page_blocks_cong) simp_all
  then have i: "xb_inv {} ?x1 (held p) used" using assms(2) by (simp add: xb_inv_def page_ok_def)
  show ?thesis
    using xb_free_blocks_ok[OF assms(1) i xb_invD(3)[OF assms(2)] _ assms(3)] xb_invD(4)[OF assms(2)] False
    by (simp add: free_reserved_def)
qed

lemma destroy_ok:
  assumes "src_ok p" "xb_inv {} x (held p) used"
  shows "\<exists>p'. xbm_destroy free_pages True (x, p) = Inr p' \<and> src_ok p' \<and> held p' = {}"
proof -
  let ?ids = "map fst (xb_avail x) @ map fst (xb_full x)"
  have d: "distinct ?ids" "set ?ids = held p" using assms(2) unfolding xb_inv_def by blast+
  then show ?thesis using free_held[OF assms(1) d(1)] assms(1) by (cases "?ids = []") (auto simp: xbm_destroy_def Let_def)
qed

end

section \<open>Which pages are held, and the block counts\<close>

lemma xb_inv_held:
  assumes "xb_inv {} x hs used"
  shows "hs = {k. used \<inter> page_blocks x k \<noteq> {}}"
proof (intro equalityI subsetI, goal_cases)
  case (1 k)
  then show ?case using assms unfolding xb_inv_def by blast
next
  case (2 k)
  then obtain b j where "b \<in> page_blocks x k" "j \<in> hs" "b \<in> page_blocks x j" using xb_invD(7)[OF assms] by blast
  then show ?case using page_blocks_disjoint[OF xb_invD(1)[OF assms], of j k] by blast
qed

lemma page_used_card:
  assumes "page_ok x used (k, v)" "xb_block_mem_size x dvd xb_page_size x" "0 < xb_block_mem_size x"
  shows "card (used \<inter> page_blocks x k) + length (vp_free_list v) = get_num_blocks (xb_page_size x) (xb_block_mem_size x)"
proof -
  note B = page_ok_bounds[OF assms(1)]
  have "card (page_blocks x k) = get_num_blocks (xb_page_size x) (xb_block_mem_size x)"
    by (simp add: page_blocks_def range_divisible[OF assms(3,2)])
  moreover have "card (page_blocks x k) = card (set (vp_free_list v)) + card (used \<inter> page_blocks x k)"
    using B(1,2) by (subst B(1)[symmetric], intro card_Un_disjoint) (auto simp: page_blocks_def)
  ultimately show ?thesis using distinct_card[OF B(3)] by simp
qed

text \<open>\<open>get_num_allocated_blocks\<close>: the reserved blocks are in use and are added once more.\<close>

lemma num_allocated_blocks:
  assumes "xb_inv {} x hs used" "xb_block_mem_size x dvd xb_page_size x"
  shows "get_num_allocated_blocks x = card used + length (xb_reserved x)"
proof -
  let ?N = "get_num_blocks (xb_page_size x) (xb_block_mem_size x)"
  note D = xb_invD[OF assms(1)] and keys = xb_keys[OF assms(1)]
  have bm: "0 < xb_block_mem_size x" using D(1) by (simp add: geometry_ok_def)
  define u where "u k = card (used \<inter> page_blocks x k)" for k
  have fin: "finite hs" using keys(4) by (metis finite_Un finite_set)
  have "used = (\<Union>k \<in> hs. used \<inter> page_blocks x k)" using D(7) by blast
  moreover have "card (\<Union>k \<in> hs. used \<inter> page_blocks x k) = (\<Sum>k \<in> hs. u k)"
    unfolding u_def
  proof (rule card_UN_disjoint[OF fin])
    show "\<forall>k \<in> hs. finite (used \<inter> page_blocks x k)" by (simp add: page_blocks_def)
    show "\<forall>k \<in> hs. \<forall>j \<in> hs. k \<noteq> j \<longrightarrow> used \<inter> page_blocks x k \<inter> (used \<inter> page_blocks x j) = {}"
      using page_blocks_disjoint[OF D(1)] by blast
  qed
  ultimately have "card used = (\<Sum>k \<in> hs. u k)" by simp
  also have "\<dots> = (\<Sum>k \<in> set (map fst (xb_avail x)). u k) + (\<Sum>k \<in> set (map fst (xb_full x)). u k)"
    using keys(3) unfolding keys(4)[symmetric] by (intro sum.union_disjoint) auto
  also have "\<dots> = (\<Sum>k \<leftarrow> map fst (xb_avail x). u k) + (\<Sum>k \<leftarrow> map fst (xb_full x). u k)"
    using keys(1,2) by (simp only: sum_list_distinct_conv_sum_set)
  finally have c: "card used = (\<Sum>e \<leftarrow> xb_avail x. u (fst e)) + (\<Sum>e \<leftarrow> xb_full x. u (fst e))"
    by (simp add: o_def)
  have each: "u (fst e) + length (vp_free_list (snd e)) = ?N" if "page_ok x used e" for e
    using page_used_card[of x used "fst e" "snd e"] that assms(2) bm by (simp add: u_def)
  have full: "(\<Sum>e \<leftarrow> es. u (fst e)) + free_count es = length es * ?N" if "\<forall>e \<in> set es. page_ok x used e" for es
    using that by (induction es) (use each in \<open>force simp: free_count_def\<close>)+
  have "free_count (xb_full x) = 0" using D(6) by (simp add: free_count_def sum_list_eq_0_iff)
  then show ?thesis
    using c full[of "xb_avail x"] full[of "xb_full x"] D(2,5,6) by (simp add: get_num_allocated_blocks_def Let_def)
qed

end
