(* ===== verification/Phy_Page_Pool.thy ===== *)
theory Phy_Page_Pool
  imports Prelude
begin

text \<open>
  \<open>core/framework/xtensor/phy_page_pool.{h,cpp}\<close>: the pool of physical pages. Every method
  runs under \<open>mtx_\<close>. A page is its id and device; \<open>pp_owned\<close> is \<open>all_pages_\<close>, where \<open>None\<close> is
  a slot whose \<open>unique_ptr\<close> was moved out. Pages for KV caches leave the pool and are taken
  from the left, pages for weights stay owned by the pool and are taken from the right.
\<close>

section \<open>State and operations\<close>

record phy_page =
  pg_device :: nat
  pg_id :: int

record page_pool =
  pp_initialized :: bool
  pp_device :: nat
  pp_total :: nat
  pp_owned :: "phy_page option list"
  pp_free :: "nat list"
  pp_allocated :: "bool list"

definition pool_new :: page_pool where
  "pool_new = \<lparr>pp_initialized = False, pp_device = 0, pp_total = 0, pp_owned = [], pp_free = [], pp_allocated = []\<rparr>"

definition pool_init :: "nat \<Rightarrow> nat \<Rightarrow> page_pool \<Rightarrow> page_pool" where
  "pool_init device num_pages Q =
     (if pp_initialized Q then Q
      else Q\<lparr>pp_initialized := True, pp_device := device, pp_total := num_pages,
             pp_owned := pp_owned Q @ map (\<lambda>i. Some \<lparr>pg_device = device, pg_id = int i\<rparr>) [0..<num_pages],
             pp_free := pp_free Q @ [0..<num_pages],
             pp_allocated := pp_allocated Q @ replicate (num_pages - length (pp_allocated Q)) False\<rparr>)"

text \<open>Taking the first free page: its slot is emptied.\<close>

definition take_page :: "page_pool \<Rightarrow> (phy_page option \<times> page_pool) res" where
  "take_page Q =
     (case pp_free Q of
        [] \<Rightarrow> Inl Out_of_range
      | i # rest \<Rightarrow>
          bindE (nth_res (pp_owned Q) i) (\<lambda>pg.
            Inr (pg, Q\<lparr>pp_free := rest, pp_allocated := (pp_allocated Q)[i := True],
                       pp_owned := (pp_owned Q)[i := None]\<rparr>)))"

definition pool_get :: "page_pool \<Rightarrow> (phy_page option \<times> page_pool) res" where
  "pool_get Q =
     bindE (check (pp_initialized Q)) (\<lambda>_. if pp_free Q = [] then Inr (None, Q) else take_page Q)"

fun take_pages :: "nat \<Rightarrow> page_pool \<Rightarrow> (phy_page option list \<times> page_pool) res" where
  "take_pages 0 Q = Inr ([], Q)"
| "take_pages (Suc n) Q =
     bindE (take_page Q) (\<lambda>(p, Q1). bindE (take_pages n Q1) (\<lambda>(ps, Q2). Inr (p # ps, Q2)))"

definition batch_get :: "nat \<Rightarrow> page_pool \<Rightarrow> (phy_page option list \<times> page_pool) res" where
  "batch_get cnt Q =
     bindE (check (pp_initialized Q)) (\<lambda>_.
       if cnt = 0 then Inr ([], Q)
       else if length (pp_free Q) < cnt then Inr ([], Q)
       else take_pages cnt Q)"

text \<open>The part of \<open>put\<close> and \<open>batch_put\<close> after the null check.\<close>

definition put_page :: "phy_page \<Rightarrow> page_pool \<Rightarrow> page_pool res" where
  "put_page pg Q =
     bindE (check (pg_device pg = pp_device Q)) (\<lambda>_.
     bindE (check (0 \<le> pg_id pg \<and> pg_id pg < int (pp_total Q))) (\<lambda>_.
       let i = nat (pg_id pg) in
       Inr (Q\<lparr>pp_owned := (pp_owned Q)[i := Some pg], pp_allocated := (pp_allocated Q)[i := False],
              pp_free := i # pp_free Q\<rparr>)))"

definition pool_put :: "phy_page option \<Rightarrow> page_pool \<Rightarrow> page_pool res" where
  "pool_put pg Q =
     (case pg of
        None \<Rightarrow> Inr Q
      | Some p \<Rightarrow> bindE (check (pp_initialized Q)) (\<lambda>_. put_page p Q))"

definition put_page_opt :: "phy_page option \<Rightarrow> page_pool \<Rightarrow> page_pool res" where
  "put_page_opt pg Q = (case pg of None \<Rightarrow> Inr Q | Some p \<Rightarrow> put_page p Q)"

lemma put_page_opt_Some [simp]: "put_page_opt (Some p) Q = put_page p Q"
  by (simp add: put_page_opt_def)

definition batch_put :: "phy_page option list \<Rightarrow> page_pool \<Rightarrow> page_pool res" where
  "batch_put pgs Q =
     (if pgs = [] then Inr Q
      else bindE (check (pp_initialized Q)) (\<lambda>_. foldE put_page_opt pgs Q))"

text \<open>Scan from the right for \<open>cnt\<close> adjacent free pages; \<open>run\<close> is the length of the current run.\<close>

fun scan_run :: "bool list \<Rightarrow> nat \<Rightarrow> nat list \<Rightarrow> nat \<Rightarrow> nat option" where
  "scan_run al cnt [] run = None"
| "scan_run al cnt (i # is) run =
     (if \<not> al ! i
      then if run + 1 = cnt then Some i else scan_run al cnt is (run + 1)
      else scan_run al cnt is 0)"

definition mark_range :: "nat \<Rightarrow> nat \<Rightarrow> bool list \<Rightarrow> bool list" where
  "mark_range a b al = fold (\<lambda>i al. al[i := True]) [a..<b] al"

definition allocate_contiguous_from_right :: "nat \<Rightarrow> page_pool \<Rightarrow> (nat option \<times> page_pool) res" where
  "allocate_contiguous_from_right cnt Q =
     bindE (check (pp_initialized Q)) (\<lambda>_.
       if cnt = 0 \<or> cnt > length (pp_free Q) then Inr (None, Q)
       else case scan_run (pp_allocated Q) cnt (rev [0..<pp_total Q]) 0 of
              None \<Rightarrow> Inr (None, Q)
            | Some start \<Rightarrow>
                Inr (Some start,
                     Q\<lparr>pp_allocated := mark_range start (start + cnt) (pp_allocated Q),
                       pp_free := filter (\<lambda>i. \<not> (start \<le> i \<and> i < start + cnt)) (pp_free Q)\<rparr>))"

text \<open>The loop stops when \<open>cnt\<close> pages are collected.\<close>

fun scan_free :: "bool list \<Rightarrow> nat \<Rightarrow> nat list \<Rightarrow> nat list \<Rightarrow> nat list" where
  "scan_free al cnt [] acc = acc"
| "scan_free al cnt (i # is) acc =
     (if length acc < cnt
      then scan_free al cnt is (if \<not> al ! i then acc @ [i] else acc)
      else acc)"

definition allocate_pages_from_right :: "nat \<Rightarrow> page_pool \<Rightarrow> (nat list \<times> page_pool) res" where
  "allocate_pages_from_right cnt Q =
     bindE (check (pp_initialized Q)) (\<lambda>_.
       if cnt = 0 \<or> cnt > length (pp_free Q) then Inr ([], Q)
       else let result = scan_free (pp_allocated Q) cnt (rev [0..<pp_total Q]) [] in
            if length result < cnt then Inr ([], Q)
            else Inr (result, Q\<lparr>pp_allocated := fold (\<lambda>i al. al[i := True]) result (pp_allocated Q),
                                pp_free := filter (\<lambda>i. i \<notin> set result) (pp_free Q)\<rparr>))"

definition free_weight_page :: "int \<Rightarrow> page_pool \<Rightarrow> page_pool res" where
  "free_weight_page pid Q =
     bindE (check (0 \<le> pid \<and> pid < int (pp_total Q))) (\<lambda>_.
       if \<not> pp_allocated Q ! nat pid then Inr Q
       else Inr (Q\<lparr>pp_allocated := (pp_allocated Q)[nat pid := False], pp_free := pp_free Q @ [nat pid]\<rparr>))"

definition free_weight_pages_pool :: "int list \<Rightarrow> page_pool \<Rightarrow> page_pool res" where
  "free_weight_pages_pool pids Q =
     (if pids = [] then Inr Q
      else bindE (check (pp_initialized Q)) (\<lambda>_. foldE free_weight_page pids Q))"

section \<open>Invariant\<close>

text \<open>
  \<open>out\<close> are the pages that left the pool. The free list has no duplicates and lists exactly
  the pages that are not marked; the pool owns every other page, each in its own slot.
\<close>

definition pool_inv :: "page_pool \<Rightarrow> nat set \<Rightarrow> bool" where
  "pool_inv Q out \<longleftrightarrow>
     pp_initialized Q \<and> length (pp_owned Q) = pp_total Q \<and> length (pp_allocated Q) = pp_total Q \<and>
     distinct (pp_free Q) \<and> set (pp_free Q) = {i. i < pp_total Q \<and> \<not> pp_allocated Q ! i} \<and>
     out \<subseteq> {i. i < pp_total Q \<and> pp_allocated Q ! i} \<and>
     (\<forall>i < pp_total Q. pp_owned Q ! i = (if i \<in> out then None else Some \<lparr>pg_device = pp_device Q, pg_id = int i\<rparr>))"

abbreviation page_at :: "page_pool \<Rightarrow> nat \<Rightarrow> phy_page" where
  "page_at Q i \<equiv> \<lparr>pg_device = pp_device Q, pg_id = int i\<rparr>"

lemma pool_init_inv: "pool_inv (pool_init device n pool_new) {}"
  by (auto simp: pool_inv_def pool_init_def pool_new_def)

lemma take_page_inv:
  assumes "pool_inv Q out" "pp_free Q = i # rest"
  shows "\<exists>Q'. take_page Q = Inr (Some (page_at Q i), Q') \<and> pool_inv Q' (insert i out) \<and> pp_free Q' = rest \<and>
    pp_device Q' = pp_device Q \<and> pp_total Q' = pp_total Q"
proof -
  have i: "i < pp_total Q" "\<not> pp_allocated Q ! i" "i \<notin> set rest" "distinct rest"
    using assms by (auto simp: pool_inv_def)
  then have no: "i \<notin> out" using assms(1) by (auto simp: pool_inv_def)
  define Q' where "Q' = Q\<lparr>pp_free := rest, pp_allocated := (pp_allocated Q)[i := True], pp_owned := (pp_owned Q)[i := None]\<rparr>"
  have "take_page Q = Inr (Some (page_at Q i), Q')"
    using assms i(1) no by (simp add: take_page_def pool_inv_def Q'_def)
  moreover have "pool_inv Q' (insert i out)"
    using assms i by (auto simp: pool_inv_def Q'_def nth_list_update)
  ultimately show ?thesis by (auto simp: Q'_def)
qed

lemma take_pages_inv:
  assumes "pool_inv Q out" "n \<le> length (pp_free Q)"
  shows "\<exists>Q'. take_pages n Q = Inr (map (\<lambda>i. Some (page_at Q i)) (take n (pp_free Q)), Q') \<and>
    pool_inv Q' (out \<union> set (take n (pp_free Q))) \<and> pp_free Q' = drop n (pp_free Q) \<and>
    pp_device Q' = pp_device Q \<and> pp_total Q' = pp_total Q"
  using assms
proof (induction n arbitrary: Q out)
  case 0
  then show ?case by simp
next
  case (Suc n)
  obtain i rest where f: "pp_free Q = i # rest" using Suc.prems(2) by (cases "pp_free Q") auto
  obtain Q1 where q: "take_page Q = Inr (Some (page_at Q i), Q1)" "pool_inv Q1 (insert i out)" "pp_free Q1 = rest"
    "pp_device Q1 = pp_device Q" "pp_total Q1 = pp_total Q"
    using take_page_inv[OF Suc.prems(1) f] by blast
  have "n \<le> length (pp_free Q1)" using q(3) f Suc.prems(2) by simp
  from Suc.IH[OF q(2) this] show ?case using q f by auto
qed

lemma put_page_inv:
  assumes "pool_inv Q out" "i \<in> out"
  shows "\<exists>Q'. put_page (page_at Q i) Q = Inr Q' \<and> pool_inv Q' (out - {i}) \<and> pp_free Q' = i # pp_free Q \<and>
    pp_device Q' = pp_device Q \<and> pp_total Q' = pp_total Q"
proof -
  have i: "i < pp_total Q" "pp_allocated Q ! i" using assms by (auto simp: pool_inv_def)
  define Q' where "Q' = Q\<lparr>pp_owned := (pp_owned Q)[i := Some (page_at Q i)], pp_allocated := (pp_allocated Q)[i := False],
    pp_free := i # pp_free Q\<rparr>"
  have "put_page (page_at Q i) Q = Inr Q'" using i(1) by (simp add: put_page_def Let_def Q'_def)
  moreover have "pool_inv Q' (out - {i})"
    using assms i by (auto simp: pool_inv_def Q'_def nth_list_update)
  ultimately show ?thesis by (auto simp: Q'_def)
qed

section \<open>Contiguous allocation\<close>

definition free_run :: "bool list \<Rightarrow> nat \<Rightarrow> nat \<Rightarrow> bool" where
  "free_run al a n \<longleftrightarrow> a + n \<le> length al \<and> (\<forall>i. a \<le> i \<and> i < a + n \<longrightarrow> \<not> al ! i)"

text \<open>
  The scan at position \<open>k\<close> (positions below \<open>k\<close> are left to visit) knows a run of \<open>r\<close> free
  pages starting at \<open>k\<close> that cannot be extended into a run of \<open>cnt\<close> further right.
\<close>

lemma scan_run_spec:
  assumes "k + r \<le> length al" "\<forall>i. k \<le> i \<and> i < k + r \<longrightarrow> \<not> al ! i" "r < cnt"
    and "\<forall>a > k. \<not> free_run al a cnt" "\<not> free_run al k cnt" "k + r = length al \<or> al ! (k + r)"
  shows "case scan_run al cnt (rev [0..<k]) r of
      None \<Rightarrow> \<forall>a. \<not> free_run al a cnt
    | Some s \<Rightarrow> free_run al s cnt \<and> (\<forall>a > s. \<not> free_run al a cnt)"
  using assms
proof (induction k arbitrary: r)
  case 0
  then have "\<not> free_run al a cnt" for a by (cases a) auto
  then show ?case by simp
next
  case (Suc k)
  have rv: "rev [0..<Suc k] = k # rev [0..<k]" by simp
  show ?case
  proof (cases "al ! k")
    case True
    have nf: "\<not> free_run al k cnt" using True Suc.prems(3) by (auto simp: free_run_def)
    have "\<forall>a > k. \<not> free_run al a cnt"
      using Suc.prems(4,5) by (metis Suc_lessI)
    then have "case scan_run al cnt (rev [0..<k]) 0 of
        None \<Rightarrow> \<forall>a. \<not> free_run al a cnt
      | Some s \<Rightarrow> free_run al s cnt \<and> (\<forall>a > s. \<not> free_run al a cnt)"
      using Suc.prems(1,3) nf True by (intro Suc.IH) auto
    then show ?thesis using True by (simp add: rv)
  next
    case False
    have fr: "\<forall>i. k \<le> i \<and> i < k + Suc r \<longrightarrow> \<not> al ! i"
      using Suc.prems(2) False by (metis Suc_leI add_Suc_shift le_neq_implies_less)
    have up: "\<forall>a > k. \<not> free_run al a cnt"
      using Suc.prems(4,5) by (metis Suc_lessI)
    show ?thesis
    proof (cases "r + 1 = cnt")
      case True
      then have "free_run al k cnt" using fr Suc.prems(1) by (auto simp: free_run_def)
      then show ?thesis using True False up by (simp add: rv)
    next
      case ne: False
      have "\<not> free_run al k cnt"
      proof
        assume "free_run al k cnt"
        then have "k + cnt \<le> length al" "\<not> al ! (k + Suc r)"
          using ne Suc.prems(3) by (auto simp: free_run_def)
        then show False using Suc.prems(3,6) ne by auto
      qed
      then have "case scan_run al cnt (rev [0..<k]) (Suc r) of
          None \<Rightarrow> \<forall>a. \<not> free_run al a cnt
        | Some s \<Rightarrow> free_run al s cnt \<and> (\<forall>a > s. \<not> free_run al a cnt)"
        using Suc.prems(1,3,6) ne fr up by (intro Suc.IH) auto
      then show ?thesis using False ne by (simp add: rv)
    qed
  qed
qed

lemma scan_run_correct:
  assumes "0 < cnt"
  shows "case scan_run al cnt (rev [0..<length al]) 0 of
      None \<Rightarrow> \<forall>a. \<not> free_run al a cnt
    | Some s \<Rightarrow> free_run al s cnt \<and> (\<forall>a > s. \<not> free_run al a cnt)"
  using assms by (intro scan_run_spec) (auto simp: free_run_def)

lemma mark_range_nth: "b \<le> length al \<Longrightarrow> length (mark_range a b al) = length al \<and>
    (\<forall>i < length al. mark_range a b al ! i = (al ! i \<or> a \<le> i \<and> i < b))"
proof (induction b)
  case (Suc b)
  then show ?case
    by (cases "a \<le> b") (auto simp: mark_range_def nth_list_update less_Suc_eq)
qed (simp add: mark_range_def)

lemma free_run_le:
  assumes "pool_inv Q out" "free_run (pp_allocated Q) a cnt"
  shows "cnt \<le> length (pp_free Q)"
proof -
  have "{a..<a + cnt} \<subseteq> set (pp_free Q)" using assms by (auto simp: free_run_def pool_inv_def)
  then have "card {a..<a + cnt} \<le> card (set (pp_free Q))" by (intro card_mono) simp
  moreover have "card (set (pp_free Q)) = length (pp_free Q)"
    using assms(1) unfolding pool_inv_def by (intro distinct_card) blast
  ultimately show ?thesis by simp
qed

text \<open>The rightmost run of free pages is taken, and there is a result whenever a run exists.\<close>

lemma contiguous_correct:
  assumes "pool_inv Q out" "0 < cnt"
  shows "\<exists>r Q'. allocate_contiguous_from_right cnt Q = Inr (r, Q') \<and> pool_inv Q' out \<and>
    (case r of
       None \<Rightarrow> (\<forall>a. \<not> free_run (pp_allocated Q) a cnt) \<and> Q' = Q
     | Some s \<Rightarrow> free_run (pp_allocated Q) s cnt \<and> (\<forall>a > s. \<not> free_run (pp_allocated Q) a cnt) \<and>
         set (pp_free Q') = set (pp_free Q) - {s..<s + cnt})"
proof (cases "cnt \<le> length (pp_free Q)")
  case False
  then have "\<forall>a. \<not> free_run (pp_allocated Q) a cnt" using free_run_le[OF assms(1)] by blast
  then show ?thesis
    using False assms by (intro exI[of _ None] exI[of _ Q]) (simp add: allocate_contiguous_from_right_def pool_inv_def)
next
  case True
  have I: "pp_initialized Q" "length (pp_allocated Q) = pp_total Q" using assms(1) by (simp_all add: pool_inv_def)
  note sc = scan_run_correct[OF assms(2), of "pp_allocated Q", unfolded I(2)]
  show ?thesis
  proof (cases "scan_run (pp_allocated Q) cnt (rev [0..<pp_total Q]) 0")
    case None
    then show ?thesis
      using True assms sc I by (intro exI[of _ None] exI[of _ Q]) (simp add: allocate_contiguous_from_right_def)
  next
    case (Some s)
    define Q' where "Q' = Q\<lparr>pp_allocated := mark_range s (s + cnt) (pp_allocated Q),
      pp_free := filter (\<lambda>i. \<not> (s \<le> i \<and> i < s + cnt)) (pp_free Q)\<rparr>"
    have fr: "free_run (pp_allocated Q) s cnt" "\<forall>a > s. \<not> free_run (pp_allocated Q) a cnt" using sc Some by simp_all
    have eq: "allocate_contiguous_from_right cnt Q = Inr (Some s, Q')"
      using True assms(2) I Some by (simp add: allocate_contiguous_from_right_def Q'_def)
    have mk: "length (pp_allocated Q') = pp_total Q"
      "\<forall>i < pp_total Q. pp_allocated Q' ! i = (pp_allocated Q ! i \<or> s \<le> i \<and> i < s + cnt)"
      using mark_range_nth[of "s + cnt" "pp_allocated Q" s] fr(1) I(2) by (simp_all add: Q'_def free_run_def)
    have "pool_inv Q' out"
      using assms(1) mk by (auto simp: pool_inv_def Q'_def)
    then show ?thesis using eq fr by (intro exI[of _ "Some s"] exI[of _ Q']) (auto simp: Q'_def)
  qed
qed

section \<open>Scattered allocation\<close>

lemma scan_free_take:
  "length acc \<le> cnt \<Longrightarrow> scan_free al cnt is acc = acc @ take (cnt - length acc) (filter (\<lambda>i. \<not> al ! i) is)"
proof (induction "is" arbitrary: acc)
  case (Cons i "is")
  show ?case
  proof (cases "length acc < cnt")
    case True
    then show ?thesis using Cons.IH[of "acc @ [i]"] Cons.IH[of acc] by (simp add: Suc_diff_Suc[symmetric])
  qed (use Cons.prems in simp)
qed simp

lemma fold_mark_length: "length (fold (\<lambda>i al. al[i := True]) xs al) = length al"
  by (induction xs arbitrary: al) simp_all

lemma fold_mark_nth:
  "i < length al \<Longrightarrow> fold (\<lambda>i al. al[i := True]) xs al ! i = (al ! i \<or> i \<in> set xs)"
proof (induction xs arbitrary: al)
  case (Cons a xs)
  have "fold (\<lambda>i al. al[i := True]) xs (al[a := True]) ! i = (al[a := True] ! i \<or> i \<in> set xs)"
    using Cons.prems by (intro Cons.IH) simp
  then show ?case using Cons.prems by (cases "a = i") simp_all
qed simp

lemma free_pages_desc:
  assumes "pool_inv Q out"
  shows "length (filter (\<lambda>i. \<not> pp_allocated Q ! i) (rev [0..<pp_total Q])) = length (pp_free Q)"
proof -
  let ?f = "filter (\<lambda>i. \<not> pp_allocated Q ! i) (rev [0..<pp_total Q])"
  have "set ?f = set (pp_free Q)" using assms by (auto simp: pool_inv_def)
  moreover have "distinct ?f" "distinct (pp_free Q)" using assms by (simp_all add: pool_inv_def)
  ultimately show ?thesis by (metis distinct_card)
qed

text \<open>The \<open>cnt\<close> free pages with the largest ids, whenever that many are free.\<close>

lemma scattered_correct:
  assumes "pool_inv Q out" "0 < cnt" "cnt \<le> length (pp_free Q)"
  defines "ps \<equiv> take cnt (filter (\<lambda>i. \<not> pp_allocated Q ! i) (rev [0..<pp_total Q]))"
  shows "\<exists>Q'. allocate_pages_from_right cnt Q = Inr (ps, Q') \<and> pool_inv Q' out \<and> length ps = cnt \<and>
    set ps \<subseteq> set (pp_free Q) \<and> set (pp_free Q') = set (pp_free Q) - set ps"
proof -
  have len: "length ps = cnt" using free_pages_desc[OF assms(1)] assms(3) by (simp add: ps_def)
  define Q' where "Q' = Q\<lparr>pp_allocated := fold (\<lambda>i al. al[i := True]) ps (pp_allocated Q),
    pp_free := filter (\<lambda>i. i \<notin> set ps) (pp_free Q)\<rparr>"
  have "scan_free (pp_allocated Q) cnt (rev [0..<pp_total Q]) [] = ps" by (simp add: scan_free_take ps_def)
  then have eq: "allocate_pages_from_right cnt Q = Inr (ps, Q')"
    using assms(1-3) len by (simp add: allocate_pages_from_right_def Let_def Q'_def pool_inv_def)
  have "set ps \<subseteq> set (filter (\<lambda>i. \<not> pp_allocated Q ! i) (rev [0..<pp_total Q]))"
    unfolding ps_def by (rule set_take_subset)
  then have sub: "set ps \<subseteq> set (pp_free Q)" using assms(1) by (auto simp: pool_inv_def)
  have mk: "length (pp_allocated Q') = length (pp_allocated Q)"
    "\<forall>i < length (pp_allocated Q). pp_allocated Q' ! i = (pp_allocated Q ! i \<or> i \<in> set ps)"
    by (simp_all add: Q'_def fold_mark_nth fold_mark_length)
  have "pool_inv Q' out" using assms(1) mk sub by (auto simp: pool_inv_def Q'_def)
  then show ?thesis using eq len sub by (auto simp: Q'_def)
qed

section \<open>Returning pages\<close>

lemma free_weight_page_inv:
  assumes "pool_inv Q out" "i < pp_total Q" "pp_allocated Q ! i" "i \<notin> out"
  shows "\<exists>Q'. free_weight_page (int i) Q = Inr Q' \<and> pool_inv Q' out \<and> pp_free Q' = pp_free Q @ [i] \<and>
    pp_total Q' = pp_total Q \<and> pp_allocated Q' = (pp_allocated Q)[i := False]"
proof -
  define Q' where "Q' = Q\<lparr>pp_allocated := (pp_allocated Q)[i := False], pp_free := pp_free Q @ [i]\<rparr>"
  have "free_weight_page (int i) Q = Inr Q'" using assms(2,3) by (simp add: free_weight_page_def Q'_def)
  moreover have "pool_inv Q' out" using assms by (auto simp: pool_inv_def Q'_def nth_list_update)
  ultimately show ?thesis by (auto simp: Q'_def)
qed

lemma put_pages_inv:
  assumes "pool_inv Q out" "distinct is" "set is \<subseteq> out"
  shows "\<exists>Q'. foldE put_page_opt (map (\<lambda>i. Some (page_at Q i)) is) Q = Inr Q' \<and> pool_inv Q' (out - set is) \<and>
    pp_free Q' = rev is @ pp_free Q \<and> pp_device Q' = pp_device Q"
  using assms
proof (induction "is" arbitrary: Q out)
  case (Cons i "is")
  obtain Q1 where q: "put_page (page_at Q i) Q = Inr Q1" "pool_inv Q1 (out - {i})" "pp_free Q1 = i # pp_free Q"
    "pp_device Q1 = pp_device Q"
    using put_page_inv[OF Cons.prems(1), of i] Cons.prems(3) by auto
  have "set is \<subseteq> out - {i}" "distinct is" using Cons.prems by auto
  from Cons.IH[OF q(2) this(2,1)] obtain Q2 where r:
    "foldE put_page_opt (map (\<lambda>i. Some (page_at Q1 i)) is) Q1 = Inr Q2" "pool_inv Q2 (out - {i} - set is)"
    "pp_free Q2 = rev is @ pp_free Q1" "pp_device Q2 = pp_device Q1" by blast
  have "out - {i} - set is = out - set (i # is)" by auto
  then show ?case using q r by (intro exI[of _ Q2]) simp
qed simp

text \<open>\<open>batch_get\<close> is all or nothing; putting the pages back restores the set of free pages.\<close>

lemma batch_roundtrip:
  assumes "pool_inv Q out" "0 < n" "n \<le> length (pp_free Q)"
  shows "\<exists>pgs Q1 Q2. batch_get n Q = Inr (pgs, Q1) \<and> pgs = map (\<lambda>i. Some (page_at Q i)) (take n (pp_free Q)) \<and>
    pool_inv Q1 (out \<union> set (take n (pp_free Q))) \<and>
    batch_put pgs Q1 = Inr Q2 \<and> pool_inv Q2 out \<and> set (pp_free Q2) = set (pp_free Q)"
proof -
  let ?is = "take n (pp_free Q)"
  obtain Q1 where q: "take_pages n Q = Inr (map (\<lambda>i. Some (page_at Q i)) ?is, Q1)" "pool_inv Q1 (out \<union> set ?is)"
    "pp_free Q1 = drop n (pp_free Q)" "pp_device Q1 = pp_device Q"
    using take_pages_inv[OF assms(1,3)] by blast
  have g: "batch_get n Q = Inr (map (\<lambda>i. Some (page_at Q i)) ?is, Q1)"
    using assms q(1) by (simp add: batch_get_def pool_inv_def)
  have d: "distinct ?is" "set ?is \<inter> out = {}"
    using assms(1) by (auto simp: pool_inv_def dest: in_set_takeD)
  obtain Q2 where p: "foldE put_page_opt (map (\<lambda>i. Some (page_at Q1 i)) ?is) Q1 = Inr Q2"
    "pool_inv Q2 (out \<union> set ?is - set ?is)" "pp_free Q2 = rev ?is @ pp_free Q1"
    using put_pages_inv[OF q(2) d(1)] by auto
  have "out \<union> set ?is - set ?is = out" using d(2) by auto
  moreover have "set (pp_free Q2) = set (pp_free Q)"
    using p(3) q(3) by (metis append_take_drop_id set_append set_rev)
  moreover have "pp_initialized Q1" "map (\<lambda>i. Some (page_at Q i)) ?is \<noteq> []"
    using q(2) assms(2,3) by (auto simp: pool_inv_def)
  ultimately show ?thesis using g p q by (auto simp: batch_put_def)
qed

end
