(* ===== verification/Page_Properties.thy ===== *)
theory Page_Properties
  imports XTensor_Blocks Phy_Page_Pool
begin

text \<open>
  The properties of the XTensor memory layer: the page allocator under any interleaving of its
  critical sections, the block ranges of pages, the physical page pool, and the block manager
  that runs on the page allocator.
\<close>

section \<open>The page allocator\<close>

text \<open>C10: in every state reachable by any interleaving of the critical sections of \<open>PageAllocator\<close>, each
  virtual page of each group of each model is in exactly one place: the free list, the
  reserved list, the allocated set, or in the hands of one operation in progress; the number of
  map operations in progress is the model's counter, and no map operation is in
  progress while the model sleeps.\<close>

theorem virtual_pages_accounted:
  assumes "pa_reachable (pa_init granularity n dp world prealloc pa_new) (s, F)"
    and "model_states s m = Some st" "d < pa_dp_size s"
  shows "let g = dp_groups st ! d in
    mset (free_virt_page_list g) + mset (reserved_virt_page_list g) + mset_set (allocated_virt_page_list g) +
      busy F m d = mset [0..<num_total_virt_pages st] \<and>
    pending_map_ops st = map_ops F m \<and> (is_sleeping st \<longrightarrow> map_ops F m = 0)"
proof -
  have "virt_inv (s, F)"
    by (rule virt_inv_reachable[OF assms(1)]) (simp add: pa_init_def pa_new_def Let_def)
  then have "model_inv (pa_dp_size s) F m st" using assms(2) by (rule virt_invD)
  then show ?thesis using assms(3) by (simp add: model_inv_def group_inv_def Let_def)
qed

theorem virtual_pages_accounted_witness:
  "\<exists>st. model_states race_model ''m'' = Some st \<and>
    mset (free_virt_page_list (dp_groups st ! 0)) + mset (reserved_virt_page_list (dp_groups st ! 0)) +
      mset_set (allocated_virt_page_list (dp_groups st ! 0)) = mset [0..<4]"
proof -
  have r: "pa_reachable (pa_init 2097152 8 1 1 False pa_new) (race_model, {#})"
    using pa_step.register[OF race_register, of "{#}"] unfolding pa_reachable_def pa_start_def race_start_def by blast
  obtain st where st: "model_states race_model ''m'' = Some st" "num_total_virt_pages st = 4" "0 < pa_dp_size race_model"
    by (simp add: race_defs Let_def)
  show ?thesis using virtual_pages_accounted[OF r st(1,3)] st(1,2) by (simp add: Let_def)
qed

text \<open>C11: in every reachable state no worker has more physical pages in use than it has.\<close>

theorem physical_pages_bounded:
  assumes "pa_reachable (pa_init granularity n dp world prealloc pa_new) (s, F)"
  shows "length (worker_pages_used s) = max_world_size s \<and> (\<forall>u \<in> set (worker_pages_used s). u \<le> num_total_phy_pages s)"
proof -
  have "phys_inv (pa_init granularity n dp world prealloc pa_new)"
    by (simp add: phys_inv_def pa_init_def pa_new_def Let_def)
  from phys_inv_reachable[OF assms this] show ?thesis by (simp add: phys_inv_def)
qed

theorem physical_pages_bounded_witness:
  "list_all (\<lambda>u. u \<le> num_total_phy_pages (wakeup_section3 ''m'' race_woken)) (worker_pages_used (wakeup_section3 ''m'' race_woken))"
  using physical_pages_bounded[of 2097152 8 1 1 False] race_reachable unfolding race_start_def list_all_iff by blast




definition demo_mapped :: pa_state where
  "demo_mapped = projr (alloc_section3 ''m'' 0 0 race_mapped)"


text \<open>A race: \<open>alloc_kv_cache_page\<close> gives up the lock between the end of the mapping and the
  tracking of the page. If the model is put to sleep and woken up there, the
  allocator accounts the page's physical pages twice.\<close>

theorem sleep_race_double_count:
  "\<exists>s st. pa_reachable race_start (s, {#}) \<and> model_states s ''m'' = Some st \<and>
    allocated_virt_page_list (dp_groups st ! 0) = {0} \<and> weight_pages_allocated st = 0 \<and>
    reserved_virt_page_list (dp_groups st ! 0) = [] \<and> phy_pages_per_virt_page st = 2 \<and> worker_pages_used s = [4]"
proof -
  have "\<exists>st. model_states (wakeup_section3 ''m'' race_woken) ''m'' = Some st \<and>
    allocated_virt_page_list (dp_groups st ! 0) = {0} \<and> weight_pages_allocated st = 0 \<and>
    reserved_virt_page_list (dp_groups st ! 0) = [] \<and> phy_pages_per_virt_page st = 2"
    by (simp add: wakeup_section3_def race_defs Let_def upt_rec)
  moreover have "worker_pages_used (wakeup_section3 ''m'' race_woken) = [4]"
    using race_end by (simp add: wakeup_section3_def split: option.split)
  ultimately show ?thesis using race_reachable by blast
qed

section \<open>Pages and blocks\<close>

text \<open>The blocks of a page: \<open>get_virt_page_id\<close> maps every block in the range of a page back to that
  page, the ranges of different pages are disjoint, and a page never holds more blocks than
  \<open>get_num_blocks\<close> says (it can hold fewer, when the page size is not a multiple of the block
  size).\<close>

theorem page_block_ranges:
  assumes "0 < bm"
  shows "(\<forall>b \<in> {fst (get_block_range p ps bm)..<snd (get_block_range p ps bm)}. get_virt_page_id ps b bm = p) \<and>
    (p \<noteq> q \<longrightarrow> {fst (get_block_range p ps bm)..<snd (get_block_range p ps bm)} \<inter>
      {fst (get_block_range q ps bm)..<snd (get_block_range q ps bm)} = {}) \<and>
    snd (get_block_range p ps bm) - fst (get_block_range p ps bm) \<le> get_num_blocks ps bm \<and>
    (bm dvd ps \<longrightarrow> snd (get_block_range p ps bm) - fst (get_block_range p ps bm) = get_num_blocks ps bm)"
  using block_page[OF assms] block_ranges_disjoint[OF assms, of p q ps] range_card_bounds[OF assms, of p ps]
    range_divisible[OF assms, of ps p] by simp

theorem page_block_ranges_witness:
  "get_virt_page_id 16 3 7 = 1 \<and> snd (get_block_range 1 16 7) - fst (get_block_range 1 16 7) = 1 \<and> get_num_blocks 16 7 = 2"
  using page_block_ranges[of 7 1 16 0] by (simp add: get_block_range_def get_num_blocks_def)

text \<open>\<open>PhyPagePool::allocate_contiguous_from_right\<close> finds the rightmost run of free pages of the given
  length if there is one, takes exactly those pages, and otherwise changes nothing.\<close>

theorem contiguous_rightmost:
  assumes "pool_inv Q out" "0 < cnt"
  shows "\<exists>r Q'. allocate_contiguous_from_right cnt Q = Inr (r, Q') \<and> pool_inv Q' out \<and>
    (case r of
       None \<Rightarrow> (\<forall>a. \<not> free_run (pp_allocated Q) a cnt) \<and> Q' = Q
     | Some s \<Rightarrow> free_run (pp_allocated Q) s cnt \<and> (\<forall>a > s. \<not> free_run (pp_allocated Q) a cnt) \<and>
         set (pp_free Q') = set (pp_free Q) - {s..<s + cnt})"
  using contiguous_correct[OF assms] .

theorem contiguous_rightmost_witness:
  "\<exists>r Q'. allocate_contiguous_from_right 2 (pool_init 0 5 pool_new) = Inr (r, Q') \<and> pool_inv Q' {}"
  using contiguous_rightmost[OF pool_init_inv, of 2 0 5] by auto

text \<open>Pages taken from the physical pool with \<open>batch_get\<close> and returned with \<open>batch_put\<close> are all
  available again, and in between they are held by the caller only.\<close>

theorem physical_batch_roundtrip:
  assumes "pool_inv Q out" "0 < n" "n \<le> length (pp_free Q)"
  shows "\<exists>pgs Q1 Q2. batch_get n Q = Inr (pgs, Q1) \<and> pgs = map (\<lambda>i. Some (page_at Q i)) (take n (pp_free Q)) \<and>
    pool_inv Q1 (out \<union> set (take n (pp_free Q))) \<and>
    batch_put pgs Q1 = Inr Q2 \<and> pool_inv Q2 out \<and> set (pp_free Q2) = set (pp_free Q)"
  using batch_roundtrip[OF assms] .

theorem physical_batch_roundtrip_witness:
  "\<exists>pgs Q1 Q2. batch_get 2 (pool_init 0 5 pool_new) = Inr (pgs, Q1) \<and> length pgs = 2 \<and> batch_put pgs Q1 = Inr Q2 \<and>
    pool_inv Q2 {}"
proof -
  have "length (pp_free (pool_init 0 5 pool_new)) = 5" by (simp add: pool_init_def pool_new_def)
  then show ?thesis using physical_batch_roundtrip[OF pool_init_inv, of 2 0 5] by auto
qed

section \<open>The XTensor block manager on the page allocator\<close>

text \<open>A block manager with blocks of 2 units and pages of 4 on a fresh allocator with one model.\<close>

lemma demo_ready: "pa_ready ''m'' 0 race_model" "pa_held ''m'' 0 race_model = {}"
proof -
  have r: "pa_reachable race_start (race_model, {#})"
    using pa_step.register[OF race_register, of "{#}"] unfolding pa_reachable_def pa_start_def by blast
  have "virt_inv (race_model, {#})"
    by (rule virt_inv_reachable[OF r]) (simp add: race_defs Let_def)
  then show "pa_ready ''m'' 0 race_model" "pa_held ''m'' 0 race_model = {}"
    by (simp_all add: pa_ready_def pa_held_def race_defs Let_def)
qed

lemma demo_xbm: "xb_inv {} (xbm_new 8 2 4) (pa_held ''m'' (nat 0) race_model) {}"
  using xbm_new_inv[OF geometry_divisible[of 2 4], of 8] demo_ready(2) by simp

lemma demo_alloc:
  "\<exists>x' s'. alloc_internal (\<lambda>_. 0) (pa_alloc_page (\<lambda>_ _ _. True) ''m'' 0) 3 (xbm_new 8 2 4, race_model) = Inr ([0, 1, 2], x', s') \<and>
    xb_reserved x' = [] \<and> xb_page_size x' = 4"
  by (simp add: alloc_internal_def alloc_from_pages.simps current_page_def take_from_page_def xbm_new_def
      pa_alloc_page_def alloc_kv_cache_page_def pa_alloc_loop_once race_defs Let_def upt_rec vp_init_def vp_new_def
      get_block_range_def vp_num_free_def vp_alloc_def vp_full_def require_init_def set_page_def erase_page_def)



text \<open>C15: \<open>XTensorBlockManagerImpl::free_blocks\<close> on blocks in use never fails, whatever order the map of
  groups is visited in: afterwards exactly those blocks are free, and every page left without
  a used block has been returned to the page allocator.\<close>

theorem xtensor_free:
  assumes "pa_ready m d s" "xb_inv {} x (pa_held m (nat d) s) used" "distinct bs" "set bs \<subseteq> used - set (xb_reserved x)"
    and "\<forall>gs. mset (iter gs) = mset gs"
  shows "\<exists>x' s'. xb_free_blocks iter (free_kv_cache_pages bunmap m d) (xb_page_size x) bs (x, s) = Inr (x', s') \<and>
    pa_ready m d s' \<and> xb_inv {} x' (pa_held m (nat d) s') (used - set bs) \<and> xb_reserved x' = xb_reserved x \<and>
    pa_held m (nat d) s' = {k. (used - set bs) \<inter> page_blocks x' k \<noteq> {}}"
proof -
  obtain x' s' where f: "xb_free_blocks iter (free_kv_cache_pages bunmap m d) (xb_page_size x) bs (x, s) = Inr (x', s')"
    "pa_ready m d s'" "xb_inv {} x' (pa_held m (nat d) s') (used - set bs)" "xb_reserved x' = xb_reserved x"
    using pa.xb_free_blocks_ok[OF assms(1-4)] assms(5) by blast
  show ?thesis using f xb_inv_held[OF f(3)] by blast
qed

theorem xtensor_free_witness:
  "\<exists>x s x' s'. alloc_internal (\<lambda>_. 0) (pa_alloc_page (\<lambda>_ _ _. True) ''m'' 0) 3 (xbm_new 8 2 4, race_model) = Inr ([0, 1, 2], x, s) \<and>
    xb_free_blocks id (free_kv_cache_pages (\<lambda>_ _ _. True) ''m'' 0) 4 [0, 2] (x, s) = Inr (x', s') \<and>
    xb_inv {} x' (pa_held ''m'' 0 s') {1}"
proof -
  obtain x s where a: "alloc_internal (\<lambda>_. 0) (pa_alloc_page (\<lambda>_ _ _. True) ''m'' 0) 3 (xbm_new 8 2 4, race_model) = Inr ([0, 1, 2], x, s)"
    "xb_reserved x = []" "xb_page_size x = 4"
    using demo_alloc by blast
  have "pick_ok (\<lambda>_. 0)" by (simp add: pick_ok_def)
  from pa.alloc_internal_ok[OF this demo_ready(1) demo_xbm a(1)]
  have i: "pa_ready ''m'' 0 s" "xb_inv {} x (pa_held ''m'' (nat 0) s) {0, 1, 2}" by (auto simp: insert_commute)
  have "{0, 1, 2} - {0, 2} = {1 :: nat}" by auto
  then show ?thesis
    using xtensor_free[OF i, of "[0, 2]" id "\<lambda>_ _ _. True"] a by fastforce
qed

text \<open>\<open>get_num_allocated_blocks\<close> of the XTensor block manager counts the reserved blocks twice: they are
  already among the used ones.\<close>

theorem reserved_counted_twice:
  assumes "xb_inv {} x hs used" "xb_block_mem_size x dvd xb_page_size x"
  shows "get_num_allocated_blocks x = card used + length (xb_reserved x)"
  using num_allocated_blocks[OF assms] .

theorem reserved_counted_twice_witness:
  "get_num_allocated_blocks (xbm_new 8 2 4) = 0"
  using reserved_counted_twice[OF demo_xbm] by (simp add: xbm_new_def)

end
