(* ===== verification/Hash_Keys.thy ===== *)
theory Hash_Keys
  imports Prelude
begin

text \<open>
  \<open>core/util/hash_util.h\<close> and the hash chain of \<open>prefix_cache.cpp\<close>: the 16-byte key
  \<open>XXH3Key\<close>, its comparison functors and \<open>xxh3_128bits_hash\<close>. The xxHash library is
  the parameter \<open>xxh\<close> (\<open>XXH3_128bits_withSeed\<close> with the seed flag applied) and
  \<open>std::hash<std::string_view>\<close> is the parameter \<open>svh\<close>.
\<close>

section \<open>Keys and their comparison\<close>

definition XXH3_128BITS_HASH_VALUE_LEN :: nat where
  "XXH3_128BITS_HASH_VALUE_LEN = 16"

type_synonym xxh3_key = "byte list"

definition valid_key :: "xxh3_key \<Rightarrow> bool" where
  "valid_key k \<longleftrightarrow> length k = XXH3_128BITS_HASH_VALUE_LEN"

text \<open>The C string functions the comparisons call, on byte arrays of at least \<open>n\<close> bytes.\<close>

fun strncmp :: "nat \<Rightarrow> byte list \<Rightarrow> byte list \<Rightarrow> int" where
  "strncmp 0 xs ys = 0"
| "strncmp (Suc n) (x # xs) (y # ys) =
     (if x \<noteq> y then uint x - uint y else if x = 0 then 0 else strncmp n xs ys)"
| "strncmp (Suc n) xs ys = 0"

fun memcmp :: "nat \<Rightarrow> byte list \<Rightarrow> byte list \<Rightarrow> int" where
  "memcmp 0 xs ys = 0"
| "memcmp (Suc n) (x # xs) (y # ys) = (if x \<noteq> y then uint x - uint y else memcmp n xs ys)"
| "memcmp (Suc n) xs ys = 0"

text \<open>\<open>XXH3Key::operator==\<close> returns the result of \<open>memcmp\<close> converted to \<open>bool\<close>.\<close>

definition xxh3_key_eq_op :: "xxh3_key \<Rightarrow> xxh3_key \<Rightarrow> bool" where
  "xxh3_key_eq_op a b \<longleftrightarrow> memcmp XXH3_128BITS_HASH_VALUE_LEN a b \<noteq> 0"

definition FixedStringKeyEqual :: "xxh3_key \<Rightarrow> xxh3_key \<Rightarrow> bool" where
  "FixedStringKeyEqual left right \<longleftrightarrow> strncmp XXH3_128BITS_HASH_VALUE_LEN left right = 0"

definition FixedStringKeyHash :: "(byte list \<Rightarrow> 64 word) \<Rightarrow> xxh3_key \<Rightarrow> 64 word" where
  "FixedStringKeyHash svh key = svh key"

text \<open>
  An \<open>unordered_map\<close> with these functors finds the stored key whose hash code is the
  same and which compares equal. Both conditions together are the equality of the
  pair below (lemma \<open>key_class_eq\<close>), so the container is a map over such pairs.
\<close>

definition key_class :: "(byte list \<Rightarrow> 64 word) \<Rightarrow> xxh3_key \<Rightarrow> 64 word \<times> byte list" where
  "key_class svh k = (FixedStringKeyHash svh k, takeWhile (\<lambda>c. c \<noteq> 0) k)"

section \<open>The chained block hash\<close>

text \<open>The bytes of an \<open>int32_t\<close> array as they lie in memory (little endian).\<close>

definition int32_bytes :: "int \<Rightarrow> byte list" where
  "int32_bytes t =
     map (\<lambda>i. word_of_int (t div 256 ^ i)) [0, 1, 2, 3]"

definition token_bytes :: "int list \<Rightarrow> byte list" where
  "token_bytes ts = concat (map int32_bytes ts)"

definition xxh3_128bits_hash ::
    "(byte list \<Rightarrow> byte list) \<Rightarrow> xxh3_key option \<Rightarrow> int list \<Rightarrow> xxh3_key res" where
  "xxh3_128bits_hash xxh pre token_ids =
     (case pre of
        None \<Rightarrow> Inr (xxh (token_bytes token_ids))
      | Some pre_hash_value \<Rightarrow>
          let data_len = 4 * length token_ids + XXH3_128BITS_HASH_VALUE_LEN in
          if data_len < 1024
          then Inr (xxh (take XXH3_128BITS_HASH_VALUE_LEN pre_hash_value @ token_bytes token_ids))
          else Inl Check_failed)"

section \<open>Lemmas\<close>

lemma length_int32_bytes [simp]: "length (int32_bytes t) = 4"
  by (simp add: int32_bytes_def)

lemma length_token_bytes [simp]: "length (token_bytes ts) = 4 * length ts"
  by (induction ts) (auto simp: token_bytes_def)

lemma uint_inject_iff [simp]: "uint (x :: 'a :: len word) = uint y \<longleftrightarrow> x = y"
  by (simp add: word_uint_eq_iff)

lemma memcmp_eq_0: "length a = n \<Longrightarrow> length b = n \<Longrightarrow> memcmp n a b = 0 \<longleftrightarrow> a = b"
  by (induction n a b rule: memcmp.induct) auto

lemma strncmp_eq_0:
  "length a = n \<Longrightarrow> length b = n \<Longrightarrow>
    strncmp n a b = 0 \<longleftrightarrow> takeWhile (\<lambda>c. c \<noteq> 0) a = takeWhile (\<lambda>c. c \<noteq> 0) b"
proof (induction n a b rule: strncmp.induct)
  case (2 n x xs y ys)
  then show ?case by (cases "x = y") (auto simp: uint_0_iff)
qed auto

lemma key_class_eq:
  "valid_key a \<Longrightarrow> valid_key b \<Longrightarrow>
    key_class svh a = key_class svh b \<longleftrightarrow>
      FixedStringKeyHash svh a = FixedStringKeyHash svh b \<and> FixedStringKeyEqual a b"
  by (simp add: key_class_def FixedStringKeyEqual_def strncmp_eq_0 valid_key_def)

text \<open>
  On keys without a zero byte the functor is equality; a zero byte cuts the comparison
  short.
\<close>

lemma takeWhile_nonzero_id: "0 \<notin> set k \<Longrightarrow> takeWhile (\<lambda>c. c \<noteq> 0) k = k"
  by (induction k) auto

lemma FixedStringKeyEqual_nonzero:
  "valid_key a \<Longrightarrow> valid_key b \<Longrightarrow> 0 \<notin> set a \<Longrightarrow> 0 \<notin> set b \<Longrightarrow>
    FixedStringKeyEqual a b \<longleftrightarrow> a = b"
  by (simp add: FixedStringKeyEqual_def strncmp_eq_0 valid_key_def takeWhile_nonzero_id)

lemma xxh3_128bits_hash_ok:
  "4 * length ts + 16 < 1024 \<Longrightarrow> \<exists>k. xxh3_128bits_hash xxh pre ts = Inr k"
  by (auto simp: xxh3_128bits_hash_def XXH3_128BITS_HASH_VALUE_LEN_def Let_def split: option.splits)

lemma xxh3_128bits_hash_valid:
  assumes "\<And>bs. valid_key (xxh bs)" "xxh3_128bits_hash xxh pre ts = Inr k"
  shows "valid_key k"
  using assms by (auto simp: xxh3_128bits_hash_def Let_def split: option.splits if_splits)

end
