(* ===== verification/Blocks.thy ===== *)
theory Blocks
  imports Hash_Keys
begin

text \<open>
  \<open>core/framework/block/block.{h,cpp}\<close> and the part of \<open>BlockManagerImpl\<close> a \<open>Block\<close>
  reaches through \<open>manager_\<close>. A \<open>block\<close> is one C++ object of class \<open>Block\<close>, a handle;
  its \<open>ref_count_\<close> pointer is an address into \<open>cells\<close>, the heap of counters. The counters
  are \<open>nat\<close>: a \<open>uint32_t\<close> counter would wrap only with \<open>2 ^ 32\<close> live handles of one block.
  Reading a deleted counter is \<open>Use_after_free\<close>. The invariant \<open>arena_inv\<close> relates the
  free list, the counters and the multiset of all live handles; the locale
  \<open>handle_store\<close> states what copying and destroying handles promises.
\<close>

section \<open>State\<close>

record block =
  bid :: int                  \<comment> \<open>\<open>id_\<close>\<close>
  bsize :: nat                \<comment> \<open>\<open>size_\<close>\<close>
  bref :: "nat option"        \<comment> \<open>\<open>ref_count_\<close>\<close>
  bmgr :: bool                \<comment> \<open>\<open>manager_ != nullptr\<close>\<close>
  bhash :: xxh3_key           \<comment> \<open>\<open>hash_value_\<close>\<close>

text \<open>
  \<open>hash_value_\<close> has no initialiser. A fresh handle carries zero bytes here; no lemma
  depends on them.
\<close>

definition uninit_hash :: xxh3_key where
  "uninit_hash = replicate XXH3_128BITS_HASH_VALUE_LEN 0"

definition null_block :: block where
  "null_block = \<lparr>bid = -1, bsize = 0, bref = None, bmgr = False, bhash = uninit_hash\<rparr>"

record arena =
  free_blocks :: "int list"            \<comment> \<open>\<open>free_blocks_\<close>\<close>
  num_free_blocks :: nat               \<comment> \<open>\<open>num_free_blocks_\<close>\<close>
  arena_block_size :: nat              \<comment> \<open>\<open>options_.block_size()\<close>\<close>
  cells :: "nat \<Rightarrow> nat option"         \<comment> \<open>the live reference counters\<close>
  next_cell :: nat                     \<comment> \<open>the next address \<open>new uint32_t\<close> returns\<close>

section \<open>Operations\<close>

text \<open>\<open>BlockManagerImpl::free\<close>\<close>

definition bm_free :: "int \<Rightarrow> arena \<Rightarrow> arena res" where
  "bm_free block_id A =
     (if block_id \<noteq> 0
      then let prev_count = num_free_blocks A in
           if prev_count < length (free_blocks A)
           then Inr (A\<lparr>num_free_blocks := prev_count + 1,
                       free_blocks := (free_blocks A)[prev_count := block_id]\<rparr>)
           else Inl Check_failed
      else Inr A)"

text \<open>\<open>Block::Block(int32_t id, BlockManager* manager)\<close>\<close>

definition block_new :: "int \<Rightarrow> arena \<Rightarrow> block \<times> arena" where
  "block_new block_id A =
     (\<lparr>bid = block_id, bsize = arena_block_size A, bref = Some (next_cell A), bmgr = True,
       bhash = uninit_hash\<rparr>,
      A\<lparr>cells := (cells A)(next_cell A \<mapsto> 1), next_cell := next_cell A + 1\<rparr>)"

definition block_is_valid :: "block \<Rightarrow> bool" where
  "block_is_valid b \<longleftrightarrow> bid b \<ge> 0 \<and> bref b \<noteq> None"

definition block_ref_count :: "block \<Rightarrow> arena \<Rightarrow> nat res" where
  "block_ref_count b A =
     (case bref b of
        None \<Rightarrow> Inr 0
      | Some a \<Rightarrow> (case cells A a of None \<Rightarrow> Inl Use_after_free | Some n \<Rightarrow> Inr n))"

definition block_is_shared :: "block \<Rightarrow> arena \<Rightarrow> bool res" where
  "block_is_shared b A = bindE (block_ref_count b A) (\<lambda>n. Inr (n > 1))"

definition set_hash_value :: "xxh3_key \<Rightarrow> block \<Rightarrow> block" where
  "set_hash_value k b = b\<lparr>bhash := take XXH3_128BITS_HASH_VALUE_LEN k\<rparr>"

definition inc_ref_count :: "block \<Rightarrow> arena \<Rightarrow> arena res" where
  "inc_ref_count b A =
     (case bref b of
        None \<Rightarrow> Inr A
      | Some a \<Rightarrow>
          (case cells A a of
             None \<Rightarrow> Inl Use_after_free
           | Some n \<Rightarrow> Inr (A\<lparr>cells := (cells A)(a \<mapsto> n + 1)\<rparr>)))"

definition dec_ref_count :: "block \<Rightarrow> arena \<Rightarrow> arena res" where
  "dec_ref_count b A =
     (case bref b of
        None \<Rightarrow> Inr A
      | Some a \<Rightarrow>
          (case cells A a of
             None \<Rightarrow> Inl Use_after_free
           | Some n \<Rightarrow>
               let n' = (if n = 0 then 2 ^ 32 - 1 else n - 1) in
               if n' = 0
               then let A' = A\<lparr>cells := (cells A)(a := None)\<rparr> in
                    if bmgr b then bm_free (bid b) A' else Inr A'
               else Inr (A\<lparr>cells := (cells A)(a \<mapsto> n')\<rparr>)))"

text \<open>Destructor, copy constructor and copy assignment.\<close>

definition block_destroy :: "block \<Rightarrow> arena \<Rightarrow> arena res" where
  "block_destroy b A = dec_ref_count b A"

definition block_copy :: "block \<Rightarrow> arena \<Rightarrow> (block \<times> arena) res" where
  "block_copy other A = bindE (inc_ref_count other A) (\<lambda>A'. Inr (other, A'))"

definition block_assign :: "bool \<Rightarrow> block \<Rightarrow> block \<Rightarrow> arena \<Rightarrow> (block \<times> arena) res" where
  "block_assign same_object self other A =
     (if same_object then Inr (self, A)
      else bindE (dec_ref_count self A) (\<lambda>A1.
           bindE (inc_ref_count other A1) (\<lambda>A2. Inr (other, A2))))"

text \<open>Move constructor and move assignment: the new value of the target and of the source.\<close>

definition moved_from :: "block \<Rightarrow> block" where
  "moved_from other = other\<lparr>bid := -1, bsize := 0, bref := None, bmgr := False\<rparr>"

definition block_move :: "block \<Rightarrow> block \<times> block" where
  "block_move other = (other, moved_from other)"

definition block_move_assign ::
    "bool \<Rightarrow> block \<Rightarrow> block \<Rightarrow> arena \<Rightarrow> (block \<times> block \<times> arena) res" where
  "block_move_assign same_object self other A =
     (if same_object then Inr (self, other, A)
      else bindE (dec_ref_count self A) (\<lambda>A'. Inr (other, moved_from other, A')))"

text \<open>\<open>BlockManagerImpl::allocate()\<close>: one block from the top of the free stack.\<close>

definition bm_allocate_one :: "arena \<Rightarrow> (block \<times> arena) res" where
  "bm_allocate_one A =
     (if num_free_blocks A > 0
      then let prev_count = num_free_blocks A in
           bindE (nth_res (free_blocks A) (prev_count - 1)) (\<lambda>block_id.
             Inr (block_new block_id (A\<lparr>num_free_blocks := prev_count - 1\<rparr>)))
      else Inl Check_failed)"

text \<open>Copying and destroying all elements of a \<open>std::vector<Block>\<close>.\<close>

definition copy_blocks :: "block list \<Rightarrow> arena \<Rightarrow> arena res" where
  "copy_blocks bs A = foldE inc_ref_count bs A"

definition destroy_blocks :: "block list \<Rightarrow> arena \<Rightarrow> arena res" where
  "destroy_blocks bs A = foldE block_destroy bs A"

section \<open>The ownership invariant\<close>

text \<open>
  A live handle is recorded by its counter address and its block id. \<open>arena_inv A T\<close>:
  the counters count exactly the handles in \<open>T\<close>; two handles share a counter if and only
  if they name the same block; the first \<open>num_free_blocks\<close> entries of the free stack are
  distinct, and together with the ids in \<open>T\<close> they partition the ids (0, the padding
  block, never returns to the stack).
\<close>

type_synonym token = "nat \<times> int"

definition token_of :: "block \<Rightarrow> token" where
  "token_of b = (the (bref b), bid b)"

definition tokens_of :: "block list \<Rightarrow> token multiset" where
  "tokens_of bs = mset (map token_of bs)"

definition owned :: "block \<Rightarrow> bool" where
  "owned b \<longleftrightarrow> bref b \<noteq> None \<and> bmgr b"

definition free_ids :: "arena \<Rightarrow> int list" where
  "free_ids A = take (num_free_blocks A) (free_blocks A)"

definition handles_at :: "nat \<Rightarrow> token multiset \<Rightarrow> nat" where
  "handles_at a T = size {#t \<in># T. fst t = a#}"

definition arena_inv :: "arena \<Rightarrow> token multiset \<Rightarrow> bool" where
  "arena_inv A T \<longleftrightarrow>
     num_free_blocks A \<le> length (free_blocks A) \<and>
     distinct (free_ids A) \<and>
     0 \<notin> set (free_ids A) \<and>
     (\<forall>t \<in># T. \<forall>u \<in># T. fst t = fst u \<longleftrightarrow> snd t = snd u) \<and>
     (\<forall>a. cells A a = (if handles_at a T = 0 then None else Some (handles_at a T))) \<and>
     (\<forall>t \<in># T. fst t < next_cell A) \<and>
     set (free_ids A) \<inter> snd ` set_mset T = {} \<and>
     insert 0 (set (free_ids A) \<union> snd ` set_mset T) = int ` {0..<length (free_blocks A)}"

definition init_arena :: "nat \<Rightarrow> nat \<Rightarrow> arena" where
  "init_arena total_blocks block_size =
     \<lparr>free_blocks = map (\<lambda>i. int total_blocks - int i - 1) [0..<total_blocks],
      num_free_blocks = total_blocks, arena_block_size = block_size,
      cells = (\<lambda>_. None), next_cell = 0\<rparr>"

section \<open>Elementary facts\<close>

lemma tokens_of_simps [simp]:
  "tokens_of [] = {#}"
  "tokens_of (b # bs) = add_mset (token_of b) (tokens_of bs)"
  "tokens_of (bs @ cs) = tokens_of bs + tokens_of cs"
  by (simp_all add: tokens_of_def)

lemma handles_at_simps [simp]:
  "handles_at a {#} = 0"
  "handles_at a (add_mset t T) = (if fst t = a then Suc (handles_at a T) else handles_at a T)"
  "handles_at a (T + U) = handles_at a T + handles_at a U"
  by (simp_all add: handles_at_def)

lemma handles_at_eq_0: "handles_at a T = 0 \<longleftrightarrow> (\<forall>t \<in># T. fst t \<noteq> a)"
  by (auto simp: handles_at_def)

lemma handles_at_pos: "t \<in># T \<Longrightarrow> 0 < handles_at (fst t) T"
  using handles_at_eq_0[of "fst t" T] by fastforce

lemma set_hash_value_simps [simp]:
  "bref (set_hash_value k b) = bref b" "bid (set_hash_value k b) = bid b"
  "bmgr (set_hash_value k b) = bmgr b" "bsize (set_hash_value k b) = bsize b"
  "owned (set_hash_value k b) = owned b" "token_of (set_hash_value k b) = token_of b"
  "bhash (set_hash_value k b) = take XXH3_128BITS_HASH_VALUE_LEN k"
  by (simp_all add: set_hash_value_def owned_def token_of_def)

lemma owned_bref: "owned b \<Longrightarrow> bref b = Some (fst (token_of b))"
  by (auto simp: owned_def token_of_def)

lemma bid_token [simp]: "snd (token_of b) = bid b"
  by (simp add: token_of_def)

lemma arena_invD:
  assumes "arena_inv A T"
  shows "num_free_blocks A \<le> length (free_blocks A)" "distinct (free_ids A)" "0 \<notin> set (free_ids A)"
    and "t \<in># T \<Longrightarrow> u \<in># T \<Longrightarrow> fst t = fst u \<longleftrightarrow> snd t = snd u"
    and "cells A a = (if handles_at a T = 0 then None else Some (handles_at a T))"
    and "t \<in># T \<Longrightarrow> fst t < next_cell A"
    and "set (free_ids A) \<inter> snd ` set_mset T = {}"
    and "insert 0 (set (free_ids A) \<union> snd ` set_mset T) = int ` {0..<length (free_blocks A)}"
  using assms unfolding arena_inv_def by blast+

text \<open>The counter of an owned handle is the number of handles of its block.\<close>

lemma arena_inv_cell:
  assumes "arena_inv A T" "token_of b \<in># T" "owned b"
  shows "bref b = Some (fst (token_of b))"
    and "cells A (fst (token_of b)) = Some (handles_at (fst (token_of b)) T)"
    and "0 < handles_at (fst (token_of b)) T"
  using assms owned_bref[OF assms(3)] handles_at_pos[OF assms(2)] arena_invD(5)[OF assms(1)]
  by auto

lemma block_ref_count_inv:
  "arena_inv A T \<Longrightarrow> token_of b \<in># T \<Longrightarrow> owned b \<Longrightarrow>
    block_ref_count b A = Inr (handles_at (fst (token_of b)) T)"
  using arena_inv_cell[of A T b] by (simp add: block_ref_count_def)

section \<open>Every operation keeps the invariant\<close>

lemma inc_ref_count_inv:
  assumes "arena_inv A T" "token_of b \<in># T" "owned b"
  shows "\<exists>A'. inc_ref_count b A = Inr A' \<and> arena_inv A' (add_mset (token_of b) T) \<and>
    num_free_blocks A' = num_free_blocks A \<and> free_blocks A' = free_blocks A \<and>
    arena_block_size A' = arena_block_size A"
proof -
  define a where "a = fst (token_of b)"
  note c = arena_inv_cell[OF assms, folded a_def]
  define A' where "A' = A\<lparr>cells := (cells A)(a \<mapsto> handles_at a T + 1)\<rparr>"
  have eq: "inc_ref_count b A = Inr A'"
    using c by (simp add: inc_ref_count_def A'_def)
  have "free_ids A' = free_ids A" by (simp add: A'_def free_ids_def)
  moreover have "insert (bid b) (snd ` set_mset T) = snd ` set_mset T"
    using assms(2) by (metis bid_token image_eqI insert_absorb)
  moreover have "\<forall>t \<in># add_mset (token_of b) T. \<forall>u \<in># add_mset (token_of b) T.
      fst t = fst u \<longleftrightarrow> snd t = snd u"
    using arena_invD(4)[OF assms(1)] assms(2) by auto
  ultimately have "arena_inv A' (add_mset (token_of b) T)"
    using assms(1,2) unfolding arena_inv_def by (simp add: A'_def a_def)
  then show ?thesis using eq by (simp add: A'_def)
qed

lemma arena_inv_card:
  assumes "arena_inv A T"
  shows "num_free_blocks A + card (snd ` set_mset T - {0}) + 1 = length (free_blocks A) \<or>
    length (free_blocks A) = 0"
proof (cases "length (free_blocks A) = 0")
  case False
  let ?F = "set (free_ids A)" and ?U = "snd ` set_mset T - {0}" and ?N = "length (free_blocks A)"
  note I = arena_invD[OF assms]
  have part: "int ` {0..<?N} = insert 0 (?F \<union> ?U)" using I(8) by auto
  have "card ?F = num_free_blocks A"
    using I(1,2) by (simp add: distinct_card free_ids_def)
  moreover have "card (int ` {0..<?N}) = ?N" by (simp add: card_image)
  moreover have "card (insert 0 (?F \<union> ?U)) = 1 + (card ?F + card ?U)"
    using I(3,7) by (subst card_insert_disjoint) (auto intro!: card_Un_disjoint)
  ultimately show ?thesis using part by simp
qed simp

lemma arena_inv_free_space:
  assumes "arena_inv A T" "t \<in># T" "snd t \<noteq> 0"
  shows "num_free_blocks A < length (free_blocks A)"
proof -
  have "snd t \<in> snd ` set_mset T - {0}" using assms by auto
  then have "0 < card (snd ` set_mset T - {0})" by (simp add: card_gt_0_iff) blast
  moreover have "length (free_blocks A) \<noteq> 0"
    using arena_invD(8)[OF assms(1)] by auto
  ultimately show ?thesis using arena_inv_card[OF assms(1)] by auto
qed

lemma free_ids_push:
  "num_free_blocks A < length (free_blocks A) \<Longrightarrow>
    free_ids (A\<lparr>num_free_blocks := num_free_blocks A + 1,
      free_blocks := (free_blocks A)[num_free_blocks A := i]\<rparr>) = free_ids A @ [i]"
  by (simp add: free_ids_def take_Suc_conv_app_nth)

text \<open>Dropping one of several handles of a block, and dropping the last one.\<close>

lemma dec_ref_count_shared:
  assumes "arena_inv A (add_mset (token_of b) T)" "owned b" "0 < handles_at (fst (token_of b)) T"
  shows "\<exists>A'. dec_ref_count b A = Inr A' \<and> arena_inv A' T \<and>
    num_free_blocks A' = num_free_blocks A \<and> free_blocks A' = free_blocks A \<and>
    arena_block_size A' = arena_block_size A"
proof -
  define a where "a = fst (token_of b)"
  note c = arena_inv_cell[OF assms(1) _ assms(2), folded a_def, simplified]
  have k: "handles_at a (add_mset (token_of b) T) = Suc (handles_at a T)" by (simp add: a_def)
  define A' where "A' = A\<lparr>cells := (cells A)(a \<mapsto> handles_at a T)\<rparr>"
  have "dec_ref_count b A = Inr A'"
    using c(1,2) k assms(3) by (simp add: dec_ref_count_def A'_def a_def)
  moreover have "arena_inv A' T"
  proof -
    obtain t where t: "t \<in># T" "fst t = a"
      using assms(3) handles_at_eq_0[of a T] by (auto simp: a_def)
    then have "snd t = bid b" using arena_invD(4)[OF assms(1), of t "token_of b"] by (simp add: a_def)
    then have "insert (bid b) (snd ` set_mset T) = snd ` set_mset T"
      using t(1) by (metis image_eqI insert_absorb)
    moreover have "free_ids A' = free_ids A" by (simp add: A'_def free_ids_def)
    moreover have "\<forall>x. cells A' x = (if handles_at x T = 0 then None else Some (handles_at x T))"
      using arena_invD(5)[OF assms(1)] assms(3) by (auto simp: A'_def a_def)
    ultimately show ?thesis
      using assms(1) unfolding arena_inv_def by (simp add: A'_def)
  qed
  ultimately show ?thesis by (simp add: A'_def)
qed

lemma dec_ref_count_last:
  assumes "arena_inv A (add_mset (token_of b) T)" "owned b" "handles_at (fst (token_of b)) T = 0"
  shows "\<exists>A'. dec_ref_count b A = Inr A' \<and> arena_inv A' T \<and>
    num_free_blocks A' = num_free_blocks A + (if bid b = 0 then 0 else 1) \<and>
    length (free_blocks A') = length (free_blocks A) \<and> arena_block_size A' = arena_block_size A"
proof -
  define a where "a = fst (token_of b)"
  note I = arena_invD[OF assms(1)]
  note c = arena_inv_cell[OF assms(1) _ assms(2), folded a_def, simplified]
  have k: "handles_at a (add_mset (token_of b) T) = 1" using assms(3) by (simp add: a_def)
  define A1 where "A1 = A\<lparr>cells := (cells A)(a := None)\<rparr>"
  have dec: "dec_ref_count b A = bm_free (bid b) A1"
    using c(1,2) k assms(2) by (simp add: dec_ref_count_def A1_def a_def owned_def)
  have noT: "t \<in># T \<Longrightarrow> fst t \<noteq> a" for t using assms(3) handles_at_eq_0 by (auto simp: a_def)
  have noid: "bid b \<notin> snd ` set_mset T"
  proof
    assume "bid b \<in> snd ` set_mset T"
    then obtain t where "t \<in># T" "snd t = bid b" by auto
    then show False using I(4)[of t "token_of b"] noT by (auto simp: a_def)
  qed
  have cells: "\<forall>x. cells A1 x = (if handles_at x T = 0 then None else Some (handles_at x T))"
    using I(5) assms(3) by (auto simp: A1_def a_def)
  show ?thesis
  proof (cases "bid b = 0")
    case True
    have "arena_inv A1 T"
      using assms(1) True cells unfolding arena_inv_def by (simp add: A1_def free_ids_def)
    then show ?thesis using dec True by (simp add: bm_free_def A1_def)
  next
    case False
    have sp: "num_free_blocks A < length (free_blocks A)"
      using arena_inv_free_space[OF assms(1), of "token_of b"] False by simp
    define A2 where "A2 = A1\<lparr>num_free_blocks := num_free_blocks A + 1,
      free_blocks := (free_blocks A)[num_free_blocks A := bid b]\<rparr>"
    have fr: "free_ids A2 = free_ids A @ [bid b]"
      using free_ids_push[OF sp, of "bid b"] by (simp add: A2_def A1_def free_ids_def)
    have "bid b \<notin> set (free_ids A)" using I(7) by auto
    moreover have "insert 0 (set (free_ids A2) \<union> snd ` set_mset T) = int ` {0..<length (free_blocks A2)}"
      using I(8) fr by (simp add: A2_def A1_def insert_commute)
    ultimately have "arena_inv A2 T"
      using assms(1) cells fr noid sp False unfolding arena_inv_def
      by (auto simp: A2_def A1_def)
    moreover have "bm_free (bid b) A1 = Inr A2"
      using False sp by (simp add: bm_free_def Let_def A2_def A1_def)
    ultimately show ?thesis using dec False by (simp add: A2_def A1_def)
  qed
qed

lemma block_destroy_inv:
  assumes "arena_inv A (add_mset (token_of b) T)" "owned b"
  shows "\<exists>A'. block_destroy b A = Inr A' \<and> arena_inv A' T \<and>
    num_free_blocks A' = num_free_blocks A +
      (if handles_at (fst (token_of b)) T = 0 \<and> bid b \<noteq> 0 then 1 else 0) \<and>
    length (free_blocks A') = length (free_blocks A) \<and> arena_block_size A' = arena_block_size A"
proof (cases "handles_at (fst (token_of b)) T = 0")
  case True
  then show ?thesis using dec_ref_count_last[OF assms True] by (auto simp: block_destroy_def)
next
  case False
  then show ?thesis using dec_ref_count_shared[OF assms] by (auto simp: block_destroy_def)
qed

lemma bm_allocate_one_inv:
  assumes "arena_inv A T" "0 < num_free_blocks A"
  shows "\<exists>b A'. bm_allocate_one A = Inr (b, A') \<and> arena_inv A' (add_mset (token_of b) T) \<and> owned b \<and>
    bid b = last (free_ids A) \<and> bid b \<notin> snd ` set_mset T \<and> bid b \<noteq> 0 \<and> bsize b = arena_block_size A \<and>
    num_free_blocks A' = num_free_blocks A - 1 \<and> free_blocks A' = free_blocks A \<and>
    arena_block_size A' = arena_block_size A"
proof -
  note I = arena_invD[OF assms(1)]
  define n where "n = num_free_blocks A - 1"
  have n: "num_free_blocks A = Suc n" "n < length (free_blocks A)"
    using assms(2) I(1) by (simp_all add: n_def)
  define i where "i = free_blocks A ! n"
  have fr: "free_ids A = take n (free_blocks A) @ [i]"
    using n by (simp add: free_ids_def i_def take_Suc_conv_app_nth)
  obtain b A' where bA: "block_new i (A\<lparr>num_free_blocks := n\<rparr>) = (b, A')"
    by (cases "block_new i (A\<lparr>num_free_blocks := n\<rparr>)")
  have eq: "bm_allocate_one A = Inr (b, A')"
    using n bA by (simp add: bm_allocate_one_def i_def)
  have b: "bid b = i" "bref b = Some (next_cell A)" "owned b" "token_of b = (next_cell A, i)"
    "bsize b = arena_block_size A"
    and A': "cells A' = (cells A)(next_cell A \<mapsto> 1)" "next_cell A' = next_cell A + 1"
      "num_free_blocks A' = n" "free_blocks A' = free_blocks A" "arena_block_size A' = arena_block_size A"
    using bA by (auto simp: block_new_def owned_def token_of_def)
  have fr': "free_ids A' = take n (free_blocks A)" using A' by (simp add: free_ids_def)
  have i: "i \<in> set (free_ids A)" "i \<notin> set (free_ids A')" "i \<noteq> 0" "i \<notin> snd ` set_mset T"
    using I(2,3,7) fr fr' by auto
  have lt: "t \<in># T \<Longrightarrow> fst t < next_cell A" for t using I(6) .
  have fresh: "handles_at (next_cell A) T = 0" using lt handles_at_eq_0 by fastforce
  have "arena_inv A' (add_mset (token_of b) T)"
    unfolding arena_inv_def
  proof (intro conjI)
    show "num_free_blocks A' \<le> length (free_blocks A')" using A' n by simp
    show "distinct (free_ids A')" "0 \<notin> set (free_ids A')" using I(2,3) fr fr' by simp_all
    show "\<forall>t \<in># add_mset (token_of b) T. \<forall>u \<in># add_mset (token_of b) T. fst t = fst u \<longleftrightarrow> snd t = snd u"
      using I(4) lt i(4) b(4) by (fastforce simp: image_iff)
    show "\<forall>a. cells A' a = (if handles_at a (add_mset (token_of b) T) = 0 then None
        else Some (handles_at a (add_mset (token_of b) T)))"
      using I(5) fresh A'(1) b(4) by auto
    show "\<forall>t \<in># add_mset (token_of b) T. fst t < next_cell A'"
      using lt A'(2) b(4) by (auto simp: less_Suc_eq)
    show "set (free_ids A') \<inter> snd ` set_mset (add_mset (token_of b) T) = {}"
      using I(7) fr fr' i(2) b(4) by auto
    show "insert 0 (set (free_ids A') \<union> snd ` set_mset (add_mset (token_of b) T)) =
        int ` {0..<length (free_blocks A')}"
      using I(8) fr fr' A' b(4) by (simp add: insert_commute)
  qed
  then show ?thesis using eq b A' i fr by (simp add: n_def)
qed

section \<open>The interface of handles\<close>

text \<open>
  What a client of reference-counted handles relies on: copying a live handle and
  destroying one never fail and keep the store's invariant for the changed multiset of
  handles. Vectors of handles follow.
\<close>

locale handle_store =
  fixes inv :: "'s \<Rightarrow> token multiset \<Rightarrow> bool"
    and copy :: "block \<Rightarrow> 's \<Rightarrow> 's res"
    and destroy :: "block \<Rightarrow> 's \<Rightarrow> 's res"
  assumes copy_law: "inv s T \<Longrightarrow> token_of b \<in># T \<Longrightarrow> owned b \<Longrightarrow>
      \<exists>s'. copy b s = Inr s' \<and> inv s' (add_mset (token_of b) T)"
    and destroy_law: "inv s (add_mset (token_of b) T) \<Longrightarrow> owned b \<Longrightarrow>
      \<exists>s'. destroy b s = Inr s' \<and> inv s' T"
begin

lemma copy_all:
  "inv s T \<Longrightarrow> set_mset (tokens_of bs) \<subseteq> set_mset T \<Longrightarrow> list_all owned bs \<Longrightarrow>
    \<exists>s'. foldE copy bs s = Inr s' \<and> inv s' (tokens_of bs + T)"
proof (induction bs arbitrary: s T)
  case Nil
  then show ?case by simp
next
  case (Cons b bs)
  then obtain s1 where s1: "copy b s = Inr s1" "inv s1 (add_mset (token_of b) T)"
    using copy_law[of s T b] by auto
  then show ?case using Cons.IH[of s1 "add_mset (token_of b) T"] Cons.prems by fastforce
qed

lemma destroy_all:
  "inv s (tokens_of bs + T) \<Longrightarrow> list_all owned bs \<Longrightarrow> \<exists>s'. foldE destroy bs s = Inr s' \<and> inv s' T"
proof (induction bs arbitrary: s)
  case Nil
  then show ?case by simp
next
  case (Cons b bs)
  then obtain s1 where s1: "destroy b s = Inr s1" "inv s1 (tokens_of bs + T)"
    using destroy_law[of s b "tokens_of bs + T"] by auto
  then show ?case using Cons.IH[of s1] Cons.prems by fastforce
qed

lemma copy_then_destroy:
  "inv s T \<Longrightarrow> set_mset (tokens_of bs) \<subseteq> set_mset T \<Longrightarrow> list_all owned bs \<Longrightarrow>
    \<exists>s1 s2. foldE copy bs s = Inr s1 \<and> foldE destroy bs s1 = Inr s2 \<and> inv s2 T"
  using copy_all[of s T bs] destroy_all[of _ bs T] by blast

end

interpretation arena_handles: handle_store arena_inv inc_ref_count block_destroy
proof
  fix A T b
  assume "arena_inv A T" "token_of b \<in># T" "owned b"
  then show "\<exists>A'. inc_ref_count b A = Inr A' \<and> arena_inv A' (add_mset (token_of b) T)"
    using inc_ref_count_inv by blast
next
  fix A b T
  assume "arena_inv A (add_mset (token_of b) T)" "owned b"
  then show "\<exists>A'. block_destroy b A = Inr A' \<and> arena_inv A' T"
    using block_destroy_inv by blast
qed

end
