(* ===== verification/DNode_List.thy ===== *)
theory DNode_List
  imports Prelude
begin

text \<open>
  \<open>PrefixCache::DNodeList\<close> (\<open>prefix_cache.h\<close>): the intrusive doubly linked list the
  prefix cache keeps its nodes on. The operations are the pointer assignments of the
  source on two functions \<open>nxt\<close> and \<open>prv\<close> (the \<open>next\<close> and \<open>prev\<close> fields, indexed by
  the node's address); \<open>dl\<close> says which list of nodes they represent between the two
  sentinels. The lemmas show that every operation is the list operation it stands for,
  and that it leaves other lists alone.
\<close>

record links =
  nxt :: "nat \<Rightarrow> nat"
  prv :: "nat \<Rightarrow> nat"

record dnode_list =
  lst_front :: nat
  lst_back :: nat

definition dlist_init :: "dnode_list \<Rightarrow> links \<Rightarrow> links" where
  "dlist_init l h = h\<lparr>nxt := (nxt h)(lst_front l := lst_back l),
                      prv := (prv h)(lst_back l := lst_front l)\<rparr>"

definition is_empty :: "dnode_list \<Rightarrow> links \<Rightarrow> bool" where
  "is_empty l h \<longleftrightarrow> nxt h (lst_front l) = lst_back l"

definition remove_node :: "nat \<Rightarrow> links \<Rightarrow> nat \<times> links" where
  "remove_node node h =
     (let next_node = nxt h node;
          h1 = h\<lparr>nxt := (nxt h)(prv h node := next_node)\<rparr>;
          h2 = h1\<lparr>prv := (prv h1)(next_node := prv h1 node)\<rparr>
      in (next_node, h2))"

definition is_last :: "dnode_list \<Rightarrow> nat \<Rightarrow> bool" where
  "is_last l node \<longleftrightarrow> node = lst_back l"

definition push_front :: "dnode_list \<Rightarrow> nat \<Rightarrow> links \<Rightarrow> links" where
  "push_front l node h =
     (let h1 = h\<lparr>nxt := (nxt h)(node := nxt h (lst_front l))\<rparr>;
          h2 = h1\<lparr>prv := (prv h1)(nxt h1 (lst_front l) := node)\<rparr>;
          h3 = h2\<lparr>prv := (prv h2)(node := lst_front l)\<rparr>
      in h3\<lparr>nxt := (nxt h3)(lst_front l := node)\<rparr>)"

definition get_first :: "dnode_list \<Rightarrow> links \<Rightarrow> nat" where
  "get_first l h = nxt h (lst_front l)"

definition pop_front :: "dnode_list \<Rightarrow> links \<Rightarrow> nat option \<times> links" where
  "pop_front l h =
     (if nxt h (lst_front l) = lst_back l then (None, h)
      else let node = nxt h (lst_front l);
               h1 = h\<lparr>nxt := (nxt h)(lst_front l := nxt h node)\<rparr>;
               h2 = h1\<lparr>prv := (prv h1)(nxt h1 node := lst_front l)\<rparr>
           in (Some node, h2))"

definition push_back :: "dnode_list \<Rightarrow> nat \<Rightarrow> links \<Rightarrow> links" where
  "push_back l node h =
     (let h1 = h\<lparr>prv := (prv h)(node := prv h (lst_back l))\<rparr>;
          h2 = h1\<lparr>nxt := (nxt h1)(node := lst_back l)\<rparr>;
          h3 = h2\<lparr>nxt := (nxt h2)(prv h2 (lst_back l) := node)\<rparr>
      in h3\<lparr>prv := (prv h3)(lst_back l := node)\<rparr>)"

definition move_back :: "dnode_list \<Rightarrow> nat \<Rightarrow> links \<Rightarrow> links" where
  "move_back l node h = push_back l node (snd (remove_node node h))"

section \<open>What a list of nodes means on the heap\<close>

fun chain :: "links \<Rightarrow> nat list \<Rightarrow> bool" where
  "chain h [] = True"
| "chain h [x] = True"
| "chain h (x # y # zs) = (nxt h x = y \<and> prv h y = x \<and> chain h (y # zs))"

definition cells_of :: "dnode_list \<Rightarrow> nat list \<Rightarrow> nat list" where
  "cells_of l xs = lst_front l # xs @ [lst_back l]"

definition dl :: "dnode_list \<Rightarrow> nat list \<Rightarrow> links \<Rightarrow> bool" where
  "dl l xs h \<longleftrightarrow> distinct (cells_of l xs) \<and> chain h (cells_of l xs)"

lemma chain_append:
  "chain h (xs @ y # ys) \<longleftrightarrow> chain h (xs @ [y]) \<and> chain h (y # ys)"
proof (induction xs)
  case Nil
  then show ?case by simp
next
  case (Cons x xs)
  then show ?case by (cases xs) auto
qed

lemma chain_Cons: "chain h (x # y # ys) \<longleftrightarrow> nxt h x = y \<and> prv h y = x \<and> chain h (y # ys)"
  by simp

lemma chain_cong:
  assumes "chain h xs"
    and "\<forall>x \<in> set (butlast xs). nxt h' x = nxt h x"
    and "\<forall>x \<in> set (tl xs). prv h' x = prv h x"
  shows "chain h' xs"
  using assms
proof (induction h xs rule: chain.induct)
  case (3 h x y zs)
  then show ?case by (cases zs) auto
qed auto

lemma set_tl_subset: "set (tl xs) \<subseteq> set xs"
  by (cases xs) auto

text \<open>An update of cells outside a list does not change what the list represents.\<close>

lemma dl_frame:
  assumes "dl l xs h"
    and "\<forall>x \<in> set (cells_of l xs). nxt h' x = nxt h x \<and> prv h' x = prv h x"
  shows "dl l xs h'"
  using assms chain_cong[of h "cells_of l xs" h'] set_tl_subset[of "cells_of l xs"]
  by (auto simp: dl_def dest: in_set_butlastD)

lemma dl_init: "lst_front l \<noteq> lst_back l \<Longrightarrow> dl l [] (dlist_init l h)"
  by (simp add: dl_def cells_of_def dlist_init_def)

lemma dl_is_empty: "dl l xs h \<Longrightarrow> is_empty l h \<longleftrightarrow> xs = []"
  by (cases xs) (auto simp: dl_def cells_of_def is_empty_def)

lemma dl_get_first: "dl l (x # xs) h \<Longrightarrow> get_first l h = x"
  by (simp add: dl_def cells_of_def get_first_def)

lemma dl_split:
  assumes "dl l (xs @ y # zs) h"
  obtains p n where
    "prv h y = p" "nxt h y = n"
    "p = last (lst_front l # xs)" "n = hd (zs @ [lst_back l])"
    "chain h (lst_front l # xs)" "chain h (zs @ [lst_back l])"
    "distinct (cells_of l (xs @ y # zs))"
proof -
  let ?F = "lst_front l # xs" and ?B = "zs @ [lst_back l]"
  have c: "chain h (?F @ y # ?B)" and d: "distinct (cells_of l (xs @ y # zs))"
    using assms by (simp_all add: dl_def cells_of_def)
  from c have c1: "chain h (?F @ [y])" and c2: "chain h (y # ?B)"
    using chain_append by blast+
  obtain F' p where F: "?F = F' @ [p]" by (cases ?F rule: rev_cases) auto
  obtain n B' where B: "?B = n # B'" by (cases ?B) auto
  have "chain h (F' @ p # [y])" using c1 F by simp
  then have cF: "chain h (F' @ [p])" and py: "chain h [p, y]"
    using chain_append[of h F' p "[y]"] by simp_all
  show ?thesis
  proof (rule that)
    show "prv h y = p" using py by simp
    show "nxt h y = n" using c2 B by simp
    show "p = last (lst_front l # xs)" using F by simp
    show "n = hd (zs @ [lst_back l])" using B by simp
    show "chain h (lst_front l # xs)" using cF F by simp
    show "chain h (zs @ [lst_back l])" using c2 B by simp
    show "distinct (cells_of l (xs @ y # zs))" by (rule d)
  qed
qed

text \<open>Joining two chains by the pair of assignments every operation ends with.\<close>

lemma chain_join:
  assumes "chain h (F @ [p])" "chain h (n # B)" "distinct (F @ p # n # B)"
    and "nxt h' = (nxt h)(p := n)" "prv h' = (prv h)(n := p)"
  shows "chain h' (F @ p # n # B)"
proof -
  have "chain h' (F @ [p])"
    using assms by (intro chain_cong[OF assms(1)]) (cases F, auto)+
  moreover have "chain h' (n # B)"
    using assms by (intro chain_cong[OF assms(2)]) (auto dest: in_set_butlastD)
  ultimately show ?thesis
    using assms chain_append[of h' F p "n # B"] by simp
qed

lemma dl_remove_node:
  assumes "dl l (xs @ y # zs) h"
  shows "dl l (xs @ zs) (snd (remove_node y h))"
    and "fst (remove_node y h) = hd (zs @ [lst_back l])"
proof -
  obtain p n where pn: "prv h y = p" "nxt h y = n"
    "p = last (lst_front l # xs)" "n = hd (zs @ [lst_back l])"
    "chain h (lst_front l # xs)" "chain h (zs @ [lst_back l])"
    "distinct (cells_of l (xs @ y # zs))"
    using dl_split[OF assms] .
  obtain F where F: "lst_front l # xs = F @ [p]"
    using pn(3) append_butlast_last_id[of "lst_front l # xs"] by (metis list.distinct(1))
  obtain B where B: "zs @ [lst_back l] = n # B"
    using pn(4) by (cases "zs @ [lst_back l]") auto
  have cell: "cells_of l (xs @ zs) = F @ p # n # B"
    using arg_cong2[OF F B, of append] by (simp add: cells_of_def)
  have "distinct (cells_of l (xs @ zs))" using pn(7) by (auto simp: cells_of_def)
  moreover have "chain (snd (remove_node y h)) (F @ p # n # B)"
  proof (rule chain_join)
    show "chain h (F @ [p])" using pn(5) F by argo
    show "chain h (n # B)" using pn(6) B by argo
    show "distinct (F @ p # n # B)" using \<open>distinct (cells_of l (xs @ zs))\<close> cell by argo
    show "nxt (snd (remove_node y h)) = (nxt h)(p := n)"
      "prv (snd (remove_node y h)) = (prv h)(n := p)"
      using pn(1,2) by (auto simp: remove_node_def Let_def)
  qed
  ultimately show "dl l (xs @ zs) (snd (remove_node y h))"
    by (simp add: dl_def cell)
  show "fst (remove_node y h) = hd (zs @ [lst_back l])"
    using pn by (simp add: remove_node_def Let_def)
qed

lemma dl_push_front:
  assumes "dl l xs h" "y \<notin> set (cells_of l xs)"
  shows "dl l (y # xs) (push_front l y h)"
proof -
  obtain n B where B: "xs @ [lst_back l] = n # B" by (cases "xs @ [lst_back l]") auto
  have d: "distinct (cells_of l (y # xs))" and c: "chain h (lst_front l # n # B)"
    using assms B by (auto simp: dl_def cells_of_def)
  then have d': "distinct (lst_front l # y # n # B)" using B by (auto simp: cells_of_def)
  have n: "nxt h (lst_front l) = n" using c by simp
  have h': "nxt (push_front l y h) = (nxt h)(y := n, lst_front l := y)"
    "prv (push_front l y h) = (prv h)(n := y, y := lst_front l)"
    using n d' by (auto simp: push_front_def Let_def)
  have "chain h (n # B)" using c by simp
  then have "chain (push_front l y h) (n # B)"
    by (rule chain_cong) (use d' h' in \<open>auto dest: in_set_butlastD\<close>)
  then have "chain (push_front l y h) (lst_front l # y # n # B)"
    using d' h' by auto
  then show ?thesis using d B by (simp add: dl_def cells_of_def)
qed

lemma dl_pop_front:
  assumes "dl l (x # xs) h"
  shows "fst (pop_front l h) = Some x" "dl l xs (snd (pop_front l h))"
proof -
  have r: "dl l xs (snd (remove_node x h))"
    using dl_remove_node(1)[of l "[]" x xs h] assms by simp
  have c: "nxt h (lst_front l) = x" "prv h x = lst_front l" "x \<noteq> lst_back l" "x \<noteq> lst_front l"
    using assms by (auto simp: dl_def cells_of_def)
  then have "pop_front l h = (Some x, snd (remove_node x h))"
    by (simp add: pop_front_def remove_node_def Let_def fun_upd_twist)
  with r show "fst (pop_front l h) = Some x" "dl l xs (snd (pop_front l h))"
    by simp_all
qed

lemma dl_pop_front_empty: "dl l [] h \<Longrightarrow> pop_front l h = (None, h)"
  by (simp add: dl_def cells_of_def pop_front_def)

lemma dl_push_back:
  assumes "dl l xs h" "y \<notin> set (cells_of l xs)"
  shows "dl l (xs @ [y]) (push_back l y h)"
proof -
  obtain F p where F: "lst_front l # xs = F @ [p]"
    by (cases "lst_front l # xs" rule: rev_cases) auto
  have cell: "cells_of l xs = F @ p # [lst_back l]" "cells_of l (xs @ [y]) = F @ p # [y, lst_back l]"
    using arg_cong[OF F, of "\<lambda>u. u @ [lst_back l]"] arg_cong[OF F, of "\<lambda>u. u @ [y, lst_back l]"]
    by (simp_all add: cells_of_def)
  have d: "distinct (F @ p # y # [lst_back l])" and c: "chain h (F @ p # [lst_back l])"
    using assms cell by (auto simp: dl_def)
  have cF: "chain h (F @ [p])" and p: "prv h (lst_back l) = p"
    using c chain_append[of h F p "[lst_back l]"] by simp_all
  have h': "nxt (push_back l y h) = (nxt h)(y := lst_back l, p := y)"
    "prv (push_back l y h) = (prv h)(y := p, lst_back l := y)"
    using p d by (auto simp: push_back_def Let_def)
  have "chain (push_back l y h) (F @ [p])"
    using d h' by (intro chain_cong[OF cF]) (cases F, auto)+
  then have "chain (push_back l y h) (F @ p # y # [lst_back l])"
    using d h' chain_append[of "push_back l y h" F p "[y, lst_back l]"] by auto
  then show ?thesis using d cell by (simp add: dl_def)
qed

lemma dl_move_back:
  assumes "dl l (xs @ y # zs) h"
  shows "dl l (xs @ zs @ [y]) (move_back l y h)"
proof -
  have "dl l (xs @ zs) (snd (remove_node y h))" by (rule dl_remove_node(1)[OF assms])
  moreover have "y \<notin> set (cells_of l (xs @ zs))"
    using assms by (auto simp: dl_def cells_of_def)
  ultimately show ?thesis
    using dl_push_back[of l "xs @ zs"] by (simp add: move_back_def)
qed

section \<open>Frames: operations on one list leave a disjoint list alone\<close>

lemma dl_remove_node_frame:
  assumes "dl l (xs @ y # zs) h" "dl m ys h" "set (cells_of l (xs @ y # zs)) \<inter> set (cells_of m ys) = {}"
  shows "dl m ys (snd (remove_node y h))"
proof -
  obtain p n where pn: "prv h y = p" "nxt h y = n" "p = last (lst_front l # xs)" "n = hd (zs @ [lst_back l])"
    using dl_split[OF assms(1)] by metis
  have "p \<in> set (lst_front l # xs)" using pn(3) last_in_set[of "lst_front l # xs"] by simp
  then have "p \<in> set (cells_of l (xs @ y # zs))" by (auto simp: cells_of_def)
  moreover have "n \<in> set (zs @ [lst_back l])" using pn(4) hd_in_set[of "zs @ [lst_back l]"] by simp
  then have "n \<in> set (cells_of l (xs @ y # zs))" by (auto simp: cells_of_def)
  ultimately show ?thesis
    using assms(3) pn(1,2)
    by (intro dl_frame[OF assms(2)]) (auto simp: remove_node_def Let_def)
qed

lemma dl_push_front_frame:
  assumes "dl l xs h" "dl m ys h" "set (cells_of l (y # xs)) \<inter> set (cells_of m ys) = {}"
  shows "dl m ys (push_front l y h)"
proof -
  have "nxt h (lst_front l) = hd (xs @ [lst_back l])"
    using assms(1) by (cases xs) (auto simp: dl_def cells_of_def)
  then have "nxt h (lst_front l) \<in> set (cells_of l (y # xs))"
    by (cases xs) (auto simp: cells_of_def)
  moreover have "lst_front l \<in> set (cells_of l (y # xs))" "y \<in> set (cells_of l (y # xs))"
    by (auto simp: cells_of_def)
  ultimately show ?thesis
    using assms(3) by (intro dl_frame[OF assms(2)]) (auto simp: push_front_def Let_def)
qed

lemma dl_push_back_frame:
  assumes "dl l xs h" "dl m ys h" "set (cells_of l (xs @ [y])) \<inter> set (cells_of m ys) = {}"
  shows "dl m ys (push_back l y h)"
proof -
  obtain F p where F: "lst_front l # xs = F @ [p]"
    by (cases "lst_front l # xs" rule: rev_cases) auto
  have "cells_of l xs = F @ p # [lst_back l]"
    using arg_cong[OF F, of "\<lambda>u. u @ [lst_back l]"] by (simp add: cells_of_def)
  then have "chain h (F @ p # [lst_back l])"
    using assms(1) by (simp add: dl_def)
  then have "prv h (lst_back l) = p"
    using chain_append[of h F p "[lst_back l]"] by simp
  moreover have "p \<in> set (lst_front l # xs)" using F by simp
  ultimately have "prv h (lst_back l) \<in> set (cells_of l (xs @ [y]))"
    by (auto simp: cells_of_def)
  moreover have "lst_back l \<in> set (cells_of l (xs @ [y]))" "y \<in> set (cells_of l (xs @ [y]))"
    by (auto simp: cells_of_def)
  ultimately show ?thesis
    using assms(3) by (intro dl_frame[OF assms(2)]) (auto simp: push_back_def Let_def)
qed

lemma dl_pop_front_frame:
  assumes "dl l (x # xs) h" "dl m ys h" "set (cells_of l (x # xs)) \<inter> set (cells_of m ys) = {}"
  shows "dl m ys (snd (pop_front l h))"
proof -
  have c: "nxt h (lst_front l) = x" "prv h x = lst_front l" "x \<noteq> lst_back l" "x \<noteq> lst_front l"
    using assms(1) by (auto simp: dl_def cells_of_def)
  then have "snd (pop_front l h) = snd (remove_node x h)"
    by (simp add: pop_front_def remove_node_def Let_def fun_upd_twist)
  then show ?thesis
    using dl_remove_node_frame[of l "[]" x xs h m ys] assms by simp
qed

section \<open>How the cache uses two lists: collect hits, then append them\<close>

text \<open>
  \<open>match\<close> and \<open>insert\<close> unlink every hit from the LRU list onto the front of a local list
  (a new node goes onto the local list directly) and at the end drain the local list into
  the back of the LRU list.
\<close>

definition collect_node :: "dnode_list \<Rightarrow> bool \<Rightarrow> nat \<Rightarrow> links \<Rightarrow> links" where
  "collect_node loc cached p h = push_front loc p (if cached then snd (remove_node p h) else h)"

text \<open>The loop runs until the local list is empty; the fuel is the number of its nodes.\<close>

fun drain :: "nat \<Rightarrow> dnode_list \<Rightarrow> dnode_list \<Rightarrow> links \<Rightarrow> links option" where
  "drain fuel lru loc h =
     (if is_empty loc h then Some h
      else case fuel of
          0 \<Rightarrow> None
        | Suc n \<Rightarrow>
            (case pop_front loc h of
               (None, _) \<Rightarrow> None
             | (Some node, h1) \<Rightarrow> drain n lru loc (push_back lru node h1)))"

declare drain.simps [simp del]

definition sep :: "dnode_list \<Rightarrow> nat list \<Rightarrow> dnode_list \<Rightarrow> nat list \<Rightarrow> bool" where
  "sep l xs m ys \<longleftrightarrow> set (cells_of l xs) \<inter> set (cells_of m ys) = {}"

lemma drain_step:
  assumes "dl lru xs h" "dl loc (y # ys) h" "sep lru xs loc (y # ys)"
  shows "dl lru (xs @ [y]) (push_back lru y (snd (pop_front loc h)))"
    and "dl loc ys (push_back lru y (snd (pop_front loc h)))"
    and "sep lru (xs @ [y]) loc ys"
proof -
  have d: "distinct (cells_of loc (y # ys))" using assms(2) by (simp add: dl_def)
  have 1: "dl loc ys (snd (pop_front loc h))" by (rule dl_pop_front(2)[OF assms(2)])
  have 2: "dl lru xs (snd (pop_front loc h))"
    using dl_pop_front_frame[OF assms(2,1)] assms(3) by (auto simp: sep_def)
  have y: "y \<notin> set (cells_of lru xs)"
    using assms(3) by (auto simp: sep_def cells_of_def)
  show "dl lru (xs @ [y]) (push_back lru y (snd (pop_front loc h)))"
    by (rule dl_push_back[OF 2 y])
  show s: "sep lru (xs @ [y]) loc ys"
    using assms(3) d by (auto simp: sep_def cells_of_def)
  show "dl loc ys (push_back lru y (snd (pop_front loc h)))"
    using dl_push_back_frame[OF 2 1] s by (auto simp: sep_def)
qed

lemma drain_correct:
  assumes "dl lru xs h" "dl loc ys h" "sep lru xs loc ys"
  shows "\<exists>h'. drain (length ys) lru loc h = Some h' \<and> dl lru (xs @ ys) h' \<and> dl loc [] h'"
  using assms
proof (induction ys arbitrary: xs h)
  case Nil
  then show ?case by (simp add: drain.simps dl_is_empty)
next
  case (Cons y ys)
  note st = drain_step[OF Cons.prems]
  obtain h1 where h1: "pop_front loc h = (Some y, h1)"
    using dl_pop_front(1)[OF Cons.prems(2)] by (metis prod.collapse)
  then have "drain (length (y # ys)) lru loc h =
      drain (length ys) lru loc (push_back lru y (snd (pop_front loc h)))"
    using Cons.prems(2) by (subst drain.simps) (simp add: dl_is_empty)
  then show ?case using Cons.IH[OF st] by simp
qed

definition fresh_cell :: "dnode_list \<Rightarrow> nat list \<Rightarrow> dnode_list \<Rightarrow> nat list \<Rightarrow> nat \<Rightarrow> bool" where
  "fresh_cell lru xs loc ys p \<longleftrightarrow> p \<notin> set (cells_of lru xs) \<and> p \<notin> set (cells_of loc ys)"

text \<open>Unlinking a node that sits on one of two separate lists.\<close>

lemma unlink_correct:
  assumes "dl l xs h" "dl m ys h" "sep l xs m ys" "p \<in> set xs"
  shows "dl l (remove1 p xs) (snd (remove_node p h))" "dl m ys (snd (remove_node p h))"
proof -
  obtain as bs where xs: "xs = as @ p # bs" "p \<notin> set as"
    using assms(4) split_list_first[of p xs] by auto
  show "dl l (remove1 p xs) (snd (remove_node p h))"
    using dl_remove_node(1)[of l as p bs h] assms(1) xs by (simp add: remove1_append)
  show "dl m ys (snd (remove_node p h))"
    using dl_remove_node_frame[of l as p bs h m ys] assms xs by (simp add: sep_def)
qed

lemma sep_commute: "sep l xs m ys \<longleftrightarrow> sep m ys l xs"
  by (auto simp: sep_def)

lemma distinct_cells_remove1:
  "distinct (cells_of l xs) \<Longrightarrow> p \<in> set xs \<Longrightarrow> p \<notin> set (cells_of l (remove1 p xs))"
  by (auto simp: cells_of_def)

lemma set_cells_remove1: "set (cells_of l (remove1 p xs)) \<subseteq> set (cells_of l xs)"
  using set_remove1_subset[of p xs] by (auto simp: cells_of_def)

lemma unlink_either:
  assumes "dl lru xs h" "dl loc ys h" "sep lru xs loc ys"
    and "if c then p \<in> set xs \<union> set ys else fresh_cell lru xs loc ys p"
  defines "h1 \<equiv> (if c then snd (remove_node p h) else h)"
  shows "dl lru (remove1 p xs) h1 \<and> dl loc (remove1 p ys) h1 \<and>
    sep lru (remove1 p xs) loc (remove1 p ys) \<and> fresh_cell lru (remove1 p xs) loc (remove1 p ys) p"
proof -
  have d: "distinct (cells_of lru xs)" "distinct (cells_of loc ys)"
    using assms(1,2) by (simp_all add: dl_def)
  have s: "sep lru (remove1 p xs) loc (remove1 p ys)"
    using assms(3) set_cells_remove1[of lru p xs] set_cells_remove1[of loc p ys]
    by (auto simp: sep_def)
  consider (lru) "c" "p \<in> set xs" "p \<notin> set (cells_of loc ys)"
    | (loc) "c" "p \<in> set ys" "p \<notin> set (cells_of lru xs)"
    | (new) "\<not> c" "fresh_cell lru xs loc ys p"
    using assms(3,4) by (auto simp: sep_def cells_of_def split: if_splits)
  then show ?thesis
  proof cases
    case lru
    then show ?thesis
      using unlink_correct[OF assms(1,2,3)] s distinct_cells_remove1[OF d(1)]
      by (auto simp: h1_def fresh_cell_def remove1_idem cells_of_def)
  next
    case loc
    then show ?thesis
      using unlink_correct[OF assms(2,1)] assms(3) s distinct_cells_remove1[OF d(2)]
      by (auto simp: h1_def fresh_cell_def remove1_idem cells_of_def sep_commute)
  next
    case new
    then show ?thesis
      using assms(1,2) s by (auto simp: h1_def fresh_cell_def remove1_idem cells_of_def)
  qed
qed

definition lists_rep :: "dnode_list \<Rightarrow> dnode_list \<Rightarrow> links \<Rightarrow> nat list \<Rightarrow> nat list \<Rightarrow> bool" where
  "lists_rep lru loc h xs ys \<longleftrightarrow> dl lru xs h \<and> dl loc ys h \<and> sep lru xs loc ys"

definition sentinels :: "dnode_list \<Rightarrow> dnode_list \<Rightarrow> nat set" where
  "sentinels lru loc = {lst_front lru, lst_back lru, lst_front loc, lst_back loc}"

lemma collect_node_correct:
  assumes "lists_rep lru loc h xs ys"
    and "c \<longleftrightarrow> p \<in> set xs \<union> set ys" "p \<notin> sentinels lru loc"
  shows "lists_rep lru loc (collect_node loc c p h) (remove1 p xs) (p # remove1 p ys)"
proof -
  let ?h = "if c then snd (remove_node p h) else h"
  have "if c then p \<in> set xs \<union> set ys else fresh_cell lru xs loc ys p"
    using assms(2,3) by (auto simp: fresh_cell_def cells_of_def sentinels_def)
  then have u: "dl lru (remove1 p xs) ?h" "dl loc (remove1 p ys) ?h"
    "sep lru (remove1 p xs) loc (remove1 p ys)" "fresh_cell lru (remove1 p xs) loc (remove1 p ys) p"
    using unlink_either[of lru xs h loc ys c p] assms(1) by (simp_all add: lists_rep_def)
  have s: "sep lru (remove1 p xs) loc (p # remove1 p ys)"
    using u(3,4) by (auto simp: sep_def fresh_cell_def cells_of_def)
  moreover have "dl loc (p # remove1 p ys) (push_front loc p ?h)"
    using dl_push_front u(2,4) by (simp add: fresh_cell_def)
  moreover have "dl lru (remove1 p xs) (push_front loc p ?h)"
    using dl_push_front_frame[OF u(2,1)] s by (simp add: sep_def Int_commute)
  ultimately show ?thesis by (simp add: lists_rep_def collect_node_def)
qed

section \<open>The interface the prefix cache uses\<close>

text \<open>
  Two lists, the LRU list and the local one: taking a node (cached or new) to the front
  of the local list, and appending the local list to the LRU list.
\<close>

fun take_all :: "nat list \<Rightarrow> nat list \<times> nat list \<Rightarrow> nat list \<times> nat list" where
  "take_all [] s = s"
| "take_all (p # ps) (xs, ys) = take_all ps (remove1 p xs, p # remove1 p ys)"

text \<open>The same walk on the heap; \<open>known\<close> are the nodes some list already holds.\<close>

fun take_nodes :: "(bool \<Rightarrow> nat \<Rightarrow> 'h \<Rightarrow> 'h) \<Rightarrow> nat list \<Rightarrow> nat list \<Rightarrow> 'h \<Rightarrow> 'h" where
  "take_nodes take_one known [] h = h"
| "take_nodes take_one known (p # ps) h =
     take_nodes take_one (p # known) ps (take_one (p \<in> set known) p h)"

locale lru_lists =
  fixes rep :: "'h \<Rightarrow> nat list \<Rightarrow> nat list \<Rightarrow> bool"
    and take_node :: "bool \<Rightarrow> nat \<Rightarrow> 'h \<Rightarrow> 'h"
    and append_local :: "nat \<Rightarrow> 'h \<Rightarrow> 'h option"
    and reserved :: "nat set"
  assumes take_node: "rep h xs ys \<Longrightarrow> c = (p \<in> set xs \<union> set ys) \<Longrightarrow> p \<notin> reserved \<Longrightarrow>
      rep (take_node c p h) (remove1 p xs) (p # remove1 p ys)"
    and append_local: "rep h xs ys \<Longrightarrow> \<exists>h'. append_local (length ys) h = Some h' \<and> rep h' (xs @ ys) []"
begin

lemma take_nodes_rep:
  assumes "rep h xs ys" "set known = set xs \<union> set ys" "set ps \<inter> reserved = {}" "distinct xs" "distinct ys"
  shows "rep (take_nodes take_node known ps h) (fst (take_all ps (xs, ys))) (snd (take_all ps (xs, ys)))"
  using assms
proof (induction ps arbitrary: known xs ys h)
  case Nil
  then show ?case by simp
next
  case (Cons p ps)
  have "rep (take_node (p \<in> set known) p h) (remove1 p xs) (p # remove1 p ys)"
    using Cons.prems by (intro take_node) auto
  moreover have "set (p # known) = set (remove1 p xs) \<union> set (p # remove1 p ys)"
    using Cons.prems by auto
  ultimately show ?case
    using Cons.IH[of _ "remove1 p xs" "p # remove1 p ys"] Cons.prems by simp
qed

lemma take_then_append:
  assumes "rep h xs []" "set known = set xs" "set ps \<inter> reserved = {}" "distinct xs"
  shows "\<exists>h'. append_local (length (snd (take_all ps (xs, [])))) (take_nodes take_node known ps h) = Some h' \<and>
    rep h' (fst (take_all ps (xs, [])) @ snd (take_all ps (xs, []))) []"
  using append_local[OF take_nodes_rep[of h xs "[]" known ps]] assms by simp

end

interpretation dnode: lru_lists "lists_rep lru loc" "collect_node loc" "\<lambda>n. drain n lru loc" "sentinels lru loc"
  for lru loc
proof
  fix h xs ys c p
  assume "lists_rep lru loc h xs ys" "c = (p \<in> set xs \<union> set ys)" "p \<notin> sentinels lru loc"
  then show "lists_rep lru loc (collect_node loc c p h) (remove1 p xs) (p # remove1 p ys)"
    by (rule collect_node_correct)
next
  fix h xs ys
  assume rep: "lists_rep lru loc h xs ys"
  then obtain h' where h': "drain (length ys) lru loc h = Some h'" "dl lru (xs @ ys) h'" "dl loc [] h'"
    using drain_correct[of lru xs h loc ys] by (auto simp: lists_rep_def)
  moreover have "distinct (cells_of loc ys)" using rep by (simp add: lists_rep_def dl_def)
  ultimately show "\<exists>h'. drain (length ys) lru loc h = Some h' \<and> lists_rep lru loc h' (xs @ ys) []"
    using rep by (auto simp: lists_rep_def sep_def cells_of_def)
qed

text \<open>Without repetitions the two-list bookkeeping is a filter and a reversal.\<close>

lemma take_all_distinct:
  assumes "distinct ps" "distinct xs" "set ps \<inter> set ys = {}"
  shows "take_all ps (xs, ys) = (filter (\<lambda>x. x \<notin> set ps) xs, rev ps @ ys)"
  using assms
proof (induction ps arbitrary: xs ys)
  case Nil
  then show ?case by simp
next
  case (Cons p ps)
  then have "take_all ps (remove1 p xs, p # remove1 p ys) =
      (filter (\<lambda>x. x \<notin> set ps) (remove1 p xs), rev ps @ p # remove1 p ys)"
    by (intro Cons.IH) (auto simp: remove1_idem)
  then show ?case
    using Cons.prems by (auto simp: distinct_remove1_removeAll removeAll_filter_not_eq remove1_idem
        intro: filter_cong)
qed

end
