(* ===== verification/Prefix_Cache.thy ===== *)
theory Prefix_Cache
  imports Blocks DNode_List
begin

text \<open>
  \<open>core/framework/prefix_cache/prefix_cache.{h,cpp}\<close>. The cache maps the chained hash of
  a token prefix to a node that holds one handle of the block with that prefix's last
  tokens, and keeps the nodes on an LRU list. \<open>lru\<close> is the list \<open>lru_lst_\<close> represents
  (theory \<open>DNode_List\<close> shows that the pointer operations implement the list operations used
  here); \<open>cached_blocks\<close> is the \<open>unordered_map\<close> over key classes (theory \<open>Hash_Keys\<close>);
  \<open>pnodes\<close> is the heap of nodes. \<open>cache_inv\<close> is the invariant of cache and arena together;
  \<open>view\<close> abstracts the cache to a map from key classes to blocks, over which \<open>match\<close>,
  \<open>insert\<close> and \<open>evict\<close> are specified.
\<close>

section \<open>State\<close>

record hash_lib =
  xxh :: "byte list \<Rightarrow> byte list"       \<comment> \<open>\<open>XXH3_128bits_withSeed(., ., FLAGS_xxh3_128bits_seed)\<close>\<close>
  svh :: "byte list \<Rightarrow> 64 word"         \<comment> \<open>\<open>std::hash<std::string_view>\<close>\<close>

text \<open>What the code relies on: \<open>XXH128_hash_t\<close> has 16 bytes.\<close>

definition hash_lib_ok :: "hash_lib \<Rightarrow> bool" where
  "hash_lib_ok H \<longleftrightarrow> (\<forall>bs. length (xxh H bs) = XXH3_128BITS_HASH_VALUE_LEN)"

record pnode =
  nblock :: block
  last_access_time :: int

type_synonym key_cls = "64 word \<times> byte list"

record pcache =
  pc_block_size :: nat
  pc_num_blocks :: nat
  cached_blocks :: "key_cls \<Rightarrow> nat option"
  pnodes :: "nat \<Rightarrow> pnode option"
  next_node :: nat
  lru :: "nat list"
  total_blocks :: nat
  matched_blocks :: nat

definition pcache_new :: "nat \<Rightarrow> pcache" where
  "pcache_new block_size =
     \<lparr>pc_block_size = block_size, pc_num_blocks = 0, cached_blocks = (\<lambda>_. None),
      pnodes = (\<lambda>_. None), next_node = 0, lru = [], total_blocks = 0, matched_blocks = 0\<rparr>"

definition find_key :: "hash_lib \<Rightarrow> xxh3_key \<Rightarrow> pcache \<Rightarrow> nat option" where
  "find_key H key P = cached_blocks P (key_class (svh H) key)"

definition round_down :: "nat \<Rightarrow> nat \<Rightarrow> nat" where
  "round_down n multiple = (n div multiple) * multiple"

text \<open>\<open>pre_hash_value\<close> is null for the first block only.\<close>

definition block_key :: "hash_lib \<Rightarrow> nat \<Rightarrow> xxh3_key \<Rightarrow> int list \<Rightarrow> xxh3_key res" where
  "block_key H i key chunk = xxh3_128bits_hash (xxh H) (if i = 0 then None else Some key) chunk"

section \<open>match\<close>

type_synonym walk = "block list \<times> nat list \<times> arena \<times> pcache"

function match_loop ::
    "hash_lib \<Rightarrow> int list \<Rightarrow> nat \<Rightarrow> nat \<Rightarrow> nat \<Rightarrow> xxh3_key \<Rightarrow> walk \<Rightarrow> walk res" where
  "match_loop H token_ids block_size n_tokens i key (blocks, loc, A, P) =
     (if i < n_tokens \<and> 0 < block_size then
        bindE (slice_res token_ids i (i + block_size)) (\<lambda>chunk.
        bindE (block_key H i key chunk) (\<lambda>token_hash_key.
          case find_key H token_hash_key P of
            None \<Rightarrow> Inr (blocks, loc, A, P)
          | Some p \<Rightarrow>
              (case pnodes P p of
                 None \<Rightarrow> Inl Use_after_free
               | Some nd \<Rightarrow>
                   bindE (block_copy (nblock nd) A) (\<lambda>(b, A').
                     match_loop H token_ids block_size n_tokens (i + block_size) token_hash_key
                       (blocks @ [b], p # remove1 p loc, A', P\<lparr>lru := remove1 p (lru P)\<rparr>)))))
      else Inr (blocks, loc, A, P))"
  by pat_completeness auto
termination
  by (relation "measure (\<lambda>(H, ts, bs, n, i, k, w). n - i)") auto

declare match_loop.simps [simp del]

definition pc_match ::
    "hash_lib \<Rightarrow> int list \<Rightarrow> block list \<Rightarrow> arena \<Rightarrow> pcache \<Rightarrow> (block list \<times> arena \<times> pcache) res" where
  "pc_match H token_ids existed_shared_blocks A P =
     (let block_size = pc_block_size P in
      if block_size = 0 then Inl Div_by_zero
      else let n_tokens = round_down (length token_ids) block_size in
        if n_tokens = 0 then Inr ([], A, P)
        else let n_blocks = n_tokens div block_size;
                 P1 = P\<lparr>total_blocks := total_blocks P + n_blocks\<rparr>;
                 start_index = length existed_shared_blocks * block_size;
                 key = (if existed_shared_blocks = [] then uninit_hash
                        else bhash (last existed_shared_blocks)) in
             bindE (copy_blocks existed_shared_blocks A) (\<lambda>A1.
             bindE (match_loop H token_ids block_size n_tokens start_index key
                      (existed_shared_blocks, [], A1, P1)) (\<lambda>(blocks, loc, A2, P2).
               Inr (blocks, A2, P2\<lparr>lru := lru P2 @ loc,
                                    matched_blocks := matched_blocks P2 + length blocks\<rparr>))))"

section \<open>insert\<close>

type_synonym iwalk = "nat list \<times> xxh3_key list \<times> arena \<times> pcache"

text \<open>The body both \<open>insert\<close> overloads share: refresh the node of a key or add one.\<close>

definition touch_or_add ::
    "hash_lib \<Rightarrow> int \<Rightarrow> xxh3_key \<Rightarrow> block \<Rightarrow> iwalk \<Rightarrow> iwalk res" where
  "touch_or_add H now token_hash_key blk w =
     (case w of (loc, insert_keys, A, P) \<Rightarrow>
      (case find_key H token_hash_key P of
         Some p \<Rightarrow>
           (case pnodes P p of
              None \<Rightarrow> Inl Use_after_free
            | Some nd \<Rightarrow>
                Inr (p # remove1 p loc, insert_keys, A,
                     P\<lparr>pnodes := (pnodes P)(p \<mapsto> nd\<lparr>last_access_time := now\<rparr>),
                       lru := remove1 p (lru P)\<rparr>))
       | None \<Rightarrow>
           let p = next_node P in
           bindE (block_assign False null_block blk A) (\<lambda>(b, A').
             Inr (p # loc, insert_keys @ [token_hash_key], A',
                  P\<lparr>pnodes := (pnodes P)(p \<mapsto> \<lparr>nblock = b, last_access_time = now\<rparr>),
                    next_node := p + 1,
                    cached_blocks := (cached_blocks P)(key_class (svh H) token_hash_key \<mapsto> p),
                    pc_num_blocks := pc_num_blocks P + 1\<rparr>))))"

function insert_loop ::
    "hash_lib \<Rightarrow> int \<Rightarrow> int list \<Rightarrow> nat \<Rightarrow> nat \<Rightarrow> nat \<Rightarrow> nat \<Rightarrow> xxh3_key \<Rightarrow>
      block list \<Rightarrow> iwalk \<Rightarrow> (block list \<times> iwalk) res" where
  "insert_loop H now token_ids block_size n_tokens i block_idx key blocks w =
     (if i < n_tokens \<and> 0 < block_size then
        bindE (slice_res token_ids i (i + block_size)) (\<lambda>chunk.
        bindE (block_key H i key chunk) (\<lambda>token_hash_key.
        bindE (nth_res blocks block_idx) (\<lambda>blk0.
          let blk = set_hash_value token_hash_key blk0;
              blocks' = blocks[block_idx := blk] in
          bindE (touch_or_add H now token_hash_key blk w) (\<lambda>w'.
            insert_loop H now token_ids block_size n_tokens (i + block_size) (block_idx + 1)
              token_hash_key blocks' w'))))
      else Inr (blocks, w))"
  by pat_completeness auto
termination
  by (relation "measure (\<lambda>(H, now, ts, bs, n, i, idx, k, b, w). n - i)") auto

declare insert_loop.simps [simp del]

definition append_local :: "iwalk \<Rightarrow> xxh3_key list \<times> arena \<times> pcache" where
  "append_local w = (case w of (loc, ks, A, P) \<Rightarrow> (ks, A, P\<lparr>lru := lru P @ loc\<rparr>))"

text \<open>\<open>insert(token_ids, blocks, existed_shared_blocks_num, insert_keys)\<close>\<close>

definition pc_insert ::
    "hash_lib \<Rightarrow> int \<Rightarrow> int list \<Rightarrow> block list \<Rightarrow> nat \<Rightarrow> arena \<Rightarrow> pcache \<Rightarrow>
      (nat \<times> block list \<times> xxh3_key list \<times> arena \<times> pcache) res" where
  "pc_insert H now token_ids blocks existed_shared_blocks_num A P =
     (let block_size = pc_block_size P in
      if block_size = 0 then Inl Div_by_zero
      else let n_blocks = min (length token_ids div block_size) (length blocks);
               n_tokens = n_blocks * block_size in
        if n_blocks = 0 then Inr (0, blocks, [], A, P)
        else bindE (check (existed_shared_blocks_num \<le> n_blocks)) (\<lambda>_.
             let key = (if existed_shared_blocks_num = 0 then uninit_hash
                        else bhash (blocks ! (existed_shared_blocks_num - 1))) in
             bindE (insert_loop H now token_ids block_size n_tokens
                      (existed_shared_blocks_num * block_size) existed_shared_blocks_num key blocks
                      ([], [], A, P)) (\<lambda>(blocks', w).
               case append_local w of (ks, A', P') \<Rightarrow> Inr (n_tokens, blocks', ks, A', P'))))"

text \<open>\<open>insert(Slice<Block>& blocks, insert_keys)\<close>\<close>

definition insert_block :: "hash_lib \<Rightarrow> int \<Rightarrow> block \<Rightarrow> iwalk \<Rightarrow> iwalk res" where
  "insert_block H now b w =
     (if \<not> block_is_valid b then Inr w else touch_or_add H now (bhash b) b w)"

definition pc_insert_blocks ::
    "hash_lib \<Rightarrow> int \<Rightarrow> block list \<Rightarrow> arena \<Rightarrow> pcache \<Rightarrow>
      (nat \<times> xxh3_key list \<times> arena \<times> pcache) res" where
  "pc_insert_blocks H now blocks A P =
     bindE (foldE (insert_block H now) blocks ([], [], A, P)) (\<lambda>w.
       case append_local w of (ks, A', P') \<Rightarrow> Inr (length blocks * pc_block_size P, ks, A', P'))"

section \<open>evict\<close>

fun evict_loop ::
    "hash_lib \<Rightarrow> nat \<Rightarrow> nat list \<Rightarrow> nat \<Rightarrow> xxh3_key list \<Rightarrow> arena \<Rightarrow> pcache \<Rightarrow>
      (nat \<times> xxh3_key list \<times> arena \<times> pcache) res" where
  "evict_loop H n_blocks [] evict_count evict_keys A P = Inr (evict_count, evict_keys, A, P)"
| "evict_loop H n_blocks (p # ps) evict_count evict_keys A P =
     (if evict_count < n_blocks then
        (case pnodes P p of
           None \<Rightarrow> Inl Use_after_free
         | Some nd \<Rightarrow>
             bindE (block_is_shared (nblock nd) A) (\<lambda>shared.
               if shared then evict_loop H n_blocks ps evict_count evict_keys A P
               else let key = bhash (nblock nd);
                        P' = P\<lparr>lru := remove1 p (lru P),
                               cached_blocks := (cached_blocks P)(key_class (svh H) key := None),
                               pnodes := (pnodes P)(p := None),
                               pc_num_blocks := size_sub (pc_num_blocks P) 1\<rparr> in
                    bindE (block_destroy (nblock nd) A) (\<lambda>A'.
                      evict_loop H n_blocks ps (evict_count + 1) (evict_keys @ [key]) A' P')))
      else Inr (evict_count, evict_keys, A, P))"

definition pc_evict ::
    "hash_lib \<Rightarrow> nat \<Rightarrow> arena \<Rightarrow> pcache \<Rightarrow> (nat \<times> xxh3_key list \<times> arena \<times> pcache) res" where
  "pc_evict H n_blocks A P =
     (if pc_num_blocks P = 0 \<or> lru P = [] then Inr (0, [], A, P)
      else evict_loop H n_blocks (lru P) 0 [] A P)"

text \<open>\<open>num_blocks()\<close> compares the counter with the size of the map.\<close>

definition pc_num_blocks_checked :: "pcache \<Rightarrow> nat res" where
  "pc_num_blocks_checked P =
     (if pc_num_blocks P = card (dom (cached_blocks P)) then Inr (pc_num_blocks P) else Inl Check_failed)"

section \<open>compute_hash_keys\<close>

fun hash_keys_loop ::
    "hash_lib \<Rightarrow> int list \<Rightarrow> nat \<Rightarrow> nat list \<Rightarrow> block list \<Rightarrow> block list res" where
  "hash_keys_loop H token_ids block_size [] blocks = Inr blocks"
| "hash_keys_loop H token_ids block_size (i # is) blocks =
     bindE (slice_res token_ids (i * block_size) ((i + 1) * block_size)) (\<lambda>chunk.
     bindE (xxh3_128bits_hash (xxh H) (if i = 0 then None else Some (bhash (blocks ! (i - 1)))) chunk) (\<lambda>k.
       hash_keys_loop H token_ids block_size is (blocks[i := set_hash_value k (blocks ! i)])))"

definition compute_hash_keys ::
    "hash_lib \<Rightarrow> int list \<Rightarrow> block list \<Rightarrow> nat \<Rightarrow> (nat \<times> block list) res" where
  "compute_hash_keys H token_ids blocks cached =
     (if blocks = [] then Inr (0, blocks)
      else let block_size = bsize (hd blocks) in
        if block_size = 0 then Inl Div_by_zero
        else let n_blocks = round_up_div (length token_ids) block_size in
          if length blocks > n_blocks then Inr (0, blocks)
          else let full_block_size = min (length token_ids div block_size) (length blocks) in
               bindE (hash_keys_loop H token_ids block_size [cached..<full_block_size] blocks) (\<lambda>bs.
                 Inr (full_block_size, bs)))"

section \<open>Invariant and abstraction\<close>

definition node_block :: "pcache \<Rightarrow> nat \<Rightarrow> block" where
  "node_block P p = nblock (the (pnodes P p))"

definition node_tokens :: "pcache \<Rightarrow> nat list \<Rightarrow> token multiset" where
  "node_tokens P ps = image_mset (\<lambda>p. token_of (node_block P p)) (mset ps)"

definition pc_inv :: "hash_lib \<Rightarrow> pcache \<Rightarrow> nat list \<Rightarrow> bool" where
  "pc_inv H P loc \<longleftrightarrow>
     distinct (lru P @ loc) \<and>
     set (lru P @ loc) = dom (pnodes P) \<and>
     pc_num_blocks P = length (lru P @ loc) \<and>
     (\<forall>p \<in> dom (pnodes P). p < next_node P \<and> owned (node_block P p) \<and> bid (node_block P p) \<noteq> 0 \<and>
        cached_blocks P (key_class (svh H) (bhash (node_block P p))) = Some p) \<and>
     (\<forall>k p. cached_blocks P k = Some p \<longrightarrow>
        p \<in> dom (pnodes P) \<and> k = key_class (svh H) (bhash (node_block P p)))"

text \<open>\<open>T\<close> are the handles held outside the cache.\<close>

definition cache_inv :: "hash_lib \<Rightarrow> arena \<Rightarrow> pcache \<Rightarrow> nat list \<Rightarrow> token multiset \<Rightarrow> bool" where
  "cache_inv H A P loc T \<longleftrightarrow> pc_inv H P loc \<and> arena_inv A (T + node_tokens P (lru P @ loc))"

definition view :: "pcache \<Rightarrow> key_cls \<Rightarrow> block option" where
  "view P k = map_option (node_block P) (cached_blocks P k)"

end
