(* ===== verification/Prefix_Cache_Correct.thy ===== *)
theory Prefix_Cache_Correct
  imports Prefix_Cache
begin

text \<open>
  Correctness of the prefix cache: no operation fails under the invariant, each keeps it,
  \<open>match\<close> returns the blocks of the longest cached chain, \<open>insert\<close> is insertion of the
  missing keys in the abstract map, \<open>evict\<close> removes unshared nodes in LRU order and frees
  one block per node.
\<close>

section \<open>The invariant under list and node updates\<close>

lemma hash_lib_ok_len: "hash_lib_ok H \<Longrightarrow> length (xxh H bs) = 16"
  by (simp add: hash_lib_ok_def XXH3_128BITS_HASH_VALUE_LEN_def)

lemma node_block_lru [simp]: "node_block (P\<lparr>lru := x\<rparr>) p = node_block P p"
  by (simp add: node_block_def)

lemma node_tokens_lru [simp]: "node_tokens (P\<lparr>lru := x\<rparr>) ps = node_tokens P ps"
  by (simp add: node_tokens_def)

lemma node_tokens_mset: "mset ps = mset qs \<Longrightarrow> node_tokens P ps = node_tokens P qs"
  by (simp add: node_tokens_def)

lemma node_tokens_member: "p \<in> set ps \<Longrightarrow> token_of (node_block P p) \<in># node_tokens P ps"
  by (auto simp: node_tokens_def)

lemma pc_inv_relist:
  assumes "pc_inv H P loc" "mset (l @ loc') = mset (lru P @ loc)"
  shows "pc_inv H (P\<lparr>lru := l\<rparr>) loc'"
  using assms mset_eq_imp_distinct_iff[OF assms(2)] mset_eq_setD[OF assms(2)]
    mset_eq_length[OF assms(2)]
  by (simp add: pc_inv_def)

lemma cache_inv_relist:
  assumes "cache_inv H A P loc T" "mset (l @ loc') = mset (lru P @ loc)"
  shows "cache_inv H A (P\<lparr>lru := l\<rparr>) loc' T"
  using assms pc_inv_relist[of H P loc l loc'] node_tokens_mset[OF assms(2), of P]
  by (simp add: cache_inv_def)

lemma mset_take_node:
  "p \<in> set xs \<union> set ys \<Longrightarrow> distinct (xs @ ys) \<Longrightarrow>
    mset (remove1 p xs @ p # remove1 p ys) = mset (xs @ ys)"
  by (cases "p \<in> set xs") (auto simp: remove1_idem disjoint_iff)

lemma pc_inv_lists:
  "pc_inv H P loc \<Longrightarrow> distinct (lru P @ loc) \<and> set (lru P) \<union> set loc = dom (pnodes P)"
  by (simp add: pc_inv_def)

lemma pc_inv_node:
  assumes "pc_inv H P loc" "pnodes P p = Some nd"
  shows "nblock nd = node_block P p" "owned (node_block P p)" "bid (node_block P p) \<noteq> 0"
    and "p \<in> set (lru P) \<union> set loc" "p < next_node P"
    and "cached_blocks P (key_class (svh H) (bhash (node_block P p))) = Some p"
  using assms unfolding pc_inv_def by (auto simp: node_block_def dom_def)

lemma pc_inv_find:
  assumes "pc_inv H P loc" "find_key H k P = Some p"
  shows "\<exists>nd. pnodes P p = Some nd" "key_class (svh H) (bhash (node_block P p)) = key_class (svh H) k"
  using assms unfolding pc_inv_def find_key_def by (metis domD)+

lemma cache_inv_take:
  assumes "cache_inv H A P loc T" "pnodes P p = Some nd"
  shows "cache_inv H A (P\<lparr>lru := remove1 p (lru P)\<rparr>) (p # remove1 p loc) T"
proof (rule cache_inv_relist[OF assms(1)])
  have "pc_inv H P loc" using assms(1) by (simp add: cache_inv_def)
  then show "mset (remove1 p (lru P) @ p # remove1 p loc) = mset (lru P @ loc)"
    using pc_inv_node(4)[OF _ assms(2)] pc_inv_lists by (intro mset_take_node) blast+
qed

lemma cache_inv_stats [simp]:
  "cache_inv H A (P\<lparr>total_blocks := x\<rparr>) loc T = cache_inv H A P loc T"
  "cache_inv H A (P\<lparr>matched_blocks := x\<rparr>) loc T = cache_inv H A P loc T"
  by (simp_all add: cache_inv_def pc_inv_def node_block_def node_tokens_def)

section \<open>Chains of keys\<close>

definition pure_key :: "hash_lib \<Rightarrow> nat \<Rightarrow> xxh3_key \<Rightarrow> int list \<Rightarrow> xxh3_key" where
  "pure_key H i key chunk = xxh H ((if i = 0 then [] else take XXH3_128BITS_HASH_VALUE_LEN key) @ token_bytes chunk)"

lemma block_key_pure:
  "4 * length chunk + 16 < 1024 \<Longrightarrow> block_key H i key chunk = Inr (pure_key H i key chunk)"
  by (simp add: block_key_def xxh3_128bits_hash_def pure_key_def XXH3_128BITS_HASH_VALUE_LEN_def)

function chain_keys :: "hash_lib \<Rightarrow> int list \<Rightarrow> nat \<Rightarrow> nat \<Rightarrow> nat \<Rightarrow> xxh3_key \<Rightarrow> xxh3_key list" where
  "chain_keys H ts bs n i key =
     (if i < n \<and> 0 < bs
      then let k = pure_key H i key (sub_slice ts i (i + bs)) in k # chain_keys H ts bs n (i + bs) k
      else [])"
  by pat_completeness auto
termination
  by (relation "measure (\<lambda>(H, ts, bs, n, i, k). n - i)") auto

declare chain_keys.simps [simp del]

text \<open>Positions inside a whole number of blocks.\<close>

definition aligned :: "nat \<Rightarrow> nat \<Rightarrow> nat \<Rightarrow> bool" where
  "aligned bs n i \<longleftrightarrow> 0 < bs \<and> 4 * bs + 16 < 1024 \<and> bs dvd n \<and> bs dvd i"

lemma aligned_step: "aligned bs n i \<Longrightarrow> aligned bs n (i + bs)"
  by (simp add: aligned_def)

lemma aligned_le: "aligned bs n i \<Longrightarrow> i < n \<Longrightarrow> i + bs \<le> n"
  unfolding aligned_def
  by (metis add.commute dvd_diff_nat dvd_imp_le less_diff_conv linorder_not_le nat_less_le
      le_add_diff_inverse2 zero_less_diff add_le_cancel_right)

lemma length_chain_keys:
  "aligned bs n i \<Longrightarrow> i \<le> n \<Longrightarrow> length (chain_keys H ts bs n i key) * bs = n - i"
proof (induction H ts bs n i key rule: chain_keys.induct)
  case (1 H ts bs n i key)
  show ?case
  proof (cases "i < n")
    case True
    have "i + bs \<le> n" by (rule aligned_le[OF "1.prems"(1) True])
    then show ?thesis
      using 1 True aligned_step[OF "1.prems"(1)]
      by (subst chain_keys.simps) (auto simp: aligned_def Let_def)
  next
    case False
    then show ?thesis using "1.prems" by (subst chain_keys.simps) simp
  qed
qed

section \<open>match\<close>

lemma block_copy_inv:
  assumes "cache_inv H A P loc T" "pnodes P p = Some nd"
  shows "\<exists>A'. block_copy (nblock nd) A = Inr (nblock nd, A') \<and>
    cache_inv H A' P loc (add_mset (token_of (nblock nd)) T) \<and>
    num_free_blocks A' = num_free_blocks A \<and> free_blocks A' = free_blocks A \<and>
    arena_block_size A' = arena_block_size A"
proof -
  have inv: "pc_inv H P loc" "arena_inv A (T + node_tokens P (lru P @ loc))"
    using assms(1) by (simp_all add: cache_inv_def)
  note nd = pc_inv_node[OF inv(1) assms(2)]
  have "token_of (nblock nd) \<in># T + node_tokens P (lru P @ loc)"
    using nd(1,4) node_tokens_member[of p "lru P @ loc" P] by auto
  then show ?thesis
    using inc_ref_count_inv[OF inv(2)] nd(1,2) inv(1)
    by (auto simp: block_copy_def cache_inv_def)
qed

definition hit_block :: "hash_lib \<Rightarrow> pcache \<Rightarrow> xxh3_key \<Rightarrow> block" where
  "hit_block H P k = node_block P (the (find_key H k P))"

definition hits :: "hash_lib \<Rightarrow> pcache \<Rightarrow> xxh3_key list \<Rightarrow> block list" where
  "hits H P ks = map (hit_block H P) (takeWhile (\<lambda>k. find_key H k P \<noteq> None) ks)"

definition same_arena :: "arena \<Rightarrow> arena \<Rightarrow> bool" where
  "same_arena A A' \<longleftrightarrow> num_free_blocks A' = num_free_blocks A \<and> free_blocks A' = free_blocks A \<and>
     arena_block_size A' = arena_block_size A"

lemma same_arena_refl [simp]: "same_arena A A"
  by (simp add: same_arena_def)

lemma same_arena_trans: "same_arena A B \<Longrightarrow> same_arena B C \<Longrightarrow> same_arena A C"
  by (simp add: same_arena_def)

definition same_nodes :: "pcache \<Rightarrow> pcache \<Rightarrow> bool" where
  "same_nodes P P' \<longleftrightarrow> cached_blocks P' = cached_blocks P \<and> pnodes P' = pnodes P \<and>
     pc_block_size P' = pc_block_size P \<and> pc_num_blocks P' = pc_num_blocks P"

lemma same_nodes_hits: "same_nodes P P' \<Longrightarrow> hits H P' ks = hits H P ks"
  by (simp add: same_nodes_def hits_def hit_block_def node_block_def find_key_def)

lemma same_nodes_view: "same_nodes P P' \<Longrightarrow> view P' = view P"
  by (auto simp: same_nodes_def view_def node_block_def fun_eq_iff intro: option.map_cong)

lemma hits_stats [simp]: "hits H (P\<lparr>total_blocks := x\<rparr>) ks = hits H P ks"
  by (rule same_nodes_hits) (simp add: same_nodes_def)

lemma match_loop_correct:
  assumes "cache_inv H A P loc (tokens_of blocks + T)" "list_all owned blocks"
    and "aligned bs n i" "n \<le> length ts"
  shows "\<exists>loc' A' P'. match_loop H ts bs n i key (blocks, loc, A, P) =
      Inr (blocks @ hits H P (chain_keys H ts bs n i key), loc', A', P') \<and>
    cache_inv H A' P' loc' (tokens_of (blocks @ hits H P (chain_keys H ts bs n i key)) + T) \<and>
    list_all owned (blocks @ hits H P (chain_keys H ts bs n i key)) \<and>
    same_nodes P P' \<and> same_arena A A' \<and> matched_blocks P' = matched_blocks P"
  using assms
proof (induction "n - i" arbitrary: i key blocks loc A P rule: less_induct)
  case less
  show ?case
  proof (cases "i < n")
    case False
    then show ?thesis
      using less.prems
      by (subst match_loop.simps) (simp add: chain_keys.simps[of H ts bs n i] hits_def same_nodes_def)
  next
    case True
    let ?k = "pure_key H i key (sub_slice ts i (i + bs))"
    have bs: "0 < bs" "4 * bs + 16 < 1024" "i + bs \<le> length ts"
      using less.prems aligned_le[OF less.prems(3) True] by (auto simp: aligned_def)
    have key: "block_key H i key (sub_slice ts i (i + bs)) = Inr ?k"
      using bs by (intro block_key_pure) simp
    note loop = match_loop.simps[of H ts bs n i key blocks loc A P]
    note chain = chain_keys.simps[of H ts bs n i key]
    show ?thesis
    proof (cases "find_key H ?k P")
      case None
      then show ?thesis
        using less.prems True bs key loop chain by (simp add: hits_def Let_def same_nodes_def)
    next
      case (Some p)
      have inv: "pc_inv H P loc" using less.prems(1) by (simp add: cache_inv_def)
      obtain nd where nd: "pnodes P p = Some nd" using pc_inv_find(1)[OF inv Some] by blast
      note nb = pc_inv_node[OF inv nd]
      obtain A1 where A1: "block_copy (nblock nd) A = Inr (nblock nd, A1)"
        "cache_inv H A1 P loc (add_mset (token_of (nblock nd)) (tokens_of blocks + T))"
        "same_arena A A1"
        using block_copy_inv[OF less.prems(1) nd] by (auto simp: same_arena_def)
      let ?P = "P\<lparr>lru := remove1 p (lru P)\<rparr>" and ?bl = "blocks @ [nblock nd]"
      have c1: "cache_inv H A1 ?P (p # remove1 p loc) (tokens_of ?bl + T)"
        using cache_inv_take[OF A1(2) nd] by simp
      have own: "list_all owned ?bl" using less.prems(2) nb by simp
      have eq: "match_loop H ts bs n i key (blocks, loc, A, P) =
          match_loop H ts bs n (i + bs) ?k (?bl, p # remove1 p loc, A1, ?P)"
        using loop True bs key Some nd A1(1) by simp
      have hb: "hits H P (chain_keys H ts bs n i key) =
          nblock nd # hits H ?P (chain_keys H ts bs n (i + bs) ?k)"
        using chain True bs Some nb(1)
        by (simp add: Let_def hits_def hit_block_def find_key_def node_block_def)
      have "n - (i + bs) < n - i" using True bs by simp
      from less.hyps[OF this c1 own aligned_step[OF less.prems(3)] less.prems(4), of ?k]
      show ?thesis
        using eq hb A1(3) by (auto simp: same_nodes_def same_arena_def)
    qed
  qed
qed

lemma match_loop_done: "n \<le> i \<Longrightarrow> match_loop H ts bs n i key w = Inr w"
  by (cases w) (simp add: match_loop.simps)

definition start_key :: "block list \<Rightarrow> xxh3_key" where
  "start_key bs = (if bs = [] then uninit_hash else bhash (last bs))"

definition match_keys :: "hash_lib \<Rightarrow> pcache \<Rightarrow> int list \<Rightarrow> block list \<Rightarrow> xxh3_key list" where
  "match_keys H P ts existed =
     chain_keys H ts (pc_block_size P) (round_down (length ts) (pc_block_size P))
       (length existed * pc_block_size P) (start_key existed)"

text \<open>The block sizes the hash buffer allows.\<close>

definition size_ok :: "nat \<Rightarrow> bool" where
  "size_ok bs \<longleftrightarrow> 0 < bs \<and> 4 * bs + 16 < 1024"

lemma round_down_le: "round_down n m \<le> n"
  by (simp add: round_down_def)

lemma pc_match_correct:
  assumes "cache_inv H A P [] T" "size_ok (pc_block_size P)"
    and "list_all owned existed" "set_mset (tokens_of existed) \<subseteq> set_mset T"
    and "pc_block_size P \<le> length ts"
  defines "found \<equiv> existed @ hits H P (match_keys H P ts existed)"
  shows "\<exists>A' P'. pc_match H ts existed A P = Inr (found, A', P') \<and>
    cache_inv H A' P' [] (tokens_of found + T) \<and> list_all owned found \<and>
    same_nodes P P' \<and> same_arena A A'"
proof -
  let ?bs = "pc_block_size P" and ?n = "round_down (length ts) (pc_block_size P)"
  let ?P1 = "P\<lparr>total_blocks := total_blocks P + ?n div ?bs\<rparr>"
  have al: "aligned ?bs ?n (length existed * ?bs)"
    using assms(2) by (auto simp: aligned_def size_ok_def round_down_def)
  have n0: "?n \<noteq> 0" "?bs \<noteq> 0"
    using assms(2,5) by (auto simp: round_down_def size_ok_def div_eq_0_iff)
  have ai: "arena_inv A (T + node_tokens P (lru P @ []))" and pi: "pc_inv H P []"
    using assms(1) by (simp_all add: cache_inv_def)
  obtain A1 where A1: "copy_blocks existed A = Inr A1"
    "arena_inv A1 (tokens_of existed + (T + node_tokens P (lru P @ [])))"
    using arena_handles.copy_all[OF ai _ assms(3)] assms(4) by (auto simp: copy_blocks_def)
  have sa: "same_arena A A1"
    using A1(1) unfolding copy_blocks_def
    by (rule foldE_invar) (auto simp: same_arena_def inc_ref_count_def split: option.splits)
  have c1: "cache_inv H A1 ?P1 [] (tokens_of existed + T)"
    using A1(2) pi by (simp add: cache_inv_def[of H A1 P] add.assoc)
  from match_loop_correct[OF c1 assms(3) al round_down_le, of "start_key existed"]
  obtain loc A2 P2 where m: "match_loop H ts ?bs ?n (length existed * ?bs) (start_key existed)
      (existed, [], A1, ?P1) = Inr (found, loc, A2, P2)"
    "cache_inv H A2 P2 loc (tokens_of found + T)" "list_all owned found"
    "same_nodes ?P1 P2" "same_arena A1 A2"
    unfolding found_def match_keys_def by auto
  have "cache_inv H A2 (P2\<lparr>lru := lru P2 @ loc\<rparr>) [] (tokens_of found + T)"
    by (rule cache_inv_relist[OF m(2)]) simp
  then have c2: "cache_inv H A2 (P2\<lparr>lru := lru P2 @ loc, matched_blocks := x\<rparr>) [] (tokens_of found + T)" for x
    by simp
  show ?thesis
    using n0 A1(1) m(1,3,4,5) c2 sa
    by (auto simp: pc_match_def Let_def start_key_def same_nodes_def intro: same_arena_trans)
qed

lemma pc_match_short: "0 < pc_block_size P \<Longrightarrow> length ts < pc_block_size P \<Longrightarrow>
    pc_match H ts existed A P = Inr ([], A, P)"
  by (simp add: pc_match_def Let_def round_down_def)

section \<open>insert\<close>

lemma node_block_touch:
  "pnodes P p = Some nd \<Longrightarrow>
    node_block (P\<lparr>pnodes := (pnodes P)(p \<mapsto> nd\<lparr>last_access_time := t\<rparr>), lru := l\<rparr>) q = node_block P q"
  by (simp add: node_block_def)

lemma pc_inv_touch:
  assumes "pc_inv H P loc" "pnodes P p = Some nd"
  shows "pc_inv H (P\<lparr>pnodes := (pnodes P)(p \<mapsto> nd\<lparr>last_access_time := t\<rparr>)\<rparr>) loc"
    and "node_tokens (P\<lparr>pnodes := (pnodes P)(p \<mapsto> nd\<lparr>last_access_time := t\<rparr>)\<rparr>) ps = node_tokens P ps"
proof -
  let ?P = "P\<lparr>pnodes := (pnodes P)(p \<mapsto> nd\<lparr>last_access_time := t\<rparr>)\<rparr>"
  have nb: "node_block ?P = node_block P"
    using assms(2) by (simp add: node_block_def fun_eq_iff)
  have "dom (pnodes ?P) = dom (pnodes P)" using assms(2) by auto
  then show "pc_inv H ?P loc" using assms(1) unfolding pc_inv_def by (simp add: nb)
  show "node_tokens ?P ps = node_tokens P ps" by (simp add: node_tokens_def nb)
qed

lemma view_touch:
  "pnodes P p = Some nd \<Longrightarrow> view (P\<lparr>pnodes := (pnodes P)(p \<mapsto> nd\<lparr>last_access_time := t\<rparr>), lru := l\<rparr>) = view P"
  by (auto simp: view_def node_block_def fun_eq_iff intro!: option.map_cong)

text \<open>A key that is present: the node moves, the map and the handles stay.\<close>

lemma touch_present:
  assumes "cache_inv H A P loc T" "find_key H k P = Some p"
  shows "\<exists>P'. touch_or_add H now k blk (loc, ks, A, P) = Inr (p # remove1 p loc, ks, A, P') \<and>
    cache_inv H A P' (p # remove1 p loc) T \<and> view P' = view P \<and> pc_block_size P' = pc_block_size P"
proof -
  have pi: "pc_inv H P loc" using assms(1) by (simp add: cache_inv_def)
  obtain nd where nd: "pnodes P p = Some nd" using pc_inv_find(1)[OF pi assms(2)] by blast
  let ?P = "P\<lparr>pnodes := (pnodes P)(p \<mapsto> nd\<lparr>last_access_time := now\<rparr>)\<rparr>"
  have "cache_inv H A ?P loc T"
    using assms(1) pc_inv_touch[OF pi nd] by (simp add: cache_inv_def)
  from cache_inv_take[OF this, of p "nd\<lparr>last_access_time := now\<rparr>"]
  have "cache_inv H A (?P\<lparr>lru := remove1 p (lru P)\<rparr>) (p # remove1 p loc) T" by simp
  then show ?thesis
    using assms(2) nd view_touch[OF nd]
    by (simp add: touch_or_add_def)
qed

text \<open>A key that is absent: a new node with one more handle of the block.\<close>

lemma add_absent:
  assumes "cache_inv H A P loc T" "find_key H k P = None"
    and "token_of blk \<in># T" "owned blk" "bid blk \<noteq> 0" "key_class (svh H) (bhash blk) = key_class (svh H) k"
  shows "\<exists>A' P'. touch_or_add H now k blk (loc, ks, A, P) = Inr (next_node P # loc, ks @ [k], A', P') \<and>
    cache_inv H A' P' (next_node P # loc) T \<and> view P' = (view P)(key_class (svh H) k \<mapsto> blk) \<and>
    pc_block_size P' = pc_block_size P \<and> same_arena A A'"
proof -
  let ?c = "key_class (svh H) k" and ?p = "next_node P"
  have pi: "pc_inv H P loc" and ai: "arena_inv A (T + node_tokens P (lru P @ loc))"
    using assms(1) by (simp_all add: cache_inv_def)
  obtain A1 where A1: "inc_ref_count blk A = Inr A1"
    "arena_inv A1 (add_mset (token_of blk) (T + node_tokens P (lru P @ loc)))" "same_arena A A1"
    using inc_ref_count_inv[OF ai _ assms(4)] assms(3) by (auto simp: same_arena_def)
  define P' where "P' = P\<lparr>pnodes := (pnodes P)(?p \<mapsto> \<lparr>nblock = blk, last_access_time = now\<rparr>),
    next_node := ?p + 1, cached_blocks := (cached_blocks P)(?c \<mapsto> ?p), pc_num_blocks := pc_num_blocks P + 1\<rparr>"
  have eq: "touch_or_add H now k blk (loc, ks, A, P) = Inr (?p # loc, ks @ [k], A1, P')"
    using assms(2) A1(1)
    by (simp add: touch_or_add_def Let_def block_assign_def dec_ref_count_def null_block_def P'_def)
  have fresh: "?p \<notin> dom (pnodes P)" "?p \<notin> set (lru P @ loc)"
    using pi unfolding pc_inv_def by blast+
  have nb: "node_block P' q = (if q = ?p then blk else node_block P q)" for q
    by (simp add: P'_def node_block_def)
  have nocls: "cached_blocks P ?c = None" using assms(2) by (simp add: find_key_def)
  have dom: "dom (pnodes P') = insert ?p (dom (pnodes P))" by (simp add: P'_def)
  have fields: "next_node P' = ?p + 1" "cached_blocks P' = (cached_blocks P)(?c \<mapsto> ?p)"
    by (simp_all add: P'_def)
  have "pc_inv H P' (?p # loc)"
    unfolding pc_inv_def
  proof (intro conjI ballI allI impI)
    show "distinct (lru P' @ ?p # loc)" "set (lru P' @ ?p # loc) = dom (pnodes P')"
      "pc_num_blocks P' = length (lru P' @ ?p # loc)"
      using pi fresh dom by (auto simp: pc_inv_def P'_def)
    fix q assume "q \<in> dom (pnodes P')"
    then have q: "q = ?p \<or> q \<noteq> ?p \<and> q \<in> dom (pnodes P)" using dom by auto
    have old: "q \<in> dom (pnodes P) \<Longrightarrow> q < ?p \<and> owned (node_block P q) \<and> bid (node_block P q) \<noteq> 0 \<and>
        cached_blocks P (key_class (svh H) (bhash (node_block P q))) = Some q"
      using pi by (simp add: pc_inv_def)
    show "q < next_node P'" using q old unfolding fields by (metis less_add_one less_trans)
    show "owned (node_block P' q)" "bid (node_block P' q) \<noteq> 0" using q old assms(4,5) by (auto simp: nb)
    show "cached_blocks P' (key_class (svh H) (bhash (node_block P' q))) = Some q"
    proof (cases "q = ?p")
      case False
      then have "cached_blocks P (key_class (svh H) (bhash (node_block P q))) = Some q" using q old by simp
      then show ?thesis using False nocls by (auto simp: nb fields)
    qed (simp add: nb fields assms(6))
  next
    fix c q assume c: "cached_blocks P' c = Some q"
    have old: "cached_blocks P c = Some q \<Longrightarrow>
        q \<in> dom (pnodes P) \<and> c = key_class (svh H) (bhash (node_block P q))"
      using pi unfolding pc_inv_def by blast
    have "c = ?c \<and> q = ?p \<or> cached_blocks P c = Some q"
      using c by (auto simp: fields split: if_splits)
    then consider "c = ?c" "q = ?p"
      | "q \<in> dom (pnodes P)" "c = key_class (svh H) (bhash (node_block P q))" "q \<noteq> ?p"
      using old fresh(1) by blast
    then show "q \<in> dom (pnodes P')" "c = key_class (svh H) (bhash (node_block P' q))"
      using assms(6) by (cases; simp add: dom nb)+
  qed
  moreover have "node_tokens P' (lru P' @ ?p # loc) = add_mset (token_of blk) (node_tokens P (lru P @ loc))"
  proof -
    have "image_mset (\<lambda>q. token_of (node_block P' q)) (mset (lru P @ loc)) =
        image_mset (\<lambda>q. token_of (node_block P q)) (mset (lru P @ loc))"
      using fresh(2) by (intro image_mset_cong) (auto simp: nb)
    moreover have "lru P' = lru P" by (simp add: P'_def)
    ultimately show ?thesis by (simp add: node_tokens_def nb)
  qed
  ultimately have "cache_inv H A1 P' (?p # loc) T"
    using A1(2) by (simp add: cache_inv_def)
  moreover have "view P' = (view P)(?c \<mapsto> blk)"
  proof
    fix c
    have "cached_blocks P c \<noteq> Some ?p" using pi fresh unfolding pc_inv_def by blast
    then show "view P' c = ((view P)(?c \<mapsto> blk)) c"
      by (cases "cached_blocks P c") (auto simp: view_def P'_def node_block_def)
  qed
  ultimately show ?thesis using eq A1(3) by (auto simp: P'_def)
qed

lemma view_None_iff: "view P (key_class (svh H) k) = None \<longleftrightarrow> find_key H k P = None"
  by (simp add: view_def find_key_def)

definition put_new :: "hash_lib \<Rightarrow> xxh3_key \<Rightarrow> block \<Rightarrow> (key_cls \<Rightarrow> block option) \<Rightarrow> (key_cls \<Rightarrow> block option)" where
  "put_new H k b v = (if v (key_class (svh H) k) = None then v(key_class (svh H) k \<mapsto> b) else v)"

lemma touch_or_add_correct:
  assumes "cache_inv H A P loc T"
    and "token_of blk \<in># T" "owned blk" "bid blk \<noteq> 0" "key_class (svh H) (bhash blk) = key_class (svh H) k"
  shows "\<exists>loc' ks' A' P'. touch_or_add H now k blk (loc, ks, A, P) = Inr (loc', ks', A', P') \<and>
    cache_inv H A' P' loc' T \<and> view P' = put_new H k blk (view P) \<and>
    pc_block_size P' = pc_block_size P \<and> same_arena A A'"
proof (cases "find_key H k P")
  case None
  then show ?thesis
    using add_absent[OF assms(1) None assms(2-5), of now ks] view_None_iff[of P H k]
    by (auto simp: put_new_def)
next
  case (Some p)
  then show ?thesis
    using touch_present[OF assms(1) Some, of now blk ks] view_None_iff[of P H k]
    by (auto simp: put_new_def)
qed

fun put_all :: "hash_lib \<Rightarrow> (xxh3_key \<times> block) list \<Rightarrow> (key_cls \<Rightarrow> block option) \<Rightarrow> (key_cls \<Rightarrow> block option)" where
  "put_all H [] v = v"
| "put_all H ((k, b) # xs) v = put_all H xs (put_new H k b v)"

lemma put_new_mono: "v c \<noteq> None \<Longrightarrow> put_new H k b v c = v c"
  by (auto simp: put_new_def)

lemma put_all_mono: "v c \<noteq> None \<Longrightarrow> put_all H xs v c = v c"
  by (induction H xs v rule: put_all.induct) (auto simp: put_new_mono)

lemma put_all_present: "(k, b) \<in> set xs \<Longrightarrow> put_all H xs v (key_class (svh H) k) \<noteq> None"
proof (induction H xs v rule: put_all.induct)
  case (2 H k' b' xs v)
  show ?case
  proof (cases "(k, b) = (k', b')")
    case True
    have "put_new H k b v (key_class (svh H) k) \<noteq> None" by (simp add: put_new_def)
    then show ?thesis using True put_all_mono by (metis put_all.simps(2) prod.inject)
  next
    case False
    then show ?thesis using 2 by auto
  qed
qed simp

text \<open>The pairs the insertion loop handles: each key with its block, hash set.\<close>

definition keyed :: "xxh3_key list \<Rightarrow> block list \<Rightarrow> (xxh3_key \<times> block) list" where
  "keyed ks bs = map (\<lambda>(k, b). (k, set_hash_value k b)) (zip ks bs)"

definition cacheable :: "token multiset \<Rightarrow> block \<Rightarrow> bool" where
  "cacheable T b \<longleftrightarrow> owned b \<and> bid b \<noteq> 0 \<and> token_of b \<in># T"

lemma set_hash_value_cacheable [simp]: "cacheable T (set_hash_value k b) = cacheable T b"
  by (simp add: cacheable_def)

lemma insert_loop_correct:
  assumes "cache_inv H A P loc T" "hash_lib_ok H" "aligned bs n i" "n \<le> length ts"
    and "list_all (cacheable T) blocks" "i = idx * bs" "n \<le> length blocks * bs"
  shows "\<exists>blocks' loc' ks' A' P'.
    insert_loop H now ts bs n i idx key blocks (loc, ks, A, P) = Inr (blocks', loc', ks', A', P') \<and>
    cache_inv H A' P' loc' T \<and>
    view P' = put_all H (keyed (chain_keys H ts bs n i key) (drop idx blocks)) (view P) \<and>
    pc_block_size P' = pc_block_size P \<and> same_arena A A' \<and>
    map token_of blocks' = map token_of blocks \<and> list_all (cacheable T) blocks'"
  using assms
proof (induction "n - i" arbitrary: i idx key blocks loc ks A P rule: less_induct)
  case less
  note loop = insert_loop.simps[of H now ts bs n i idx key blocks "(loc, ks, A, P)"]
  note chain = chain_keys.simps[of H ts bs n i key]
  show ?case
  proof (cases "i < n")
    case False
    then show ?thesis using less.prems loop chain by (auto simp: keyed_def)
  next
    case True
    let ?k = "pure_key H i key (sub_slice ts i (i + bs))"
    have bs: "0 < bs" "i + bs \<le> length ts" "4 * bs + 16 < 1024"
      using less.prems aligned_le[OF less.prems(3) True] by (auto simp: aligned_def)
    have key: "block_key H i key (sub_slice ts i (i + bs)) = Inr ?k"
      using bs by (intro block_key_pure) simp
    have "idx * bs < length blocks * bs" using True less.prems(6,7) by linarith
    then have idx: "idx < length blocks" by simp
    let ?b = "set_hash_value ?k (blocks ! idx)" and ?bl = "blocks[idx := set_hash_value ?k (blocks ! idx)]"
    have cb: "cacheable T (blocks ! idx)" using less.prems(5) idx by (simp add: list_all_length)
    have kl: "take 16 ?k = ?k" using hash_lib_ok_len[OF less.prems(2)] by (simp add: pure_key_def)
    obtain loc1 ks1 A1 P1 where t: "touch_or_add H now ?k ?b (loc, ks, A, P) = Inr (loc1, ks1, A1, P1)"
      "cache_inv H A1 P1 loc1 T" "view P1 = put_new H ?k ?b (view P)"
      "pc_block_size P1 = pc_block_size P" "same_arena A A1"
      using touch_or_add_correct[OF less.prems(1), of ?b ?k now ks] cb kl
      by (auto simp: cacheable_def XXH3_128BITS_HASH_VALUE_LEN_def)
    have eq: "insert_loop H now ts bs n i idx key blocks (loc, ks, A, P) =
        insert_loop H now ts bs n (i + bs) (idx + 1) ?k ?bl (loc1, ks1, A1, P1)"
      using loop True bs key idx t(1) by (simp add: Let_def)
    have bl: "list_all (cacheable T) ?bl" "map token_of ?bl = map token_of blocks"
      using less.prems(5) cb idx
      by (auto simp: list_all_length nth_list_update map_update list_update_same_conv)
    have dr: "drop (Suc idx) ?bl = drop (Suc idx) blocks" by simp
    have ke: "keyed (chain_keys H ts bs n i key) (drop idx blocks) =
        (?k, ?b) # keyed (chain_keys H ts bs n (i + bs) ?k) (drop (idx + 1) ?bl)"
      using chain True bs idx by (simp add: keyed_def Let_def Cons_nth_drop_Suc[symmetric])
    have "n - (i + bs) < n - i" using True bs by simp
    from less.hyps[OF this t(2) less.prems(2) aligned_step[OF less.prems(3)] less.prems(4) bl(1), of "idx + 1" ?k ks1]
    show ?thesis
      using eq ke t(3,4,5) bl(2) less.prems(6,7) by (auto intro: same_arena_trans)
  qed
qed

definition insert_keys_of :: "hash_lib \<Rightarrow> pcache \<Rightarrow> int list \<Rightarrow> block list \<Rightarrow> nat \<Rightarrow> xxh3_key list" where
  "insert_keys_of H P ts blocks m =
     chain_keys H ts (pc_block_size P) (min (length ts div pc_block_size P) (length blocks) * pc_block_size P)
       (m * pc_block_size P) (if m = 0 then uninit_hash else bhash (blocks ! (m - 1)))"

lemma append_local_inv:
  assumes "cache_inv H A P loc T"
  shows "cache_inv H A (P\<lparr>lru := lru P @ loc\<rparr>) [] T" "view (P\<lparr>lru := lru P @ loc\<rparr>) = view P"
  using cache_inv_relist[OF assms, of "lru P @ loc" "[]"]
  by (auto simp: view_def node_block_def fun_eq_iff intro!: option.map_cong)

lemma pc_insert_correct:
  assumes "cache_inv H A P [] T" "hash_lib_ok H" "size_ok (pc_block_size P)"
    and "list_all (cacheable T) blocks" "m \<le> min (length ts div pc_block_size P) (length blocks)"
  shows "\<exists>blocks' ks A' P'. pc_insert H now ts blocks m A P =
      Inr (min (length ts div pc_block_size P) (length blocks) * pc_block_size P, blocks', ks, A', P') \<and>
    cache_inv H A' P' [] T \<and>
    view P' = put_all H (keyed (insert_keys_of H P ts blocks m) (drop m blocks)) (view P) \<and>
    pc_block_size P' = pc_block_size P \<and> same_arena A A' \<and>
    map token_of blocks' = map token_of blocks \<and> list_all (cacheable T) blocks'"
proof -
  define bs where "bs = pc_block_size P"
  define nb where "nb = min (length ts div bs) (length blocks)"
  let ?key = "if m = 0 then uninit_hash else bhash (blocks ! (m - 1))"
  have bs: "bs \<noteq> 0" "aligned bs (nb * bs) (m * bs)"
    using assms(3) by (auto simp: aligned_def size_ok_def bs_def)
  have "nb \<le> length ts div bs" by (simp add: nb_def)
  then have "nb * bs \<le> length ts"
    using bs(1) by (simp add: less_eq_div_iff_mult_less_eq)
  moreover have "nb * bs \<le> length blocks * bs" by (rule mult_le_mono1) (simp add: nb_def)
  ultimately have n: "nb * bs \<le> length ts" "nb * bs \<le> length blocks * bs" by simp_all
  have ins: "pc_insert H now ts blocks m A P =
      (if nb = 0 then Inr (0, blocks, [], A, P)
       else bindE (insert_loop H now ts bs (nb * bs) (m * bs) m ?key blocks ([], [], A, P)) (\<lambda>(blocks', w).
         case append_local w of (ks, A', P') \<Rightarrow> Inr (nb * bs, blocks', ks, A', P')))"
    using bs(1) assms(5) by (simp add: pc_insert_def bs_def[symmetric] nb_def[symmetric] Let_def)
  have keys: "insert_keys_of H P ts blocks m = chain_keys H ts bs (nb * bs) (m * bs) ?key"
    by (simp add: insert_keys_of_def bs_def nb_def)
  show ?thesis
  proof (cases "nb = 0")
    case True
    then have "insert_keys_of H P ts blocks m = []"
      unfolding keys by (simp add: chain_keys.simps)
    then show ?thesis
      using ins True assms(1,4) unfolding bs_def[symmetric] nb_def[symmetric]
      by (simp add: keyed_def bs_def)
  next
    case False
    obtain bl loc ks A1 P1 where l: "insert_loop H now ts bs (nb * bs) (m * bs) m ?key blocks ([], [], A, P) =
        Inr (bl, loc, ks, A1, P1)" "cache_inv H A1 P1 loc T"
      "view P1 = put_all H (keyed (insert_keys_of H P ts blocks m) (drop m blocks)) (view P)"
      "pc_block_size P1 = bs" "same_arena A A1" "map token_of bl = map token_of blocks"
      "list_all (cacheable T) bl"
      using insert_loop_correct[OF assms(1,2) bs(2) n(1) assms(4) refl n(2), of now ?key "[]"]
      unfolding keys by (auto simp: bs_def)
    then show ?thesis
      using ins False append_local_inv[OF l(2)] unfolding bs_def[symmetric] nb_def[symmetric]
      by (auto simp: append_local_def)
  qed
qed

end
