(* ===== verification/Prefix_Cache_Evict.thy ===== *)
theory Prefix_Cache_Evict
  imports Prefix_Cache_Correct
begin

text \<open>
  Eviction: \<open>evict\<close> deletes the first unshared nodes of the LRU list, one block returns to
  the free list for each, and the abstract map loses exactly their keys. The last section
  has the second \<open>insert\<close> overload and \<open>compute_hash_keys\<close>.
\<close>

section \<open>Deleting one node\<close>

definition unshared :: "arena \<Rightarrow> pcache \<Rightarrow> nat \<Rightarrow> bool" where
  "unshared A P p \<longleftrightarrow> block_is_shared (node_block P p) A = Inr False"

definition drop_node :: "hash_lib \<Rightarrow> nat \<Rightarrow> pcache \<Rightarrow> pcache" where
  "drop_node H p P =
     P\<lparr>lru := remove1 p (lru P),
       cached_blocks := (cached_blocks P)(key_class (svh H) (bhash (node_block P p)) := None),
       pnodes := (pnodes P)(p := None),
       pc_num_blocks := size_sub (pc_num_blocks P) 1\<rparr>"

lemma drop_node_block: "q \<noteq> p \<Longrightarrow> node_block (drop_node H p P) q = node_block P q"
  by (simp add: drop_node_def node_block_def)

lemma drop_node_sel [simp]:
  "lru (drop_node H p P) = remove1 p (lru P)" "pnodes (drop_node H p P) = (pnodes P)(p := None)"
  "pc_block_size (drop_node H p P) = pc_block_size P" "next_node (drop_node H p P) = next_node P"
  "cached_blocks (drop_node H p P) = (cached_blocks P)(key_class (svh H) (bhash (node_block P p)) := None)"
  by (simp_all add: drop_node_def)

lemma drop_node_pc_inv:
  assumes "pc_inv H P []" "p \<in> dom (pnodes P)"
  shows "pc_inv H (drop_node H p P) []"
proof -
  have l: "distinct (lru P)" "set (lru P) = dom (pnodes P)" "pc_num_blocks P = length (lru P)"
    using assms(1) by (simp_all add: pc_inv_def)
  have nodes: "q \<in> dom (pnodes P) \<Longrightarrow> q < next_node P \<and> owned (node_block P q) \<and> bid (node_block P q) \<noteq> 0 \<and>
      cached_blocks P (key_class (svh H) (bhash (node_block P q))) = Some q" for q
    using assms(1) unfolding pc_inv_def by blast
  have keys: "cached_blocks P c = Some q \<Longrightarrow>
      q \<in> dom (pnodes P) \<and> c = key_class (svh H) (bhash (node_block P q))" for c q
    using assms(1) unfolding pc_inv_def by blast
  have p: "p \<in> set (lru P)" using assms(2) l(2) by simp
  then have len: "0 < length (lru P)" by (rule length_pos_if_in_set)
  show ?thesis
    unfolding pc_inv_def append_Nil2
  proof (intro conjI ballI allI impI)
    show "distinct (lru (drop_node H p P))" using l(1) by simp
    show "set (lru (drop_node H p P)) = dom (pnodes (drop_node H p P))" using l(1,2) by simp
    show "pc_num_blocks (drop_node H p P) = length (lru (drop_node H p P))"
      using l(3) p len by (simp add: drop_node_def length_remove1 Suc_le_eq)
    fix q assume "q \<in> dom (pnodes (drop_node H p P))"
    then have q: "q \<noteq> p" "q \<in> dom (pnodes P)" by auto
    then show "q < next_node (drop_node H p P)" "owned (node_block (drop_node H p P) q)"
      "bid (node_block (drop_node H p P) q) \<noteq> 0"
      using nodes by (simp_all add: drop_node_block)
    have "key_class (svh H) (bhash (node_block P q)) \<noteq> key_class (svh H) (bhash (node_block P p))"
      using nodes[OF q(2)] nodes[OF assms(2)] q(1) by (metis option.inject)
    then show "cached_blocks (drop_node H p P) (key_class (svh H) (bhash (node_block (drop_node H p P) q))) = Some q"
      using nodes[OF q(2)] q(1) by (simp add: drop_node_block)
  next
    fix c q assume "cached_blocks (drop_node H p P) c = Some q"
    then have c: "c \<noteq> key_class (svh H) (bhash (node_block P p))" "cached_blocks P c = Some q"
      by (auto split: if_splits)
    have "q \<noteq> p" using keys[OF c(2)] c(1) by auto
    then show "q \<in> dom (pnodes (drop_node H p P))"
      "c = key_class (svh H) (bhash (node_block (drop_node H p P) q))"
      using keys[OF c(2)] by (auto simp: drop_node_block)
  qed
qed

lemma drop_node_tokens:
  assumes "distinct (lru P)" "p \<in> set (lru P)"
  shows "node_tokens P (lru P) = add_mset (token_of (node_block P p)) (node_tokens (drop_node H p P) (remove1 p (lru P)))"
proof -
  have "mset (lru P) = add_mset p (mset (remove1 p (lru P)))" using assms(2) by simp
  moreover have "image_mset (\<lambda>q. token_of (node_block (drop_node H p P) q)) (mset (remove1 p (lru P))) =
      image_mset (\<lambda>q. token_of (node_block P q)) (mset (remove1 p (lru P)))"
    using assms(1) by (intro image_mset_cong) (metis Diff_iff drop_node_block insertI1 set_mset_mset set_remove1_eq)
  ultimately show ?thesis unfolding node_tokens_def by (metis (no_types, lifting) image_mset_add_mset)
qed

lemma evict_one:
  assumes "cache_inv H A P [] T" "p \<in> dom (pnodes P)" "unshared A P p"
  shows "\<exists>A'. block_destroy (node_block P p) A = Inr A' \<and> cache_inv H A' (drop_node H p P) [] T \<and>
    num_free_blocks A' = num_free_blocks A + 1 \<and> length (free_blocks A') = length (free_blocks A) \<and>
    arena_block_size A' = arena_block_size A \<and>
    (\<forall>q \<in> dom (pnodes P) - {p}. unshared A' (drop_node H p P) q = unshared A P q)"
proof -
  let ?b = "node_block P p" and ?P = "drop_node H p P"
  let ?T = "T + node_tokens ?P (lru ?P)"
  have pi: "pc_inv H P []" and ai: "arena_inv A (T + node_tokens P (lru P))"
    using assms(1) by (simp_all add: cache_inv_def)
  obtain nd where nd: "pnodes P p = Some nd" using assms(2) by blast
  note b = pc_inv_node[OF pi nd]
  have l: "distinct (lru P)" "p \<in> set (lru P)" using pi b(4) by (simp_all add: pc_inv_def)
  have tok: "T + node_tokens P (lru P) = add_mset (token_of ?b) ?T"
    using drop_node_tokens[OF l, of H] by simp
  have ai': "arena_inv A (add_mset (token_of ?b) ?T)" using ai tok by simp
  have "block_ref_count ?b A = Inr (Suc (handles_at (fst (token_of ?b)) ?T))"
    using block_ref_count_inv[OF ai' _ b(2)] by simp
  then have h0: "handles_at (fst (token_of ?b)) ?T = 0"
    using assms(3) by (simp add: unshared_def block_is_shared_def)
  obtain A' where A': "block_destroy ?b A = Inr A'" "arena_inv A' ?T"
    "num_free_blocks A' = num_free_blocks A + 1" "length (free_blocks A') = length (free_blocks A)"
    "arena_block_size A' = arena_block_size A"
    using block_destroy_inv[OF ai' b(2)] h0 b(3) by auto
  have "unshared A' ?P q = unshared A P q" if q: "q \<in> dom (pnodes P) - {p}" for q
  proof -
    let ?c = "node_block P q"
    have nb: "node_block ?P q = ?c" using q by (simp add: drop_node_block)
    have ow: "owned ?c" using pi q unfolding pc_inv_def by blast
    have "q \<in> set (lru ?P)" using q l(1) pi by (auto simp: pc_inv_def)
    then have in': "token_of ?c \<in># ?T" using node_tokens_member[of q "lru ?P" ?P] nb by simp
    have "fst (token_of ?c) \<noteq> fst (token_of ?b)" using h0 in' handles_at_eq_0 by metis
    then show ?thesis
      using block_ref_count_inv[OF A'(2) in' ow] block_ref_count_inv[OF ai' _ ow] in' nb
      by (simp add: unshared_def block_is_shared_def)
  qed
  moreover have "cache_inv H A' ?P [] T"
    using drop_node_pc_inv[OF pi assms(2)] A'(2) by (simp add: cache_inv_def)
  ultimately show ?thesis using A' by blast
qed

section \<open>The eviction loop\<close>

definition drop_nodes :: "hash_lib \<Rightarrow> nat list \<Rightarrow> pcache \<Rightarrow> pcache" where
  "drop_nodes H vs P = fold (drop_node H) vs P"

lemma is_shared_total:
  assumes "cache_inv H A P [] T" "p \<in> dom (pnodes P)"
  shows "block_is_shared (node_block P p) A = Inr (\<not> unshared A P p)"
proof -
  have pi: "pc_inv H P []" and ai: "arena_inv A (T + node_tokens P (lru P))"
    using assms(1) by (simp_all add: cache_inv_def)
  have "token_of (node_block P p) \<in># T + node_tokens P (lru P)" "owned (node_block P p)"
    using pi assms(2) node_tokens_member[of p "lru P" P] unfolding pc_inv_def by auto
  then show ?thesis
    using block_ref_count_inv[OF ai] by (simp add: block_is_shared_def unshared_def)
qed

lemma evict_loop_correct:
  assumes "cache_inv H A P [] T" "set ps \<subseteq> dom (pnodes P)" "distinct ps" "c \<le> n"
  defines "vs \<equiv> take (n - c) (filter (unshared A P) ps)"
  shows "\<exists>A'. evict_loop H n ps c ks A P =
      Inr (c + length vs, ks @ map (\<lambda>p. bhash (node_block P p)) vs, A', drop_nodes H vs P) \<and>
    cache_inv H A' (drop_nodes H vs P) [] T \<and>
    num_free_blocks A' = num_free_blocks A + length vs \<and> length (free_blocks A') = length (free_blocks A) \<and>
    arena_block_size A' = arena_block_size A"
  using assms(1-4) unfolding vs_def
proof (induction ps arbitrary: c ks A P)
  case Nil
  then show ?case by (simp add: drop_nodes_def)
next
  case (Cons p ps)
  have dom: "p \<in> dom (pnodes P)" and sub: "set ps \<subseteq> dom (pnodes P)" and d: "distinct ps" "p \<notin> set ps"
    using Cons.prems by auto
  obtain nd where nd: "pnodes P p = Some nd" using dom by blast
  then have nb: "nblock nd = node_block P p" by (simp add: node_block_def)
  note sh = is_shared_total[OF Cons.prems(1) dom]
  consider "c = n" | "c < n" "\<not> unshared A P p" | "c < n" "unshared A P p" using Cons.prems(4) by linarith
  then show ?case
  proof cases
    case 1
    then show ?thesis using Cons.prems by (simp add: drop_nodes_def)
  next
    case 2
    then have "evict_loop H n (p # ps) c ks A P = evict_loop H n ps c ks A P" using nd nb sh by simp
    then show ?thesis using Cons.IH[OF Cons.prems(1) sub d(1) Cons.prems(4), of ks] 2 by simp
  next
    case 3
    obtain A1 where A1: "block_destroy (node_block P p) A = Inr A1" "cache_inv H A1 (drop_node H p P) [] T"
      "num_free_blocks A1 = num_free_blocks A + 1" "length (free_blocks A1) = length (free_blocks A)"
      "arena_block_size A1 = arena_block_size A"
      "\<forall>q \<in> dom (pnodes P) - {p}. unshared A1 (drop_node H p P) q = unshared A P q"
      using evict_one[OF Cons.prems(1) dom 3(2)] by blast
    let ?P = "drop_node H p P" and ?k = "bhash (node_block P p)"
    have step: "evict_loop H n (p # ps) c ks A P = evict_loop H n ps (c + 1) (ks @ [?k]) A1 ?P"
      using 3 nd nb sh A1(1) by (simp add: Let_def drop_node_def)
    have sub': "set ps \<subseteq> dom (pnodes ?P)" using sub d(2) by auto
    have f: "filter (unshared A1 ?P) ps = filter (unshared A P) ps"
      using A1(6) sub d(2) by (intro filter_cong) auto
    let ?vs = "take (n - (c + 1)) (filter (unshared A P) ps)"
    have vs: "take (n - c) (filter (unshared A P) (p # ps)) = p # ?vs"
      using 3 by (simp add: Suc_diff_Suc[symmetric])
    have "p \<notin> set ?vs" using d(2) by (meson filter_is_subset in_set_takeD subsetD)
    then have keys: "map (\<lambda>q. bhash (node_block ?P q)) ?vs = map (\<lambda>q. bhash (node_block P q)) ?vs"
      by (intro map_cong) (metis drop_node_block)+
    have "c + 1 \<le> n" using 3 by simp
    from Cons.IH[OF A1(2) sub' d(1) this, of "ks @ [?k]"] obtain A2 where
      "evict_loop H n ps (c + 1) (ks @ [?k]) A1 ?P = Inr (c + 1 + length ?vs,
        (ks @ [?k]) @ map (\<lambda>q. bhash (node_block P q)) ?vs, A2, drop_nodes H ?vs ?P)"
      "cache_inv H A2 (drop_nodes H ?vs ?P) [] T" "num_free_blocks A2 = num_free_blocks A1 + length ?vs"
      "length (free_blocks A2) = length (free_blocks A1)" "arena_block_size A2 = arena_block_size A1"
      unfolding f keys by blast
    then show ?thesis unfolding vs step using A1(3,4,5) by (simp add: drop_nodes_def)
  qed
qed

text \<open>What deleting the nodes \<open>vs\<close> does to the cache.\<close>

lemma drop_nodes_lru: "lru (drop_nodes H vs P) = fold remove1 vs (lru P)"
  unfolding drop_nodes_def by (induction vs arbitrary: P) simp_all

lemma fold_remove1_filter: "distinct xs \<Longrightarrow> fold remove1 vs xs = filter (\<lambda>x. x \<notin> set vs) xs"
proof (induction vs arbitrary: xs)
  case (Cons v vs)
  then show ?case by (simp add: distinct_remove1_removeAll removeAll_filter_not_eq filter_filter)
     (rule filter_cong, auto)
qed simp

lemma drop_nodes_size [simp]: "pc_block_size (drop_nodes H vs P) = pc_block_size P"
  unfolding drop_nodes_def by (induction vs arbitrary: P) simp_all

definition without_keys :: "key_cls set \<Rightarrow> (key_cls \<Rightarrow> block option) \<Rightarrow> (key_cls \<Rightarrow> block option)" where
  "without_keys K v = (\<lambda>k. if k \<in> K then None else v k)"

definition node_keys :: "hash_lib \<Rightarrow> pcache \<Rightarrow> nat list \<Rightarrow> key_cls set" where
  "node_keys H P vs = (\<lambda>p. key_class (svh H) (bhash (node_block P p))) ` set vs"

lemma view_drop_node:
  assumes "pc_inv H P []" "p \<in> dom (pnodes P)"
  shows "view (drop_node H p P) = without_keys (node_keys H P [p]) (view P)"
proof
  fix c
  have "cached_blocks P c = Some p \<Longrightarrow> c = key_class (svh H) (bhash (node_block P p))"
    using assms(1) unfolding pc_inv_def by blast
  then show "view (drop_node H p P) c = without_keys (node_keys H P [p]) (view P) c"
    using drop_node_block[of _ p H P]
    by (cases "cached_blocks P c") (fastforce simp: view_def without_keys_def node_keys_def)+
qed

lemma view_drop_nodes:
  "pc_inv H P [] \<Longrightarrow> set vs \<subseteq> dom (pnodes P) \<Longrightarrow> distinct vs \<Longrightarrow>
    view (drop_nodes H vs P) = without_keys (node_keys H P vs) (view P)"
proof (induction vs arbitrary: P)
  case Nil
  then show ?case by (simp add: drop_nodes_def without_keys_def node_keys_def)
next
  case (Cons p vs)
  let ?P = "drop_node H p P"
  have "node_keys H ?P vs = node_keys H P vs"
    unfolding node_keys_def using Cons.prems(3)
    by (intro image_cong) (metis distinct.simps(2) drop_node_block)+
  moreover have "set vs \<subseteq> dom (pnodes ?P)" using Cons.prems by auto
  ultimately have "view (drop_nodes H vs ?P) = without_keys (node_keys H P vs) (view ?P)"
    using Cons.IH[of ?P] drop_node_pc_inv[OF Cons.prems(1), of p] Cons.prems
    by (metis distinct.simps(2) list.set_intros(1) subsetD)
  moreover have "view ?P = without_keys (node_keys H P [p]) (view P)"
    using view_drop_node[OF Cons.prems(1), of p] Cons.prems(2) by simp
  moreover have "without_keys (node_keys H P vs) (without_keys (node_keys H P [p]) v) =
      without_keys (node_keys H P (p # vs)) v" for v
    by (rule ext) (simp add: without_keys_def node_keys_def)
  ultimately show ?case by (simp add: drop_nodes_def)
qed

lemma drop_nodes_tokens:
  assumes "distinct (lru P)" "distinct vs" "set vs \<subseteq> set (lru P)"
  shows "node_tokens P (lru P) = node_tokens P vs + node_tokens (drop_nodes H vs P) (lru (drop_nodes H vs P))"
  using assms
proof (induction vs arbitrary: P)
  case Nil
  then show ?case by (simp add: drop_nodes_def node_tokens_def)
next
  case (Cons p vs)
  let ?P = "drop_node H p P"
  have "node_tokens ?P vs = node_tokens P vs"
    unfolding node_tokens_def using Cons.prems(2) by (intro image_mset_cong) (metis distinct.simps(2) drop_node_block set_mset_mset)
  moreover have "node_tokens ?P (lru ?P) = node_tokens ?P vs + node_tokens (drop_nodes H vs ?P) (lru (drop_nodes H vs ?P))"
    using Cons.prems by (intro Cons.IH) auto
  ultimately show ?case
    using drop_node_tokens[of P p H] Cons.prems by (simp add: drop_nodes_def node_tokens_def)
qed

text \<open>The only handle of an evictable block is the one of the cache.\<close>

lemma unshared_not_held:
  assumes "cache_inv H A P [] T" "p \<in> dom (pnodes P)" "unshared A P p"
  shows "token_of (node_block P p) \<notin># T"
proof
  let ?b = "node_block P p"
  assume "token_of ?b \<in># T"
  then obtain T' where T': "T = add_mset (token_of ?b) T'" by (rule mset_add)
  have pi: "pc_inv H P []" and ai: "arena_inv A (T + node_tokens P (lru P))"
    using assms(1) by (simp_all add: cache_inv_def)
  have "owned ?b" "p \<in> set (lru P)" using pi assms(2) unfolding pc_inv_def by auto
  then have r: "block_ref_count ?b A = Inr (handles_at (fst (token_of ?b)) (T + node_tokens P (lru P)))"
    using block_ref_count_inv[OF ai, of ?b] node_tokens_member[of p "lru P" P] by simp
  have "0 < handles_at (fst (token_of ?b)) (node_tokens P (lru P))"
    using node_tokens_member[OF \<open>p \<in> set (lru P)\<close>, of P] handles_at_eq_0 by (metis neq0_conv)
  then show False using assms(3) r T' by (simp add: unshared_def block_is_shared_def)
qed

section \<open>evict\<close>

definition victims :: "nat \<Rightarrow> arena \<Rightarrow> pcache \<Rightarrow> nat list" where
  "victims n A P = take n (filter (unshared A P) (lru P))"

lemma victims_sub: "set (victims n A P) \<subseteq> set (lru P)"
  unfolding victims_def by (meson filter_is_subset order_trans set_take_subset)

lemma victims_distinct: "distinct (lru P) \<Longrightarrow> distinct (victims n A P)"
  by (simp add: victims_def)

lemma pc_evict_correct:
  fixes n :: nat
  assumes "cache_inv H A P [] T"
  defines "vs \<equiv> victims n A P"
  shows "\<exists>A' P'. pc_evict H n A P = Inr (length vs, map (\<lambda>p. bhash (node_block P p)) vs, A', P') \<and>
    cache_inv H A' P' [] T \<and>
    num_free_blocks A' = num_free_blocks A + length vs \<and> length (free_blocks A') = length (free_blocks A) \<and>
    arena_block_size A' = arena_block_size A \<and>
    lru P' = filter (\<lambda>p. p \<notin> set vs) (lru P) \<and> view P' = without_keys (node_keys H P vs) (view P) \<and>
    pc_block_size P' = pc_block_size P \<and> node_tokens P (lru P) = node_tokens P vs + node_tokens P' (lru P')"
proof (cases "lru P = []")
  case True
  then show ?thesis
    using assms(1) by (simp add: pc_evict_def vs_def victims_def without_keys_def node_keys_def node_tokens_def)
next
  case False
  have pi: "pc_inv H P []" using assms(1) by (simp add: cache_inv_def)
  then have l: "distinct (lru P)" "set (lru P) = dom (pnodes P)" "pc_num_blocks P = length (lru P)"
    by (simp_all add: pc_inv_def)
  have "pc_evict H n A P = evict_loop H n (lru P) 0 [] A P" using False l(3) by (simp add: pc_evict_def)
  moreover have "view (drop_nodes H vs P) = without_keys (node_keys H P vs) (view P)"
    unfolding vs_def using victims_sub l by (intro view_drop_nodes[OF pi]) (metis victims_distinct)+
  moreover have "lru (drop_nodes H vs P) = filter (\<lambda>p. p \<notin> set vs) (lru P)"
    by (simp add: drop_nodes_lru fold_remove1_filter[OF l(1)])
  moreover have "node_tokens P (lru P) = node_tokens P vs + node_tokens (drop_nodes H vs P) (lru (drop_nodes H vs P))"
    unfolding vs_def by (rule drop_nodes_tokens[OF l(1) victims_distinct[OF l(1)] victims_sub])
  ultimately show ?thesis
    using evict_loop_correct[OF assms(1) _ l(1), of 0 n "[]"] l(2)
    unfolding vs_def victims_def by auto
qed

end
