(* ===== verification/Prefix_Cache_Roundtrip.thy ===== *)
theory Prefix_Cache_Roundtrip
  imports Prefix_Cache_Evict
begin

text \<open>
  Laws that connect the operations of the cache: what \<open>match\<close> finds after \<open>insert\<close>, the
  second \<open>insert\<close> overload, and the agreement of \<open>compute_hash_keys\<close> with the keys
  \<open>insert\<close> computes.
\<close>

section \<open>Lookups in the abstract map\<close>

lemma hit_block_view: "find_key H k P \<noteq> None \<Longrightarrow> hit_block H P k = the (view P (key_class (svh H) k))"
  by (auto simp: hit_block_def view_def find_key_def)

lemma hits_view:
  "hits H P ks = map (\<lambda>k. the (view P (key_class (svh H) k)))
     (takeWhile (\<lambda>k. view P (key_class (svh H) k) \<noteq> None) ks)"
proof -
  have "takeWhile (\<lambda>k. view P (key_class (svh H) k) \<noteq> None) ks = takeWhile (\<lambda>k. find_key H k P \<noteq> None) ks"
    by (simp add: view_None_iff)
  then show ?thesis
    by (auto simp: hits_def hit_block_view dest!: set_takeWhileD)
qed

lemma hits_all:
  assumes "\<And>k. k \<in> set ks \<Longrightarrow> view P (key_class (svh H) k) \<noteq> None"
  shows "hits H P ks = map (\<lambda>k. the (view P (key_class (svh H) k))) ks"
proof -
  have "takeWhile (\<lambda>k. view P (key_class (svh H) k) \<noteq> None) ks = ks"
    using assms by (simp add: takeWhile_eq_all_conv)
  then show ?thesis unfolding hits_view by (rule arg_cong)
qed

lemma put_all_lookup:
  "distinct (map (\<lambda>(k, b). key_class (svh H) k) xs) \<Longrightarrow> (k, b) \<in> set xs \<Longrightarrow>
    v (key_class (svh H) k) = None \<Longrightarrow> put_all H xs v (key_class (svh H) k) = Some b"
proof (induction H xs v rule: put_all.induct)
  case (2 H k' b' xs v)
  show ?case
  proof (cases "(k, b) = (k', b')")
    case True
    then have "put_new H k' b' v (key_class (svh H) k) = Some b" using 2(4) by (simp add: put_new_def)
    then show ?thesis using put_all_mono[of "put_new H k' b' v"] by simp
  next
    case False
    then have "(k, b) \<in> set xs" using 2(3) by auto
    moreover have "key_class (svh H) k \<noteq> key_class (svh H) k'"
      using 2(2) \<open>(k, b) \<in> set xs\<close> by (force simp: image_iff)
    ultimately show ?thesis using 2 by (simp add: put_new_def)
  qed
qed simp

lemma keyed_keys: "length ks \<le> length bs \<Longrightarrow> map fst (keyed ks bs) = ks"
  by (auto simp: keyed_def intro: nth_equalityI)

lemma keyed_nth:
  "i < length ks \<Longrightarrow> length ks \<le> length bs \<Longrightarrow> (ks ! i, set_hash_value (ks ! i) (bs ! i)) \<in> set (keyed ks bs)"
  by (force simp: keyed_def set_zip image_iff)

lemma keyed_classes:
  "length ks \<le> length bs \<Longrightarrow> map (\<lambda>(k, b). key_class h k) (keyed ks bs) = map (key_class h) ks"
  by (auto simp: keyed_def intro: nth_equalityI)

section \<open>insert, then match\<close>

lemma insert_keys_match_keys:
  "length ts div pc_block_size P \<le> length blocks \<Longrightarrow> pc_block_size P' = pc_block_size P \<Longrightarrow>
    insert_keys_of H P ts blocks 0 = match_keys H P' ts []"
  by (simp add: insert_keys_of_def match_keys_def start_key_def round_down_def min_def)

lemma length_match_keys:
  assumes "size_ok (pc_block_size P)"
  shows "length (match_keys H P ts []) = length ts div pc_block_size P"
proof -
  let ?bs = "pc_block_size P"
  have "aligned ?bs (round_down (length ts) ?bs) 0"
    using assms by (simp add: aligned_def size_ok_def round_down_def)
  from length_chain_keys[OF this, of H ts uninit_hash] show ?thesis
    using assms by (simp add: match_keys_def start_key_def round_down_def size_ok_def)
qed

lemma insert_hits:
  assumes "size_ok (pc_block_size P)" "length ts div pc_block_size P \<le> length blocks"
    and v: "view P' = put_all H (keyed (insert_keys_of H P ts blocks 0) blocks) (view P)"
    and "pc_block_size P' = pc_block_size P"
  defines "ks \<equiv> insert_keys_of H P ts blocks 0"
  shows "length (hits H P' (match_keys H P' ts [])) = length ts div pc_block_size P"
    and "distinct (map (key_class (svh H)) ks) \<Longrightarrow> (\<And>k. k \<in> set ks \<Longrightarrow> find_key H k P = None) \<Longrightarrow>
      hits H P' (match_keys H P' ts []) =
        map2 set_hash_value ks (take (length ts div pc_block_size P) blocks)"
proof -
  have km: "match_keys H P' ts [] = ks"
    using insert_keys_match_keys[OF assms(2), of P' H] assms(4) by (simp add: ks_def)
  have len: "length ks = length ts div pc_block_size P"
    using length_match_keys[of P' H ts] assms(1,4) km by simp
  have le: "length ks \<le> length blocks" using len assms(2) by simp
  have pres: "view P' (key_class (svh H) k) \<noteq> None" if k: "k \<in> set ks" for k
  proof -
    obtain i where "i < length ks" "ks ! i = k" using k by (auto simp: in_set_conv_nth)
    then show ?thesis using keyed_nth[OF _ le] put_all_present v unfolding ks_def by metis
  qed
  then have hits: "hits H P' (match_keys H P' ts []) = map (\<lambda>k. the (view P' (key_class (svh H) k))) ks"
    unfolding km by (rule hits_all)
  then show "length (hits H P' (match_keys H P' ts [])) = length ts div pc_block_size P"
    by (simp add: len)
  assume d: "distinct (map (key_class (svh H)) ks)" and new: "\<And>k. k \<in> set ks \<Longrightarrow> find_key H k P = None"
  show "hits H P' (match_keys H P' ts []) =
      map2 set_hash_value ks (take (length ts div pc_block_size P) blocks)"
    unfolding hits
  proof (rule nth_equalityI)
    show "length (map (\<lambda>k. the (view P' (key_class (svh H) k))) ks) =
        length (map2 set_hash_value ks (take (length ts div pc_block_size P) blocks))"
      using len assms(2) by simp
    fix i assume "i < length (map (\<lambda>k. the (view P' (key_class (svh H) k))) ks)"
    then have i: "i < length ks" by simp
    have "view P (key_class (svh H) (ks ! i)) = None" using new i by (simp add: view_None_iff)
    then have "view P' (key_class (svh H) (ks ! i)) = Some (set_hash_value (ks ! i) (blocks ! i))"
      unfolding v ks_def[symmetric]
      using put_all_lookup[OF _ keyed_nth[OF i le], of H "view P"] d keyed_classes[OF le, of "svh H"] by simp
    then show "map (\<lambda>k. the (view P' (key_class (svh H) k))) ks ! i =
        map2 set_hash_value ks (take (length ts div pc_block_size P) blocks) ! i"
      using i le len by simp
  qed
qed

section \<open>insert(blocks)\<close>

lemma insert_blocks_loop:
  assumes "cache_inv H A P loc T" "\<And>b. b \<in> set blocks \<Longrightarrow> block_is_valid b \<Longrightarrow> cacheable T b"
  shows "\<exists>loc' ks' A' P'. foldE (insert_block H now) blocks (loc, ks, A, P) = Inr (loc', ks', A', P') \<and>
    cache_inv H A' P' loc' T \<and>
    view P' = put_all H (map (\<lambda>b. (bhash b, b)) (filter block_is_valid blocks)) (view P) \<and>
    pc_block_size P' = pc_block_size P \<and> same_arena A A'"
  using assms
proof (induction blocks arbitrary: loc ks A P)
  case Nil
  then show ?case by simp
next
  case (Cons b bs)
  show ?case
  proof (cases "block_is_valid b")
    case False
    then show ?thesis using Cons.IH[OF Cons.prems(1), of ks] Cons.prems(2) by (simp add: insert_block_def)
  next
    case True
    then have "cacheable T b" using Cons.prems(2) by simp
    then obtain loc1 ks1 A1 P1 where t: "touch_or_add H now (bhash b) b (loc, ks, A, P) = Inr (loc1, ks1, A1, P1)"
      "cache_inv H A1 P1 loc1 T" "view P1 = put_new H (bhash b) b (view P)"
      "pc_block_size P1 = pc_block_size P" "same_arena A A1"
      using touch_or_add_correct[OF Cons.prems(1), of b "bhash b" now ks] by (auto simp: cacheable_def)
    show ?thesis
      using Cons.IH[OF t(2), of ks1] Cons.prems(2) t True
      by (auto simp: insert_block_def intro: same_arena_trans)
  qed
qed

lemma pc_insert_blocks_correct:
  assumes "cache_inv H A P [] T" "\<And>b. b \<in> set blocks \<Longrightarrow> block_is_valid b \<Longrightarrow> cacheable T b"
  shows "\<exists>ks A' P'. pc_insert_blocks H now blocks A P = Inr (length blocks * pc_block_size P, ks, A', P') \<and>
    cache_inv H A' P' [] T \<and>
    view P' = put_all H (map (\<lambda>b. (bhash b, b)) (filter block_is_valid blocks)) (view P) \<and>
    pc_block_size P' = pc_block_size P \<and> same_arena A A'"
proof -
  obtain loc ks A1 P1 where l: "foldE (insert_block H now) blocks ([], [], A, P) = Inr (loc, ks, A1, P1)"
    "cache_inv H A1 P1 loc T"
    "view P1 = put_all H (map (\<lambda>b. (bhash b, b)) (filter block_is_valid blocks)) (view P)"
    "pc_block_size P1 = pc_block_size P" "same_arena A A1"
    using insert_blocks_loop[OF assms, of blocks now "[]"] by blast
  then show ?thesis
    using append_local_inv[OF l(2)] by (simp add: pc_insert_blocks_def append_local_def)
qed

section \<open>compute_hash_keys\<close>

text \<open>The keys computed from block \<open>c\<close> on are the chain of keys, stored block by block.\<close>

lemma hash_keys_loop_correct:
  assumes "hash_lib_ok H" "size_ok bs" "c \<le> m" "m * bs \<le> length ts" "m \<le> length blocks"
    and "key = (if c = 0 then uninit_hash else bhash (blocks ! (c - 1)))"
  shows "\<exists>bl. hash_keys_loop H ts bs [c..<m] blocks = Inr bl \<and> length bl = length blocks \<and>
    take c bl = take c blocks \<and> drop m bl = drop m blocks \<and>
    sub_slice bl c m = map2 set_hash_value (chain_keys H ts bs (m * bs) (c * bs) key) (sub_slice blocks c m)"
  using assms(3-)
proof (induction "m - c" arbitrary: c key blocks)
  case 0
  then show ?case by (auto simp: sub_slice_def)
next
  case (Suc d)
  have bs: "0 < bs" "4 * bs + 16 < 1024" using assms(2) by (simp_all add: size_ok_def)
  have c: "c < m" using Suc by simp
  then have "(c + 1) * bs \<le> m * bs" by (intro mult_le_mono1) simp
  then have le: "c * bs + bs \<le> length ts" using Suc.prems(2) by simp
  let ?k = "pure_key H (c * bs) key (sub_slice ts (c * bs) (c * bs + bs))"
  let ?b = "set_hash_value ?k (blocks ! c)" and ?bl = "blocks[c := set_hash_value ?k (blocks ! c)]"
  have key: "xxh3_128bits_hash (xxh H) (if c = 0 then None else Some (bhash (blocks ! (c - 1))))
      (sub_slice ts (c * bs) (c * bs + bs)) = Inr ?k"
    using block_key_pure[of "sub_slice ts (c * bs) (c * bs + bs)" H "c * bs" key] bs le Suc.prems(4)
    by (cases "c = 0") (simp_all add: block_key_def)
  have eq: "hash_keys_loop H ts bs [c..<m] blocks = hash_keys_loop H ts bs [Suc c..<m] ?bl"
    using c le key by (simp add: upt_conv_Cons add.commute[of bs])
  have cl: "c < length blocks" using c Suc.prems(3) by simp
  have "bhash ?b = ?k"
    using hash_lib_ok_len[OF assms(1)] by (simp add: set_hash_value_def pure_key_def XXH3_128BITS_HASH_VALUE_LEN_def)
  then have nk: "?k = (if Suc c = 0 then uninit_hash else bhash (?bl ! (Suc c - 1)))" using cl by simp
  have ch: "chain_keys H ts bs (m * bs) (c * bs) key = ?k # chain_keys H ts bs (m * bs) (Suc c * bs) ?k"
    using c bs by (subst chain_keys.simps) (simp add: Let_def add.commute)
  have d: "d = m - Suc c" using Suc.hyps(2) by simp
  obtain bl where bl: "hash_keys_loop H ts bs [Suc c..<m] ?bl = Inr bl" "length bl = length blocks"
    "take (Suc c) bl = take (Suc c) ?bl" "drop m bl = drop m blocks"
    "sub_slice bl (Suc c) m = map2 set_hash_value (chain_keys H ts bs (m * bs) (Suc c * bs) ?k) (sub_slice ?bl (Suc c) m)"
    using Suc.hyps(1)[OF d _ Suc.prems(2) _ nk] Suc.prems(3) c by auto
  have ss: "sub_slice xs c m = xs ! c # sub_slice xs (Suc c) m" if "c < length xs" for xs :: "block list"
    using that c by (simp add: sub_slice_def Cons_nth_drop_Suc[symmetric] Suc_diff_Suc[symmetric])
  have nth: "bl ! c = ?b" using bl(3) cl by (metis lessI nth_list_update_eq nth_take)
  have "take c bl = take c blocks"
    using bl(3) by (metis Suc_n_not_le_n nat_le_linear min.absorb1 take_take take_update_cancel order_refl)
  moreover have "sub_slice ?bl (Suc c) m = sub_slice blocks (Suc c) m" by (simp add: sub_slice_def)
  ultimately show ?case
    using eq bl ch nth ss[of bl] ss[of blocks] cl by simp
qed

lemma compute_hash_keys_correct:
  assumes "hash_lib_ok H" "blocks \<noteq> []" "size_ok (bsize (hd blocks))"
    and "length blocks \<le> round_up_div (length ts) (bsize (hd blocks))"
  defines "bs \<equiv> bsize (hd blocks)"
  defines "m \<equiv> min (length ts div bs) (length blocks)"
  assumes "c \<le> m"
  defines "key \<equiv> (if c = 0 then uninit_hash else bhash (blocks ! (c - 1)))"
  shows "\<exists>bl. compute_hash_keys H ts blocks c = Inr (m, bl) \<and> length bl = length blocks \<and>
    take c bl = take c blocks \<and> drop m bl = drop m blocks \<and>
    sub_slice bl c m = map2 set_hash_value (chain_keys H ts bs (m * bs) (c * bs) key) (sub_slice blocks c m)"
proof -
  have "0 < bs" using assms(3) by (simp add: size_ok_def bs_def)
  moreover have "m \<le> length ts div bs" by (simp add: m_def)
  ultimately have "m * bs \<le> length ts" by (simp add: less_eq_div_iff_mult_less_eq)
  moreover have "m \<le> length blocks" by (simp add: m_def)
  moreover have "compute_hash_keys H ts blocks c =
      bindE (hash_keys_loop H ts bs [c..<m] blocks) (\<lambda>bl. Inr (m, bl))"
    using assms(2,4) \<open>0 < bs\<close> by (simp add: compute_hash_keys_def Let_def bs_def m_def)
  ultimately show ?thesis
    using hash_keys_loop_correct[OF assms(1) _ assms(7), of bs ts blocks key] assms(3)
    by (auto simp: bs_def key_def)
qed

text \<open>Hashing the blocks first and inserting them by hash has the effect of \<open>insert\<close> on the map.\<close>

lemma keyed_by_hash:
  assumes "\<And>k. k \<in> set ks \<Longrightarrow> length k = 16"
  shows "map (\<lambda>b. (bhash b, b)) (map2 set_hash_value ks bs) = keyed ks bs"
  using assms
  by (auto simp: keyed_def set_hash_value_def XXH3_128BITS_HASH_VALUE_LEN_def dest!: set_zip_leftD)

lemma chain_keys_len:
  "hash_lib_ok H \<Longrightarrow> k \<in> set (chain_keys H ts bs n i key) \<Longrightarrow> length k = 16"
proof (induction H ts bs n i key rule: chain_keys.induct)
  case (1 H ts bs n i key)
  then show ?case
    using chain_keys.simps[of H ts bs n i key] hash_lib_ok_len[OF "1.prems"(1)]
    by (auto simp: Let_def pure_key_def split: if_splits)
qed

end
