(* ===== verification/Block_Manager.thy ===== *)
theory Block_Manager
  imports Prefix_Cache_Roundtrip
begin

text \<open>
  \<open>core/framework/block/block_manager_impl.{h,cpp}\<close>: allocation with eviction, sharing
  through the prefix cache, and the used-block counter. \<open>prefix_cache\<close> is \<open>None\<close> when
  \<open>enable_prefix_cache()\<close> is off, as the pointer \<open>prefix_cache_\<close> is null then. \<open>bm_inv\<close> ties the
  free stack, the reference counters, the cache and the handles of the clients together.
\<close>

section \<open>State and operations\<close>

record bman =
  bm_arena :: arena
  prefix_cache :: "pcache option"
  padding_block :: block
  num_used_blocks :: nat

definition bman_new :: "nat \<Rightarrow> int \<Rightarrow> bool \<Rightarrow> bman res" where
  "bman_new num_blocks block_size enable_prefix_cache =
     bindE (check (num_blocks > 0)) (\<lambda>_.
     bindE (check (block_size > 0)) (\<lambda>_.
     let A = init_arena num_blocks (nat block_size) in
     bindE (bm_allocate_one A) (\<lambda>(pad, A').
     bindE (check (bid pad = 0)) (\<lambda>_.
       Inr \<lparr>bm_arena = A',
            prefix_cache = (if enable_prefix_cache then Some (pcache_new (nat block_size)) else None),
            padding_block = pad, num_used_blocks = 0\<rparr>))))"

text \<open>\<open>has_enough_blocks(uint32_t)\<close>: the \<open>size_t\<close> argument of \<open>allocate\<close> is truncated to 32 bits.\<close>

definition has_enough_blocks :: "hash_lib \<Rightarrow> nat \<Rightarrow> bman \<Rightarrow> (bool \<times> bman) res" where
  "has_enough_blocks H num_blocks B =
     (let n = num_blocks mod 2 ^ 32 in
      if n \<le> num_free_blocks (bm_arena B) then Inr (True, B)
      else case prefix_cache B of
             None \<Rightarrow> Inr (False, B)
           | Some P \<Rightarrow>
               let n_blocks_to_evict = n - num_free_blocks (bm_arena B) in
               bindE (pc_evict H n_blocks_to_evict (bm_arena B) P) (\<lambda>(n_blocks_evicted, ks, A', P').
                 let B' = B\<lparr>bm_arena := A', prefix_cache := Some P'\<rparr> in
                 if n_blocks_evicted < n_blocks_to_evict then Inr (False, B')
                 else if num_free_blocks A' \<ge> n then Inr (True, B')
                 else Inr (False, B')))"

definition pop_free :: "arena \<Rightarrow> (block \<times> arena) res" where
  "pop_free A =
     (let prev_count = num_free_blocks A in
      bindE (nth_res (free_blocks A) (size_sub prev_count 1)) (\<lambda>block_id.
        Inr (block_new block_id (A\<lparr>num_free_blocks := size_sub prev_count 1\<rparr>))))"

fun alloc_loop :: "nat \<Rightarrow> arena \<Rightarrow> (block list \<times> arena) res" where
  "alloc_loop 0 A = Inr ([], A)"
| "alloc_loop (Suc n) A =
     bindE (pop_free A) (\<lambda>(b, A1). bindE (alloc_loop n A1) (\<lambda>(bs, A2). Inr (b # bs, A2)))"

definition bm_allocate :: "hash_lib \<Rightarrow> nat \<Rightarrow> bman \<Rightarrow> (block list \<times> bman) res" where
  "bm_allocate H num_blocks B =
     bindE (has_enough_blocks H num_blocks B) (\<lambda>(ok, B1).
       if \<not> ok then Inr ([], B1)
       else bindE (check (num_blocks \<le> num_free_blocks (bm_arena B1))) (\<lambda>_.
            bindE (alloc_loop num_blocks (bm_arena B1)) (\<lambda>(blocks, A').
              Inr (blocks, B1\<lparr>bm_arena := A', num_used_blocks := num_used_blocks B1 + num_blocks\<rparr>))))"

text \<open>\<open>deallocate\<close> only updates the counter: the handles are released by their owner.\<close>

definition deallocate_one :: "arena \<Rightarrow> block \<Rightarrow> nat \<Rightarrow> nat res" where
  "deallocate_one A b used =
     bindE (block_ref_count b A) (\<lambda>r.
       if block_is_valid b \<and> r \<le> 2
       then if used = 0 then Inl Fatal else Inr (used - 1)
       else Inr used)"

definition bm_deallocate :: "block list \<Rightarrow> bman \<Rightarrow> bman res" where
  "bm_deallocate blocks B =
     (case prefix_cache B of
        Some _ \<Rightarrow> bindE (foldE (deallocate_one (bm_arena B)) blocks (num_used_blocks B))
                    (\<lambda>u. Inr (B\<lparr>num_used_blocks := u\<rparr>))
      | None \<Rightarrow> Inr (B\<lparr>num_used_blocks := size_sub (num_used_blocks B) (length blocks)\<rparr>))"

definition count_shared :: "arena \<Rightarrow> block \<Rightarrow> nat \<Rightarrow> nat res" where
  "count_shared A b used =
     bindE (block_ref_count b A) (\<lambda>r. Inr (if r \<le> 2 then used + 1 else used))"

definition bm_allocate_shared ::
    "hash_lib \<Rightarrow> int list \<Rightarrow> block list \<Rightarrow> bman \<Rightarrow> (block list \<times> bman) res" where
  "bm_allocate_shared H tokens_ids existed_shared_blocks B =
     (case prefix_cache B of
        None \<Rightarrow> Inr ([], B)
      | Some P \<Rightarrow>
          bindE (pc_match H tokens_ids existed_shared_blocks (bm_arena B) P) (\<lambda>(shared_blocks, A', P').
          bindE (foldE (count_shared A') shared_blocks (num_used_blocks B)) (\<lambda>u.
            Inr (shared_blocks, B\<lparr>bm_arena := A', prefix_cache := Some P', num_used_blocks := u\<rparr>))))"

definition bm_cache ::
    "hash_lib \<Rightarrow> int \<Rightarrow> int list \<Rightarrow> block list \<Rightarrow> nat \<Rightarrow> bman \<Rightarrow> (block list \<times> bman) res" where
  "bm_cache H now token_ids blocks existed_shared_blocks_num B =
     (case prefix_cache B of
        None \<Rightarrow> Inr (blocks, B)
      | Some P \<Rightarrow>
          bindE (pc_insert H now token_ids blocks existed_shared_blocks_num (bm_arena B) P)
            (\<lambda>(n, blocks', ks, A', P'). Inr (blocks', B\<lparr>bm_arena := A', prefix_cache := Some P'\<rparr>)))"

definition bm_cache_blocks :: "hash_lib \<Rightarrow> int \<Rightarrow> block list \<Rightarrow> bman \<Rightarrow> bman res" where
  "bm_cache_blocks H now blocks B =
     (case prefix_cache B of
        None \<Rightarrow> Inr B
      | Some P \<Rightarrow>
          bindE (pc_insert_blocks H now blocks (bm_arena B) P)
            (\<lambda>(n, ks, A', P'). Inr (B\<lparr>bm_arena := A', prefix_cache := Some P'\<rparr>)))"

definition num_total_blocks :: "bman \<Rightarrow> nat" where
  "num_total_blocks B = size_sub (length (free_blocks (bm_arena B))) 1"

definition bm_num_used :: "bman \<Rightarrow> nat" where
  "bm_num_used B =
     (case prefix_cache B of
        Some _ \<Rightarrow> num_used_blocks B
      | None \<Rightarrow> size_sub (num_total_blocks B) (num_free_blocks (bm_arena B)))"

definition num_blocks_in_prefix_cache :: "bman \<Rightarrow> nat res" where
  "num_blocks_in_prefix_cache B =
     (case prefix_cache B of Some P \<Rightarrow> pc_num_blocks_checked P | None \<Rightarrow> Inr 0)"

text \<open>The check in the destructor, which runs before the members are destroyed.\<close>

definition bm_destructor_check :: "bman \<Rightarrow> unit res" where
  "bm_destructor_check B =
     check (num_free_blocks (bm_arena B) = size_sub (length (free_blocks (bm_arena B))) 1)"

section \<open>Invariant\<close>

definition cache_part :: "bman \<Rightarrow> pcache" where
  "cache_part B = (case prefix_cache B of Some P \<Rightarrow> P | None \<Rightarrow> pcache_new (arena_block_size (bm_arena B)))"

text \<open>\<open>T\<close> are the handles of the clients.\<close>

definition bm_inv :: "hash_lib \<Rightarrow> bman \<Rightarrow> token multiset \<Rightarrow> bool" where
  "bm_inv H B T \<longleftrightarrow>
     cache_inv H (bm_arena B) (cache_part B) [] (add_mset (token_of (padding_block B)) T) \<and>
     owned (padding_block B) \<and> bid (padding_block B) = 0 \<and>
     0 < length (free_blocks (bm_arena B)) \<and>
     pc_block_size (cache_part B) = arena_block_size (bm_arena B)"

text \<open>Blocks \<open>allocate\<close> can hand out: the free ones and those only the cache holds.\<close>

definition evictable :: "bman \<Rightarrow> nat" where
  "evictable B = length (filter (unshared (bm_arena B) (cache_part B)) (lru (cache_part B)))"

lemma lru_pcache_new [simp]: "lru (pcache_new n) = []"
  by (simp add: pcache_new_def)

lemma pcache_new_inv: "pc_inv H (pcache_new n) []"
  by (simp add: pc_inv_def pcache_new_def)

lemma node_tokens_Nil [simp]: "node_tokens P [] = {#}"
  by (simp add: node_tokens_def)

lemma cache_part_simps [simp]:
  "prefix_cache B = Some P \<Longrightarrow> cache_part B = P"
  "cache_part (B\<lparr>prefix_cache := Some P\<rparr>) = P"
  "cache_part (B\<lparr>num_used_blocks := u\<rparr>) = cache_part B"
  by (simp_all add: cache_part_def split: option.split)

lemma bm_inv_used [simp]: "bm_inv H (B\<lparr>num_used_blocks := u\<rparr>) T = bm_inv H B T"
  by (simp add: bm_inv_def)

section \<open>Construction\<close>

lemma init_arena_inv: "0 < n \<Longrightarrow>
    \<exists>b A. bm_allocate_one (init_arena n bs) = Inr (b, A) \<and> arena_inv A {#token_of b#} \<and> owned b \<and>
      bid b = 0 \<and> num_free_blocks A = n - 1 \<and> length (free_blocks A) = n \<and> arena_block_size A = bs"
proof -
  assume n: "0 < n"
  define A where "A = (init_arena n bs)\<lparr>num_free_blocks := n - 1, cells := [0 \<mapsto> 1], next_cell := 1\<rparr>"
  define b where "b = \<lparr>bid = 0, bsize = bs, bref = Some 0, bmgr = True, bhash = uninit_hash\<rparr>"
  let ?f = "\<lambda>i. int n - int i - 1"
  have eq: "bm_allocate_one (init_arena n bs) = Inr (b, A)"
    using n by (simp add: bm_allocate_one_def init_arena_def block_new_def A_def b_def of_nat_diff)
  have fr: "free_ids A = map ?f [0..<n - 1]"
    by (simp add: free_ids_def A_def init_arena_def take_map)
  have st: "set (free_ids A) = int ` {1..<n}"
  proof -
    have "set (free_ids A) = ?f ` {0..<n - 1}" by (simp add: fr)
    also have "\<dots> = int ` {1..<n}"
    proof (intro equalityI subsetI)
      fix x assume "x \<in> ?f ` {0..<n - 1}"
      then obtain i where "i < n - 1" "x = int (n - 1 - i)" by (auto simp: of_nat_diff)
      moreover from this have "n - 1 - i \<in> {1..<n}" by auto
      ultimately show "x \<in> int ` {1..<n}" by blast
    next
      fix x assume "x \<in> int ` {1..<n}"
      then obtain j where "1 \<le> j" "j < n" "x = int j" by auto
      then have "n - 1 - j \<in> {0..<n - 1}" "x = ?f (n - 1 - j)" by (auto simp: of_nat_diff)
      then show "x \<in> ?f ` {0..<n - 1}" by blast
    qed
    finally show ?thesis .
  qed
  have d: "distinct (free_ids A)" by (auto simp: fr distinct_map inj_on_def)
  have all: "insert 0 (int ` {1..<n}) = int ` {0..<n}"
    using n by (force simp: image_iff)
  have z: "0 \<notin> int ` {1..<n}" by auto
  have tok: "token_of b = (0, 0)" by (simp add: b_def token_of_def)
  have "arena_inv A {#token_of b#}"
    unfolding arena_inv_def st
    using d all z n by (auto simp: tok) (simp_all add: A_def init_arena_def)
  then show ?thesis using eq by (auto simp: b_def A_def init_arena_def owned_def)
qed

lemma bman_new_inv:
  assumes "0 < n" "0 < bs"
  shows "\<exists>B. bman_new n bs e = Inr B \<and> bm_inv H B {#} \<and> num_total_blocks B = n - 1 \<and>
    num_free_blocks (bm_arena B) = n - 1 \<and> num_used_blocks B = 0 \<and> arena_block_size (bm_arena B) = nat bs \<and>
    (prefix_cache B \<noteq> None \<longleftrightarrow> e)"
proof -
  obtain b A where a: "bm_allocate_one (init_arena n (nat bs)) = Inr (b, A)" "arena_inv A {#token_of b#}" "owned b"
    "bid b = 0" "num_free_blocks A = n - 1" "length (free_blocks A) = n" "arena_block_size A = nat bs"
    using init_arena_inv[OF assms(1)] by blast
  have "pc_block_size (pcache_new k) = k" for k by (simp add: pcache_new_def)
  then show ?thesis
    using a assms by (simp add: bman_new_def Let_def bm_inv_def cache_inv_def pcache_new_inv cache_part_def
        num_total_blocks_def Suc_le_eq flip: length_greater_0_conv)
qed

section \<open>allocate\<close>

lemma pop_free_inv:
  assumes "arena_inv A T" "0 < num_free_blocks A"
  shows "pop_free A = bm_allocate_one A"
  using assms by (simp add: pop_free_def bm_allocate_one_def Let_def Suc_le_eq)

lemma alloc_loop_inv:
  assumes "arena_inv A T" "n \<le> num_free_blocks A"
  shows "\<exists>bs A'. alloc_loop n A = Inr (bs, A') \<and> length bs = n \<and> arena_inv A' (tokens_of bs + T) \<and>
    list_all owned bs \<and> distinct (map bid bs) \<and> bid ` set bs \<inter> insert 0 (snd ` set_mset T) = {} \<and>
    (\<forall>b \<in> set bs. bsize b = arena_block_size A) \<and> num_free_blocks A' = num_free_blocks A - n \<and>
    free_blocks A' = free_blocks A \<and> arena_block_size A' = arena_block_size A"
  using assms
proof (induction n arbitrary: A T)
  case 0
  then show ?case by simp
next
  case (Suc n)
  obtain b A1 where b: "bm_allocate_one A = Inr (b, A1)" "arena_inv A1 (add_mset (token_of b) T)" "owned b"
    "bid b \<notin> snd ` set_mset T" "bid b \<noteq> 0" "bsize b = arena_block_size A"
    "num_free_blocks A1 = num_free_blocks A - 1" "free_blocks A1 = free_blocks A"
    "arena_block_size A1 = arena_block_size A"
    using bm_allocate_one_inv[OF Suc.prems(1)] Suc.prems(2) by auto
  have le: "n \<le> num_free_blocks A1" using b(7) Suc.prems(2) by simp
  obtain bs A2 where r: "alloc_loop n A1 = Inr (bs, A2)" "length bs = n"
    "arena_inv A2 (tokens_of bs + add_mset (token_of b) T)" "list_all owned bs" "distinct (map bid bs)"
    "bid ` set bs \<inter> insert 0 (snd ` set_mset (add_mset (token_of b) T)) = {}"
    "\<forall>b \<in> set bs. bsize b = arena_block_size A1" "num_free_blocks A2 = num_free_blocks A1 - n"
    "free_blocks A2 = free_blocks A1" "arena_block_size A2 = arena_block_size A1"
    using Suc.IH[OF b(2) le] by blast
  have "alloc_loop (Suc n) A = Inr (b # bs, A2)"
    using b(1) r(1) pop_free_inv[OF Suc.prems(1)] Suc.prems(2) by simp
  moreover have "bid b \<notin> bid ` set bs" "bid ` set bs \<inter> insert 0 (snd ` set_mset T) = {}" using r(6) by auto
  ultimately show ?case using b r by (auto simp: image_iff)
qed

lemma bm_inv_arena:
  "bm_inv H B T \<Longrightarrow> arena_inv (bm_arena B)
    (add_mset (token_of (padding_block B)) T + node_tokens (cache_part B) (lru (cache_part B)))"
  by (simp add: bm_inv_def cache_inv_def)

text \<open>The cache of \<open>B'\<close> is that of \<open>B\<close> without some blocks no client holds.\<close>

definition evicted_to :: "bman \<Rightarrow> token multiset \<Rightarrow> bman \<Rightarrow> bool" where
  "evicted_to B T B' \<longleftrightarrow> (\<exists>V. node_tokens (cache_part B) (lru (cache_part B)) =
     V + node_tokens (cache_part B') (lru (cache_part B')) \<and> set_mset V \<inter> set_mset T = {}) \<and>
     ran (view (cache_part B')) \<subseteq> ran (view (cache_part B))"

lemma evicted_to_refl [simp]: "evicted_to B T B"
  unfolding evicted_to_def by (intro conjI exI[of _ "{#}"]) simp_all

lemma evicted_to_cong: "cache_part C = cache_part B' \<Longrightarrow> evicted_to B T C = evicted_to B T B'"
  by (simp add: evicted_to_def)

text \<open>Eviction makes \<open>n\<close> blocks free whenever free and evictable blocks together suffice.\<close>

lemma has_enough_blocks_inv:
  fixes m :: nat
  assumes "bm_inv H B T"
  defines "n \<equiv> m mod 2 ^ 32"
  shows "\<exists>ok B'. has_enough_blocks H m B = Inr (ok, B') \<and> bm_inv H B' T \<and>
    (ok \<longleftrightarrow> n \<le> num_free_blocks (bm_arena B) + evictable B) \<and>
    (ok \<longrightarrow> n \<le> num_free_blocks (bm_arena B')) \<and> num_used_blocks B' = num_used_blocks B \<and>
    num_total_blocks B' = num_total_blocks B \<and> num_free_blocks (bm_arena B) \<le> num_free_blocks (bm_arena B') \<and>
    arena_block_size (bm_arena B') = arena_block_size (bm_arena B) \<and>
    (prefix_cache B' = None \<longleftrightarrow> prefix_cache B = None) \<and> evicted_to B T B'"
proof (cases "n \<le> num_free_blocks (bm_arena B)")
  case True
  then show ?thesis
    using assms(1) by (intro exI[of _ True] exI[of _ B]) (simp add: has_enough_blocks_def n_def)
next
  case False
  let ?f = "num_free_blocks (bm_arena B)"
  show ?thesis
  proof (cases "prefix_cache B")
    case None
    then have "evictable B = 0" by (simp add: evictable_def cache_part_def)
    then show ?thesis
      using None False assms(1)
      by (intro exI[of _ False] exI[of _ B]) (simp add: has_enough_blocks_def n_def)
  next
    case (Some P)
    have P: "cache_part B = P" using Some by simp
    have ci: "cache_inv H (bm_arena B) P [] (add_mset (token_of (padding_block B)) T)"
      using assms(1) by (simp add: bm_inv_def P)
    let ?vs = "victims (n - ?f) (bm_arena B) P"
    obtain A' P' where e: "pc_evict H (n - ?f) (bm_arena B) P = Inr (length ?vs, map (\<lambda>p. bhash (node_block P p)) ?vs, A', P')"
      "cache_inv H A' P' [] (add_mset (token_of (padding_block B)) T)"
      "num_free_blocks A' = ?f + length ?vs" "length (free_blocks A') = length (free_blocks (bm_arena B))"
      "arena_block_size A' = arena_block_size (bm_arena B)" "pc_block_size P' = pc_block_size P"
      "node_tokens P (lru P) = node_tokens P ?vs + node_tokens P' (lru P')"
      "view P' = without_keys (node_keys H P ?vs) (view P)"
      using pc_evict_correct[OF ci, of "n - ?f"] by blast
    have "token_of (node_block P p) \<notin># T" if "p \<in> set ?vs" for p
    proof -
      have "unshared (bm_arena B) P p" using that by (auto simp: victims_def dest: in_set_takeD)
      moreover have "p \<in> dom (pnodes P)" using that victims_sub[of "n - ?f" "bm_arena B" P] ci
        by (auto simp: cache_inv_def pc_inv_def)
      ultimately show ?thesis using unshared_not_held[OF ci] by simp
    qed
    then have ev: "evicted_to B T (B\<lparr>bm_arena := A', prefix_cache := Some P'\<rparr>)"
      unfolding evicted_to_def using e(7,8) P
      by (intro conjI exI[of _ "node_tokens P ?vs"]) (auto simp: node_tokens_def cache_part_def without_keys_def ran_def split: if_splits)
    let ?B = "B\<lparr>bm_arena := A', prefix_cache := Some P'\<rparr>"
    have len: "length ?vs = min (n - ?f) (evictable B)"
      by (simp add: victims_def evictable_def P min.commute)
    have inv: "bm_inv H ?B T"
      using assms(1) e(2,4,5,6) P by (simp add: bm_inv_def cache_part_def flip: length_greater_0_conv)
    have "has_enough_blocks H m B = Inr (n \<le> ?f + evictable B, ?B)"
      unfolding has_enough_blocks_def n_def[symmetric] Let_def
      using False by (auto simp: Some e(1,3) len)
    then show ?thesis using inv e(3,4,5) len Some False ev by (auto simp: num_total_blocks_def)
  qed
qed

lemma bm_inv_alloc:
  assumes "bm_inv H B T" "n \<le> num_free_blocks (bm_arena B)"
  shows "\<exists>bs A'. alloc_loop n (bm_arena B) = Inr (bs, A') \<and> length bs = n \<and>
    bm_inv H (B\<lparr>bm_arena := A', num_used_blocks := u\<rparr>) (tokens_of bs + T) \<and>
    list_all owned bs \<and> distinct (map bid bs) \<and>
    bid ` set bs \<inter> insert 0 (snd ` set_mset (T + node_tokens (cache_part B) (lru (cache_part B)))) = {} \<and>
    (\<forall>b \<in> set bs. bsize b = arena_block_size (bm_arena B)) \<and>
    num_free_blocks A' = num_free_blocks (bm_arena B) - n \<and> free_blocks A' = free_blocks (bm_arena B) \<and>
    arena_block_size A' = arena_block_size (bm_arena B)"
proof -
  obtain bs A' where a: "alloc_loop n (bm_arena B) = Inr (bs, A')" "length bs = n"
    "arena_inv A' (tokens_of bs + (add_mset (token_of (padding_block B)) T + node_tokens (cache_part B) (lru (cache_part B))))"
    "list_all owned bs" "distinct (map bid bs)"
    "bid ` set bs \<inter> insert 0 (snd ` set_mset (add_mset (token_of (padding_block B)) T + node_tokens (cache_part B) (lru (cache_part B)))) = {}"
    "\<forall>b \<in> set bs. bsize b = arena_block_size (bm_arena B)"
    "num_free_blocks A' = num_free_blocks (bm_arena B) - n" "free_blocks A' = free_blocks (bm_arena B)"
    "arena_block_size A' = arena_block_size (bm_arena B)"
    using alloc_loop_inv[OF bm_inv_arena[OF assms(1)] assms(2)] by blast
  have cp: "cache_part (B\<lparr>bm_arena := A', num_used_blocks := u\<rparr>) = cache_part B"
    using a(10) by (simp add: cache_part_def split: option.split)
  have "bm_inv H (B\<lparr>bm_arena := A', num_used_blocks := u\<rparr>) (tokens_of bs + T)"
    using assms(1) a(3,9,10) unfolding bm_inv_def cp by (simp add: cache_inv_def add_ac)
  then show ?thesis using a by auto
qed

lemma bm_allocate_ok:
  assumes "bm_inv H B T" "n < 2 ^ 32" "n \<le> num_free_blocks (bm_arena B) + evictable B"
  shows "\<exists>bs B'. bm_allocate H n B = Inr (bs, B') \<and> length bs = n \<and> bm_inv H B' (tokens_of bs + T) \<and>
    list_all owned bs \<and> distinct (map bid bs) \<and> bid ` set bs \<inter> insert 0 (snd ` set_mset T) = {} \<and>
    (\<forall>b \<in> set bs. bsize b = arena_block_size (bm_arena B)) \<and>
    num_used_blocks B' = num_used_blocks B + n \<and> num_total_blocks B' = num_total_blocks B \<and>
    arena_block_size (bm_arena B') = arena_block_size (bm_arena B) \<and>
    (prefix_cache B' = None \<longleftrightarrow> prefix_cache B = None) \<and> evicted_to B T B'"
proof -
  have m: "n mod 2 ^ 32 = n" using assms(2) by simp
  obtain B1 where B1: "has_enough_blocks H n B = Inr (True, B1)" "bm_inv H B1 T"
    "n \<le> num_free_blocks (bm_arena B1)" "num_used_blocks B1 = num_used_blocks B"
    "num_total_blocks B1 = num_total_blocks B" "arena_block_size (bm_arena B1) = arena_block_size (bm_arena B)"
    "prefix_cache B1 = None \<longleftrightarrow> prefix_cache B = None" "evicted_to B T B1"
    using has_enough_blocks_inv[OF assms(1), of n] assms(3) unfolding m by metis
  obtain bs A' where a: "alloc_loop n (bm_arena B1) = Inr (bs, A')" "length bs = n"
    "bm_inv H (B1\<lparr>bm_arena := A', num_used_blocks := num_used_blocks B1 + n\<rparr>) (tokens_of bs + T)"
    "list_all owned bs" "distinct (map bid bs)"
    "bid ` set bs \<inter> insert 0 (snd ` set_mset (T + node_tokens (cache_part B1) (lru (cache_part B1)))) = {}"
    "\<forall>b \<in> set bs. bsize b = arena_block_size (bm_arena B1)" "free_blocks A' = free_blocks (bm_arena B1)"
    "arena_block_size A' = arena_block_size (bm_arena B1)"
    using bm_inv_alloc[OF B1(2,3), of "num_used_blocks B1 + n"] by blast
  let ?B2 = "B1\<lparr>bm_arena := A', num_used_blocks := num_used_blocks B1 + n\<rparr>"
  have "cache_part ?B2 = cache_part B1" using a(9) by (simp add: cache_part_def split: option.split)
  then have ev: "evicted_to B T ?B2" using B1(8) evicted_to_cong by blast
  have "bm_allocate H n B = Inr (bs, B1\<lparr>bm_arena := A', num_used_blocks := num_used_blocks B1 + n\<rparr>)"
    using B1(1,3) a(1) by (simp add: bm_allocate_def)
  moreover have "bid ` set bs \<inter> insert 0 (snd ` set_mset T) = {}" using a(6) by auto
  ultimately show ?thesis
    using a B1 ev by (simp add: num_total_blocks_def)
qed

text \<open>When enough blocks are free, the cache is not touched.\<close>

lemma bm_allocate_free:
  assumes "bm_inv H B T" "n < 2 ^ 32" "n \<le> num_free_blocks (bm_arena B)"
  shows "\<exists>bs A'. bm_allocate H n B = Inr (bs, B\<lparr>bm_arena := A', num_used_blocks := num_used_blocks B + n\<rparr>) \<and>
    length bs = n \<and> bm_inv H (B\<lparr>bm_arena := A', num_used_blocks := num_used_blocks B + n\<rparr>) (tokens_of bs + T) \<and>
    list_all owned bs \<and> distinct (map bid bs) \<and> bid ` set bs \<inter> insert 0 (snd ` set_mset T) = {} \<and>
    (\<forall>b \<in> set bs. bsize b = arena_block_size (bm_arena B)) \<and>
    num_free_blocks A' = num_free_blocks (bm_arena B) - n"
proof -
  have e: "has_enough_blocks H n B = Inr (True, B)" using assms(2,3) by (simp add: has_enough_blocks_def)
  obtain bs A' where a: "alloc_loop n (bm_arena B) = Inr (bs, A')" "length bs = n"
    "bm_inv H (B\<lparr>bm_arena := A', num_used_blocks := num_used_blocks B + n\<rparr>) (tokens_of bs + T)"
    "list_all owned bs" "distinct (map bid bs)"
    "bid ` set bs \<inter> insert 0 (snd ` set_mset (T + node_tokens (cache_part B) (lru (cache_part B)))) = {}"
    "\<forall>b \<in> set bs. bsize b = arena_block_size (bm_arena B)" "num_free_blocks A' = num_free_blocks (bm_arena B) - n"
    using bm_inv_alloc[OF assms(1,3), of "num_used_blocks B + n"] by blast
  have "bid ` set bs \<inter> insert 0 (snd ` set_mset T) = {}" using a(6) by auto
  moreover have "bm_allocate H n B = Inr (bs, B\<lparr>bm_arena := A', num_used_blocks := num_used_blocks B + n\<rparr>)"
    using e a(1) assms(3) by (simp add: bm_allocate_def)
  ultimately show ?thesis using a by blast
qed

lemma bm_allocate_none:
  assumes "bm_inv H B T" "n < 2 ^ 32" "num_free_blocks (bm_arena B) + evictable B < n"
  shows "\<exists>B'. bm_allocate H n B = Inr ([], B') \<and> bm_inv H B' T \<and> num_used_blocks B' = num_used_blocks B \<and>
    arena_block_size (bm_arena B') = arena_block_size (bm_arena B) \<and>
    (prefix_cache B' = None \<longleftrightarrow> prefix_cache B = None) \<and> evicted_to B T B'"
proof -
  have m: "n mod 2 ^ 32 = n" using assms(2) by simp
  obtain B1 where "has_enough_blocks H n B = Inr (False, B1)" "bm_inv H B1 T" "num_used_blocks B1 = num_used_blocks B"
    "arena_block_size (bm_arena B1) = arena_block_size (bm_arena B)"
    "prefix_cache B1 = None \<longleftrightarrow> prefix_cache B = None" "evicted_to B T B1"
    using has_enough_blocks_inv[OF assms(1), of n] assms(3) unfolding m by (metis not_le)
  then show ?thesis by (simp add: bm_allocate_def)
qed

end
