(* ===== verification/Block_Usage.thy ===== *)
theory Block_Usage
  imports Block_Manager
begin

text \<open>
  The counter \<open>num_used_blocks_\<close> of \<open>BlockManagerImpl\<close>. \<open>used_exact\<close> says that it counts the
  distinct blocks held by clients; \<open>sharing_ok\<close> is the discipline under which it does: a
  block is cached at most once, and a block with several client handles is cached. The
  file also has the invariant for \<open>allocate_shared\<close> and \<open>cache\<close>, and the destructor's check.
\<close>

section \<open>Counting handles\<close>

abbreviation cached_tokens :: "bman \<Rightarrow> token multiset" where
  "cached_tokens B \<equiv> node_tokens (cache_part B) (lru (cache_part B))"

definition sharing_ok :: "bman \<Rightarrow> token multiset \<Rightarrow> bool" where
  "sharing_ok B T \<longleftrightarrow>
     (\<forall>t \<in># T. snd t \<noteq> 0) \<and> (\<forall>t. count (cached_tokens B) t \<le> 1) \<and>
     (\<forall>t \<in># T. 1 < count T t \<longrightarrow> t \<in># cached_tokens B)"

definition used_exact :: "bman \<Rightarrow> token multiset \<Rightarrow> bool" where
  "used_exact B T \<longleftrightarrow> num_used_blocks B = card (set_mset T)"

lemma handles_at_count:
  "(\<And>u. u \<in># M \<Longrightarrow> fst u = fst t \<longleftrightarrow> snd u = snd t) \<Longrightarrow> handles_at (fst t) M = count M t"
proof (induction M)
  case (add u M)
  have "fst u = fst t \<longleftrightarrow> u = t" using add.prems[of u] by (simp add: prod_eq_iff)
  moreover have "handles_at (fst t) M = count M t" using add by simp
  ultimately show ?case by simp
qed simp

lemma count_tokens_distinct:
  "distinct (map token_of bs) \<Longrightarrow> count (tokens_of bs) t = (if t \<in> token_of ` set bs then 1 else 0)"
  unfolding tokens_of_def distinct_count_atmost_1 by (metis set_map)

lemma ref_count_split:
  assumes "bm_inv H B T" "owned b" "token_of b \<in># T" "bid b \<noteq> 0"
  shows "block_ref_count b (bm_arena B) = Inr (count T (token_of b) + count (cached_tokens B) (token_of b))"
proof -
  let ?M = "add_mset (token_of (padding_block B)) T + cached_tokens B"
  note ai = bm_inv_arena[OF assms(1)]
  have in': "token_of b \<in># ?M" using assms(3) by simp
  have "handles_at (fst (token_of b)) ?M = count ?M (token_of b)"
    by (rule handles_at_count) (rule arena_invD(4)[OF ai _ in'])
  moreover have "token_of (padding_block B) \<noteq> token_of b"
    using assms(1,4) by (auto simp: bm_inv_def token_of_def)
  ultimately show ?thesis using block_ref_count_inv[OF ai in' assms(2)] by simp
qed

lemma last_handle_iff:
  assumes "bm_inv H B T" "sharing_ok B T" "owned b" "token_of b \<in># T"
  shows "\<exists>r. block_ref_count b (bm_arena B) = Inr r \<and> (r \<le> 2 \<longleftrightarrow> count T (token_of b) = 1)"
proof -
  let ?t = "token_of b"
  have s: "snd ?t \<noteq> 0" "count (cached_tokens B) ?t \<le> 1" "1 < count T ?t \<longrightarrow> 0 < count (cached_tokens B) ?t"
    using assms(2,4) unfolding sharing_ok_def count_greater_zero_iff by blast+
  have "0 < count T ?t" using assms(4) by (simp add: count_greater_zero_iff)
  then have "count T ?t + count (cached_tokens B) ?t \<le> 2 \<longleftrightarrow> count T ?t = 1" using s(2,3) by linarith
  moreover have "bid b \<noteq> 0" using s(1) by simp
  ultimately show ?thesis using ref_count_split[OF assms(1,3,4)] by blast
qed

section \<open>deallocate\<close>

lemma deallocate_loop:
  assumes "bm_inv H B T" "sharing_ok B T"
    and "\<And>b. b \<in> set bs \<Longrightarrow> owned b \<and> block_is_valid b \<and> token_of b \<in># T"
    and "length (filter (\<lambda>b. count T (token_of b) = 1) bs) \<le> u"
  shows "foldE (deallocate_one (bm_arena B)) bs u =
    Inr (u - length (filter (\<lambda>b. count T (token_of b) = 1) bs))"
  using assms(3,4)
proof (induction bs arbitrary: u)
  case (Cons b bs)
  obtain r where r: "block_ref_count b (bm_arena B) = Inr r" "r \<le> 2 \<longleftrightarrow> count T (token_of b) = 1"
    using last_handle_iff[OF assms(1,2)] Cons.prems(1) by force
  have "deallocate_one (bm_arena B) b u = Inr (if count T (token_of b) = 1 then u - 1 else u)"
    using r Cons.prems by (auto simp: deallocate_one_def)
  then show ?case using Cons by (auto simp: le_diff_conv)
qed simp

text \<open>Handles that disappear with the last client handle of their block.\<close>

lemma card_last_handles:
  assumes "distinct (map token_of bs)"
  shows "card (set_mset (tokens_of bs + R)) =
    card (set_mset R) + length (filter (\<lambda>b. count (tokens_of bs + R) (token_of b) = 1) bs)"
proof -
  let ?T = "tokens_of bs + R"
  let ?L = "filter (\<lambda>b. count ?T (token_of b) = 1) bs"
  have c1: "count (tokens_of bs) t = (if t \<in> token_of ` set bs then 1 else 0)" for t
    by (rule count_tokens_distinct[OF assms])
  have "set_mset ?T = set_mset R \<union> token_of ` set ?L"
  proof (intro equalityI subsetI)
    fix t assume t: "t \<in># ?T"
    show "t \<in> set_mset R \<union> token_of ` set ?L"
    proof (cases "t \<in># R")
      case False
      then have "t \<in># tokens_of bs" "count R t = 0" using t by (auto simp: count_eq_zero_iff)
      then show ?thesis using c1[of t] by (auto simp: tokens_of_def)
    qed simp
  qed (auto simp: tokens_of_def)
  moreover have "set_mset R \<inter> token_of ` set ?L = {}"
  proof -
    have "count R (token_of b) = 0" if "b \<in> set ?L" for b
      using that c1[of "token_of b"] by auto
    then show ?thesis by (auto simp: count_eq_zero_iff)
  qed
  moreover have "card (token_of ` set ?L) = length ?L"
    using assms by (metis distinct_card distinct_map_filter length_map set_map)
  ultimately show ?thesis by (simp add: card_Un_disjoint)
qed

lemma bm_deallocate_exact:
  assumes "bm_inv H B (tokens_of bs + R)" "sharing_ok B (tokens_of bs + R)"
    and "used_exact B (tokens_of bs + R)" "prefix_cache B \<noteq> None"
    and "list_all owned bs" "list_all block_is_valid bs" "distinct (map token_of bs)"
  shows "\<exists>B'. bm_deallocate bs B = Inr B' \<and> used_exact B' R \<and> bm_inv H B' (tokens_of bs + R) \<and>
    bm_arena B' = bm_arena B \<and> prefix_cache B' = prefix_cache B"
proof -
  let ?T = "tokens_of bs + R"
  let ?k = "length (filter (\<lambda>b. count ?T (token_of b) = 1) bs)"
  have u: "num_used_blocks B = card (set_mset R) + ?k"
    using assms(3) card_last_handles[OF assms(7), of R] by (simp add: used_exact_def)
  have "foldE (deallocate_one (bm_arena B)) bs (num_used_blocks B) = Inr (num_used_blocks B - ?k)"
    using assms(5,6) u by (intro deallocate_loop[OF assms(1,2)]) (auto simp: list_all_iff tokens_of_def)
  then show ?thesis
    using assms(1,4) u by (auto simp: bm_deallocate_def used_exact_def)
qed

section \<open>allocate\<close>

lemma used_exact_fresh:
  assumes "used_exact B T" "num_used_blocks B' = num_used_blocks B + length bs"
    and "distinct (map bid bs)" "bid ` set bs \<inter> snd ` set_mset T = {}"
  shows "used_exact B' (tokens_of bs + T)"
proof -
  have d: "distinct (map token_of bs)"
    using assms(3) by (auto simp: distinct_map inj_on_def token_of_def)
  have "token_of ` set bs \<inter> set_mset T = {}"
  proof (rule ccontr)
    assume "token_of ` set bs \<inter> set_mset T \<noteq> {}"
    then obtain b where "b \<in> set bs" "token_of b \<in># T" by auto
    then have "bid b \<in> bid ` set bs \<inter> snd ` set_mset T" by (metis IntI bid_token image_eqI)
    then show False using assms(4) by simp
  qed
  moreover have "card (token_of ` set bs) = length bs"
    using d by (metis distinct_card length_map set_map)
  ultimately show ?thesis
    using assms(1,2) by (simp add: used_exact_def tokens_of_def card_Un_disjoint Int_commute)
qed

section \<open>allocate_shared\<close>

lemma same_nodes_tokens: "same_nodes P P' \<Longrightarrow> node_tokens P' ps = node_tokens P ps"
  by (simp add: same_nodes_def node_tokens_def node_block_def)

lemma bm_inv_update:
  assumes "bm_inv H B T" "prefix_cache B = Some P" "cache_inv H A' P' [] (add_mset (token_of (padding_block B)) T')"
    and "length (free_blocks A') = length (free_blocks (bm_arena B))" "arena_block_size A' = arena_block_size (bm_arena B)"
    and "pc_block_size P' = pc_block_size P"
  shows "bm_inv H (B\<lparr>bm_arena := A', prefix_cache := Some P'\<rparr>) T'"
  using assms unfolding bm_inv_def by (simp add: cache_part_def flip: length_greater_0_conv)

lemma count_shared_total:
  assumes "bm_inv H B T" "\<And>b. b \<in> set bs \<Longrightarrow> owned b \<and> token_of b \<in># T"
  shows "\<exists>u'. foldE (count_shared (bm_arena B)) bs u = Inr u' \<and> u \<le> u' \<and> u' \<le> u + length bs"
  using assms(2)
proof (induction bs arbitrary: u)
  case (Cons b bs)
  have "\<exists>r. block_ref_count b (bm_arena B) = Inr r"
    using block_ref_count_inv[OF bm_inv_arena[OF assms(1)], of b] Cons.prems by auto
  then obtain r where "block_ref_count b (bm_arena B) = Inr r" by blast
  then have "count_shared (bm_arena B) b u = Inr (if r \<le> 2 then u + 1 else u)" by (simp add: count_shared_def)
  then show ?case
    using Cons.IH[of "if r \<le> 2 then u + 1 else u"] Cons.prems by (auto split: if_splits)
qed simp

text \<open>The blocks \<open>match\<close> adds to the blocks the sequence already shares.\<close>

lemma bm_allocate_shared_correct:
  assumes "bm_inv H B T" "prefix_cache B = Some P" "size_ok (pc_block_size P)"
    and "list_all owned existed" "set_mset (tokens_of existed) \<subseteq> set_mset T"
    and "pc_block_size P \<le> length ts"
  defines "found \<equiv> existed @ hits H P (match_keys H P ts existed)"
  shows "\<exists>B' A' P' u. bm_allocate_shared H ts existed B = Inr (found, B') \<and> bm_inv H B' (tokens_of found + T) \<and>
    list_all owned found \<and> B' = B\<lparr>bm_arena := A', prefix_cache := Some P', num_used_blocks := u\<rparr> \<and>
    foldE (count_shared A') found (num_used_blocks B) = Inr u \<and> same_nodes P P' \<and> same_arena (bm_arena B) A'"
proof -
  let ?p = "token_of (padding_block B)"
  have P: "cache_part B = P" using assms(2) by simp
  have ci: "cache_inv H (bm_arena B) P [] (add_mset ?p T)" using assms(1) by (simp add: bm_inv_def P)
  have sub: "set_mset (tokens_of existed) \<subseteq> set_mset (add_mset ?p T)" using assms(5) by auto
  obtain A' P' where m: "pc_match H ts existed (bm_arena B) P = Inr (found, A', P')"
    "cache_inv H A' P' [] (tokens_of found + add_mset ?p T)" "list_all owned found" "same_nodes P P'"
    "same_arena (bm_arena B) A'"
    using pc_match_correct[OF ci assms(3,4) sub assms(6)] unfolding found_def by blast
  let ?B = "B\<lparr>bm_arena := A', prefix_cache := Some P'\<rparr>"
  have inv: "bm_inv H ?B (tokens_of found + T)"
    using m(2,4,5) by (intro bm_inv_update[OF assms(1,2)]) (simp_all add: same_arena_def same_nodes_def)
  obtain u where u: "foldE (count_shared A') found (num_used_blocks B) = Inr u"
    using count_shared_total[OF inv, of found "num_used_blocks B"] m(3) by (auto simp: list_all_iff tokens_of_def)
  have "bm_inv H (?B\<lparr>num_used_blocks := u\<rparr>) (tokens_of found + T)" using inv by simp
  moreover have "bm_allocate_shared H ts existed B = Inr (found, ?B\<lparr>num_used_blocks := u\<rparr>)"
    using assms(2) m(1) u by (simp add: bm_allocate_shared_def)
  ultimately show ?thesis using m u by blast
qed

lemma count_shared_loop:
  assumes "bm_inv H B T" "sharing_ok B T"
    and "\<And>b. b \<in> set bs \<Longrightarrow> owned b \<and> token_of b \<in># T"
  shows "foldE (count_shared (bm_arena B)) bs u = Inr (u + length (filter (\<lambda>b. count T (token_of b) = 1) bs))"
  using assms(3)
proof (induction bs arbitrary: u)
  case (Cons b bs)
  obtain r where "block_ref_count b (bm_arena B) = Inr r" "r \<le> 2 \<longleftrightarrow> count T (token_of b) = 1"
    using last_handle_iff[OF assms(1,2)] Cons.prems by force
  then have "count_shared (bm_arena B) b u = Inr (if count T (token_of b) = 1 then u + 1 else u)"
    by (simp add: count_shared_def)
  then show ?case using Cons by auto
qed simp

lemma hits_tokens:
  assumes "pc_inv H P []"
  shows "b \<in> set (hits H P ks) \<Longrightarrow> token_of b \<in># node_tokens P (lru P) \<and> bid b \<noteq> 0"
proof -
  assume "b \<in> set (hits H P ks)"
  then obtain k where k: "b = hit_block H P k" "find_key H k P \<noteq> None"
    by (auto simp: hits_def dest!: set_takeWhileD)
  then obtain p where p: "find_key H k P = Some p" by auto
  obtain nd where nd: "pnodes P p = Some nd" using pc_inv_find(1)[OF assms p] by blast
  have "p \<in> set (lru P)" using pc_inv_node(4)[OF assms nd] by simp
  moreover have "b = node_block P p" using k p by (simp add: hit_block_def)
  ultimately show ?thesis
    using node_tokens_member[of p "lru P" P] pc_inv_node(3)[OF assms nd] by simp
qed

lemma bm_allocate_shared_sharing:
  assumes "bm_inv H B T" "sharing_ok B T" "prefix_cache B = Some P"
    and "size_ok (pc_block_size P)" "pc_block_size P \<le> length ts"
  defines "found \<equiv> hits H P (match_keys H P ts [])"
  assumes "distinct (map token_of found)"
  shows "\<exists>B'. bm_allocate_shared H ts [] B = Inr (found, B') \<and> bm_inv H B' (tokens_of found + T) \<and>
    sharing_ok B' (tokens_of found + T) \<and> list_all owned found \<and> cached_tokens B' = cached_tokens B \<and>
    view (cache_part B') = view P \<and> num_used_blocks B' + card (set_mset T) = num_used_blocks B + card (set_mset (tokens_of found + T)) \<and>
    arena_block_size (bm_arena B') = arena_block_size (bm_arena B) \<and>
    num_free_blocks (bm_arena B') = num_free_blocks (bm_arena B) \<and> prefix_cache B' \<noteq> None"
proof -
  let ?T = "tokens_of found + T"
  obtain B' A' P' u where b: "bm_allocate_shared H ts [] B = Inr (found, B')" "bm_inv H B' ?T" "list_all owned found"
    "B' = B\<lparr>bm_arena := A', prefix_cache := Some P', num_used_blocks := u\<rparr>"
    "foldE (count_shared A') found (num_used_blocks B) = Inr u" "same_nodes P P'" "same_arena (bm_arena B) A'"
    using bm_allocate_shared_correct[OF assms(1,3,4) _ _ assms(5), of "[]"] unfolding found_def by auto
  have pi: "pc_inv H P []" using assms(1,3) by (simp add: bm_inv_def cache_inv_def)
  have pi': "pc_inv H P' []" using b(2,4) by (simp add: bm_inv_def cache_inv_def cache_part_def)
  have "mset (lru P') = mset (lru P)"
    using pi pi' b(6) by (simp add: pc_inv_def same_nodes_def set_eq_iff_mset_eq_distinct[symmetric])
  then have nt: "cached_tokens B' = cached_tokens B"
    using same_nodes_tokens[OF b(6)] node_tokens_mset[of "lru P'" "lru P" P] assms(3) b(4)
    by (simp add: cache_part_def)
  have fd: "b \<in> set found \<Longrightarrow> token_of b \<in># cached_tokens B \<and> bid b \<noteq> 0" for b
    using hits_tokens[OF pi] assms(3) unfolding found_def by simp
  have c1: "count (tokens_of found) t = (if t \<in> token_of ` set found then 1 else 0)" for t
    by (rule count_tokens_distinct[OF assms(7)])
  have so: "sharing_ok B' ?T"
    unfolding sharing_ok_def nt
  proof (intro conjI ballI allI impI)
    fix t assume "t \<in># ?T"
    then show "snd t \<noteq> 0" using assms(2) fd by (auto simp: sharing_ok_def tokens_of_def)
  next
    fix t show "count (cached_tokens B) t \<le> 1" using assms(2) unfolding sharing_ok_def by blast
  next
    fix t assume "t \<in># ?T" "1 < count ?T t"
    then show "t \<in># cached_tokens B"
      using c1[of t] fd assms(2) by (cases "t \<in> token_of ` set found") (auto simp: sharing_ok_def tokens_of_def)
  qed
  have "u = num_used_blocks B + length (filter (\<lambda>b. count ?T (token_of b) = 1) found)"
    using count_shared_loop[OF b(2) so, of found "num_used_blocks B"] b(3,4,5)
    by (simp add: list_all_iff tokens_of_def)
  then have "num_used_blocks B' + card (set_mset T) = num_used_blocks B + card (set_mset ?T)"
    using card_last_handles[OF assms(7), of T] b(4) by simp
  then show ?thesis using b so nt same_nodes_view[OF b(6)] by (auto simp: same_arena_def cache_part_def)
qed

lemma bm_allocate_shared_exact:
  assumes "bm_inv H B T" "sharing_ok B T" "used_exact B T" "prefix_cache B = Some P"
    and "size_ok (pc_block_size P)" "pc_block_size P \<le> length ts"
  defines "found \<equiv> hits H P (match_keys H P ts [])"
  assumes "distinct (map token_of found)"
  shows "\<exists>B'. bm_allocate_shared H ts [] B = Inr (found, B') \<and> bm_inv H B' (tokens_of found + T) \<and>
    sharing_ok B' (tokens_of found + T) \<and> used_exact B' (tokens_of found + T)"
  using bm_allocate_shared_sharing[OF assms(1,2,4-6)] assms(3,8) unfolding found_def used_exact_def by auto

section \<open>Sharing under allocation\<close>

lemma sharing_ok_evicted:
  assumes "sharing_ok B T" "evicted_to B T B'"
  shows "sharing_ok B' T"
proof -
  obtain V where V: "cached_tokens B = V + cached_tokens B'" "set_mset V \<inter> set_mset T = {}"
    using assms(2) unfolding evicted_to_def by blast
  show ?thesis
    unfolding sharing_ok_def
  proof (intro conjI ballI allI impI)
    fix t assume "t \<in># T"
    then show "snd t \<noteq> 0" using assms(1) unfolding sharing_ok_def by blast
  next
    fix t
    have "count (cached_tokens B) t \<le> 1" using assms(1) unfolding sharing_ok_def by blast
    then show "count (cached_tokens B') t \<le> 1" by (simp add: V(1))
  next
    fix t assume t: "t \<in># T" "1 < count T t"
    then have "t \<in># V + cached_tokens B'" using assms(1) V(1) unfolding sharing_ok_def by metis
    then show "t \<in># cached_tokens B'" using t(1) V(2) by auto
  qed
qed

lemma sharing_ok_add:
  assumes "sharing_ok B T" "distinct (map bid bs)" "bid ` set bs \<inter> insert 0 (snd ` set_mset T) = {}"
  shows "sharing_ok B (tokens_of bs + T)"
proof -
  have d: "distinct (map token_of bs)" using assms(2) by (auto simp: distinct_map inj_on_def token_of_def)
  have fresh: "token_of b \<notin># T \<and> bid b \<noteq> 0" if "b \<in> set bs" for b
    using that assms(3) by (metis (no_types, lifting) IntI bid_token emptyE image_eqI insertI1 insertI2)
  show ?thesis
    unfolding sharing_ok_def
  proof (intro conjI ballI allI impI)
    fix t assume "t \<in># tokens_of bs + T"
    then show "snd t \<noteq> 0" using assms(1) fresh by (auto simp: sharing_ok_def tokens_of_def)
  next
    fix t show "count (cached_tokens B) t \<le> 1" using assms(1) unfolding sharing_ok_def by blast
  next
    fix t assume t: "t \<in># tokens_of bs + T" "1 < count (tokens_of bs + T) t"
    have "t \<notin> token_of ` set bs"
    proof
      assume i: "t \<in> token_of ` set bs"
      then have "count T t = 0" using fresh by (auto simp: count_eq_zero_iff)
      then show False using t(2) count_tokens_distinct[OF d, of t] i by simp
    qed
    then have "t \<in># T" "1 < count T t" using t count_tokens_distinct[OF d, of t] by (auto simp: tokens_of_def)
    then show "t \<in># cached_tokens B" using assms(1) unfolding sharing_ok_def by blast
  qed
qed

lemma sharing_ok_sub: "sharing_ok B (X + T) \<Longrightarrow> sharing_ok B T"
  unfolding sharing_ok_def by (auto simp: trans_less_add2)

lemma sharing_ok_cong: "cached_tokens B' = cached_tokens B \<Longrightarrow> sharing_ok B' T = sharing_ok B T"
  by (simp add: sharing_ok_def)

section \<open>cache\<close>

lemma bm_cache_correct:
  assumes "bm_inv H B T" "hash_lib_ok H" "prefix_cache B = Some P" "size_ok (pc_block_size P)"
    and "list_all (cacheable T) blocks" "m \<le> min (length ts div pc_block_size P) (length blocks)"
  shows "\<exists>blocks' B' P'. bm_cache H now ts blocks m B = Inr (blocks', B') \<and> bm_inv H B' T \<and>
    prefix_cache B' = Some P' \<and>
    view P' = put_all H (keyed (insert_keys_of H P ts blocks m) (drop m blocks)) (view P) \<and>
    map token_of blocks' = map token_of blocks \<and> num_used_blocks B' = num_used_blocks B \<and>
    list_all (cacheable T) blocks' \<and> arena_block_size (bm_arena B') = arena_block_size (bm_arena B)"
proof -
  let ?p = "token_of (padding_block B)"
  have ci: "cache_inv H (bm_arena B) P [] (add_mset ?p T)" using assms(1,3) by (simp add: bm_inv_def)
  have "list_all (cacheable (add_mset ?p T)) blocks" using assms(5) by (auto simp: list_all_iff cacheable_def)
  then obtain n blocks' ks A' P' where i: "pc_insert H now ts blocks m (bm_arena B) P = Inr (n, blocks', ks, A', P')"
    "cache_inv H A' P' [] (add_mset ?p T)"
    "view P' = put_all H (keyed (insert_keys_of H P ts blocks m) (drop m blocks)) (view P)"
    "pc_block_size P' = pc_block_size P" "same_arena (bm_arena B) A'" "map token_of blocks' = map token_of blocks"
    "list_all (cacheable (add_mset ?p T)) blocks'"
    using pc_insert_correct[OF ci assms(2,4) _ assms(6)] by blast
  have "list_all (cacheable T) blocks'"
  proof -
    have "bid b \<noteq> 0 \<and> token_of b \<in> token_of ` set blocks" if "b \<in> set blocks'" for b
      using that i(6,7) by (metis cacheable_def image_eqI list_all_iff set_map)
    then have "bid b \<noteq> 0 \<and> token_of b \<in># T" if "b \<in> set blocks'" for b
      using that assms(5) by (metis (no_types, lifting) cacheable_def image_iff list_all_iff)
    then show ?thesis using i(7) by (auto simp: list_all_iff cacheable_def)
  qed
  moreover have "arena_block_size A' = arena_block_size (bm_arena B)" using i(5) by (simp add: same_arena_def)
  moreover
  have "bm_inv H (B\<lparr>bm_arena := A', prefix_cache := Some P'\<rparr>) T"
    using i(2,4,5) by (intro bm_inv_update[OF assms(1,3)]) (simp_all add: same_arena_def)
  ultimately show ?thesis using i assms(3) by (auto simp: bm_cache_def)
qed

section \<open>The destructor\<close>

lemma destructor_check_iff:
  assumes "bm_inv H B T"
  shows "bm_destructor_check B = Inr () \<longleftrightarrow>
    (\<forall>t \<in># T. snd t = 0) \<and> lru (cache_part B) = []"
proof -
  let ?P = "cache_part B"
  define M where "M = add_mset (token_of (padding_block B)) T + node_tokens ?P (lru ?P)"
  have z: "bid (padding_block B) = 0" "0 < length (free_blocks (bm_arena B))"
    using assms by (simp_all add: bm_inv_def)
  have "bm_destructor_check B = Inr () \<longleftrightarrow> card (snd ` set_mset M - {0}) = 0"
  proof -
    have "num_free_blocks (bm_arena B) + card (snd ` set_mset M - {0}) + 1 = length (free_blocks (bm_arena B))"
      using arena_inv_card[OF bm_inv_arena[OF assms], folded M_def] z(2) by linarith
    then show ?thesis
      unfolding bm_destructor_check_def check_eq_Inr by (metis add_cancel_right_right add_diff_cancel_right'
          le_add2 size_sub_le)
  qed
  also have "\<dots> \<longleftrightarrow> snd ` set_mset M - {0} = {}" by simp
  also have "\<dots> \<longleftrightarrow> (\<forall>t \<in># M. snd t = 0)" by blast
  also have "\<dots> \<longleftrightarrow> (\<forall>t \<in># T. snd t = 0) \<and> (\<forall>t \<in># node_tokens ?P (lru ?P). snd t = 0)"
    using z(1) by (simp add: M_def ball_Un)
  also have "(\<forall>t \<in># node_tokens ?P (lru ?P). snd t = 0) \<longleftrightarrow> lru ?P = []"
  proof -
    have "bid (node_block ?P p) \<noteq> 0" if "p \<in> set (lru ?P)" for p
      using assms that unfolding bm_inv_def cache_inv_def pc_inv_def by auto
    then show ?thesis by (cases "lru ?P") (auto simp: node_tokens_def)
  qed
  finally show ?thesis .
qed

end
