(* ===== verification/Embedding_Manager.thy ===== *)
theory Embedding_Manager
  imports Blocks
begin

text \<open>
  \<open>core/framework/block/embedding_manager.{h,cpp}\<close>: the manager of embedding ids, a stack of
  free ids beside a bitmap of the ids in use. Every method runs under \<open>mutex_\<close>. The
  handles it returns are given by their ids (a handle's reference counting is that of
  theory \<open>Blocks\<close>); \<open>em_deallocate\<close> reads of each handle whether it is valid and its count.
\<close>

record eman =
  em_free_ids :: "int list"
  em_in_use :: "bool list"
  em_num_free :: nat
  em_num_used :: nat

definition eman_new :: "nat \<Rightarrow> eman" where
  "eman_new num_ids =
     \<lparr>em_free_ids = map (\<lambda>i. int (num_ids - i - 1)) [0..<num_ids],
      em_in_use = replicate num_ids False, em_num_free = num_ids, em_num_used = 0\<rparr>"

text \<open>The body both \<open>allocate\<close> overloads share: pop an id and mark it.\<close>

definition em_pop :: "eman \<Rightarrow> (int \<times> eman) res" where
  "em_pop E =
     (let prev_count = em_num_free E in
      bindE (nth_res (em_free_ids E) (size_sub prev_count 1)) (\<lambda>block_id.
      bindE (check (block_id \<ge> 0)) (\<lambda>_.
      bindE (check (nat block_id < length (em_in_use E))) (\<lambda>_.
      bindE (check (\<not> em_in_use E ! nat block_id)) (\<lambda>_.
        Inr (block_id, E\<lparr>em_num_free := size_sub prev_count 1,
                         em_in_use := (em_in_use E)[nat block_id := True]\<rparr>))))))"

fun em_alloc_loop :: "nat \<Rightarrow> eman \<Rightarrow> (int list \<times> eman) res" where
  "em_alloc_loop 0 E = Inr ([], E)"
| "em_alloc_loop (Suc n) E =
     bindE (em_pop E) (\<lambda>(i, E1). bindE (em_alloc_loop n E1) (\<lambda>(is, E2). Inr (i # is, E2)))"

definition em_allocate :: "nat \<Rightarrow> eman \<Rightarrow> (int list \<times> eman) res" where
  "em_allocate num_blocks E =
     (if num_blocks > em_num_free E then Inr ([], E)
      else bindE (em_alloc_loop num_blocks E) (\<lambda>(is, E').
             Inr (is, E'\<lparr>em_num_used := em_num_used E' + num_blocks\<rparr>)))"

definition em_allocate_one :: "eman \<Rightarrow> (int \<times> eman) res" where
  "em_allocate_one E =
     bindE (check (em_num_free E > 0)) (\<lambda>_.
     bindE (em_pop E) (\<lambda>(i, E'). Inr (i, E'\<lparr>em_num_used := em_num_used E' + 1\<rparr>)))"

definition em_deallocate_one :: "bool \<times> nat \<Rightarrow> eman \<Rightarrow> eman res" where
  "em_deallocate_one h E =
     (case h of (valid, ref_count) \<Rightarrow>
      if valid \<and> ref_count = 1
      then bindE (check (em_num_used E > 0)) (\<lambda>_. Inr (E\<lparr>em_num_used := em_num_used E - 1\<rparr>))
      else Inr E)"

definition em_deallocate :: "(bool \<times> nat) list \<Rightarrow> eman \<Rightarrow> eman res" where
  "em_deallocate blocks E = foldE em_deallocate_one blocks E"

definition em_free :: "int \<Rightarrow> eman \<Rightarrow> eman res" where
  "em_free block_id E =
     (if block_id < 0 then Inr E
      else bindE (check (nat block_id < length (em_in_use E))) (\<lambda>_.
           bindE (check (em_in_use E ! nat block_id)) (\<lambda>_.
           let prev_count = em_num_free E in
           bindE (check (prev_count < length (em_free_ids E))) (\<lambda>_.
             Inr (E\<lparr>em_in_use := (em_in_use E)[nat block_id := False],
                    em_num_free := prev_count + 1,
                    em_free_ids := (em_free_ids E)[prev_count := block_id]\<rparr>)))))"

section \<open>Invariant\<close>

text \<open>The live part of the stack lists exactly the ids whose bit is clear.\<close>

definition em_live :: "eman \<Rightarrow> int list" where
  "em_live E = take (em_num_free E) (em_free_ids E)"

definition em_inv :: "eman \<Rightarrow> bool" where
  "em_inv E \<longleftrightarrow>
     length (em_in_use E) = length (em_free_ids E) \<and> em_num_free E \<le> length (em_free_ids E) \<and>
     distinct (em_live E) \<and>
     set (em_live E) = {int i |i. i < length (em_in_use E) \<and> \<not> em_in_use E ! i}"

definition em_used_ids :: "eman \<Rightarrow> nat set" where
  "em_used_ids E = {i. i < length (em_in_use E) \<and> em_in_use E ! i}"

lemma eman_new_inv: "em_inv (eman_new n)"
proof -
  have "set (map (\<lambda>i. int (n - i - 1)) [0..<n]) = {int i |i. i < n}"
  proof (intro equalityI subsetI)
    fix x assume "x \<in> {int i |i. i < n}"
    then obtain i where i: "i < n" "x = int i" by auto
    then have "x = int (n - (n - i - 1) - 1)" "n - i - 1 \<in> set [0..<n]" by auto
    then show "x \<in> set (map (\<lambda>i. int (n - i - 1)) [0..<n])" by (metis (no_types, lifting) image_eqI set_map)
  next
    fix x assume "x \<in> set (map (\<lambda>i. int (n - i - 1)) [0..<n])"
    then obtain i where "i < n" "x = int (n - i - 1)" unfolding set_map by auto
    then show "x \<in> {int i |i. i < n}" by (intro CollectI exI[of _ "n - i - 1"]) simp
  qed
  then show ?thesis
    by (auto simp: em_inv_def eman_new_def em_live_def distinct_map inj_on_def)
qed

lemma em_pop_inv:
  assumes "em_inv E" "0 < em_num_free E"
  shows "\<exists>i E'. em_pop E = Inr (int i, E') \<and> em_inv E' \<and> i \<notin> em_used_ids E \<and>
    em_used_ids E' = insert i (em_used_ids E) \<and> i < length (em_in_use E) \<and>
    em_num_free E' = em_num_free E - 1 \<and> em_num_used E' = em_num_used E"
proof -
  define n where "n = em_num_free E - 1"
  have n: "em_num_free E = Suc n" "n < length (em_free_ids E)"
    using assms by (auto simp add: n_def em_inv_def)
  define x where "x = em_free_ids E ! n"
  have lv: "em_live E = take n (em_free_ids E) @ [x]"
    using n by (simp add: em_live_def x_def take_Suc_conv_app_nth)
  have "x \<in> set (em_live E)" by (simp add: lv)
  then obtain i where i: "x = int i" "i < length (em_in_use E)" "\<not> em_in_use E ! i"
    using assms(1) by (auto simp: em_inv_def)
  define E' where "E' = E\<lparr>em_num_free := n, em_in_use := (em_in_use E)[i := True]\<rparr>"
  have eq: "em_pop E = Inr (int i, E')"
    using n i by (simp add: em_pop_def Let_def x_def[symmetric] E'_def)
  have "em_inv E'"
    unfolding em_inv_def
  proof (intro conjI)
    show "length (em_in_use E') = length (em_free_ids E')" "em_num_free E' \<le> length (em_free_ids E')"
      using assms(1) n by (simp_all add: E'_def em_inv_def)
    have l: "em_live E' = take n (em_free_ids E)" by (simp add: E'_def em_live_def)
    show "distinct (em_live E')" using assms(1) lv l by (simp add: em_inv_def)
    have "set (em_live E') = set (em_live E) - {int i}"
    proof -
      have "distinct (take n (em_free_ids E) @ [int i])" using assms(1) lv i(1) by (simp add: em_inv_def)
      then show ?thesis unfolding l lv i(1) by simp
    qed
    also have "\<dots> = {int j |j. j < length (em_in_use E) \<and> \<not> em_in_use E ! j} - {int i}"
      using assms(1) by (simp add: em_inv_def)
    also have "\<dots> = {int j |j. j < length (em_in_use E') \<and> \<not> em_in_use E' ! j}"
      using i(2) by (auto simp: E'_def nth_list_update)
    finally show "set (em_live E') = {int j |j. j < length (em_in_use E') \<and> \<not> em_in_use E' ! j}" .
  qed
  moreover have "em_used_ids E' = insert i (em_used_ids E)"
    using i(2) by (auto simp: em_used_ids_def E'_def nth_list_update)
  ultimately show ?thesis using eq i by (auto simp: E'_def n_def em_used_ids_def)
qed

lemma em_alloc_loop_inv:
  assumes "em_inv E" "n \<le> em_num_free E"
  shows "\<exists>is E'. em_alloc_loop n E = Inr (map int is, E') \<and> length is = n \<and> distinct is \<and> em_inv E' \<and>
    set is \<inter> em_used_ids E = {} \<and> em_used_ids E' = set is \<union> em_used_ids E \<and>
    em_num_free E' = em_num_free E - n \<and> em_num_used E' = em_num_used E"
  using assms
proof (induction n arbitrary: E)
  case 0
  then show ?case by simp
next
  case (Suc n)
  obtain i E1 where e: "em_pop E = Inr (int i, E1)" "em_inv E1" "i \<notin> em_used_ids E"
    "em_used_ids E1 = insert i (em_used_ids E)" "em_num_free E1 = em_num_free E - 1" "em_num_used E1 = em_num_used E"
    using em_pop_inv[OF Suc.prems(1)] Suc.prems(2) by auto
  have "n \<le> em_num_free E1" using e(5) Suc.prems(2) by simp
  from Suc.IH[OF e(2) this] obtain "is" E2 where r: "em_alloc_loop n E1 = Inr (map int is, E2)" "length is = n"
    "distinct is" "em_inv E2" "set is \<inter> em_used_ids E1 = {}" "em_used_ids E2 = set is \<union> em_used_ids E1"
    "em_num_free E2 = em_num_free E1 - n" "em_num_used E2 = em_num_used E1" by blast
  have "em_alloc_loop (Suc n) E = Inr (map int (i # is), E2)" using e(1) r(1) by simp
  then show ?case using e r by (intro exI[of _ "i # is"] exI[of _ E2]) auto
qed

text \<open>Allocation never hits one of its checks; freeing a used id makes it available again.\<close>

lemma em_allocate_correct:
  assumes "em_inv E" "n \<le> em_num_free E"
  shows "\<exists>is E'. em_allocate n E = Inr (map int is, E') \<and> length is = n \<and> distinct is \<and> em_inv E' \<and>
    set is \<inter> em_used_ids E = {} \<and> em_used_ids E' = set is \<union> em_used_ids E \<and>
    em_num_free E' = em_num_free E - n \<and> em_num_used E' = em_num_used E + n"
proof -
  obtain "is" E' where r: "em_alloc_loop n E = Inr (map int is, E')" "length is = n" "distinct is" "em_inv E'"
    "set is \<inter> em_used_ids E = {}" "em_used_ids E' = set is \<union> em_used_ids E"
    "em_num_free E' = em_num_free E - n" "em_num_used E' = em_num_used E"
    using em_alloc_loop_inv[OF assms] by blast
  have "em_allocate n E = Inr (map int is, E'\<lparr>em_num_used := em_num_used E' + n\<rparr>)"
    using r(1) assms(2) by (simp add: em_allocate_def)
  then show ?thesis
    using r by (intro exI[of _ "is"] exI) (auto simp: em_inv_def em_live_def em_used_ids_def)
qed

lemma em_num_free_card:
  assumes "em_inv E"
  shows "em_num_free E + card (em_used_ids E) = length (em_in_use E)"
proof -
  let ?n = "length (em_in_use E)"
  let ?F = "{i. i < ?n \<and> \<not> em_in_use E ! i}"
  have "card (set (em_live E)) = em_num_free E"
    using assms distinct_card[of "em_live E"] by (simp add: em_inv_def em_live_def)
  moreover have "set (em_live E) = int ` ?F" using assms by (auto simp: em_inv_def)
  ultimately have "card ?F = em_num_free E" by (simp add: card_image)
  moreover have "{..<?n} = ?F \<union> em_used_ids E" "?F \<inter> em_used_ids E = {}" by (auto simp: em_used_ids_def)
  then have "?n = card ?F + card (em_used_ids E)"
    by (metis (no_types, lifting) card_Un_disjoint card_lessThan finite_Un finite_lessThan)
  ultimately show ?thesis by simp
qed

lemma em_free_correct:
  assumes "em_inv E" "i \<in> em_used_ids E"
  shows "\<exists>E'. em_free (int i) E = Inr E' \<and> em_inv E' \<and> em_used_ids E' = em_used_ids E - {i} \<and>
    em_num_free E' = em_num_free E + 1 \<and> em_num_used E' = em_num_used E"
proof -
  have i: "i < length (em_in_use E)" "em_in_use E ! i" using assms(2) by (simp_all add: em_used_ids_def)
  have "0 < card (em_used_ids E)"
    using assms(2) by (auto simp: card_gt_0_iff em_used_ids_def)
  then have lt: "em_num_free E < length (em_free_ids E)"
    using em_num_free_card[OF assms(1)] assms(1) by (simp add: em_inv_def)
  define E' where "E' = E\<lparr>em_in_use := (em_in_use E)[i := False], em_num_free := em_num_free E + 1,
    em_free_ids := (em_free_ids E)[em_num_free E := int i]\<rparr>"
  have eq: "em_free (int i) E = Inr E'" using i lt by (simp add: em_free_def Let_def E'_def)
  have l: "em_live E' = em_live E @ [int i]"
    using lt by (simp add: E'_def em_live_def take_Suc_conv_app_nth)
  have ni: "int i \<notin> set (em_live E)" using assms(1) i(2) by (auto simp: em_inv_def)
  have "set (em_live E') = insert (int i) {int j |j. j < length (em_in_use E) \<and> \<not> em_in_use E ! j}"
    using assms(1) l by (simp add: em_inv_def)
  also have "\<dots> = {int j |j. j < length (em_in_use E') \<and> \<not> em_in_use E' ! j}"
    using i(1) by (auto simp: E'_def nth_list_update)
  finally have "em_inv E'"
    using assms(1) l ni lt by (simp add: em_inv_def E'_def)
  moreover have "em_used_ids E' = em_used_ids E - {i}"
    using i(1) by (auto simp: em_used_ids_def E'_def nth_list_update)
  ultimately show ?thesis using eq by (simp add: E'_def)
qed

lemma em_free_twice: "em_inv E \<Longrightarrow> i < length (em_in_use E) \<Longrightarrow> i \<notin> em_used_ids E \<Longrightarrow>
    em_free (int i) E = Inl Check_failed"
  by (simp add: em_free_def em_used_ids_def)

end
