(* ===== verification/KV_State.thy ===== *)
theory KV_State
  imports Blocks
begin

text \<open>
  \<open>core/framework/request/sequence_kv_state.{h,cpp}\<close>: the blocks of one sequence, how many of
  them are shared with the prefix cache, and how many tokens they hold. Destroying or
  copying handles changes the arena, so the operations that do so pass it along.
  \<open>num_owned_shared_blocks_\<close> is a \<open>uint32_t\<close>; it is bounded by \<open>blocks_.size()\<close>, which is
  below \<open>2 ^ 31\<close> because block ids are distinct \<open>int32_t\<close> values.
\<close>

section \<open>State and operations\<close>

record transfer_info =
  ti_request_id :: string
  ti_local_blocks_ids :: "nat list"
  ti_remote_blocks_ids :: "nat list"
  ti_dp_rank :: int

record kv_state =
  kv_cache_tokens_num :: nat
  kv_blocks :: "block list"
  src_blocks :: "block list"
  need_swap :: bool
  transfer_kv_info :: "transfer_info option"
  num_owned_shared_blocks :: nat

definition kv_state_new :: kv_state where
  "kv_state_new = \<lparr>kv_cache_tokens_num = 0, kv_blocks = [], src_blocks = [], need_swap = False,
     transfer_kv_info = None, num_owned_shared_blocks = 0\<rparr>"

definition current_max_tokens_capacity :: "kv_state \<Rightarrow> nat" where
  "current_max_tokens_capacity K =
     (if kv_blocks K = [] then 0 else length (kv_blocks K) * bsize (hd (kv_blocks K)))"

definition incr_kv_cache_tokens_num :: "nat \<Rightarrow> kv_state \<Rightarrow> kv_state res" where
  "incr_kv_cache_tokens_num num K =
     bindE (check (kv_cache_tokens_num K + num \<le> current_max_tokens_capacity K)) (\<lambda>_.
       Inr (K\<lparr>kv_cache_tokens_num := kv_cache_tokens_num K + num\<rparr>))"

text \<open>\<open>add_kv_blocks\<close> copies the handles of its argument.\<close>

definition add_kv_blocks :: "block list \<Rightarrow> arena \<Rightarrow> kv_state \<Rightarrow> (arena \<times> kv_state) res" where
  "add_kv_blocks new_blocks A K =
     bindE (copy_blocks new_blocks A) (\<lambda>A'. Inr (A', K\<lparr>kv_blocks := kv_blocks K @ new_blocks\<rparr>))"

definition incr_shared_kv_blocks_num :: "nat \<Rightarrow> kv_state \<Rightarrow> kv_state res" where
  "incr_shared_kv_blocks_num num K =
     bindE (check (num_owned_shared_blocks K + num \<le> length (kv_blocks K))) (\<lambda>_.
       Inr (K\<lparr>num_owned_shared_blocks := num_owned_shared_blocks K + num\<rparr>))"

text \<open>
  \<open>std::move(first, last, out)\<close> move-assigns block by block; the sources are left empty, so
  destroying the argument vector afterwards releases nothing.
\<close>

fun move_blocks :: "block list \<Rightarrow> block list \<Rightarrow> arena \<Rightarrow> (block list \<times> arena) res" where
  "move_blocks [] os A = Inr (os, A)"
| "move_blocks (m # ms) [] A = Inl Out_of_range"
| "move_blocks (m # ms) (b # os) A =
     bindE (block_move_assign False b m A) (\<lambda>(b', m', A1).
     bindE (move_blocks ms os A1) (\<lambda>(os', A2). Inr (b' # os', A2)))"

definition try_replace_unique_blocks ::
    "block list \<Rightarrow> nat \<Rightarrow> block list \<Rightarrow> arena \<Rightarrow> (nat \<times> block list \<times> arena) res" where
  "try_replace_unique_blocks matched num_owned owned_blocks A =
     (if num_owned < length matched
      then bindE (check (length owned_blocks \<ge> length matched)) (\<lambda>_.
           bindE (move_blocks matched owned_blocks A) (\<lambda>(os', A'). Inr (length matched, os', A')))
      else bindE (destroy_blocks matched A) (\<lambda>A'. Inr (num_owned, owned_blocks, A')))"

text \<open>
  \<open>add_shared_kv_blocks\<close>. The argument is an rvalue of the caller that dies right after the
  call; its remaining handles are destroyed here.
\<close>

definition add_shared_kv_blocks ::
    "block list \<Rightarrow> nat \<Rightarrow> arena \<Rightarrow> kv_state \<Rightarrow> (arena \<times> kv_state) res" where
  "add_shared_kv_blocks blocks current_total_num_tokens A K =
     (if blocks = [] then Inr (A, K)
      else if length blocks \<le> length (kv_blocks K)
      then bindE (try_replace_unique_blocks blocks (num_owned_shared_blocks K) (kv_blocks K) A)
             (\<lambda>(n, os, A'). Inr (A', K\<lparr>num_owned_shared_blocks := n, kv_blocks := os\<rparr>))
      else
        bindE (destroy_blocks (kv_blocks K) A) (\<lambda>A1.
        let block_size = bsize (hd blocks);
            num_shared_tokens = length blocks * block_size in
        if num_shared_tokens = current_total_num_tokens
        then bindE (check (block_size > 0)) (\<lambda>_.
             let shared = ((current_total_num_tokens - 1) div block_size) * block_size in
             bindE (block_destroy (last blocks) A1) (\<lambda>A2.
             bindE (check (shared < current_total_num_tokens)) (\<lambda>_.
               Inr (A2, K\<lparr>num_owned_shared_blocks := length blocks - 1, kv_blocks := butlast blocks,
                          kv_cache_tokens_num := shared\<rparr>))))
        else bindE (check (num_shared_tokens < current_total_num_tokens)) (\<lambda>_.
             Inr (A1, K\<lparr>num_owned_shared_blocks := length blocks, kv_blocks := blocks,
                        kv_cache_tokens_num := num_shared_tokens\<rparr>))))"

text \<open>Conversion of a \<open>size_t\<close> or an \<open>int64_t\<close> to \<open>int32_t\<close>, and of an \<open>int32_t\<close> to \<open>size_t\<close>.\<close>

definition to_int32 :: "int \<Rightarrow> int" where
  "to_int32 x = (x + 2 ^ 31) mod 2 ^ 32 - 2 ^ 31"

definition to_size :: "int \<Rightarrow> nat" where
  "to_size x = nat (x mod 2 ^ 64)"

definition slot_of :: "block list \<Rightarrow> nat \<Rightarrow> int \<Rightarrow> int res" where
  "slot_of blocks block_size i =
     bindE (nth_res blocks (to_size i div block_size)) (\<lambda>b.
       Inr (to_int32 (int ((to_size (bid b) * block_size + to_size i mod block_size) mod 2 ^ 64))))"

fun slots_loop :: "block list \<Rightarrow> nat \<Rightarrow> int list \<Rightarrow> int list res" where
  "slots_loop blocks block_size [] = Inr []"
| "slots_loop blocks block_size (i # is) =
     bindE (slot_of blocks block_size i) (\<lambda>s.
     bindE (slots_loop blocks block_size is) (\<lambda>ss. Inr (s # ss)))"

definition kv_cache_slots :: "int \<Rightarrow> int \<Rightarrow> kv_state \<Rightarrow> int list res" where
  "kv_cache_slots pos_start pos_end K =
     (if kv_blocks K = [] then Inl Check_failed
      else if pos_end < pos_start then Inl Runtime_error
      else let block_size = bsize (hd (kv_blocks K)) in
           if block_size = 0 \<and> pos_start < pos_end then Inl Div_by_zero
           else slots_loop (kv_blocks K) block_size [pos_start..pos_end - 1])"

definition kv_reset :: "arena \<Rightarrow> kv_state \<Rightarrow> (arena \<times> kv_state) res" where
  "kv_reset A K =
     bindE (destroy_blocks (kv_blocks K) A) (\<lambda>A'.
       Inr (A', K\<lparr>kv_cache_tokens_num := 0, num_owned_shared_blocks := 0, kv_blocks := [],
                  transfer_kv_info := None\<rparr>))"

text \<open>\<open>set_src_blocks\<close>: \<open>std::move\<close> of a \<open>const\<close> reference copies.\<close>

definition set_src_blocks :: "block list \<Rightarrow> bool \<Rightarrow> arena \<Rightarrow> kv_state \<Rightarrow> (arena \<times> kv_state) res" where
  "set_src_blocks src swap A K =
     bindE (copy_blocks src A) (\<lambda>A1.
     bindE (destroy_blocks (src_blocks K) A1) (\<lambda>A2.
       Inr (A2, K\<lparr>src_blocks := src, need_swap := swap\<rparr>)))"

definition kv_process_beam_search :: "block option \<Rightarrow> arena \<Rightarrow> kv_state \<Rightarrow> (arena \<times> kv_state) res" where
  "kv_process_beam_search new_block A K =
     bindE (destroy_blocks (kv_blocks K) A) (\<lambda>A1.
       let blocks = src_blocks K in
       case new_block of
         None \<Rightarrow> Inr (A1, K\<lparr>kv_blocks := blocks, src_blocks := []\<rparr>)
       | Some nb \<Rightarrow>
           if blocks = [] then Inl Out_of_range
           else bindE (block_destroy (last blocks) A1) (\<lambda>A2.
                bindE (block_copy nb A2) (\<lambda>(b, A3).
                  Inr (A3, K\<lparr>kv_blocks := butlast blocks @ [b], src_blocks := []\<rparr>))))"

section \<open>Handles are conserved\<close>

definition kv_tokens :: "kv_state \<Rightarrow> token multiset" where
  "kv_tokens K = tokens_of (kv_blocks K) + tokens_of (src_blocks K)"

definition kv_owned :: "kv_state \<Rightarrow> bool" where
  "kv_owned K \<longleftrightarrow> list_all owned (kv_blocks K) \<and> list_all owned (src_blocks K) \<and>
     num_owned_shared_blocks K \<le> length (kv_blocks K)"

lemma destroy_blocks_inv:
  "arena_inv A (tokens_of bs + T) \<Longrightarrow> list_all owned bs \<Longrightarrow>
    \<exists>A'. destroy_blocks bs A = Inr A' \<and> arena_inv A' T"
  unfolding destroy_blocks_def by (rule arena_handles.destroy_all)

lemma copy_blocks_inv:
  "arena_inv A T \<Longrightarrow> set_mset (tokens_of bs) \<subseteq> set_mset T \<Longrightarrow> list_all owned bs \<Longrightarrow>
    \<exists>A'. copy_blocks bs A = Inr A' \<and> arena_inv A' (tokens_of bs + T)"
  unfolding copy_blocks_def by (rule arena_handles.copy_all)

lemma tokens_of_last: "bs \<noteq> [] \<Longrightarrow> tokens_of bs = add_mset (token_of (last bs)) (tokens_of (butlast bs))"
  by (metis append_butlast_last_id add.commute add_mset_add_single tokens_of_simps)

lemma list_all_butlast_last: "list_all P xs \<Longrightarrow> xs \<noteq> [] \<Longrightarrow> list_all P (butlast xs) \<and> P (last xs)"
  by (metis append_butlast_last_id list_all_append list.pred_inject(2))

lemma add_kv_blocks_inv:
  assumes "arena_inv A (kv_tokens K + T)" "kv_owned K" "list_all owned bs" "set_mset (tokens_of bs) \<subseteq> set_mset T"
  shows "\<exists>A'. add_kv_blocks bs A K = Inr (A', K\<lparr>kv_blocks := kv_blocks K @ bs\<rparr>) \<and>
    arena_inv A' (kv_tokens (K\<lparr>kv_blocks := kv_blocks K @ bs\<rparr>) + T) \<and> kv_owned (K\<lparr>kv_blocks := kv_blocks K @ bs\<rparr>)"
proof -
  have "set_mset (tokens_of bs) \<subseteq> set_mset (kv_tokens K + T)" using assms(4) by auto
  then obtain A' where "copy_blocks bs A = Inr A'" "arena_inv A' (tokens_of bs + (kv_tokens K + T))"
    using copy_blocks_inv[OF assms(1) _ assms(3)] by blast
  then show ?thesis
    using assms(2,3) by (simp add: add_kv_blocks_def kv_tokens_def kv_owned_def add_ac)
qed

lemma move_blocks_inv:
  assumes "arena_inv A (tokens_of ms + tokens_of os + T)" "list_all owned ms" "list_all owned os"
    and "length ms \<le> length os"
  shows "\<exists>A'. move_blocks ms os A = Inr (ms @ drop (length ms) os, A') \<and>
    arena_inv A' (tokens_of (ms @ drop (length ms) os) + T)"
  using assms
proof (induction ms arbitrary: os A T)
  case Nil
  then show ?case by simp
next
  case (Cons m ms)
  obtain b os' where os: "os = b # os'" using Cons.prems(4) by (cases os) auto
  have "arena_inv A (add_mset (token_of b) (tokens_of (m # ms) + tokens_of os' + T))"
    using Cons.prems(1) os by simp
  then obtain A1 where A1: "dec_ref_count b A = Inr A1" "arena_inv A1 (tokens_of (m # ms) + tokens_of os' + T)"
    using block_destroy_inv[of A b "tokens_of (m # ms) + tokens_of os' + T"] Cons.prems(3) os
    by (auto simp: block_destroy_def)
  have "arena_inv A1 (tokens_of ms + tokens_of os' + add_mset (token_of m) T)" using A1(2) by simp
  from Cons.IH[OF this] Cons.prems os obtain A2 where
    "move_blocks ms os' A1 = Inr (ms @ drop (length ms) os', A2)"
    "arena_inv A2 (tokens_of (ms @ drop (length ms) os') + add_mset (token_of m) T)" by auto
  then show ?case using os A1(1) by (simp add: block_move_assign_def)
qed

lemma kv_reset_inv:
  assumes "arena_inv A (kv_tokens K + T)" "kv_owned K"
  shows "\<exists>A' K'. kv_reset A K = Inr (A', K') \<and> arena_inv A' (kv_tokens K' + T) \<and> kv_owned K' \<and>
    kv_blocks K' = [] \<and> src_blocks K' = src_blocks K \<and> kv_cache_tokens_num K' = 0"
  using destroy_blocks_inv[of A "kv_blocks K" "tokens_of (src_blocks K) + T"] assms
  by (auto simp: kv_reset_def kv_tokens_def kv_owned_def add_ac)

text \<open>
  Adopting matched blocks: all handles of the argument move into the sequence or are
  released, blocks the sequence gives up are released, and the position in the cache
  stays below the number of tokens.
\<close>

definition shared_len :: "block list \<Rightarrow> nat \<Rightarrow> nat" where
  "shared_len blocks tot = (if length blocks * bsize (hd blocks) = tot then length blocks - 1 else length blocks)"

lemma add_shared_grow:
  assumes "arena_inv A (tokens_of blocks + (kv_tokens K + T))" "kv_owned K" "list_all owned blocks"
    and "length (kv_blocks K) < length blocks" "0 < bsize (hd blocks)" "length blocks * bsize (hd blocks) \<le> tot"
  defines "n \<equiv> shared_len blocks tot"
  shows "\<exists>A' K'. add_shared_kv_blocks blocks tot A K = Inr (A', K') \<and> arena_inv A' (kv_tokens K' + T) \<and> kv_owned K' \<and>
    kv_blocks K' = take n blocks \<and> num_owned_shared_blocks K' = n \<and>
    kv_cache_tokens_num K' = n * bsize (hd blocks) \<and> kv_cache_tokens_num K' < tot \<and>
    src_blocks K' = src_blocks K"
proof -
  let ?bs = "bsize (hd blocks)"
  have ne: "blocks \<noteq> []" using assms(4) by auto
  have "arena_inv A (tokens_of (kv_blocks K) + (tokens_of blocks + (tokens_of (src_blocks K) + T)))"
    using assms(1) by (simp add: kv_tokens_def add_ac)
  then obtain A1 where A1: "destroy_blocks (kv_blocks K) A = Inr A1"
    "arena_inv A1 (tokens_of blocks + (tokens_of (src_blocks K) + T))"
    using destroy_blocks_inv assms(2) unfolding kv_owned_def by meson
  show ?thesis
  proof (cases "length blocks * ?bs = tot")
    case False
    then show ?thesis
      using ne assms A1 unfolding n_def
      by (simp add: add_shared_kv_blocks_def Let_def kv_tokens_def kv_owned_def shared_len_def add_ac)
  next
    case True
    have "(tot - 1) div ?bs = length blocks - 1"
    proof -
      obtain l where l: "length blocks = Suc l" using ne by (cases blocks) auto
      have "tot - 1 = (?bs - 1) + l * ?bs" using True l assms(5) by simp
      then show ?thesis using assms(5) l by (simp only: div_mult_self1) simp
    qed
    moreover have lt: "(length blocks - 1) * ?bs < tot" using True assms(5) ne by (cases blocks) auto
    moreover obtain A2 where "block_destroy (last blocks) A1 = Inr A2"
      "arena_inv A2 (tokens_of (butlast blocks) + (tokens_of (src_blocks K) + T))"
      using block_destroy_inv[of A1 "last blocks" "tokens_of (butlast blocks) + (tokens_of (src_blocks K) + T)"]
        A1(2) tokens_of_last[OF ne] list_all_butlast_last[OF assms(3) ne] by auto
    ultimately show ?thesis
      using True ne assms(2,4,5) A1(1) list_all_butlast_last[OF assms(3) ne] unfolding n_def
      by (simp add: add_shared_kv_blocks_def Let_def kv_tokens_def kv_owned_def shared_len_def add_ac butlast_conv_take)
  qed
qed

lemma add_shared_replace:
  assumes "arena_inv A (tokens_of blocks + (kv_tokens K + T))" "kv_owned K" "list_all owned blocks"
    and "length blocks \<le> length (kv_blocks K)"
  defines "os \<equiv> (if num_owned_shared_blocks K < length blocks then blocks @ drop (length blocks) (kv_blocks K)
    else kv_blocks K)"
  shows "\<exists>A' K'. add_shared_kv_blocks blocks tot A K = Inr (A', K') \<and> arena_inv A' (kv_tokens K' + T) \<and> kv_owned K' \<and>
    kv_blocks K' = os \<and> num_owned_shared_blocks K' = max (num_owned_shared_blocks K) (length blocks) \<and>
    kv_cache_tokens_num K' = kv_cache_tokens_num K \<and> src_blocks K' = src_blocks K"
proof (cases "blocks = []")
  case True
  then show ?thesis using assms by (simp add: add_shared_kv_blocks_def)
next
  case ne: False
  let ?T = "tokens_of (src_blocks K) + T"
  have own: "list_all owned (kv_blocks K)" using assms(2) by (simp add: kv_owned_def)
  show ?thesis
  proof (cases "num_owned_shared_blocks K < length blocks")
    case True
    have "arena_inv A (tokens_of blocks + tokens_of (kv_blocks K) + ?T)"
      using assms(1) by (simp add: kv_tokens_def add_ac)
    from move_blocks_inv[OF this assms(3) own assms(4)] obtain A' where
      "move_blocks blocks (kv_blocks K) A = Inr (os, A')" "arena_inv A' (tokens_of os + ?T)"
      using True by (auto simp: os_def)
    moreover have "list_all owned os" using own assms(3) by (auto simp: os_def list_all_iff dest: in_set_dropD)
    ultimately show ?thesis
      using ne True assms(2,4) os_def
      by (simp add: add_shared_kv_blocks_def try_replace_unique_blocks_def kv_tokens_def kv_owned_def add_ac)
  next
    case False
    then show ?thesis
      using destroy_blocks_inv[OF assms(1,3)] ne assms(2,4) os_def
      by (auto simp: add_shared_kv_blocks_def try_replace_unique_blocks_def)
  qed
qed

lemma kv_process_beam_search_inv:
  assumes "arena_inv A (kv_tokens K + T)" "kv_owned K" "num_owned_shared_blocks K \<le> length (src_blocks K)"
    and "src_blocks K \<noteq> []" "\<And>b. nb = Some b \<Longrightarrow> owned b \<and> token_of b \<in># T"
  shows "\<exists>A' K'. kv_process_beam_search nb A K = Inr (A', K') \<and> arena_inv A' (kv_tokens K' + T) \<and> kv_owned K' \<and>
    kv_blocks K' = (case nb of None \<Rightarrow> src_blocks K | Some b \<Rightarrow> butlast (src_blocks K) @ [b]) \<and> src_blocks K' = []"
proof -
  let ?s = "src_blocks K"
  have own: "list_all owned (kv_blocks K)" "list_all owned ?s" using assms(2) by (simp_all add: kv_owned_def)
  have "arena_inv A (tokens_of (kv_blocks K) + (tokens_of ?s + T))"
    using assms(1) by (simp add: kv_tokens_def add_ac)
  from destroy_blocks_inv[OF this own(1)] obtain A1 where
    A1: "destroy_blocks (kv_blocks K) A = Inr A1" "arena_inv A1 (tokens_of ?s + T)" by blast
  show ?thesis
  proof (cases nb)
    case None
    then show ?thesis using A1 assms(3) own by (simp add: kv_process_beam_search_def kv_tokens_def kv_owned_def)
  next
    case (Some b)
    note s = list_all_butlast_last[OF own(2) assms(4)]
    have "arena_inv A1 (add_mset (token_of (last ?s)) (tokens_of (butlast ?s) + T))"
      using A1(2) tokens_of_last[OF assms(4)] by simp
    then obtain A2 where A2: "block_destroy (last ?s) A1 = Inr A2" "arena_inv A2 (tokens_of (butlast ?s) + T)"
      using block_destroy_inv s by blast
    obtain A3 where A3: "inc_ref_count b A2 = Inr A3" "arena_inv A3 (add_mset (token_of b) (tokens_of (butlast ?s) + T))"
      using inc_ref_count_inv[OF A2(2), of b] assms(5)[OF Some] by auto
    have "kv_process_beam_search nb A K = Inr (A3, K\<lparr>kv_blocks := butlast ?s @ [b], src_blocks := []\<rparr>)"
      using A1(1) A2(1) A3(1) Some assms(4) by (simp add: kv_process_beam_search_def block_copy_def)
    then show ?thesis
      using A3(2) Some s assms(3,4,5) by (simp add: kv_tokens_def kv_owned_def Suc_le_eq)
  qed
qed

section \<open>Cache slots\<close>

text \<open>
  Within the capacity, and as long as every slot number fits \<open>int32_t\<close>, slot \<open>i\<close> is the place
  of position \<open>i\<close> in its block; distinct blocks give distinct slots.
\<close>

definition slots_fit :: "block list \<Rightarrow> nat \<Rightarrow> bool" where
  "slots_fit bs sz \<longleftrightarrow> (\<forall>b \<in> set bs. 0 \<le> bid b \<and> (bid b + 1) * int sz \<le> 2 ^ 31)"

lemma to_int32_id: "-(2 ^ 31) \<le> x \<Longrightarrow> x < 2 ^ 31 \<Longrightarrow> to_int32 x = x"
  by (simp add: to_int32_def)

lemma to_size_id: "0 \<le> x \<Longrightarrow> x < 2 ^ 64 \<Longrightarrow> int (to_size x) = x"
  by (simp add: to_size_def)

lemma slot_of_eq:
  assumes "slots_fit bs sz" "0 < sz" "i < length bs * sz" "int i < 2 ^ 31"
  shows "slot_of bs sz (int i) = Inr (bid (bs ! (i div sz)) * int sz + int (i mod sz))"
proof -
  let ?b = "bs ! (i div sz)"
  have idx: "i div sz < length bs" using assms(2,3) by (simp add: div_less_iff_less_mult)
  then have f: "0 \<le> bid ?b" "(bid ?b + 1) * int sz \<le> 2 ^ 31"
    using assms(1) by (simp_all add: slots_fit_def)
  have m: "int (i mod sz) < int sz" using assms(2) by simp
  have s: "0 \<le> bid ?b * int sz" "bid ?b * int sz + int sz \<le> 2 ^ 31"
    using f assms(2) by (simp_all add: algebra_simps)
  have "bid ?b * 1 \<le> bid ?b * int sz" using f(1) assms(2) by (intro mult_left_mono) simp_all
  then have bl: "bid ?b < 2 ^ 31" using s(2) assms(2) by linarith
  have sb: "int (to_size (bid ?b)) = bid ?b" using to_size_id[OF f(1)] bl by simp
  have si: "to_size (int i) = i" using assms(4) by (simp add: to_size_def)
  define v where "v = to_size (bid ?b) * sz + i mod sz"
  have iv: "int v = bid ?b * int sz + int (i mod sz)" by (simp add: v_def sb)
  have v31: "int v < 2 ^ 31" using iv m s by linarith
  then have "v mod 2 ^ 64 = v" by simp
  moreover have "to_int32 (int v) = int v" using v31 by (intro to_int32_id) simp_all
  ultimately show ?thesis
    using idx iv by (simp add: slot_of_def si v_def[symmetric])
qed

lemma slots_loop_eq:
  assumes "slots_fit bs sz" "0 < sz" "n \<le> length bs * sz" "int n \<le> 2 ^ 31" "\<forall>i \<in> set is. i < n"
  shows "slots_loop bs sz (map int is) = Inr (map (\<lambda>i. bid (bs ! (i div sz)) * int sz + int (i mod sz)) is)"
  using assms(5)
proof (induction "is")
  case (Cons i "is")
  then have "slot_of bs sz (int i) = Inr (bid (bs ! (i div sz)) * int sz + int (i mod sz))"
    using assms by (intro slot_of_eq) auto
  then show ?case using Cons by simp
qed simp

lemma slot_inj:
  assumes "distinct (map bid bs)" "0 < sz" "i < length bs * sz" "j < length bs * sz"
    and "bid (bs ! (i div sz)) * int sz + int (i mod sz) = bid (bs ! (j div sz)) * int sz + int (j mod sz)"
  shows "i = j"
proof -
  have sz: "0 < int sz" "0 \<le> int (i mod sz)" "int (i mod sz) < int sz" "0 \<le> int (j mod sz)" "int (j mod sz) < int sz"
    using assms(2) by simp_all
  have m: "(x * int sz + r) div int sz = x" "(x * int sz + r) mod int sz = r" if "0 \<le> r" "r < int sz" for x r
    using that sz(1) by (simp_all add: div_add1_eq)
  have b: "bid (bs ! (i div sz)) = bid (bs ! (j div sz))" and r: "i mod sz = j mod sz"
    using assms(5) m[OF sz(2,3)] m[OF sz(4,5)] by (metis, metis of_nat_eq_iff)
  have "i div sz < length bs" "j div sz < length bs" using assms(2-4) by (simp_all add: div_less_iff_less_mult)
  then have "i div sz = j div sz" using b assms(1) by (simp add: distinct_conv_nth) metis
  then show ?thesis using r by (metis div_mult_mod_eq)
qed

lemma upto_upt: "[int s..int e - 1] = map int [s..<e]"
proof (induction e)
  case (Suc e)
  show ?case
  proof (cases "s \<le> e")
    case True
    then show ?thesis using Suc upto_rec2[of "int s" "int e"] by simp
  qed simp
qed simp

lemma kv_cache_slots_eq:
  assumes "kv_blocks K \<noteq> []" "slots_fit (kv_blocks K) (bsize (hd (kv_blocks K)))" "0 < bsize (hd (kv_blocks K))"
    and "s \<le> e" "e \<le> current_max_tokens_capacity K" "int e \<le> 2 ^ 31"
  defines "sz \<equiv> bsize (hd (kv_blocks K))"
  shows "kv_cache_slots (int s) (int e) K =
    Inr (map (\<lambda>i. bid (kv_blocks K ! (i div sz)) * int sz + int (i mod sz)) [s..<e])"
proof -
  have "[int s..int e - 1] = map int [s..<e]"
    by (rule upto_upt)
  then show ?thesis
    using assms slots_loop_eq[of "kv_blocks K" sz e "[s..<e]"]
    by (simp add: kv_cache_slots_def current_max_tokens_capacity_def Let_def)
qed

end
