(* ===== verification/Stopping.thy ===== *)
theory Stopping
  imports Prelude
begin

text \<open>
  \<open>core/framework/request/stopping_checker.{h,cpp}\<close>, \<open>finish_reason.{h,cpp}\<close> and
  \<open>match_suffix\<close> of \<open>core/util/utils.cpp\<close>. Token ids are \<open>int32_t\<close> (\<open>int\<close> here); the id of the
  last valid token is stored in a \<open>size_t\<close>, so the comparisons convert the other side, which
  \<open>as_size\<close> writes out. A placeholder token of the overlapped schedule is negative.
\<close>

section \<open>Finish reasons\<close>

datatype finish_reason = FR_NONE | FR_STOP | FR_LENGTH | FR_FUNCTION_CALL

definition finish_reason_to_string :: "finish_reason \<Rightarrow> string option" where
  "finish_reason_to_string r =
     (case r of FR_NONE \<Rightarrow> None | FR_STOP \<Rightarrow> Some ''stop'' | FR_LENGTH \<Rightarrow> Some ''length'' | FR_FUNCTION_CALL \<Rightarrow> Some ''function_call'')"

section \<open>The checker\<close>

record stopping_checker =
  max_generated_tokens :: nat
  max_context_len :: nat
  eos_token :: int
  ignore_eos :: bool
  stop_tokens :: "int list"
  stop_sequences :: "int list list"

definition match_suffix :: "int list \<Rightarrow> int list \<Rightarrow> bool" where
  "match_suffix data suffix =
     (if suffix = [] then True
      else if length data < length suffix then False
      else drop (length data - length suffix) data = suffix)"

text \<open>
  The scan for the last valid token, from \<open>n = size()\<close> downwards. \<open>i >= 0\<close> always holds for the
  unsigned \<open>i\<close>: with no valid token the index wraps around and the read is out of range.
\<close>

fun last_valid :: "int list \<Rightarrow> nat \<Rightarrow> (int \<times> nat) res" where
  "last_valid ts 0 = Inl Out_of_range"
| "last_valid ts (Suc i) =
     bindE (nth_res ts i) (\<lambda>t. if t \<ge> 0 then Inr (t, Suc i) else last_valid ts i)"

definition as_size :: "int \<Rightarrow> int" where
  "as_size x = x mod 2 ^ 64"

fun check_sequences :: "int list \<Rightarrow> int \<Rightarrow> int list list \<Rightarrow> finish_reason res" where
  "check_sequences ts lst [] = Inr FR_NONE"
| "check_sequences ts lst (sq # sqs) =
     (if sq = [] then Inl Out_of_range
      else if as_size (last sq) = lst \<and> match_suffix ts sq then Inr FR_STOP
      else check_sequences ts lst sqs)"

definition stopping_check :: "stopping_checker \<Rightarrow> int list \<Rightarrow> nat \<Rightarrow> finish_reason res" where
  "stopping_check C token_ids num_prompt_tokens =
     bindE (check (token_ids \<noteq> [])) (\<lambda>_.
     bindE (last_valid token_ids (length token_ids)) (\<lambda>(last_token_id, total_tokens).
       if max_generated_tokens C > 0 \<and> size_sub total_tokens num_prompt_tokens \<ge> max_generated_tokens C
       then Inr FR_LENGTH
       else if max_context_len C > 0 \<and> total_tokens \<ge> max_context_len C
       then bindE (check (total_tokens \<ge> num_prompt_tokens)) (\<lambda>_. Inr FR_LENGTH)
       else if ignore_eos C then Inr FR_NONE
       else if last_token_id = as_size (eos_token C) then Inr FR_STOP
       else if last_token_id \<in> set (stop_tokens C) then Inr FR_STOP
       else check_sequences token_ids last_token_id (stop_sequences C)))"

section \<open>The last valid token\<close>

text \<open>\<open>ts\<close> is a list whose last element is valid, followed by placeholders.\<close>

lemma last_valid_prefix: "n \<le> length xs \<Longrightarrow> last_valid (xs @ ys) n = last_valid xs n"
  by (induction n) (simp_all add: nth_append)

lemma last_valid_skip:
  "\<forall>x \<in> set fs. x < 0 \<Longrightarrow> k \<le> length fs \<Longrightarrow> last_valid (xs @ fs) (length xs + k) = last_valid xs (length xs)"
proof (induction k)
  case (Suc k)
  then have "\<not> 0 \<le> fs ! k" by (simp add: not_le)
  moreover have "last_valid (xs @ fs) (length xs + k) = last_valid xs (length xs)" using Suc by simp
  ultimately show ?case using Suc.prems(2) by (simp add: nth_append)
qed (simp add: last_valid_prefix)

lemma last_valid_append:
  assumes "t \<ge> 0" "\<forall>x \<in> set fs. x < 0"
  shows "last_valid ((ts @ [t]) @ fs) (length ((ts @ [t]) @ fs)) = Inr (t, Suc (length ts))"
  using last_valid_skip[OF assms(2) order_refl, of "ts @ [t]"] assms(1) by simp

lemma last_valid_none:
  assumes "\<forall>x \<in> set ts. x < 0" "n \<le> length ts"
  shows "last_valid ts n = Inl Out_of_range"
  using assms(2)
proof (induction n)
  case (Suc n)
  then have "ts ! n < 0" using assms(1) by simp
  then show ?case using Suc by simp
qed simp

lemma as_size_valid: "0 \<le> x \<Longrightarrow> x < 2 ^ 63 \<Longrightarrow> as_size x = x"
  by (simp add: as_size_def)

lemma as_size_negative:
  assumes "- (2 ^ 31) \<le> x" "x < 0"
  shows "as_size x = x + 2 ^ 64"
proof -
  have "x mod 2 ^ 64 = (x + 2 ^ 64) mod 2 ^ 64" by simp
  also have "\<dots> = x + 2 ^ 64" using assms by (intro mod_pos_pos_trivial) simp_all
  finally show ?thesis by (simp add: as_size_def)
qed

lemma match_suffix_iff: "match_suffix data sf \<longleftrightarrow> (\<exists>pre. data = pre @ sf)"
proof
  assume "match_suffix data sf"
  then show "\<exists>pre. data = pre @ sf"
    unfolding match_suffix_def by (metis append_Nil2 append_take_drop_id)
qed (auto simp: match_suffix_def)

section \<open>Specification\<close>

definition int32 :: "int \<Rightarrow> bool" where
  "int32 x \<longleftrightarrow> - (2 ^ 31) \<le> x \<and> x < 2 ^ 31"

definition checker_ok :: "stopping_checker \<Rightarrow> bool" where
  "checker_ok C \<longleftrightarrow> int32 (eos_token C) \<and> (\<forall>s \<in> set (stop_sequences C). s \<noteq> [] \<and> (\<forall>x \<in> set s. int32 x))"

text \<open>What the checker promises of a token list that ends with the valid token \<open>t\<close>.\<close>

definition stop_spec :: "stopping_checker \<Rightarrow> int list \<Rightarrow> nat \<Rightarrow> finish_reason" where
  "stop_spec C ts num_prompt =
     (if 0 < max_generated_tokens C \<and> num_prompt + max_generated_tokens C \<le> length ts \<or>
         0 < max_context_len C \<and> max_context_len C \<le> length ts then FR_LENGTH
      else if ignore_eos C then FR_NONE
      else if last ts = eos_token C \<or> last ts \<in> set (stop_tokens C) \<or>
              (\<exists>s \<in> set (stop_sequences C). \<exists>pre. ts = pre @ s) then FR_STOP
      else FR_NONE)"

lemma check_sequences_eq:
  assumes "\<forall>s \<in> set sqs. s \<noteq> [] \<and> (\<forall>x \<in> set s. int32 x)" "0 \<le> t" "int32 t"
  shows "check_sequences ts t sqs =
    Inr (if \<exists>s \<in> set sqs. last s = t \<and> (\<exists>pre. ts = pre @ s) then FR_STOP else FR_NONE)"
  using assms(1)
proof (induction sqs)
  case (Cons s sqs)
  have l: "int32 (last s)" "s \<noteq> []" using Cons.prems by auto
  have "as_size (last s) = t \<longleftrightarrow> last s = t"
  proof (cases "last s \<ge> 0")
    case True
    then show ?thesis using l(1) as_size_valid[of "last s"] by (simp add: int32_def)
  next
    case False
    then have "as_size (last s) = last s + 2 ^ 64" using l(1) by (intro as_size_negative) (simp_all add: int32_def)
    then show ?thesis using False l(1) assms(2,3) by (simp add: int32_def)
  qed
  then show ?case using Cons l by (auto simp: match_suffix_iff)
qed simp

lemma eos_eq: "int32 e \<Longrightarrow> 0 \<le> t \<Longrightarrow> int32 t \<Longrightarrow> t = as_size e \<longleftrightarrow> t = e"
  using as_size_valid[of e] as_size_negative[of e] by (cases "e \<ge> 0") (auto simp: int32_def)

text \<open>
  On a token list without placeholders the checker computes the specification. Behind
  placeholders the limits, the eos token and the stop tokens are checked at the last valid
  token, but the stop sequences are compared with the end of the whole list: they can only
  match if they contain placeholders themselves.
\<close>

lemma stopping_check_valid:
  assumes "checker_ok C" "0 \<le> t" "int32 t" "p \<le> length (ts @ [t])"
  shows "stopping_check C (ts @ [t]) p = Inr (stop_spec C (ts @ [t]) p)"
proof -
  have lv: "last_valid (ts @ [t]) (length (ts @ [t])) = Inr (t, Suc (length ts))"
    using last_valid_append[OF assms(2), of "[]" ts] by simp
  have sq: "check_sequences (ts @ [t]) t (stop_sequences C) =
      Inr (if \<exists>s \<in> set (stop_sequences C). last s = t \<and> (\<exists>pre. ts @ [t] = pre @ s) then FR_STOP else FR_NONE)"
    using assms(1-3) by (intro check_sequences_eq) (auto simp: checker_ok_def)
  have "(\<exists>s \<in> set (stop_sequences C). last s = t \<and> (\<exists>pre. ts @ [t] = pre @ s)) \<longleftrightarrow>
      (\<exists>s \<in> set (stop_sequences C). \<exists>pre. ts @ [t] = pre @ s)"
    using assms(1) unfolding checker_ok_def by (metis last_appendR last_snoc)
  moreover have "t = as_size (eos_token C) \<longleftrightarrow> t = eos_token C"
    using assms(1-3) by (intro eos_eq) (simp_all add: checker_ok_def)
  moreover have "max_generated_tokens C \<le> Suc (length ts) - p \<longleftrightarrow> p + max_generated_tokens C \<le> Suc (length ts)"
    using assms(4) by auto
  ultimately show ?thesis
    using assms(4) unfolding stopping_check_def lv sq by (simp add: sq stop_spec_def)
qed

lemma stop_sequences_ignored:
  assumes "checker_ok C" "0 \<le> t" "int32 t" "p \<le> length (ts @ [t])" "fs \<noteq> []" "\<forall>x \<in> set fs. x < 0"
    and "\<forall>s \<in> set (stop_sequences C). \<forall>x \<in> set s. 0 \<le> x"
  shows "stopping_check C ((ts @ [t]) @ fs) p = Inr (stop_spec (C\<lparr>stop_sequences := []\<rparr>) (ts @ [t]) p)"
proof -
  have lv: "last_valid ((ts @ [t]) @ fs) (length ((ts @ [t]) @ fs)) = Inr (t, Suc (length ts))"
    by (rule last_valid_append[OF assms(2,6)])
  have no: "\<not> (\<exists>pre. (ts @ [t]) @ fs = pre @ s)" if "s \<in> set (stop_sequences C)" for s
  proof
    assume "\<exists>pre. (ts @ [t]) @ fs = pre @ s"
    then have "last s = last fs" using assms(1,5) that unfolding checker_ok_def by (metis last_appendR)
    moreover have "last s \<ge> 0" "last fs < 0" using assms(1,5-7) that by (auto simp: checker_ok_def)
    ultimately show False by simp
  qed
  have "check_sequences ((ts @ [t]) @ fs) t (stop_sequences C) = Inr FR_NONE"
    using check_sequences_eq[of "stop_sequences C" t "(ts @ [t]) @ fs"] assms(1-3) no by (auto simp: checker_ok_def)
  moreover have "t = as_size (eos_token C) \<longleftrightarrow> t = eos_token C"
    using assms(1-3) by (intro eos_eq) (simp_all add: checker_ok_def)
  moreover have "max_generated_tokens C \<le> Suc (length ts) - p \<longleftrightarrow> p + max_generated_tokens C \<le> Suc (length ts)"
    using assms(4) by auto
  ultimately show ?thesis
    using assms(4) unfolding stopping_check_def lv by (simp add: stop_spec_def)
qed

end
