(* ===== verification/Sequences.thy ===== *)
theory Sequences
  imports KV_State Stopping
begin

text \<open>
  \<open>core/framework/request/sequence.{h,cpp}\<close>: the tokens of one sequence, its stage, its finish
  status and its KV blocks. Left out are the log probabilities (floating point), the
  multi-modal data, the outputs other than token lists, the one-rec variant of the
  constructor and \<open>host_kv_state_\<close>, which only the hierarchy pool uses. The embedding block is
  given by its id. \<open>tokens_\<close> is a vector of fixed size; an index past its end is \<open>Out_of_range\<close>.
\<close>

section \<open>State\<close>

datatype seq_stage = PREFILL | CHUNKED_PREFILL | DECODE

record seq_params =
  seq_capacity :: nat
  enable_schedule_overlap :: bool
  is_onerec_model :: bool
  is_embeddings :: bool
  penalties_set :: bool          \<comment> \<open>a frequency, presence or repetition penalty is set\<close>
  beam_width :: int
  sp_stopping_checker :: stopping_checker

record sequence =
  sq_params :: seq_params
  sq_kv :: kv_state
  sq_tokens :: "int list"
  sq_num_tokens :: nat
  sq_num_prompt_tokens :: nat
  sq_volatile_num_prompt_tokens :: nat
  token_to_count_map :: "int \<Rightarrow> int option"
  need_unique_tokens :: bool
  is_first_token :: bool
  sq_first_token :: "int option"
  is_cache_block_for_prefill :: bool
  sq_finished :: bool
  finish_status_invalidated :: bool
  sq_finish_reason :: finish_reason
  sq_dp_rank :: int
  cur_generated_token_idx :: nat
  updated_since_last_beam_search :: bool
  embedding_id :: "int option"
  sq_cancelled :: bool
  last_token_handled :: bool

section \<open>Operations\<close>

fun fill_tokens :: "int list \<Rightarrow> sequence \<Rightarrow> sequence" where
  "fill_tokens [] s = s"
| "fill_tokens (t # ts) s =
     fill_tokens ts (s\<lparr>sq_tokens := (sq_tokens s)[sq_num_tokens s := t], sq_num_tokens := sq_num_tokens s + 1,
       token_to_count_map := (if need_unique_tokens s then (token_to_count_map s)(t \<mapsto> 0) else token_to_count_map s)\<rparr>)"

text \<open>The members before the prompt is added.\<close>

definition seq_blank :: "nat \<Rightarrow> seq_params \<Rightarrow> sequence" where
  "seq_blank n P =
     \<lparr>sq_params = P, sq_kv = kv_state_new, sq_tokens = replicate (seq_capacity P) 0, sq_num_tokens = 0,
      sq_num_prompt_tokens = n, sq_volatile_num_prompt_tokens = n,
      token_to_count_map = (\<lambda>_. None), need_unique_tokens = penalties_set P,
      is_first_token = False, sq_first_token = None, is_cache_block_for_prefill = False,
      sq_finished = False, finish_status_invalidated = True, sq_finish_reason = FR_NONE,
      sq_dp_rank = -1, cur_generated_token_idx = n,
      updated_since_last_beam_search = False, embedding_id = None, sq_cancelled = False, last_token_handled = False\<rparr>"

definition seq_new :: "int list \<Rightarrow> seq_params \<Rightarrow> sequence res" where
  "seq_new prompt_token_ids P =
     bindE (check (prompt_token_ids \<noteq> [])) (\<lambda>_.
     bindE (check (seq_capacity P > length prompt_token_ids)) (\<lambda>_.
       let s1 = fill_tokens prompt_token_ids (seq_blank (length prompt_token_ids) P)
       in Inr (s1\<lparr>token_to_count_map := (token_to_count_map s1)(last prompt_token_ids \<mapsto> 0)\<rparr>)))"

text \<open>The copy constructor; \<open>need_unique_tokens_\<close> and the two atomic flags are not among its initialisers.\<close>

definition seq_copy :: "arena \<Rightarrow> sequence \<Rightarrow> (arena \<times> sequence) res" where
  "seq_copy A other =
     bindE (copy_blocks (kv_blocks (sq_kv other) @ src_blocks (sq_kv other)) A) (\<lambda>A'.
       Inr (A', other\<lparr>need_unique_tokens := False, sq_cancelled := False, last_token_handled := False\<rparr>))"

definition seq_set_cancel :: "sequence \<Rightarrow> sequence" where
  "seq_set_cancel s = s\<lparr>sq_cancelled := True\<rparr>"

definition seq_handle_last_token :: "sequence \<Rightarrow> sequence" where
  "seq_handle_last_token s = s\<lparr>last_token_handled := True\<rparr>"

definition tokens_view :: "sequence \<Rightarrow> int list" where
  "tokens_view s = take (sq_num_tokens s) (sq_tokens s)"

definition seq_cached_tokens :: "sequence \<Rightarrow> int list" where
  "seq_cached_tokens s = take (kv_cache_tokens_num (sq_kv s)) (sq_tokens s)"

definition stage :: "sequence \<Rightarrow> seq_stage" where
  "stage s =
     (if kv_cache_tokens_num (sq_kv s) < max (sq_volatile_num_prompt_tokens s) (sq_num_prompt_tokens s)
      then if kv_cache_tokens_num (sq_kv s) > 0 then CHUNKED_PREFILL else PREFILL
      else DECODE)"

definition get_generated_tokens :: "sequence \<Rightarrow> int list" where
  "get_generated_tokens s =
     (if sq_num_tokens s > sq_num_prompt_tokens s
      then take (sq_num_tokens s - sq_num_prompt_tokens s) (drop (sq_num_prompt_tokens s) (sq_tokens s))
      else [])"

definition if_cache_block_for_prefill :: "sequence \<Rightarrow> bool \<times> sequence" where
  "if_cache_block_for_prefill s =
     (let if_cache = (\<not> is_cache_block_for_prefill s \<and> sq_num_tokens s > sq_num_prompt_tokens s)
      in (if_cache, s\<lparr>is_cache_block_for_prefill := is_cache_block_for_prefill s \<or> if_cache\<rparr>))"

text \<open>\<open>pd\<close> is the flag \<open>enable_disagg_pd\<close>; of the token only the id is kept.\<close>

definition record_first_token :: "bool \<Rightarrow> int \<Rightarrow> sequence \<Rightarrow> sequence" where
  "record_first_token pd tid s = (if \<not> pd \<or> \<not> is_first_token s then s else s\<lparr>sq_first_token := Some tid\<rparr>)"

text \<open>\<open>operator[]\<close> of the map inserts 0 for an absent key.\<close>

definition bump :: "int \<Rightarrow> int \<Rightarrow> (int \<Rightarrow> int option) \<Rightarrow> int \<Rightarrow> int option" where
  "bump t d m = m(t \<mapsto> (case m t of None \<Rightarrow> d | Some c \<Rightarrow> c + d))"

definition count_token :: "int \<Rightarrow> sequence \<Rightarrow> sequence" where
  "count_token t s = (if need_unique_tokens s then s\<lparr>token_to_count_map := bump t 1 (token_to_count_map s)\<rparr> else s)"

definition append_token :: "bool \<Rightarrow> int \<Rightarrow> sequence \<Rightarrow> sequence res" where
  "append_token pd tid s =
     bindE (check (sq_num_tokens s < length (sq_tokens s))) (\<lambda>_.
     bindE (check (\<not> sq_finished s)) (\<lambda>_.
     bindE (if is_onerec_model (sq_params s) then Inr ()
            else check (kv_cache_tokens_num (sq_kv s) > 0 \<and> stage s \<noteq> CHUNKED_PREFILL)) (\<lambda>_.
       let s1 = (if enable_schedule_overlap (sq_params s) then s
                 else s\<lparr>is_first_token := (sq_num_tokens s = sq_num_prompt_tokens s)\<rparr>);
           s2 = record_first_token pd tid s1;
           cur_idx = sq_num_tokens s2;
           token_id = to_int32 tid;
           s3 = s2\<lparr>sq_num_tokens := cur_idx + 1,
                   sq_kv := (sq_kv s2)\<lparr>kv_cache_tokens_num := cur_idx\<rparr>,
                   sq_tokens := (sq_tokens s2)[cur_idx := token_id]\<rparr>
       in if enable_schedule_overlap (sq_params s) \<and> token_id < 0
          then Inr (s3\<lparr>finish_status_invalidated := True\<rparr>)
          else Inr ((count_token token_id s3)\<lparr>finish_status_invalidated := True, updated_since_last_beam_search := True\<rparr>))))"

text \<open>\<open>update_last_step_token\<close>; for \<open>token_offset > 0\<close> the two placeholders are shifted.\<close>

definition shift_placeholders :: "sequence \<Rightarrow> sequence res" where
  "shift_placeholders s =
     bindE (incr_kv_cache_tokens_num 1 (sq_kv s)) (\<lambda>kv.
     let i = cur_generated_token_idx s; ts = sq_tokens s in
     if i + 2 < length ts
     then Inr (s\<lparr>sq_kv := kv, sq_num_tokens := sq_num_tokens s + 1,
                 sq_tokens := (ts[i + 2 := ts ! (i + 1)])[i + 1 := ts ! i]\<rparr>)
     else Inl Out_of_range)"

definition put_last_token :: "int \<Rightarrow> sequence \<Rightarrow> sequence res" where
  "put_last_token token_id s =
     (if cur_generated_token_idx s < length (sq_tokens s)
      then Inr ((count_token token_id (s\<lparr>sq_tokens := (sq_tokens s)[cur_generated_token_idx s := token_id]\<rparr>))
                \<lparr>cur_generated_token_idx := cur_generated_token_idx s + 1,
                 finish_status_invalidated := True, updated_since_last_beam_search := True\<rparr>)
      else Inl Out_of_range)"

definition update_last_step_token :: "bool \<Rightarrow> int \<Rightarrow> nat \<Rightarrow> sequence \<Rightarrow> sequence res" where
  "update_last_step_token pd tid token_offset s =
     bindE (check (enable_schedule_overlap (sq_params s))) (\<lambda>_.
       let s1 = record_first_token pd tid
                  (s\<lparr>is_first_token := (cur_generated_token_idx s = sq_num_prompt_tokens s)\<rparr>) in
       if token_offset > 0
       then if kv_blocks (sq_kv s1) = [] then Inr s1
            else bindE (shift_placeholders s1) (put_last_token (to_int32 tid))
       else put_last_token (to_int32 tid) s1)"

definition update_token :: "bool \<Rightarrow> nat \<Rightarrow> int \<Rightarrow> sequence \<Rightarrow> sequence res" where
  "update_token pd index tid s =
     (let s1 = record_first_token pd tid s; token_id = to_int32 tid in
      bindE (nth_res (sq_tokens s1) index) (\<lambda>origin_token_id.
        let s2 = s1\<lparr>sq_tokens := (sq_tokens s1)[index := token_id]\<rparr>;
            s3 = (if need_unique_tokens s2
                  then s2\<lparr>token_to_count_map := bump token_id 1 (bump origin_token_id (-1) (token_to_count_map s2))\<rparr>
                  else s2)
        in Inr (s3\<lparr>finish_status_invalidated := True\<rparr>)))"

definition update_embeddings :: "sequence \<Rightarrow> sequence" where
  "update_embeddings s =
     (if sq_finished s then s
      else if is_embeddings (sq_params s)
      then s\<lparr>finish_status_invalidated := False, sq_finished := True, sq_finish_reason := FR_STOP\<rparr>
      else s)"

definition seq_finished_check :: "sequence \<Rightarrow> (bool \<times> sequence) res" where
  "seq_finished_check s =
     (if \<not> finish_status_invalidated s then Inr (sq_finished s, s)
      else if is_onerec_model (sq_params s) \<and> sq_num_tokens s = sq_num_prompt_tokens s then Inr (False, s)
      else if is_embeddings (sq_params s) then Inr (False, s)
      else let s1 = s\<lparr>finish_status_invalidated := False\<rparr> in
           bindE (stopping_check (sp_stopping_checker (sq_params s)) (tokens_view s) (sq_num_prompt_tokens s)) (\<lambda>r.
             if r \<noteq> FR_NONE then Inr (True, s1\<lparr>sq_finish_reason := r, sq_finished := True\<rparr>)
             else Inr (False, s1)))"

definition seq_finish :: "sequence \<Rightarrow> sequence" where
  "seq_finish s =
     s\<lparr>sq_finished := True, finish_status_invalidated := False,
       sq_finish_reason := (if sq_finish_reason s = FR_NONE then FR_STOP else sq_finish_reason s)\<rparr>"

definition reset_finish_state_for_beam_search :: "sequence \<Rightarrow> sequence res" where
  "reset_finish_state_for_beam_search s =
     bindE (seq_finished_check (s\<lparr>sq_finished := False, sq_finish_reason := FR_NONE, finish_status_invalidated := True\<rparr>))
       (\<lambda>(b, s'). Inr s')"

definition seq_reset :: "arena \<Rightarrow> sequence \<Rightarrow> (arena \<times> sequence) res" where
  "seq_reset A s =
     bindE (kv_reset A (sq_kv s)) (\<lambda>(A', kv).
       Inr (A', s\<lparr>sq_kv := kv, sq_volatile_num_prompt_tokens := sq_num_tokens s\<rparr>))"

text \<open>The number of tokens \<open>generate_output\<close> and \<open>generate_streaming_output\<close> print.\<close>

definition output_size :: "sequence \<Rightarrow> nat res" where
  "output_size s = bindE (last_valid (sq_tokens s) (sq_num_tokens s)) (\<lambda>(t, size). Inr size)"

section \<open>Well-formed sequences\<close>

definition seq_inv :: "sequence \<Rightarrow> bool" where
  "seq_inv s \<longleftrightarrow> length (sq_tokens s) = seq_capacity (sq_params s) \<and> sq_num_tokens s \<le> length (sq_tokens s) \<and>
     0 < sq_num_prompt_tokens s \<and> sq_num_prompt_tokens s \<le> sq_num_tokens s"

text \<open>The count map counts the generated tokens \<open>gen\<close>; prompt tokens are present with count 0.\<close>

definition counts_ok :: "sequence \<Rightarrow> int list \<Rightarrow> bool" where
  "counts_ok s gen \<longleftrightarrow> need_unique_tokens s \<longrightarrow>
     (\<forall>t. (case token_to_count_map s t of None \<Rightarrow> t \<notin> set gen \<union> set (take (sq_num_prompt_tokens s) (sq_tokens s))
           | Some c \<Rightarrow> c = int (count_list gen t)))"

lemma length_tokens_view: "seq_inv s \<Longrightarrow> length (tokens_view s) = sq_num_tokens s"
  by (simp add: seq_inv_def tokens_view_def)

lemma generated_view: "seq_inv s \<Longrightarrow> get_generated_tokens s = drop (sq_num_prompt_tokens s) (tokens_view s)"
  by (auto simp: get_generated_tokens_def tokens_view_def seq_inv_def drop_take)

lemma fill_tokens_sel:
  "sq_params (fill_tokens ts s) = sq_params s" "sq_kv (fill_tokens ts s) = sq_kv s"
  "sq_num_prompt_tokens (fill_tokens ts s) = sq_num_prompt_tokens s"
  "sq_volatile_num_prompt_tokens (fill_tokens ts s) = sq_volatile_num_prompt_tokens s"
  "need_unique_tokens (fill_tokens ts s) = need_unique_tokens s" "sq_finished (fill_tokens ts s) = sq_finished s"
  "finish_status_invalidated (fill_tokens ts s) = finish_status_invalidated s"
  "cur_generated_token_idx (fill_tokens ts s) = cur_generated_token_idx s"
  "sq_num_tokens (fill_tokens ts s) = sq_num_tokens s + length ts"
  "length (sq_tokens (fill_tokens ts s)) = length (sq_tokens s)"
  by (induction ts arbitrary: s) simp_all

lemma fill_tokens_view:
  "sq_num_tokens s + length ts \<le> length (sq_tokens s) \<Longrightarrow> tokens_view (fill_tokens ts s) = tokens_view s @ ts"
proof (induction ts arbitrary: s)
  case (Cons t ts)
  then show ?case by (simp add: tokens_view_def take_Suc_conv_app_nth)
qed simp

lemma fill_tokens_counts:
  "need_unique_tokens s \<Longrightarrow> token_to_count_map (fill_tokens ts s) t =
    (if t \<in> set ts then Some 0 else token_to_count_map s t)"
  by (induction ts arbitrary: s) auto

lemma seq_new_ok:
  assumes "prompt \<noteq> []" "length prompt < seq_capacity P"
  shows "\<exists>s. seq_new prompt P = Inr s \<and> seq_inv s \<and> tokens_view s = prompt \<and> get_generated_tokens s = [] \<and>
    counts_ok s [] \<and> stage s = PREFILL \<and> cur_generated_token_idx s = sq_num_tokens s \<and> \<not> sq_finished s"
proof -
  let ?b = "seq_blank (length prompt) P"
  define s1 where "s1 = fill_tokens prompt ?b"
  define s where "s = s1\<lparr>token_to_count_map := (token_to_count_map s1)(last prompt \<mapsto> 0)\<rparr>"
  have eq: "seq_new prompt P = Inr s" using assms by (simp add: seq_new_def s_def s1_def Let_def)
  have b: "sq_num_tokens ?b = 0" "sq_num_prompt_tokens ?b = length prompt" "length (sq_tokens ?b) = seq_capacity P"
    "sq_params ?b = P" "cur_generated_token_idx ?b = length prompt" "\<not> sq_finished ?b" "sq_kv ?b = kv_state_new"
    "sq_volatile_num_prompt_tokens ?b = length prompt" "token_to_count_map ?b = (\<lambda>_. None)"
    by (simp_all add: seq_blank_def)
  have n: "sq_num_tokens s = length prompt" "sq_num_prompt_tokens s = length prompt"
    "length (sq_tokens s) = seq_capacity P" "sq_params s = P" "cur_generated_token_idx s = length prompt" "\<not> sq_finished s"
    "sq_kv s = kv_state_new" "sq_volatile_num_prompt_tokens s = length prompt"
    using b by (simp_all add: s_def s1_def fill_tokens_sel)
  have inv: "seq_inv s" using n assms by (simp add: seq_inv_def)
  have "tokens_view s1 = tokens_view ?b @ prompt" unfolding s1_def using b assms(2) by (intro fill_tokens_view) simp
  then have view: "tokens_view s = prompt" using b(1) by (simp add: tokens_view_def s_def)
  have pr: "take (sq_num_prompt_tokens s) (sq_tokens s) = prompt" using view n by (simp add: tokens_view_def)
  have "counts_ok s []"
    unfolding counts_ok_def pr
  proof (intro impI allI)
    fix t assume "need_unique_tokens s"
    then have "need_unique_tokens ?b" by (simp add: s_def s1_def fill_tokens_sel)
    then have "token_to_count_map s t = (if t \<in> set prompt then Some 0 else None)"
      using fill_tokens_counts[of ?b prompt t] b(9) assms(1) by (auto simp: s_def s1_def)
    then show "case token_to_count_map s t of None \<Rightarrow> t \<notin> set [] \<union> set prompt | Some c \<Rightarrow> c = int (count_list [] t)" by simp
  qed
  moreover have "stage s = PREFILL" using n assms by (simp add: stage_def kv_state_new_def)
  ultimately show ?thesis using eq inv view n generated_view[OF inv] by auto
qed

section \<open>Appending tokens\<close>

lemma record_first_token_sel [simp]:
  "sq_params (record_first_token pd t s) = sq_params s" "sq_kv (record_first_token pd t s) = sq_kv s"
  "sq_tokens (record_first_token pd t s) = sq_tokens s" "sq_num_tokens (record_first_token pd t s) = sq_num_tokens s"
  "sq_num_prompt_tokens (record_first_token pd t s) = sq_num_prompt_tokens s"
  "token_to_count_map (record_first_token pd t s) = token_to_count_map s"
  "need_unique_tokens (record_first_token pd t s) = need_unique_tokens s"
  "sq_finished (record_first_token pd t s) = sq_finished s"
  "cur_generated_token_idx (record_first_token pd t s) = cur_generated_token_idx s"
  "sq_volatile_num_prompt_tokens (record_first_token pd t s) = sq_volatile_num_prompt_tokens s"
  by (simp_all add: record_first_token_def)

lemma count_token_sel [simp]:
  "sq_params (count_token t s) = sq_params s" "sq_kv (count_token t s) = sq_kv s"
  "sq_tokens (count_token t s) = sq_tokens s" "sq_num_tokens (count_token t s) = sq_num_tokens s"
  "sq_num_prompt_tokens (count_token t s) = sq_num_prompt_tokens s"
  "need_unique_tokens (count_token t s) = need_unique_tokens s" "sq_finished (count_token t s) = sq_finished s"
  "cur_generated_token_idx (count_token t s) = cur_generated_token_idx s"
  "sq_volatile_num_prompt_tokens (count_token t s) = sq_volatile_num_prompt_tokens s"
  by (simp_all add: count_token_def)

lemma count_list_snoc: "count_list (xs @ [t]) u = count_list xs u + (if t = u then 1 else 0)"
  by simp

text \<open>What the counters say depends on the prompt, the map and the flag only.\<close>

lemma counts_ok_bump:
  assumes "counts_ok s gen" "need_unique_tokens s' = need_unique_tokens s"
    and "need_unique_tokens s \<Longrightarrow> token_to_count_map s' = bump t 1 (token_to_count_map s)"
    and "take (sq_num_prompt_tokens s') (sq_tokens s') = take (sq_num_prompt_tokens s) (sq_tokens s)"
  shows "counts_ok s' (gen @ [t])"
  unfolding counts_ok_def
proof (intro impI allI)
  fix u assume "need_unique_tokens s'"
  then have u: "need_unique_tokens s" "token_to_count_map s' = bump t 1 (token_to_count_map s)" using assms by auto
  have c: "case token_to_count_map s u of None \<Rightarrow> u \<notin> set gen \<union> set (take (sq_num_prompt_tokens s) (sq_tokens s))
      | Some c \<Rightarrow> c = int (count_list gen u)" using assms(1) u(1) by (simp add: counts_ok_def)
  show "case token_to_count_map s' u of
      None \<Rightarrow> u \<notin> set (gen @ [t]) \<union> set (take (sq_num_prompt_tokens s') (sq_tokens s'))
    | Some c \<Rightarrow> c = int (count_list (gen @ [t]) u)"
    using c u(2) assms(4) by (auto simp: bump_def count_list_0_iff split: option.splits)
qed

lemma counts_ok_cong:
  "need_unique_tokens s' = need_unique_tokens s \<Longrightarrow> token_to_count_map s' = token_to_count_map s \<Longrightarrow>
    take (sq_num_prompt_tokens s') (sq_tokens s') = take (sq_num_prompt_tokens s) (sq_tokens s) \<Longrightarrow>
    counts_ok s' gen = counts_ok s gen"
  unfolding counts_ok_def by (simp only:)

definition appendable :: "sequence \<Rightarrow> bool" where
  "appendable s \<longleftrightarrow> sq_num_tokens s < length (sq_tokens s) \<and> \<not> sq_finished s \<and>
     (is_onerec_model (sq_params s) \<or> kv_cache_tokens_num (sq_kv s) > 0 \<and> stage s \<noteq> CHUNKED_PREFILL)"

lemma append_token_ok:
  assumes "seq_inv s" "appendable s" "int32 t" "\<not> (enable_schedule_overlap (sq_params s) \<and> t < 0)"
  shows "\<exists>s'. append_token pd t s = Inr s' \<and> seq_inv s' \<and> tokens_view s' = tokens_view s @ [t] \<and>
    kv_cache_tokens_num (sq_kv s') = sq_num_tokens s \<and> finish_status_invalidated s' \<and>
    kv_blocks (sq_kv s') = kv_blocks (sq_kv s) \<and>
    (counts_ok s (get_generated_tokens s) \<longrightarrow> counts_ok s' (get_generated_tokens s'))"
proof -
  have t: "to_int32 t = t" using assms(3) by (intro to_int32_id) (simp_all add: int32_def)
  obtain s' where s': "append_token pd t s = Inr s'"
    using assms(2,4) t by (auto simp: append_token_def appendable_def Let_def check_def)
  have sel: "sq_params s' = sq_params s" "sq_num_tokens s' = sq_num_tokens s + 1" "sq_tokens s' = (sq_tokens s)[sq_num_tokens s := t]"
    "sq_num_prompt_tokens s' = sq_num_prompt_tokens s" "kv_cache_tokens_num (sq_kv s') = sq_num_tokens s"
    "kv_blocks (sq_kv s') = kv_blocks (sq_kv s)" "finish_status_invalidated s'" "need_unique_tokens s' = need_unique_tokens s"
    "need_unique_tokens s \<Longrightarrow> token_to_count_map s' = bump t 1 (token_to_count_map s)"
    using s' assms(4) t by (auto simp: append_token_def Let_def count_token_def split: if_splits)
  have inv: "seq_inv s'" using assms(1,2) sel by (simp add: seq_inv_def appendable_def)
  have view: "tokens_view s' = tokens_view s @ [t]"
    using assms(2) sel by (simp add: tokens_view_def appendable_def take_Suc_conv_app_nth)
  have gen: "get_generated_tokens s' = get_generated_tokens s @ [t]"
    using generated_view[OF inv] generated_view[OF assms(1)] view sel(4) assms(1) by (simp add: tokens_view_def seq_inv_def)
  have "take (sq_num_prompt_tokens s') (sq_tokens s') = take (sq_num_prompt_tokens s) (sq_tokens s)"
    using sel(3,4) assms(1) by (simp add: seq_inv_def)
  then have "counts_ok s (get_generated_tokens s) \<longrightarrow> counts_ok s' (get_generated_tokens s')"
    unfolding gen using counts_ok_bump[of s "get_generated_tokens s" s' t] sel(8,9) by blast
  then show ?thesis using s' inv view sel by blast
qed

section \<open>The overlapped schedule\<close>

text \<open>
  With \<open>enable_schedule_overlap\<close> a placeholder is appended before the token is known and
  \<open>update_last_step_token\<close> fills in the oldest one. Abstractly the sequence is its valid tokens
  \<open>vs\<close> followed by \<open>k\<close> placeholders.
\<close>

definition pipe :: "sequence \<Rightarrow> int list \<Rightarrow> nat \<Rightarrow> bool" where
  "pipe s vs k \<longleftrightarrow> seq_inv s \<and> enable_schedule_overlap (sq_params s) \<and> tokens_view s = vs @ replicate k (-1) \<and>
     cur_generated_token_idx s = length vs \<and> sq_num_prompt_tokens s \<le> length vs \<and>
     counts_ok s (drop (sq_num_prompt_tokens s) vs)"

lemma pipe_length: "pipe s vs k \<Longrightarrow> sq_num_tokens s = length vs + k"
  using length_tokens_view[of s] by (simp add: pipe_def)

lemma append_placeholder:
  assumes "pipe s vs k" "appendable s"
  shows "\<exists>s'. append_token pd (-1) s = Inr s' \<and> pipe s' vs (Suc k) \<and> kv_cache_tokens_num (sq_kv s') = length vs + k"
proof -
  have t: "to_int32 (-1) = -1" by (intro to_int32_id) simp_all
  have ov: "enable_schedule_overlap (sq_params s)" and inv: "seq_inv s" using assms(1) by (simp_all add: pipe_def)
  obtain s' where s': "append_token pd (-1) s = Inr s'"
    using assms(2) t ov by (auto simp: append_token_def appendable_def Let_def check_def)
  have sel: "sq_params s' = sq_params s" "sq_num_tokens s' = sq_num_tokens s + 1" "sq_tokens s' = (sq_tokens s)[sq_num_tokens s := -1]"
    "sq_num_prompt_tokens s' = sq_num_prompt_tokens s" "kv_cache_tokens_num (sq_kv s') = sq_num_tokens s"
    "need_unique_tokens s' = need_unique_tokens s" "token_to_count_map s' = token_to_count_map s"
    "cur_generated_token_idx s' = cur_generated_token_idx s"
    using s' t ov by (auto simp: append_token_def Let_def split: if_splits)
  have lt: "sq_num_tokens s < length (sq_tokens s)" using assms(2) by (simp add: appendable_def)
  have "seq_inv s'" using inv lt sel by (simp add: seq_inv_def)
  moreover have "tokens_view s' = vs @ replicate (Suc k) (-1)"
    using assms(1) sel lt by (simp add: pipe_def tokens_view_def take_Suc_conv_app_nth replicate_append_same)
  moreover have "counts_ok s' (drop (sq_num_prompt_tokens s') vs)"
    using assms(1) sel inv counts_ok_cong[of s' s] by (simp add: pipe_def seq_inv_def)
  ultimately show ?thesis using s' assms(1) sel pipe_length[OF assms(1)] by (auto simp: pipe_def)
qed

lemma update_placeholder:
  assumes "pipe s vs (Suc k)" "int32 t"
  shows "\<exists>s'. update_last_step_token pd t 0 s = Inr s' \<and> pipe s' (vs @ [t]) k \<and> finish_status_invalidated s' \<and>
    sq_kv s' = sq_kv s"
proof -
  have t: "to_int32 t = t" using assms(2) by (intro to_int32_id) (simp_all add: int32_def)
  have ov: "enable_schedule_overlap (sq_params s)" and inv: "seq_inv s" and cur: "cur_generated_token_idx s = length vs"
    using assms(1) by (simp_all add: pipe_def)
  note len = pipe_length[OF assms(1)]
  have lt: "length vs < length (sq_tokens s)" using len inv by (simp add: seq_inv_def)
  obtain s' where s': "update_last_step_token pd t 0 s = Inr s'"
    using ov lt cur by (auto simp: update_last_step_token_def put_last_token_def Let_def)
  have sel: "sq_params s' = sq_params s" "sq_num_tokens s' = sq_num_tokens s" "sq_tokens s' = (sq_tokens s)[length vs := t]"
    "sq_num_prompt_tokens s' = sq_num_prompt_tokens s" "sq_kv s' = sq_kv s" "finish_status_invalidated s'"
    "need_unique_tokens s' = need_unique_tokens s" "cur_generated_token_idx s' = Suc (length vs)"
    "need_unique_tokens s \<Longrightarrow> token_to_count_map s' = bump t 1 (token_to_count_map s)"
    using s' t ov cur by (auto simp: update_last_step_token_def put_last_token_def Let_def count_token_def split: if_splits)
  have inv': "seq_inv s'" using inv sel by (simp add: seq_inv_def)
  have "tokens_view s' = (tokens_view s)[length vs := t]"
    using sel lt by (simp add: tokens_view_def take_update_swap)
  also have "\<dots> = (vs @ [t]) @ replicate k (-1)" using assms(1) by (simp add: pipe_def list_update_append)
  finally have view: "tokens_view s' = (vs @ [t]) @ replicate k (-1)" .
  have "counts_ok s' (drop (sq_num_prompt_tokens s) vs @ [t])"
  proof (rule counts_ok_bump)
    show "counts_ok s (drop (sq_num_prompt_tokens s) vs)" using assms(1) by (simp add: pipe_def)
    show "take (sq_num_prompt_tokens s') (sq_tokens s') = take (sq_num_prompt_tokens s) (sq_tokens s)"
      using sel(3,4) assms(1) by (simp add: pipe_def)
  qed (use sel in simp_all)
  then show ?thesis using s' inv' view sel assms(1) by (auto simp: pipe_def)
qed

text \<open>
  A run of the overlapped schedule: \<open>Ov_append\<close> appends a placeholder when a step is scheduled,
  \<open>Ov_result\<close> delivers the token of the oldest scheduled step.
\<close>

datatype ov_step = Ov_append | Ov_result int

fun ov_run :: "bool \<Rightarrow> ov_step list \<Rightarrow> sequence \<Rightarrow> sequence res" where
  "ov_run pd [] s = Inr s"
| "ov_run pd (Ov_append # es) s = bindE (append_token pd (-1) s) (ov_run pd es)"
| "ov_run pd (Ov_result t # es) s = bindE (update_last_step_token pd t 0 s) (ov_run pd es)"

text \<open>Every result has a scheduled step; \<open>k\<close> are those open at the start.\<close>

fun ov_valid :: "nat \<Rightarrow> ov_step list \<Rightarrow> bool" where
  "ov_valid k [] = True"
| "ov_valid k (Ov_append # es) = ov_valid (Suc k) es"
| "ov_valid k (Ov_result t # es) = (0 < k \<and> int32 t \<and> ov_valid (k - 1) es)"

fun ov_results :: "ov_step list \<Rightarrow> int list" where
  "ov_results [] = []"
| "ov_results (Ov_append # es) = ov_results es"
| "ov_results (Ov_result t # es) = t # ov_results es"

fun ov_open :: "nat \<Rightarrow> ov_step list \<Rightarrow> nat" where
  "ov_open k [] = k"
| "ov_open k (Ov_append # es) = ov_open (Suc k) es"
| "ov_open k (Ov_result t # es) = ov_open (k - 1) es"

definition ov_ready :: "sequence \<Rightarrow> bool" where
  "ov_ready s \<longleftrightarrow> \<not> sq_finished s \<and> 0 < kv_cache_tokens_num (sq_kv s) \<and> stage s \<noteq> CHUNKED_PREFILL \<and>
     sq_volatile_num_prompt_tokens s \<le> sq_num_tokens s"

lemma ov_ready_append:
  assumes "ov_ready s" "seq_inv s" "append_token pd (-1) s = Inr s'"
  shows "ov_ready s'" "length (sq_tokens s') = length (sq_tokens s)" "sq_num_tokens s' = Suc (sq_num_tokens s)"
  using assms
  by (auto simp: append_token_def Let_def ov_ready_def stage_def seq_inv_def split: if_splits)

lemma ov_ready_update:
  assumes "ov_ready s" "update_last_step_token pd t 0 s = Inr s'"
  shows "ov_ready s'" "length (sq_tokens s') = length (sq_tokens s)" "sq_num_tokens s' = sq_num_tokens s"
  using assms
  by (auto simp: update_last_step_token_def put_last_token_def Let_def ov_ready_def stage_def split: if_splits)

lemma ov_run_refines:
  assumes "pipe s vs k" "ov_ready s" "ov_valid k es"
    and "sq_num_tokens s + length (filter (\<lambda>e. e = Ov_append) es) \<le> length (sq_tokens s)"
  shows "\<exists>s'. ov_run pd es s = Inr s' \<and> pipe s' (vs @ ov_results es) (ov_open k es)"
  using assms
proof (induction pd es s arbitrary: vs k rule: ov_run.induct)
  case (2 pd es s)
  have app: "appendable s" using 2(3,5) by (simp add: appendable_def ov_ready_def)
  obtain s1 where s1: "append_token pd (-1) s = Inr s1" "pipe s1 vs (Suc k)"
    using append_placeholder[OF 2(2) app] by blast
  have inv: "seq_inv s" using 2(2) by (simp add: pipe_def)
  note r = ov_ready_append[OF 2(3) inv s1(1)]
  show ?case using 2(1)[OF s1(2) r(1)] 2(4,5) r(2,3) s1(1) by simp
next
  case (3 pd t es s)
  then obtain j where k: "k = Suc j" by (cases k) auto
  obtain s1 where s1: "update_last_step_token pd t 0 s = Inr s1" "pipe s1 (vs @ [t]) j"
    using update_placeholder[of s vs j t pd] 3(2,4) k by auto
  note r = ov_ready_update[OF 3(3) s1(1)]
  show ?case using 3(1)[OF s1(2) r(1)] 3(4,5) r(2,3) s1(1) k by simp
qed simp

text \<open>The output never contains a placeholder.\<close>

lemma pipe_output_size:
  assumes "pipe s vs k" "vs \<noteq> []" "0 \<le> last vs"
  shows "output_size s = Inr (length vs)"
proof -
  have "last_valid (sq_tokens s) (sq_num_tokens s) = last_valid (tokens_view s) (sq_num_tokens s)"
    using last_valid_prefix[of "sq_num_tokens s" "tokens_view s" "drop (sq_num_tokens s) (sq_tokens s)"] assms(1)
    by (simp add: tokens_view_def pipe_def seq_inv_def)
  also have "\<dots> = last_valid ((butlast vs @ [last vs]) @ replicate k (-1)) (length ((butlast vs @ [last vs]) @ replicate k (-1)))"
    using assms(1,2) pipe_length[OF assms(1)] by (simp add: pipe_def)
  also have "\<dots> = Inr (last vs, Suc (length (butlast vs)))"
    using assms(3) by (intro last_valid_append) auto
  finally show ?thesis using assms(2) by (simp add: output_size_def)
qed

section \<open>Finish status\<close>

text \<open>The status is computed once per change; asking again changes nothing.\<close>

lemma finished_check_idem:
  assumes "seq_finished_check s = Inr (b, s')" "finish_status_invalidated s \<Longrightarrow> \<not> sq_finished s"
  shows "seq_finished_check s' = Inr (b, s')"
proof (cases "finish_status_invalidated s \<and>
    \<not> (is_onerec_model (sq_params s) \<and> sq_num_tokens s = sq_num_prompt_tokens s) \<and> \<not> is_embeddings (sq_params s)")
  case False
  then have "s' = s" using assms(1) by (simp add: seq_finished_check_def split: if_splits)
  then show ?thesis using assms(1) by simp
next
  case True
  then obtain r where "stopping_check (sp_stopping_checker (sq_params s)) (tokens_view s) (sq_num_prompt_tokens s) = Inr r"
    using assms(1) by (auto simp: seq_finished_check_def Let_def)
  then have "b = (r \<noteq> FR_NONE)" "\<not> finish_status_invalidated s'" "sq_finished s' = (r \<noteq> FR_NONE)"
    using True assms by (auto simp: seq_finished_check_def Let_def split: if_splits)
  then show ?thesis by (simp add: seq_finished_check_def)
qed

lemma finished_check_spec:
  assumes "seq_inv s" "finish_status_invalidated s" "\<not> is_onerec_model (sq_params s)" "\<not> is_embeddings (sq_params s)"
    and "checker_ok (sp_stopping_checker (sq_params s))" "0 \<le> last (tokens_view s)" "int32 (last (tokens_view s))"
  defines "r \<equiv> stop_spec (sp_stopping_checker (sq_params s)) (tokens_view s) (sq_num_prompt_tokens s)"
  shows "seq_finished_check s = Inr (r \<noteq> FR_NONE,
    if r \<noteq> FR_NONE then s\<lparr>finish_status_invalidated := False, sq_finish_reason := r, sq_finished := True\<rparr>
    else s\<lparr>finish_status_invalidated := False\<rparr>)"
proof -
  have ne: "tokens_view s \<noteq> []" "sq_num_prompt_tokens s \<le> length (tokens_view s)"
    using assms(1) length_tokens_view[OF assms(1)] by (auto simp: seq_inv_def)
  then have "stopping_check (sp_stopping_checker (sq_params s)) (tokens_view s) (sq_num_prompt_tokens s) = Inr r"
    using stopping_check_valid[OF assms(5-7), of "sq_num_prompt_tokens s" "butlast (tokens_view s)"] by (simp add: r_def)
  then show ?thesis using assms(2-4) by (simp add: seq_finished_check_def Let_def)
qed

section \<open>Preemption\<close>

lemma seq_reset_ok:
  assumes "arena_inv A (kv_tokens (sq_kv s) + T)" "kv_owned (sq_kv s)" "seq_inv s"
  shows "\<exists>A' s'. seq_reset A s = Inr (A', s') \<and> arena_inv A' (kv_tokens (sq_kv s') + T) \<and> kv_owned (sq_kv s') \<and>
    kv_blocks (sq_kv s') = [] \<and> src_blocks (sq_kv s') = src_blocks (sq_kv s) \<and>
    stage s' = PREFILL \<and> tokens_view s' = tokens_view s \<and> seq_inv s' \<and>
    (\<forall>n. stage (s'\<lparr>sq_kv := (sq_kv s')\<lparr>kv_cache_tokens_num := n\<rparr>\<rparr>) = DECODE \<longleftrightarrow> sq_num_tokens s \<le> n)"
proof -
  obtain A' kv where k: "kv_reset A (sq_kv s) = Inr (A', kv)" "arena_inv A' (kv_tokens kv + T)" "kv_owned kv"
    "kv_blocks kv = []" "src_blocks kv = src_blocks (sq_kv s)" "kv_cache_tokens_num kv = 0"
    using kv_reset_inv[OF assms(1,2)] by blast
  then show ?thesis
    using assms(3) by (auto simp: seq_reset_def stage_def tokens_view_def seq_inv_def)
qed

end
