(* ===== verification/Block_Pool.thy ===== *)
theory Block_Pool
  imports Block_Usage Embedding_Manager Sequences
begin

text \<open>
  \<open>core/framework/block/block_manager_pool.{h,cpp}\<close>: one block manager and one embedding
  manager per DP rank, and the operations that move blocks between them and a sequence. The
  managers are \<open>BlockManagerImpl\<close> objects (no XTensor, no disaggregation); an operation takes
  and returns the sequence and the pool. A local vector of handles is destroyed where its
  scope ends, which is written out. The embedding block of a sequence is its only handle.
\<close>

section \<open>State and operations\<close>

record pool =
  bp_block_size :: nat
  bp_enable_prefix_cache :: bool
  bp_managers :: "bman list"
  bp_embeds :: "eman list"
  bp_swaps :: "(int \<times> int) list list"

fun make_managers :: "nat \<Rightarrow> nat \<Rightarrow> int \<Rightarrow> bool \<Rightarrow> bman list res" where
  "make_managers 0 num_blocks block_size e = Inr []"
| "make_managers (Suc n) num_blocks block_size e =
     bindE (bman_new num_blocks block_size e) (\<lambda>B.
     bindE (make_managers n num_blocks block_size e) (\<lambda>Bs. Inr (B # Bs)))"

definition bpool_new :: "nat \<Rightarrow> int \<Rightarrow> bool \<Rightarrow> nat \<Rightarrow> int \<Rightarrow> pool res" where
  "bpool_new num_blocks block_size enable_prefix_cache max_seqs_per_batch dp_size =
     bindE (check (dp_size > 0)) (\<lambda>_.
     bindE (make_managers (nat dp_size) num_blocks block_size enable_prefix_cache) (\<lambda>Bs.
       Inr \<lparr>bp_block_size = nat block_size, bp_enable_prefix_cache = enable_prefix_cache, bp_managers = Bs,
            bp_embeds = replicate (nat dp_size) (eman_new (max_seqs_per_batch + 2)),
            bp_swaps = replicate (length Bs) []\<rparr>))"

definition mgr_free :: "bman \<Rightarrow> nat" where
  "mgr_free B = num_free_blocks (bm_arena B)"

fun max_free_loop :: "bman list \<Rightarrow> nat \<Rightarrow> nat \<Rightarrow> nat \<Rightarrow> nat" where
  "max_free_loop [] i max_index max_free = max_index"
| "max_free_loop (B # Bs) i max_index max_free =
     (if mgr_free B > max_free then max_free_loop Bs (i + 1) i (mgr_free B)
      else max_free_loop Bs (i + 1) max_index max_free)"

definition get_manager_with_max_free_blocks :: "pool \<Rightarrow> nat" where
  "get_manager_with_max_free_blocks Q =
     (case bp_managers Q of [] \<Rightarrow> 0 | B # Bs \<Rightarrow> max_free_loop Bs 1 0 (mgr_free B))"

definition get_dp_rank :: "sequence \<Rightarrow> pool \<Rightarrow> nat \<times> sequence" where
  "get_dp_rank s Q =
     (if sq_dp_rank s \<ge> 0 then (nat (sq_dp_rank s), s)
      else let d = get_manager_with_max_free_blocks Q in (d, s\<lparr>sq_dp_rank := int d\<rparr>))"

definition mgr :: "pool \<Rightarrow> nat \<Rightarrow> bman res" where
  "mgr Q d = nth_res (bp_managers Q) d"

definition put_mgr :: "nat \<Rightarrow> bman \<Rightarrow> pool \<Rightarrow> pool" where
  "put_mgr d B Q = Q\<lparr>bp_managers := (bp_managers Q)[d := B]\<rparr>"

definition put_arena :: "nat \<Rightarrow> arena \<Rightarrow> bman \<Rightarrow> pool \<Rightarrow> pool" where
  "put_arena d A B Q = put_mgr d (B\<lparr>bm_arena := A\<rparr>) Q"

definition allocate_embedding_id :: "nat \<Rightarrow> sequence \<Rightarrow> pool \<Rightarrow> (bool \<times> sequence \<times> pool) res" where
  "allocate_embedding_id d s Q =
     bindE (check (d < length (bp_embeds Q))) (\<lambda>_.
       if embedding_id s \<noteq> None then Inr (True, s, Q)
       else bindE (em_allocate 1 (bp_embeds Q ! d)) (\<lambda>(is, E).
              let Q1 = Q\<lparr>bp_embeds := (bp_embeds Q)[d := E]\<rparr> in
              case is of [] \<Rightarrow> Inr (False, s, Q1) | i # _ \<Rightarrow> Inr (True, s\<lparr>embedding_id := Some i\<rparr>, Q1)))"

text \<open>The block leaves the sequence and is destroyed at the end of the function.\<close>

definition deallocate_embedding_id :: "nat \<Rightarrow> sequence \<Rightarrow> pool \<Rightarrow> (sequence \<times> pool) res" where
  "deallocate_embedding_id d s Q =
     bindE (check (d < length (bp_embeds Q))) (\<lambda>_.
       case embedding_id s of
         None \<Rightarrow> Inr (s, Q)
       | Some i \<Rightarrow>
           bindE (em_deallocate [(True, 1)] (bp_embeds Q ! d)) (\<lambda>E1.
           bindE (em_free i E1) (\<lambda>E2.
             Inr (s\<lparr>embedding_id := None\<rparr>, Q\<lparr>bp_embeds := (bp_embeds Q)[d := E2]\<rparr>))))"

definition bp_allocate_shared :: "hash_lib \<Rightarrow> sequence \<Rightarrow> pool \<Rightarrow> (sequence \<times> pool) res" where
  "bp_allocate_shared H s0 Q =
     (if \<not> bp_enable_prefix_cache Q then Inr (s0, Q)
      else case get_dp_rank s0 Q of (d, s) \<Rightarrow>
        bindE (mgr Q d) (\<lambda>B.
        bindE (slice_res (kv_blocks (sq_kv s)) 0 (num_owned_shared_blocks (sq_kv s))) (\<lambda>existed.
        bindE (bm_allocate_shared H (tokens_view s) existed B) (\<lambda>(shared, B1).
        bindE (add_shared_kv_blocks shared (sq_num_tokens s) (bm_arena B1) (sq_kv s)) (\<lambda>(A, kv).
          Inr (s\<lparr>sq_kv := kv\<rparr>, put_arena d A B1 Q))))))"

definition bp_cache :: "hash_lib \<Rightarrow> int \<Rightarrow> sequence \<Rightarrow> pool \<Rightarrow> (sequence \<times> pool) res" where
  "bp_cache H now s0 Q =
     (case get_dp_rank s0 Q of (d, s) \<Rightarrow>
      bindE (mgr Q d) (\<lambda>B.
      bindE (bm_cache H now (seq_cached_tokens s) (kv_blocks (sq_kv s)) (num_owned_shared_blocks (sq_kv s)) B)
        (\<lambda>(blocks, B1). Inr (s\<lparr>sq_kv := (sq_kv s)\<lparr>kv_blocks := blocks\<rparr>\<rparr>, put_mgr d B1 Q))))"

text \<open>\<open>sequence->reset()\<close> on the arena of the manager the blocks belong to.\<close>

definition reset_on :: "nat \<Rightarrow> sequence \<Rightarrow> pool \<Rightarrow> (sequence \<times> pool) res" where
  "reset_on d s Q =
     bindE (mgr Q d) (\<lambda>B.
     bindE (seq_reset (bm_arena B) s) (\<lambda>(A, s1). Inr (s1, put_arena d A B Q)))"

definition dealloc_blocks_on :: "nat \<Rightarrow> block list \<Rightarrow> pool \<Rightarrow> pool res" where
  "dealloc_blocks_on d blocks Q =
     bindE (mgr Q d) (\<lambda>B. bindE (bm_deallocate blocks B) (\<lambda>B1. Inr (put_mgr d B1 Q)))"

definition bp_deallocate_without_cache :: "sequence \<Rightarrow> pool \<Rightarrow> (sequence \<times> pool) res" where
  "bp_deallocate_without_cache s0 Q =
     (case get_dp_rank s0 Q of (d, s) \<Rightarrow>
      bindE (dealloc_blocks_on d (kv_blocks (sq_kv s)) Q) (\<lambda>Q1.
      bindE (deallocate_embedding_id d s Q1) (\<lambda>(s2, Q2). reset_on d s2 Q2)))"

definition bp_deallocate :: "hash_lib \<Rightarrow> int \<Rightarrow> sequence \<Rightarrow> pool \<Rightarrow> (sequence \<times> pool) res" where
  "bp_deallocate H now s0 Q =
     (case get_dp_rank s0 Q of (d, s) \<Rightarrow>
      bindE (bp_cache H now s Q) (\<lambda>(s1, Q1).
      bindE (dealloc_blocks_on d (kv_blocks (sq_kv s1)) Q1) (\<lambda>Q2.
      bindE (deallocate_embedding_id d s1 Q2) (\<lambda>(s3, Q3). reset_on d s3 Q3))))"

fun bp_deallocate_all :: "hash_lib \<Rightarrow> int \<Rightarrow> sequence list \<Rightarrow> pool \<Rightarrow> (sequence list \<times> pool) res" where
  "bp_deallocate_all H now [] Q = Inr ([], Q)"
| "bp_deallocate_all H now (s # ss) Q =
     bindE (bp_deallocate H now s Q) (\<lambda>(s1, Q1).
     bindE (bp_deallocate_all H now ss Q1) (\<lambda>(ss1, Q2). Inr (s1 # ss1, Q2)))"

definition reset_transfer_infos :: "pool \<Rightarrow> pool" where
  "reset_transfer_infos Q = Q\<lparr>bp_swaps := replicate (length (bp_managers Q)) []\<rparr>"

text \<open>\<open>new_blocks\<close> is destroyed after its block has been copied into the sequence.\<close>

definition bp_process_beam_search :: "hash_lib \<Rightarrow> bool \<Rightarrow> sequence \<Rightarrow> pool \<Rightarrow> (bool \<times> sequence \<times> pool) res" where
  "bp_process_beam_search H need_swap_arg s0 Q =
     (if \<not> beam_width (sq_params s0) > 1 then Inr (True, s0, Q)
      else if src_blocks (sq_kv s0) = [] then Inr (True, s0, Q)
      else case get_dp_rank s0 Q of (d, s) \<Rightarrow>
      if need_swap_arg \<and> need_swap (sq_kv s) then
        bindE (mgr Q d) (\<lambda>B.
        bindE (bm_allocate H 1 B) (\<lambda>(new_blocks, B1).
          if new_blocks = [] then Inr (False, s, put_mgr d B1 Q)
          else bindE (check (d < length (bp_swaps Q))) (\<lambda>_.
               let swaps = (bp_swaps Q)[d := (bp_swaps Q ! d) @ [(bid (last (src_blocks (sq_kv s))), bid (hd new_blocks))]] in
               bindE (kv_process_beam_search (Some (hd new_blocks)) (bm_arena B1) (sq_kv s)) (\<lambda>(A1, kv).
               bindE (destroy_blocks new_blocks A1) (\<lambda>A2.
                 Inr (True, s\<lparr>sq_kv := kv\<rparr>, (put_arena d A2 B1 Q)\<lparr>bp_swaps := swaps\<rparr>))))))
      else
        bindE (mgr Q d) (\<lambda>B.
        bindE (kv_process_beam_search None (bm_arena B) (sq_kv s0)) (\<lambda>(A1, kv).
          Inr (True, s0\<lparr>sq_kv := kv\<rparr>, put_arena d A1 B Q))))"

text \<open>After a failed allocation: a sequence that started without blocks gives everything back.\<close>

definition rollback :: "bool \<Rightarrow> bool \<Rightarrow> nat \<Rightarrow> sequence \<Rightarrow> pool \<Rightarrow> (sequence \<times> pool) res" where
  "rollback started_empty needs_embedding_id d s Q =
     (if \<not> started_empty then Inr (s, Q)
      else bindE (dealloc_blocks_on d (kv_blocks (sq_kv s)) Q) (\<lambda>Q1.
           bindE (if needs_embedding_id then deallocate_embedding_id d s Q1 else Inr (s, Q1)) (\<lambda>(s2, Q2).
             reset_on d s2 Q2)))"

text \<open>The last part of \<open>allocate\<close>: new blocks for the missing tokens.\<close>

definition grow_blocks ::
    "hash_lib \<Rightarrow> bool \<Rightarrow> bool \<Rightarrow> nat \<Rightarrow> nat \<Rightarrow> sequence \<Rightarrow> pool \<Rightarrow> (bool \<times> sequence \<times> pool) res" where
  "grow_blocks H started_empty needs_embedding_id d num_additional s Q =
     bindE (mgr Q d) (\<lambda>B.
     bindE (bm_allocate H num_additional B) (\<lambda>(blocks, B1).
       let Q1 = put_mgr d B1 Q in
       if length blocks \<noteq> num_additional
       then bindE (rollback started_empty needs_embedding_id d s Q1) (\<lambda>(s2, Q2).
            bindE (mgr Q2 d) (\<lambda>B2.
            bindE (destroy_blocks blocks (bm_arena B2)) (\<lambda>A2. Inr (False, s2, put_arena d A2 B2 Q2))))
       else bindE (add_kv_blocks blocks (bm_arena B1) (sq_kv s)) (\<lambda>(A2, kv).
            bindE (destroy_blocks blocks A2) (\<lambda>A3.
              Inr (True, s\<lparr>sq_kv := kv\<rparr>, put_arena d A3 B1 Q)))))"

definition bp_allocate :: "hash_lib \<Rightarrow> nat \<Rightarrow> sequence \<Rightarrow> pool \<Rightarrow> (bool \<times> sequence \<times> pool) res" where
  "bp_allocate H num_tokens s0 Q =
     (case get_dp_rank s0 Q of (d, s) \<Rightarrow>
      let started_empty = (kv_blocks (sq_kv s) = []);
          needs_embedding_id = (embedding_id s = None) in
      bindE (if needs_embedding_id then allocate_embedding_id d s Q else Inr (True, s, Q)) (\<lambda>(ok, s1, Q1).
        if \<not> ok then Inr (False, s1, Q1)
        else bindE (if started_empty then bp_allocate_shared H s1 Q1 else Inr (s1, Q1)) (\<lambda>(s2, Q2).
          let num_blocks = length (kv_blocks (sq_kv s2));
              num_blocks_needed = round_up_div num_tokens (bp_block_size Q) in
          if num_blocks_needed \<le> num_blocks then bp_process_beam_search H True s2 Q2
          else bindE (bp_process_beam_search H False s2 Q2) (\<lambda>(_, s3, Q3).
                 grow_blocks H started_empty needs_embedding_id d ((num_blocks_needed - num_blocks) mod 2 ^ 32) s3 Q3))))"

fun bp_allocate_all :: "hash_lib \<Rightarrow> sequence list \<Rightarrow> pool \<Rightarrow> (bool \<times> sequence list \<times> pool) res" where
  "bp_allocate_all H [] Q = Inr (True, [], Q)"
| "bp_allocate_all H (s # ss) Q =
     bindE (bp_allocate H (sq_num_tokens s) s Q) (\<lambda>(ok, s1, Q1).
       if \<not> ok then Inr (False, s1 # ss, Q1)
       else bindE (bp_allocate_all H ss Q1) (\<lambda>(ok2, ss1, Q2). Inr (ok2, s1 # ss1, Q2)))"

definition bp_allocate_tokens :: "hash_lib \<Rightarrow> nat \<Rightarrow> pool \<Rightarrow> (nat \<times> block list \<times> pool) res" where
  "bp_allocate_tokens H num_tokens Q =
     (let d = get_manager_with_max_free_blocks Q in
      bindE (mgr Q d) (\<lambda>B.
      bindE (bm_allocate H (round_up_div num_tokens (bp_block_size Q)) B) (\<lambda>(blocks, B1).
        Inr (d, blocks, put_mgr d B1 Q))))"

text \<open>
  \<open>try_allocate\<close>: the matched blocks, which begin with those the sequence already shares, are
  appended to its blocks.
\<close>

definition try_shared :: "hash_lib \<Rightarrow> nat \<Rightarrow> sequence \<Rightarrow> pool \<Rightarrow> (block list \<times> sequence \<times> pool) res" where
  "try_shared H d s Q =
     (if \<not> bp_enable_prefix_cache Q then Inr ([], s, Q)
      else bindE (mgr Q d) (\<lambda>B.
        bindE (slice_res (kv_blocks (sq_kv s)) 0 (num_owned_shared_blocks (sq_kv s))) (\<lambda>existed.
        bindE (bm_allocate_shared H (tokens_view s) existed B) (\<lambda>(shared, B1).
          if shared = [] then Inr ([], s, put_mgr d B1 Q)
          else bindE (add_kv_blocks shared (bm_arena B1) (sq_kv s)) (\<lambda>(A, kv).
               bindE (incr_shared_kv_blocks_num (length shared) kv) (\<lambda>kv1.
                 Inr (shared, s\<lparr>sq_kv := kv1\<rparr>, put_arena d A B1 Q)))))))"

definition destroy_on :: "nat \<Rightarrow> block list \<Rightarrow> pool \<Rightarrow> pool res" where
  "destroy_on d blocks Q =
     bindE (mgr Q d) (\<lambda>B. bindE (destroy_blocks blocks (bm_arena B)) (\<lambda>A. Inr (put_arena d A B Q)))"

definition finish_try :: "nat \<Rightarrow> block list \<Rightarrow> sequence \<Rightarrow> pool \<Rightarrow> (bool \<times> sequence \<times> pool) res" where
  "finish_try d shared s Q =
     bindE (incr_kv_cache_tokens_num (sq_num_tokens s) (sq_kv s)) (\<lambda>kv.
     bindE (destroy_on d shared Q) (\<lambda>Q1. Inr (True, s\<lparr>sq_kv := kv\<rparr>, Q1)))"

definition bp_try_allocate :: "hash_lib \<Rightarrow> sequence \<Rightarrow> pool \<Rightarrow> (bool \<times> sequence \<times> pool) res" where
  "bp_try_allocate H s0 Q =
     (case get_dp_rank s0 Q of (d, s) \<Rightarrow>
      let needs_embedding_id = (embedding_id s = None) in
      bindE (if needs_embedding_id then allocate_embedding_id d s Q else Inr (True, s, Q)) (\<lambda>(ok, s1, Q1).
        if \<not> ok then Inr (False, s1, Q1)
        else bindE (try_shared H d s1 Q1) (\<lambda>(shared, s2, Q2).
          let num_tokens = size_sub (sq_num_tokens s2) (length shared * bp_block_size Q2);
              needed = round_up_div num_tokens (bp_block_size Q2) in
          if needed = 0 then finish_try d shared s2 Q2
          else bindE (mgr Q2 d) (\<lambda>B.
            bindE (bm_allocate H needed B) (\<lambda>(blocks, B1).
              if length blocks \<noteq> needed
              then bindE (if shared \<noteq> []
                          then bindE (dealloc_blocks_on d shared (put_mgr d B1 Q2)) (\<lambda>Q3. reset_on d s2 Q3)
                          else Inr (s2, put_mgr d B1 Q2)) (\<lambda>(s3, Q3).
                   bindE (if needs_embedding_id then deallocate_embedding_id d s3 Q3 else Inr (s3, Q3)) (\<lambda>(s4, Q4).
                   bindE (destroy_on d (blocks @ shared) Q4) (\<lambda>Q5. Inr (False, s4, Q5))))
              else bindE (add_kv_blocks blocks (bm_arena B1) (sq_kv s2)) (\<lambda>(A2, kv).
                   bindE (destroy_blocks blocks A2) (\<lambda>A3.
                     finish_try d shared (s2\<lparr>sq_kv := kv\<rparr>) (put_arena d A3 B1 Q2))))))))"

definition bp_num_free_blocks :: "pool \<Rightarrow> nat list" where
  "bp_num_free_blocks Q = map mgr_free (bp_managers Q)"

definition bp_num_used_blocks :: "pool \<Rightarrow> nat list" where
  "bp_num_used_blocks Q = map bm_num_used (bp_managers Q)"

end
