(* ===== verification/Requests.thy ===== *)
theory Requests
  imports Sequences "HOL-Library.Product_Lexorder"
begin

text \<open>
  \<open>core/framework/request/request.{h,cpp}\<close>, the state part of \<open>sequences_group.{h,cpp}\<close> and
  \<open>priority_comparator.{h,cpp}\<close>: a request with its group of sequences, its expansion to
  \<open>best_of\<close> sequences, and the comparators of the priority queues. A density is a \<open>double\<close>;
  the quotients and the test \<open>std::abs(x - y) < epsilon\<close> on them are the parameter \<open>D\<close>. Times
  are integers. The outputs and statistics of a request are not modelled.
\<close>

section \<open>Data\<close>

datatype request_priority = P_DEFAULT | P_HIGH | P_NORMAL | P_LOW

datatype urgency = U_NORMAL | U_URGENT | U_STARVED

record request =
  rq_prompt :: "int list"
  rq_params :: seq_params
  rq_best_of :: nat
  rq_sequences :: "sequence list"
  rq_offline :: bool
  rq_preempted :: bool
  rq_cancelled :: bool
  rq_stream :: bool
  rq_last_token_done :: bool
  rq_created :: int
  rq_priority :: request_priority
  rq_urgency :: urgency
  rq_starved :: bool
  rq_deadline_ms :: int
  rq_elapsed_ms :: int

text \<open>The values of the enumerations.\<close>

fun priority_num :: "request_priority \<Rightarrow> int" where
  "priority_num P_DEFAULT = 0"
| "priority_num P_HIGH = 1"
| "priority_num P_NORMAL = 2"
| "priority_num P_LOW = 3"

fun urgency_num :: "urgency \<Rightarrow> int" where
  "urgency_num U_NORMAL = 0"
| "urgency_num U_URGENT = 1"
| "urgency_num U_STARVED = 2"

fun stage_num :: "seq_stage \<Rightarrow> int" where
  "stage_num PREFILL = 0"
| "stage_num CHUNKED_PREFILL = 1"
| "stage_num DECODE = 2"

lemma priority_num_inj: "priority_num p = priority_num q \<longleftrightarrow> p = q"
  by (cases p; cases q) simp_all

lemma urgency_num_inj: "urgency_num p = urgency_num q \<longleftrightarrow> p = q"
  by (cases p; cases q) simp_all

lemma stage_num_inj: "stage_num p = stage_num q \<longleftrightarrow> p = q"
  by (cases p; cases q) simp_all

instantiation request_priority :: linorder
begin

definition less_eq_request_priority :: "request_priority \<Rightarrow> request_priority \<Rightarrow> bool" where
  "p \<le> q \<longleftrightarrow> priority_num p \<le> priority_num q"

definition less_request_priority :: "request_priority \<Rightarrow> request_priority \<Rightarrow> bool" where
  "p < q \<longleftrightarrow> priority_num p < priority_num q"

instance
  by standard (auto simp: less_eq_request_priority_def less_request_priority_def priority_num_inj)

end

instantiation urgency :: linorder
begin

definition less_eq_urgency :: "urgency \<Rightarrow> urgency \<Rightarrow> bool" where
  "p \<le> q \<longleftrightarrow> urgency_num p \<le> urgency_num q"

definition less_urgency :: "urgency \<Rightarrow> urgency \<Rightarrow> bool" where
  "p < q \<longleftrightarrow> urgency_num p < urgency_num q"

instance
  by standard (auto simp: less_eq_urgency_def less_urgency_def urgency_num_inj)

end

instantiation seq_stage :: linorder
begin

definition less_eq_seq_stage :: "seq_stage \<Rightarrow> seq_stage \<Rightarrow> bool" where
  "p \<le> q \<longleftrightarrow> stage_num p \<le> stage_num q"

definition less_seq_stage :: "seq_stage \<Rightarrow> seq_stage \<Rightarrow> bool" where
  "p < q \<longleftrightarrow> stage_num p < stage_num q"

instance
  by standard (auto simp: less_eq_seq_stage_def less_seq_stage_def stage_num_inj)

end

section \<open>The group of sequences\<close>

definition group_add :: "request \<Rightarrow> request res" where
  "group_add r =
     bindE (seq_new (rq_prompt r) (rq_params r)) (\<lambda>s. Inr (r\<lparr>rq_sequences := rq_sequences r @ [s]\<rparr>))"

definition request_new :: "int list \<Rightarrow> seq_params \<Rightarrow> nat \<Rightarrow> bool \<Rightarrow> request_priority \<Rightarrow> int \<Rightarrow> request res" where
  "request_new prompt P best_of offline priority now =
     group_add \<lparr>rq_prompt = prompt, rq_params = P, rq_best_of = best_of, rq_sequences = [], rq_offline = offline,
       rq_preempted = False, rq_cancelled = False, rq_stream = False, rq_last_token_done = False, rq_created = now,
       rq_priority = priority, rq_urgency = U_NORMAL, rq_starved = False, rq_deadline_ms = 0, rq_elapsed_ms = 0\<rparr>"

text \<open>\<open>std::all_of\<close> stops at the first sequence that is not finished.\<close>

fun all_finished :: "sequence list \<Rightarrow> (bool \<times> sequence list) res" where
  "all_finished [] = Inr (True, [])"
| "all_finished (s # ss) =
     bindE (seq_finished_check s) (\<lambda>(b, s1).
       if \<not> b then Inr (False, s1 # ss)
       else bindE (all_finished ss) (\<lambda>(b2, ss1). Inr (b2, s1 # ss1)))"

definition request_finished :: "request \<Rightarrow> (bool \<times> request) res" where
  "request_finished r =
     (if length (rq_sequences r) < rq_best_of r then Inr (False, r)
      else bindE (all_finished (rq_sequences r)) (\<lambda>(b, ss). Inr (b, r\<lparr>rq_sequences := ss\<rparr>)))"

fun expand_loop :: "nat \<Rightarrow> request \<Rightarrow> request res" where
  "expand_loop 0 r = Inr r"
| "expand_loop (Suc n) r = bindE (group_add r) (expand_loop n)"

definition expand_sequences :: "bool \<Rightarrow> request \<Rightarrow> (bool \<times> request) res" where
  "expand_sequences share_prefix r =
     (if beam_width (rq_params r) > 1 then Inr (False, r)
      else if length (rq_sequences r) = rq_best_of r then Inr (False, r)
      else if length (rq_sequences r) > rq_best_of r then Inl Fatal
      else if rq_sequences r = [] then Inl Check_failed
      else let s = hd (rq_sequences r) in
        if \<not> share_prefix \<or> kv_cache_tokens_num (sq_kv s) \<ge> sq_num_prompt_tokens s
        then bindE (expand_loop (rq_best_of r - length (rq_sequences r)) r) (\<lambda>r1. Inr (True, r1))
        else Inr (False, r))"

definition total_num_blocks :: "request \<Rightarrow> nat" where
  "total_num_blocks r = sum_list (map (\<lambda>s. length (kv_blocks (sq_kv s))) (rq_sequences r))"

definition set_cancel :: "request \<Rightarrow> request" where
  "set_cancel r = r\<lparr>rq_cancelled := True, rq_sequences := map seq_set_cancel (rq_sequences r)\<rparr>"

definition handle_last_token :: "request \<Rightarrow> request" where
  "handle_last_token r = r\<lparr>rq_last_token_done := True, rq_sequences := map seq_handle_last_token (rq_sequences r)\<rparr>"

definition set_preempted :: "request \<Rightarrow> request" where
  "set_preempted r = r\<lparr>rq_preempted := True\<rparr>"

text \<open>\<open>conn\<close> is \<open>None\<close> without a call, otherwise whether its client has disconnected.\<close>

definition update_connection_status :: "bool option \<Rightarrow> request \<Rightarrow> request" where
  "update_connection_status conn r = (if conn = Some True then set_cancel r else r)"

definition get_remaining_time :: "request \<Rightarrow> int" where
  "get_remaining_time r = rq_deadline_ms r - rq_elapsed_ms r"

section \<open>Comparators\<close>

record 'd density_ops =
  tpot_density :: "request \<Rightarrow> 'd"
  ttft_density :: "request \<Rightarrow> 'd"
  sjf_density :: "request \<Rightarrow> 'd"
  near :: "'d \<Rightarrow> 'd \<Rightarrow> bool"

definition first_stage :: "request \<Rightarrow> seq_stage" where
  "first_stage r = stage (hd (rq_sequences r))"

definition FCFSComparator :: "request \<Rightarrow> request \<Rightarrow> bool" where
  "FCFSComparator a b \<longleftrightarrow> rq_created a > rq_created b"

definition StrictPriorityComparator :: "request \<Rightarrow> request \<Rightarrow> bool" where
  "StrictPriorityComparator a b \<longleftrightarrow>
     (if rq_priority a \<noteq> rq_priority b then rq_priority a > rq_priority b else rq_created a > rq_created b)"

definition DeadlineComparator :: "request \<Rightarrow> request \<Rightarrow> bool" where
  "DeadlineComparator a b \<longleftrightarrow> get_remaining_time a > get_remaining_time b"

definition DensityComparator :: "('d :: linorder) density_ops \<Rightarrow> request \<Rightarrow> request \<Rightarrow> bool" where
  "DensityComparator D a b \<longleftrightarrow>
     (let f = (if first_stage a = DECODE then tpot_density D else ttft_density D) in
      if near D (f a) (f b) then rq_created a > rq_created b else f a < f b)"

definition SJFComparator :: "('d :: linorder) density_ops \<Rightarrow> request \<Rightarrow> request \<Rightarrow> bool" where
  "SJFComparator D a b \<longleftrightarrow>
     (if near D (sjf_density D a) (sjf_density D b) then rq_created a > rq_created b
      else sjf_density D a < sjf_density D b)"

definition DecodeDeadlineComparator :: "request \<Rightarrow> request \<Rightarrow> bool" where
  "DecodeDeadlineComparator a b \<longleftrightarrow>
     (if first_stage a = first_stage b then DeadlineComparator a b else first_stage a < first_stage b)"

definition DecodeDensityComparator :: "('d :: linorder) density_ops \<Rightarrow> request \<Rightarrow> request \<Rightarrow> bool" where
  "DecodeDensityComparator D a b \<longleftrightarrow>
     (if first_stage a = first_stage b then DensityComparator D a b else first_stage a < first_stage b)"

definition DensityWithAntiStarveComparator :: "('d :: linorder) density_ops \<Rightarrow> request \<Rightarrow> request \<Rightarrow> bool" where
  "DensityWithAntiStarveComparator D a b \<longleftrightarrow>
     (if rq_starved a \<and> rq_starved b then DeadlineComparator a b
      else if \<not> rq_starved a \<and> \<not> rq_starved b then DensityComparator D a b
      else rq_starved a < rq_starved b)"

definition DecodeDensityWithAntiStarveComparator :: "('d :: linorder) density_ops \<Rightarrow> request \<Rightarrow> request \<Rightarrow> bool" where
  "DecodeDensityWithAntiStarveComparator D a b \<longleftrightarrow>
     (if first_stage a = DECODE \<and> first_stage b = DECODE then DensityComparator D a b
      else if first_stage a \<noteq> DECODE \<and> first_stage b \<noteq> DECODE then DensityWithAntiStarveComparator D a b
      else first_stage a < first_stage b)"

definition UrgencyDensityComparator :: "('d :: linorder) density_ops \<Rightarrow> request \<Rightarrow> request \<Rightarrow> bool" where
  "UrgencyDensityComparator D a b \<longleftrightarrow>
     (if rq_urgency a = rq_urgency b
      then (case rq_urgency a of
              U_URGENT \<Rightarrow> DecodeDensityWithAntiStarveComparator D a b
            | U_NORMAL \<Rightarrow> DeadlineComparator a b
            | U_STARVED \<Rightarrow> DensityComparator D a b)
      else rq_urgency a < rq_urgency b)"

definition UrgencyPriorityComparator :: "request \<Rightarrow> request \<Rightarrow> bool" where
  "UrgencyPriorityComparator a b \<longleftrightarrow>
     (if rq_urgency a = rq_urgency b
      then (case rq_urgency a of
              U_URGENT \<Rightarrow> StrictPriorityComparator a b
            | U_NORMAL \<Rightarrow> DeadlineComparator a b
            | U_STARVED \<Rightarrow> StrictPriorityComparator a b)
      else rq_urgency a < rq_urgency b)"

definition DecodeUrgencyDensityComparator :: "('d :: linorder) density_ops \<Rightarrow> request \<Rightarrow> request \<Rightarrow> bool" where
  "DecodeUrgencyDensityComparator D a b \<longleftrightarrow>
     (if first_stage a \<noteq> DECODE \<and> first_stage b \<noteq> DECODE then UrgencyDensityComparator D a b
      else first_stage a < first_stage b)"

text \<open>\<open>^ is_reversed\<close> negates the result.\<close>

definition create_comparator ::
    "('d :: linorder) density_ops \<Rightarrow> string \<Rightarrow> bool \<Rightarrow> (request \<Rightarrow> request \<Rightarrow> bool) res" where
  "create_comparator D strategy is_reversed =
     (let mk = (\<lambda>f. Inr (\<lambda>a b. f a b \<noteq> is_reversed)) in
      if strategy = ''fcfs'' then mk FCFSComparator
      else if strategy = ''priority'' then mk StrictPriorityComparator
      else if strategy = ''deadline'' then mk DeadlineComparator
      else if strategy = ''sjf'' then mk (SJFComparator D)
      else if strategy = ''decode_density'' then mk (DecodeDensityComparator D)
      else if strategy = ''density'' then mk (DensityComparator D)
      else if strategy = ''urgency_density'' then mk (UrgencyDensityComparator D)
      else if strategy = ''decode_urgency_density'' then mk (DecodeUrgencyDensityComparator D)
      else if strategy = ''urgency_priority'' then mk UrgencyPriorityComparator
      else if strategy = ''decode_deadline'' then mk DecodeDeadlineComparator
      else Inl Fatal)"

section \<open>Strict weak orders\<close>

text \<open>What \<open>std::priority_queue\<close>, \<open>std::set\<close> and \<open>std::sort\<close> require of a comparator.\<close>

definition strict_weak :: "('a \<Rightarrow> 'a \<Rightarrow> bool) \<Rightarrow> bool" where
  "strict_weak cmp \<longleftrightarrow> (\<forall>a. \<not> cmp a a) \<and> (\<forall>a b c. cmp a b \<longrightarrow> cmp b c \<longrightarrow> cmp a c) \<and>
     (\<forall>a b c. \<not> cmp a b \<and> \<not> cmp b a \<and> \<not> cmp b c \<and> \<not> cmp c b \<longrightarrow> \<not> cmp a c \<and> \<not> cmp c a)"

text \<open>A comparator that orders by a key: a larger key comes out of a \<open>priority_queue\<close> later.\<close>

locale keyed_comparator =
  fixes cmp :: "'a \<Rightarrow> 'a \<Rightarrow> bool" and key :: "'a \<Rightarrow> 'k :: linorder"
  assumes cmp_key: "cmp a b \<longleftrightarrow> key b < key a"
begin

lemma keyed_strict_weak: "strict_weak cmp"
  unfolding strict_weak_def cmp_key by auto

lemma keyed_top: "q \<noteq> [] \<Longrightarrow> (\<exists>x \<in> set q. \<forall>y \<in> set q. \<not> cmp x y)"
  using arg_min_list_in[of q key] arg_min_list_in f_arg_min_list_f[of q key] Min_le[of "key ` set q"]
  by (metis (no_types, lifting) List.finite_set cmp_key finite_imageI image_eqI linorder_not_less)

lemma keyed_reversed: "\<not> strict_weak (\<lambda>a b. cmp a b \<noteq> True)"
  unfolding strict_weak_def cmp_key by auto

end

definition urgency_key :: "request \<Rightarrow> int \<times> int \<times> int" where
  "urgency_key r = (- urgency_num (rq_urgency r),
     (if rq_urgency r = U_NORMAL then (get_remaining_time r, 0) else (priority_num (rq_priority r), rq_created r)))"

interpretation fcfs_order: keyed_comparator FCFSComparator rq_created
  by unfold_locales (simp add: FCFSComparator_def)

interpretation priority_order: keyed_comparator StrictPriorityComparator "\<lambda>r. (rq_priority r, rq_created r)"
  by unfold_locales (auto simp: StrictPriorityComparator_def)

interpretation deadline_order: keyed_comparator DeadlineComparator get_remaining_time
  by unfold_locales (simp add: DeadlineComparator_def)

interpretation decode_deadline_order: keyed_comparator DecodeDeadlineComparator
    "\<lambda>r. (- stage_num (first_stage r), get_remaining_time r)"
  by unfold_locales (auto simp: DecodeDeadlineComparator_def DeadlineComparator_def less_seq_stage_def le_less stage_num_inj)

interpretation urgency_order: keyed_comparator UrgencyPriorityComparator urgency_key
proof
  fix a b
  show "UrgencyPriorityComparator a b \<longleftrightarrow> urgency_key b < urgency_key a"
    by (cases "rq_urgency a"; cases "rq_urgency b")
      (auto simp: UrgencyPriorityComparator_def urgency_key_def DeadlineComparator_def StrictPriorityComparator_def
        less_request_priority_def less_urgency_def le_less priority_num_inj)
qed

end
