(* ===== verification/Scheduler.thy ===== *)
theory Scheduler
  imports Block_Pool Requests
begin

text \<open>
  \<open>core/scheduler/continuous_scheduler.{h,cpp}\<close> and the \<open>FCFSQueue\<close> of
  \<open>decode_priority_queue.h\<close>: from the queues of requests to the sequences of the next batch.
  Requests are shared objects, so the queues hold request numbers and \<open>sc_reqs\<close> is the heap of
  requests; \<open>running_sequences\<close> are pairs of request number and index. The KV cache manager is
  the interface \<open>kv_ops\<close> (\<open>KVCacheManager\<close>), which \<open>pool_kv\<close> implements by \<open>BlockManagerPool\<close>.

  Latency-aware scheduling is off: then the estimate stays the constant overhead and the two
  comparisons with the budgets are options. The running queues are those of all strategies
  but \<open>deadline\<close> and \<open>priority\<close>. \<open>std::priority_queue\<close> leaves open which of several equal
  elements is its top; here it is the one pushed first. Batches are built from the running
  requests by the batch factory, which is not modelled, and metrics are left out.
\<close>

section \<open>The KV cache manager\<close>

record 'p kv_ops =
  kvm_allocate :: "nat \<Rightarrow> sequence \<Rightarrow> 'p \<Rightarrow> (bool \<times> sequence \<times> 'p) res"
  kvm_deallocate :: "sequence \<Rightarrow> 'p \<Rightarrow> (sequence \<times> 'p) res"
  kvm_cache :: "sequence \<Rightarrow> 'p \<Rightarrow> (sequence \<times> 'p) res"
  kvm_block_size :: "'p \<Rightarrow> nat"
  kvm_free_blocks :: "'p \<Rightarrow> nat list"
  kvm_used_blocks :: "'p \<Rightarrow> nat list"
  kvm_over_threshold :: "'p \<Rightarrow> bool"    \<comment> \<open>\<open>kv_cache_utilization()\<close> reaches the scheduling threshold\<close>
  kvm_ref_count :: "sequence \<Rightarrow> block \<Rightarrow> 'p \<Rightarrow> nat res"

definition pool_kv :: "hash_lib \<Rightarrow> int \<Rightarrow> (pool \<Rightarrow> bool) \<Rightarrow> pool kv_ops" where
  "pool_kv H now over =
     \<lparr>kvm_allocate = bp_allocate H, kvm_deallocate = bp_deallocate H now, kvm_cache = bp_cache H now,
      kvm_block_size = bp_block_size, kvm_free_blocks = bp_num_free_blocks, kvm_used_blocks = bp_num_used_blocks,
      kvm_over_threshold = over,
      kvm_ref_count = (\<lambda>s b Q. bindE (mgr Q (nat (sq_dp_rank s))) (\<lambda>B. block_ref_count b (bm_arena B)))\<rparr>"

section \<open>State\<close>

record sched_options =
  max_tokens_per_batch :: nat
  max_seqs_per_batch :: int
  num_speculative_tokens :: nat
  so_schedule_overlap :: bool
  cp_size :: int
  flag_chunked_prefill :: bool
  so_disagg_pd :: bool
  online_preempt_offline :: bool
  so_prefix_cache :: bool
  so_fcfs :: bool                         \<comment> \<open>\<open>priority_strategy\<close> is \<open>fcfs\<close>\<close>
  so_comparator :: "request \<Rightarrow> request \<Rightarrow> bool"
  prefill_latency_ok :: bool              \<comment> \<open>\<open>latency_budget > estimate_latency\<close>\<close>
  decode_latency_ok :: bool

definition min_speculative_tokens_required :: "sched_options \<Rightarrow> nat" where
  "min_speculative_tokens_required C =
     (if so_schedule_overlap C then num_speculative_tokens C * 2 else num_speculative_tokens C)"

record 'p sched =
  sc_reqs :: "nat \<Rightarrow> request"
  request_queue :: "nat list"
  waiting_queue :: "nat list"
  waiting_queue_offline :: "nat list"
  running_queue :: "nat list"
  running_queue_offline :: "nat list"
  running_requests :: "nat option list"    \<comment> \<open>\<open>None\<close>: set to \<open>nullptr\<close>\<close>
  running_sequences :: "(nat \<times> nat) list"
  running_sequences_budgets :: "nat list"
  last_step_prefill :: bool
  sc_pool :: 'p
  completed :: "nat list"                  \<comment> \<open>given to \<open>process_completed_requests\<close>\<close>
  failed :: "nat list"                     \<comment> \<open>given to \<open>process_failed_request\<close>\<close>

text \<open>The queue a reference parameter stands for: \<open>True\<close> is the offline one.\<close>

definition wait_q :: "bool \<Rightarrow> 'p sched \<Rightarrow> nat list" where
  "wait_q off S = (if off then waiting_queue_offline S else waiting_queue S)"

definition set_wait_q :: "bool \<Rightarrow> nat list \<Rightarrow> 'p sched \<Rightarrow> 'p sched" where
  "set_wait_q off q S = (if off then S\<lparr>waiting_queue_offline := q\<rparr> else S\<lparr>waiting_queue := q\<rparr>)"

definition run_q :: "bool \<Rightarrow> 'p sched \<Rightarrow> nat list" where
  "run_q off S = (if off then running_queue_offline S else running_queue S)"

definition set_run_q :: "bool \<Rightarrow> nat list \<Rightarrow> 'p sched \<Rightarrow> 'p sched" where
  "set_run_q off q S = (if off then S\<lparr>running_queue_offline := q\<rparr> else S\<lparr>running_queue := q\<rparr>)"

definition upd_req :: "nat \<Rightarrow> request \<Rightarrow> 'p sched \<Rightarrow> 'p sched" where
  "upd_req r x S = S\<lparr>sc_reqs := (sc_reqs S)(r := x)\<rparr>"

definition seq_at :: "nat \<Rightarrow> nat \<Rightarrow> 'p sched \<Rightarrow> sequence res" where
  "seq_at r i S = nth_res (rq_sequences (sc_reqs S r)) i"

definition put_seq :: "nat \<Rightarrow> nat \<Rightarrow> sequence \<Rightarrow> 'p sched \<Rightarrow> 'p sched" where
  "put_seq r i s S = upd_req r ((sc_reqs S r)\<lparr>rq_sequences := (rq_sequences (sc_reqs S r))[i := s]\<rparr>) S"

text \<open>\<open>std::priority_queue::top\<close>: the comparator says that its left argument comes later.\<close>

definition pq_top :: "sched_options \<Rightarrow> (nat \<Rightarrow> request) \<Rightarrow> nat list \<Rightarrow> nat" where
  "pq_top C reqs q = foldl (\<lambda>x y. if so_comparator C (reqs x) (reqs y) then y else x) (hd q) (tl q)"

section \<open>Calls on one sequence or request\<close>

definition alloc_seq :: "'p kv_ops \<Rightarrow> nat \<Rightarrow> nat \<Rightarrow> nat \<Rightarrow> 'p sched \<Rightarrow> (bool \<times> 'p sched) res" where
  "alloc_seq K r i n S =
     bindE (seq_at r i S) (\<lambda>s.
     bindE (kvm_allocate K n s (sc_pool S)) (\<lambda>(ok, s1, P). Inr (ok, (put_seq r i s1 S)\<lparr>sc_pool := P\<rparr>)))"

definition dealloc_seq :: "'p kv_ops \<Rightarrow> nat \<Rightarrow> nat \<Rightarrow> 'p sched \<Rightarrow> 'p sched res" where
  "dealloc_seq K r i S =
     bindE (seq_at r i S) (\<lambda>s.
     bindE (kvm_deallocate K s (sc_pool S)) (\<lambda>(s1, P). Inr ((put_seq r i s1 S)\<lparr>sc_pool := P\<rparr>)))"

definition cache_seq :: "'p kv_ops \<Rightarrow> nat \<Rightarrow> nat \<Rightarrow> 'p sched \<Rightarrow> 'p sched res" where
  "cache_seq K r i S =
     bindE (seq_at r i S) (\<lambda>s.
     bindE (kvm_cache K s (sc_pool S)) (\<lambda>(s1, P). Inr ((put_seq r i s1 S)\<lparr>sc_pool := P\<rparr>)))"

definition finished_seq :: "nat \<Rightarrow> nat \<Rightarrow> 'p sched \<Rightarrow> (bool \<times> 'p sched) res" where
  "finished_seq r i S =
     bindE (seq_at r i S) (\<lambda>s. bindE (seq_finished_check s) (\<lambda>(b, s1). Inr (b, put_seq r i s1 S)))"

definition num_seqs :: "nat \<Rightarrow> 'p sched \<Rightarrow> nat" where
  "num_seqs r S = length (rq_sequences (sc_reqs S r))"

text \<open>\<open>deallocate(Request*)\<close>\<close>

definition dealloc_request :: "'p kv_ops \<Rightarrow> nat \<Rightarrow> 'p sched \<Rightarrow> 'p sched res" where
  "dealloc_request K r S = foldE (dealloc_seq K r) [0..<num_seqs r S] S"

text \<open>\<open>request->finished() || request->cancelled()\<close>\<close>

definition done_request :: "nat \<Rightarrow> 'p sched \<Rightarrow> (bool \<times> 'p sched) res" where
  "done_request r S =
     bindE (request_finished (sc_reqs S r)) (\<lambda>(b, x). Inr (b \<or> rq_cancelled x, upd_req r x S))"

definition preempt_request :: "nat \<Rightarrow> 'p sched \<Rightarrow> 'p sched" where
  "preempt_request r S = upd_req r (set_preempted (sc_reqs S r)) S"

section \<open>Prefill\<close>

definition maybe_align_cp_prefill_tokens :: "sched_options \<Rightarrow> sequence \<Rightarrow> nat \<Rightarrow> nat" where
  "maybe_align_cp_prefill_tokens C s n =
     (if cp_size C \<le> 1 \<or> n = 0 then n
      else if flag_chunked_prefill C then n
      else if stage s = DECODE then n
      else round_up_div n (nat (cp_size C) * 2) * (nat (cp_size C) * 2))"

fun count_low_refs :: "'p kv_ops \<Rightarrow> sequence \<Rightarrow> block list \<Rightarrow> 'p \<Rightarrow> nat res" where
  "count_low_refs K s [] P = Inr 0"
| "count_low_refs K s (b # bs) P =
     bindE (kvm_ref_count K s b P) (\<lambda>n. bindE (count_low_refs K s bs P) (\<lambda>m. Inr ((if n \<le> 2 then 1 else 0) + m)))"

definition evictable_blocks :: "'p kv_ops \<Rightarrow> sequence \<Rightarrow> 'p \<Rightarrow> nat res" where
  "evictable_blocks K s P =
     (let shared = num_owned_shared_blocks (sq_kv s); n = length (kv_blocks (sq_kv s)) in
      bindE (check (n \<ge> shared)) (\<lambda>_.
      bindE (count_low_refs K s (take shared (kv_blocks (sq_kv s))) P) (\<lambda>m. Inr (m + (n - shared)))))"

fun sum_evictable :: "'p kv_ops \<Rightarrow> sequence list \<Rightarrow> 'p \<Rightarrow> nat res" where
  "sum_evictable K [] P = Inr 0"
| "sum_evictable K (s # ss) P =
     bindE (evictable_blocks K s P) (\<lambda>n. bindE (sum_evictable K ss P) (\<lambda>m. Inr (n + m)))"

text \<open>The loop over the queue from its back; the result has the number of requests to evict.\<close>

fun evict_scan :: "'p kv_ops \<Rightarrow> nat \<Rightarrow> nat list \<Rightarrow> nat \<Rightarrow> nat \<Rightarrow> 'p sched \<Rightarrow> (bool \<times> nat) res" where
  "evict_scan K needed [] can n S = Inr (False, n)"
| "evict_scan K needed (r # rs) can n S =
     bindE (sum_evictable K (rq_sequences (sc_reqs S r)) (sc_pool S)) (\<lambda>m.
       if needed \<le> can + m then Inr (True, n + 1) else evict_scan K needed rs (can + m) (n + 1) S)"

definition check_if_enough_to_evict :: "'p kv_ops \<Rightarrow> nat \<Rightarrow> 'p sched \<Rightarrow> (bool \<times> nat) res" where
  "check_if_enough_to_evict K n S =
     (if kvm_block_size K (sc_pool S) = 0 then Inl Div_by_zero
      else evict_scan K (round_up_div n (kvm_block_size K (sc_pool S))) (rev (running_queue_offline S)) 0 0 S)"

text \<open>The last offline request gives its blocks back and waits again.\<close>

definition evict_offline :: "'p kv_ops \<Rightarrow> 'p sched \<Rightarrow> 'p sched res" where
  "evict_offline K S =
     (if running_queue_offline S = [] then Inl Out_of_range
      else let r = last (running_queue_offline S) in
        bindE (dealloc_request K r S) (\<lambda>S1.
        let S2 = preempt_request r (S1\<lparr>running_queue_offline := butlast (running_queue_offline S1)\<rparr>)
        in Inr (S2\<lparr>waiting_queue_offline := waiting_queue_offline S2 @ [r]\<rparr>)))"

fun evict_offline_n :: "'p kv_ops \<Rightarrow> nat \<Rightarrow> 'p sched \<Rightarrow> 'p sched res" where
  "evict_offline_n K 0 S = Inr S"
| "evict_offline_n K (Suc n) S = bindE (evict_offline K S) (evict_offline_n K n)"

definition alloc_prefill :: "sched_options \<Rightarrow> 'p kv_ops \<Rightarrow> nat \<Rightarrow> nat \<Rightarrow> nat \<Rightarrow> 'p sched \<Rightarrow> (bool \<times> 'p sched) res" where
  "alloc_prefill C K r i n S =
     bindE (alloc_seq K r i n S) (\<lambda>(ok, S1).
       if ok then Inr (True, S1)
       else if online_preempt_offline C \<and> \<not> rq_offline (sc_reqs S1 r) \<and> running_queue_offline S1 \<noteq> []
       then bindE (check_if_enough_to_evict K n S1) (\<lambda>(enough, k).
              if enough then bindE (evict_offline_n K k S1) (alloc_seq K r i n) else Inr (False, S1))
       else Inr (False, S1))"

datatype verdict = Can_schedule | Budget_exhausted | Blocks_exhausted

type_synonym 'p scan = "verdict \<times> nat \<times> nat \<times> (nat \<times> nat) list \<times> nat list \<times> 'p sched"

text \<open>
  The loop over the sequences of one request: \<open>tb\<close> and \<open>sb\<close> are the remaining budgets, \<open>at\<close>
  and \<open>as\<close> the tokens and sequences taken so far, \<open>ps\<close> and \<open>bs\<close> the scheduled sequences and
  their budgets.
\<close>

fun prefill_seqs ::
    "sched_options \<Rightarrow> 'p kv_ops \<Rightarrow> nat \<Rightarrow> nat \<Rightarrow> nat \<Rightarrow> nat list \<Rightarrow> nat \<Rightarrow> nat \<Rightarrow> (nat \<times> nat) list \<Rightarrow> nat list \<Rightarrow>
      'p sched \<Rightarrow> 'p scan res" where
  "prefill_seqs C K r tb sb [] at as ps bs S = Inr (Can_schedule, at, as, ps, bs, S)"
| "prefill_seqs C K r tb sb (i # is) at as ps bs S =
     bindE (finished_seq r i S) (\<lambda>(fin, S1).
       if fin then prefill_seqs C K r tb sb is at as ps bs S1
       else bindE (seq_at r i S1) (\<lambda>s.
         let cached = kv_cache_tokens_num (sq_kv s);
             num_tokens = maybe_align_cp_prefill_tokens C s (size_sub (sq_num_tokens s) cached) in
         if tb < at + num_tokens \<or> sb < as + 1 then Inr (Budget_exhausted, at, as, ps, bs, S1)
         else bindE (alloc_prefill C K r i (cached + num_tokens) S1) (\<lambda>(ok, S2).
           if ok then prefill_seqs C K r tb sb is (at + num_tokens) (as + 1) (ps @ [(r, i)]) (bs @ [num_tokens]) S2
           else bindE (dealloc_seq K r i S2) (\<lambda>S3. Inr (Blocks_exhausted, at, as, ps, bs, S3)))))"

text \<open>What one round of a scheduling loop does: go on with new budgets, or leave the loop.\<close>

datatype 'p flow = Go nat nat "'p sched" | Leave verdict nat nat "'p sched"

text \<open>A request joins the batch with the given sequences.\<close>

definition schedule :: "nat \<Rightarrow> (nat \<times> nat) list \<Rightarrow> nat list \<Rightarrow> 'p sched \<Rightarrow> 'p sched" where
  "schedule r ps bs S =
     S\<lparr>running_requests := running_requests S @ [Some r], running_sequences := running_sequences S @ ps,
       running_sequences_budgets := running_sequences_budgets S @ bs\<rparr>"

definition prefill_round :: "sched_options \<Rightarrow> 'p kv_ops \<Rightarrow> bool \<Rightarrow> nat \<Rightarrow> nat \<Rightarrow> 'p sched \<Rightarrow> 'p flow res" where
  "prefill_round C K off tb sb S =
     (if \<not> so_disagg_pd C \<and> kvm_over_threshold K (sc_pool S) then Inr (Leave Blocks_exhausted tb sb S)
      else let r = pq_top C (sc_reqs S) (wait_q off S) in
      bindE (done_request r S) (\<lambda>(fin, S1).
        if fin
        then bindE (dealloc_request K r S1) (\<lambda>S2.
               Inr (Go tb sb (set_wait_q off (remove1 r (wait_q off S2)) (S2\<lparr>completed := completed S2 @ [r]\<rparr>))))
        else bindE (check (rq_preempted (sc_reqs S1 r) \<or> num_seqs r S1 = 1)) (\<lambda>_.
          bindE (prefill_seqs C K r tb sb [0..<num_seqs r S1] 0 0 [] [] S1) (\<lambda>(v, at, as, ps, bs, S2).
            if v \<noteq> Can_schedule
            then bindE (foldE (\<lambda>(r, i). dealloc_seq K r i) ps S2) (\<lambda>S3. Inr (Leave v tb sb S3))
            else Inr (Go (size_sub tb at) (size_sub sb as) (schedule r ps bs (set_wait_q off (remove1 r (wait_q off S2)) S2)))))))"

section \<open>What the calls leave alone\<close>

text \<open>Only the heap of requests and the pool change, and of a request only its dynamic part.\<close>

definition places :: "'p sched \<Rightarrow> nat list \<times> nat list \<times> nat list \<times> nat list \<times> nat list \<times> nat option list \<times>
    (nat \<times> nat) list \<times> nat list \<times> bool \<times> nat list \<times> nat list" where
  "places S = (request_queue S, waiting_queue S, waiting_queue_offline S, running_queue S, running_queue_offline S,
     running_requests S, running_sequences S, running_sequences_budgets S, last_step_prefill S, completed S, failed S)"

definition heap_step :: "'p sched \<Rightarrow> 'p sched \<Rightarrow> bool" where
  "heap_step S S' \<longleftrightarrow> places S' = places S \<and>
     (\<forall>r. rq_offline (sc_reqs S' r) = rq_offline (sc_reqs S r) \<and> rq_params (sc_reqs S' r) = rq_params (sc_reqs S r) \<and>
          rq_created (sc_reqs S' r) = rq_created (sc_reqs S r) \<and> num_seqs r S' = num_seqs r S)"

lemma heap_step_refl [simp]: "heap_step S S"
  by (simp add: heap_step_def)

lemma heap_step_trans: "heap_step S S1 \<Longrightarrow> heap_step S1 S2 \<Longrightarrow> heap_step S S2"
  by (simp add: heap_step_def)

lemma heap_stepD:
  assumes "heap_step S S'"
  shows "request_queue S' = request_queue S" "waiting_queue S' = waiting_queue S"
    "waiting_queue_offline S' = waiting_queue_offline S" "running_queue S' = running_queue S"
    "running_queue_offline S' = running_queue_offline S" "running_requests S' = running_requests S"
    "running_sequences S' = running_sequences S" "running_sequences_budgets S' = running_sequences_budgets S"
    "last_step_prefill S' = last_step_prefill S" "completed S' = completed S" "failed S' = failed S"
    "wait_q off S' = wait_q off S" "run_q off S' = run_q off S"
    "rq_offline (sc_reqs S' r) = rq_offline (sc_reqs S r)" "rq_params (sc_reqs S' r) = rq_params (sc_reqs S r)"
    "num_seqs r S' = num_seqs r S"
  using assms by (simp_all add: heap_step_def places_def wait_q_def run_q_def)

lemma put_seq_step [simp]: "heap_step S (put_seq r i s S)"
  by (auto simp: heap_step_def places_def put_seq_def upd_req_def num_seqs_def)

lemma put_seq_pool_step [simp]: "heap_step S ((put_seq r i s S)\<lparr>sc_pool := P\<rparr>)"
  by (auto simp: heap_step_def places_def put_seq_def upd_req_def num_seqs_def)

lemma preempt_request_step [simp]: "heap_step S (preempt_request r S)"
  by (auto simp: heap_step_def places_def preempt_request_def upd_req_def num_seqs_def set_preempted_def)

lemma alloc_seq_step: "alloc_seq K r i n S = Inr (ok, S') \<Longrightarrow> heap_step S S'"
  by (auto simp: alloc_seq_def)

lemma dealloc_seq_step: "dealloc_seq K r i S = Inr S' \<Longrightarrow> heap_step S S'"
  by (auto simp: dealloc_seq_def)

lemma cache_seq_step: "cache_seq K r i S = Inr S' \<Longrightarrow> heap_step S S'"
  by (auto simp: cache_seq_def)

lemma finished_seq_step: "finished_seq r i S = Inr (b, S') \<Longrightarrow> heap_step S S'"
  by (auto simp: finished_seq_def)

lemma foldE_step:
  assumes "foldE f xs S = Inr S'" "\<And>x T T'. f x T = Inr T' \<Longrightarrow> heap_step T T'"
  shows "heap_step S S'"
  by (rule foldE_invar[OF assms(1), where P = "heap_step S"]) (auto intro: heap_step_trans dest: assms(2))

lemma dealloc_request_step: "dealloc_request K r S = Inr S' \<Longrightarrow> heap_step S S'"
  unfolding dealloc_request_def by (erule foldE_step) (rule dealloc_seq_step)

lemma all_finished_length: "all_finished ss = Inr (b, ss') \<Longrightarrow> length ss' = length ss"
  by (induction ss arbitrary: b ss') (auto split: if_splits)

lemma done_request_step: "done_request r S = Inr (b, S') \<Longrightarrow> heap_step S S'"
  by (auto simp: done_request_def request_finished_def heap_step_def places_def upd_req_def num_seqs_def dest: all_finished_length
      split: if_splits)

text \<open>Offline requests may move from the back of their running queue to the waiting queue.\<close>

definition evicted :: "'p sched \<Rightarrow> 'p sched \<Rightarrow> bool" where
  "evicted S S' \<longleftrightarrow> (\<exists>q evs. running_queue_offline S = q @ rev evs \<and>
     heap_step (S\<lparr>running_queue_offline := q, waiting_queue_offline := waiting_queue_offline S @ evs\<rparr>) S')"

lemma evicted_step: "heap_step S S' \<Longrightarrow> evicted S S'"
  unfolding evicted_def by (intro exI[of _ "running_queue_offline S"] exI[of _ "[]"]) simp

lemma heap_step_cong: "heap_step S S' \<Longrightarrow> heap_step (S\<lparr>running_queue_offline := q, waiting_queue_offline := w\<rparr>)
    (S'\<lparr>running_queue_offline := q, waiting_queue_offline := w\<rparr>)"
  unfolding heap_step_def num_seqs_def places_def by simp

lemma evicted_trans:
  assumes "evicted S S1" "evicted S1 S2"
  shows "evicted S S2"
proof -
  obtain q evs where a: "running_queue_offline S = q @ rev evs"
    "heap_step (S\<lparr>running_queue_offline := q, waiting_queue_offline := waiting_queue_offline S @ evs\<rparr>) S1"
    using assms(1) by (auto simp: evicted_def)
  obtain q2 evs2 where b: "running_queue_offline S1 = q2 @ rev evs2"
    "heap_step (S1\<lparr>running_queue_offline := q2, waiting_queue_offline := waiting_queue_offline S1 @ evs2\<rparr>) S2"
    using assms(2) by (auto simp: evicted_def)
  have s: "running_queue_offline S1 = q" "waiting_queue_offline S1 = waiting_queue_offline S @ evs"
    using heap_stepD[OF a(2)] by simp_all
  have "heap_step (S\<lparr>running_queue_offline := q2, waiting_queue_offline := waiting_queue_offline S @ evs @ evs2\<rparr>)
      (S1\<lparr>running_queue_offline := q2, waiting_queue_offline := waiting_queue_offline S1 @ evs2\<rparr>)"
    using heap_step_cong[OF a(2), where q = q2 and w = "waiting_queue_offline S1 @ evs2"] s by simp
  from heap_step_trans[OF this b(2)] show ?thesis
    unfolding evicted_def using a(1) b(1) s by (intro exI[of _ q2] exI[of _ "evs @ evs2"]) simp
qed

lemma evict_offline_evicted:
  assumes "evict_offline K S = Inr S'"
  shows "evicted S S'"
proof -
  let ?q = "running_queue_offline S"
  obtain S1 where q: "?q \<noteq> []" "dealloc_request K (last ?q) S = Inr S1" and
    e: "S' = (let S2 = preempt_request (last ?q) (S1\<lparr>running_queue_offline := butlast (running_queue_offline S1)\<rparr>)
              in S2\<lparr>waiting_queue_offline := waiting_queue_offline S2 @ [last ?q]\<rparr>)"
    using assms by (auto simp: evict_offline_def Let_def split: if_splits)
  have s: "heap_step S S1" using q(2) by (rule dealloc_request_step)
  have "S' = preempt_request (last ?q) (S1\<lparr>running_queue_offline := butlast ?q, waiting_queue_offline := waiting_queue_offline S @ [last ?q]\<rparr>)"
    unfolding e using heap_stepD[OF s] by (simp add: Let_def preempt_request_def upd_req_def)
  then have "heap_step (S\<lparr>running_queue_offline := butlast ?q, waiting_queue_offline := waiting_queue_offline S @ [last ?q]\<rparr>) S'"
    using heap_step_trans[OF heap_step_cong[OF s]] preempt_request_step by blast
  then show ?thesis unfolding evicted_def using q(1) by (intro exI[of _ "butlast ?q"] exI[of _ "[last ?q]"]) simp
qed

lemma evict_offline_n_evicted: "evict_offline_n K n S = Inr S' \<Longrightarrow> evicted S S'"
proof (induction n arbitrary: S)
  case (Suc n)
  then show ?case by (auto intro: evicted_trans[OF evict_offline_evicted])
qed (simp add: evicted_step)

lemma alloc_prefill_evicted: "alloc_prefill C K r i n S = Inr (ok, S') \<Longrightarrow> evicted S S'"
  unfolding alloc_prefill_def
  by (auto simp: split_beta intro: evicted_step evicted_trans[OF evicted_step evicted_trans[OF _ evicted_step]]
      dest!: alloc_seq_step evict_offline_n_evicted split: if_splits)

section \<open>The prefill loop\<close>

lemma prefill_seqs_spec:
  assumes "prefill_seqs C K r tb sb is at as ps bs S = Inr (v, at', as', ps', bs', S')" "at \<le> tb" "as \<le> sb"
  shows "evicted S S' \<and> at' \<le> tb \<and> as' \<le> sb \<and>
    (\<exists>qs ds. ps' = ps @ qs \<and> bs' = bs @ ds \<and> length qs = length ds \<and> as' = as + length ds \<and> at' = at + sum_list ds)"
  using assms
proof (induction "is" arbitrary: at as ps bs S)
  case Nil
  then show ?case by (auto intro: evicted_step)
next
  case (Cons i "is")
  obtain fin S1 where f: "finished_seq r i S = Inr (fin, S1)" using Cons.prems(1) by auto
  have e1: "evicted S S1" using f by (intro evicted_step finished_seq_step)
  show ?case
  proof (cases fin)
    case True
    then show ?thesis using Cons.IH[of at as ps bs S1] Cons.prems f e1 by (auto intro: evicted_trans)
  next
    case False
    then obtain s where s: "seq_at r i S1 = Inr s" using Cons.prems(1) f by auto
    let ?n = "maybe_align_cp_prefill_tokens C s (size_sub (sq_num_tokens s) (kv_cache_tokens_num (sq_kv s)))"
    show ?thesis
    proof (cases "tb < at + ?n \<or> sb < as + 1")
      case True
      then show ?thesis using Cons.prems f s False e1 by (auto simp: Let_def)
    next
      case within: False
      obtain ok S2 where a: "alloc_prefill C K r i (kv_cache_tokens_num (sq_kv s) + ?n) S1 = Inr (ok, S2)"
        using Cons.prems(1) f s False within by (auto simp: Let_def)
      have e2: "evicted S S2" using e1 alloc_prefill_evicted[OF a] by (rule evicted_trans)
      show ?thesis
      proof (cases ok)
        case True
        then have c: "prefill_seqs C K r tb sb is (at + ?n) (as + 1) (ps @ [(r, i)]) (bs @ [?n]) S2 = Inr (v, at', as', ps', bs', S')"
          using Cons.prems(1) f s False within a by (simp add: Let_def)
        from Cons.IH[OF this] within obtain qs ds where ih: "evicted S2 S'" "at' \<le> tb" "as' \<le> sb" "ps' = (ps @ [(r, i)]) @ qs"
          "bs' = (bs @ [?n]) @ ds" "length qs = length ds" "as' = as + 1 + length ds" "at' = at + ?n + sum_list ds"
          by auto
        have "ps' = ps @ ((r, i) # qs) \<and> bs' = bs @ (?n # ds) \<and> length ((r, i) # qs) = length (?n # ds) \<and>
          as' = as + length (?n # ds) \<and> at' = at + sum_list (?n # ds)" using ih by simp
        then show ?thesis using ih(1-3) evicted_trans[OF e2] by blast
      next
        case nok: False
        then obtain S3 where "dealloc_seq K r i S2 = Inr S3" "S' = S3" "at' = at" "as' = as" "ps' = ps" "bs' = bs"
          using Cons.prems(1) f s False within a by (auto simp: Let_def)
        then show ?thesis using evicted_trans[OF e2 evicted_step[OF dealloc_seq_step]] Cons.prems(2,3) by auto
      qed
    qed
  qed
qed

lemma pq_top_in: "q \<noteq> [] \<Longrightarrow> pq_top C reqs q \<in> set q"
proof -
  have "foldl (\<lambda>x y. if so_comparator C (reqs x) (reqs y) then y else x) x xs \<in> set (x # xs)" for x xs
  proof (induction xs arbitrary: x)
    case (Cons a xs)
    from Cons[of a] Cons[of x] show ?case by auto
  qed simp
  from this[of "hd q" "tl q"] show "q \<noteq> [] \<Longrightarrow> pq_top C reqs q \<in> set q" by (simp add: pq_top_def)
qed

definition prefill_measure :: "bool \<Rightarrow> 'p sched \<Rightarrow> nat" where
  "prefill_measure off S = 2 * length (running_queue_offline S) + length (wait_q off S)"

lemma evicted_wait:
  assumes "evicted S S'"
  shows "prefill_measure off S' \<le> prefill_measure off S" "set (wait_q off S) \<subseteq> set (wait_q off S')"
proof -
  obtain q evs where e: "running_queue_offline S = q @ rev evs"
    "heap_step (S\<lparr>running_queue_offline := q, waiting_queue_offline := waiting_queue_offline S @ evs\<rparr>) S'"
    using assms by (auto simp: evicted_def)
  show "prefill_measure off S' \<le> prefill_measure off S" "set (wait_q off S) \<subseteq> set (wait_q off S')"
    using heap_stepD(3,5,12)[OF e(2)] e(1) by (auto simp: prefill_measure_def wait_q_def)
qed

lemma wait_q_sel [simp]:
  "wait_q off (set_wait_q off q S) = q" "running_queue_offline (set_wait_q off q S) = running_queue_offline S"
  "wait_q off (schedule r ps bs S) = wait_q off S" "running_queue_offline (schedule r ps bs S) = running_queue_offline S"
  "wait_q off (S\<lparr>completed := x\<rparr>) = wait_q off S"
  by (auto simp: wait_q_def set_wait_q_def schedule_def)

lemma take_waiting_less:
  assumes "evicted S T" "r \<in> set (wait_q off S)"
  shows "prefill_measure off (set_wait_q off (remove1 r (wait_q off T)) T) < prefill_measure off S"
proof -
  have "r \<in> set (wait_q off T)" using evicted_wait(2)[OF assms(1), of off] assms(2) by blast
  then have "length (remove1 r (wait_q off T)) < length (wait_q off T)"
    using length_pos_if_in_set[of r "wait_q off T"] by (simp add: length_remove1)
  then show ?thesis using evicted_wait(1)[OF assms(1), of off] by (simp add: prefill_measure_def)
qed

lemma prefill_round_less:
  assumes "prefill_round C K off tb sb S = Inr (Go tb' sb' S')" "wait_q off S \<noteq> []"
  shows "prefill_measure off S' < prefill_measure off S"
proof -
  let ?r = "pq_top C (sc_reqs S) (wait_q off S)"
  have r: "?r \<in> set (wait_q off S)" using assms(2) by (rule pq_top_in)
  note less = take_waiting_less[OF _ r]
  obtain fin S1 where d: "done_request ?r S = Inr (fin, S1)"
    using assms(1) by (auto simp: prefill_round_def Let_def split: if_splits)
  have s1: "heap_step S S1" using d by (rule done_request_step)
  show ?thesis
  proof (cases fin)
    case True
    then obtain S2 where S2: "dealloc_request K ?r S1 = Inr S2"
      "S' = set_wait_q off (remove1 ?r (wait_q off S2)) (S2\<lparr>completed := completed S2 @ [?r]\<rparr>)"
      using assms(1) d by (auto simp: prefill_round_def Let_def split: if_splits)
    have "evicted S S2" using heap_step_trans[OF s1 dealloc_request_step[OF S2(1)]] by (rule evicted_step)
    from less[OF this] show ?thesis unfolding S2(2) by (simp add: prefill_measure_def)
  next
    case False
    then obtain v at as ps bs S2 where p: "prefill_seqs C K ?r tb sb [0..<num_seqs ?r S1] 0 0 [] [] S1 = Inr (v, at, as, ps, bs, S2)"
      "S' = schedule ?r ps bs (set_wait_q off (remove1 ?r (wait_q off S2)) S2)"
      using assms(1) d by (auto simp: prefill_round_def Let_def split: if_splits)
    have "evicted S1 S2" using prefill_seqs_spec[OF p(1)] by simp
    then have "evicted S S2" using evicted_step[OF s1] evicted_trans by blast
    from less[OF this] show ?thesis unfolding p(2) by (simp add: prefill_measure_def)
  qed
qed

declare bindE_fundef_cong [fundef_cong]

function prefill_loop ::
    "sched_options \<Rightarrow> 'p kv_ops \<Rightarrow> bool \<Rightarrow> nat \<Rightarrow> nat \<Rightarrow> 'p sched \<Rightarrow> (verdict \<times> nat \<times> nat \<times> 'p sched) res" where
  "prefill_loop C K off tb sb S =
     (if wait_q off S \<noteq> [] \<and> sb > 0 \<and> tb > 0 \<and> prefill_latency_ok C
      then bindE (prefill_round C K off tb sb S) (\<lambda>f.
             case f of Go tb1 sb1 S1 \<Rightarrow> prefill_loop C K off tb1 sb1 S1 | Leave v tb1 sb1 S1 \<Rightarrow> Inr (v, tb1, sb1, S1))
      else Inr (Can_schedule, tb, sb, S))"
  by pat_completeness auto
termination
  by (relation "measure (\<lambda>(C, K, off, tb, sb, S). prefill_measure off S)") (auto intro: prefill_round_less)

declare prefill_loop.simps [simp del]

text \<open>A waiting request that cannot be scheduled although nothing runs is given up.\<close>

definition give_up_waiting :: "sched_options \<Rightarrow> 'p kv_ops \<Rightarrow> bool \<Rightarrow> verdict \<Rightarrow> 'p sched \<Rightarrow> 'p sched res" where
  "give_up_waiting C K off v S =
     (if running_sequences S = [] \<and> wait_q off S \<noteq> [] \<and> running_queue S = []
      then let r = pq_top C (sc_reqs S) (wait_q off S) in
        bindE (dealloc_request K r (set_wait_q off (remove1 r (wait_q off S)) S)) (\<lambda>S1.
          if v = Can_schedule then Inl Fatal else Inr (S1\<lparr>failed := failed S1 @ [r]\<rparr>))
      else Inr S)"

definition handle_prefill_requests ::
    "sched_options \<Rightarrow> 'p kv_ops \<Rightarrow> bool \<Rightarrow> nat \<Rightarrow> nat \<Rightarrow> 'p sched \<Rightarrow> (nat \<times> nat \<times> 'p sched) res" where
  "handle_prefill_requests C K off tb sb S =
     bindE (prefill_loop C K off tb sb S) (\<lambda>(v, tb1, sb1, S1).
     bindE (give_up_waiting C K off v S1) (\<lambda>S2.
       Inr (tb1, sb1, if running_sequences S2 \<noteq> [] then S2\<lparr>last_step_prefill := True\<rparr> else S2)))"

end
