(* ===== verification/Scheduler_Decode.thy ===== *)
theory Scheduler_Decode
  imports Scheduler
begin

text \<open>
  The rest of \<open>ContinuousScheduler\<close>: the decode loop with preemption, the treatment of requests
  that do not fit, and \<open>prepare_batch\<close>.
\<close>

section \<open>The candidates of one request\<close>

definition estimate_decode_extra_blocks :: "sequence \<Rightarrow> nat \<Rightarrow> nat \<Rightarrow> nat" where
  "estimate_decode_extra_blocks s updated_num_tokens block_size =
     (let num_blocks = length (kv_blocks (sq_kv s)); needed = round_up_div updated_num_tokens block_size in
      if needed > num_blocks then needed - num_blocks
      else if beam_width (sq_params s) > 1 \<and> src_blocks (sq_kv s) \<noteq> [] \<and> need_swap (sq_kv s) then 1 else 0)"

definition get_sequence_free_blocks_for_rank :: "nat list \<Rightarrow> int \<Rightarrow> nat" where
  "get_sequence_free_blocks_for_rank fb dp_rank =
     (if fb = [] then 0
      else if dp_rank \<ge> 0 \<and> nat dp_rank < length fb then fb ! nat dp_rank
      else Max (set fb))"

text \<open>\<open>if_cache_block_for_prefill\<close> and the call it guards.\<close>

definition cache_prefill :: "'p kv_ops \<Rightarrow> nat \<Rightarrow> nat \<Rightarrow> 'p sched \<Rightarrow> 'p sched res" where
  "cache_prefill K r i S =
     bindE (seq_at r i S) (\<lambda>s.
       case if_cache_block_for_prefill s of (c, s1) \<Rightarrow>
         if c then cache_seq K r i (put_seq r i s1 S) else Inr (put_seq r i s1 S))"

fun decode_seqs ::
    "sched_options \<Rightarrow> 'p kv_ops \<Rightarrow> nat \<Rightarrow> nat \<Rightarrow> nat \<Rightarrow> nat list \<Rightarrow> nat \<Rightarrow> nat \<Rightarrow> (nat \<times> nat) list \<Rightarrow> nat list \<Rightarrow>
      'p sched \<Rightarrow> 'p scan res" where
  "decode_seqs C K r tb sb [] at as ps bs S = Inr (Can_schedule, at, as, ps, bs, S)"
| "decode_seqs C K r tb sb (i # is) at as ps bs S =
     bindE (finished_seq r i S) (\<lambda>(fin, S1).
       if fin then decode_seqs C K r tb sb is at as ps bs S1
       else let spec = min_speculative_tokens_required C in
         if at + spec \<ge> tb \<or> as \<ge> sb then Inr (Budget_exhausted, at, as, ps, bs, S1)
         else bindE (seq_at r i S1) (\<lambda>s.
           bindE (alloc_seq K r i (sq_num_tokens s + spec) S1) (\<lambda>(ok, S2).
             if \<not> ok then Inr (Blocks_exhausted, at, as, ps, bs, S2)
             else bindE (cache_prefill K r i S2) (\<lambda>S3.
                    decode_seqs C K r tb sb is (at + (spec + 1)) (as + 1) (ps @ [(r, i)]) (bs @ [spec + 1]) S3))))"

text \<open>Beam search: all unfinished sequences or none.\<close>

fun active_seqs :: "nat \<Rightarrow> nat list \<Rightarrow> 'p sched \<Rightarrow> (nat list \<times> 'p sched) res" where
  "active_seqs r [] S = Inr ([], S)"
| "active_seqs r (i # is) S =
     bindE (finished_seq r i S) (\<lambda>(fin, S1).
     bindE (active_seqs r is S1) (\<lambda>(js, S2). Inr (if fin then js else i # js, S2)))"

fun sum_extra_blocks :: "sched_options \<Rightarrow> nat \<Rightarrow> nat \<Rightarrow> nat list \<Rightarrow> 'p sched \<Rightarrow> nat res" where
  "sum_extra_blocks C block_size r [] S = Inr 0"
| "sum_extra_blocks C block_size r (i # is) S =
     bindE (seq_at r i S) (\<lambda>s.
     bindE (sum_extra_blocks C block_size r is S) (\<lambda>n.
       Inr (estimate_decode_extra_blocks s (sq_num_tokens s + min_speculative_tokens_required C) block_size + n)))"

fun beam_alloc :: "sched_options \<Rightarrow> 'p kv_ops \<Rightarrow> nat \<Rightarrow> nat list \<Rightarrow> 'p sched \<Rightarrow> (bool \<times> 'p sched) res" where
  "beam_alloc C K r [] S = Inr (True, S)"
| "beam_alloc C K r (i # is) S =
     bindE (seq_at r i S) (\<lambda>s.
     bindE (alloc_seq K r i (sq_num_tokens s + min_speculative_tokens_required C) S) (\<lambda>(ok, S1).
       if \<not> ok then Inr (False, S1)
       else bindE (cache_prefill K r i S1) (beam_alloc C K r is)))"

text \<open>The request is preempted and waits in the queue of its kind.\<close>

definition push_waiting :: "nat \<Rightarrow> 'p sched \<Rightarrow> 'p sched" where
  "push_waiting r S = (let off = rq_offline (sc_reqs S r) in set_wait_q off (wait_q off S @ [r]) S)"

text \<open>\<open>Redo\<close>: the request has left the queue and the loop goes on.\<close>

datatype 'p cand = Redo "'p sched" | Cand "'p scan"

definition beam_take :: "sched_options \<Rightarrow> 'p kv_ops \<Rightarrow> bool \<Rightarrow> nat \<Rightarrow> nat list \<Rightarrow> 'p sched \<Rightarrow> 'p cand res" where
  "beam_take C K off r js S =
     (let step = min_speculative_tokens_required C + 1 in
      bindE (beam_alloc C K r js S) (\<lambda>(ok, S1).
        if ok then Inr (Cand (Can_schedule, step * length js, length js, map (Pair r) js, replicate (length js) step, S1))
        else bindE (dealloc_request K r S1) (\<lambda>S2.
          Inr (Redo (push_waiting r (preempt_request r (set_run_q off (tl (run_q off S2)) S2)))))))"

definition beam_candidates ::
    "sched_options \<Rightarrow> 'p kv_ops \<Rightarrow> bool \<Rightarrow> nat \<Rightarrow> nat \<Rightarrow> nat \<Rightarrow> 'p sched \<Rightarrow> 'p cand res" where
  "beam_candidates C K off r tb sb S =
     bindE (active_seqs r [0..<num_seqs r S] S) (\<lambda>(js, S1).
       let step = min_speculative_tokens_required C + 1; bsz = kvm_block_size K (sc_pool S1) in
       if js = [] then Inr (Redo (set_run_q off (tl (run_q off S1)) S1))
       else if step * length js > tb \<or> length js > sb then Inr (Cand (Budget_exhausted, 0, 0, [], [], S1))
       else if bsz = 0 then Inl Div_by_zero
       else bindE (sum_extra_blocks C bsz r js S1) (\<lambda>needed.
            bindE (seq_at r (hd js) S1) (\<lambda>s.
              if needed > get_sequence_free_blocks_for_rank (kvm_free_blocks K (sc_pool S1)) (sq_dp_rank s)
              then Inr (Cand (Blocks_exhausted, 0, 0, [], [], S1))
              else beam_take C K off r js S1)))"

definition candidates ::
    "sched_options \<Rightarrow> 'p kv_ops \<Rightarrow> bool \<Rightarrow> nat \<Rightarrow> nat \<Rightarrow> nat \<Rightarrow> 'p sched \<Rightarrow> 'p cand res" where
  "candidates C K off r tb sb S =
     (if beam_width (rq_params (sc_reqs S r)) > 1 then beam_candidates C K off r tb sb S
      else bindE (decode_seqs C K r tb sb [0..<num_seqs r S] 0 0 [] [] S) (\<lambda>c. Inr (Cand c)))"

section \<open>Requests that do not fit\<close>

text \<open>
  \<open>handle_abnormal_request\<close>. Its parameter is the queue \<open>off\<close>, but the request that is given up
  is popped from the member \<open>running_queue_\<close>; \<open>pop_front\<close> on an empty deque is \<open>Out_of_range\<close>.
\<close>

definition handle_abnormal_request ::
    "sched_options \<Rightarrow> 'p kv_ops \<Rightarrow> bool \<Rightarrow> bool \<Rightarrow> nat \<Rightarrow> nat \<Rightarrow> 'p scan \<Rightarrow> (nat \<times> nat \<times> 'p sched) res" where
  "handle_abnormal_request C K off budget_exhausted tb sb c =
     (case c of (v, at, as, ps, bs, S) \<Rightarrow>
      let r = hd (run_q off S) in
      if ps = [] then
        if running_sequences S \<noteq> [] then Inr (tb, sb, S)
        else bindE (if budget_exhausted then Inr True
                    else bindE (check (length (run_q off S) = 1)) (\<lambda>_.
                           Inr (sum_list (kvm_used_blocks K (sc_pool S)) = total_num_blocks (sc_reqs S r)))) (\<lambda>too_long.
               if \<not> too_long then Inr (tb, sb, S)
               else if running_queue S = [] then Inl Out_of_range
               else bindE (dealloc_request K r (S\<lparr>running_queue := tl (running_queue S)\<rparr>)) (\<lambda>S1.
                      Inr (tb, sb, S1\<lparr>failed := failed S1 @ [r]\<rparr>)))
      else if beam_width (rq_params (sc_reqs S r)) > 1 then Inr (tb, sb, S)
      else Inr (size_sub tb at, size_sub sb as, schedule r ps bs (set_run_q off (tl (run_q off S)) S)))"

section \<open>The decode loop\<close>

definition preempt_last :: "'p kv_ops \<Rightarrow> bool \<Rightarrow> nat \<Rightarrow> 'p sched \<Rightarrow> 'p sched res" where
  "preempt_last K off r S =
     (let p = last (run_q off S) in
      if p = r then Inl Fatal
      else bindE (dealloc_request K p S) (\<lambda>S1.
             Inr (push_waiting p (preempt_request p (set_run_q off (butlast (run_q off S1)) S1)))))"

definition decode_round :: "sched_options \<Rightarrow> 'p kv_ops \<Rightarrow> bool \<Rightarrow> nat \<Rightarrow> nat \<Rightarrow> 'p sched \<Rightarrow> 'p flow res" where
  "decode_round C K off tb sb S =
     (let r = hd (run_q off S) in
      bindE (candidates C K off r tb sb S) (\<lambda>c. case c of
        Redo S1 \<Rightarrow> Inr (Go tb sb S1)
      | Cand (v, at, as, ps, bs, S1) \<Rightarrow>
          bindE (check (at \<le> tb)) (\<lambda>_. bindE (check (as \<le> sb)) (\<lambda>_.
          case v of
            Can_schedule \<Rightarrow>
              Inr (Go (size_sub tb at) (size_sub sb as) (schedule r ps bs (set_run_q off (tl (run_q off S1)) S1)))
          | Budget_exhausted \<Rightarrow>
              bindE (handle_abnormal_request C K off True tb sb (v, at, as, ps, bs, S1)) (\<lambda>(tb1, sb1, S2).
                Inr (Leave v tb1 sb1 S2))
          | Blocks_exhausted \<Rightarrow>
              if online_preempt_offline C \<and> \<not> rq_offline (sc_reqs S1 r) \<and> running_queue_offline S1 \<noteq> []
              then bindE (evict_offline K S1) (\<lambda>S2. Inr (Go tb sb S2))
              else if length (run_q off S1) > 1
              then bindE (preempt_last K off r S1) (\<lambda>S2. Inr (Go tb sb S2))
              else bindE (handle_abnormal_request C K off False tb sb (v, at, as, ps, bs, S1)) (\<lambda>(tb1, sb1, S2).
                     Inr (Leave v tb1 sb1 S2))))))"

section \<open>What a round leaves alone\<close>

lemma cache_prefill_step: "cache_prefill K r i S = Inr S' \<Longrightarrow> heap_step S S'"
  by (auto simp: cache_prefill_def split_beta intro: heap_step_trans[OF put_seq_step cache_seq_step] split: if_splits)

lemma decode_seqs_spec:
  assumes "decode_seqs C K r tb sb is at as ps bs S = Inr (v, at', as', ps', bs', S')" "at \<le> tb" "as \<le> sb"
  shows "heap_step S S' \<and> at' \<le> tb \<and> as' \<le> sb \<and>
    (\<exists>qs ds. ps' = ps @ qs \<and> bs' = bs @ ds \<and> length qs = length ds \<and> as' = as + length ds \<and> at' = at + sum_list ds)"
  using assms
proof (induction "is" arbitrary: at as ps bs S)
  case (Cons i "is")
  let ?d = "min_speculative_tokens_required C"
  obtain fin S1 where f: "finished_seq r i S = Inr (fin, S1)" using Cons.prems(1) by auto
  have e1: "heap_step S S1" using f by (rule finished_seq_step)
  consider (fin) fin | (budget) "\<not> fin" "at + ?d \<ge> tb \<or> as \<ge> sb" | (go) "\<not> fin" "at + ?d < tb" "as < sb" by fastforce
  then show ?case
  proof cases
    case fin
    then show ?thesis using Cons.IH[of at as ps bs S1] Cons.prems f e1 by (auto intro: heap_step_trans)
  next
    case budget
    then show ?thesis using Cons.prems f e1 by (auto simp: Let_def)
  next
    case go
    obtain s ok S2 where a: "seq_at r i S1 = Inr s" "alloc_seq K r i (sq_num_tokens s + ?d) S1 = Inr (ok, S2)"
      using Cons.prems(1) f go by (auto simp: Let_def)
    have e2: "heap_step S S2" using e1 alloc_seq_step[OF a(2)] by (rule heap_step_trans)
    show ?thesis
    proof (cases ok)
      case False
      then show ?thesis using Cons.prems f go a e2 by (auto simp: Let_def)
    next
      case True
      then obtain S3 where c: "cache_prefill K r i S2 = Inr S3"
        "decode_seqs C K r tb sb is (at + (?d + 1)) (as + 1) (ps @ [(r, i)]) (bs @ [?d + 1]) S3 = Inr (v, at', as', ps', bs', S')"
        using Cons.prems(1) f go a by (auto simp: Let_def)
      from Cons.IH[OF c(2)] go obtain qs ds where ih: "heap_step S3 S'" "at' \<le> tb" "as' \<le> sb" "ps' = (ps @ [(r, i)]) @ qs"
        "bs' = (bs @ [?d + 1]) @ ds" "length qs = length ds" "as' = as + 1 + length ds" "at' = at + (?d + 1) + sum_list ds"
        by auto
      have "ps' = ps @ ((r, i) # qs) \<and> bs' = bs @ ((?d + 1) # ds) \<and> length ((r, i) # qs) = length ((?d + 1) # ds) \<and>
        as' = as + length ((?d + 1) # ds) \<and> at' = at + sum_list ((?d + 1) # ds)" using ih by simp
      moreover have "heap_step S S'" using e2 cache_prefill_step[OF c(1)] ih(1) heap_step_trans by blast
      ultimately show ?thesis using ih(2,3) by blast
    qed
  qed
qed simp

lemma active_seqs_step: "active_seqs r is S = Inr (js, S') \<Longrightarrow> heap_step S S'"
  by (induction "is" arbitrary: S js) (auto dest!: finished_seq_step intro: heap_step_trans)

lemma beam_alloc_step: "beam_alloc C K r is S = Inr (ok, S') \<Longrightarrow> heap_step S S'"
proof (induction "is" arbitrary: S)
  case (Cons i "is")
  then show ?case
    by (auto split: if_splits dest!: alloc_seq_step cache_prefill_step intro: heap_step_trans)
qed simp

definition decode_measure :: "'p sched \<Rightarrow> nat" where
  "decode_measure S = length (running_queue S) + length (running_queue_offline S)"

lemma run_q_sel [simp]:
  "run_q off (set_run_q off q S) = q" "running_queue (set_wait_q w q S) = running_queue S"
  "running_queue_offline (set_wait_q w q S) = running_queue_offline S"
  "running_queue (schedule r ps bs S) = running_queue S" "running_queue_offline (schedule r ps bs S) = running_queue_offline S"
  "running_queue (push_waiting r S) = running_queue S" "running_queue_offline (push_waiting r S) = running_queue_offline S"
  "running_queue (preempt_request r S) = running_queue S" "running_queue_offline (preempt_request r S) = running_queue_offline S"
  by (auto simp: run_q_def set_run_q_def set_wait_q_def schedule_def push_waiting_def preempt_request_def upd_req_def Let_def)

lemma set_run_q_less:
  assumes "run_q off S \<noteq> []" "length q < length (run_q off S)"
  shows "decode_measure (set_run_q off q S) < decode_measure S"
  using assms by (auto simp: decode_measure_def set_run_q_def run_q_def)

lemma decode_measure_cong:
  "decode_measure (schedule r ps bs S) = decode_measure S" "decode_measure (push_waiting r S) = decode_measure S"
  "decode_measure (preempt_request r S) = decode_measure S"
  by (simp_all add: decode_measure_def)

lemma heap_step_measure: "heap_step S S' \<Longrightarrow> decode_measure S' = decode_measure S"
  by (simp add: decode_measure_def heap_stepD)

lemma pop_less:
  assumes "heap_step S S1" "run_q off S \<noteq> []"
  shows "decode_measure (set_run_q off (tl (run_q off S1)) S1) < decode_measure S"
    "decode_measure (set_run_q off (butlast (run_q off S1)) S1) < decode_measure S"
  using set_run_q_less[of off S1 "tl (run_q off S1)"] set_run_q_less[of off S1 "butlast (run_q off S1)"]
    heap_stepD(13)[OF assms(1), of off] heap_step_measure[OF assms(1)] assms(2)
  by simp_all

text \<open>The batch built so far is not touched.\<close>

definition same_batch :: "'p sched \<Rightarrow> 'p sched \<Rightarrow> bool" where
  "same_batch S S' \<longleftrightarrow> running_sequences S' = running_sequences S \<and>
     running_sequences_budgets S' = running_sequences_budgets S"

lemma same_batch_refl [simp]: "same_batch S S"
  by (simp add: same_batch_def)

lemma same_batch_trans: "same_batch S S1 \<Longrightarrow> same_batch S1 S2 \<Longrightarrow> same_batch S S2"
  by (simp add: same_batch_def)

lemma heap_step_batch: "heap_step S S' \<Longrightarrow> same_batch S S'"
  by (simp add: same_batch_def heap_stepD)

lemma evicted_batch: "evicted S S' \<Longrightarrow> same_batch S S'"
  by (auto simp: evicted_def same_batch_def dest: heap_stepD(7,8))

lemma queue_batch [simp]:
  "same_batch T (set_wait_q off q S) = same_batch T S" "same_batch (set_wait_q off q S) T = same_batch S T"
  "same_batch T (set_run_q off q S) = same_batch T S" "same_batch (set_run_q off q S) T = same_batch S T"
  "same_batch T (S\<lparr>completed := x\<rparr>) = same_batch T S" "same_batch (S\<lparr>completed := x\<rparr>) T = same_batch S T"
  "same_batch T (S\<lparr>failed := x\<rparr>) = same_batch T S" "same_batch (S\<lparr>failed := x\<rparr>) T = same_batch S T"
  "same_batch T (S\<lparr>running_queue := q\<rparr>) = same_batch T S" "same_batch (S\<lparr>running_queue := q\<rparr>) T = same_batch S T"
  "same_batch T (S\<lparr>last_step_prefill := b\<rparr>) = same_batch T S" "same_batch (S\<lparr>last_step_prefill := b\<rparr>) T = same_batch S T"
  "same_batch T (push_waiting r S) = same_batch T S" "same_batch (push_waiting r S) T = same_batch S T"
  "same_batch T (preempt_request r S) = same_batch T S" "same_batch (preempt_request r S) T = same_batch S T"
  "same_batch T (upd_req r y S) = same_batch T S" "same_batch (upd_req r y S) T = same_batch S T"
  "same_batch T (S\<lparr>running_requests := z\<rparr>) = same_batch T S" "same_batch (S\<lparr>running_requests := z\<rparr>) T = same_batch S T"
  by (simp_all add: same_batch_def set_wait_q_def set_run_q_def push_waiting_def preempt_request_def upd_req_def Let_def)

lemma beam_take_cases:
  assumes "beam_take C K off r js S1 = Inr c" "heap_step S S1" "run_q off S \<noteq> []"
    "(min_speculative_tokens_required C + 1) * length js \<le> tb" "length js \<le> sb"
  shows "(\<exists>S2. c = Redo S2 \<and> same_batch S S2 \<and> decode_measure S2 < decode_measure S) \<or>
    (\<exists>v at as ps bs S2. c = Cand (v, at, as, ps, bs, S2) \<and> heap_step S S2 \<and> at \<le> tb \<and> as \<le> sb \<and>
       length ps = as \<and> length bs = as \<and> sum_list bs = at)"
proof -
  let ?step = "min_speculative_tokens_required C + 1"
  obtain ok S2 where ba: "beam_alloc C K r js S1 = Inr (ok, S2)" using assms(1) by (auto simp: beam_take_def Let_def)
  have s2: "heap_step S S2" using assms(2) beam_alloc_step[OF ba] by (rule heap_step_trans)
  show ?thesis
  proof (cases ok)
    case True
    then have "c = Cand (Can_schedule, ?step * length js, length js, map (Pair r) js, replicate (length js) ?step, S2)"
      using assms(1) ba by (simp add: beam_take_def Let_def)
    then show ?thesis using s2 assms(4,5) by (simp add: sum_list_replicate mult.commute)
  next
    case False
    then obtain S3 where d: "dealloc_request K r S2 = Inr S3"
      "c = Redo (push_waiting r (preempt_request r (set_run_q off (tl (run_q off S3)) S3)))"
      using assms(1) ba by (auto simp: beam_take_def Let_def)
    have "heap_step S S3" using s2 dealloc_request_step[OF d(1)] by (rule heap_step_trans)
    from pop_less(1)[OF this assms(3)] heap_step_batch[OF this] d(2) show ?thesis by (simp add: decode_measure_cong)
  qed
qed

lemma candidates_cases:
  assumes "candidates C K off r tb sb S = Inr c" "run_q off S \<noteq> []"
  shows "(\<exists>S1. c = Redo S1 \<and> same_batch S S1 \<and> decode_measure S1 < decode_measure S) \<or>
    (\<exists>v at as ps bs S1. c = Cand (v, at, as, ps, bs, S1) \<and> heap_step S S1 \<and> at \<le> tb \<and> as \<le> sb \<and>
       length ps = as \<and> length bs = as \<and> sum_list bs = at)"
proof (cases "beam_width (rq_params (sc_reqs S r)) > 1")
  case False
  then obtain v at as ps bs S1 where d: "decode_seqs C K r tb sb [0..<num_seqs r S] 0 0 [] [] S = Inr (v, at, as, ps, bs, S1)"
    "c = Cand (v, at, as, ps, bs, S1)"
    using assms(1) by (auto simp: candidates_def)
  from decode_seqs_spec[OF d(1)] d(2) show ?thesis by auto
next
  case True
  then have b: "beam_candidates C K off r tb sb S = Inr c" using assms(1) by (simp add: candidates_def)
  then obtain js S1 where a: "active_seqs r [0..<num_seqs r S] S = Inr (js, S1)" by (auto simp: beam_candidates_def)
  have s1: "heap_step S S1" using a by (rule active_seqs_step)
  let ?step = "min_speculative_tokens_required C + 1"
  consider (none) "js = []" | (budget) "js \<noteq> []" "?step * length js > tb \<or> length js > sb"
    | (go) "js \<noteq> []" "?step * length js \<le> tb" "length js \<le> sb" by linarith
  then show ?thesis
  proof cases
    case none
    then have "c = Redo (set_run_q off (tl (run_q off S1)) S1)" using b a by (simp add: beam_candidates_def Let_def)
    then show ?thesis using pop_less(1)[OF s1 assms(2)] heap_step_batch[OF s1] by simp
  next
    case budget
    then have "c = Cand (Budget_exhausted, 0, 0, [], [], S1)" using b a by (auto simp: beam_candidates_def Let_def)
    then show ?thesis using s1 by simp
  next
    case go
    then have "c = Cand (Blocks_exhausted, 0, 0, [], [], S1) \<or> beam_take C K off r js S1 = Inr c"
      using b a by (auto simp: beam_candidates_def Let_def split: if_splits)
    then show ?thesis using s1 beam_take_cases[OF _ s1 assms(2) go(2,3)] by auto
  qed
qed

lemma evicted_decode:
  assumes "evict_offline K S = Inr S'"
  shows "decode_measure S' < decode_measure S"
proof -
  have q: "running_queue_offline S \<noteq> []" using assms by (auto simp: evict_offline_def)
  obtain S1 where d: "dealloc_request K (last (running_queue_offline S)) S = Inr S1"
    "running_queue S' = running_queue S1" "running_queue_offline S' = butlast (running_queue_offline S1)"
    using assms q by (auto simp: evict_offline_def Let_def)
  then show ?thesis using heap_stepD(4,5)[OF dealloc_request_step[OF d(1)]] q by (simp add: decode_measure_def)
qed

lemma preempt_last_less:
  assumes "preempt_last K off r S = Inr S'" "run_q off S \<noteq> []"
  shows "decode_measure S' < decode_measure S"
proof -
  obtain S1 where d: "dealloc_request K (last (run_q off S)) S = Inr S1"
    "S' = push_waiting (last (run_q off S)) (preempt_request (last (run_q off S)) (set_run_q off (butlast (run_q off S1)) S1))"
    using assms(1) by (auto simp: preempt_last_def Let_def split: if_splits)
  from pop_less(2)[OF dealloc_request_step[OF d(1)] assms(2)] show ?thesis
    unfolding d(2) by (simp add: decode_measure_cong)
qed

lemma decode_round_less:
  assumes "decode_round C K off tb sb S = Inr (Go tb' sb' S')" "run_q off S \<noteq> []"
  shows "decode_measure S' < decode_measure S"
proof -
  let ?r = "hd (run_q off S)"
  obtain c where c: "candidates C K off ?r tb sb S = Inr c" using assms(1) by (auto simp: decode_round_def Let_def)
  from candidates_cases[OF this assms(2)] show ?thesis
  proof (elim disjE exE conjE)
    fix S1 assume "c = Redo S1" "decode_measure S1 < decode_measure S"
    then show ?thesis using assms(1) c by (simp add: decode_round_def Let_def)
  next
    fix v at as ps bs S1
    assume x: "c = Cand (v, at, as, ps, bs, S1)" "heap_step S S1" "at \<le> tb" "as \<le> sb"
    have ne: "run_q off S1 \<noteq> []" using heap_stepD(13)[OF x(2), of off] assms(2) by simp
    show ?thesis
    proof (cases v)
      case Can_schedule
      then show ?thesis using assms(1) c x pop_less(1)[OF x(2) assms(2)]
        by (auto simp: decode_round_def Let_def decode_measure_cong)
    next
      case Budget_exhausted
      then show ?thesis using assms(1) c x by (auto simp: decode_round_def Let_def)
    next
      case Blocks_exhausted
      then show ?thesis using assms(1) c x heap_step_measure[OF x(2)] ne
        by (auto simp: decode_round_def Let_def split: if_splits dest: evicted_decode preempt_last_less)
    qed
  qed
qed

declare bindE_fundef_cong [fundef_cong]

function decode_loop ::
    "sched_options \<Rightarrow> 'p kv_ops \<Rightarrow> bool \<Rightarrow> nat \<Rightarrow> nat \<Rightarrow> 'p sched \<Rightarrow> (nat \<times> nat \<times> 'p sched) res" where
  "decode_loop C K off tb sb S =
     (if run_q off S \<noteq> [] \<and> tb > min_speculative_tokens_required C \<and> decode_latency_ok C \<and> sb > 0
      then bindE (decode_round C K off tb sb S) (\<lambda>f.
             case f of Go tb1 sb1 S1 \<Rightarrow> decode_loop C K off tb1 sb1 S1 | Leave v tb1 sb1 S1 \<Rightarrow> Inr (tb1, sb1, S1))
      else Inr (tb, sb, S))"
  by pat_completeness auto
termination
  by (relation "measure (\<lambda>(C, K, off, tb, sb, S). decode_measure S)") (auto intro: decode_round_less)

declare decode_loop.simps [simp del]

section \<open>prepare_batch\<close>

definition handle_running_requests :: "'p kv_ops \<Rightarrow> nat \<Rightarrow> 'p sched \<Rightarrow> 'p sched res" where
  "handle_running_requests K r S =
     bindE (done_request r S) (\<lambda>(fin, S1).
       if fin then Inl Fatal
       else bindE (expand_sequences True (sc_reqs S1 r)) (\<lambda>(expanded, x).
         let S2 = upd_req r x S1 in
         bindE (if expanded then cache_seq K r 0 S2 else Inr S2) (\<lambda>S3.
           foldE (\<lambda>i T. bindE (finished_seq r i T) (\<lambda>(b, T1). if b then dealloc_seq K r i T1 else Inr T1))
             [0..<num_seqs r S3] S3)))"

text \<open>New requests, in the order of arrival.\<close>

definition accept_request :: "sched_options \<Rightarrow> nat \<Rightarrow> 'p sched \<Rightarrow> 'p sched res" where
  "accept_request C r S =
     bindE (if so_prefix_cache C then Inr (False, sc_reqs S r) else expand_sequences False (sc_reqs S r)) (\<lambda>(_, x).
     let S1 = upd_req r x S in
     bindE (seq_at r 0 S1) (\<lambda>s.
       if kv_cache_tokens_num (sq_kv s) = 0 then Inr (push_waiting r S1)
       else Inr (S1\<lparr>running_requests := running_requests S1 @ [Some r]\<rparr>)))"

definition accept_requests :: "sched_options \<Rightarrow> 'p sched \<Rightarrow> 'p sched res" where
  "accept_requests C S = foldE (accept_request C) (request_queue S) (S\<lparr>request_queue := []\<rparr>)"

text \<open>
  Finished and cancelled requests leave, the last one first. \<open>conn\<close> is the connection of each
  request; the result has the list with \<open>None\<close> for those that left.
\<close>

fun sweep_running :: "'p kv_ops \<Rightarrow> (nat \<Rightarrow> bool option) \<Rightarrow> nat option list \<Rightarrow> 'p sched \<Rightarrow> (nat option list \<times> 'p sched) res" where
  "sweep_running K conn [] S = Inr ([], S)"
| "sweep_running K conn (None # xs) S = bindE (sweep_running K conn xs S) (\<lambda>(ys, S1). Inr (None # ys, S1))"
| "sweep_running K conn (Some r # xs) S =
     bindE (sweep_running K conn xs S) (\<lambda>(ys, S1).
     bindE (done_request r (upd_req r (update_connection_status (conn r) (sc_reqs S1 r)) S1)) (\<lambda>(fin, S2).
       if fin then bindE (dealloc_request K r S2) (\<lambda>S3. Inr (None # ys, S3\<lparr>completed := completed S3 @ [r]\<rparr>))
       else Inr (Some r # ys, S2)))"

definition push_running :: "bool \<Rightarrow> nat \<Rightarrow> 'p sched \<Rightarrow> 'p sched" where
  "push_running if_back r S =
     (let off = rq_offline (sc_reqs S r) in
      set_run_q off (if if_back then run_q off S @ [r] else r # run_q off S) S)"

definition requeue_one :: "'p kv_ops \<Rightarrow> bool \<Rightarrow> nat \<Rightarrow> 'p sched \<Rightarrow> 'p sched res" where
  "requeue_one K if_back r S = bindE (handle_running_requests K r S) (\<lambda>S1. Inr (push_running if_back r S1))"

definition requeue_running :: "sched_options \<Rightarrow> 'p kv_ops \<Rightarrow> nat list \<Rightarrow> 'p sched \<Rightarrow> 'p sched res" where
  "requeue_running C K rs S =
     (if so_fcfs C
      then if last_step_prefill S then foldE (requeue_one K True) rs S else foldE (requeue_one K False) (rev rs) S
      else foldE (requeue_one K False) rs S)"

definition clear_batch :: "'p sched \<Rightarrow> 'p sched" where
  "clear_batch S = S\<lparr>last_step_prefill := False, running_requests := [], running_sequences := [], running_sequences_budgets := []\<rparr>"

definition schedule_batch :: "sched_options \<Rightarrow> 'p kv_ops \<Rightarrow> 'p sched \<Rightarrow> 'p sched res" where
  "schedule_batch C K S =
     bindE (handle_prefill_requests C K False (max_tokens_per_batch C) (nat (max (max_seqs_per_batch C) 1)) S) (\<lambda>(tb1, sb1, S1).
     bindE (handle_prefill_requests C K True tb1 sb1 S1) (\<lambda>(tb2, sb2, S2).
       if running_sequences S2 \<noteq> [] then Inr S2
       else bindE (decode_loop C K False tb2 sb2 S2) (\<lambda>(tb3, sb3, S3).
            bindE (decode_loop C K True tb3 sb3 S3) (\<lambda>(tb4, sb4, S4). Inr S4))))"

definition prepare_batch :: "sched_options \<Rightarrow> 'p kv_ops \<Rightarrow> (nat \<Rightarrow> bool option) \<Rightarrow> 'p sched \<Rightarrow> 'p sched res" where
  "prepare_batch C K conn S =
     bindE (accept_requests C S) (\<lambda>S1.
     bindE (sweep_running K conn (running_requests S1) S1) (\<lambda>(rs, S2).
     bindE (requeue_running C K (List.map_filter (\<lambda>x. x) rs) S2) (\<lambda>S3.
       schedule_batch C K (clear_batch S3))))"

end
