(* ===== verification/Scheduler_Correct.thy ===== *)
theory Scheduler_Correct
  imports Scheduler_Decode
begin

text \<open>
  What a step of the scheduler guarantees: the batch stays within its budgets, requests are
  served from the front of the running queue and preempted from its back, and no request is
  lost or duplicated.
\<close>

section \<open>Budgets\<close>

text \<open>\<open>M\<close> tokens and \<open>N\<close> sequences are shared by the batch and the remaining budgets.\<close>

definition within :: "nat \<Rightarrow> nat \<Rightarrow> nat \<Rightarrow> nat \<Rightarrow> 'p sched \<Rightarrow> bool" where
  "within M N tb sb S \<longleftrightarrow> sum_list (running_sequences_budgets S) + tb = M \<and> length (running_sequences S) + sb = N \<and>
     length (running_sequences_budgets S) = length (running_sequences S)"

fun flow_within :: "nat \<Rightarrow> nat \<Rightarrow> 'p flow \<Rightarrow> bool" where
  "flow_within M N (Go tb sb S) = within M N tb sb S"
| "flow_within M N (Leave v tb sb S) = within M N tb sb S"

lemma same_batch_within: "same_batch S S' \<Longrightarrow> within M N tb sb S' = within M N tb sb S"
  by (simp add: same_batch_def within_def)

lemma schedule_within:
  assumes "within M N tb sb S" "length ps = as" "length bs = as" "sum_list bs = at" "at \<le> tb" "as \<le> sb"
  shows "within M N (size_sub tb at) (size_sub sb as) (schedule r ps bs S)"
  using assms by (auto simp: within_def schedule_def)

lemma foldE_batch:
  assumes "foldE f xs S = Inr S'" "\<And>x T T'. f x T = Inr T' \<Longrightarrow> heap_step T T'"
  shows "same_batch S S'"
  using foldE_step[OF assms] by (rule heap_step_batch)

lemma prefill_round_within:
  assumes "prefill_round C K off tb sb S = Inr f" "within M N tb sb S"
  shows "flow_within M N f"
proof (cases "\<not> so_disagg_pd C \<and> kvm_over_threshold K (sc_pool S)")
  case True
  then show ?thesis using assms by (auto simp: prefill_round_def)
next
  case False
  let ?r = "pq_top C (sc_reqs S) (wait_q off S)"
  obtain fin S1 where d: "done_request ?r S = Inr (fin, S1)"
    using assms(1) False by (auto simp: prefill_round_def Let_def)
  have s1: "same_batch S S1" using d by (intro heap_step_batch done_request_step)
  show ?thesis
  proof (cases fin)
    case True
    then obtain S2 where S2: "dealloc_request K ?r S1 = Inr S2"
      "f = Go tb sb (set_wait_q off (remove1 ?r (wait_q off S2)) (S2\<lparr>completed := completed S2 @ [?r]\<rparr>))"
      using assms(1) d False by (auto simp: prefill_round_def Let_def)
    have "same_batch S S2" using s1 heap_step_batch[OF dealloc_request_step[OF S2(1)]] by (rule same_batch_trans)
    then have "same_batch S (set_wait_q off (remove1 ?r (wait_q off S2)) (S2\<lparr>completed := completed S2 @ [?r]\<rparr>))" by simp
    then show ?thesis using assms(2) by (simp add: S2(2) same_batch_within)
  next
    case unfinished: False
    obtain v at as ps bs S2 where p: "prefill_seqs C K ?r tb sb [0..<num_seqs ?r S1] 0 0 [] [] S1 = Inr (v, at, as, ps, bs, S2)"
      using assms(1) d False unfinished by (auto simp: prefill_round_def Let_def)
    have sp: "evicted S1 S2" "at \<le> tb" "as \<le> sb" "length ps = as" "length bs = as" "sum_list bs = at"
      using prefill_seqs_spec[OF p] by auto
    have s2: "same_batch S S2" using s1 evicted_batch[OF sp(1)] by (rule same_batch_trans)
    show ?thesis
    proof (cases "v = Can_schedule")
      case True
      then have "f = Go (size_sub tb at) (size_sub sb as) (schedule ?r ps bs (set_wait_q off (remove1 ?r (wait_q off S2)) S2))"
        using assms(1) d False unfinished p by (simp add: prefill_round_def Let_def check_def split: if_splits)
      moreover have "same_batch S (set_wait_q off (remove1 ?r (wait_q off S2)) S2)" using s2 by simp
      then have "within M N tb sb (set_wait_q off (remove1 ?r (wait_q off S2)) S2)" using assms(2) same_batch_within by blast
      ultimately show ?thesis using schedule_within sp(2-6) by (metis flow_within.simps(1))
    next
      case nv: False
      then obtain S3 where l: "foldE (\<lambda>(r, i). dealloc_seq K r i) ps S2 = Inr S3" "f = Leave v tb sb S3"
        using assms(1) d False unfinished p by (auto simp: prefill_round_def Let_def)
      have "same_batch S2 S3" by (rule foldE_batch[OF l(1)]) (auto intro: dealloc_seq_step)
      then show ?thesis using same_batch_within[OF same_batch_trans[OF s2]] assms(2) by (simp add: l(2))
    qed
  qed
qed

lemma prefill_loop_within:
  "prefill_loop C K off tb sb S = Inr (v, tb', sb', S') \<Longrightarrow> within M N tb sb S \<Longrightarrow> within M N tb' sb' S'"
proof (induction C K off tb sb S rule: prefill_loop.induct)
  case (1 C K off tb sb S)
  show ?case
  proof (cases "wait_q off S \<noteq> [] \<and> sb > 0 \<and> tb > 0 \<and> prefill_latency_ok C")
    case False
    then show ?thesis using "1.prems" by (auto simp: prefill_loop.simps[of C K off tb sb S])
  next
    case True
    obtain f where f: "prefill_round C K off tb sb S = Inr f"
      using "1.prems"(1) True by (auto simp: prefill_loop.simps[of C K off tb sb S])
    have w: "flow_within M N f" using prefill_round_within[OF f "1.prems"(2)] .
    show ?thesis
    proof (cases f)
      case (Go tb1 sb1 S1)
      then show ?thesis using "1.IH"[OF True f Go] "1.prems"(1) True f w by (simp add: prefill_loop.simps[of C K off tb sb S])
    next
      case (Leave v1 tb1 sb1 S1)
      then show ?thesis using "1.prems"(1) True f w by (simp add: prefill_loop.simps[of C K off tb sb S])
    qed
  qed
qed

lemma give_up_batch: "give_up_waiting C K off v S = Inr S' \<Longrightarrow> same_batch S S'"
  by (auto simp: give_up_waiting_def Let_def split: if_splits dest!: dealloc_request_step heap_step_batch)

lemma handle_prefill_within:
  assumes "handle_prefill_requests C K off tb sb S = Inr (tb', sb', S')" "within M N tb sb S"
  shows "within M N tb' sb' S'"
proof -
  obtain v S1 S2 where h: "prefill_loop C K off tb sb S = Inr (v, tb', sb', S1)" "give_up_waiting C K off v S1 = Inr S2"
    "S' = (if running_sequences S2 \<noteq> [] then S2\<lparr>last_step_prefill := True\<rparr> else S2)"
    using assms(1) by (auto simp: handle_prefill_requests_def)
  have "same_batch S1 S'" unfolding h(3) using give_up_batch[OF h(2)] by simp
  then show ?thesis using prefill_loop_within[OF h(1) assms(2)] by (simp add: same_batch_within)
qed

lemma handle_abnormal_within:
  assumes "handle_abnormal_request C K off b tb sb (v, at, as, ps, bs, S) = Inr (tb', sb', S')" "within M N tb sb S"
    "length ps = as" "length bs = as" "sum_list bs = at" "at \<le> tb" "as \<le> sb"
  shows "within M N tb' sb' S'"
proof (cases "ps = []")
  case True
  then have "tb' = tb" "sb' = sb" "same_batch S S'"
    using assms(1) by (auto simp: handle_abnormal_request_def Let_def split: if_splits dest!: dealloc_request_step heap_step_batch)
  then show ?thesis using assms(2) by (simp add: same_batch_within)
next
  case False
  let ?r = "hd (run_q off S)"
  have "within M N tb sb (set_run_q off (tl (run_q off S)) S)"
    using assms(2) by (simp add: same_batch_within[of S "set_run_q off (tl (run_q off S)) S"])
  from schedule_within[OF this assms(3-7), of ?r] show ?thesis
    using assms(1,2) False by (auto simp: handle_abnormal_request_def Let_def split: if_splits)
qed

lemma decode_round_within:
  assumes "decode_round C K off tb sb S = Inr f" "within M N tb sb S" "run_q off S \<noteq> []"
  shows "flow_within M N f"
proof -
  let ?r = "hd (run_q off S)"
  obtain c where c: "candidates C K off ?r tb sb S = Inr c" using assms(1) by (auto simp: decode_round_def Let_def)
  from candidates_cases[OF this assms(3)] show ?thesis
  proof (elim disjE exE conjE)
    fix S1 assume "c = Redo S1" "same_batch S S1"
    then show ?thesis using assms(1,2) c by (auto simp: decode_round_def Let_def same_batch_within)
  next
    fix v at as ps bs S1
    assume x: "c = Cand (v, at, as, ps, bs, S1)" "heap_step S S1" "at \<le> tb" "as \<le> sb" "length ps = as" "length bs = as"
      "sum_list bs = at"
    have w: "within M N tb sb S1" using assms(2) same_batch_within[OF heap_step_batch[OF x(2)]] by blast
    have ab: "within M N tb' sb' S'" if "handle_abnormal_request C K off b tb sb (v, at, as, ps, bs, S1) = Inr (tb', sb', S')" for b tb' sb' S'
      using handle_abnormal_within[OF that w x(5,6,7,3,4)] .
    show ?thesis
    proof (cases v)
      case Can_schedule
      have "within M N tb sb (set_run_q off (tl (run_q off S1)) S1)"
        using w by (simp add: same_batch_within[of S1 "set_run_q off (tl (run_q off S1)) S1"])
      from schedule_within[OF this x(5,6,7,3,4), of ?r] show ?thesis
        using assms(1) c x Can_schedule by (auto simp: decode_round_def Let_def)
    next
      case Budget_exhausted
      then show ?thesis using assms(1) c x ab by (auto simp: decode_round_def Let_def)
    next
      case Blocks_exhausted
      have ev: "within M N tb sb S2" if "evict_offline K S1 = Inr S2" for S2
        using same_batch_within[OF evicted_batch[OF evict_offline_evicted[OF that]]] w by blast
      have pr: "within M N tb sb S2" if "preempt_last K off ?r S1 = Inr S2" for S2
      proof -
        have "same_batch S1 S2" using that
          by (auto simp: preempt_last_def Let_def split: if_splits dest!: dealloc_request_step heap_step_batch)
        then show ?thesis using w by (simp add: same_batch_within)
      qed
      show ?thesis using assms(1) c x ab ev pr Blocks_exhausted by (auto simp: decode_round_def Let_def split: if_splits)
    qed
  qed
qed

lemma decode_loop_within:
  "decode_loop C K off tb sb S = Inr (tb', sb', S') \<Longrightarrow> within M N tb sb S \<Longrightarrow> within M N tb' sb' S'"
proof (induction C K off tb sb S rule: decode_loop.induct)
  case (1 C K off tb sb S)
  let ?go = "run_q off S \<noteq> [] \<and> tb > min_speculative_tokens_required C \<and> decode_latency_ok C \<and> sb > 0"
  show ?case
  proof (cases ?go)
    case False
    then show ?thesis using "1.prems" by (auto simp: decode_loop.simps[of C K off tb sb S])
  next
    case True
    obtain f where f: "decode_round C K off tb sb S = Inr f"
      using "1.prems"(1) True by (auto simp: decode_loop.simps[of C K off tb sb S])
    have w: "flow_within M N f" using decode_round_within[OF f "1.prems"(2)] True by simp
    show ?thesis
    proof (cases f)
      case (Go tb1 sb1 S1)
      then show ?thesis using "1.IH"[OF True f Go] "1.prems"(1) True f w by (simp add: decode_loop.simps[of C K off tb sb S])
    next
      case (Leave v1 tb1 sb1 S1)
      then show ?thesis using "1.prems"(1) True f w by (simp add: decode_loop.simps[of C K off tb sb S])
    qed
  qed
qed

lemma schedule_batch_within:
  assumes "schedule_batch C K S = Inr S'" "running_sequences S = []" "running_sequences_budgets S = []"
  shows "\<exists>tb sb. within (max_tokens_per_batch C) (nat (max (max_seqs_per_batch C) 1)) tb sb S'"
proof -
  let ?w = "within (max_tokens_per_batch C) (nat (max (max_seqs_per_batch C) 1))"
  have "?w (max_tokens_per_batch C) (nat (max (max_seqs_per_batch C) 1)) S" using assms(2,3) by (simp add: within_def)
  then show ?thesis
    using assms(1) unfolding schedule_batch_def
    by (auto split: if_splits dest!: handle_prefill_within decode_loop_within)
qed

lemma prepare_batch_within:
  assumes "prepare_batch C K conn S = Inr S'"
  shows "\<exists>tb sb. within (max_tokens_per_batch C) (nat (max (max_seqs_per_batch C) 1)) tb sb S'"
  using assms by (auto simp: prepare_batch_def clear_batch_def dest!: schedule_batch_within)

end
