(* ===== verification/Scheduler_Order.thy ===== *)
theory Scheduler_Order
  imports Scheduler_Correct
begin

text \<open>
  Where the requests are: the decode loop takes them from the front of the running queue and
  preempts from its back, and over a whole \<open>prepare_batch\<close> every request stays in exactly as
  many places as before. Both are shown for online requests without beam search, the offline
  queues being empty.
\<close>

section \<open>Serving in order\<close>

definition online :: "'p sched \<Rightarrow> bool" where
  "online S \<longleftrightarrow> running_queue_offline S = [] \<and>
     (\<forall>r. \<not> rq_offline (sc_reqs S r) \<and> \<not> beam_width (rq_params (sc_reqs S r)) > 1)"

text \<open>Queues as before, requests of the same kind.\<close>

definition keeps :: "'p sched \<Rightarrow> 'p sched \<Rightarrow> bool" where
  "keeps S S' \<longleftrightarrow> places S' = places S \<and>
     (\<forall>r. rq_offline (sc_reqs S' r) = rq_offline (sc_reqs S r) \<and> rq_params (sc_reqs S' r) = rq_params (sc_reqs S r))"

lemma heap_step_keeps: "heap_step S S' \<Longrightarrow> keeps S S'"
  by (simp add: heap_step_def keeps_def)

lemma keeps_trans: "keeps S S1 \<Longrightarrow> keeps S1 S2 \<Longrightarrow> keeps S S2"
  by (simp add: keeps_def)

lemma keeps_online: "keeps S S' \<Longrightarrow> online S' = online S"
  by (simp add: keeps_def online_def places_def)

lemma online_sel [simp]:
  "online (schedule r ps bs S) = online S" "online (set_run_q False q S) = online S"
  "online (set_wait_q off q S) = online S" "online (S\<lparr>failed := x\<rparr>) = online S" "online (S\<lparr>completed := x\<rparr>) = online S"
  "online (S\<lparr>running_queue := q\<rparr>) = online S" "online (push_waiting r S) = online S" "online (preempt_request r S) = online S"
  "online (S\<lparr>last_step_prefill := b\<rparr>) = online S" "online (S\<lparr>running_requests := z\<rparr>) = online S"
  "online (S\<lparr>request_queue := q\<rparr>) = online S"
  by (auto simp: online_def schedule_def set_run_q_def set_wait_q_def push_waiting_def preempt_request_def upd_req_def
      set_preempted_def Let_def)

text \<open>
  \<open>xs\<close> have been scheduled, \<open>fs\<close> given up, \<open>zs\<close> preempted, from the front and from the back of
  the running queue.
\<close>

definition served :: "'p sched \<Rightarrow> 'p sched \<Rightarrow> nat list \<Rightarrow> nat list \<Rightarrow> nat list \<Rightarrow> bool" where
  "served S S' xs fs zs \<longleftrightarrow>
     running_queue S = xs @ fs @ running_queue S' @ zs \<and> running_requests S' = running_requests S @ map Some xs \<and>
     waiting_queue S' = waiting_queue S @ rev zs \<and> failed S' = failed S @ fs \<and> online S' \<and>
     request_queue S' = request_queue S \<and> completed S' = completed S \<and>
     waiting_queue_offline S' = waiting_queue_offline S"

lemma served_refl: "online S \<Longrightarrow> served S S [] [] []"
  by (simp add: served_def)

lemma served_trans: "served S S1 xs [] zs \<Longrightarrow> served S1 S2 ys fs ws \<Longrightarrow> served S S2 (xs @ ys) fs (ws @ zs)"
  by (simp add: served_def)

lemma keeps_served: "keeps S S1 \<Longrightarrow> served S1 S2 xs fs zs \<Longrightarrow> served S S2 xs fs zs"
  by (simp add: served_def keeps_def places_def)

lemma served_schedule:
  assumes "online S" "running_queue S \<noteq> []"
  shows "served S (schedule (hd (run_q False S)) ps bs (set_run_q False (tl (run_q False S)) S)) [hd (running_queue S)] [] []"
  using assms by (auto simp: served_def schedule_def set_run_q_def run_q_def online_def)

lemma served_preempt:
  assumes "preempt_last K False r S = Inr S'" "online S" "running_queue S \<noteq> []"
  shows "served S S' [] [] [last (running_queue S)]"
proof -
  let ?p = "last (running_queue S)"
  obtain S1 where d: "dealloc_request K ?p S = Inr S1"
    "S' = push_waiting ?p (preempt_request ?p (set_run_q False (butlast (run_q False S1)) S1))"
    using assms(1) by (auto simp: preempt_last_def run_q_def Let_def split: if_splits)
  have k: "keeps S S1" using dealloc_request_step[OF d(1)] by (rule heap_step_keeps)
  have "served S1 S' [] [] [?p]"
    using assms(2,3) k unfolding d(2)
    by (auto simp: served_def keeps_def places_def run_q_def set_run_q_def push_waiting_def preempt_request_def upd_req_def
        set_preempted_def set_wait_q_def wait_q_def online_def Let_def)
  with k show ?thesis by (rule keeps_served)
qed

lemma served_abnormal:
  assumes "handle_abnormal_request C K False b tb sb (v, at, as, ps, bs, S) = Inr (tb', sb', S')" "online S" "running_queue S \<noteq> []"
  shows "\<exists>xs fs. served S S' xs fs [] \<and> length fs \<le> 1 \<and> (fs \<noteq> [] \<longrightarrow> running_sequences S' = [])"
proof (cases "ps = []")
  case False
  have "S' = schedule (hd (run_q False S)) ps bs (set_run_q False (tl (run_q False S)) S)"
    using assms(1,2) False by (auto simp: handle_abnormal_request_def Let_def online_def split: if_splits)
  then show ?thesis using served_schedule[OF assms(2,3), of ps bs] by (intro exI[of _ "[hd (running_queue S)]"] exI[of _ "[]"]) simp
next
  case True
  let ?r = "hd (running_queue S)"
  consider "S' = S" | S1 where "running_sequences S = []" "S' = S1\<lparr>failed := failed S1 @ [?r]\<rparr>"
      "dealloc_request K ?r (S\<lparr>running_queue := tl (running_queue S)\<rparr>) = Inr S1"
    using assms(1) True by (auto simp: handle_abnormal_request_def Let_def run_q_def split: if_splits)
  then show ?thesis
  proof cases
    case 1
    then show ?thesis using served_refl[OF assms(2)] by (intro exI[of _ "[]"]) simp
  next
    case 2
    have k: "keeps (S\<lparr>running_queue := tl (running_queue S)\<rparr>) S1" using dealloc_request_step[OF 2(3)] by (rule heap_step_keeps)
    then have "served S S' [] [?r] []" "running_sequences S' = []"
      using assms(2,3) 2(1) keeps_online[OF k] unfolding 2(2)
      by (auto simp: served_def keeps_def places_def)
    then show ?thesis by (intro exI[of _ "[]"] exI[of _ "[?r]"]) simp
  qed
qed

fun flow_served :: "'p sched \<Rightarrow> 'p flow \<Rightarrow> bool" where
  "flow_served S (Go tb sb S') = (\<exists>xs zs. served S S' xs [] zs)"
| "flow_served S (Leave v tb sb S') =
     (\<exists>xs fs. served S S' xs fs [] \<and> length fs \<le> 1 \<and> (fs \<noteq> [] \<longrightarrow> running_sequences S' = []))"

lemma decode_round_served:
  assumes "decode_round C K False tb sb S = Inr f" "online S" "running_queue S \<noteq> []"
  shows "flow_served S f"
proof -
  let ?r = "hd (run_q False S)"
  have nb: "\<not> beam_width (rq_params (sc_reqs S ?r)) > 1" using assms(2) by (simp add: online_def)
  obtain v at as ps bs S1 where d: "decode_seqs C K ?r tb sb [0..<num_seqs ?r S] 0 0 [] [] S = Inr (v, at, as, ps, bs, S1)"
    using assms(1) nb by (auto simp: decode_round_def candidates_def Let_def)
  have k: "keeps S S1" using decode_seqs_spec[OF d] by (simp add: heap_step_keeps)
  have q: "running_queue S1 = running_queue S" "run_q False S1 = run_q False S" "online S1" "running_queue S1 \<noteq> []"
    "running_queue_offline S1 = []"
    using k assms(2,3) keeps_online[OF k] by (auto simp: keeps_def places_def run_q_def online_def)
  have leave: "flow_served S (Leave v tb' sb' S')"
    if "handle_abnormal_request C K False b tb sb (v, at, as, ps, bs, S1) = Inr (tb', sb', S')" for b tb' sb' S'
    unfolding flow_served.simps using served_abnormal[OF that q(3,4)] keeps_served[OF k] by blast
  show ?thesis
  proof (cases v)
    case Can_schedule
    have "served S (schedule ?r ps bs (set_run_q False (tl (run_q False S1)) S1)) [hd (running_queue S1)] [] []"
      using keeps_served[OF k served_schedule[OF q(3,4), of ps bs]] q(2) by simp
    moreover have "\<exists>tb' sb'. f = Go tb' sb' (schedule ?r ps bs (set_run_q False (tl (run_q False S1)) S1))"
      using assms(1) nb d Can_schedule by (auto simp: decode_round_def candidates_def Let_def)
    ultimately show ?thesis by (metis flow_served.simps(1))
  next
    case Budget_exhausted
    then show ?thesis using assms(1) nb d leave by (auto simp: decode_round_def candidates_def Let_def)
  next
    case Blocks_exhausted
    then consider S2 where "preempt_last K False ?r S1 = Inr S2" "f = Go tb sb S2"
      | tb' sb' S' where "handle_abnormal_request C K False False tb sb (v, at, as, ps, bs, S1) = Inr (tb', sb', S')" "f = Leave v tb' sb' S'"
      using assms(1) nb d q(5) by (auto simp: decode_round_def candidates_def Let_def split: if_splits)
    then show ?thesis
    proof cases
      case 1
      then show ?thesis using keeps_served[OF k served_preempt[OF 1(1) q(3,4)]] by (metis flow_served.simps(1))
    next
      case 2
      then show ?thesis using leave by simp
    qed
  qed
qed

lemma decode_loop_served:
  "decode_loop C K False tb sb S = Inr (tb', sb', S') \<Longrightarrow> online S \<Longrightarrow>
    \<exists>xs fs zs. served S S' xs fs zs \<and> length fs \<le> 1 \<and> (fs \<noteq> [] \<longrightarrow> running_sequences S' = [])"
proof (induction C K "False" tb sb S rule: decode_loop.induct)
  case (1 C K tb sb S)
  let ?go = "run_q False S \<noteq> [] \<and> tb > min_speculative_tokens_required C \<and> decode_latency_ok C \<and> sb > 0"
  show ?case
  proof (cases ?go)
    case False
    then have "S' = S" using "1.prems" by (auto simp: decode_loop.simps[of C K False tb sb S])
    then show ?thesis using served_refl[OF "1.prems"(2)] by (intro exI[of _ "[]"]) simp
  next
    case True
    obtain f where f: "decode_round C K False tb sb S = Inr f"
      using "1.prems"(1) True by (auto simp: decode_loop.simps[of C K False tb sb S])
    have w: "flow_served S f" using decode_round_served[OF f "1.prems"(2)] True by (simp add: run_q_def)
    show ?thesis
    proof (cases f)
      case (Go tb1 sb1 S1)
      then obtain xs zs where g: "served S S1 xs [] zs" using w by auto
      then have "online S1" by (simp add: served_def)
      moreover have "decode_loop C K False tb1 sb1 S1 = Inr (tb', sb', S')"
        using "1.prems"(1) True f Go by (simp add: decode_loop.simps[of C K False tb sb S])
      ultimately obtain ys fs ws where "served S1 S' ys fs ws" "length fs \<le> 1" "fs \<noteq> [] \<longrightarrow> running_sequences S' = []"
        using "1.hyps"[OF True f Go] by blast
      then show ?thesis using served_trans[OF g] by blast
    next
      case (Leave v1 tb1 sb1 S1)
      then show ?thesis using "1.prems"(1) True f w by (auto simp: decode_loop.simps[of C K False tb sb S])
    qed
  qed
qed

section \<open>No request is lost\<close>

definition live :: "nat option list \<Rightarrow> nat list" where
  "live xs = List.map_filter (\<lambda>x. x) xs"

definition base_ids :: "'p sched \<Rightarrow> nat multiset" where
  "base_ids S = mset (request_queue S) + mset (waiting_queue S) + mset (waiting_queue_offline S) + mset (running_queue S) +
     mset (running_queue_offline S) + mset (completed S) + mset (failed S)"

text \<open>All the places a request can be in, with multiplicity.\<close>

definition all_ids :: "'p sched \<Rightarrow> nat multiset" where
  "all_ids S = base_ids S + mset (live (running_requests S))"

lemma live_simps [simp]:
  "live [] = []" "live (Some r # xs) = r # live xs" "live (None # xs) = live xs" "live (xs @ ys) = live xs @ live ys"
  "live (map Some rs) = rs"
  by (auto simp: live_def List.map_filter_def comp_def)

lemma keeps_ids: "keeps S S' \<Longrightarrow> base_ids S' = base_ids S \<and> all_ids S' = all_ids S"
  by (simp add: keeps_def places_def base_ids_def all_ids_def)

lemma served_ids: "served S S' xs fs zs \<Longrightarrow> online S \<Longrightarrow> all_ids S' = all_ids S"
  by (simp add: served_def all_ids_def base_ids_def online_def)

lemma evicted_keeps:
  assumes "evicted S S'" "online S"
  shows "keeps S S'"
proof -
  obtain q evs where e: "running_queue_offline S = q @ rev evs"
    "heap_step (S\<lparr>running_queue_offline := q, waiting_queue_offline := waiting_queue_offline S @ evs\<rparr>) S'"
    using assms(1) by (auto simp: evicted_def)
  then have "q = []" "evs = []" using assms(2) by (auto simp: online_def)
  with e show ?thesis by (simp add: heap_step_def keeps_def places_def)
qed

lemma ids_take_waiting:
  assumes "r \<in> set (wait_q off S)"
  shows "all_ids (schedule r ps bs (set_wait_q off (remove1 r (wait_q off S)) S)) = all_ids S"
    "all_ids (set_wait_q off (remove1 r (wait_q off S)) (S\<lparr>completed := completed S @ [r]\<rparr>)) = all_ids S"
    "add_mset r (all_ids (set_wait_q off (remove1 r (wait_q off S)) S)) = all_ids S"
  using assms by (auto simp: all_ids_def base_ids_def schedule_def set_wait_q_def wait_q_def)

fun flow_conserves :: "'p sched \<Rightarrow> 'p flow \<Rightarrow> bool" where
  "flow_conserves S (Go tb sb S') = (all_ids S' = all_ids S \<and> online S')"
| "flow_conserves S (Leave v tb sb S') = (all_ids S' = all_ids S \<and> online S')"

lemma prefill_round_ids:
  assumes "prefill_round C K off tb sb S = Inr f" "online S" "wait_q off S \<noteq> []"
  shows "flow_conserves S f"
proof (cases "\<not> so_disagg_pd C \<and> kvm_over_threshold K (sc_pool S)")
  case True
  then show ?thesis using assms by (auto simp: prefill_round_def)
next
  case False
  let ?r = "pq_top C (sc_reqs S) (wait_q off S)"
  obtain fin S1 where d: "done_request ?r S = Inr (fin, S1)"
    using assms(1) False by (auto simp: prefill_round_def Let_def)
  have k1: "keeps S S1" using done_request_step[OF d] by (rule heap_step_keeps)
  have r: "?r \<in> set (wait_q off T)" if "keeps S T" for T
    using pq_top_in[OF assms(3)] that by (auto simp: keeps_def places_def wait_q_def)
  note ids = ids_take_waiting[OF r] keeps_ids keeps_online
  show ?thesis
  proof (cases fin)
    case True
    then obtain S2 where S2: "dealloc_request K ?r S1 = Inr S2"
      "f = Go tb sb (set_wait_q off (remove1 ?r (wait_q off S2)) (S2\<lparr>completed := completed S2 @ [?r]\<rparr>))"
      using assms(1) d False by (auto simp: prefill_round_def Let_def)
    have k2: "keeps S S2" using k1 heap_step_keeps[OF dealloc_request_step[OF S2(1)]] by (rule keeps_trans)
    show ?thesis using assms(2) by (simp add: S2(2) ids(2)[OF k2] ids(4)[OF k2] ids(5)[OF k2])
  next
    case unfinished: False
    obtain v at as ps bs S2 where p: "prefill_seqs C K ?r tb sb [0..<num_seqs ?r S1] 0 0 [] [] S1 = Inr (v, at, as, ps, bs, S2)"
      using assms(1) d False unfinished by (auto simp: prefill_round_def Let_def)
    have "evicted S1 S2" using prefill_seqs_spec[OF p] by auto
    then have k2: "keeps S S2" using evicted_keeps keeps_online[OF k1] assms(2) keeps_trans[OF k1] by blast
    show ?thesis
    proof (cases "v = Can_schedule")
      case True
      then have "f = Go (size_sub tb at) (size_sub sb as) (schedule ?r ps bs (set_wait_q off (remove1 ?r (wait_q off S2)) S2))"
        using assms(1) d False unfinished p by (simp add: prefill_round_def Let_def check_def split: if_splits)
      then show ?thesis using assms(2) by (simp add: ids(1)[OF k2] ids(4)[OF k2] ids(5)[OF k2])
    next
      case nv: False
      then obtain S3 where l: "foldE (\<lambda>(r, i). dealloc_seq K r i) ps S2 = Inr S3" "f = Leave v tb sb S3"
        using assms(1) d False unfinished p by (auto simp: prefill_round_def Let_def)
      have "heap_step S2 S3" by (rule foldE_step[OF l(1)]) (auto intro: dealloc_seq_step)
      then have "keeps S S3" using k2 heap_step_keeps keeps_trans by blast
      then show ?thesis using assms(2) keeps_ids keeps_online by (auto simp: l(2))
    qed
  qed
qed

lemma prefill_loop_ids:
  "prefill_loop C K off tb sb S = Inr (v, tb', sb', S') \<Longrightarrow> online S \<Longrightarrow> all_ids S' = all_ids S \<and> online S'"
proof (induction C K off tb sb S rule: prefill_loop.induct)
  case (1 C K off tb sb S)
  show ?case
  proof (cases "wait_q off S \<noteq> [] \<and> sb > 0 \<and> tb > 0 \<and> prefill_latency_ok C")
    case False
    then show ?thesis using "1.prems" by (auto simp: prefill_loop.simps[of C K off tb sb S])
  next
    case True
    obtain f where f: "prefill_round C K off tb sb S = Inr f"
      using "1.prems"(1) True by (auto simp: prefill_loop.simps[of C K off tb sb S])
    have w: "flow_conserves S f" using prefill_round_ids[OF f "1.prems"(2)] True by simp
    show ?thesis
    proof (cases f)
      case (Go tb1 sb1 S1)
      then show ?thesis using "1.IH"[OF True f Go] "1.prems"(1) True f w by (simp add: prefill_loop.simps[of C K off tb sb S])
    next
      case (Leave v1 tb1 sb1 S1)
      then show ?thesis using "1.prems"(1) True f w by (simp add: prefill_loop.simps[of C K off tb sb S])
    qed
  qed
qed

lemma give_up_ids:
  assumes "give_up_waiting C K off v S = Inr S'" "online S"
  shows "all_ids S' = all_ids S \<and> online S'"
proof (cases "running_sequences S = [] \<and> wait_q off S \<noteq> [] \<and> running_queue S = []")
  case False
  then show ?thesis using assms by (auto simp: give_up_waiting_def)
next
  case True
  let ?r = "pq_top C (sc_reqs S) (wait_q off S)" and ?S = "set_wait_q off (remove1 (pq_top C (sc_reqs S) (wait_q off S)) (wait_q off S)) S"
  obtain S1 where S1: "dealloc_request K ?r ?S = Inr S1" "S' = S1\<lparr>failed := failed S1 @ [?r]\<rparr>"
    using assms(1) True by (auto simp: give_up_waiting_def Let_def split: if_splits)
  have k: "keeps ?S S1" using dealloc_request_step[OF S1(1)] by (rule heap_step_keeps)
  have "all_ids S' = add_mset ?r (all_ids S1)" unfolding S1(2) by (simp add: all_ids_def base_ids_def)
  then have "all_ids S' = add_mset ?r (all_ids ?S)" using keeps_ids[OF k] by simp
  moreover have "add_mset ?r (all_ids ?S) = all_ids S" by (rule ids_take_waiting(3)[OF pq_top_in]) (use True in simp)
  ultimately show ?thesis using assms(2) keeps_online[OF k] by (simp add: S1(2))
qed

lemma handle_prefill_ids:
  assumes "handle_prefill_requests C K off tb sb S = Inr (tb', sb', S')" "online S"
  shows "all_ids S' = all_ids S \<and> online S'"
proof -
  obtain v S1 S2 where h: "prefill_loop C K off tb sb S = Inr (v, tb', sb', S1)" "give_up_waiting C K off v S1 = Inr S2"
    "S' = (if running_sequences S2 \<noteq> [] then S2\<lparr>last_step_prefill := True\<rparr> else S2)"
    using assms(1) by (auto simp: handle_prefill_requests_def)
  have "all_ids S' = all_ids S2" "online S' = online S2" unfolding h(3) by (simp_all add: all_ids_def base_ids_def)
  then show ?thesis using prefill_loop_ids[OF h(1) assms(2)] give_up_ids[OF h(2)] by simp
qed

lemma decode_loop_ids:
  assumes "decode_loop C K False tb sb S = Inr (tb', sb', S')" "online S"
  shows "all_ids S' = all_ids S \<and> online S'"
  using decode_loop_served[OF assms] served_ids[OF _ assms(2)] by (auto simp: served_def)

lemma decode_loop_offline: "online S \<Longrightarrow> decode_loop C K True tb sb S = Inr (tb, sb, S)"
  by (simp add: decode_loop.simps[of C K True] run_q_def online_def)

lemma schedule_batch_ids:
  assumes "schedule_batch C K S = Inr S'" "online S"
  shows "all_ids S' = all_ids S \<and> online S'"
proof -
  obtain tb1 sb1 S1 tb2 sb2 S2 where p: "handle_prefill_requests C K False (max_tokens_per_batch C) (nat (max (max_seqs_per_batch C) 1)) S = Inr (tb1, sb1, S1)"
    "handle_prefill_requests C K True tb1 sb1 S1 = Inr (tb2, sb2, S2)"
    using assms(1) by (auto simp: schedule_batch_def)
  have s2: "all_ids S2 = all_ids S" "online S2" using handle_prefill_ids[OF p(1) assms(2)] handle_prefill_ids[OF p(2)] by simp_all
  show ?thesis
  proof (cases "running_sequences S2 = []")
    case False
    then show ?thesis using assms(1) p s2 by (simp add: schedule_batch_def)
  next
    case True
    then obtain tb3 sb3 S3 where d: "decode_loop C K False tb2 sb2 S2 = Inr (tb3, sb3, S3)"
      using assms(1) p by (auto simp: schedule_batch_def)
    have s3: "all_ids S3 = all_ids S2" "online S3" using decode_loop_ids[OF d s2(2)] by simp_all
    then have "S' = S3" using assms(1) p d True decode_loop_offline[OF s3(2)] by (simp add: schedule_batch_def)
    then show ?thesis using s2 s3 by simp
  qed
qed

lemma group_add_keeps: "group_add x = Inr y \<Longrightarrow> rq_offline y = rq_offline x \<and> rq_params y = rq_params x"
  by (auto simp: group_add_def)

lemma expand_loop_keeps: "expand_loop n x = Inr y \<Longrightarrow> rq_offline y = rq_offline x \<and> rq_params y = rq_params x"
  by (induction n arbitrary: x) (auto dest!: group_add_keeps)

lemma expand_keeps: "expand_sequences b x = Inr (e, y) \<Longrightarrow> rq_offline y = rq_offline x \<and> rq_params y = rq_params x"
  by (auto simp: expand_sequences_def Let_def split: if_splits dest!: expand_loop_keeps)

lemma upd_req_keeps: "rq_offline x = rq_offline (sc_reqs S r) \<Longrightarrow> rq_params x = rq_params (sc_reqs S r) \<Longrightarrow> keeps S (upd_req r x S)"
  by (simp add: keeps_def places_def upd_req_def)

lemma push_waiting_ids: "online S \<Longrightarrow> all_ids (push_waiting r S) = add_mset r (all_ids S)"
  by (simp add: all_ids_def base_ids_def push_waiting_def set_wait_q_def wait_q_def Let_def)

lemma accept_request_ids:
  assumes "accept_request C r S = Inr S'" "online S"
  shows "all_ids S' = add_mset r (all_ids S) \<and> online S'"
proof -
  let ?m = "if so_prefix_cache C then Inr (False, sc_reqs S r) else expand_sequences False (sc_reqs S r)"
  obtain y where "?m = Inr y" using assms(1) unfolding accept_request_def bindE_eq_Inr by blast
  then obtain e x where x: "?m = Inr (e, x)" by (cases y) simp
  have S': "S' = push_waiting r (upd_req r x S) \<or>
      S' = (upd_req r x S)\<lparr>running_requests := running_requests (upd_req r x S) @ [Some r]\<rparr>"
    using assms(1) unfolding accept_request_def x bindE_Inr prod.case Let_def by (auto split: if_splits)
  have k: "keeps S (upd_req r x S)" using x by (auto split: if_splits dest: expand_keeps intro: upd_req_keeps)
  then have o: "online (upd_req r x S)" using keeps_online assms(2) by blast
  have "all_ids S' = add_mset r (all_ids (upd_req r x S))"
    using S' push_waiting_ids[OF o, of r] by (auto simp: all_ids_def base_ids_def)
  then show ?thesis using S' keeps_ids[OF k] o by auto
qed

lemma accept_loop_ids:
  "foldE (accept_request C) rs S = Inr S' \<Longrightarrow> online S \<Longrightarrow> all_ids S' = mset rs + all_ids S \<and> online S'"
  by (induction rs arbitrary: S) (auto dest!: accept_request_ids)

lemma accept_requests_ids:
  assumes "accept_requests C S = Inr S'" "online S"
  shows "all_ids S' = all_ids S \<and> online S'"
proof -
  have "all_ids (S\<lparr>request_queue := []\<rparr>) + mset (request_queue S) = all_ids S" by (simp add: all_ids_def base_ids_def)
  then show ?thesis using accept_loop_ids assms unfolding accept_requests_def by (metis add.commute online_sel(11))
qed

lemma sweep_running_ids:
  "sweep_running K conn xs S = Inr (ys, S') \<Longrightarrow> online S \<Longrightarrow>
    base_ids S' + mset (live ys) = base_ids S + mset (live xs) \<and> online S' \<and> running_requests S' = running_requests S"
proof (induction K conn xs S arbitrary: ys S' rule: sweep_running.induct)
  case (2 K conn xs S)
  then show ?case by auto
next
  case (3 K conn r xs S)
  obtain zs S1 where w: "sweep_running K conn xs S = Inr (zs, S1)" using "3.prems"(1) by auto
  note ih = "3.IH"[OF w "3.prems"(2)]
  let ?S = "upd_req r (update_connection_status (conn r) (sc_reqs S1 r)) S1"
  have k0: "keeps S1 ?S" by (rule upd_req_keeps) (simp_all add: update_connection_status_def set_cancel_def)
  obtain fin S2 where d: "done_request r ?S = Inr (fin, S2)" using "3.prems"(1) w by auto
  have k2: "keeps S1 S2" using k0 heap_step_keeps[OF done_request_step[OF d]] by (rule keeps_trans)
  show ?case
  proof (cases fin)
    case False
    then show ?thesis using "3.prems"(1) w d ih keeps_ids[OF k2] keeps_online[OF k2] k2 by (auto simp: keeps_def places_def)
  next
    case True
    then obtain S3 where S3: "dealloc_request K r S2 = Inr S3" "ys = None # zs" "S' = S3\<lparr>completed := completed S3 @ [r]\<rparr>"
      using "3.prems"(1) w d by auto
    have k3: "keeps S1 S3" using k2 heap_step_keeps[OF dealloc_request_step[OF S3(1)]] by (rule keeps_trans)
    have "base_ids S' = add_mset r (base_ids S3)" by (simp add: S3(3) base_ids_def)
    then show ?thesis using ih keeps_ids[OF k3] keeps_online[OF k3] k3 S3(2,3) by (auto simp: keeps_def places_def)
  qed
qed auto

lemma handle_running_keeps:
  assumes "handle_running_requests K r S = Inr S'"
  shows "keeps S S'"
proof -
  obtain S1 e x S3 where h: "done_request r S = Inr (False, S1)" "expand_sequences True (sc_reqs S1 r) = Inr (e, x)"
    "(if e then cache_seq K r 0 (upd_req r x S1) else Inr (upd_req r x S1)) = Inr S3"
    "foldE (\<lambda>i T. bindE (finished_seq r i T) (\<lambda>(b, T1). if b then dealloc_seq K r i T1 else Inr T1)) [0..<num_seqs r S3] S3 = Inr S'"
    using assms by (auto simp: handle_running_requests_def Let_def split: if_splits)
  have k1: "keeps S S1" using done_request_step[OF h(1)] by (rule heap_step_keeps)
  have k2: "keeps S1 (upd_req r x S1)" using expand_keeps[OF h(2)] by (intro upd_req_keeps) auto
  have "heap_step (upd_req r x S1) S3" using h(3) by (auto split: if_splits intro: cache_seq_step)
  moreover have "heap_step S3 S'"
    by (rule foldE_step[OF h(4)]) (auto split: if_splits dest!: finished_seq_step dealloc_seq_step intro: heap_step_trans)
  ultimately have "keeps (upd_req r x S1) S'" by (rule heap_step_keeps[OF heap_step_trans])
  then show ?thesis using k1 k2 keeps_trans by blast
qed

lemma requeue_one_ids:
  assumes "requeue_one K b r S = Inr S'" "online S"
  shows "base_ids S' = add_mset r (base_ids S) \<and> online S'"
proof -
  obtain S1 where h: "handle_running_requests K r S = Inr S1" "S' = push_running b r S1"
    using assms(1) by (auto simp: requeue_one_def)
  have k: "keeps S S1" using handle_running_keeps[OF h(1)] .
  have o: "online S1" using keeps_online[OF k] assms(2) by simp
  then have off: "\<not> rq_offline (sc_reqs S1 r)" by (simp add: online_def)
  have "base_ids S' = add_mset r (base_ids S1)" using off by (simp add: h(2) push_running_def set_run_q_def run_q_def base_ids_def Let_def)
  then show ?thesis using keeps_ids[OF k] o off by (simp add: h(2) push_running_def Let_def)
qed

lemma requeue_loop_ids:
  "foldE (requeue_one K b) rs S = Inr S' \<Longrightarrow> online S \<Longrightarrow> base_ids S' = mset rs + base_ids S \<and> online S'"
  by (induction rs arbitrary: S) (auto dest!: requeue_one_ids)

lemma requeue_running_ids:
  assumes "requeue_running C K rs S = Inr S'" "online S"
  shows "base_ids S' = mset rs + base_ids S \<and> online S'"
  using requeue_loop_ids[OF _ assms(2)] assms(1) by (auto simp: requeue_running_def split: if_splits)

lemma prepare_batch_ids:
  assumes "prepare_batch C K conn S = Inr S'" "online S"
  shows "all_ids S' = all_ids S \<and> online S'"
proof -
  obtain S1 rs S2 S3 where p: "accept_requests C S = Inr S1" "sweep_running K conn (running_requests S1) S1 = Inr (rs, S2)"
    "requeue_running C K (live rs) S2 = Inr S3" "schedule_batch C K (clear_batch S3) = Inr S'"
    using assms(1) by (auto simp: prepare_batch_def live_def)
  have a: "all_ids S1 = all_ids S" "online S1" using accept_requests_ids[OF p(1) assms(2)] by simp_all
  have b: "base_ids S2 + mset (live rs) = all_ids S1" "online S2" using sweep_running_ids[OF p(2) a(2)] by (simp_all add: all_ids_def)
  have c: "base_ids S3 = mset (live rs) + base_ids S2" "online S3" using requeue_running_ids[OF p(3) b(2)] by simp_all
  have d: "all_ids (clear_batch S3) = base_ids S3" "online (clear_batch S3)"
    using c(2) by (simp_all add: clear_batch_def all_ids_def base_ids_def online_def)
  show ?thesis using schedule_batch_ids[OF p(4) d(2)] a b c d by (simp add: add.commute)
qed

end
