(* ===== verification/Chunked_Prefill.thy ===== *)
theory Chunked_Prefill
  imports Scheduler_Order
begin

text \<open>
  \<open>core/scheduler/chunked_prefill_scheduler.{h,cpp}\<close>: the scheduler that fills a batch with
  decode steps first and with chunks of prompts then, and the choice of a scheduler in
  \<open>scheduler_factory.cpp\<close>. It shares the queues, the heap of requests and the treatment of
  requests that do not fit with \<open>ContinuousScheduler\<close>, its base class.

  Latency-aware scheduling is off, as in the model of the base class: the estimate stays the
  constant overhead, so a comparison with the latency budget is one of two options, for the
  budget \<open>max_global_tpot_ms\<close> and for the budget without limit. The host tier of the cache is
  not modelled, so \<open>Sequence::kv_cache_tokens_num\<close> is that of the device.
\<close>

section \<open>The choice of a scheduler\<close>

datatype scheduler_kind =
    Mix_scheduler | PDOOC_scheduler | Disagg_pd_scheduler | Prefill_only_scheduler | Chunked_prefill_scheduler
  | Zero_eviction_scheduler | Continuous_scheduler

record factory_flags =
  use_mix_scheduler :: bool
  enable_pd_ooc :: bool
  enable_chunked_prefill :: bool
  enable_prefill_sp :: bool
  use_zero_evict :: bool

definition create_continuous_scheduler :: "factory_flags \<Rightarrow> sched_options \<Rightarrow> scheduler_kind res" where
  "create_continuous_scheduler F C =
     (if use_mix_scheduler F then bindE (check (enable_chunked_prefill F)) (\<lambda>_. Inr Mix_scheduler)
      else if so_disagg_pd C then Inr (if enable_pd_ooc F then PDOOC_scheduler else Disagg_pd_scheduler)
      else if enable_chunked_prefill F
      then Inr (if enable_prefill_sp F \<or> num_speculative_tokens C > 0 then Prefill_only_scheduler else Chunked_prefill_scheduler)
      else Inr (if use_zero_evict F then Zero_eviction_scheduler else Continuous_scheduler))"

lemma chunked_no_speculation:
  "create_continuous_scheduler F C = Inr Chunked_prefill_scheduler \<Longrightarrow> num_speculative_tokens C = 0"
  by (auto simp: create_continuous_scheduler_def split: if_splits)

section \<open>State of one step\<close>

text \<open>\<open>allocate_shared\<close> of the KV cache manager.\<close>

type_synonym 'p shared_op = "sequence \<Rightarrow> 'p \<Rightarrow> (sequence \<times> 'p) res"

record chunk_options =
  max_tokens_per_chunk_for_prefill :: int
  chunked_match_frequency :: int
  profile_token_budget :: "int option"    \<comment> \<open>\<open>get_token_budget()\<close> when \<open>enable_profile_token_budget\<close>\<close>
  tpot_latency_ok :: bool                 \<comment> \<open>\<open>max_global_tpot_ms > estimate_latency\<close>\<close>
  unlimited_latency_ok :: bool            \<comment> \<open>the same for the largest \<open>int32_t\<close>\<close>

text \<open>The conversion of an \<open>int32_t\<close> to a \<open>size_t\<close>.\<close>

definition size_of_int :: "int \<Rightarrow> nat" where
  "size_of_int i = nat (i mod 2 ^ 64)"

text \<open>The variables of \<open>prepare_batch\<close> that its parts take by reference.\<close>

record chunk_ctx =
  cx_tokens :: nat                        \<comment> \<open>\<open>remaining_token_budget\<close>\<close>
  cx_seqs :: nat                          \<comment> \<open>\<open>remaining_seq_budget\<close>\<close>
  cx_prefill :: "(nat \<times> nat) list"        \<comment> \<open>\<open>prefill_stage_sequences\<close>\<close>
  cx_budget_exhausted :: bool
  cx_blocks_exhausted :: bool
  cx_latency_ok :: bool                   \<comment> \<open>\<open>latency_budget > estimate_latency\<close>\<close>

datatype 'p chunk_flow = Chunk_go chunk_ctx "'p sched" | Chunk_leave chunk_ctx "'p sched"

section \<open>Blocks for a chunk\<close>

definition share_seq :: "'p shared_op \<Rightarrow> nat \<Rightarrow> nat \<Rightarrow> 'p sched \<Rightarrow> 'p sched res" where
  "share_seq A r i S =
     bindE (seq_at r i S) (\<lambda>s.
     bindE (A s (sc_pool S)) (\<lambda>(s1, P). Inr ((put_seq r i s1 S)\<lparr>sc_pool := P\<rparr>)))"

definition allocate_shared_blocks_for :: "chunk_options \<Rightarrow> 'p shared_op \<Rightarrow> nat \<Rightarrow> nat \<Rightarrow> 'p sched \<Rightarrow> 'p sched res" where
  "allocate_shared_blocks_for X A r i S =
     bindE (seq_at r i S) (\<lambda>s.
       if kv_blocks (sq_kv s) = [] then share_seq A r i S
       else if stage s = CHUNKED_PREFILL then
         let chunk = nat (max (max_tokens_per_chunk_for_prefill X) 64);
             total = (sq_num_tokens s + chunk - 1) div chunk;
             freq = size_of_int (chunked_match_frequency X) in
         if total < freq then share_seq A r i S
         else if freq = 0 then Inl Div_by_zero
         else if (kv_cache_tokens_num (sq_kv s) div chunk) mod ((total + freq - 1) div freq) = 0 then share_seq A r i S
         else Inr S
       else Inr S)"

text \<open>The result has the number of tokens of this step, also when the blocks are missing.\<close>

definition allocate_blocks_for ::
    "sched_options \<Rightarrow> chunk_options \<Rightarrow> 'p shared_op \<Rightarrow> 'p kv_ops \<Rightarrow> nat \<Rightarrow> nat \<Rightarrow> nat \<Rightarrow> 'p sched \<Rightarrow> (bool \<times> nat \<times> 'p sched) res" where
  "allocate_blocks_for C X A K r i token_budget S =
     bindE (check (token_budget > min_speculative_tokens_required C)) (\<lambda>_.
     bindE (allocate_shared_blocks_for X A r i S) (\<lambda>S1.
     bindE (seq_at r i S1) (\<lambda>s.
       let cached = kv_cache_tokens_num (sq_kv s);
           upto = min (cached + token_budget) (sq_num_tokens s);
           max_handle = (if num_speculative_tokens C > 0 \<and> stage s \<noteq> CHUNKED_PREFILL \<and> cached > 0
                         then upto + min_speculative_tokens_required C else upto) in
       bindE (check (max_handle > cached)) (\<lambda>_.
       bindE (alloc_seq K r i max_handle S1) (\<lambda>(ok, S2). Inr (ok, max_handle - cached, S2))))))"

section \<open>Requests of a running queue\<close>

type_synonym 'p chunk_scan = "(nat \<times> nat) list \<times> 'p scan"

primrec chunk_running_seqs ::
    "sched_options \<Rightarrow> chunk_options \<Rightarrow> 'p shared_op \<Rightarrow> 'p kv_ops \<Rightarrow> nat \<Rightarrow> nat \<Rightarrow> nat \<Rightarrow> nat list \<Rightarrow> nat \<Rightarrow> nat \<Rightarrow>
      (nat \<times> nat) list \<Rightarrow> nat list \<Rightarrow> (nat \<times> nat) list \<Rightarrow> 'p sched \<Rightarrow> 'p chunk_scan res" where
  "chunk_running_seqs C X A K r tb sb [] at as ps bs pre S = Inr (pre, Can_schedule, at, as, ps, bs, S)"
| "chunk_running_seqs C X A K r tb sb (i # is) at as ps bs pre S =
     bindE (finished_seq r i S) (\<lambda>(fin, S1).
       if fin then chunk_running_seqs C X A K r tb sb is at as ps bs pre S1
       else bindE (seq_at r i S1) (\<lambda>s.
         let assume_max_tokens = min (size_of_int (max_tokens_per_chunk_for_prefill X)) (size_sub tb at);
             to_handle = (if stage s = CHUNKED_PREFILL
                          then min assume_max_tokens (size_sub (sq_num_tokens s) (kv_cache_tokens_num (sq_kv s)))
                          else 1 + min_speculative_tokens_required C) in
         if as + 1 > sb \<or> at + to_handle > tb then Inr (pre, Budget_exhausted, at, as, ps, bs, S1)
         else bindE (allocate_blocks_for C X A K r i assume_max_tokens S1) (\<lambda>(ok, n, S2).
           if \<not> ok then Inr (pre, Blocks_exhausted, at, as, ps, bs, S2)
           else bindE (seq_at r i S2) (\<lambda>s2.
             let pre2 = (if kv_cache_tokens_num (sq_kv s2) = 0 \<or> stage s2 = CHUNKED_PREFILL then pre @ [(r, i)] else pre) in
             chunk_running_seqs C X A K r tb sb is (at + n) (as + 1) (ps @ [(r, i)]) (bs @ [n]) pre2 S2))))"

text \<open>
  The victim is the last request of the queue in hand, but the member \<open>running_queue_\<close> is the
  one that loses its last request; \<open>pop_back\<close> on an empty deque is \<open>Out_of_range\<close>.
\<close>

definition chunk_preempt_last :: "'p kv_ops \<Rightarrow> bool \<Rightarrow> nat \<Rightarrow> 'p sched \<Rightarrow> 'p sched res" where
  "chunk_preempt_last K off r S =
     (let p = last (run_q off S) in
      if p = r then Inl Fatal
      else bindE (dealloc_request K p S) (\<lambda>S1.
        if running_queue S1 = [] then Inl Out_of_range
        else Inr (push_waiting p (preempt_request p (S1\<lparr>running_queue := butlast (running_queue S1)\<rparr>)))))"

definition chunk_running_round ::
    "sched_options \<Rightarrow> chunk_options \<Rightarrow> 'p shared_op \<Rightarrow> 'p kv_ops \<Rightarrow> bool \<Rightarrow> chunk_ctx \<Rightarrow> 'p sched \<Rightarrow> 'p chunk_flow res" where
  "chunk_running_round C X A K off cx S =
     (let r = hd (run_q off S); tb = cx_tokens cx; sb = cx_seqs cx in
      bindE (chunk_running_seqs C X A K r tb sb [0..<num_seqs r S] 0 0 [] [] (cx_prefill cx) S) (\<lambda>(pre, v, at, as, ps, bs, S1).
      let cx1 = cx\<lparr>cx_prefill := pre\<rparr> in
      bindE (check (at \<le> tb)) (\<lambda>_. bindE (check (as \<le> sb)) (\<lambda>_.
      case v of
        Can_schedule \<Rightarrow>
          Inr (Chunk_go (cx1\<lparr>cx_tokens := size_sub tb at, cx_seqs := size_sub sb as\<rparr>)
                (schedule r ps bs (set_run_q off (tl (run_q off S1)) S1)))
      | Budget_exhausted \<Rightarrow>
          bindE (handle_abnormal_request C K off True tb sb (v, at, as, ps, bs, S1)) (\<lambda>(tb1, sb1, S2).
            Inr (Chunk_leave (cx1\<lparr>cx_tokens := tb1, cx_seqs := sb1, cx_budget_exhausted := True\<rparr>) S2))
      | Blocks_exhausted \<Rightarrow>
          if online_preempt_offline C \<and> \<not> rq_offline (sc_reqs S1 r) \<and> running_queue_offline S1 \<noteq> []
          then bindE (evict_offline K S1) (\<lambda>S2. Inr (Chunk_go cx1 S2))
          else if length (run_q off S1) > 1
          then bindE (chunk_preempt_last K off r S1) (\<lambda>S2. Inr (Chunk_go cx1 S2))
          else bindE (handle_abnormal_request C K off False tb sb (v, at, as, ps, bs, S1)) (\<lambda>(tb1, sb1, S2).
                 Inr (Chunk_leave (cx1\<lparr>cx_tokens := tb1, cx_seqs := sb1, cx_blocks_exhausted := True\<rparr>) S2))))))"

lemma share_seq_step: "share_seq A r i S = Inr S' \<Longrightarrow> heap_step S S'"
  by (auto simp: share_seq_def)

lemma allocate_shared_step: "allocate_shared_blocks_for X A r i S = Inr S' \<Longrightarrow> heap_step S S'"
  by (auto simp: allocate_shared_blocks_for_def Let_def split: if_splits intro: share_seq_step)

lemma allocate_blocks_step:
  assumes "allocate_blocks_for C X A K r i b S = Inr (ok, n, S')"
  shows "heap_step S S'" "0 < n" "num_speculative_tokens C = 0 \<Longrightarrow> n \<le> b"
proof -
  obtain S1 m where a: "allocate_shared_blocks_for X A r i S = Inr S1" "alloc_seq K r i m S1 = Inr (ok, S')"
    using assms by (auto simp: allocate_blocks_for_def Let_def)
  show "heap_step S S'" using allocate_shared_step[OF a(1)] alloc_seq_step[OF a(2)] by (rule heap_step_trans)
  show "0 < n" using assms by (auto simp: allocate_blocks_for_def Let_def check_def split: if_splits)
  show "n \<le> b" if "num_speculative_tokens C = 0"
    using assms that by (auto simp: allocate_blocks_for_def Let_def check_def split: if_splits)
qed

text \<open>
  What the loop over the sequences adds: as many budgets as sequences, each of them positive,
  and \<open>at\<close> and \<open>as\<close> are their sum and number.
\<close>

definition grown ::
    "nat \<Rightarrow> nat \<Rightarrow> (nat \<times> nat) list \<Rightarrow> nat list \<Rightarrow> nat \<Rightarrow> nat \<Rightarrow> (nat \<times> nat) list \<Rightarrow> nat list \<Rightarrow> bool" where
  "grown at as ps bs at' as' ps' bs' \<longleftrightarrow>
     (\<exists>qs ds. ps' = ps @ qs \<and> bs' = bs @ ds \<and> length qs = length ds \<and> as' = as + length ds \<and> at' = at + sum_list ds \<and>
        (\<forall>d\<in>set ds. 0 < d))"

lemma grown_refl [simp]: "grown at as ps bs at as ps bs"
  by (auto simp: grown_def)

lemma grown_add:
  assumes "grown (at + n) (Suc as) (ps @ [p]) (bs @ [n]) at' as' ps' bs'" "0 < n"
  shows "grown at as ps bs at' as' ps' bs'"
proof -
  obtain qs ds where g: "ps' = ps @ p # qs" "bs' = bs @ n # ds" "length qs = length ds" "as' = Suc as + length ds"
    "at' = at + n + sum_list ds" "\<forall>d\<in>set ds. 0 < d"
    using assms(1) by (auto simp: grown_def)
  then show ?thesis using assms(2) unfolding grown_def by (intro exI[of _ "p # qs"] exI[of _ "n # ds"]) auto
qed

lemma chunk_running_seqs_spec:
  "chunk_running_seqs C X A K r tb sb is at as ps bs pre S = Inr (pre', v, at', as', ps', bs', S') \<Longrightarrow>
    heap_step S S' \<and> grown at as ps bs at' as' ps' bs'"
proof (induction "is" arbitrary: at as ps bs pre S)
  case (Cons i "is")
  obtain fin S1 where f: "finished_seq r i S = Inr (fin, S1)" using Cons.prems by auto
  have e1: "heap_step S S1" using f by (rule finished_seq_step)
  show ?case
  proof (cases fin)
    case True
    then have "chunk_running_seqs C X A K r tb sb is at as ps bs pre S1 = Inr (pre', v, at', as', ps', bs', S')"
      using Cons.prems f by simp
    from Cons.IH[OF this] show ?thesis using e1 by (auto intro: heap_step_trans)
  next
    case False
    obtain s where s: "seq_at r i S1 = Inr s" using Cons.prems f False by auto
    let ?m = "min (size_of_int (max_tokens_per_chunk_for_prefill X)) (size_sub tb at)"
    let ?h = "if stage s = CHUNKED_PREFILL then min ?m (size_sub (sq_num_tokens s) (kv_cache_tokens_num (sq_kv s)))
      else 1 + min_speculative_tokens_required C"
    show ?thesis
    proof (cases "as + 1 > sb \<or> at + ?h > tb")
      case True
      then show ?thesis using Cons.prems f s False e1 by (simp add: Let_def)
    next
      case within: False
      obtain ok n S2 where a: "allocate_blocks_for C X A K r i ?m S1 = Inr (ok, n, S2)"
        using Cons.prems unfolding chunk_running_seqs.simps f s bindE_Inr prod.case Let_def if_not_P[OF False] if_not_P[OF within]
        by auto
      have e2: "heap_step S S2" using e1 allocate_blocks_step(1)[OF a] by (rule heap_step_trans)
      show ?thesis
      proof (cases ok)
        case True
        then obtain pre2 where "chunk_running_seqs C X A K r tb sb is (at + n) (as + 1) (ps @ [(r, i)]) (bs @ [n]) pre2 S2 =
            Inr (pre', v, at', as', ps', bs', S')"
          using Cons.prems unfolding chunk_running_seqs.simps f s a bindE_Inr prod.case Let_def if_not_P[OF False] if_not_P[OF within]
          by auto
        from Cons.IH[OF this] show ?thesis
          using e2 allocate_blocks_step(2)[OF a] by (auto intro: heap_step_trans grown_add)
      next
        case nok: False
        then show ?thesis
          using Cons.prems e2 unfolding chunk_running_seqs.simps f s a bindE_Inr prod.case Let_def if_not_P[OF False] if_not_P[OF within]
          by simp
      qed
    qed
  qed
qed simp

lemma chunk_preempt_less:
  assumes "chunk_preempt_last K off r S = Inr S'"
  shows "decode_measure S' < decode_measure S"
proof -
  obtain S1 where d: "dealloc_request K (last (run_q off S)) S = Inr S1" "running_queue S1 \<noteq> []"
    "S' = push_waiting (last (run_q off S)) (preempt_request (last (run_q off S)) (S1\<lparr>running_queue := butlast (running_queue S1)\<rparr>))"
    using assms by (auto simp: chunk_preempt_last_def Let_def split: if_splits)
  have "decode_measure S1 = decode_measure S" using dealloc_request_step[OF d(1)] by (rule heap_step_measure)
  then show ?thesis unfolding d(3) decode_measure_cong using d(2)
    by (cases "running_queue S1") (simp_all add: decode_measure_def)
qed

lemma chunk_running_round_less:
  assumes "chunk_running_round C X A K off cx S = Inr (Chunk_go cx' S')" "run_q off S \<noteq> []"
  shows "decode_measure S' < decode_measure S"
proof -
  let ?r = "hd (run_q off S)"
  obtain pre v at as ps bs S1 where c:
    "chunk_running_seqs C X A K ?r (cx_tokens cx) (cx_seqs cx) [0..<num_seqs ?r S] 0 0 [] [] (cx_prefill cx) S = Inr (pre, v, at, as, ps, bs, S1)"
    using assms(1) by (auto simp: chunk_running_round_def Let_def)
  have h: "heap_step S S1" using chunk_running_seqs_spec[OF c] by simp
  show ?thesis
  proof (cases v)
    case Can_schedule
    then show ?thesis using assms(1) c pop_less(1)[OF h assms(2)]
      by (auto simp: chunk_running_round_def Let_def decode_measure_cong)
  next
    case Budget_exhausted
    then show ?thesis using assms(1) c by (auto simp: chunk_running_round_def Let_def)
  next
    case Blocks_exhausted
    then show ?thesis using assms(1) c heap_step_measure[OF h]
      by (auto simp: chunk_running_round_def Let_def split: if_splits dest: evicted_decode chunk_preempt_less)
  qed
qed

function handle_running_queue_requests ::
    "sched_options \<Rightarrow> chunk_options \<Rightarrow> 'p shared_op \<Rightarrow> 'p kv_ops \<Rightarrow> bool \<Rightarrow> chunk_ctx \<Rightarrow> 'p sched \<Rightarrow> (chunk_ctx \<times> 'p sched) res" where
  "handle_running_queue_requests C X A K off cx S =
     (if run_q off S \<noteq> [] \<and> cx_tokens cx > min_speculative_tokens_required C \<and> cx_latency_ok cx \<and> cx_seqs cx > 0
      then bindE (chunk_running_round C X A K off cx S) (\<lambda>f.
             case f of Chunk_go cx1 S1 \<Rightarrow> handle_running_queue_requests C X A K off cx1 S1 | Chunk_leave cx1 S1 \<Rightarrow> Inr (cx1, S1))
      else Inr (cx, S))"
  by pat_completeness auto
termination
  by (relation "measure (\<lambda>(C, X, A, K, off, cx, S). decode_measure S)") (auto intro: chunk_running_round_less)

declare handle_running_queue_requests.simps [simp del]

section \<open>Waiting requests\<close>

text \<open>After a failed allocation offline requests may give way.\<close>

definition evict_for_chunk :: "sched_options \<Rightarrow> 'p kv_ops \<Rightarrow> nat \<Rightarrow> nat \<Rightarrow> nat \<Rightarrow> 'p sched \<Rightarrow> (bool \<times> 'p sched) res" where
  "evict_for_chunk C K r i n S =
     (if online_preempt_offline C \<and> \<not> rq_offline (sc_reqs S r) \<and> running_queue_offline S \<noteq> []
      then bindE (seq_at r i S) (\<lambda>s.
           let max_handle = n + kv_cache_tokens_num (sq_kv s) in
           bindE (check_if_enough_to_evict K max_handle S) (\<lambda>(enough, k).
             if enough then bindE (evict_offline_n K k S) (alloc_seq K r i max_handle) else Inr (False, S)))
      else Inr (False, S))"

primrec chunk_prefill_seqs ::
    "sched_options \<Rightarrow> chunk_options \<Rightarrow> 'p shared_op \<Rightarrow> 'p kv_ops \<Rightarrow> nat \<Rightarrow> nat \<Rightarrow> nat \<Rightarrow> nat list \<Rightarrow> nat \<Rightarrow> nat \<Rightarrow>
      (nat \<times> nat) list \<Rightarrow> nat list \<Rightarrow> 'p sched \<Rightarrow> 'p scan res" where
  "chunk_prefill_seqs C X A K r tb sb [] at as ps bs S = Inr (Can_schedule, at, as, ps, bs, S)"
| "chunk_prefill_seqs C X A K r tb sb (i # is) at as ps bs S =
     bindE (finished_seq r i S) (\<lambda>(fin, S1).
       if fin then chunk_prefill_seqs C X A K r tb sb is at as ps bs S1
       else bindE (seq_at r i S1) (\<lambda>s.
         let assume_max_tokens = min (size_of_int (max_tokens_per_chunk_for_prefill X)) (size_sub tb at);
             num_tokens = min assume_max_tokens (sq_num_tokens s) in
         if tb < at + num_tokens \<or> sb < as + 1 then Inr (Budget_exhausted, at, as, ps, bs, S1)
         else bindE (allocate_blocks_for C X A K r i num_tokens S1) (\<lambda>(ok, n, S2).
              bindE (if ok then Inr (True, S2) else evict_for_chunk C K r i n S2) (\<lambda>(can, S3).
                if can then chunk_prefill_seqs C X A K r tb sb is (at + n) (as + 1) (ps @ [(r, i)]) (bs @ [n]) S3
                else bindE (dealloc_seq K r i S3) (\<lambda>S4. Inr (Blocks_exhausted, at, as, ps, bs, S4))))))"

definition mark_exhausted :: "verdict \<Rightarrow> chunk_ctx \<Rightarrow> chunk_ctx" where
  "mark_exhausted v cx =
     (case v of Can_schedule \<Rightarrow> cx | Budget_exhausted \<Rightarrow> cx\<lparr>cx_budget_exhausted := True\<rparr>
      | Blocks_exhausted \<Rightarrow> cx\<lparr>cx_blocks_exhausted := True\<rparr>)"

definition chunk_prefill_round ::
    "sched_options \<Rightarrow> chunk_options \<Rightarrow> 'p shared_op \<Rightarrow> 'p kv_ops \<Rightarrow> bool \<Rightarrow> chunk_ctx \<Rightarrow> 'p sched \<Rightarrow> 'p chunk_flow res" where
  "chunk_prefill_round C X A K off cx S =
     (let r = pq_top C (sc_reqs S) (wait_q off S); tb = cx_tokens cx; sb = cx_seqs cx in
      bindE (done_request r S) (\<lambda>(fin, S1).
        if fin
        then bindE (dealloc_request K r S1) (\<lambda>S2.
               Inr (Chunk_go cx (set_wait_q off (remove1 r (wait_q off S2)) (S2\<lparr>completed := completed S2 @ [r]\<rparr>))))
        else bindE (check (rq_preempted (sc_reqs S1 r) \<or> num_seqs r S1 = 1)) (\<lambda>_.
          bindE (chunk_prefill_seqs C X A K r tb sb [0..<num_seqs r S1] 0 0 [] [] S1) (\<lambda>(v, at, as, ps, bs, S2).
            if v \<noteq> Can_schedule
            then bindE (foldE (\<lambda>(r, i). dealloc_seq K r i) ps S2) (\<lambda>S3. Inr (Chunk_leave (mark_exhausted v cx) S3))
            else Inr (Chunk_go (cx\<lparr>cx_prefill := cx_prefill cx @ ps, cx_tokens := size_sub tb at, cx_seqs := size_sub sb as\<rparr>)
                   (schedule r ps bs (set_wait_q off (remove1 r (wait_q off S2)) S2)))))))"

lemma evict_for_chunk_evicted: "evict_for_chunk C K r i n S = Inr (can, S') \<Longrightarrow> evicted S S'"
  unfolding evict_for_chunk_def
  by (auto simp: Let_def split_beta intro: evicted_step evicted_trans[OF _ evicted_step]
      dest!: alloc_seq_step evict_offline_n_evicted split: if_splits)

lemma chunk_prefill_seqs_spec:
  assumes "chunk_prefill_seqs C X A K r tb sb is at as ps bs S = Inr (v, at', as', ps', bs', S')" "as \<le> sb"
    "num_speculative_tokens C = 0 \<longrightarrow> at \<le> tb"
  shows "evicted S S' \<and> grown at as ps bs at' as' ps' bs' \<and> as' \<le> sb \<and> (num_speculative_tokens C = 0 \<longrightarrow> at' \<le> tb)"
  using assms
proof (induction "is" arbitrary: at as ps bs S)
  case Nil
  then show ?case by (auto intro: evicted_step)
next
  case (Cons i "is")
  obtain fin S1 where f: "finished_seq r i S = Inr (fin, S1)" using Cons.prems(1) by auto
  have e1: "evicted S S1" using f by (intro evicted_step finished_seq_step)
  show ?case
  proof (cases fin)
    case True
    then have "chunk_prefill_seqs C X A K r tb sb is at as ps bs S1 = Inr (v, at', as', ps', bs', S')"
      using Cons.prems(1) f by simp
    from Cons.IH[OF this Cons.prems(2,3)] show ?thesis using evicted_trans[OF e1] by blast
  next
    case False
    obtain s where s: "seq_at r i S1 = Inr s" using Cons.prems(1) f False by auto
    let ?n = "min (min (size_of_int (max_tokens_per_chunk_for_prefill X)) (size_sub tb at)) (sq_num_tokens s)"
    note unf = chunk_prefill_seqs.simps f s bindE_Inr prod.case Let_def if_not_P[OF False]
    show ?thesis
    proof (cases "tb < at + ?n \<or> sb < as + 1")
      case True
      then show ?thesis using Cons.prems e1 unfolding unf by simp
    next
      case within: False
      obtain ok n S2 can S3 where a: "allocate_blocks_for C X A K r i ?n S1 = Inr (ok, n, S2)"
        "(if ok then Inr (True, S2) else evict_for_chunk C K r i n S2) = Inr (can, S3)"
        using Cons.prems(1) unfolding unf if_not_P[OF within] by auto
      have "evicted S2 S3" using a(2) by (auto split: if_splits intro: evicted_step evict_for_chunk_evicted)
      then have e3: "evicted S S3" using e1 evicted_step[OF allocate_blocks_step(1)[OF a(1)]] evicted_trans by blast
      have le: "num_speculative_tokens C = 0 \<longrightarrow> at + n \<le> tb" using allocate_blocks_step(3)[OF a(1)] within by linarith
      show ?thesis
      proof (cases can)
        case True
        then have "chunk_prefill_seqs C X A K r tb sb is (at + n) (as + 1) (ps @ [(r, i)]) (bs @ [n]) S3 =
            Inr (v, at', as', ps', bs', S')"
          using Cons.prems(1) unfolding unf if_not_P[OF within] a bindE_Inr prod.case by simp
        from Cons.IH[OF this _ le] show ?thesis
          using within evicted_trans[OF e3] allocate_blocks_step(2)[OF a(1)] by (auto intro: grown_add)
      next
        case nok: False
        then obtain S4 where "dealloc_seq K r i S3 = Inr S4" "S' = S4" "at' = at" "as' = as" "ps' = ps" "bs' = bs"
          using Cons.prems(1) unfolding unf if_not_P[OF within] a bindE_Inr prod.case by auto
        then show ?thesis using evicted_trans[OF e3 evicted_step[OF dealloc_seq_step]] Cons.prems(2,3) by auto
      qed
    qed
  qed
qed

lemma chunk_prefill_round_less:
  assumes "chunk_prefill_round C X A K off cx S = Inr (Chunk_go cx' S')" "wait_q off S \<noteq> []" "0 < cx_seqs cx"
  shows "prefill_measure off S' < prefill_measure off S"
proof -
  let ?r = "pq_top C (sc_reqs S) (wait_q off S)"
  have r: "?r \<in> set (wait_q off S)" using assms(2) by (rule pq_top_in)
  obtain fin S1 where d: "done_request ?r S = Inr (fin, S1)"
    using assms(1) by (auto simp: chunk_prefill_round_def Let_def)
  have s1: "evicted S S1" using d by (intro evicted_step done_request_step)
  show ?thesis
  proof (cases fin)
    case True
    then obtain S2 where S2: "dealloc_request K ?r S1 = Inr S2"
      "S' = set_wait_q off (remove1 ?r (wait_q off S2)) (S2\<lparr>completed := completed S2 @ [?r]\<rparr>)"
      using assms(1) d by (auto simp: chunk_prefill_round_def Let_def)
    have "evicted S S2" using s1 evicted_step[OF dealloc_request_step[OF S2(1)]] by (rule evicted_trans)
    from take_waiting_less[OF this r] show ?thesis unfolding S2(2) by (simp add: prefill_measure_def)
  next
    case False
    then obtain v at as ps bs S2 where p:
      "chunk_prefill_seqs C X A K ?r (cx_tokens cx) (cx_seqs cx) [0..<num_seqs ?r S1] 0 0 [] [] S1 = Inr (v, at, as, ps, bs, S2)"
      "S' = schedule ?r ps bs (set_wait_q off (remove1 ?r (wait_q off S2)) S2)"
      using assms(1) d by (auto simp: chunk_prefill_round_def Let_def split: if_splits)
    have "evicted S S2" using chunk_prefill_seqs_spec[OF p(1)] evicted_trans[OF s1] by simp
    from take_waiting_less[OF this r] show ?thesis unfolding p(2) by (simp add: prefill_measure_def)
  qed
qed

function chunk_prefill_loop ::
    "sched_options \<Rightarrow> chunk_options \<Rightarrow> 'p shared_op \<Rightarrow> 'p kv_ops \<Rightarrow> bool \<Rightarrow> chunk_ctx \<Rightarrow> 'p sched \<Rightarrow> (chunk_ctx \<times> 'p sched) res" where
  "chunk_prefill_loop C X A K off cx S =
     (if wait_q off S \<noteq> [] \<and> cx_tokens cx > 0 \<and> cx_latency_ok cx \<and> cx_seqs cx > 0
      then bindE (chunk_prefill_round C X A K off cx S) (\<lambda>f.
             case f of Chunk_go cx1 S1 \<Rightarrow> chunk_prefill_loop C X A K off cx1 S1 | Chunk_leave cx1 S1 \<Rightarrow> Inr (cx1, S1))
      else Inr (cx, S))"
  by pat_completeness auto
termination
  by (relation "measure (\<lambda>(C, X, A, K, off, cx, S). prefill_measure off S)") (auto intro: chunk_prefill_round_less)

declare chunk_prefill_loop.simps [simp del]

definition chunk_handle_prefill_requests ::
    "sched_options \<Rightarrow> chunk_options \<Rightarrow> 'p shared_op \<Rightarrow> 'p kv_ops \<Rightarrow> bool \<Rightarrow> chunk_ctx \<Rightarrow> 'p sched \<Rightarrow> (chunk_ctx \<times> 'p sched) res" where
  "chunk_handle_prefill_requests C X A K off cx S =
     bindE (chunk_prefill_loop C X A K off cx S) (\<lambda>(cx1, S1).
     let v = (if cx_blocks_exhausted cx1 then Blocks_exhausted
              else if cx_budget_exhausted cx1 then Budget_exhausted else Can_schedule) in
     bindE (give_up_waiting C K off v S1) (\<lambda>S2. Inr (cx1, S2)))"

section \<open>The rest of the budget\<close>

text \<open>
  The positions of the batch and the list of prefill sequences are walked together; a position
  that is not the next prefill sequence is passed over.
\<close>

primrec remaining_budget_loop ::
    "sched_options \<Rightarrow> chunk_options \<Rightarrow> 'p shared_op \<Rightarrow> 'p kv_ops \<Rightarrow> nat list \<Rightarrow> (nat \<times> nat) list \<Rightarrow> nat \<Rightarrow> 'p sched \<Rightarrow>
      (bool \<times> nat \<times> 'p sched) res" where
  "remaining_budget_loop C X A K [] pre tb S = Inr (False, tb, S)"
| "remaining_budget_loop C X A K (j # js) pre tb S =
     (case pre of [] \<Rightarrow> Inr (False, tb, S)
      | p # pre1 \<Rightarrow>
        bindE (nth_res (running_sequences S) j) (\<lambda>q.
          if p \<noteq> q then remaining_budget_loop C X A K js pre tb S
          else bindE (nth_res (running_sequences_budgets S) j) (\<lambda>token_budget.
            let tb1 = tb + token_budget in
            bindE (allocate_blocks_for C X A K (fst q) (snd q) tb1 S) (\<lambda>(ok, n, S1).
              if \<not> ok then Inr (True, tb1, S1)
              else let S2 = S1\<lparr>running_sequences_budgets := (running_sequences_budgets S1)[j := n]\<rparr> in
                bindE (check (tb1 \<ge> n)) (\<lambda>_.
                  if tb1 - n = 0 then Inr (False, tb1 - n, S2)
                  else remaining_budget_loop C X A K js pre1 (tb1 - n) S2)))))"

definition handle_remaining_budget ::
    "sched_options \<Rightarrow> chunk_options \<Rightarrow> 'p shared_op \<Rightarrow> 'p kv_ops \<Rightarrow> chunk_ctx \<Rightarrow> 'p sched \<Rightarrow> (chunk_ctx \<times> 'p sched) res" where
  "handle_remaining_budget C X A K cx S =
     bindE (remaining_budget_loop C X A K [0..<length (running_sequences S)] (cx_prefill cx) (cx_tokens cx) S) (\<lambda>(full, tb, S1).
       Inr (if full then cx\<lparr>cx_tokens := tb, cx_blocks_exhausted := True\<rparr> else cx\<lparr>cx_tokens := tb\<rparr>, S1))"

section \<open>prepare_batch\<close>

definition chunk_token_budget :: "sched_options \<Rightarrow> chunk_options \<Rightarrow> nat" where
  "chunk_token_budget C X = (case profile_token_budget X of Some n \<Rightarrow> size_of_int n | None \<Rightarrow> max_tokens_per_batch C)"

definition chunk_prefill_stage ::
    "sched_options \<Rightarrow> chunk_options \<Rightarrow> 'p shared_op \<Rightarrow> 'p kv_ops \<Rightarrow> bool \<Rightarrow> chunk_ctx \<Rightarrow> 'p sched \<Rightarrow> (chunk_ctx \<times> 'p sched) res" where
  "chunk_prefill_stage C X A K off cx S =
     (if cx_budget_exhausted cx \<or> cx_blocks_exhausted cx then Inr (cx, S)
      else chunk_handle_prefill_requests C X A K off
        (if running_sequences S = [] then cx\<lparr>cx_latency_ok := unlimited_latency_ok X\<rparr> else cx) S)"

definition chunk_ctx_init :: "sched_options \<Rightarrow> chunk_options \<Rightarrow> chunk_ctx" where
  "chunk_ctx_init C X =
     \<lparr>cx_tokens = chunk_token_budget C X, cx_seqs = size_of_int (max_seqs_per_batch C), cx_prefill = [],
      cx_budget_exhausted = False, cx_blocks_exhausted = False, cx_latency_ok = tpot_latency_ok X\<rparr>"

definition chunk_fill ::
    "sched_options \<Rightarrow> chunk_options \<Rightarrow> 'p shared_op \<Rightarrow> 'p kv_ops \<Rightarrow> 'p sched \<Rightarrow> (chunk_ctx \<times> 'p sched) res" where
  "chunk_fill C X A K S =
     bindE (handle_running_queue_requests C X A K False (chunk_ctx_init C X) S) (\<lambda>(cx1, S1).
     bindE (chunk_prefill_stage C X A K False cx1 S1) (\<lambda>(cx2, S2).
     bindE (if cx_tokens cx2 > 0 then handle_running_queue_requests C X A K True cx2 S2 else Inr (cx2, S2)) (\<lambda>(cx3, S3).
       chunk_prefill_stage C X A K True cx3 S3)))"

definition chunk_schedule ::
    "sched_options \<Rightarrow> chunk_options \<Rightarrow> 'p shared_op \<Rightarrow> 'p kv_ops \<Rightarrow> 'p sched \<Rightarrow> (chunk_ctx \<times> 'p sched) res" where
  "chunk_schedule C X A K S =
     bindE (chunk_fill C X A K S) (\<lambda>(cx, S1).
       if cx_tokens cx > 0 \<and> cx_latency_ok cx then handle_remaining_budget C X A K cx S1 else Inr (cx, S1))"

text \<open>As \<open>sweep_running\<close>, but an entry that is null is dereferenced.\<close>

fun chunk_sweep :: "'p kv_ops \<Rightarrow> (nat \<Rightarrow> bool option) \<Rightarrow> nat option list \<Rightarrow> 'p sched \<Rightarrow> (nat option list \<times> 'p sched) res" where
  "chunk_sweep K conn [] S = Inr ([], S)"
| "chunk_sweep K conn (None # xs) S = bindE (chunk_sweep K conn xs S) (\<lambda>_. Inl Use_after_free)"
| "chunk_sweep K conn (Some r # xs) S =
     bindE (chunk_sweep K conn xs S) (\<lambda>(ys, S1).
     bindE (done_request r (upd_req r (update_connection_status (conn r) (sc_reqs S1 r)) S1)) (\<lambda>(fin, S2).
       if fin then bindE (dealloc_request K r S2) (\<lambda>S3. Inr (None # ys, S3\<lparr>completed := completed S3 @ [r]\<rparr>))
       else Inr (Some r # ys, S2)))"

definition chunk_clear_batch :: "'p sched \<Rightarrow> 'p sched" where
  "chunk_clear_batch S = S\<lparr>running_requests := [], running_sequences := [], running_sequences_budgets := []\<rparr>"

definition chunk_prepare_batch ::
    "sched_options \<Rightarrow> chunk_options \<Rightarrow> 'p shared_op \<Rightarrow> 'p kv_ops \<Rightarrow> (nat \<Rightarrow> bool option) \<Rightarrow> 'p sched \<Rightarrow> 'p sched res" where
  "chunk_prepare_batch C X A K conn S =
     bindE (accept_requests C S) (\<lambda>S1.
     bindE (chunk_sweep K conn (running_requests S1) S1) (\<lambda>(rs, S2).
     bindE (foldE (requeue_one K False) (rev (List.map_filter (\<lambda>x. x) rs)) S2) (\<lambda>S3.
     bindE (chunk_schedule C X A K (chunk_clear_batch S3)) (\<lambda>(cx, S4). Inr S4))))"

end
