(* ===== verification/Chunked_Correct.thy ===== *)
theory Chunked_Correct
  imports Chunked_Prefill
begin

text \<open>
  What a step of the chunked prefill scheduler guarantees: the batch stays within its budgets
  and every scheduled sequence advances, running requests come before waiting ones, and no
  request is lost or duplicated. A locale carries an invariant of the two scheduling loops
  over the whole step.
\<close>

section \<open>Invariants of a step\<close>

fun flow_sat :: "(chunk_ctx \<Rightarrow> 'p sched \<Rightarrow> bool) \<Rightarrow> 'p chunk_flow \<Rightarrow> bool" where
  "flow_sat P (Chunk_go cx S) = P cx S"
| "flow_sat P (Chunk_leave cx S) = P cx S"

locale chunk_invariant =
  fixes C :: sched_options and X :: chunk_options and A :: "'p shared_op" and K :: "'p kv_ops"
    and P :: "chunk_ctx \<Rightarrow> 'p sched \<Rightarrow> bool"
  assumes running_round: "chunk_running_round C X A K off cx S = Inr f \<Longrightarrow> P cx S \<Longrightarrow> run_q off S \<noteq> [] \<Longrightarrow> flow_sat P f"
    and prefill_round: "chunk_prefill_round C X A K off cx S = Inr f \<Longrightarrow> P cx S \<Longrightarrow> wait_q off S \<noteq> [] \<Longrightarrow> flow_sat P f"
    and give_up: "give_up_waiting C K off v S = Inr S' \<Longrightarrow> P cx S \<Longrightarrow> P cx S'"
    and latency: "P cx S \<Longrightarrow> P (cx\<lparr>cx_latency_ok := b\<rparr>) S"
begin

lemma running_loop:
  "handle_running_queue_requests C X A K off cx S = Inr (cx', S') \<Longrightarrow> P cx S \<Longrightarrow> P cx' S'"
proof (induction "decode_measure S" arbitrary: cx S rule: less_induct)
  case less
  note unf = handle_running_queue_requests.simps[of C X A K off cx S]
  show ?case
  proof (cases "run_q off S \<noteq> [] \<and> cx_tokens cx > min_speculative_tokens_required C \<and> cx_latency_ok cx \<and> cx_seqs cx > 0")
    case False
    then show ?thesis using less.prems by (auto simp: unf)
  next
    case True
    obtain f where f: "chunk_running_round C X A K off cx S = Inr f" using less.prems(1) True by (auto simp: unf)
    have w: "flow_sat P f" using running_round[OF f less.prems(2)] True by simp
    show ?thesis
    proof (cases f)
      case (Chunk_go cx1 S1)
      have "handle_running_queue_requests C X A K off cx1 S1 = Inr (cx', S')" using less.prems(1) True f Chunk_go by (simp add: unf)
      moreover have "decode_measure S1 < decode_measure S" using chunk_running_round_less f Chunk_go True by blast
      ultimately show ?thesis using less.hyps w Chunk_go by simp
    next
      case (Chunk_leave cx1 S1)
      then show ?thesis using less.prems(1) True f w by (simp add: unf)
    qed
  qed
qed

lemma prefill_loop:
  "chunk_prefill_loop C X A K off cx S = Inr (cx', S') \<Longrightarrow> P cx S \<Longrightarrow> P cx' S'"
proof (induction "prefill_measure off S" arbitrary: cx S rule: less_induct)
  case less
  note unf = chunk_prefill_loop.simps[of C X A K off cx S]
  show ?case
  proof (cases "wait_q off S \<noteq> [] \<and> cx_tokens cx > 0 \<and> cx_latency_ok cx \<and> cx_seqs cx > 0")
    case False
    then show ?thesis using less.prems by (auto simp: unf)
  next
    case True
    obtain f where f: "chunk_prefill_round C X A K off cx S = Inr f" using less.prems(1) True by (auto simp: unf)
    have w: "flow_sat P f" using prefill_round[OF f less.prems(2)] True by simp
    show ?thesis
    proof (cases f)
      case (Chunk_go cx1 S1)
      have "chunk_prefill_loop C X A K off cx1 S1 = Inr (cx', S')" using less.prems(1) True f Chunk_go by (simp add: unf)
      moreover have "prefill_measure off S1 < prefill_measure off S" using chunk_prefill_round_less f Chunk_go True by blast
      ultimately show ?thesis using less.hyps w Chunk_go by simp
    next
      case (Chunk_leave cx1 S1)
      then show ?thesis using less.prems(1) True f w by (simp add: unf)
    qed
  qed
qed

lemma prefill_stage:
  assumes "chunk_prefill_stage C X A K off cx S = Inr (cx', S')" "P cx S"
  shows "P cx' S'"
proof (cases "cx_budget_exhausted cx \<or> cx_blocks_exhausted cx")
  case True
  then show ?thesis using assms by (auto simp: chunk_prefill_stage_def)
next
  case False
  let ?cx = "if running_sequences S = [] then cx\<lparr>cx_latency_ok := unlimited_latency_ok X\<rparr> else cx"
  obtain S1 v where h: "chunk_prefill_loop C X A K off ?cx S = Inr (cx', S1)" "give_up_waiting C K off v S1 = Inr S'"
    using assms(1) False by (auto simp: chunk_prefill_stage_def chunk_handle_prefill_requests_def Let_def)
  have "P ?cx S" using assms(2) latency by simp
  then show ?thesis using prefill_loop[OF h(1)] give_up[OF h(2)] by blast
qed

lemma fill:
  assumes "chunk_fill C X A K S = Inr (cx', S')" "P (chunk_ctx_init C X) S"
  shows "P cx' S'"
  using assms unfolding chunk_fill_def
  by (auto split: if_splits dest!: running_loop prefill_stage)

end

section \<open>Budgets\<close>

definition chunk_within :: "nat \<Rightarrow> nat \<Rightarrow> chunk_ctx \<Rightarrow> 'p sched \<Rightarrow> bool" where
  "chunk_within M N cx S \<longleftrightarrow> within M N (cx_tokens cx) (cx_seqs cx) S \<and> (\<forall>b\<in>set (running_sequences_budgets S). 0 < b)"

lemma same_batch_chunk_within:
  assumes "chunk_within M N cx S" "same_batch S S'" "cx_tokens cx' = cx_tokens cx" "cx_seqs cx' = cx_seqs cx"
  shows "chunk_within M N cx' S'"
  using assms same_batch_within[OF assms(2)] by (simp add: chunk_within_def same_batch_def)

lemma schedule_chunk_within:
  assumes "chunk_within M N cx S" "grown 0 0 [] [] at as ps bs" "at \<le> cx_tokens cx" "as \<le> cx_seqs cx"
    "cx_tokens cx' = size_sub (cx_tokens cx) at" "cx_seqs cx' = size_sub (cx_seqs cx) as"
  shows "chunk_within M N cx' (schedule r ps bs S)"
proof -
  have g: "length ps = as" "length bs = as" "sum_list bs = at" "\<forall>b\<in>set bs. 0 < b" using assms(2) by (auto simp: grown_def)
  have w: "within M N (cx_tokens cx) (cx_seqs cx) S" "\<forall>b\<in>set (running_sequences_budgets S). 0 < b"
    using assms(1) by (simp_all add: chunk_within_def)
  have "\<forall>b\<in>set (running_sequences_budgets (schedule r ps bs S)). 0 < b" using g(4) w(2) by (auto simp: schedule_def)
  then show ?thesis using schedule_within[OF w(1) g(1-3) assms(3,4)] by (simp add: chunk_within_def assms(5,6))
qed

lemma chunk_preempt_batch: "chunk_preempt_last K off r S = Inr S' \<Longrightarrow> same_batch S S'"
  by (auto simp: chunk_preempt_last_def Let_def split: if_splits dest!: dealloc_request_step heap_step_batch)

lemma abnormal_chunk_within:
  assumes "handle_abnormal_request C K off b (cx_tokens cx) (cx_seqs cx) (v, at, as, ps, bs, S) = Inr (tb', sb', S')"
    "chunk_within M N cx S" "grown 0 0 [] [] at as ps bs" "at \<le> cx_tokens cx" "as \<le> cx_seqs cx"
    "cx_tokens cx' = tb'" "cx_seqs cx' = sb'"
  shows "chunk_within M N cx' S'"
proof (cases "ps = [] \<or> 1 < beam_width (rq_params (sc_reqs S (hd (run_q off S))))")
  case True
  then have "tb' = cx_tokens cx" "sb' = cx_seqs cx" "same_batch S S'"
    using assms(1) by (auto simp: handle_abnormal_request_def Let_def split: if_splits dest!: dealloc_request_step heap_step_batch)
  then show ?thesis using same_batch_chunk_within[OF assms(2)] assms(6,7) by blast
next
  case False
  let ?S = "set_run_q off (tl (run_q off S)) S"
  have "tb' = size_sub (cx_tokens cx) at" "sb' = size_sub (cx_seqs cx) as" "S' = schedule (hd (run_q off S)) ps bs ?S"
    using assms(1) False by (auto simp: handle_abnormal_request_def Let_def split: if_splits)
  moreover have "chunk_within M N cx ?S" by (rule same_batch_chunk_within[OF assms(2)]) simp_all
  ultimately show ?thesis using schedule_chunk_within assms(3-7) by blast
qed

lemma chunk_running_round_within:
  assumes "chunk_running_round C X A K off cx S = Inr f" "chunk_within M N cx S"
  shows "flow_sat (chunk_within M N) f"
proof -
  let ?r = "hd (run_q off S)"
  obtain pre v at as ps bs S1 where c:
    "chunk_running_seqs C X A K ?r (cx_tokens cx) (cx_seqs cx) [0..<num_seqs ?r S] 0 0 [] [] (cx_prefill cx) S = Inr (pre, v, at, as, ps, bs, S1)"
    and le: "at \<le> cx_tokens cx" "as \<le> cx_seqs cx"
    using assms(1) by (auto simp: chunk_running_round_def Let_def check_def split: if_splits)
  have sp: "same_batch S S1" "grown 0 0 [] [] at as ps bs" using chunk_running_seqs_spec[OF c] heap_step_batch by auto
  let ?cx = "cx\<lparr>cx_prefill := pre\<rparr>"
  have w: "chunk_within M N ?cx S1" by (rule same_batch_chunk_within[OF assms(2) sp(1)]) simp_all
  note r = assms(1)[unfolded chunk_running_round_def Let_def c bindE_Inr prod.case, simplified le check_def]
  have keep: "chunk_within M N ?cx S2" if "same_batch S1 S2" for S2 using same_batch_chunk_within[OF w that] by simp
  have abn: "chunk_within M N cx' S2"
    if "handle_abnormal_request C K off b (cx_tokens cx) (cx_seqs cx) (v, at, as, ps, bs, S1) = Inr (cx_tokens cx', cx_seqs cx', S2)" for b cx' S2
    by (rule abnormal_chunk_within[where cx = ?cx, OF _ w sp(2)]) (use that le in simp_all)
  show ?thesis
  proof (cases v)
    case Can_schedule
    let ?S = "set_run_q off (tl (run_q off S1)) S1"
    have "chunk_within M N ?cx ?S" by (rule keep) simp
    from schedule_chunk_within[OF this sp(2), of "?cx\<lparr>cx_tokens := size_sub (cx_tokens cx) at, cx_seqs := size_sub (cx_seqs cx) as\<rparr>" ?r]
    show ?thesis using r le Can_schedule by auto
  next
    case Budget_exhausted
    then obtain tb' sb' S2 where h: "handle_abnormal_request C K off True (cx_tokens cx) (cx_seqs cx) (v, at, as, ps, bs, S1) = Inr (tb', sb', S2)"
      "f = Chunk_leave (?cx\<lparr>cx_tokens := tb', cx_seqs := sb', cx_budget_exhausted := True\<rparr>) S2"
      using r by auto
    show ?thesis unfolding h(2) flow_sat.simps by (rule abn) (use h(1) in simp)
  next
    case Blocks_exhausted
    then consider S2 where "evict_offline K S1 = Inr S2" "f = Chunk_go ?cx S2"
      | S2 where "chunk_preempt_last K off ?r S1 = Inr S2" "f = Chunk_go ?cx S2"
      | tb' sb' S2 where "handle_abnormal_request C K off False (cx_tokens cx) (cx_seqs cx) (v, at, as, ps, bs, S1) = Inr (tb', sb', S2)"
        "f = Chunk_leave (?cx\<lparr>cx_tokens := tb', cx_seqs := sb', cx_blocks_exhausted := True\<rparr>) S2"
      using r by (auto split: if_splits)
    then show ?thesis
    proof cases
      case 1
      then show ?thesis using keep[OF evicted_batch[OF evict_offline_evicted[OF 1(1)]]] by simp
    next
      case 2
      then show ?thesis using keep[OF chunk_preempt_batch[OF 2(1)]] by simp
    next
      case 3
      show ?thesis unfolding 3(2) flow_sat.simps by (rule abn) (use 3(1) in simp)
    qed
  qed
qed

lemma chunk_prefill_round_cases:
  assumes "chunk_prefill_round C X A K off cx S = Inr f"
  obtains (finished) r S2 where "r = pq_top C (sc_reqs S) (wait_q off S)" "heap_step S S2"
      "f = Chunk_go cx (set_wait_q off (remove1 r (wait_q off S2)) (S2\<lparr>completed := completed S2 @ [r]\<rparr>))"
    | (sched) r at as ps bs S2 where "r = pq_top C (sc_reqs S) (wait_q off S)" "evicted S S2" "grown 0 0 [] [] at as ps bs"
      "as \<le> cx_seqs cx" "num_speculative_tokens C = 0 \<longrightarrow> at \<le> cx_tokens cx"
      "f = Chunk_go (cx\<lparr>cx_prefill := cx_prefill cx @ ps, cx_tokens := size_sub (cx_tokens cx) at,
             cx_seqs := size_sub (cx_seqs cx) as\<rparr>) (schedule r ps bs (set_wait_q off (remove1 r (wait_q off S2)) S2))"
    | (full) v S2 where "evicted S S2" "f = Chunk_leave (mark_exhausted v cx) S2"
proof -
  let ?r = "pq_top C (sc_reqs S) (wait_q off S)"
  obtain fin S1 where d: "done_request ?r S = Inr (fin, S1)" using assms by (auto simp: chunk_prefill_round_def Let_def)
  have s1: "heap_step S S1" using d by (rule done_request_step)
  show thesis
  proof (cases fin)
    case True
    then obtain S2 where S2: "dealloc_request K ?r S1 = Inr S2"
      "f = Chunk_go cx (set_wait_q off (remove1 ?r (wait_q off S2)) (S2\<lparr>completed := completed S2 @ [?r]\<rparr>))"
      using assms d by (auto simp: chunk_prefill_round_def Let_def)
    show thesis by (rule finished[OF refl heap_step_trans[OF s1 dealloc_request_step[OF S2(1)]] S2(2)])
  next
    case False
    obtain v at as ps bs S2 where p:
      "chunk_prefill_seqs C X A K ?r (cx_tokens cx) (cx_seqs cx) [0..<num_seqs ?r S1] 0 0 [] [] S1 = Inr (v, at, as, ps, bs, S2)"
      using assms d False by (auto simp: chunk_prefill_round_def Let_def)
    have sp: "evicted S1 S2" "grown 0 0 [] [] at as ps bs" "as \<le> cx_seqs cx" "num_speculative_tokens C = 0 \<longrightarrow> at \<le> cx_tokens cx"
      using chunk_prefill_seqs_spec[OF p] by auto
    have e: "evicted S S2" using evicted_step[OF s1] sp(1) by (rule evicted_trans)
    show thesis
    proof (cases "v = Can_schedule")
      case True
      show thesis by (rule sched[OF refl e sp(2-4)])
        (use assms d False p True in \<open>auto simp: chunk_prefill_round_def Let_def check_def split: if_splits\<close>)
    next
      case nv: False
      obtain S3 where l: "foldE (\<lambda>(r, i). dealloc_seq K r i) ps S2 = Inr S3" "f = Chunk_leave (mark_exhausted v cx) S3"
        using assms d False p nv by (auto simp: chunk_prefill_round_def Let_def)
      have "heap_step S2 S3" by (rule foldE_step[OF l(1)]) (auto intro: dealloc_seq_step)
      from full[OF evicted_trans[OF e evicted_step[OF this]] l(2)] show thesis .
    qed
  qed
qed

lemma mark_exhausted_sel [simp]:
  "cx_tokens (mark_exhausted v cx) = cx_tokens cx" "cx_seqs (mark_exhausted v cx) = cx_seqs cx"
  "cx_latency_ok (mark_exhausted v cx) = cx_latency_ok cx"
  by (cases v; simp add: mark_exhausted_def)+

lemma chunk_prefill_round_within:
  assumes "chunk_prefill_round C X A K off cx S = Inr f" "chunk_within M N cx S" "num_speculative_tokens C = 0"
  shows "flow_sat (chunk_within M N) f"
  using assms(1)
proof (cases rule: chunk_prefill_round_cases)
  case (finished r S2)
  show ?thesis unfolding finished(3) flow_sat.simps
    by (rule same_batch_chunk_within[OF assms(2)]) (use heap_step_batch[OF finished(2)] in simp_all)
next
  case (sched r at as ps bs S2)
  let ?S = "set_wait_q off (remove1 r (wait_q off S2)) S2"
  have "chunk_within M N cx ?S" by (rule same_batch_chunk_within[OF assms(2)]) (use evicted_batch[OF sched(2)] in simp_all)
  from schedule_chunk_within[OF this sched(3) _ sched(4)] show ?thesis using sched(5) assms(3) by (simp add: sched(6))
next
  case (full v S2)
  show ?thesis unfolding full(2) flow_sat.simps
    by (rule same_batch_chunk_within[OF assms(2)]) (use evicted_batch[OF full(1)] in simp_all)
qed

interpretation budgets: chunk_invariant C X A K "\<lambda>cx S. num_speculative_tokens C = 0 \<longrightarrow> chunk_within M N cx S"
  for C :: sched_options and X :: chunk_options and A :: "'p shared_op" and K :: "'p kv_ops" and M N :: nat
proof
  show "flow_sat (\<lambda>cx S. num_speculative_tokens C = 0 \<longrightarrow> chunk_within M N cx S) f"
    if "chunk_running_round C X A K off cx S = Inr f" "num_speculative_tokens C = 0 \<longrightarrow> chunk_within M N cx S" for off cx S f
    using chunk_running_round_within[OF that(1)] that(2) by (cases f) auto
  show "flow_sat (\<lambda>cx S. num_speculative_tokens C = 0 \<longrightarrow> chunk_within M N cx S) f"
    if "chunk_prefill_round C X A K off cx S = Inr f" "num_speculative_tokens C = 0 \<longrightarrow> chunk_within M N cx S" for off cx S f
    using chunk_prefill_round_within[OF that(1)] that(2) by (cases f) auto
  show "num_speculative_tokens C = 0 \<longrightarrow> chunk_within M N cx S'"
    if "give_up_waiting C K off v S = Inr S'" "num_speculative_tokens C = 0 \<longrightarrow> chunk_within M N cx S" for off v S S' cx
    using same_batch_chunk_within[OF _ give_up_batch[OF that(1)]] that(2) by blast
  show "num_speculative_tokens C = 0 \<longrightarrow> chunk_within M N (cx\<lparr>cx_latency_ok := b\<rparr>) S"
    if "num_speculative_tokens C = 0 \<longrightarrow> chunk_within M N cx S" for cx S b
    using that by (simp add: chunk_within_def)
qed

text \<open>The last step only enlarges chunks within what is left.\<close>

lemma heap_step_budgets:
  "heap_step S S' \<Longrightarrow> heap_step (S\<lparr>running_sequences_budgets := bs\<rparr>) (S'\<lparr>running_sequences_budgets := bs\<rparr>)"
  unfolding heap_step_def num_seqs_def places_def by simp

lemma sum_list_update_le:
  fixes bs :: "nat list"
  assumes "j < length bs" "n \<le> tb + bs ! j"
  shows "sum_list (bs[j := n]) + (tb + bs ! j - n) = sum_list bs + tb"
proof -
  have "bs ! j \<le> sum_list bs" using assms(1) by (rule elem_le_sum_list)
  then show ?thesis using assms(2) sum_list_update[OF assms(1), of n] by linarith
qed

lemma remaining_budget_spec:
  "remaining_budget_loop C X A K js pre tb S = Inr (full, tb', S') \<Longrightarrow>
    \<exists>bs. heap_step (S\<lparr>running_sequences_budgets := bs\<rparr>) S' \<and> length bs = length (running_sequences_budgets S) \<and>
      sum_list bs \<le> sum_list (running_sequences_budgets S) + tb \<and>
      ((\<forall>b\<in>set (running_sequences_budgets S). 0 < b) \<longrightarrow> (\<forall>b\<in>set bs. 0 < b))"
proof (induction js arbitrary: pre tb S)
  case Nil
  then show ?case by (intro exI[of _ "running_sequences_budgets S"]) simp
next
  case (Cons j js)
  have same: ?case if "heap_step S S'"
    using that by (intro exI[of _ "running_sequences_budgets S"]) simp
  show ?case
  proof (cases pre)
    case Nil
    then show ?thesis using Cons.prems same by simp
  next
    case (Cons p pre1)
    note pre = Cons
    obtain q where q: "nth_res (running_sequences S) j = Inr q" using Cons.prems pre by auto
    show ?thesis
    proof (cases "p = q")
      case False
      then have "remaining_budget_loop C X A K js pre tb S = Inr (full, tb', S')" using Cons.prems pre q by simp
      then show ?thesis by (rule Cons.IH)
    next
      case True
      obtain b where b: "nth_res (running_sequences_budgets S) j = Inr b" using Cons.prems pre q True by auto
      then have j: "j < length (running_sequences_budgets S)" "b = running_sequences_budgets S ! j"
        by (auto simp: nth_res_def split: if_splits)
      obtain ok n S1 where a: "allocate_blocks_for C X A K (fst q) (snd q) (tb + b) S = Inr (ok, n, S1)"
        using Cons.prems pre q b True by (auto simp: Let_def)
      have h: "heap_step S S1" "0 < n" using allocate_blocks_step[OF a] by simp_all
      show ?thesis
      proof (cases ok)
        case False
        then show ?thesis using Cons.prems pre q b True a h(1) same by (simp add: Let_def)
      next
        case ok: True
        let ?bs = "(running_sequences_budgets S)[j := n]"
        let ?S2 = "S1\<lparr>running_sequences_budgets := ?bs\<rparr>"
        have n: "n \<le> tb + b" and nxt: "(full, tb', S') = (False, 0, ?S2) \<or> remaining_budget_loop C X A K js pre1 (tb + b - n) ?S2 = Inr (full, tb', S')"
          using Cons.prems pre q b True a ok unfolding remaining_budget_loop.simps heap_stepD(8)[OF h(1)]
          by (simp_all add: Let_def check_def heap_stepD(8)[OF h(1)] split: if_splits)
        have bb: "running_sequences_budgets ?S2 = ?bs" by simp
        have s2: "heap_step (S\<lparr>running_sequences_budgets := ?bs\<rparr>) ?S2" using h(1) by (rule heap_step_budgets)
        have sum: "sum_list ?bs + (tb + b - n) = sum_list (running_sequences_budgets S) + tb"
          using sum_list_update_le[OF j(1)] n j(2) by simp
        have pos: "(\<forall>b\<in>set (running_sequences_budgets S). 0 < b) \<longrightarrow> (\<forall>b\<in>set ?bs. 0 < b)"
          using h(2) set_update_subset_insert[of "running_sequences_budgets S" j n] by blast
        from nxt show ?thesis
        proof
          assume "(full, tb', S') = (False, 0, ?S2)"
          then have "heap_step (S\<lparr>running_sequences_budgets := ?bs\<rparr>) S'" using s2 by simp
          moreover have "sum_list ?bs \<le> sum_list (running_sequences_budgets S) + tb" using sum by linarith
          ultimately show ?thesis using pos by (intro exI[of _ ?bs] conjI) simp_all
        next
          assume "remaining_budget_loop C X A K js pre1 (tb + b - n) ?S2 = Inr (full, tb', S')"
          from Cons.IH[OF this, unfolded bb] obtain cs where ih: "heap_step (?S2\<lparr>running_sequences_budgets := cs\<rparr>) S'" "length cs = length ?bs"
            "sum_list cs \<le> sum_list ?bs + (tb + b - n)" "(\<forall>b\<in>set ?bs. 0 < b) \<longrightarrow> (\<forall>b\<in>set cs. 0 < b)"
            by blast
          have "heap_step (S\<lparr>running_sequences_budgets := cs\<rparr>) (?S2\<lparr>running_sequences_budgets := cs\<rparr>)"
            using heap_step_budgets[OF h(1), of cs] by simp
          then have "heap_step (S\<lparr>running_sequences_budgets := cs\<rparr>) S'" using ih(1) by (rule heap_step_trans)
          moreover have "sum_list cs \<le> sum_list (running_sequences_budgets S) + tb" using ih(3) sum by linarith
          moreover have "length cs = length (running_sequences_budgets S)" using ih(2) by simp
          ultimately show ?thesis using ih(4) pos by blast
        qed
      qed
    qed
  qed
qed

lemma chunk_schedule_within:
  assumes "chunk_schedule C X A K S = Inr (cx, S')" "num_speculative_tokens C = 0"
    "running_sequences S = []" "running_sequences_budgets S = []"
  shows "sum_list (running_sequences_budgets S') \<le> chunk_token_budget C X \<and>
    length (running_sequences S') \<le> size_of_int (max_seqs_per_batch C) \<and>
    length (running_sequences_budgets S') = length (running_sequences S') \<and> (\<forall>b\<in>set (running_sequences_budgets S'). 0 < b)"
proof -
  let ?M = "chunk_token_budget C X" and ?N = "size_of_int (max_seqs_per_batch C)"
  obtain cx1 S1 where f: "chunk_fill C X A K S = Inr (cx1, S1)" using assms(1) by (auto simp: chunk_schedule_def)
  have "chunk_within ?M ?N (chunk_ctx_init C X) S" using assms(3,4) by (simp add: chunk_within_def within_def chunk_ctx_init_def)
  then have w: "within ?M ?N (cx_tokens cx1) (cx_seqs cx1) S1" "\<forall>b\<in>set (running_sequences_budgets S1). 0 < b"
    using budgets.fill[OF f] assms(2) by (auto simp: chunk_within_def)
  have "S' = S1 \<or> (\<exists>full tb. remaining_budget_loop C X A K [0..<length (running_sequences S1)] (cx_prefill cx1) (cx_tokens cx1) S1 = Inr (full, tb, S'))"
    using assms(1) f by (auto simp: chunk_schedule_def handle_remaining_budget_def split: if_splits)
  then show ?thesis
  proof
    assume "S' = S1"
    then show ?thesis using w by (auto simp: within_def)
  next
    assume "\<exists>full tb. remaining_budget_loop C X A K [0..<length (running_sequences S1)] (cx_prefill cx1) (cx_tokens cx1) S1 = Inr (full, tb, S')"
    then obtain bs where r: "heap_step (S1\<lparr>running_sequences_budgets := bs\<rparr>) S'" "length bs = length (running_sequences_budgets S1)"
      "sum_list bs \<le> sum_list (running_sequences_budgets S1) + cx_tokens cx1" "\<forall>b\<in>set bs. 0 < b"
      using remaining_budget_spec w(2) by blast
    then show ?thesis using heap_stepD(7,8)[OF r(1)] w(1) by (auto simp: within_def)
  qed
qed

end
