(* ===== verification/Chunked_Order.thy ===== *)
theory Chunked_Order
  imports Chunked_Correct
begin

text \<open>
  The order of service and the conservation of requests for the chunked prefill scheduler, for
  online requests without beam search as in \<open>Scheduler_Order\<close>.
\<close>

section \<open>Running requests\<close>

definition exhausted :: "chunk_ctx \<Rightarrow> bool" where
  "exhausted cx \<longleftrightarrow> cx_budget_exhausted cx \<or> cx_blocks_exhausted cx"

lemma chunk_preempt_online:
  "chunk_preempt_last K False r S = Inr S' \<Longrightarrow> preempt_last K False r S = Inr S'"
  by (auto simp: chunk_preempt_last_def preempt_last_def Let_def run_q_def set_run_q_def split: if_splits)

text \<open>A round serves from the front; the loop is left only with a budget or the blocks exhausted.\<close>

lemma chunk_running_round_served:
  assumes "chunk_running_round C X A K False cx S = Inr f" "online S" "running_queue S \<noteq> []"
  obtains (go) cx' S' xs zs where "f = Chunk_go cx' S'" "served S S' xs [] zs" "exhausted cx' = exhausted cx" "cx_latency_ok cx' = cx_latency_ok cx"
    | (leave) cx' S' xs fs where "f = Chunk_leave cx' S'" "served S S' xs fs []" "exhausted cx'" "cx_latency_ok cx' = cx_latency_ok cx"
proof -
  let ?r = "hd (run_q False S)"
  obtain pre v at as ps bs S1 where c:
    "chunk_running_seqs C X A K ?r (cx_tokens cx) (cx_seqs cx) [0..<num_seqs ?r S] 0 0 [] [] (cx_prefill cx) S = Inr (pre, v, at, as, ps, bs, S1)"
    and le: "at \<le> cx_tokens cx" "as \<le> cx_seqs cx"
    using assms(1) by (auto simp: chunk_running_round_def Let_def check_def split: if_splits)
  have k: "keeps S S1" using chunk_running_seqs_spec[OF c] heap_step_keeps by blast
  have q: "run_q False S1 = run_q False S" "online S1" "running_queue S1 \<noteq> []" "running_queue_offline S1 = []"
    using k assms(2,3) keeps_online[OF k] by (auto simp: keeps_def places_def run_q_def online_def)
  note r = assms(1)[unfolded chunk_running_round_def Let_def c bindE_Inr prod.case, simplified le check_def]
  show thesis
  proof (cases v)
    case Can_schedule
    have "served S (schedule ?r ps bs (set_run_q False (tl (run_q False S1)) S1)) [hd (running_queue S1)] [] []"
      using keeps_served[OF k served_schedule[OF q(2,3), of ps bs]] q(1) by simp
    then show thesis using go r Can_schedule by (auto simp: exhausted_def)
  next
    case Budget_exhausted
    then obtain tb' sb' S2 where h: "handle_abnormal_request C K False True (cx_tokens cx) (cx_seqs cx) (v, at, as, ps, bs, S1) = Inr (tb', sb', S2)"
      "f = Chunk_leave (cx\<lparr>cx_prefill := pre, cx_tokens := tb', cx_seqs := sb', cx_budget_exhausted := True\<rparr>) S2"
      using r by auto
    obtain xs fs where "served S1 S2 xs fs []" using served_abnormal[OF h(1) q(2,3)] by blast
    from leave[OF h(2) keeps_served[OF k this]] show thesis by (simp add: exhausted_def)
  next
    case Blocks_exhausted
    then consider S2 where "chunk_preempt_last K False ?r S1 = Inr S2" "f = Chunk_go (cx\<lparr>cx_prefill := pre\<rparr>) S2"
      | tb' sb' S2 where "handle_abnormal_request C K False False (cx_tokens cx) (cx_seqs cx) (v, at, as, ps, bs, S1) = Inr (tb', sb', S2)"
        "f = Chunk_leave (cx\<lparr>cx_prefill := pre, cx_tokens := tb', cx_seqs := sb', cx_blocks_exhausted := True\<rparr>) S2"
      using r q(4) by (auto split: if_splits)
    then show thesis
    proof cases
      case 1
      show thesis using keeps_served[OF k served_preempt[OF chunk_preempt_online[OF 1(1)] q(2,3)]] go[OF 1(2)] by (auto simp: exhausted_def)
    next
      case 2
      obtain xs fs where "served S1 S2 xs fs []" using served_abnormal[OF 2(1) q(2,3)] by blast
      from leave[OF 2(2) keeps_served[OF k this]] show thesis by (simp add: exhausted_def)
    qed
  qed
qed

lemma running_queue_served:
  "handle_running_queue_requests C X A K False cx S = Inr (cx', S') \<Longrightarrow> online S \<Longrightarrow> \<not> exhausted cx \<Longrightarrow>
    \<exists>xs fs zs. served S S' xs fs zs \<and> cx_latency_ok cx' = cx_latency_ok cx \<and>
      (\<not> exhausted cx' \<longrightarrow> fs = [] \<and> (running_queue S' = [] \<or> cx_tokens cx' \<le> min_speculative_tokens_required C \<or>
         \<not> cx_latency_ok cx \<or> cx_seqs cx' = 0))"
proof (induction "decode_measure S" arbitrary: cx S rule: less_induct)
  case less
  note unf = handle_running_queue_requests.simps[of C X A K False cx S]
  show ?case
  proof (cases "run_q False S \<noteq> [] \<and> cx_tokens cx > min_speculative_tokens_required C \<and> cx_latency_ok cx \<and> cx_seqs cx > 0")
    case False
    then have "cx' = cx" "S' = S" using less.prems(1) by (auto simp: unf)
    then show ?thesis using served_refl[OF less.prems(2)] False by (intro exI[of _ "[]"]) (auto simp: run_q_def)
  next
    case True
    obtain f where f: "chunk_running_round C X A K False cx S = Inr f" using less.prems(1) True by (auto simp: unf)
    have q: "running_queue S \<noteq> []" using True by (simp add: run_q_def)
    from f less.prems(2) q show ?thesis
    proof (cases rule: chunk_running_round_served)
      case (go cx1 S1 xs zs)
      have l: "handle_running_queue_requests C X A K False cx1 S1 = Inr (cx', S')" using less.prems(1) True f go(1) by (simp add: unf)
      have m: "decode_measure S1 < decode_measure S" using chunk_running_round_less f go(1) True by blast
      have "online S1" "\<not> exhausted cx1" using go(2,3) less.prems(3) by (simp_all add: served_def)
      then obtain ys fs ws where "served S1 S' ys fs ws" "cx_latency_ok cx' = cx_latency_ok cx1"
        "\<not> exhausted cx' \<longrightarrow> fs = [] \<and> (running_queue S' = [] \<or> cx_tokens cx' \<le> min_speculative_tokens_required C \<or>
           \<not> cx_latency_ok cx1 \<or> cx_seqs cx' = 0)"
        using less.hyps[OF m l] by blast
      then show ?thesis using served_trans[OF go(2)] go(4) by metis
    next
      case (leave cx1 S1 xs fs)
      then have "cx' = cx1" "S' = S1" using less.prems(1) True f by (simp_all add: unf)
      then show ?thesis using leave by blast
    qed
  qed
qed

lemma running_offline_idle: "online S \<Longrightarrow> handle_running_queue_requests C X A K True cx S = Inr (cx, S)"
  by (simp add: handle_running_queue_requests.simps[of C X A K True] run_q_def online_def)

section \<open>Conservation\<close>

lemma served_online: "served S S' xs fs zs \<Longrightarrow> online S'"
  by (simp add: served_def)

lemma chunk_prefill_round_ids:
  assumes "chunk_prefill_round C X A K off cx S = Inr f" "online S \<and> all_ids S = I" "wait_q off S \<noteq> []"
  shows "flow_sat (\<lambda>_ S. online S \<and> all_ids S = I) f"
proof -
  let ?r = "pq_top C (sc_reqs S) (wait_q off S)"
  have o: "online S" and I: "all_ids S = I" using assms(2) by simp_all
  have r: "?r \<in> set (wait_q off T)" if "keeps S T" for T
    using pq_top_in[OF assms(3)] that by (auto simp: keeps_def places_def wait_q_def)
  note ids = ids_take_waiting[OF r] keeps_ids keeps_online
  from assms(1) show ?thesis
  proof (cases rule: chunk_prefill_round_cases)
    case (finished r S2)
    have k: "keeps S S2" using finished(2) by (rule heap_step_keeps)
    show ?thesis using o I by (simp add: finished(1,3) ids(2)[OF k] ids(4)[OF k] ids(5)[OF k])
  next
    case (sched r at as ps bs S2)
    have k: "keeps S S2" using evicted_keeps[OF sched(2) o] .
    show ?thesis using o I by (simp add: sched(1,6) ids(1)[OF k] ids(4)[OF k] ids(5)[OF k])
  next
    case (full v S2)
    have k: "keeps S S2" using evicted_keeps[OF full(1) o] .
    show ?thesis using o I by (simp add: full(2) ids(4)[OF k] ids(5)[OF k])
  qed
qed

interpretation conserved: chunk_invariant C X A K "\<lambda>cx S. online S \<and> all_ids S = I"
  for C :: sched_options and X :: chunk_options and A :: "'p shared_op" and K :: "'p kv_ops" and I :: "nat multiset"
proof
  show "flow_sat (\<lambda>cx S. online S \<and> all_ids S = I) f"
    if "chunk_running_round C X A K off cx S = Inr f" "online S \<and> all_ids S = I" "run_q off S \<noteq> []" for off cx S f
  proof -
    have off: "off = False" and q: "running_queue S \<noteq> []" using that(2,3) by (auto simp: run_q_def online_def split: if_splits)
    from that(1)[unfolded off] conjunct1[OF that(2)] q show ?thesis
      by (cases rule: chunk_running_round_served) (use that(2) in \<open>auto dest: served_ids served_online\<close>)
  qed
  show "flow_sat (\<lambda>cx S. online S \<and> all_ids S = I) f"
    if "chunk_prefill_round C X A K off cx S = Inr f" "online S \<and> all_ids S = I" "wait_q off S \<noteq> []" for off cx S f
    using chunk_prefill_round_ids[OF that] .
  show "online S' \<and> all_ids S' = I" if "give_up_waiting C K off v S = Inr S'" "online S \<and> all_ids S = I" for off v S S'
    using give_up_ids[OF that(1)] that(2) by simp
qed

lemma chunk_schedule_cases:
  assumes "chunk_schedule C X A K S = Inr (cx', S')"
  obtains cx1 S1 bs where "chunk_fill C X A K S = Inr (cx1, S1)" "keeps (S1\<lparr>running_sequences_budgets := bs\<rparr>) S'"
proof -
  obtain cx1 S1 where f: "chunk_fill C X A K S = Inr (cx1, S1)" using assms by (auto simp: chunk_schedule_def)
  have "S' = S1 \<or> (\<exists>full tb. remaining_budget_loop C X A K [0..<length (running_sequences S1)] (cx_prefill cx1) (cx_tokens cx1) S1 = Inr (full, tb, S'))"
    using assms f by (auto simp: chunk_schedule_def handle_remaining_budget_def split: if_splits)
  then have "\<exists>bs. heap_step (S1\<lparr>running_sequences_budgets := bs\<rparr>) S'"
    using remaining_budget_spec by (metis heap_step_refl sched.surjective sched.update_convs(9))
  then show thesis using that[OF f] heap_step_keeps by blast
qed

lemma budgets_update_keeps [simp]:
  "online (S\<lparr>running_sequences_budgets := bs\<rparr>) = online S" "all_ids (S\<lparr>running_sequences_budgets := bs\<rparr>) = all_ids S"
  by (simp_all add: online_def all_ids_def base_ids_def)

lemma chunk_schedule_ids:
  assumes "chunk_schedule C X A K S = Inr (cx', S')" "online S"
  shows "all_ids S' = all_ids S \<and> online S'"
  using assms(1)
proof (rule chunk_schedule_cases)
  fix cx1 S1 bs assume f: "chunk_fill C X A K S = Inr (cx1, S1)" "keeps (S1\<lparr>running_sequences_budgets := bs\<rparr>) S'"
  have "online S1 \<and> all_ids S1 = all_ids S" using conserved.fill[OF f(1)] assms(2) by blast
  then show ?thesis using keeps_ids[OF f(2)] keeps_online[OF f(2)] by simp
qed

lemma chunk_sweep_sweeps: "chunk_sweep K conn xs S = Inr r \<Longrightarrow> sweep_running K conn xs S = Inr r"
proof (induction K conn xs S arbitrary: r rule: chunk_sweep.induct)
  case (3 K conn q xs S)
  obtain y where y: "chunk_sweep K conn xs S = Inr y" using "3.prems" by auto
  from "3.IH"[OF y] y "3.prems" show ?case by (simp del: bindE_eq_Inr)
qed simp_all

lemma chunk_prepare_batch_ids:
  assumes "chunk_prepare_batch C X A K conn S = Inr S'" "online S"
  shows "all_ids S' = all_ids S \<and> online S'"
proof -
  obtain S1 rs S2 S3 cx where p: "accept_requests C S = Inr S1" "chunk_sweep K conn (running_requests S1) S1 = Inr (rs, S2)"
    "foldE (requeue_one K False) (rev (live rs)) S2 = Inr S3" "chunk_schedule C X A K (chunk_clear_batch S3) = Inr (cx, S')"
    using assms(1) by (auto simp: chunk_prepare_batch_def live_def)
  have a: "all_ids S1 = all_ids S" "online S1" using accept_requests_ids[OF p(1) assms(2)] by simp_all
  have b: "base_ids S2 + mset (live rs) = all_ids S1" "online S2"
    using sweep_running_ids[OF chunk_sweep_sweeps[OF p(2)] a(2)] by (simp_all add: all_ids_def)
  have c: "base_ids S3 = mset (live rs) + base_ids S2" "online S3" using requeue_loop_ids[OF p(3) b(2)] by simp_all
  have d: "all_ids (chunk_clear_batch S3) = base_ids S3" "online (chunk_clear_batch S3)"
    using c(2) by (simp_all add: chunk_clear_batch_def all_ids_def base_ids_def online_def)
  show ?thesis using chunk_schedule_ids[OF p(4) d(2)] a b c d by (simp add: add.commute)
qed

section \<open>Running requests come first\<close>

text \<open>Nothing runs any more; the requests \<open>ys\<close> have joined the batch from the waiting queues.\<close>

definition admitted :: "nat option list \<Rightarrow> nat set \<Rightarrow> 'p sched \<Rightarrow> bool" where
  "admitted rr W S \<longleftrightarrow> online S \<and> running_queue S = [] \<and> set (waiting_queue S) \<subseteq> W \<and> set (waiting_queue_offline S) \<subseteq> W \<and>
     (\<exists>ys. running_requests S = rr @ map Some ys \<and> set ys \<subseteq> W)"

lemma keeps_admitted: "keeps S S' \<Longrightarrow> admitted rr W S' = admitted rr W S"
  using keeps_online by (auto simp: admitted_def keeps_def places_def)

lemma admitted_sel [simp]:
  "admitted rr W (S\<lparr>completed := x\<rparr>) = admitted rr W S" "admitted rr W (S\<lparr>failed := y\<rparr>) = admitted rr W S"
  by (simp_all add: admitted_def)

lemma admitted_take:
  assumes "admitted rr W S"
  shows "admitted rr W (set_wait_q off (remove1 r (wait_q off S)) S)"
  using assms by (auto simp: admitted_def set_wait_q_def wait_q_def online_def dest: set_remove1_subset[THEN subsetD])

lemma admitted_schedule:
  assumes "admitted rr W S" "r \<in> W"
  shows "admitted rr W (schedule r ps bs S)"
proof -
  obtain ys where y: "running_requests S = rr @ map Some ys" "set ys \<subseteq> W" using assms(1) by (auto simp: admitted_def)
  have "running_requests (schedule r ps bs S) = rr @ map Some (ys @ [r])" "set (ys @ [r]) \<subseteq> W"
    using y assms(2) by (simp_all add: schedule_def)
  moreover have "online (schedule r ps bs S)" using assms(1) by (simp add: admitted_def)
  ultimately show ?thesis using assms(1) unfolding admitted_def
    by (intro conjI exI[of _ "ys @ [r]"]) (simp_all add: schedule_def)
qed

interpretation admits: chunk_invariant C X A K "\<lambda>cx S. admitted rr W S"
  for C :: sched_options and X :: chunk_options and A :: "'p shared_op" and K :: "'p kv_ops" and rr :: "nat option list" and W :: "nat set"
proof
  show "flow_sat (\<lambda>cx S. admitted rr W S) f"
    if "chunk_running_round C X A K off cx S = Inr f" "admitted rr W S" "run_q off S \<noteq> []" for off cx S f
    using that(2,3) by (auto simp: admitted_def run_q_def online_def split: if_splits)
  show "flow_sat (\<lambda>cx S. admitted rr W S) f"
    if "chunk_prefill_round C X A K off cx S = Inr f" "admitted rr W S" "wait_q off S \<noteq> []" for off cx S f
  proof -
    have o: "online S" using that(2) by (simp add: admitted_def)
    have r: "pq_top C (sc_reqs S) (wait_q off S) \<in> W"
      using pq_top_in[OF that(3)] that(2) by (auto simp: admitted_def wait_q_def split: if_splits)
    from that(1) show ?thesis
    proof (cases rule: chunk_prefill_round_cases)
      case (finished r S2)
      have "admitted rr W S2" using keeps_admitted[OF heap_step_keeps[OF finished(2)]] that(2) by blast
      then show ?thesis using admitted_take[of rr W "S2\<lparr>completed := completed S2 @ [r]\<rparr>" off r] by (simp add: finished(3))
    next
      case (sched r at as ps bs S2)
      have "admitted rr W S2" using keeps_admitted[OF evicted_keeps[OF sched(2) o]] that(2) by blast
      then show ?thesis using admitted_schedule[OF admitted_take] r by (simp add: sched(1,6))
    next
      case (full v S2)
      then show ?thesis using keeps_admitted[OF evicted_keeps[OF full(1) o]] that(2) by simp
    qed
  qed
  show "admitted rr W S'" if "give_up_waiting C K off v S = Inr S'" "admitted rr W S" for off v S S'
  proof (cases "running_sequences S = [] \<and> wait_q off S \<noteq> [] \<and> running_queue S = []")
    case False
    then show ?thesis using that by (auto simp: give_up_waiting_def)
  next
    case True
    let ?r = "pq_top C (sc_reqs S) (wait_q off S)"
    note g = that(1)
    obtain S1 where S1: "dealloc_request K ?r (set_wait_q off (remove1 ?r (wait_q off S)) S) = Inr S1" "S' = S1\<lparr>failed := failed S1 @ [?r]\<rparr>"
      using g True by (auto simp: give_up_waiting_def Let_def split: if_splits)
    show ?thesis
      using keeps_admitted[OF heap_step_keeps[OF dealloc_request_step[OF S1(1)]]] admitted_take[OF that(2)] by (simp add: S1(2))
  qed
qed

lemma prefill_stage_idle:
  assumes "exhausted cx \<or> running_queue S \<noteq> [] \<and> (cx_tokens cx = 0 \<or> cx_seqs cx = 0)"
  shows "\<exists>b. chunk_prefill_stage C X A K off cx S = Inr (cx\<lparr>cx_latency_ok := b\<rparr>, S)"
proof (cases "exhausted cx")
  case True
  then show ?thesis by (intro exI[of _ "cx_latency_ok cx"]) (simp add: chunk_prefill_stage_def exhausted_def)
next
  case False
  let ?cx = "if running_sequences S = [] then cx\<lparr>cx_latency_ok := unlimited_latency_ok X\<rparr> else cx"
  have "chunk_prefill_loop C X A K off ?cx S = Inr (?cx, S)"
    using assms False by (subst chunk_prefill_loop.simps) auto
  moreover have "give_up_waiting C K off v S = Inr S" for v using assms False by (simp add: give_up_waiting_def)
  ultimately have "chunk_prefill_stage C X A K off cx S = Inr (?cx, S)"
    using False by (simp add: chunk_prefill_stage_def chunk_handle_prefill_requests_def exhausted_def Let_def del: bindE_eq_Inr)
  then show ?thesis by (intro exI[of _ "cx_latency_ok ?cx"]) simp
qed

lemma chunk_fill_order:
  assumes "chunk_fill C X A K S = Inr (cx', S')" "online S" "num_speculative_tokens C = 0" "tpot_latency_ok X"
  shows "\<exists>xs fs zs ys. running_queue S = xs @ fs @ running_queue S' @ zs \<and>
    running_requests S' = running_requests S @ map Some (xs @ ys) \<and>
    set ys \<subseteq> set (waiting_queue S) \<union> set (waiting_queue_offline S) \<union> set zs \<and>
    (ys \<noteq> [] \<longrightarrow> fs = [] \<and> running_queue S' = [])"
proof -
  let ?c0 = "chunk_ctx_init C X"
  obtain cx1 S1 where l: "handle_running_queue_requests C X A K False ?c0 S = Inr (cx1, S1)"
    using assms(1) by (auto simp: chunk_fill_def)
  have i: "\<not> exhausted ?c0" "cx_latency_ok ?c0" "min_speculative_tokens_required C = 0"
    using assms(3,4) by (simp_all add: chunk_ctx_init_def exhausted_def min_speculative_tokens_required_def)
  obtain xs fs zs where s: "served S S1 xs fs zs" and e: "\<not> exhausted cx1 \<longrightarrow> fs = [] \<and> (running_queue S1 = [] \<or> cx_tokens cx1 = 0 \<or> cx_seqs cx1 = 0)"
    using running_queue_served[OF l assms(2) i(1)] i(2,3) by auto
  have o: "online S1" using s by (rule served_online)
  show ?thesis
  proof (cases "exhausted cx1 \<or> running_queue S1 \<noteq> []")
    case True
    then have idle: "exhausted (cx1\<lparr>cx_latency_ok := b\<rparr>) \<or> running_queue S1 \<noteq> [] \<and> (cx_tokens cx1 = 0 \<or> cx_seqs cx1 = 0)" for b
      using e by (auto simp: exhausted_def)
    obtain b where b: "chunk_prefill_stage C X A K False cx1 S1 = Inr (cx1\<lparr>cx_latency_ok := b\<rparr>, S1)"
      using prefill_stage_idle[of cx1 S1 C X A K False] idle[of "cx_latency_ok cx1"] by auto
    obtain c where c: "chunk_prefill_stage C X A K True (cx1\<lparr>cx_latency_ok := b\<rparr>) S1 = Inr (cx1\<lparr>cx_latency_ok := c\<rparr>, S1)"
      using prefill_stage_idle[of "cx1\<lparr>cx_latency_ok := b\<rparr>" S1 C X A K True] idle[of b] by auto
    have "S' = S1" using assms(1) l b c running_offline_idle[OF o] by (auto simp: chunk_fill_def split: if_splits)
    then show ?thesis using s by (intro exI[of _ xs] exI[of _ fs] exI[of _ zs] exI[of _ "[]"]) (simp add: served_def)
  next
    case False
    let ?W = "set (waiting_queue S) \<union> set (waiting_queue_offline S) \<union> set zs"
    have f: "fs = []" "running_queue S = xs @ zs" "running_requests S1 = running_requests S @ map Some xs"
      using False e s by (auto simp: served_def)
    have a1: "admitted (running_requests S @ map Some xs) ?W S1"
      using False o s f(3) by (auto simp: admitted_def served_def)
    obtain cx2 S2 where p: "chunk_prefill_stage C X A K False cx1 S1 = Inr (cx2, S2)"
      using assms(1) l by (auto simp: chunk_fill_def)
    have a2: "admitted (running_requests S @ map Some xs) ?W S2" using admits.prefill_stage[OF p a1] .
    then have "online S2" by (simp add: admitted_def)
    then have q: "chunk_prefill_stage C X A K True cx2 S2 = Inr (cx', S')"
      using assms(1) l p running_offline_idle[OF \<open>online S2\<close>] by (auto simp: chunk_fill_def split: if_splits)
    obtain ys where "running_requests S' = (running_requests S @ map Some xs) @ map Some ys" "set ys \<subseteq> ?W" "running_queue S' = []"
      using admits.prefill_stage[OF q a2] by (auto simp: admitted_def)
    then show ?thesis using f(1,2) by (intro exI[of _ xs] exI[of _ "[]"] exI[of _ zs] exI[of _ ys]) simp
  qed
qed

end
