(* ===== verification/Cache_Properties.thy ===== *)
theory Cache_Properties
  imports Block_Usage Embedding_Manager KV_State
begin

text \<open>
  The properties of block handles, the prefix cache, the block manager, the embedding ids and
  the KV state of a sequence, each with a concrete instance. The lemmas behind them are in
  the theories of the components.
\<close>

section \<open>Concrete data for the examples\<close>

definition demo_lib :: hash_lib where
  "demo_lib = \<lparr>xxh = (\<lambda>bs. take 16 (rev bs @ replicate 16 0)), svh = (\<lambda>_. 0)\<rparr>"

lemma demo_lib_ok: "hash_lib_ok demo_lib"
  by (auto simp: hash_lib_ok_def demo_lib_def XXH3_128BITS_HASH_VALUE_LEN_def min_def)

text \<open>A fresh manager of four blocks of two tokens, and two blocks allocated from it.\<close>

lemma demo_manager:
  "\<exists>B. bman_new 4 2 True = Inr B \<and> bm_inv demo_lib B {#} \<and> num_free_blocks (bm_arena B) = 3 \<and>
    num_used_blocks B = 0 \<and> arena_block_size (bm_arena B) = 2 \<and> prefix_cache B = Some (pcache_new 2)"
  using bman_new_inv[of 4 2 True demo_lib] by (auto simp: bman_new_def Let_def)

lemma demo_blocks:
  "\<exists>B bs B'. bman_new 4 2 True = Inr B \<and> bm_allocate demo_lib 2 B = Inr (bs, B') \<and> length bs = 2 \<and>
    bm_inv demo_lib B' (tokens_of bs) \<and> list_all owned bs \<and> distinct (map bid bs) \<and> 0 \<notin> bid ` set bs \<and>
    (\<forall>b \<in> set bs. bsize b = 2) \<and> num_used_blocks B' = 2 \<and> prefix_cache B' = Some (pcache_new 2) \<and>
    num_free_blocks (bm_arena B') = 1 \<and> list_all (cacheable (tokens_of bs)) bs"
proof -
  obtain B where B: "bman_new 4 2 True = Inr B" "bm_inv demo_lib B {#}" "num_free_blocks (bm_arena B) = 3"
    "num_used_blocks B = 0" "arena_block_size (bm_arena B) = 2" "prefix_cache B = Some (pcache_new 2)"
    using demo_manager by blast
  show ?thesis
    using bm_allocate_free[OF B(2), of 2] B
    by (auto simp: list_all_iff cacheable_def tokens_of_def)
qed

lemma demo_valid:
  assumes "bm_inv H B (tokens_of bs)" "list_all owned bs"
  shows "list_all block_is_valid bs"
proof -
  have "bid b \<ge> 0" if "b \<in> set bs" for b
  proof -
    have "token_of b \<in># add_mset (token_of (padding_block B)) (tokens_of bs) + cached_tokens B"
      using that by (simp add: tokens_of_def)
    then have "snd (token_of b) \<in> int ` {0..<length (free_blocks (bm_arena B))}"
      using arena_invD(8)[OF bm_inv_arena[OF assms(1)]] by (metis UnI2 image_eqI insertI2)
    then show ?thesis by auto
  qed
  then show ?thesis using assms(2) by (auto simp: list_all_iff block_is_valid_def owned_def)
qed

section \<open>Blocks and the prefix cache\<close>

text \<open>C1: destroying one handle of a block never fails, keeps the ownership invariant for the
  remaining handles, and returns the block to the free stack exactly when it was the last
  handle of a block other than the padding block.\<close>

theorem block_destroy_correct:
  assumes "arena_inv A (add_mset (token_of b) T)" "owned b"
  shows "\<exists>A'. block_destroy b A = Inr A' \<and> arena_inv A' T \<and>
    num_free_blocks A' = num_free_blocks A +
      (if handles_at (fst (token_of b)) T = 0 \<and> bid b \<noteq> 0 then 1 else 0)"
  using block_destroy_inv[OF assms] by auto

theorem block_destroy_correct_witness:
  "\<exists>b A A'. bm_allocate_one (init_arena 3 16) = Inr (b, A) \<and> block_destroy b A = Inr A' \<and> arena_inv A' {#} \<and>
    num_free_blocks A' = 2"
proof -
  obtain b A where a: "bm_allocate_one (init_arena 3 16) = Inr (b, A)" "arena_inv A {#token_of b#}" "owned b"
    "bid b = 0" "num_free_blocks A = 2"
    using init_arena_inv[of 3 16] by auto
  show ?thesis using block_destroy_correct[OF a(2,3)] a by auto
qed





text \<open>C4: what \<open>PrefixCache::insert\<close> stores, \<open>PrefixCache::match\<close> finds: after inserting the blocks of
  a token list, matching the same tokens returns one block for every full block of tokens;
  if none of its keys was cached before and the keys differ, it returns the very blocks
  inserted.\<close>

theorem insert_match_roundtrip:
  fixes P :: pcache
  defines "bs \<equiv> pc_block_size P"
  assumes "cache_inv H A P [] T" "hash_lib_ok H" "size_ok bs" "list_all (cacheable T) blocks"
    and "length ts div bs \<le> length blocks" "bs \<le> length ts"
  shows "\<exists>n blocks' ks A1 P1 found A2 P2. pc_insert H now ts blocks 0 A P = Inr (n, blocks', ks, A1, P1) \<and>
    pc_match H ts [] A1 P1 = Inr (found, A2, P2) \<and> length found = length ts div bs \<and>
    (distinct (map (key_class (svh H)) (match_keys H P ts [])) \<and>
       (\<forall>k \<in> set (match_keys H P ts []). find_key H k P = None) \<longrightarrow>
     map token_of found = map token_of (take (length ts div bs) blocks))"
proof -
  obtain n blocks' ks A1 P1 where i: "pc_insert H now ts blocks 0 A P = Inr (n, blocks', ks, A1, P1)"
    "cache_inv H A1 P1 [] T" "view P1 = put_all H (keyed (insert_keys_of H P ts blocks 0) blocks) (view P)"
    "pc_block_size P1 = bs"
    using pc_insert_correct[OF assms(2,3), of blocks 0 ts now] assms(4,5) unfolding bs_def by auto
  obtain A2 P2 where m: "pc_match H ts [] A1 P1 = Inr (hits H P1 (match_keys H P1 ts []), A2, P2)"
    using pc_match_correct[OF i(2), of "[]" ts] assms(4,7) i(4) by auto
  note h = insert_hits[OF _ _ i(3), of]
  have keys: "insert_keys_of H P ts blocks 0 = match_keys H P ts []"
    using assms(6) unfolding bs_def by (intro insert_keys_match_keys) simp_all
  have len: "length (hits H P1 (match_keys H P1 ts [])) = length ts div bs"
    using h(1) assms(4,6) i(4) unfolding bs_def by simp
  have tok: "map token_of (hits H P1 (match_keys H P1 ts [])) = map token_of (take (length ts div bs) blocks)"
    if "distinct (map (key_class (svh H)) (match_keys H P ts []))" "\<forall>k \<in> set (match_keys H P ts []). find_key H k P = None"
  proof -
    have "hits H P1 (match_keys H P1 ts []) = map2 set_hash_value (match_keys H P ts []) (take (length ts div bs) blocks)"
      using h(2) assms(4,6) i(4) that unfolding bs_def keys by simp
    moreover have "length (match_keys H P ts []) = length ts div bs"
      using length_match_keys assms(4) unfolding bs_def by simp
    ultimately show ?thesis using assms(6) by (auto intro: nth_equalityI)
  qed
  show ?thesis using i(1) m len tok by blast
qed

theorem insert_match_roundtrip_witness:
  "\<exists>B bs B' n blocks' ks A1 P1 found A2 P2. bman_new 4 2 True = Inr B \<and> bm_allocate demo_lib 2 B = Inr (bs, B') \<and>
    pc_insert demo_lib 0 [1, 2, 3, 4, 5] bs 0 (bm_arena B') (cache_part B') = Inr (n, blocks', ks, A1, P1) \<and>
    pc_match demo_lib [1, 2, 3, 4, 5] [] A1 P1 = Inr (found, A2, P2) \<and> length found = 2"
proof -
  obtain B bs B' where b: "bman_new 4 2 True = Inr B" "bm_allocate demo_lib 2 B = Inr (bs, B')" "length bs = 2"
    "bm_inv demo_lib B' (tokens_of bs)" "prefix_cache B' = Some (pcache_new 2)" "list_all (cacheable (tokens_of bs)) bs"
    using demo_blocks by blast
  have ca: "list_all (cacheable (add_mset (token_of (padding_block B')) (tokens_of bs))) bs"
    using b(6) by (auto simp: list_all_iff cacheable_def)
  have ci: "cache_inv demo_lib (bm_arena B') (cache_part B') [] (add_mset (token_of (padding_block B')) (tokens_of bs))"
    using b(4) by (simp add: bm_inv_def)
  have sz: "pc_block_size (cache_part B') = 2" using b(5) by (simp add: pcache_new_def)
  show ?thesis
    using insert_match_roundtrip[OF ci demo_lib_ok _ ca, of "[1, 2, 3, 4, 5]" 0] b(1,2,3) sz
    by (auto simp: size_ok_def)
qed

text \<open>C5: \<open>PrefixCache::evict\<close> never fails; it removes the least recently used blocks no client
  holds, at most as many as asked and exactly those keys, and frees them; a block a client
  still holds stays cached.\<close>

theorem evict_least_recent:
  assumes "cache_inv H A P [] T"
  shows "\<exists>A' P'. pc_evict H n A P =
      Inr (length (victims n A P), map (\<lambda>p. bhash (node_block P p)) (victims n A P), A', P') \<and>
    cache_inv H A' P' [] T \<and> num_free_blocks A' = num_free_blocks A + length (victims n A P) \<and>
    lru P' = filter (\<lambda>p. p \<notin> set (victims n A P)) (lru P) \<and>
    view P' = without_keys (node_keys H P (victims n A P)) (view P)"
  using pc_evict_correct[OF assms, of n] by blast

theorem evict_least_recent_witness:
  "\<exists>b A A' P'. bm_allocate_one (init_arena 3 2) = Inr (b, A) \<and>
    pc_evict demo_lib 1 A (pcache_new 2) = Inr (0, [], A', P') \<and> num_free_blocks A' = 2"
proof -
  obtain b A where a: "bm_allocate_one (init_arena 3 2) = Inr (b, A)" "arena_inv A {#token_of b#}" "num_free_blocks A = 2"
    using init_arena_inv[of 3 2] by auto
  have ci: "cache_inv demo_lib A (pcache_new 2) [] {#token_of b#}"
    using a(2) by (simp add: cache_inv_def pcache_new_inv)
  show ?thesis using evict_least_recent[OF ci, of 1] a by (auto simp: victims_def)
qed

text \<open>C6: the pointer operations on the intrusive lists implement the LRU order of the model: taking
  nodes out of the LRU list (or adding new ones) into a local list and appending that list
  at the end leaves the untouched nodes in order, followed by the taken ones in reverse
  order, both lists well-linked; the draining loop ends within as many rounds as nodes taken.\<close>

theorem lru_list_refinement:
  assumes "lists_rep l m h xs []" "distinct xs" "distinct ps" "set ps \<inter> sentinels l m = {}"
  shows "\<exists>h'. drain (length ps) l m (take_nodes (collect_node m) xs ps h) = Some h' \<and>
    lists_rep l m h' (filter (\<lambda>x. x \<notin> set ps) xs @ rev ps) []"
  using dnode.take_then_append[OF assms(1) refl assms(4,2)] take_all_distinct[OF assms(3,2), of "[]"] by simp

theorem lru_list_refinement_witness:
  "\<exists>h h'. lists_rep \<lparr>lst_front = 0, lst_back = 1\<rparr> \<lparr>lst_front = 2, lst_back = 3\<rparr> h [] [] \<and>
    drain 2 \<lparr>lst_front = 0, lst_back = 1\<rparr> \<lparr>lst_front = 2, lst_back = 3\<rparr>
      (take_nodes (collect_node \<lparr>lst_front = 2, lst_back = 3\<rparr>) [] [7, 8] h) = Some h' \<and>
    lists_rep \<lparr>lst_front = 0, lst_back = 1\<rparr> \<lparr>lst_front = 2, lst_back = 3\<rparr> h' [8, 7] []"
proof -
  let ?l = "\<lparr>lst_front = 0, lst_back = 1\<rparr>" and ?m = "\<lparr>lst_front = 2, lst_back = 3\<rparr>"
  let ?h = "dlist_init ?m (dlist_init ?l \<lparr>nxt = (\<lambda>_. 0), prv = (\<lambda>_. 0)\<rparr>)"
  have r: "lists_rep ?l ?m ?h [] []"
    by (simp add: lists_rep_def dl_def sep_def cells_of_def dlist_init_def)
  obtain h' where h': "drain (length [7, 8 :: nat]) ?l ?m (take_nodes (collect_node ?m) [] [7, 8] ?h) = Some h'"
    "lists_rep ?l ?m h' (filter (\<lambda>x. x \<notin> set [7, 8]) [] @ rev [7, 8]) []"
    using lru_list_refinement[OF r, of "[7, 8]"] by (auto simp: sentinels_def)
  then show ?thesis using r by (intro exI[of _ ?h] exI[of _ h']) (simp add: numeral_2_eq_2)
qed

section \<open>The block manager\<close>

text \<open>C7: \<open>BlockManagerImpl::allocate\<close> never fails under its invariant: it returns \<open>n\<close> blocks exactly
  when the free blocks and the evictable cached blocks suffice, and none otherwise; the
  blocks are distinct, none is the padding block or held by another client, and the counter
  grows by their number.\<close>

theorem manager_allocate:
  assumes "bm_inv H B T" "n < 2 ^ 32"
  shows "\<exists>bs B'. bm_allocate H n B = Inr (bs, B') \<and> bm_inv H B' (tokens_of bs + T) \<and>
    length bs = (if n \<le> num_free_blocks (bm_arena B) + evictable B then n else 0) \<and> list_all owned bs \<and>
    distinct (map bid bs) \<and> bid ` set bs \<inter> insert 0 (snd ` set_mset T) = {} \<and>
    num_used_blocks B' = num_used_blocks B + length bs"
proof (cases "n \<le> num_free_blocks (bm_arena B) + evictable B")
  case True
  then show ?thesis using bm_allocate_ok[OF assms] by auto
next
  case False
  then show ?thesis using bm_allocate_none[OF assms] by force
qed

theorem manager_allocate_witness:
  "\<exists>B bs B'. bman_new 4 2 True = Inr B \<and> bm_allocate demo_lib 5 B = Inr (bs, B') \<and> bs = [] \<and> num_used_blocks B' = 0"
proof -
  obtain B where B: "bman_new 4 2 True = Inr B" "bm_inv demo_lib B {#}" "num_free_blocks (bm_arena B) = 3"
    "num_used_blocks B = 0" "prefix_cache B = Some (pcache_new 2)"
    using demo_manager by blast
  have "evictable B = 0" using B(5) by (simp add: evictable_def)
  then show ?thesis using manager_allocate[OF B(2), of 5] B by auto
qed



text \<open>\<open>BlockManagerImpl::allocate_shared\<close> counts each matched block that was in use by nobody: the
  counter of used blocks stays equal to the number of distinct blocks in use.\<close>

theorem manager_share_counts:
  assumes "bm_inv H B T" "sharing_ok B T" "used_exact B T" "prefix_cache B = Some P"
    and "size_ok (pc_block_size P)" "pc_block_size P \<le> length ts"
    and "distinct (map token_of (hits H P (match_keys H P ts [])))"
  shows "\<exists>found B'. bm_allocate_shared H ts [] B = Inr (found, B') \<and> found = hits H P (match_keys H P ts []) \<and>
    bm_inv H B' (tokens_of found + T) \<and> sharing_ok B' (tokens_of found + T) \<and> used_exact B' (tokens_of found + T)"
  using bm_allocate_shared_exact[OF assms] by blast

theorem manager_share_counts_witness:
  "\<exists>B found B'. bman_new 4 2 True = Inr B \<and> bm_allocate_shared demo_lib [1, 2, 3] [] B = Inr (found, B') \<and>
    found = [] \<and> num_used_blocks B' = 0"
proof -
  obtain B where B: "bman_new 4 2 True = Inr B" "bm_inv demo_lib B {#}" "num_used_blocks B = 0"
    "prefix_cache B = Some (pcache_new 2)"
    using demo_manager by blast
  have h: "hits demo_lib (pcache_new 2) ks = []" for ks
    by (induction ks) (simp_all add: hits_def find_key_def pcache_new_def)
  have s: "sharing_ok B {#}" "used_exact B {#}" using B(3,4) by (simp_all add: sharing_ok_def used_exact_def)
  show ?thesis
    using manager_share_counts[OF B(2) s B(4), of "[1, 2, 3]"] h B(1) by (auto simp: size_ok_def used_exact_def pcache_new_def)
qed

text \<open>The check in \<open>~BlockManagerImpl\<close> passes exactly when no client holds a block other than the
  padding block and the prefix cache is empty: destroying a manager whose cache holds a
  block aborts.\<close>

theorem destructor_needs_empty_cache:
  assumes "bm_inv H B T"
  shows "bm_destructor_check B = (if (\<forall>t \<in># T. snd t = 0) \<and> lru (cache_part B) = [] then Inr () else Inl Check_failed)"
  using destructor_check_iff[OF assms] by (auto simp: bm_destructor_check_def check_def split: if_splits)

theorem destructor_needs_empty_cache_witness:
  "\<exists>B bs B'. bman_new 4 2 True = Inr B \<and> bm_destructor_check B = Inr () \<and>
    bm_allocate demo_lib 2 B = Inr (bs, B') \<and> bm_destructor_check B' = Inl Check_failed"
proof -
  obtain B bs B' where b: "bman_new 4 2 True = Inr B" "bm_allocate demo_lib 2 B = Inr (bs, B')" "length bs = 2"
    "bm_inv demo_lib B' (tokens_of bs)" "0 \<notin> bid ` set bs"
    using demo_blocks by blast
  obtain B0 where B0: "bman_new 4 2 True = Inr B0" "bm_inv demo_lib B0 {#}" "prefix_cache B0 = Some (pcache_new 2)"
    using demo_manager by blast
  have "\<not> (\<forall>t \<in># tokens_of bs. snd t = 0)" using b(3,5) by (cases bs) (auto simp: tokens_of_def)
  then show ?thesis
    using destructor_needs_empty_cache[OF b(4)] destructor_needs_empty_cache[OF B0(2)] b(1,2) B0 by auto
qed

section \<open>Embedding ids and the KV state of a sequence\<close>

text \<open>\<open>EmbeddingManager::allocate\<close> hands out distinct ids not in use, and freeing one of them makes
  exactly that id available again; freeing it twice aborts.\<close>

theorem embedding_ids_roundtrip:
  assumes "em_inv E" "n \<le> em_num_free E"
  shows "\<exists>is E1. em_allocate n E = Inr (map int is, E1) \<and> length is = n \<and> distinct is \<and> em_inv E1 \<and>
    set is \<inter> em_used_ids E = {} \<and> em_used_ids E1 = set is \<union> em_used_ids E \<and>
    (\<forall>i \<in> set is. \<exists>E2. em_free (int i) E1 = Inr E2 \<and> em_inv E2 \<and> em_used_ids E2 = em_used_ids E1 - {i} \<and>
       em_num_free E2 = em_num_free E - n + 1 \<and> em_free (int i) E2 = Inl Check_failed)"
proof -
  obtain "is" E1 where a: "em_allocate n E = Inr (map int is, E1)" "length is = n" "distinct is" "em_inv E1"
    "set is \<inter> em_used_ids E = {}" "em_used_ids E1 = set is \<union> em_used_ids E" "em_num_free E1 = em_num_free E - n"
    using em_allocate_correct[OF assms] by blast
  have "\<exists>E2. em_free (int i) E1 = Inr E2 \<and> em_inv E2 \<and> em_used_ids E2 = em_used_ids E1 - {i} \<and>
       em_num_free E2 = em_num_free E - n + 1 \<and> em_free (int i) E2 = Inl Check_failed" if i: "i \<in> set is" for i
  proof -
    have u: "i \<in> em_used_ids E1" using i a(6) by simp
    then obtain E2 where f: "em_free (int i) E1 = Inr E2" "em_inv E2" "em_used_ids E2 = em_used_ids E1 - {i}"
      "em_num_free E2 = em_num_free E1 + 1"
      using em_free_correct[OF a(4)] by blast
    have "length (em_in_use E2) = length (em_in_use E1)" using f(1) by (auto simp: em_free_def Let_def split: if_splits)
    moreover have "i < length (em_in_use E1)" using u by (simp add: em_used_ids_def)
    moreover have "i \<notin> em_used_ids E2" using f(3) by simp
    ultimately have "em_free (int i) E2 = Inl Check_failed" using em_free_twice[OF f(2)] by simp
    then show ?thesis using f a(7) by auto
  qed
  then show ?thesis using a by blast
qed

theorem embedding_ids_roundtrip_witness:
  "\<exists>is E1. em_allocate 2 (eman_new 3) = Inr (map int is, E1) \<and> length is = 2 \<and> distinct is"
  using embedding_ids_roundtrip[OF eman_new_inv, of 2 3] by (auto simp: eman_new_def)

text \<open>C9: \<open>KVCacheState::add_shared_kv_blocks\<close> on more matched blocks than the sequence has: the sequence
  gives its own blocks back and adopts the matched ones, all but the last one when they
  cover the whole prompt, so that at least one token is left to compute; every handle is
  accounted for.\<close>

theorem adopt_matched_blocks:
  assumes "arena_inv A (tokens_of blocks + (kv_tokens K + T))" "kv_owned K" "list_all owned blocks"
    and "length (kv_blocks K) < length blocks" "0 < bsize (hd blocks)" "length blocks * bsize (hd blocks) \<le> tot"
  shows "\<exists>A' K' n. add_shared_kv_blocks blocks tot A K = Inr (A', K') \<and>
    n = (if length blocks * bsize (hd blocks) = tot then length blocks - 1 else length blocks) \<and>
    arena_inv A' (kv_tokens K' + T) \<and> kv_owned K' \<and> kv_blocks K' = take n blocks \<and> num_owned_shared_blocks K' = n \<and>
    kv_cache_tokens_num K' = n * bsize (hd blocks) \<and> kv_cache_tokens_num K' < tot"
  using add_shared_grow[OF assms] unfolding shared_len_def by blast

theorem adopt_matched_blocks_witness:
  "\<exists>B bs B' A' K'. bman_new 4 2 True = Inr B \<and> bm_allocate demo_lib 2 B = Inr (bs, B') \<and>
    add_shared_kv_blocks bs 4 (bm_arena B') kv_state_new = Inr (A', K') \<and> kv_blocks K' = take 1 bs \<and>
    kv_cache_tokens_num K' = 2"
proof -
  obtain B bs B' where b: "bman_new 4 2 True = Inr B" "bm_allocate demo_lib 2 B = Inr (bs, B')" "length bs = 2"
    "bm_inv demo_lib B' (tokens_of bs)" "list_all owned bs" "\<forall>b \<in> set bs. bsize b = 2"
    using demo_blocks by blast
  have hd: "bsize (hd bs) = 2" using b(3,6) by (cases bs) auto
  have ai: "arena_inv (bm_arena B') (tokens_of bs + (kv_tokens kv_state_new + ({#token_of (padding_block B')#} + cached_tokens B')))"
    using bm_inv_arena[OF b(4)] by (simp add: kv_tokens_def kv_state_new_def add_ac)
  show ?thesis
    using adopt_matched_blocks[OF ai _ b(5), of 4] b(1,2,3) hd by (auto simp: kv_owned_def kv_state_new_def)
qed

text \<open>\<open>KVCacheState::kv_cache_slots\<close> gives every token position of a sequence its own slot: position
  \<open>i\<close> lies in block \<open>i / block_size\<close> at offset \<open>i mod block_size\<close>, two positions never share a
  slot, and no slot overflows 32 bits when the blocks fit.\<close>

theorem slots_distinct:
  fixes K :: kv_state
  defines "sz \<equiv> bsize (hd (kv_blocks K))"
  assumes "kv_blocks K \<noteq> []" "slots_fit (kv_blocks K) sz" "0 < sz" "distinct (map bid (kv_blocks K))"
    and "s \<le> e" "e \<le> current_max_tokens_capacity K" "int e \<le> 2 ^ 31"
  shows "\<exists>ss. kv_cache_slots (int s) (int e) K = Inr ss \<and> length ss = e - s \<and> distinct ss \<and>
    (\<forall>i < e - s. ss ! i = bid (kv_blocks K ! ((s + i) div sz)) * int sz + int ((s + i) mod sz)) \<and>
    (\<forall>x \<in> set ss. 0 \<le> x \<and> x < 2 ^ 31)"
proof -
  let ?f = "\<lambda>i. bid (kv_blocks K ! (i div sz)) * int sz + int (i mod sz)"
  let ?n = "length (kv_blocks K) * sz"
  have eq: "kv_cache_slots (int s) (int e) K = Inr (map ?f [s..<e])"
    using kv_cache_slots_eq[of K s e] assms unfolding sz_def by blast
  have en: "e \<le> ?n" using assms(2,7) by (simp add: current_max_tokens_capacity_def sz_def)
  have "inj_on ?f (set [s..<e])"
  proof (rule inj_onI)
    fix i j assume "i \<in> set [s..<e]" "j \<in> set [s..<e]" "?f i = ?f j"
    then show "i = j" using slot_inj[OF assms(5,4), of i j] en by simp
  qed
  moreover have "0 \<le> ?f i \<and> ?f i < 2 ^ 31" if "i < e" for i
  proof -
    have "i div sz < length (kv_blocks K)" using that en assms(4) by (simp add: div_less_iff_less_mult)
    then have f: "0 \<le> bid (kv_blocks K ! (i div sz))" "(bid (kv_blocks K ! (i div sz)) + 1) * int sz \<le> 2 ^ 31"
      using assms(3) by (simp_all add: slots_fit_def)
    have "int (i mod sz) < int sz" using assms(4) by simp
    moreover have "(bid (kv_blocks K ! (i div sz)) + 1) * int sz = bid (kv_blocks K ! (i div sz)) * int sz + int sz"
      by (simp add: algebra_simps)
    ultimately have "?f i < 2 ^ 31" using f(2) by linarith
    then show ?thesis using f(1) by simp
  qed
  ultimately show ?thesis using eq by (intro exI[of _ "map ?f [s..<e]"]) (auto simp: distinct_map)
qed

definition demo_kv :: kv_state where
  "demo_kv = kv_state_new\<lparr>kv_blocks :=
     [\<lparr>bid = 5, bsize = 4, bref = Some 0, bmgr = True, bhash = uninit_hash\<rparr>,
      \<lparr>bid = 2, bsize = 4, bref = Some 1, bmgr = True, bhash = uninit_hash\<rparr>]\<rparr>"

theorem slots_distinct_witness:
  "\<exists>ss. kv_cache_slots 3 6 demo_kv = Inr ss \<and> length ss = 3 \<and> distinct ss \<and> ss ! 0 = 23 \<and> ss ! 1 = 8"
proof -
  have "slots_fit (kv_blocks demo_kv) (bsize (hd (kv_blocks demo_kv)))"
    by (simp add: slots_fit_def demo_kv_def)
  then obtain ss where "kv_cache_slots (int 3) (int 6) demo_kv = Inr ss" "length ss = 6 - 3" "distinct ss"
    "\<forall>i < 6 - 3. ss ! i = bid (kv_blocks demo_kv ! ((3 + i) div 4)) * int 4 + int ((3 + i) mod 4)"
    using slots_distinct[of demo_kv 3 6] by (auto simp: demo_kv_def current_max_tokens_capacity_def)
  then show ?thesis by (auto simp: demo_kv_def)
qed

section \<open>Keys\<close>

text \<open>The two notions of equality of keys. The functor \<open>FixedStringKeyEqual\<close> compares with
  \<open>strncmp\<close>: it is equality on keys without zero bytes, and on all keys it only compares the
  bytes before the first zero. \<open>XXH3Key::operator==\<close> is true exactly for keys that differ.\<close>

theorem key_equalities:
  assumes "valid_key a" "valid_key b"
  shows "(FixedStringKeyEqual a b \<longleftrightarrow> takeWhile (\<lambda>c. c \<noteq> 0) a = takeWhile (\<lambda>c. c \<noteq> 0) b) \<and>
    (0 \<notin> set a \<and> 0 \<notin> set b \<longrightarrow> (FixedStringKeyEqual a b \<longleftrightarrow> a = b)) \<and> (xxh3_key_eq_op a b \<longleftrightarrow> a \<noteq> b)"
  using assms FixedStringKeyEqual_nonzero[of a b]
  by (auto simp: FixedStringKeyEqual_def xxh3_key_eq_op_def valid_key_def strncmp_eq_0 memcmp_eq_0)

theorem key_equalities_witness:
  "FixedStringKeyEqual (0 # replicate 15 1) (0 # replicate 15 2) \<and> xxh3_key_eq_op (replicate 16 1) (replicate 16 2)"
  using key_equalities[of "0 # replicate 15 1" "0 # replicate 15 2"] key_equalities[of "replicate 16 1" "replicate 16 2"]
  by (simp add: valid_key_def XXH3_128BITS_HASH_VALUE_LEN_def)

end
