(* ===== verification/Incremental_Decoder.thy ===== *)
theory Incremental_Decoder
  imports Prelude
begin

text \<open>
  \<open>core/framework/request/incremental_decoder.{h,cpp}\<close>. Texts are byte strings; the tokenizer
  is the parameter \<open>tok\<close> (token ids to text, with \<open>skip_special_tokens\<close> fixed per decoder). A
  text that ends with the replacement character U+FFFD is held back.
\<close>

type_synonym bytes = "byte list"

record decoder =
  dc_prompt :: bytes
  dc_num_prompt_tokens :: nat
  dc_skip_special :: bool
  prefix_offset :: nat
  output_offset :: nat
  checking_prefill_token :: bool

definition decoder_new :: "bytes \<Rightarrow> nat \<Rightarrow> bool \<Rightarrow> bool \<Rightarrow> decoder" where
  "decoder_new prompt num_prompt_tokens echo skip =
     \<lparr>dc_prompt = prompt, dc_num_prompt_tokens = num_prompt_tokens, dc_skip_special = skip,
      prefix_offset = (if echo then 0 else num_prompt_tokens),
      output_offset = (if echo then 0 else num_prompt_tokens), checking_prefill_token = False\<rparr>"

definition enable_checking_prefill_token :: "decoder \<Rightarrow> decoder" where
  "enable_checking_prefill_token D = D\<lparr>checking_prefill_token := True\<rparr>"

definition replacement_char :: bytes where
  "replacement_char = [0xEF, 0xBF, 0xBD]"

definition ends_with :: "bytes \<Rightarrow> bytes \<Rightarrow> bool" where
  "ends_with text suffix \<longleftrightarrow>
     length suffix \<le> length text \<and> drop (length text - length suffix) text = suffix"

text \<open>The prompt is emitted as it was given, without decoding its tokens.\<close>

definition emit_prompt :: "decoder \<Rightarrow> bytes \<times> decoder" where
  "emit_prompt D =
     (if output_offset D < dc_num_prompt_tokens D \<and> dc_prompt D \<noteq> []
      then (dc_prompt D,
            D\<lparr>prefix_offset := (if dc_num_prompt_tokens D \<le> 6 then 0 else dc_num_prompt_tokens D - 6),
              output_offset := dc_num_prompt_tokens D\<rparr>)
      else ([], D))"

text \<open>In disaggregated mode a first token the prefill instance has already printed is skipped.\<close>

definition skip_prefill_token :: "(int list \<Rightarrow> bool \<Rightarrow> bytes) \<Rightarrow> int list \<Rightarrow> decoder \<Rightarrow> decoder res" where
  "skip_prefill_token tok token_ids D =
     (if \<not> checking_prefill_token D then Inr D
      else bindE (slice_res token_ids (output_offset D) (output_offset D + 1)) (\<lambda>ids.
             let D1 = (if \<not> ends_with (tok ids (dc_skip_special D)) replacement_char
                       then D\<lparr>output_offset := output_offset D + 1\<rparr> else D)
             in Inr (D1\<lparr>checking_prefill_token := False\<rparr>)))"

definition decoder_decode :: "(int list \<Rightarrow> bool \<Rightarrow> bytes) \<Rightarrow> int list \<Rightarrow> decoder \<Rightarrow> (bytes \<times> decoder) res" where
  "decoder_decode tok token_ids D0 =
     (case emit_prompt D0 of (out, D1) \<Rightarrow>
      bindE (skip_prefill_token tok token_ids D1) (\<lambda>D.
      bindE (slice_res token_ids (prefix_offset D) (output_offset D)) (\<lambda>pre.
      bindE (slice_res token_ids (prefix_offset D) (length token_ids)) (\<lambda>rest.
        let prefix_text = tok pre (dc_skip_special D);
            new_text = tok rest (dc_skip_special D) in
        if length new_text > length prefix_text \<and> \<not> ends_with new_text replacement_char
        then Inr (out @ drop (length prefix_text) new_text,
                  D\<lparr>prefix_offset := output_offset D, output_offset := length token_ids\<rparr>)
        else Inr (out, D)))))"

text \<open>Decoding after every new token: the concatenated outputs of a stream.\<close>

fun decode_stream :: "(int list \<Rightarrow> bool \<Rightarrow> bytes) \<Rightarrow> int list list \<Rightarrow> decoder \<Rightarrow> (bytes \<times> decoder) res" where
  "decode_stream tok [] D = Inr ([], D)"
| "decode_stream tok (ids # rest) D =
     bindE (decoder_decode tok ids D) (\<lambda>(d, D1).
     bindE (decode_stream tok rest D1) (\<lambda>(ds, D2). Inr (d @ ds, D2)))"

section \<open>Correctness\<close>

definition decoder_ok :: "nat \<Rightarrow> decoder \<Rightarrow> bool" where
  "decoder_ok n D \<longleftrightarrow> prefix_offset D \<le> output_offset D \<and> output_offset D \<le> n \<and> \<not> checking_prefill_token D \<and>
     dc_num_prompt_tokens D \<le> output_offset D"

text \<open>A tokenizer whose text of a list is the concatenation of the texts of its parts.\<close>

definition additive :: "(int list \<Rightarrow> bool \<Rightarrow> bytes) \<Rightarrow> bool" where
  "additive tok \<longleftrightarrow> (\<forall>xs ys s. tok (xs @ ys) s = tok xs s @ tok ys s)"

lemma sub_slice_drop: "sub_slice xs i (length xs) = drop i xs"
  by (simp add: sub_slice_def)

lemma sub_slice_prefix: "j \<le> length xs \<Longrightarrow> sub_slice (xs @ ys) i j = sub_slice xs i j"
  by (cases "i \<le> j") (simp_all add: sub_slice_def)

lemma slice_join:
  assumes "i \<le> j" "j \<le> k"
  shows "sub_slice xs i j @ sub_slice xs j k = sub_slice xs i k"
proof -
  have "drop (j - i) (drop i xs) = drop j xs" "k - i = (j - i) + (k - j)" using assms by simp_all
  then show ?thesis unfolding sub_slice_def by (metis take_add)
qed

lemma decoder_decode_ok:
  assumes "decoder_ok (length ids) D" "additive tok"
  shows "\<exists>D'. decoder_decode tok ids D = Inr (tok (sub_slice ids (output_offset D) (output_offset D')) (dc_skip_special D), D') \<and>
    decoder_ok (length ids) D' \<and> dc_skip_special D' = dc_skip_special D \<and> dc_num_prompt_tokens D' = dc_num_prompt_tokens D \<and>
    output_offset D \<le> output_offset D' \<and>
    (tok (drop (output_offset D) ids) (dc_skip_special D) \<noteq> [] \<and>
      \<not> ends_with (tok (drop (prefix_offset D) ids) (dc_skip_special D)) replacement_char \<longrightarrow> output_offset D' = length ids)"
proof -
  note d = assms(1)[unfolded decoder_ok_def]
  let ?s = "dc_skip_special D" and ?p = "prefix_offset D" and ?o = "output_offset D" and ?n = "length ids"
  have nil: "tok [] ?s = []" using assms(2) unfolding additive_def by (metis append_Nil append_self_conv)
  have e: "emit_prompt D = ([], D)" using d by (simp add: emit_prompt_def)
  have sk: "skip_prefill_token tok ids D = Inr D" using d by (simp add: skip_prefill_token_def)
  have sl: "slice_res ids ?p ?o = Inr (sub_slice ids ?p ?o)" "slice_res ids ?p ?n = Inr (sub_slice ids ?p ?n)"
    using d by simp_all
  have new: "tok (sub_slice ids ?p ?n) ?s = tok (sub_slice ids ?p ?o) ?s @ tok (sub_slice ids ?o ?n) ?s"
    using assms(2) slice_join[of ?p ?o ?n ids] d unfolding additive_def by metis
  show ?thesis
  proof (cases "length (tok (sub_slice ids ?p ?o) ?s) < length (tok (sub_slice ids ?p ?n) ?s) \<and>
      \<not> ends_with (tok (sub_slice ids ?p ?n) ?s) replacement_char")
    case True
    then have "decoder_decode tok ids D = Inr (tok (sub_slice ids ?o ?n) ?s, D\<lparr>prefix_offset := ?o, output_offset := ?n\<rparr>)"
      unfolding decoder_decode_def by (simp add: e sk sl new Let_def)
    then show ?thesis
      using d by (intro exI[of _ "D\<lparr>prefix_offset := ?o, output_offset := ?n\<rparr>"]) (simp add: decoder_ok_def)
  next
    case False
    then have "decoder_decode tok ids D = Inr ([], D)"
      unfolding decoder_decode_def by (simp add: e sk sl Let_def)
    moreover have "sub_slice ids ?o ?o = []" by (simp add: sub_slice_def)
    moreover have "\<not> (tok (drop ?o ids) ?s \<noteq> [] \<and> \<not> ends_with (tok (drop ?p ids) ?s) replacement_char)"
      using False new by (auto simp: sub_slice_drop)
    ultimately show ?thesis using assms(1) nil by auto
  qed
qed

text \<open>
  The outputs of a stream concatenate to the text of the tokens they cover, whatever was
  held back in between. \<open>prefixes ids ns\<close> are the growing token lists of the calls.
\<close>

definition prefix_lists :: "int list \<Rightarrow> nat list \<Rightarrow> int list list" where
  "prefix_lists ids ns = map (\<lambda>n. take n ids) ns"

lemma decode_stream_ok:
  assumes "sorted ns" "\<forall>n \<in> set ns. output_offset D \<le> n \<and> n \<le> length ids" "decoder_ok (output_offset D) D" "additive tok"
  shows "\<exists>D'. decode_stream tok (prefix_lists ids ns) D =
      Inr (tok (sub_slice ids (output_offset D) (output_offset D')) (dc_skip_special D), D') \<and>
    output_offset D \<le> output_offset D' \<and> (\<forall>n \<in> set ns. output_offset D' \<le> last ns)"
  using assms(1-3)
proof (induction ns arbitrary: D)
  case Nil
  have "tok [] s = []" for s using assms(4) unfolding additive_def by (metis append_Nil append_self_conv)
  then show ?case by (simp add: prefix_lists_def sub_slice_def)
next
  case (Cons n ns)
  have n: "output_offset D \<le> n" "n \<le> length ids" using Cons.prems(2) by auto
  have "decoder_ok (length (take n ids)) D" using Cons.prems(3) n by (simp add: decoder_ok_def)
  from decoder_decode_ok[OF this assms(4)] obtain D1 where d1:
    "decoder_decode tok (take n ids) D = Inr (tok (sub_slice (take n ids) (output_offset D) (output_offset D1)) (dc_skip_special D), D1)"
    "decoder_ok (length (take n ids)) D1" "dc_skip_special D1 = dc_skip_special D" "output_offset D \<le> output_offset D1" by blast
  have o1: "output_offset D1 \<le> n" using d1(2) n(2) by (simp add: decoder_ok_def)
  have "sub_slice (take n ids) (output_offset D) (output_offset D1) = sub_slice ids (output_offset D) (output_offset D1)"
    using sub_slice_prefix[of "output_offset D1" "take n ids" "drop n ids"] o1 n(2) by simp
  moreover have "\<forall>m \<in> set ns. output_offset D1 \<le> m \<and> m \<le> length ids" using Cons.prems(1,2) o1 by auto
  moreover have "decoder_ok (output_offset D1) D1" using d1(2) by (simp add: decoder_ok_def)
  ultimately obtain D2 where d2: "decode_stream tok (prefix_lists ids ns) D1 =
      Inr (tok (sub_slice ids (output_offset D1) (output_offset D2)) (dc_skip_special D1), D2)"
    "output_offset D1 \<le> output_offset D2" "\<forall>n \<in> set ns. output_offset D2 \<le> last ns"
    using Cons.IH[of D1] Cons.prems(1) by auto
  have "tok (sub_slice ids (output_offset D) (output_offset D1)) s @ tok (sub_slice ids (output_offset D1) (output_offset D2)) s =
      tok (sub_slice ids (output_offset D) (output_offset D2)) s" for s
    using assms(4) slice_join[OF d1(4) d2(2), of ids] unfolding additive_def by metis
  moreover have "output_offset D2 \<le> last (n # ns)"
    using d2 o1 by (cases "ns = []") (auto simp: prefix_lists_def)
  ultimately show ?case
    using d1 d2 \<open>sub_slice (take n ids) _ _ = _\<close> by (auto simp: prefix_lists_def)
qed

end
