(* ===== verification/Sequence_Properties.thy ===== *)
theory Sequence_Properties
  imports Block_Manager Sequences Incremental_Decoder
begin

text \<open>
  The properties of a sequence: when it stops, how its tokens grow with and without overlapped
  scheduling, what is streamed to the client, and what preemption does.
\<close>

section \<open>Concrete data for the examples\<close>

definition demo_checker :: stopping_checker where
  "demo_checker = \<lparr>max_generated_tokens = 4, max_context_len = 0, eos_token = 2, ignore_eos = False, stop_tokens = [9],
     stop_sequences = [[5, 6]]\<rparr>"

lemma demo_checker_ok: "checker_ok demo_checker"
  by (simp add: checker_ok_def demo_checker_def int32_def)

definition demo_params :: "bool \<Rightarrow> seq_params" where
  "demo_params overlap = \<lparr>seq_capacity = 8, enable_schedule_overlap = overlap, is_onerec_model = False, is_embeddings = False,
     penalties_set = True, beam_width = 0, sp_stopping_checker = demo_checker\<rparr>"

text \<open>A sequence with prompt \<open>[7, 8]\<close> whose prompt has been computed.\<close>

definition demo_seq :: "bool \<Rightarrow> sequence" where
  "demo_seq overlap = (projr (seq_new [7, 8] (demo_params overlap)))\<lparr>sq_kv := kv_state_new\<lparr>kv_cache_tokens_num := 2\<rparr>\<rparr>"

lemma demo_seq_ok:
  "seq_inv (demo_seq b)" "tokens_view (demo_seq b) = [7, 8]" "stage (demo_seq b) = DECODE" "appendable (demo_seq b)"
  "counts_ok (demo_seq b) []" "sq_params (demo_seq b) = demo_params b" "ov_ready (demo_seq b)"
  by (auto simp: demo_seq_def seq_new_def seq_blank_def demo_params_def seq_inv_def tokens_view_def stage_def
      appendable_def counts_ok_def ov_ready_def kv_state_new_def numeral_2_eq_2 numeral_eq_Suc)

section \<open>Stopping\<close>

text \<open>C16: on tokens without placeholders \<open>StoppingChecker::check\<close> decides by its specification: a length
  limit first, then the eos token, a stop token, or a stop sequence at the end of the
  tokens, unless eos is ignored.\<close>

theorem stopping_decision:
  assumes "checker_ok C" "ts \<noteq> []" "0 \<le> last ts" "int32 (last ts)" "p \<le> length ts"
  shows "stopping_check C ts p = Inr
     (if 0 < max_generated_tokens C \<and> p + max_generated_tokens C \<le> length ts \<or>
         0 < max_context_len C \<and> max_context_len C \<le> length ts then FR_LENGTH
      else if ignore_eos C then FR_NONE
      else if last ts = eos_token C \<or> last ts \<in> set (stop_tokens C) \<or>
              (\<exists>s \<in> set (stop_sequences C). \<exists>pre. ts = pre @ s) then FR_STOP
      else FR_NONE)"
  using stopping_check_valid[OF assms(1,3,4), of p "butlast ts"] assms(2,5) by (simp add: stop_spec_def)

theorem stopping_decision_witness:
  "stopping_check demo_checker [1, 5, 6] 1 = Inr FR_STOP \<and> stopping_check demo_checker [1, 5, 7, 3, 3] 1 = Inr FR_LENGTH"
proof -
  have "\<exists>pre. [1, 5, 6 :: int] = pre @ [5, 6]" by (rule exI[of _ "[1]"]) simp
  then show ?thesis
    using stopping_decision[OF demo_checker_ok, of "[1, 5, 6]" 1] stopping_decision[OF demo_checker_ok, of "[1, 5, 7, 3, 3]" 1]
    by (simp add: demo_checker_def int32_def)
qed

text \<open>With overlapped scheduling the tokens end with placeholders, and then the stop sequences have no
  effect: the decision is that of a checker without stop sequences.\<close>

theorem overlap_ignores_stop_sequences:
  assumes "checker_ok C" "ts \<noteq> []" "0 \<le> last ts" "int32 (last ts)" "p \<le> length ts" "fs \<noteq> []" "\<forall>x \<in> set fs. x < 0"
    and "\<forall>s \<in> set (stop_sequences C). \<forall>x \<in> set s. 0 \<le> x"
  shows "stopping_check C (ts @ fs) p = stopping_check (C\<lparr>stop_sequences := []\<rparr>) ts p"
proof -
  have "checker_ok (C\<lparr>stop_sequences := []\<rparr>)" using assms(1) by (simp add: checker_ok_def)
  from stopping_check_valid[OF this assms(3,4), of p "butlast ts"]
  show ?thesis using stop_sequences_ignored[OF assms(1,3,4), of p "butlast ts" fs] assms(2,5-8) by simp
qed

theorem overlap_ignores_stop_sequences_witness:
  "stopping_check demo_checker ([1, 5, 6] @ [-1]) 1 = stopping_check (demo_checker\<lparr>stop_sequences := []\<rparr>) [1, 5, 6] 1"
  using overlap_ignores_stop_sequences[OF demo_checker_ok, of "[1, 5, 6]" 1 "[-1]"]
  by (simp add: demo_checker_def int32_def)

section \<open>Tokens\<close>

text \<open>C17: \<open>Sequence::append_token\<close> on a sequence ready for a token appends exactly that token, marks the
  finish status for re-evaluation, keeps the blocks, and keeps the count of every token equal
  to its number of occurrences among the generated tokens.\<close>

theorem append_token_correct:
  assumes "seq_inv s" "appendable s" "int32 t" "\<not> (enable_schedule_overlap (sq_params s) \<and> t < 0)"
    and "counts_ok s (get_generated_tokens s)"
  shows "\<exists>s'. append_token pd t s = Inr s' \<and> seq_inv s' \<and> tokens_view s' = tokens_view s @ [t] \<and>
    kv_cache_tokens_num (sq_kv s') = sq_num_tokens s \<and> finish_status_invalidated s' \<and>
    kv_blocks (sq_kv s') = kv_blocks (sq_kv s) \<and> counts_ok s' (get_generated_tokens s')"
  using append_token_ok[OF assms(1-4)] assms(5) by blast

theorem append_token_correct_witness:
  "\<exists>s'. append_token False 5 (demo_seq False) = Inr s' \<and> tokens_view s' = [7, 8, 5] \<and> counts_ok s' (get_generated_tokens s')"
proof -
  have "get_generated_tokens (demo_seq False) = []"
    using generated_view[OF demo_seq_ok(1)[of False]] demo_seq_ok(2)[of False]
    by (simp add: demo_seq_def seq_new_def seq_blank_def demo_params_def)
  then show ?thesis
    using append_token_correct[OF demo_seq_ok(1,4), of 5 False False] demo_seq_ok(2,5,6) by (auto simp: int32_def demo_params_def)
qed

text \<open>C18: any run of the overlapped schedule, in which each result arrives after its step was scheduled,
  computes the same tokens as scheduling without overlap: the results in order of arrival,
  followed by one placeholder for each step still open; and the output covers the valid
  tokens only.\<close>

theorem overlap_refinement:
  assumes "pipe s vs k" "ov_ready s" "ov_valid k es"
    and "sq_num_tokens s + length (filter (\<lambda>e. e = Ov_append) es) \<le> length (sq_tokens s)"
    and "vs @ ov_results es \<noteq> []" "0 \<le> last (vs @ ov_results es)"
  shows "\<exists>s'. ov_run pd es s = Inr s' \<and> tokens_view s' = (vs @ ov_results es) @ replicate (ov_open k es) (-1) \<and>
    counts_ok s' (drop (sq_num_prompt_tokens s') (vs @ ov_results es)) \<and> output_size s' = Inr (length (vs @ ov_results es))"
proof -
  obtain s' where s': "ov_run pd es s = Inr s'" "pipe s' (vs @ ov_results es) (ov_open k es)"
    using ov_run_refines[OF assms(1-4)] by blast
  then show ?thesis using pipe_output_size[OF s'(2) assms(5,6)] by (auto simp: pipe_def)
qed

theorem overlap_refinement_witness:
  "\<exists>s'. ov_run False [Ov_append, Ov_append, Ov_result 5, Ov_append, Ov_result 6] (demo_seq True) = Inr s' \<and>
    tokens_view s' = [7, 8, 5, 6, -1] \<and> output_size s' = Inr 4"
proof -
  have p: "pipe (demo_seq True) [7, 8] 0"
    using demo_seq_ok[of True] by (simp add: pipe_def demo_params_def) (simp add: demo_seq_def seq_new_def seq_blank_def demo_params_def)
  have c: "sq_num_tokens (demo_seq True) = 2" "length (sq_tokens (demo_seq True)) = 8"
    by (simp_all add: demo_seq_def seq_new_def seq_blank_def demo_params_def)
  show ?thesis
    using overlap_refinement[OF p demo_seq_ok(7), of "[Ov_append, Ov_append, Ov_result 5, Ov_append, Ov_result 6]" False] c
    by (auto simp: int32_def)
qed

section \<open>Finishing, preemption and output\<close>

text \<open>\<open>Sequence::finished\<close> evaluates the stopping rule once after a change and then returns the cached
  answer: asking again gives the same answer and changes nothing.\<close>

theorem finished_cached:
  assumes "seq_inv s" "finish_status_invalidated s" "\<not> sq_finished s" "\<not> is_onerec_model (sq_params s)"
    and "\<not> is_embeddings (sq_params s)" "checker_ok (sp_stopping_checker (sq_params s))"
    and "0 \<le> last (tokens_view s)" "int32 (last (tokens_view s))"
  shows "\<exists>b s'. seq_finished_check s = Inr (b, s') \<and>
    stopping_check (sp_stopping_checker (sq_params s)) (tokens_view s) (sq_num_prompt_tokens s) = Inr (if b then sq_finish_reason s' else FR_NONE) \<and>
    (b \<longleftrightarrow> sq_finished s') \<and> tokens_view s' = tokens_view s \<and> seq_finished_check s' = Inr (b, s')"
proof -
  let ?r = "stop_spec (sp_stopping_checker (sq_params s)) (tokens_view s) (sq_num_prompt_tokens s)"
  let ?s = "if ?r \<noteq> FR_NONE then s\<lparr>finish_status_invalidated := False, sq_finish_reason := ?r, sq_finished := True\<rparr>
    else s\<lparr>finish_status_invalidated := False\<rparr>"
  have c: "seq_finished_check s = Inr (?r \<noteq> FR_NONE, ?s)" using finished_check_spec[OF assms(1,2,4-8)] .
  have ne: "tokens_view s \<noteq> []" "sq_num_prompt_tokens s \<le> length (tokens_view s)"
    using assms(1) length_tokens_view[OF assms(1)] by (auto simp: seq_inv_def)
  then have "stopping_check (sp_stopping_checker (sq_params s)) (tokens_view s) (sq_num_prompt_tokens s) = Inr ?r"
    using stopping_check_valid[OF assms(6-8), of "sq_num_prompt_tokens s" "butlast (tokens_view s)"] by simp
  then show ?thesis
    using c finished_check_idem[OF c] assms(3)
    by (intro exI[of _ "?r \<noteq> FR_NONE"] exI[of _ ?s]) (simp add: tokens_view_def)
qed

theorem finished_cached_witness:
  "\<exists>b s'. seq_finished_check (demo_seq False) = Inr (b, s') \<and> seq_finished_check s' = Inr (b, s')"
proof -
  have "finish_status_invalidated (demo_seq False)" "\<not> sq_finished (demo_seq False)"
    by (simp_all add: demo_seq_def seq_new_def seq_blank_def demo_params_def)
  then show ?thesis
    using finished_cached[OF demo_seq_ok(1), of False] demo_seq_ok(2,6)[of False] demo_checker_ok
    by (auto simp: demo_params_def int32_def)
qed

text \<open>Preempting a sequence (\<open>Sequence::reset\<close>) releases all its blocks, keeps all its tokens, and
  makes it a prefill sequence again that returns to decoding only when all these tokens have
  been recomputed.\<close>

theorem preempt_keeps_tokens:
  assumes "arena_inv A (kv_tokens (sq_kv s) + T)" "kv_owned (sq_kv s)" "seq_inv s"
  shows "\<exists>A' s'. seq_reset A s = Inr (A', s') \<and> arena_inv A' (tokens_of (src_blocks (sq_kv s)) + T) \<and>
    kv_blocks (sq_kv s') = [] \<and> stage s' = PREFILL \<and> tokens_view s' = tokens_view s \<and> seq_inv s' \<and>
    (\<forall>n. stage (s'\<lparr>sq_kv := (sq_kv s')\<lparr>kv_cache_tokens_num := n\<rparr>\<rparr>) = DECODE \<longleftrightarrow> length (tokens_view s) \<le> n)"
proof -
  obtain A' s' where r: "seq_reset A s = Inr (A', s')" "arena_inv A' (kv_tokens (sq_kv s') + T)" "kv_blocks (sq_kv s') = []"
    "src_blocks (sq_kv s') = src_blocks (sq_kv s)" "stage s' = PREFILL" "tokens_view s' = tokens_view s" "seq_inv s'"
    "\<forall>n. stage (s'\<lparr>sq_kv := (sq_kv s')\<lparr>kv_cache_tokens_num := n\<rparr>\<rparr>) = DECODE \<longleftrightarrow> sq_num_tokens s \<le> n"
    using seq_reset_ok[OF assms] by blast
  have "kv_tokens (sq_kv s') = tokens_of (src_blocks (sq_kv s))" using r(3,4) by (simp add: kv_tokens_def)
  then show ?thesis using r length_tokens_view[OF assms(3)] by auto
qed

theorem preempt_keeps_tokens_witness:
  "\<exists>b A A' s'. bm_allocate_one (init_arena 3 4) = Inr (b, A) \<and>
    seq_reset A (demo_seq False) = Inr (A', s') \<and> stage s' = PREFILL \<and> tokens_view s' = [7, 8]"
proof -
  obtain b A where a: "bm_allocate_one (init_arena 3 4) = Inr (b, A)" "arena_inv A {#token_of b#}"
    using init_arena_inv[of 3 4] by auto
  have "kv_tokens (sq_kv (demo_seq False)) = {#}" "kv_owned (sq_kv (demo_seq False))"
    by (simp_all add: demo_seq_def kv_tokens_def kv_owned_def kv_state_new_def)
  then show ?thesis
    using preempt_keeps_tokens[of A "demo_seq False" "{#token_of b#}"] a demo_seq_ok(1,2) by auto
qed



end
