(* ===== verification/Block_Pool_Correct.thy ===== *)
theory Block_Pool_Correct
  imports Block_Pool
begin

text \<open>
  What the operations of \<open>BlockManagerPool\<close> do to the handles: \<open>T d\<close> are the handles the clients
  hold of the blocks of rank \<open>d\<close>. Allocation for a sequence only adds handles of that
  sequence, deallocation releases all of them, and the counter of used blocks never falls
  below the number of blocks in use, which is what keeps \<open>BlockManagerImpl::deallocate\<close> from
  aborting.
\<close>

section \<open>Arena operations keep the block size\<close>

lemma dec_ref_count_size: "dec_ref_count b A = Inr A' \<Longrightarrow> arena_block_size A' = arena_block_size A"
  by (auto simp: dec_ref_count_def bm_free_def Let_def split: option.splits if_splits)

lemma inc_ref_count_size: "inc_ref_count b A = Inr A' \<Longrightarrow> arena_block_size A' = arena_block_size A"
  by (auto simp: inc_ref_count_def split: option.splits)

lemma destroy_blocks_size: "destroy_blocks bs A = Inr A' \<Longrightarrow> arena_block_size A' = arena_block_size A"
  unfolding destroy_blocks_def
  by (rule foldE_invar[where P = "\<lambda>X. arena_block_size X = arena_block_size A"])
    (auto simp: block_destroy_def dec_ref_count_size)

lemma copy_blocks_size: "copy_blocks bs A = Inr A' \<Longrightarrow> arena_block_size A' = arena_block_size A"
  unfolding copy_blocks_def
  by (rule foldE_invar[where P = "\<lambda>X. arena_block_size X = arena_block_size A"]) (auto simp: inc_ref_count_size)

lemma kv_reset_size: "kv_reset A K = Inr (A', K') \<Longrightarrow> arena_block_size A' = arena_block_size A"
  by (auto simp: kv_reset_def dest: destroy_blocks_size)

lemma add_kv_blocks_size: "add_kv_blocks bs A K = Inr (A', K') \<Longrightarrow> arena_block_size A' = arena_block_size A"
  by (auto simp: add_kv_blocks_def dest: copy_blocks_size)

lemma move_blocks_size: "move_blocks ms os A = Inr (os', A') \<Longrightarrow> arena_block_size A' = arena_block_size A"
proof (induction ms os A arbitrary: os' A' rule: move_blocks.induct)
  case (3 m ms b os A)
  then show ?case by (auto simp: block_move_assign_def dest!: dec_ref_count_size)
qed auto

lemma add_shared_size: "add_shared_kv_blocks bs n A K = Inr (A', K') \<Longrightarrow> arena_block_size A' = arena_block_size A"
  by (auto simp: add_shared_kv_blocks_def try_replace_unique_blocks_def Let_def block_destroy_def split: if_splits
      dest!: destroy_blocks_size dec_ref_count_size move_blocks_size)

text \<open>Releasing handles never takes a free block away.\<close>

lemma dec_ref_count_free: "dec_ref_count b A = Inr A' \<Longrightarrow> num_free_blocks A \<le> num_free_blocks A'"
  by (auto simp: dec_ref_count_def bm_free_def Let_def split: option.splits if_splits)

lemma destroy_blocks_free: "destroy_blocks bs A = Inr A' \<Longrightarrow> num_free_blocks A \<le> num_free_blocks A'"
  unfolding destroy_blocks_def
  by (rule foldE_invar[where P = "\<lambda>X. num_free_blocks A \<le> num_free_blocks X"])
    (auto simp: block_destroy_def dest!: dec_ref_count_free)

lemma add_shared_free:
  assumes "add_shared_kv_blocks bs n A K = Inr (A', K')" "length (kv_blocks K) < length bs"
  shows "num_free_blocks A \<le> num_free_blocks A'"
  using assms
  by (auto simp: add_shared_kv_blocks_def Let_def block_destroy_def split: if_splits
      dest!: destroy_blocks_free dec_ref_count_free)

section \<open>The manager seen from a sequence\<close>

text \<open>\<open>X\<close> are the handles of the sequence, \<open>R\<close> those of the other clients.\<close>

definition frame :: "bman \<Rightarrow> token multiset \<Rightarrow> token multiset" where
  "frame B R = add_mset (token_of (padding_block B)) R + node_tokens (cache_part B) (lru (cache_part B))"

lemma bm_inv_frame: "bm_inv H B (X + R) \<Longrightarrow> arena_inv (bm_arena B) (X + frame B R)"
  using bm_inv_arena[of H B "X + R"] by (simp add: frame_def add_ac)

lemma arena_inv_nonempty: "arena_inv A T \<Longrightarrow> 0 < length (free_blocks A)"
  using arena_invD(8)[of A T] by (metis atLeast0_lessThan_Suc atLeastLessThan_empty_iff2 empty_iff gr0I image_is_empty insert_not_empty length_greater_0_conv list.size(3) not_gr_zero)

lemma bm_inv_frame_back:
  assumes "bm_inv H B X" "arena_inv A' (Y + frame B R)" "arena_block_size A' = arena_block_size (bm_arena B)"
  shows "bm_inv H (B\<lparr>bm_arena := A'\<rparr>) (Y + R)"
proof -
  have cp: "cache_part (B\<lparr>bm_arena := A'\<rparr>) = cache_part B"
    using assms(3) by (simp add: cache_part_def split: option.split)
  have "pc_inv H (cache_part B) []" using assms(1) by (simp add: bm_inv_def cache_inv_def)
  moreover have "arena_inv A' (add_mset (token_of (padding_block B)) (Y + R) + node_tokens (cache_part B) (lru (cache_part B)))"
    using assms(2) by (simp add: frame_def add_ac)
  ultimately show ?thesis
    using assms(1,3) arena_inv_nonempty[OF assms(2)] cp by (simp add: bm_inv_def cache_inv_def)
qed

lemma cached_tokens_view:
  assumes "pc_inv H P []"
  shows "set_mset (node_tokens P (lru P)) = token_of ` ran (view P)"
proof -
  have "set (lru P) = dom (pnodes P)" using assms by (simp add: pc_inv_def)
  moreover have "ran (view P) = node_block P ` dom (pnodes P)"
  proof (intro equalityI subsetI)
    fix b assume "b \<in> ran (view P)"
    then obtain k p where "cached_blocks P k = Some p" "b = node_block P p" by (auto simp: ran_def view_def)
    moreover have "p \<in> dom (pnodes P)" using assms calculation(1) unfolding pc_inv_def by blast
    ultimately show "b \<in> node_block P ` dom (pnodes P)" by blast
  next
    fix b assume "b \<in> node_block P ` dom (pnodes P)"
    then obtain p where p: "p \<in> dom (pnodes P)" "b = node_block P p" by blast
    then have "cached_blocks P (key_class (svh H) (bhash (node_block P p))) = Some p" using assms by (simp add: pc_inv_def)
    then have "view P (key_class (svh H) (bhash (node_block P p))) = Some b" using p(2) by (simp add: view_def)
    then show "b \<in> ran (view P)" by (rule ranI)
  qed
  ultimately show ?thesis by (auto simp: node_tokens_def)
qed

section \<open>The counter of used blocks\<close>

definition used_covers :: "bman \<Rightarrow> token multiset \<Rightarrow> bool" where
  "used_covers B T \<longleftrightarrow> card (set_mset T) \<le> num_used_blocks B"

definition shared_cached :: "bman \<Rightarrow> token multiset \<Rightarrow> bool" where
  "shared_cached B T \<longleftrightarrow> (\<forall>t \<in># T. snd t \<noteq> 0 \<and> (1 < count T t \<longrightarrow> t \<in># cached_tokens B))"

lemma last_handle_imp:
  assumes "bm_inv H B T" "shared_cached B T" "owned b" "token_of b \<in># T"
  shows "\<exists>r. block_ref_count b (bm_arena B) = Inr r \<and> (r \<le> 2 \<longrightarrow> count T (token_of b) = 1)"
proof -
  let ?t = "token_of b"
  have s: "snd ?t \<noteq> 0" "1 < count T ?t \<longrightarrow> 0 < count (cached_tokens B) ?t"
    using assms(2,4) unfolding shared_cached_def count_greater_zero_iff by blast+
  have "0 < count T ?t" using assms(4) by (simp add: count_greater_zero_iff)
  then have "count T ?t + count (cached_tokens B) ?t \<le> 2 \<longrightarrow> count T ?t = 1" using s(2) by linarith
  moreover have "bid b \<noteq> 0" using s(1) by simp
  ultimately show ?thesis using ref_count_split[OF assms(1,3,4)] by auto
qed

lemma deallocate_loop_covers:
  assumes "bm_inv H B T" "shared_cached B T"
    and "\<And>b. b \<in> set bs \<Longrightarrow> owned b \<and> token_of b \<in># T"
    and "n + length (filter (\<lambda>b. count T (token_of b) = 1) bs) \<le> u"
  shows "\<exists>u'. foldE (deallocate_one (bm_arena B)) bs u = Inr u' \<and> n \<le> u'"
  using assms(3,4)
proof (induction bs arbitrary: u)
  case (Cons b bs)
  obtain r where r: "block_ref_count b (bm_arena B) = Inr r" "r \<le> 2 \<longrightarrow> count T (token_of b) = 1"
    using last_handle_imp[OF assms(1,2)] Cons.prems(1) by force
  show ?case
  proof (cases "block_is_valid b \<and> r \<le> 2")
    case True
    then have "n + length (filter (\<lambda>b. count T (token_of b) = 1) bs) \<le> u - 1" "0 < u" using r(2) Cons.prems(2) by auto
    then show ?thesis using Cons.IH[of "u - 1"] Cons.prems(1) r(1) True by (auto simp: deallocate_one_def)
  next
    case False
    have "n + length (filter (\<lambda>b. count T (token_of b) = 1) bs) \<le> u" using Cons.prems(2) by (auto split: if_splits)
    then show ?thesis using Cons.IH[of u] Cons.prems(1) r(1) False by (auto simp: deallocate_one_def)
  qed
qed simp

lemma bm_deallocate_covers:
  assumes "bm_inv H B (tokens_of bs + R)" "shared_cached B (tokens_of bs + R)"
    and "prefix_cache B \<noteq> None \<longrightarrow> used_covers B (tokens_of bs + R)"
    and "list_all owned bs" "distinct (map token_of bs)"
  shows "\<exists>u. bm_deallocate bs B = Inr (B\<lparr>num_used_blocks := u\<rparr>) \<and> (prefix_cache B \<noteq> None \<longrightarrow> card (set_mset R) \<le> u)"
proof (cases "prefix_cache B")
  case None
  then show ?thesis
    by (intro exI[of _ "size_sub (num_used_blocks B) (length bs)"]) (simp add: bm_deallocate_def)
next
  case (Some P)
  let ?T = "tokens_of bs + R"
  have "card (set_mset R) + length (filter (\<lambda>b. count ?T (token_of b) = 1) bs) \<le> num_used_blocks B"
    using card_last_handles[OF assms(5), of R] assms(3) Some by (simp add: used_covers_def)
  moreover have "owned b \<and> token_of b \<in># ?T" if "b \<in> set bs" for b
    using that assms(4) by (auto simp: list_all_iff tokens_of_def)
  ultimately obtain u where "foldE (deallocate_one (bm_arena B)) bs (num_used_blocks B) = Inr u" "card (set_mset R) \<le> u"
    using deallocate_loop_covers[OF assms(1,2)] by blast
  then show ?thesis using Some by (intro exI[of _ u]) (simp add: bm_deallocate_def)
qed

section \<open>cache at the end of a sequence\<close>

lemma shared_cached_mono:
  "shared_cached B T \<Longrightarrow> set_mset (cached_tokens B) \<subseteq> set_mset (cached_tokens B') \<Longrightarrow> shared_cached B' T"
  unfolding shared_cached_def by blast

text \<open>Every cached block has the size of the manager's blocks.\<close>

definition cache_sized :: "bman \<Rightarrow> nat \<Rightarrow> bool" where
  "cache_sized B n \<longleftrightarrow> (\<forall>b \<in> ran (view (cache_part B)). bsize b = n)"

lemma cache_sized_cong: "cache_part B' = cache_part B \<Longrightarrow> cache_sized B' n = cache_sized B n"
  by (simp add: cache_sized_def)

lemma put_all_ran: "ran (put_all H xs v) \<subseteq> ran v \<union> snd ` set xs"
proof (induction H xs v rule: put_all.induct)
  case (2 H k b xs v)
  have "ran (put_new H k b v) \<subseteq> insert b (ran v)" by (auto simp: put_new_def ran_def)
  then show ?case using 2 by auto
qed simp

lemma keyed_sized: "\<forall>b \<in> set bs. bsize b = n \<Longrightarrow> (k, b) \<in> set (keyed ks bs) \<Longrightarrow> bsize b = n"
  by (auto simp: keyed_def set_hash_value_def dest: set_zip_rightD)

text \<open>What \<open>cache\<close> does to a manager: the handles stay, the cache can only grow.\<close>

lemma bm_cache_step:
  assumes "bm_inv H B T" "hash_lib_ok H" "size_ok (arena_block_size (bm_arena B))" "shared_cached B T"
    and "list_all (cacheable T) blocks" "m \<le> min (length ts div arena_block_size (bm_arena B)) (length blocks)"
  shows "\<exists>blocks' B'. bm_cache H now ts blocks m B = Inr (blocks', B') \<and> bm_inv H B' T \<and> shared_cached B' T \<and>
    map token_of blocks' = map token_of blocks \<and> list_all (cacheable T) blocks' \<and>
    num_used_blocks B' = num_used_blocks B \<and> (prefix_cache B' = None \<longleftrightarrow> prefix_cache B = None) \<and>
    arena_block_size (bm_arena B') = arena_block_size (bm_arena B) \<and>
    (\<forall>n. cache_sized B n \<and> (\<forall>b \<in> set blocks. bsize b = n) \<longrightarrow> cache_sized B' n)"
proof (cases "prefix_cache B")
  case None
  then show ?thesis using assms by (simp add: bm_cache_def)
next
  case (Some P)
  have bs: "pc_block_size P = arena_block_size (bm_arena B)" using assms(1) Some by (simp add: bm_inv_def)
  obtain blocks' B' P' where c: "bm_cache H now ts blocks m B = Inr (blocks', B')" "bm_inv H B' T" "prefix_cache B' = Some P'"
    "view P' = put_all H (keyed (insert_keys_of H P ts blocks m) (drop m blocks)) (view P)"
    "map token_of blocks' = map token_of blocks" "num_used_blocks B' = num_used_blocks B"
    "list_all (cacheable T) blocks'" "arena_block_size (bm_arena B') = arena_block_size (bm_arena B)"
    using bm_cache_correct[OF assms(1,2) Some _ assms(5), of m ts now] assms(3,6) bs by auto
  have pi: "pc_inv H P []" "pc_inv H P' []" using assms(1) Some c(2,3) by (simp_all add: bm_inv_def cache_inv_def)
  have "ran (view P) \<subseteq> ran (view P')"
  proof
    fix b assume "b \<in> ran (view P)"
    then obtain k where k: "view P k = Some b" unfolding ran_def by blast
    then have "view P' k = Some b" using put_all_mono[of "view P" k] c(4) by simp
    then show "b \<in> ran (view P')" by (rule ranI)
  qed
  then have "set_mset (cached_tokens B) \<subseteq> set_mset (cached_tokens B')"
    using cached_tokens_view[OF pi(1)] cached_tokens_view[OF pi(2)] Some c(3) by auto
  moreover have "cache_sized B' n" if "cache_sized B n" "\<forall>b \<in> set blocks. bsize b = n" for n
  proof -
    have "\<forall>b \<in> set (drop m blocks). bsize b = n" using that(2) by (meson in_set_dropD)
    then have "bsize b = n" if "b \<in> snd ` set (keyed (insert_keys_of H P ts blocks m) (drop m blocks))" for b
      using that keyed_sized[of "drop m blocks" n] by auto
    then show ?thesis
      using that(1) put_all_ran[of H "keyed (insert_keys_of H P ts blocks m) (drop m blocks)" "view P"]
      unfolding cache_sized_def cache_part_simps(1)[OF c(3)] cache_part_simps(1)[OF Some] c(4) by blast
  qed
  ultimately show ?thesis using c shared_cached_mono[OF assms(4)] Some by auto
qed

section \<open>The pool\<close>

text \<open>The state of rank \<open>d\<close> when its clients hold the handles \<open>T\<close>.\<close>

definition rank_ok :: "hash_lib \<Rightarrow> pool \<Rightarrow> nat \<Rightarrow> token multiset \<Rightarrow> bool" where
  "rank_ok H Q d T \<longleftrightarrow>
     d < length (bp_managers Q) \<and> length (bp_embeds Q) = length (bp_managers Q) \<and>
     bm_inv H (bp_managers Q ! d) T \<and>
     arena_block_size (bm_arena (bp_managers Q ! d)) = bp_block_size Q \<and> size_ok (bp_block_size Q) \<and>
     (prefix_cache (bp_managers Q ! d) \<noteq> None \<longleftrightarrow> bp_enable_prefix_cache Q) \<and>
     cache_sized (bp_managers Q ! d) (bp_block_size Q) \<and> em_inv (bp_embeds Q ! d)"

definition usage_ok :: "pool \<Rightarrow> nat \<Rightarrow> token multiset \<Rightarrow> bool" where
  "usage_ok Q d T \<longleftrightarrow>
     shared_cached (bp_managers Q ! d) T \<and>
     (bp_enable_prefix_cache Q \<longrightarrow> used_covers (bp_managers Q ! d) T)"

text \<open>A sequence whose blocks belong to rank \<open>d\<close>.\<close>

definition seq_on :: "pool \<Rightarrow> nat \<Rightarrow> sequence \<Rightarrow> bool" where
  "seq_on Q d s \<longleftrightarrow>
     sq_dp_rank s = int d \<and> seq_inv s \<and> kv_owned (sq_kv s) \<and> distinct (map token_of (kv_blocks (sq_kv s))) \<and>
     num_owned_shared_blocks (sq_kv s) \<le> length (seq_cached_tokens s) div bp_block_size Q \<and>
     (\<forall>b \<in> set (kv_blocks (sq_kv s)). bsize b = bp_block_size Q) \<and>
     (case embedding_id s of None \<Rightarrow> True
      | Some i \<Rightarrow> 0 \<le> i \<and> nat i \<in> em_used_ids (bp_embeds Q ! d) \<and> 0 < em_num_used (bp_embeds Q ! d))"

lemma mgr_put [simp]: "d < length (bp_managers Q) \<Longrightarrow> mgr (put_mgr d B Q) d = Inr B"
  by (simp add: mgr_def put_mgr_def)

lemma mgr_nth [simp]: "d < length (bp_managers Q) \<Longrightarrow> mgr Q d = Inr (bp_managers Q ! d)"
  by (simp add: mgr_def)

lemma put_mgr_fields [simp]:
  "bp_embeds (put_mgr d B Q) = bp_embeds Q" "bp_block_size (put_mgr d B Q) = bp_block_size Q"
  "bp_enable_prefix_cache (put_mgr d B Q) = bp_enable_prefix_cache Q" "bp_swaps (put_mgr d B Q) = bp_swaps Q"
  "length (bp_managers (put_mgr d B Q)) = length (bp_managers Q)"
  "bp_managers (put_mgr d B Q) = (bp_managers Q)[d := B]"
  by (simp_all add: put_mgr_def)

lemma get_dp_rank_set [simp]: "sq_dp_rank s = int d \<Longrightarrow> get_dp_rank s Q = (d, s)"
  by (simp add: get_dp_rank_def)

lemma reset_on_ok:
  assumes "rank_ok H Q d (kv_tokens (sq_kv s) + R)" "seq_inv s" "kv_owned (sq_kv s)"
  shows "\<exists>s' B. reset_on d s Q = Inr (s', put_mgr d B Q) \<and> rank_ok H (put_mgr d B Q) d (tokens_of (src_blocks (sq_kv s)) + R) \<and>
    kv_blocks (sq_kv s') = [] \<and> src_blocks (sq_kv s') = src_blocks (sq_kv s) \<and> stage s' = PREFILL \<and>
    tokens_view s' = tokens_view s \<and> seq_inv s' \<and> embedding_id s' = embedding_id s \<and>
    num_used_blocks B = num_used_blocks (bp_managers Q ! d) \<and> cached_tokens B = cached_tokens (bp_managers Q ! d)"
proof -
  let ?B = "bp_managers Q ! d"
  have r: "d < length (bp_managers Q)" "bm_inv H ?B (kv_tokens (sq_kv s) + R)" using assms(1) by (simp_all add: rank_ok_def)
  obtain A' s' where a: "seq_reset (bm_arena ?B) s = Inr (A', s')" "arena_inv A' (kv_tokens (sq_kv s') + frame ?B R)"
    "kv_blocks (sq_kv s') = []" "src_blocks (sq_kv s') = src_blocks (sq_kv s)" "stage s' = PREFILL"
    "tokens_view s' = tokens_view s" "seq_inv s'"
    using seq_reset_ok[OF bm_inv_frame[OF r(2)] assms(3,2)] by blast
  have sz: "arena_block_size A' = arena_block_size (bm_arena ?B)" "embedding_id s' = embedding_id s"
    using a(1) by (auto simp: seq_reset_def dest: kv_reset_size)
  have t: "kv_tokens (sq_kv s') = tokens_of (src_blocks (sq_kv s))" using a(3,4) by (simp add: kv_tokens_def)
  have inv: "bm_inv H (?B\<lparr>bm_arena := A'\<rparr>) (tokens_of (src_blocks (sq_kv s)) + R)"
    using bm_inv_frame_back[OF r(2) a(2) sz(1)] unfolding t .
  have cp: "cache_part (?B\<lparr>bm_arena := A'\<rparr>) = cache_part ?B" using sz(1) by (simp add: cache_part_def split: option.split)
  show ?thesis
    using a r(1) inv sz assms(1) cp cache_sized_cong[OF cp]
    by (intro exI[of _ s'] exI[of _ "?B\<lparr>bm_arena := A'\<rparr>"]) (auto simp: reset_on_def put_arena_def rank_ok_def)
qed

lemma shared_cached_sub:
  assumes "shared_cached B (X + R)" "cached_tokens B' = cached_tokens B"
  shows "shared_cached B' R"
  unfolding shared_cached_def assms(2)
proof (intro ballI conjI impI)
  fix t assume t: "t \<in># R"
  then have *: "t \<in># X + R" by simp
  show "snd t \<noteq> 0" using assms(1) * unfolding shared_cached_def by blast
  assume "1 < count R t"
  then have "1 < count (X + R) t" by simp
  then show "t \<in># cached_tokens B" using assms(1) * unfolding shared_cached_def by blast
qed

text \<open>\<open>deallocate_embedding_id\<close> returns the id of the sequence; the block managers are untouched.\<close>

definition embed_ok :: "sequence \<Rightarrow> eman \<Rightarrow> bool" where
  "embed_ok s E \<longleftrightarrow> em_inv E \<and> (case embedding_id s of None \<Rightarrow> True
     | Some i \<Rightarrow> 0 \<le> i \<and> nat i \<in> em_used_ids E \<and> 0 < em_num_used E)"

lemma deallocate_embedding_id_ok:
  assumes "d < length (bp_embeds Q)" "embed_ok s (bp_embeds Q ! d)"
  shows "\<exists>E. deallocate_embedding_id d s Q = Inr (s\<lparr>embedding_id := None\<rparr>, Q\<lparr>bp_embeds := (bp_embeds Q)[d := E]\<rparr>) \<and> em_inv E \<and>
    em_used_ids E = em_used_ids (bp_embeds Q ! d) - (case embedding_id s of None \<Rightarrow> {} | Some i \<Rightarrow> {nat i})"
proof (cases "embedding_id s")
  case None
  then have "s\<lparr>embedding_id := None\<rparr> = s" "Q\<lparr>bp_embeds := (bp_embeds Q)[d := bp_embeds Q ! d]\<rparr> = Q" by simp_all
  then show ?thesis
    using None assms by (intro exI[of _ "bp_embeds Q ! d"]) (simp add: deallocate_embedding_id_def embed_ok_def)
next
  case (Some i)
  let ?E = "bp_embeds Q ! d"
  let ?E1 = "?E\<lparr>em_num_used := em_num_used ?E - 1\<rparr>"
  have e: "em_inv ?E1" "em_used_ids ?E1 = em_used_ids ?E" "0 \<le> i" "nat i \<in> em_used_ids ?E" "0 < em_num_used ?E"
    using assms(2) Some by (simp_all add: embed_ok_def em_inv_def em_live_def em_used_ids_def)
  obtain E2 where "em_free (int (nat i)) ?E1 = Inr E2" "em_inv E2" "em_used_ids E2 = em_used_ids ?E - {nat i}"
    using em_free_correct[OF e(1), of "nat i"] e(2,4) by auto
  then show ?thesis
    using Some assms(1) e(3,5)
    by (intro exI[of _ E2]) (simp add: deallocate_embedding_id_def em_deallocate_def em_deallocate_one_def)
qed

section \<open>deallocate\<close>

text \<open>
  The part \<open>deallocate\<close>, \<open>deallocate_without_cache\<close> and the rollback of \<open>allocate\<close> share; \<open>e\<close> says
  whether the embedding id is given back as well.
\<close>

definition release_all :: "bool \<Rightarrow> nat \<Rightarrow> sequence \<Rightarrow> pool \<Rightarrow> (sequence \<times> pool) res" where
  "release_all e d s Q =
     bindE (dealloc_blocks_on d (kv_blocks (sq_kv s)) Q) (\<lambda>Q1.
     bindE (if e then deallocate_embedding_id d s Q1 else Inr (s, Q1)) (\<lambda>(s2, Q2). reset_on d s2 Q2))"

lemma rollback_True [simp]: "rollback True e d s Q = release_all e d s Q"
  by (simp add: rollback_def release_all_def)

lemma rollback_False [simp]: "rollback False e d s Q = Inr (s, Q)"
  by (simp add: rollback_def)

definition given_back :: "bool \<Rightarrow> sequence \<Rightarrow> nat set" where
  "given_back e s = (case embedding_id s of None \<Rightarrow> {} | Some i \<Rightarrow> if e then {nat i} else {})"

definition released :: "hash_lib \<Rightarrow> bool \<Rightarrow> nat \<Rightarrow> token multiset \<Rightarrow> sequence \<Rightarrow> pool \<Rightarrow> sequence \<Rightarrow> pool \<Rightarrow> bool" where
  "released H e d R s Q s' Q' \<longleftrightarrow>
     rank_ok H Q' d (tokens_of (src_blocks (sq_kv s)) + R) \<and> usage_ok Q' d (tokens_of (src_blocks (sq_kv s)) + R) \<and>
     kv_blocks (sq_kv s') = [] \<and> src_blocks (sq_kv s') = src_blocks (sq_kv s) \<and>
     embedding_id s' = (if e then None else embedding_id s) \<and> stage s' = PREFILL \<and> tokens_view s' = tokens_view s \<and>
     em_used_ids (bp_embeds Q' ! d) = em_used_ids (bp_embeds Q ! d) - given_back e s \<and>
     (\<forall>e. e \<noteq> d \<longrightarrow> bp_managers Q' ! e = bp_managers Q ! e \<and> bp_embeds Q' ! e = bp_embeds Q ! e) \<and>
     length (bp_managers Q') = length (bp_managers Q)"

lemma release_embed:
  assumes "d < length (bp_embeds Q)" "embed_ok s (bp_embeds Q ! d)"
  shows "\<exists>E. (if e then deallocate_embedding_id d s Q else Inr (s, Q)) =
      Inr (s\<lparr>embedding_id := (if e then None else embedding_id s)\<rparr>, Q\<lparr>bp_embeds := (bp_embeds Q)[d := E]\<rparr>) \<and> em_inv E \<and>
    em_used_ids E = em_used_ids (bp_embeds Q ! d) - given_back e s"
proof (cases e)
  case True
  then show ?thesis using deallocate_embedding_id_ok[OF assms] by (simp add: given_back_def cong: option.case_cong)
next
  case False
  then show ?thesis
    using assms by (intro exI[of _ "bp_embeds Q ! d"]) (simp add: embed_ok_def given_back_def split: option.split)
qed

lemma release_all_ok:
  assumes "rank_ok H Q d (kv_tokens (sq_kv s) + R)" "usage_ok Q d (kv_tokens (sq_kv s) + R)"
    and "seq_inv s" "kv_owned (sq_kv s)" "distinct (map token_of (kv_blocks (sq_kv s)))" "embed_ok s (bp_embeds Q ! d)"
  shows "\<exists>s' Q'. release_all e d s Q = Inr (s', Q') \<and> released H e d R s Q s' Q' \<and>
    cached_tokens (bp_managers Q' ! d) = cached_tokens (bp_managers Q ! d)"
proof -
  let ?B = "bp_managers Q ! d" and ?bs = "kv_blocks (sq_kv s)" and ?R = "tokens_of (src_blocks (sq_kv s)) + R"
  have T: "kv_tokens (sq_kv s) + R = tokens_of ?bs + ?R" by (simp add: kv_tokens_def add_ac)
  have r: "d < length (bp_managers Q)" "length (bp_embeds Q) = length (bp_managers Q)" "bm_inv H ?B (tokens_of ?bs + ?R)"
    "prefix_cache ?B \<noteq> None \<longleftrightarrow> bp_enable_prefix_cache Q"
    using assms(1) unfolding T by (simp_all add: rank_ok_def)
  have u: "shared_cached ?B (tokens_of ?bs + ?R)" "prefix_cache ?B \<noteq> None \<longrightarrow> used_covers ?B (tokens_of ?bs + ?R)"
    using assms(2) r(4) unfolding T by (simp_all add: usage_ok_def)
  have own: "list_all owned ?bs" using assms(4) by (simp add: kv_owned_def)
  obtain n where n: "bm_deallocate ?bs ?B = Inr (?B\<lparr>num_used_blocks := n\<rparr>)" "prefix_cache ?B \<noteq> None \<longrightarrow> card (set_mset ?R) \<le> n"
    using bm_deallocate_covers[OF r(3) u own assms(5)] by blast
  let ?B1 = "?B\<lparr>num_used_blocks := n\<rparr>"
  let ?Q1 = "put_mgr d ?B1 Q" and ?s2 = "s\<lparr>embedding_id := (if e then None else embedding_id s)\<rparr>"
  have d1: "dealloc_blocks_on d ?bs Q = Inr ?Q1" using n(1) r(1) by (simp add: dealloc_blocks_on_def)
  obtain E where E: "(if e then deallocate_embedding_id d s ?Q1 else Inr (s, ?Q1)) =
      Inr (?s2, ?Q1\<lparr>bp_embeds := (bp_embeds Q)[d := E]\<rparr>)"
    "em_inv E" "em_used_ids E = em_used_ids (bp_embeds Q ! d) - given_back e s"
    using release_embed[of d ?Q1 s e] assms(6) r(1,2) by auto
  let ?Q2 = "?Q1\<lparr>bp_embeds := (bp_embeds Q)[d := E]\<rparr>"
  have "cache_sized ?B1 k = cache_sized ?B k" for k by (rule cache_sized_cong) simp
  then have r2: "rank_ok H ?Q2 d (kv_tokens (sq_kv ?s2) + R)"
    using assms(1) r E(2) by (simp add: rank_ok_def)
  have "seq_inv ?s2" "kv_owned (sq_kv ?s2)" using assms(3,4) by (simp_all add: seq_inv_def)
  from reset_on_ok[OF r2 this] obtain s' B' where s': "reset_on d ?s2 ?Q2 = Inr (s', put_mgr d B' ?Q2)"
    "rank_ok H (put_mgr d B' ?Q2) d ?R" "kv_blocks (sq_kv s') = []" "src_blocks (sq_kv s') = src_blocks (sq_kv s)"
    "stage s' = PREFILL" "tokens_view s' = tokens_view ?s2" "embedding_id s' = embedding_id ?s2"
    "num_used_blocks B' = n" "cached_tokens B' = cached_tokens ?B"
    using r(1) by auto
  have "shared_cached B' ?R" by (rule shared_cached_sub[OF u(1) s'(9)])
  then have "usage_ok (put_mgr d B' ?Q2) d ?R"
    using n(2) r(1,4) s'(8) by (simp add: usage_ok_def used_covers_def)
  moreover have "tokens_view ?s2 = tokens_view s" by (simp add: tokens_view_def)
  moreover have "release_all e d s Q = Inr (s', put_mgr d B' ?Q2)"
    unfolding release_all_def d1 bindE_Inr E(1) using s'(1) by simp
  ultimately show ?thesis
    using E s' r(1,2) by (auto simp: released_def)
qed

lemma bp_deallocate_ok:
  assumes "rank_ok H Q d (kv_tokens (sq_kv s) + R)" "usage_ok Q d (kv_tokens (sq_kv s) + R)" "seq_on Q d s" "hash_lib_ok H"
  shows "\<exists>s' Q'. bp_deallocate H now s Q = Inr (s', Q') \<and> released H True d R s Q s' Q'"
proof -
  let ?B = "bp_managers Q ! d" and ?bs = "kv_blocks (sq_kv s)" and ?T = "kv_tokens (sq_kv s) + R"
  let ?m = "num_owned_shared_blocks (sq_kv s)"
  have r: "d < length (bp_managers Q)" "bm_inv H ?B ?T" "arena_block_size (bm_arena ?B) = bp_block_size Q"
    "size_ok (arena_block_size (bm_arena ?B))"
    using assms(1) by (simp_all add: rank_ok_def)
  have so: "sq_dp_rank s = int d" "seq_inv s" "kv_owned (sq_kv s)" "distinct (map token_of ?bs)"
    "?m \<le> length (seq_cached_tokens s) div bp_block_size Q"
    using assms(3) by (simp_all add: seq_on_def)
  have "embed_ok s (bp_embeds Q ! d)" using assms(1,3) by (simp add: embed_ok_def rank_ok_def seq_on_def)
  have sc: "shared_cached ?B ?T" using assms(2) by (simp add: usage_ok_def)
  have ca: "list_all (cacheable ?T) ?bs"
    unfolding list_all_iff
  proof
    fix b assume b: "b \<in> set ?bs"
    then have t: "token_of b \<in># ?T" by (simp add: kv_tokens_def tokens_of_def)
    then have "snd (token_of b) \<noteq> 0" using sc unfolding shared_cached_def by blast
    then show "cacheable ?T b" using t b so(3) by (auto simp: cacheable_def kv_owned_def list_all_iff)
  qed
  obtain bs' B' where c: "bm_cache H now (seq_cached_tokens s) ?bs ?m ?B = Inr (bs', B')" "bm_inv H B' ?T" "shared_cached B' ?T"
    "map token_of bs' = map token_of ?bs" "list_all (cacheable ?T) bs'" "num_used_blocks B' = num_used_blocks ?B"
    "prefix_cache B' = None \<longleftrightarrow> prefix_cache ?B = None" "arena_block_size (bm_arena B') = arena_block_size (bm_arena ?B)"
    "\<forall>n. cache_sized ?B n \<and> (\<forall>b \<in> set ?bs. bsize b = n) \<longrightarrow> cache_sized B' n"
    using bm_cache_step[OF r(2) assms(4) r(4) sc ca, of ?m "seq_cached_tokens s" now] so(3,5) r(3) by (auto simp: kv_owned_def)
  let ?s1 = "s\<lparr>sq_kv := (sq_kv s)\<lparr>kv_blocks := bs'\<rparr>\<rparr>" and ?Q1 = "put_mgr d B' Q"
  have tok: "kv_tokens (sq_kv ?s1) = kv_tokens (sq_kv s)" using c(4) by (simp add: kv_tokens_def tokens_of_def)
  have "cache_sized B' (bp_block_size Q)" using c(9) assms(1,3) by (simp add: rank_ok_def seq_on_def)
  then have "rank_ok H ?Q1 d (kv_tokens (sq_kv ?s1) + R)" using assms(1) c(2,7,8) r tok by (auto simp: rank_ok_def)
  moreover have "usage_ok ?Q1 d (kv_tokens (sq_kv ?s1) + R)"
    using assms(2) c(3,6) r(1) tok by (auto simp: usage_ok_def used_covers_def)
  moreover have "seq_inv ?s1" using so(2) by (simp add: seq_inv_def)
  moreover have "kv_owned (sq_kv ?s1)"
    using so(3) c(5) map_eq_imp_length_eq[OF c(4)] by (auto simp: kv_owned_def list_all_iff cacheable_def)
  moreover have "embed_ok ?s1 (bp_embeds ?Q1 ! d)" using \<open>embed_ok s (bp_embeds Q ! d)\<close> by (simp add: embed_ok_def)
  ultimately obtain s' Q' where rel: "release_all True d ?s1 ?Q1 = Inr (s', Q')" "released H True d R ?s1 ?Q1 s' Q'"
    using release_all_ok[of H ?Q1 d ?s1 R True] so(4) c(4) by auto
  have "bp_deallocate H now s Q = release_all True d ?s1 ?Q1"
    using c(1) so(1) r(1) by (simp add: bp_deallocate_def bp_cache_def release_all_def)
  moreover have "released H True d R s Q s' Q'"
    using rel(2) r(1) by (auto simp: released_def tokens_view_def given_back_def)
  ultimately show ?thesis using rel(1) by auto
qed

end
