(* ===== verification/Block_Pool_Alloc.thy ===== *)
theory Block_Pool_Alloc
  imports Block_Pool_Correct
begin

text \<open>
  \<open>BlockManagerPool::allocate\<close> for a sequence without beam search: what its steps (adopting
  matched blocks, growing by new blocks, rolling back) do to the handles and to the counter
  of used blocks, and the whole operation on every branch. The file also has the choice of
  the rank.
\<close>

section \<open>The rank with the most free blocks\<close>

lemma max_free_loop_spec:
  assumes "j = max_free_loop Bs i m f"
  shows "(j = m \<and> (\<forall>B \<in> set Bs. mgr_free B \<le> f)) \<or>
    (\<exists>k < length Bs. j = i + k \<and> f < mgr_free (Bs ! k) \<and> (\<forall>B \<in> set Bs. mgr_free B \<le> mgr_free (Bs ! k)) \<and>
      (\<forall>l < k. mgr_free (Bs ! l) < mgr_free (Bs ! k)))"
  using assms
proof (induction Bs i m f rule: max_free_loop.induct)
  case (2 B Bs i m f)
  show ?case
  proof (cases "mgr_free B > f")
    case True
    consider "j = i" "\<forall>C \<in> set Bs. mgr_free C \<le> mgr_free B"
      | k where "k < length Bs" "j = i + 1 + k" "mgr_free B < mgr_free (Bs ! k)"
          "\<forall>C \<in> set Bs. mgr_free C \<le> mgr_free (Bs ! k)" "\<forall>l < k. mgr_free (Bs ! l) < mgr_free (Bs ! k)"
      using 2 True by auto
    then show ?thesis
    proof cases
      case 1
      then show ?thesis using True by (intro disjI2 exI[of _ 0]) simp
    next
      case (2 k)
      then show ?thesis using True
        by (intro disjI2 exI[of _ "Suc k"]) (auto simp: less_Suc_eq_0_disj)
    qed
  next
    case False
    consider "j = m" "\<forall>C \<in> set Bs. mgr_free C \<le> f"
      | k where "k < length Bs" "j = i + 1 + k" "f < mgr_free (Bs ! k)"
          "\<forall>C \<in> set Bs. mgr_free C \<le> mgr_free (Bs ! k)" "\<forall>l < k. mgr_free (Bs ! l) < mgr_free (Bs ! k)"
      using 2 False by auto
    then show ?thesis
    proof cases
      case 1
      then show ?thesis using False by (intro disjI1) simp
    next
      case (2 k)
      then show ?thesis using False
        by (intro disjI2 exI[of _ "Suc k"]) (auto simp: less_Suc_eq_0_disj)
    qed
  qed
qed simp

lemma max_free_rank:
  assumes "bp_managers Q \<noteq> []"
  defines "d \<equiv> get_manager_with_max_free_blocks Q"
  shows "d < length (bp_managers Q) \<and> (\<forall>B \<in> set (bp_managers Q). mgr_free B \<le> mgr_free (bp_managers Q ! d)) \<and>
    (\<forall>e < d. mgr_free (bp_managers Q ! e) < mgr_free (bp_managers Q ! d))"
proof -
  obtain B Bs where q: "bp_managers Q = B # Bs" using assms(1) by (cases "bp_managers Q") auto
  then have d: "d = max_free_loop Bs 1 0 (mgr_free B)" by (simp add: d_def get_manager_with_max_free_blocks_def)
  from max_free_loop_spec[OF d] show ?thesis
  proof (elim disjE exE conjE)
    fix k assume "k < length Bs" "d = 1 + k" "mgr_free B < mgr_free (Bs ! k)"
      "\<forall>C \<in> set Bs. mgr_free C \<le> mgr_free (Bs ! k)" "\<forall>l < k. mgr_free (Bs ! l) < mgr_free (Bs ! k)"
    then show ?thesis unfolding q by (auto simp: less_Suc_eq_0_disj)
  qed (simp add: q)
qed

section \<open>Embedding ids\<close>

lemma allocate_embedding_id_ok:
  assumes "d < length (bp_embeds Q)" "em_inv (bp_embeds Q ! d)" "embedding_id s = None"
  shows "\<exists>ok s' E. allocate_embedding_id d s Q = Inr (ok, s', Q\<lparr>bp_embeds := (bp_embeds Q)[d := E]\<rparr>) \<and> em_inv E \<and>
    embed_ok s' E \<and> (ok \<longleftrightarrow> 0 < em_num_free (bp_embeds Q ! d)) \<and> (\<exists>x. s' = s\<lparr>embedding_id := x\<rparr> \<and> (ok \<longleftrightarrow> x \<noteq> None))"
proof (cases "0 < em_num_free (bp_embeds Q ! d)")
  case True
  then obtain "is" E where a: "em_allocate 1 (bp_embeds Q ! d) = Inr (map int is, E)" "length is = 1" "em_inv E"
    "em_used_ids E = set is \<union> em_used_ids (bp_embeds Q ! d)" "em_num_used E = em_num_used (bp_embeds Q ! d) + 1"
    using em_allocate_correct[OF assms(2), of 1] by auto
  then obtain i where i: "is = [i]" by (cases "is") auto
  let ?s = "s\<lparr>embedding_id := Some (int i)\<rparr>"
  have "allocate_embedding_id d s Q = Inr (True, ?s, Q\<lparr>bp_embeds := (bp_embeds Q)[d := E]\<rparr>)"
    using a(1) i assms(1,3) by (simp add: allocate_embedding_id_def Let_def)
  moreover have "embed_ok ?s E" using a i by (simp add: embed_ok_def)
  ultimately show ?thesis using a(3) True by (intro exI[of _ True] exI[of _ ?s] exI[of _ E] conjI exI[of _ "Some (int i)"]) simp_all
next
  case False
  have e: "s\<lparr>embedding_id := None\<rparr> = s" "Q\<lparr>bp_embeds := (bp_embeds Q)[d := bp_embeds Q ! d]\<rparr> = Q" using assms(3) by simp_all
  have "allocate_embedding_id d s Q = Inr (False, s, Q)"
    using False assms e(2) by (simp add: allocate_embedding_id_def em_allocate_def)
  then show ?thesis
    using False assms(2,3) e
    by (intro exI[of _ False] exI[of _ s] exI[of _ "bp_embeds Q ! d"] conjI exI[of _ None]) (simp_all add: embed_ok_def)
qed

section \<open>Adopting matched blocks\<close>

text \<open>The manager \<open>B\<close> with the handles \<open>T\<close> outside the cache.\<close>

definition usable :: "hash_lib \<Rightarrow> nat \<Rightarrow> bman \<Rightarrow> token multiset \<Rightarrow> bool" where
  "usable H n B T \<longleftrightarrow> bm_inv H B T \<and> sharing_ok B T \<and> (prefix_cache B \<noteq> None \<longrightarrow> used_covers B T) \<and>
     arena_block_size (bm_arena B) = n \<and> cache_sized B n"

definition kv_sized :: "nat \<Rightarrow> kv_state \<Rightarrow> bool" where
  "kv_sized n K \<longleftrightarrow> kv_owned K \<and> distinct (map token_of (kv_blocks K)) \<and> (\<forall>b \<in> set (kv_blocks K). bsize b = n)"

lemma allocate_shared_short:
  assumes "prefix_cache B = Some P" "0 < pc_block_size P" "length ts < pc_block_size P"
  shows "bm_allocate_shared H ts [] B = Inr ([], B)"
proof -
  have "round_down (length ts) (pc_block_size P) = 0" using assms(3) by (simp add: round_down_def)
  then have "pc_match H ts [] (bm_arena B) P = Inr ([], bm_arena B, P)" using assms(2) by (simp add: pc_match_def)
  moreover have "B\<lparr>bm_arena := bm_arena B, prefix_cache := Some P, num_used_blocks := num_used_blocks B\<rparr> = B"
    using assms(1) by simp
  ultimately show ?thesis using assms(1) by (simp add: bm_allocate_shared_def)
qed

lemma hits_in_view: "b \<in> set (hits H P ks) \<Longrightarrow> b \<in> ran (view P)"
proof -
  assume "b \<in> set (hits H P ks)"
  then obtain k p where "find_key H k P = Some p" "b = node_block P p"
    by (auto simp: hits_def hit_block_def dest!: set_takeWhileD)
  then have "view P (key_class (svh H) k) = Some b" by (simp add: view_def find_key_def)
  then show ?thesis by (rule ranI)
qed

lemma length_hits:
  assumes "size_ok (pc_block_size P)"
  shows "length (hits H P (match_keys H P ts [])) \<le> length ts div pc_block_size P"
proof -
  have "length (hits H P ks) \<le> length ks" for ks by (simp add: hits_def length_takeWhile_le)
  then show ?thesis using length_match_keys[OF assms, of H ts] by metis
qed

text \<open>Replacing the arena after the handles of one client have changed.\<close>

lemma usable_arena:
  assumes "usable H n B (X + R)" "arena_inv A (Y + frame B R)" "arena_block_size A = n"
    and "sharing_ok B (Y + R)" "prefix_cache B \<noteq> None \<longrightarrow> used_covers B (Y + R)"
  shows "usable H n (B\<lparr>bm_arena := A\<rparr>) (Y + R)"
proof -
  have u: "bm_inv H B (X + R)" "arena_block_size (bm_arena B) = n" "cache_sized B n"
    using assms(1) by (simp_all add: usable_def)
  have cp: "cache_part (B\<lparr>bm_arena := A\<rparr>) = cache_part B"
    using assms(3) u(2) by (simp add: cache_part_def split: option.split)
  have "bm_inv H (B\<lparr>bm_arena := A\<rparr>) (Y + R)" using bm_inv_frame_back[OF u(1) assms(2)] assms(3) u(2) by simp
  then show ?thesis
    using assms(3-5) u(3) cp cache_sized_cong[OF cp] sharing_ok_cong[of "B\<lparr>bm_arena := A\<rparr>" B]
    by (simp add: usable_def used_covers_def)
qed

lemma used_covers_sub: "used_covers B (X + T) \<Longrightarrow> used_covers B T"
proof -
  have "card (set_mset T) \<le> card (set_mset (X + T))" by (intro card_mono) auto
  then show "used_covers B (X + T) \<Longrightarrow> used_covers B T" by (simp add: used_covers_def)
qed

lemma share_step:
  assumes "usable H n B (kv_tokens K + R)" "size_ok n" "prefix_cache B = Some P" "kv_sized n K" "kv_blocks K = []"
    and "distinct (map token_of (hits H P (match_keys H P ts [])))"
  shows "\<exists>found B1 A K'. bm_allocate_shared H ts [] B = Inr (found, B1) \<and>
    add_shared_kv_blocks found (length ts) (bm_arena B1) K = Inr (A, K') \<and>
    usable H n (B1\<lparr>bm_arena := A\<rparr>) (kv_tokens K' + R) \<and> kv_sized n K' \<and> prefix_cache B1 \<noteq> None \<and>
    num_free_blocks (bm_arena B) \<le> num_free_blocks A \<and>
    (K' = K \<or> num_owned_shared_blocks K' * n = kv_cache_tokens_num K' \<and> kv_cache_tokens_num K' < length ts)"
proof (cases "n \<le> length ts \<and> hits H P (match_keys H P ts []) \<noteq> []")
  case True
  let ?f = "hits H P (match_keys H P ts [])" and ?T = "kv_tokens K + R"
  have u: "bm_inv H B ?T" "sharing_ok B ?T" "used_covers B ?T" "arena_block_size (bm_arena B) = n" "cache_sized B n"
    using assms(1,3) by (simp_all add: usable_def)
  have sz: "pc_block_size P = n" using u(1,4) assms(3) by (simp add: bm_inv_def)
  obtain B1 where s: "bm_allocate_shared H ts [] B = Inr (?f, B1)" "bm_inv H B1 (tokens_of ?f + ?T)"
    "sharing_ok B1 (tokens_of ?f + ?T)" "list_all owned ?f" "cached_tokens B1 = cached_tokens B" "view (cache_part B1) = view P"
    "num_used_blocks B1 + card (set_mset ?T) = num_used_blocks B + card (set_mset (tokens_of ?f + ?T))"
    "arena_block_size (bm_arena B1) = n" "prefix_cache B1 \<noteq> None" "num_free_blocks (bm_arena B1) = num_free_blocks (bm_arena B)"
    using bm_allocate_shared_sharing[OF u(1,2) assms(3) _ _ assms(6)] sz assms(2) True u(4) by auto
  have "used_covers B1 (tokens_of ?f + ?T)" using s(7) u(3) by (simp add: used_covers_def)
  moreover have "cache_sized B1 n" using u(5) s(6) assms(3) by (simp add: cache_sized_def)
  ultimately have u1: "usable H n B1 ((tokens_of ?f + kv_tokens K) + R)" using s(2,3,8) by (simp add: usable_def add_ac)
  have fs: "bsize b = n" if "b \<in> set ?f" for b
    using hits_in_view[OF that] u(5) assms(3) by (simp add: cache_sized_def)
  have hd: "bsize (hd ?f) = n" using fs True by simp
  have "length ?f * n \<le> length ts"
    using length_hits[of P H ts] sz assms(2) by (simp add: size_ok_def less_eq_div_iff_mult_less_eq)
  moreover have "arena_inv (bm_arena B1) (tokens_of ?f + (kv_tokens K + frame B1 R))"
    using bm_inv_frame[of H B1 "tokens_of ?f + kv_tokens K" R] s(2) by (simp add: add_ac)
  ultimately obtain A K' k where a: "add_shared_kv_blocks ?f (length ts) (bm_arena B1) K = Inr (A, K')"
    "arena_inv A (kv_tokens K' + frame B1 R)" "kv_owned K'" "kv_blocks K' = take k ?f" "num_owned_shared_blocks K' = k"
    "kv_cache_tokens_num K' = k * n" "kv_cache_tokens_num K' < length ts" "src_blocks K' = src_blocks K"
    using add_shared_grow[of "bm_arena B1" ?f K "frame B1 R" "length ts"] assms(2,4,5) s(4) hd True
    by (auto simp: kv_sized_def size_ok_def)
  have "tokens_of ?f + kv_tokens K = tokens_of (drop k ?f) + kv_tokens K'"
  proof -
    have "tokens_of ?f = tokens_of (take k ?f) + tokens_of (drop k ?f)"
      unfolding tokens_of_def by (metis append_take_drop_id map_append mset_append)
    then show ?thesis using a(4,8) assms(5) by (simp add: kv_tokens_def tokens_of_def add_ac)
  qed
  then have sub: "tokens_of ?f + ?T = tokens_of (drop k ?f) + (kv_tokens K' + R)" by (metis add.assoc)
  have "usable H n (B1\<lparr>bm_arena := A\<rparr>) (kv_tokens K' + R)"
  proof (rule usable_arena[OF u1 a(2)])
    show "arena_block_size A = n" using add_shared_size[OF a(1)] s(8) by simp
    show "sharing_ok B1 (kv_tokens K' + R)" using sharing_ok_sub s(3) unfolding sub by blast
    show "prefix_cache B1 \<noteq> None \<longrightarrow> used_covers B1 (kv_tokens K' + R)"
      using used_covers_sub \<open>used_covers B1 (tokens_of ?f + ?T)\<close> unfolding sub by blast
  qed
  moreover have "kv_sized n K'"
    using a(3,4) assms(6) fs by (auto simp: kv_sized_def take_map[symmetric] dest: in_set_takeD)
  moreover have "num_free_blocks (bm_arena B) \<le> num_free_blocks A" using add_shared_free[OF a(1)] assms(5) True s(10) by simp
  ultimately show ?thesis
    using s(1,9) a by (intro exI[of _ ?f] exI[of _ B1] exI[of _ A] exI[of _ K'] conjI disjI2) simp_all
next
  case False
  let ?T = "kv_tokens K + R"
  have u: "bm_inv H B ?T" "sharing_ok B ?T" "used_covers B ?T" "arena_block_size (bm_arena B) = n" "cache_sized B n"
    using assms(1,3) by (simp_all add: usable_def)
  have sz: "pc_block_size P = n" using u(1,4) assms(3) by (simp add: bm_inv_def)
  have id: "usable H n C ?T \<Longrightarrow> usable H n (C\<lparr>bm_arena := bm_arena C\<rparr>) (kv_tokens K + R)" for C by simp
  show ?thesis
  proof (cases "n \<le> length ts")
    case short: False
    have "bm_allocate_shared H ts [] B = Inr ([], B)"
      using allocate_shared_short[OF assms(3)] sz assms(2) short by (simp add: size_ok_def)
    then show ?thesis
      using assms(1,3,4) by (intro exI[of _ "[]"] exI[of _ B] exI[of _ "bm_arena B"] exI[of _ K]) (simp add: add_shared_kv_blocks_def)
  next
    case long: True
    then have f: "hits H P (match_keys H P ts []) = []" using False by simp
    obtain B1 where s: "bm_allocate_shared H ts [] B = Inr ([], B1)" "bm_inv H B1 ?T" "sharing_ok B1 ?T"
      "view (cache_part B1) = view P" "num_used_blocks B1 = num_used_blocks B" "arena_block_size (bm_arena B1) = n"
      "prefix_cache B1 \<noteq> None" "num_free_blocks (bm_arena B1) = num_free_blocks (bm_arena B)"
      using bm_allocate_shared_sharing[OF u(1,2) assms(3) _ _ assms(6)] sz assms(2) long u(4) f by auto
    then have "usable H n B1 ?T"
      using u(3,5) assms(3) by (simp add: usable_def used_covers_def cache_sized_def)
    then show ?thesis
      using s(1,7,8) assms(4) by (intro exI[of _ "[]"] exI[of _ B1] exI[of _ "bm_arena B1"] exI[of _ K]) (simp add: add_shared_kv_blocks_def)
  qed
qed

section \<open>Growing by new blocks\<close>

lemma evicted_sized: "evicted_to B T B' \<Longrightarrow> cache_sized B n \<Longrightarrow> cache_sized B' n"
  unfolding evicted_to_def cache_sized_def by (elim conjE) (rule ballI, rule bspec, assumption, rule subsetD)

lemma usable_evicted:
  assumes "usable H n B T" "bm_inv H B' T" "num_used_blocks B' = num_used_blocks B"
    and "arena_block_size (bm_arena B') = arena_block_size (bm_arena B)"
    and "prefix_cache B' = None \<longleftrightarrow> prefix_cache B = None" "evicted_to B T B'"
  shows "usable H n B' T"
proof -
  have "cache_sized B' n" using assms(1) evicted_sized[OF assms(6)] by (simp add: usable_def)
  moreover have "sharing_ok B' T" using assms(1) sharing_ok_evicted[OF _ assms(6)] by (simp add: usable_def)
  ultimately show ?thesis using assms by (simp add: usable_def used_covers_def)
qed

lemma card_tokens_add: "card (set_mset (tokens_of bs + T)) \<le> length bs + card (set_mset T)"
proof -
  have "card (set_mset (tokens_of bs + T)) \<le> card (token_of ` set bs) + card (set_mset T)"
    by (simp add: tokens_of_def card_Un_le)
  also have "card (token_of ` set bs) \<le> length bs" by (metis card_length length_map set_map)
  finally show ?thesis by simp
qed

lemma usable_fresh:
  assumes "usable H n B T" "bm_inv H B' (tokens_of bs + T)" "num_used_blocks B' = num_used_blocks B + length bs"
    and "arena_block_size (bm_arena B') = arena_block_size (bm_arena B)"
    and "prefix_cache B' = None \<longleftrightarrow> prefix_cache B = None" "evicted_to B T B'"
    and "distinct (map bid bs)" "bid ` set bs \<inter> insert 0 (snd ` set_mset T) = {}"
  shows "usable H n B' (tokens_of bs + T)"
proof -
  have "sharing_ok B' T" using assms(1) sharing_ok_evicted[OF _ assms(6)] by (simp add: usable_def)
  then have "sharing_ok B' (tokens_of bs + T)" using assms(7,8) by (rule sharing_ok_add)
  moreover have "cache_sized B' n" using assms(1) evicted_sized[OF assms(6)] by (simp add: usable_def)
  moreover have "prefix_cache B' \<noteq> None \<longrightarrow> used_covers B' (tokens_of bs + T)"
    using assms(1,3,5) card_tokens_add[of bs T] by (auto simp: usable_def used_covers_def)
  ultimately show ?thesis using assms(1,2,4) by (simp add: usable_def)
qed

lemma grow_ok:
  assumes "usable H n B (kv_tokens K + R)" "kv_sized n K" "k < 2 ^ 32" "k \<le> num_free_blocks (bm_arena B) + evictable B"
  defines "grown bs \<equiv> K\<lparr>kv_blocks := kv_blocks K @ bs\<rparr>"
  shows "\<exists>bs B1 A2 A3. bm_allocate H k B = Inr (bs, B1) \<and> length bs = k \<and> add_kv_blocks bs (bm_arena B1) K = Inr (A2, grown bs) \<and>
    destroy_blocks bs A2 = Inr A3 \<and> usable H n (B1\<lparr>bm_arena := A3\<rparr>) (kv_tokens (grown bs) + R) \<and> kv_sized n (grown bs) \<and>
    (prefix_cache B1 = None \<longleftrightarrow> prefix_cache B = None)"
proof -
  let ?T = "kv_tokens K + R"
  have u: "bm_inv H B ?T" "arena_block_size (bm_arena B) = n" using assms(1) by (simp_all add: usable_def)
  obtain bs B1 where a: "bm_allocate H k B = Inr (bs, B1)" "length bs = k" "bm_inv H B1 (tokens_of bs + ?T)" "list_all owned bs"
    "distinct (map bid bs)" "bid ` set bs \<inter> insert 0 (snd ` set_mset ?T) = {}" "\<forall>b \<in> set bs. bsize b = n"
    "num_used_blocks B1 = num_used_blocks B + length bs" "arena_block_size (bm_arena B1) = arena_block_size (bm_arena B)"
    "prefix_cache B1 = None \<longleftrightarrow> prefix_cache B = None" "evicted_to B ?T B1"
    using bm_allocate_ok[OF u(1) assms(3,4)] u(2) by auto
  have u1: "usable H n B1 (tokens_of bs + ?T)" by (rule usable_fresh[OF assms(1) a(3,8,9,10,11,5,6)])
  have tok: "kv_tokens (grown bs) = tokens_of bs + kv_tokens K" by (simp add: grown_def kv_tokens_def tokens_of_def add_ac)
  have "arena_inv (bm_arena B1) (kv_tokens K + (tokens_of bs + frame B1 R))"
    using bm_inv_frame[of H B1 "tokens_of bs + kv_tokens K" R] a(3) by (simp add: add_ac)
  then obtain A2 where A2: "add_kv_blocks bs (bm_arena B1) K = Inr (A2, grown bs)" "kv_owned (grown bs)"
    "arena_inv A2 (kv_tokens (grown bs) + (tokens_of bs + frame B1 R))"
    using add_kv_blocks_inv[of "bm_arena B1" K _ bs] a(4) assms(2) unfolding grown_def kv_sized_def by fastforce
  then obtain A3 where A3: "destroy_blocks bs A2 = Inr A3" "arena_inv A3 (kv_tokens (grown bs) + frame B1 R)"
    using destroy_blocks_inv[of A2 bs "kv_tokens (grown bs) + frame B1 R"] a(4) by (auto simp: add_ac)
  have "usable H n (B1\<lparr>bm_arena := A3\<rparr>) (kv_tokens (grown bs) + R)"
  proof (rule usable_arena[of H n B1 "kv_tokens (grown bs)"])
    show "usable H n B1 (kv_tokens (grown bs) + R)" using u1 tok by (simp add: add_ac)
    then show "sharing_ok B1 (kv_tokens (grown bs) + R)" "prefix_cache B1 \<noteq> None \<longrightarrow> used_covers B1 (kv_tokens (grown bs) + R)"
      by (simp_all add: usable_def)
    show "arena_block_size A3 = n" using destroy_blocks_size[OF A3(1)] add_kv_blocks_size[OF A2(1)] a(9) u(2) by simp
  qed (rule A3(2))
  moreover have "kv_sized n (grown bs)"
  proof -
    have "token_of c \<noteq> token_of b" if "c \<in> set (kv_blocks K)" "b \<in> set bs" for b c
    proof
      assume "token_of c = token_of b"
      moreover have "token_of c \<in># ?T" using that(1) by (simp add: kv_tokens_def tokens_of_def)
      ultimately have "bid b \<in> snd ` set_mset ?T" by (metis bid_token image_eqI)
      then show False using a(6) that(2) by auto
    qed
    moreover have "distinct (map token_of bs)" using a(5) by (auto simp: distinct_map inj_on_def token_of_def)
    ultimately show ?thesis using assms(2) A2(2) a(7) by (auto simp: kv_sized_def grown_def) force
  qed
  ultimately show ?thesis
    using a(1,2,10) A2(1) A3(1)
    by (intro exI[of _ bs] exI[of _ B1] exI[of _ A2] exI[of _ A3]) simp
qed

lemma grow_none:
  assumes "usable H n B T" "k < 2 ^ 32" "num_free_blocks (bm_arena B) + evictable B < k"
  shows "\<exists>B1. bm_allocate H k B = Inr ([], B1) \<and> usable H n B1 T \<and> (prefix_cache B1 = None \<longleftrightarrow> prefix_cache B = None)"
proof -
  have i: "bm_inv H B T" using assms(1) by (simp add: usable_def)
  obtain B1 where b: "bm_allocate H k B = Inr ([], B1) \<and> bm_inv H B1 T \<and> num_used_blocks B1 = num_used_blocks B \<and>
    arena_block_size (bm_arena B1) = arena_block_size (bm_arena B) \<and>
    (prefix_cache B1 = None \<longleftrightarrow> prefix_cache B = None) \<and> evicted_to B T B1"
    using bm_allocate_none[OF i assms(2,3)] by (elim exE)
  have "usable H n B1 T" by (rule usable_evicted[OF assms(1)]) (simp_all add: b)
  then show ?thesis using b by (intro exI[of _ B1]) simp
qed

section \<open>allocate\<close>

definition alloc_ok :: "hash_lib \<Rightarrow> pool \<Rightarrow> nat \<Rightarrow> token multiset \<Rightarrow> bool" where
  "alloc_ok H Q d T \<longleftrightarrow> d < length (bp_managers Q) \<and> length (bp_embeds Q) = length (bp_managers Q) \<and>
     usable H (bp_block_size Q) (bp_managers Q ! d) T \<and> size_ok (bp_block_size Q) \<and>
     (prefix_cache (bp_managers Q ! d) \<noteq> None \<longleftrightarrow> bp_enable_prefix_cache Q) \<and> em_inv (bp_embeds Q ! d)"

definition seq_alloc :: "pool \<Rightarrow> nat \<Rightarrow> sequence \<Rightarrow> bool" where
  "seq_alloc Q d s \<longleftrightarrow> sq_dp_rank s = int d \<and> seq_inv s \<and> kv_sized (bp_block_size Q) (sq_kv s) \<and>
     embed_ok s (bp_embeds Q ! d) \<and> \<not> 1 < beam_width (sq_params s)"

lemma sharing_shared: "sharing_ok B T \<Longrightarrow> shared_cached B T"
  unfolding sharing_ok_def shared_cached_def by blast

lemma alloc_ok_rank: "alloc_ok H Q d T \<Longrightarrow> rank_ok H Q d T \<and> usage_ok Q d T"
  by (auto simp: alloc_ok_def rank_ok_def usage_ok_def usable_def sharing_shared)

lemma alloc_ok_put:
  assumes "alloc_ok H Q d T" "usable H (bp_block_size Q) B T'" "prefix_cache B = None \<longleftrightarrow> prefix_cache (bp_managers Q ! d) = None"
  shows "alloc_ok H (put_mgr d B Q) d T'"
  using assms by (simp add: alloc_ok_def)

lemma no_beam [simp]: "\<not> 1 < beam_width (sq_params s) \<Longrightarrow> bp_process_beam_search H b s Q = Inr (True, s, Q)"
  by (simp add: bp_process_beam_search_def)

text \<open>The blocks \<open>allocate_shared\<close> would find are pairwise different.\<close>

definition distinct_hits :: "hash_lib \<Rightarrow> pool \<Rightarrow> nat \<Rightarrow> sequence \<Rightarrow> bool" where
  "distinct_hits H Q d s \<longleftrightarrow>
     (let P = cache_part (bp_managers Q ! d) in distinct (map token_of (hits H P (match_keys H P (tokens_view s) []))))"

lemma pool_share:
  assumes "alloc_ok H Q d (kv_tokens (sq_kv s) + R)" "seq_alloc Q d s" "kv_blocks (sq_kv s) = []" "distinct_hits H Q d s"
  shows "\<exists>K B. bp_allocate_shared H s Q = Inr (s\<lparr>sq_kv := K\<rparr>, put_mgr d B Q) \<and> kv_sized (bp_block_size Q) K \<and>
    usable H (bp_block_size Q) B (kv_tokens K + R) \<and> (prefix_cache B = None \<longleftrightarrow> prefix_cache (bp_managers Q ! d) = None) \<and>
    num_free_blocks (bm_arena (bp_managers Q ! d)) \<le> num_free_blocks (bm_arena B)"
proof (cases "prefix_cache (bp_managers Q ! d)")
  case None
  have "put_mgr d (bp_managers Q ! d) Q = Q" by (simp add: put_mgr_def)
  then show ?thesis
    using None assms by (intro exI[of _ "sq_kv s"] exI[of _ "bp_managers Q ! d"])
      (simp add: bp_allocate_shared_def alloc_ok_def seq_alloc_def)
next
  case (Some P)
  let ?n = "bp_block_size Q" and ?B = "bp_managers Q ! d"
  have a: "d < length (bp_managers Q)" "usable H ?n ?B (kv_tokens (sq_kv s) + R)" "size_ok ?n" "bp_enable_prefix_cache Q"
    using assms(1) Some by (simp_all add: alloc_ok_def)
  have s: "kv_sized ?n (sq_kv s)" "num_owned_shared_blocks (sq_kv s) = 0" "length (tokens_view s) = sq_num_tokens s" "sq_dp_rank s = int d"
    using assms(2,3) length_tokens_view[of s] by (simp_all add: seq_alloc_def kv_sized_def kv_owned_def)
  have "distinct (map token_of (hits H P (match_keys H P (tokens_view s) [])))"
    using assms(4) Some by (simp add: distinct_hits_def)
  from share_step[OF a(2,3) Some s(1) assms(3) this] obtain found B1 A K where
    sh: "bm_allocate_shared H (tokens_view s) [] ?B = Inr (found, B1)"
    "add_shared_kv_blocks found (length (tokens_view s)) (bm_arena B1) (sq_kv s) = Inr (A, K)"
    "usable H ?n (B1\<lparr>bm_arena := A\<rparr>) (kv_tokens K + R)" "kv_sized ?n K" "prefix_cache B1 \<noteq> None"
    "num_free_blocks (bm_arena ?B) \<le> num_free_blocks A"
    by blast
  have "bp_allocate_shared H s Q = Inr (s\<lparr>sq_kv := K\<rparr>, put_mgr d (B1\<lparr>bm_arena := A\<rparr>) Q)"
    using a(1,4) s(2-4) assms(3) sh(1,2) by (simp add: bp_allocate_shared_def put_arena_def sub_slice_def)
  then show ?thesis using sh(3-6) Some by (intro exI[of _ K] exI[of _ "B1\<lparr>bm_arena := A\<rparr>"]) simp
qed

lemma put_put [simp]: "put_mgr d B (put_mgr d C Q) = put_mgr d B Q"
  by (simp add: put_mgr_def)

lemma nth_put [simp]: "d < length (bp_managers Q) \<Longrightarrow> bp_managers (put_mgr d B Q) ! d = B"
  by simp

lemma released_alloc_ok:
  assumes "alloc_ok H Q d (kv_tokens (sq_kv s) + R)" "released H e d R s Q s' Q'"
    and "cached_tokens (bp_managers Q' ! d) = cached_tokens (bp_managers Q ! d)"
  shows "alloc_ok H Q' d (kv_tokens (sq_kv s') + R)"
proof -
  let ?X = "tokens_of (src_blocks (sq_kv s)) + R"
  have r: "rank_ok H Q' d ?X" "usage_ok Q' d ?X" "kv_tokens (sq_kv s') = tokens_of (src_blocks (sq_kv s))"
    using assms(2) by (simp_all add: released_def kv_tokens_def)
  have "sharing_ok (bp_managers Q ! d) (tokens_of (kv_blocks (sq_kv s)) + ?X)"
    using assms(1) by (simp add: alloc_ok_def usable_def kv_tokens_def add_ac)
  then have "sharing_ok (bp_managers Q ! d) ?X" by (rule sharing_ok_sub)
  then have "sharing_ok (bp_managers Q' ! d) ?X" using sharing_ok_cong[OF assms(3)] by simp
  then show ?thesis
    using r by (simp add: alloc_ok_def rank_ok_def usage_ok_def usable_def add_ac)
qed

lemma grow_blocks_ok:
  assumes "alloc_ok H Q d (kv_tokens (sq_kv s) + R)" "seq_alloc Q d s" "k < 2 ^ 32"
  shows "\<exists>ok s' Q'. grow_blocks H st e d k s Q = Inr (ok, s', Q') \<and> alloc_ok H Q' d (kv_tokens (sq_kv s') + R) \<and>
    tokens_view s' = tokens_view s \<and>
    (ok \<longleftrightarrow> k \<le> num_free_blocks (bm_arena (bp_managers Q ! d)) + evictable (bp_managers Q ! d)) \<and>
    (ok \<longrightarrow> length (kv_blocks (sq_kv s')) = length (kv_blocks (sq_kv s)) + k \<and> seq_alloc Q' d s' \<and> embedding_id s' = embedding_id s) \<and>
    (\<not> ok \<longrightarrow> kv_blocks (sq_kv s') = (if st then [] else kv_blocks (sq_kv s)) \<and>
       embedding_id s' = (if st \<and> e then None else embedding_id s))"
proof -
  let ?n = "bp_block_size Q" and ?B = "bp_managers Q ! d"
  have a: "d < length (bp_managers Q)" "usable H ?n ?B (kv_tokens (sq_kv s) + R)" using assms(1) by (simp_all add: alloc_ok_def)
  have s: "kv_sized ?n (sq_kv s)" "seq_inv s" "embed_ok s (bp_embeds Q ! d)" using assms(2) by (simp_all add: seq_alloc_def)
  show ?thesis
  proof (cases "k \<le> num_free_blocks (bm_arena ?B) + evictable ?B")
    case True
    let ?K = "\<lambda>bs. (sq_kv s)\<lparr>kv_blocks := kv_blocks (sq_kv s) @ bs\<rparr>"
    obtain bs B1 A2 A3 where g: "bm_allocate H k ?B = Inr (bs, B1)" "length bs = k"
      "add_kv_blocks bs (bm_arena B1) (sq_kv s) = Inr (A2, ?K bs)" "destroy_blocks bs A2 = Inr A3"
      "usable H ?n (B1\<lparr>bm_arena := A3\<rparr>) (kv_tokens (?K bs) + R)" "kv_sized ?n (?K bs)"
      "prefix_cache B1 = None \<longleftrightarrow> prefix_cache ?B = None"
      using grow_ok[OF a(2) s(1) assms(3) True] by (elim exE conjE) (rule that)
    let ?s = "s\<lparr>sq_kv := ?K bs\<rparr>" and ?Q = "put_mgr d (B1\<lparr>bm_arena := A3\<rparr>) Q"
    have "grow_blocks H st e d k s Q = Inr (True, ?s, ?Q)"
      using g(1-4) a(1) by (simp add: grow_blocks_def put_arena_def Let_def)
    moreover have "alloc_ok H ?Q d (kv_tokens (sq_kv ?s) + R)"
      using alloc_ok_put[OF assms(1) g(5)] g(7) by simp
    moreover have "seq_alloc ?Q d ?s" using assms(2) g(6) by (simp add: seq_alloc_def seq_inv_def embed_ok_def)
    ultimately show ?thesis
      using True g(2) by (intro exI[of _ True] exI[of _ ?s] exI[of _ ?Q]) (simp add: tokens_view_def)
  next
    case False
    obtain B1 where g: "bm_allocate H k ?B = Inr ([], B1)" "usable H ?n B1 (kv_tokens (sq_kv s) + R)"
      "prefix_cache B1 = None \<longleftrightarrow> prefix_cache ?B = None"
      using grow_none[OF a(2) assms(3)] False by (auto simp: not_le)
    let ?Q1 = "put_mgr d B1 Q"
    have k: "0 \<noteq> k" using False by simp
    have q1: "alloc_ok H ?Q1 d (kv_tokens (sq_kv s) + R)" by (rule alloc_ok_put[OF assms(1) g(2,3)])
    have bs: "destroy_blocks [] A = Inr A" for A by (simp add: destroy_blocks_def)
    have put: "d < length (bp_managers Q') \<Longrightarrow> put_arena d (bm_arena (bp_managers Q' ! d)) (bp_managers Q' ! d) Q' = Q'" for Q'
      by (simp add: put_arena_def put_mgr_def)
    show ?thesis
    proof (cases st)
      case True
      have "distinct (map token_of (kv_blocks (sq_kv s)))" "kv_owned (sq_kv s)" using s(1) by (simp_all add: kv_sized_def)
      moreover have "embed_ok s (bp_embeds ?Q1 ! d)" using s(3) by simp
      ultimately obtain s' Q' where r: "release_all e d s ?Q1 = Inr (s', Q')" "released H e d R s ?Q1 s' Q'"
        "cached_tokens (bp_managers Q' ! d) = cached_tokens (bp_managers ?Q1 ! d)"
        using release_all_ok[of H ?Q1 d s R e] alloc_ok_rank[OF q1] s(2) by blast
      have len: "d < length (bp_managers Q')" using r(2) a(1) by (simp add: released_def)
      have "grow_blocks H st e d k s Q = Inr (False, s', Q')"
        using g(1) a(1) k True r(1) len by (simp add: grow_blocks_def Let_def bs put)
      then show ?thesis
        using released_alloc_ok[OF q1 r(2,3)] r(2) False True
        by (intro exI[of _ False] exI[of _ s'] exI[of _ Q']) (simp add: released_def)
    next
      case st: False
      have "grow_blocks H st e d k s Q = Inr (False, s, ?Q1)"
        using g(1) a(1) k st put[of ?Q1] by (simp add: grow_blocks_def Let_def bs)
      then show ?thesis
        using q1 False st by (intro exI[of _ False] exI[of _ s] exI[of _ ?Q1]) simp
    qed
  qed
qed

lemma alloc_embed:
  assumes "alloc_ok H Q d T" "seq_alloc Q d s"
  shows "\<exists>ok s1 Q1. (if embedding_id s = None then allocate_embedding_id d s Q else Inr (True, s, Q)) = Inr (ok, s1, Q1) \<and>
    alloc_ok H Q1 d T \<and> seq_alloc Q1 d s1 \<and> sq_kv s1 = sq_kv s \<and> tokens_view s1 = tokens_view s \<and>
    bp_managers Q1 = bp_managers Q \<and> bp_block_size Q1 = bp_block_size Q \<and>
    (ok \<longrightarrow> embedding_id s1 \<noteq> None) \<and> (ok \<longleftrightarrow> embedding_id s \<noteq> None \<or> 0 < em_num_free (bp_embeds Q ! d))"
proof (cases "embedding_id s")
  case None
  have e: "d < length (bp_embeds Q)" "em_inv (bp_embeds Q ! d)" using assms(1) by (simp_all add: alloc_ok_def)
  obtain ok s1 E x where a: "allocate_embedding_id d s Q = Inr (ok, s1, Q\<lparr>bp_embeds := (bp_embeds Q)[d := E]\<rparr>)" "em_inv E"
    "embed_ok s1 E" "ok \<longleftrightarrow> 0 < em_num_free (bp_embeds Q ! d)" "s1 = s\<lparr>embedding_id := x\<rparr>" "ok \<longleftrightarrow> x \<noteq> None"
    using allocate_embedding_id_ok[OF e None] by (elim exE conjE) (rule that)
  let ?Q1 = "Q\<lparr>bp_embeds := (bp_embeds Q)[d := E]\<rparr>"
  have "alloc_ok H ?Q1 d T" "seq_alloc ?Q1 d s1"
    using assms a(2,3,5) e(1) by (simp_all add: alloc_ok_def seq_alloc_def seq_inv_def)
  then show ?thesis using None a by (intro exI[of _ ok] exI[of _ s1] exI[of _ ?Q1]) (simp add: tokens_view_def)
next
  case (Some i)
  then show ?thesis using assms by (intro exI[of _ True] exI[of _ s] exI[of _ Q]) simp
qed

text \<open>
  The blocks the sequence has before new ones are allocated: its own, or those adopted from
  the cache.
\<close>

lemma pool_start:
  assumes "alloc_ok H Q d (kv_tokens (sq_kv s) + R)" "seq_alloc Q d s" "kv_blocks (sq_kv s) = [] \<longrightarrow> distinct_hits H Q d s"
  shows "\<exists>s2 Q2. (if kv_blocks (sq_kv s) = [] then bp_allocate_shared H s Q else Inr (s, Q)) = Inr (s2, Q2) \<and>
    alloc_ok H Q2 d (kv_tokens (sq_kv s2) + R) \<and> seq_alloc Q2 d s2 \<and> tokens_view s2 = tokens_view s \<and>
    embedding_id s2 = embedding_id s \<and> bp_block_size Q2 = bp_block_size Q \<and>
    (kv_blocks (sq_kv s) \<noteq> [] \<longrightarrow> kv_blocks (sq_kv s2) = kv_blocks (sq_kv s)) \<and>
    num_free_blocks (bm_arena (bp_managers Q ! d)) \<le> num_free_blocks (bm_arena (bp_managers Q2 ! d))"
proof (cases "kv_blocks (sq_kv s) = []")
  case True
  then have h: "distinct_hits H Q d s" using assms(3) by simp
  obtain K B where p: "bp_allocate_shared H s Q = Inr (s\<lparr>sq_kv := K\<rparr>, put_mgr d B Q)" "kv_sized (bp_block_size Q) K"
    "usable H (bp_block_size Q) B (kv_tokens K + R)" "prefix_cache B = None \<longleftrightarrow> prefix_cache (bp_managers Q ! d) = None"
    "num_free_blocks (bm_arena (bp_managers Q ! d)) \<le> num_free_blocks (bm_arena B)"
    using pool_share[OF assms(1,2) True h] by (elim exE conjE) (rule that)
  have "alloc_ok H (put_mgr d B Q) d (kv_tokens K + R)" by (rule alloc_ok_put[OF assms(1) p(3,4)])
  moreover have "seq_alloc (put_mgr d B Q) d (s\<lparr>sq_kv := K\<rparr>)"
    using assms(2) p(2) by (simp add: seq_alloc_def seq_inv_def embed_ok_def)
  moreover have "d < length (bp_managers Q)" using assms(1) by (simp add: alloc_ok_def)
  ultimately show ?thesis
    using True p(1,5) by (intro exI[of _ "s\<lparr>sq_kv := K\<rparr>"] exI[of _ "put_mgr d B Q"]) (simp add: tokens_view_def)
next
  case False
  then show ?thesis using assms(1,2) by (intro exI[of _ s] exI[of _ Q]) simp
qed

lemma bp_allocate_ok:
  fixes Q :: pool and n :: nat
  defines "needed \<equiv> round_up_div n (bp_block_size Q)"
  assumes "alloc_ok H Q d (kv_tokens (sq_kv s) + R)" "seq_alloc Q d s" "kv_blocks (sq_kv s) = [] \<longrightarrow> distinct_hits H Q d s"
    and "needed < 2 ^ 32"
  shows "\<exists>ok s' Q'. bp_allocate H n s Q = Inr (ok, s', Q') \<and> alloc_ok H Q' d (kv_tokens (sq_kv s') + R) \<and>
    tokens_view s' = tokens_view s \<and>
    (ok \<longrightarrow> needed \<le> length (kv_blocks (sq_kv s')) \<and> seq_alloc Q' d s' \<and> embedding_id s' \<noteq> None) \<and>
    (\<not> ok \<longrightarrow> kv_blocks (sq_kv s') = kv_blocks (sq_kv s)) \<and>
    ((embedding_id s \<noteq> None \<or> 0 < em_num_free (bp_embeds Q ! d)) \<and>
      needed \<le> num_free_blocks (bm_arena (bp_managers Q ! d)) \<longrightarrow> ok)"
proof -
  let ?st = "kv_blocks (sq_kv s) = []" and ?e = "embedding_id s = None"
  have rank: "get_dp_rank s Q = (d, s)" using assms(3) by (simp add: seq_alloc_def)
  obtain ok1 s1 Q1 where e: "(if ?e then allocate_embedding_id d s Q else Inr (True, s, Q)) = Inr (ok1, s1, Q1)"
    "alloc_ok H Q1 d (kv_tokens (sq_kv s) + R)" "seq_alloc Q1 d s1" "sq_kv s1 = sq_kv s" "tokens_view s1 = tokens_view s"
    "bp_managers Q1 = bp_managers Q" "bp_block_size Q1 = bp_block_size Q" "ok1 \<longrightarrow> embedding_id s1 \<noteq> None"
    "ok1 \<longleftrightarrow> embedding_id s \<noteq> None \<or> 0 < em_num_free (bp_embeds Q ! d)"
    using alloc_embed[OF assms(2,3)] by (elim exE conjE) (rule that)
  show ?thesis
  proof (cases ok1)
    case False
    then have "bp_allocate H n s Q = Inr (False, s1, Q1)" using rank e(1) by (simp add: bp_allocate_def Let_def)
    then show ?thesis using e(2,4,5,9) False by (intro exI[of _ False] exI[of _ s1] exI[of _ Q1]) simp
  next
    case True
    have h: "kv_blocks (sq_kv s1) = [] \<longrightarrow> distinct_hits H Q1 d s1"
      using assms(4) e(4-6) by (simp add: distinct_hits_def)
    obtain s2 Q2 where p: "(if kv_blocks (sq_kv s1) = [] then bp_allocate_shared H s1 Q1 else Inr (s1, Q1)) = Inr (s2, Q2)"
      "alloc_ok H Q2 d (kv_tokens (sq_kv s2) + R)" "seq_alloc Q2 d s2" "tokens_view s2 = tokens_view s1"
      "embedding_id s2 = embedding_id s1" "bp_block_size Q2 = bp_block_size Q1"
      "kv_blocks (sq_kv s1) \<noteq> [] \<longrightarrow> kv_blocks (sq_kv s2) = kv_blocks (sq_kv s1)"
      "num_free_blocks (bm_arena (bp_managers Q1 ! d)) \<le> num_free_blocks (bm_arena (bp_managers Q2 ! d))"
      using pool_start[OF e(2)[folded e(4)] e(3) h] by (elim exE conjE) (rule that)
    have nb: "\<not> 1 < beam_width (sq_params s2)" using p(3) by (simp add: seq_alloc_def)
    show ?thesis
    proof (cases "needed \<le> length (kv_blocks (sq_kv s2))")
      case enough: True
      have "bp_allocate H n s Q = Inr (True, s2, Q2)"
        using rank e(1,4) p(1) True enough nb by (simp add: bp_allocate_def Let_def needed_def)
      then show ?thesis
        using p e(5,8) True enough by (intro exI[of _ True] exI[of _ s2] exI[of _ Q2]) simp
    next
      case grow: False
      let ?k = "needed - length (kv_blocks (sq_kv s2))"
      have k: "?k < 2 ^ 32" "?k mod 2 ^ 32 = ?k" using assms(5) by simp_all
      obtain ok s' Q' where g: "grow_blocks H ?st ?e d ?k s2 Q2 = Inr (ok, s', Q')" "alloc_ok H Q' d (kv_tokens (sq_kv s') + R)"
        "tokens_view s' = tokens_view s2" "ok \<longleftrightarrow> ?k \<le> num_free_blocks (bm_arena (bp_managers Q2 ! d)) + evictable (bp_managers Q2 ! d)"
        "ok \<longrightarrow> length (kv_blocks (sq_kv s')) = length (kv_blocks (sq_kv s2)) + ?k \<and> seq_alloc Q' d s' \<and> embedding_id s' = embedding_id s2"
        "\<not> ok \<longrightarrow> kv_blocks (sq_kv s') = (if ?st then [] else kv_blocks (sq_kv s2)) \<and>
          embedding_id s' = (if ?st \<and> ?e then None else embedding_id s2)"
        using grow_blocks_ok[OF p(2,3) k(1), of ?st ?e] by (elim exE conjE) (rule that)
      have "bp_allocate H n s Q = Inr (ok, s', Q')"
        using rank e(1,4) p(1) True grow nb g(1) k(2) by (simp add: bp_allocate_def Let_def needed_def)
      moreover have "needed \<le> num_free_blocks (bm_arena (bp_managers Q ! d)) \<longrightarrow> ok" using g(4) p(8) e(6) by auto
      ultimately show ?thesis
        using g(2,3,5,6) p(4,5,7) e(4,5,8) True grow by (intro exI[of _ ok] exI[of _ s'] exI[of _ Q']) auto
    qed
  qed
qed

section \<open>A new pool\<close>

lemma bman_new_usable:
  assumes "0 < n" "0 < bs"
  shows "\<exists>B. bman_new n bs e = Inr B \<and> usable H (nat bs) B {#} \<and> (prefix_cache B \<noteq> None \<longleftrightarrow> e) \<and>
    num_free_blocks (bm_arena B) = n - 1 \<and> num_used_blocks B = 0 \<and> view (cache_part B) = Map.empty"
proof -
  obtain B where B: "bman_new n bs e = Inr B" "bm_inv H B {#}" "num_free_blocks (bm_arena B) = n - 1"
    "num_used_blocks B = 0" "arena_block_size (bm_arena B) = nat bs" "prefix_cache B \<noteq> None \<longleftrightarrow> e"
    using bman_new_inv[OF assms] by blast
  have v: "view (cache_part B) = Map.empty" "cached_tokens B = {#}"
    using B(1) by (auto simp: bman_new_def Let_def cache_part_def pcache_new_def node_tokens_def view_def)
  then have "usable H (nat bs) B {#}"
    using B by (simp add: usable_def sharing_ok_def used_covers_def cache_sized_def)
  then show ?thesis using B v by (intro exI[of _ B]) simp
qed

lemma make_managers_ok:
  assumes "0 < n" "0 < bs"
  shows "\<exists>Bs. make_managers k n bs e = Inr Bs \<and> length Bs = k \<and>
    (\<forall>B \<in> set Bs. usable H (nat bs) B {#} \<and> (prefix_cache B \<noteq> None \<longleftrightarrow> e) \<and> num_free_blocks (bm_arena B) = n - 1 \<and>
       num_used_blocks B = 0 \<and> view (cache_part B) = Map.empty)"
proof (induction k)
  case (Suc k)
  then show ?case using bman_new_usable[OF assms, of e H] by auto
qed simp

lemma bpool_new_ok:
  assumes "0 < n" "0 < bs" "size_ok (nat bs)" "0 < dp"
  shows "\<exists>Q. bpool_new n bs e m dp = Inr Q \<and> length (bp_managers Q) = nat dp \<and> bp_block_size Q = nat bs \<and>
    (\<forall>d < nat dp. alloc_ok H Q d {#} \<and> mgr_free (bp_managers Q ! d) = n - 1 \<and> num_used_blocks (bp_managers Q ! d) = 0 \<and>
       view (cache_part (bp_managers Q ! d)) = Map.empty \<and> bp_embeds Q ! d = eman_new (m + 2))"
proof -
  obtain Bs where "make_managers (nat dp) n bs e = Inr Bs" "length Bs = nat dp"
    "\<forall>B \<in> set Bs. usable H (nat bs) B {#} \<and> (prefix_cache B \<noteq> None \<longleftrightarrow> e) \<and> num_free_blocks (bm_arena B) = n - 1 \<and>
       num_used_blocks B = 0 \<and> view (cache_part B) = Map.empty"
    using make_managers_ok[OF assms(1,2)] by blast
  then show ?thesis
    using assms(3,4) by (simp add: bpool_new_def alloc_ok_def eman_new_inv mgr_free_def)
qed

section \<open>Allocation leaves the text alone\<close>

definition same_text :: "sequence \<Rightarrow> sequence \<Rightarrow> bool" where
  "same_text s s' \<longleftrightarrow> sq_params s' = sq_params s \<and> sq_tokens s' = sq_tokens s \<and> sq_num_tokens s' = sq_num_tokens s \<and>
     sq_num_prompt_tokens s' = sq_num_prompt_tokens s \<and> sq_finished s' = sq_finished s \<and>
     finish_status_invalidated s' = finish_status_invalidated s"

lemma same_text_refl [simp]: "same_text s s"
  by (simp add: same_text_def)

lemma same_text_trans: "same_text s s1 \<Longrightarrow> same_text s1 s2 \<Longrightarrow> same_text s s2"
  by (simp add: same_text_def)

lemma get_dp_rank_text: "get_dp_rank s Q = (d, s') \<Longrightarrow> same_text s s'"
  by (auto simp: get_dp_rank_def same_text_def Let_def split: if_splits)

lemma allocate_embedding_id_text:
  assumes "allocate_embedding_id d s Q = Inr (ok, s', Q')"
  shows "same_text s s'"
proof (cases "embedding_id s")
  case None
  then obtain "is" E where a: "em_allocate 1 (bp_embeds Q ! d) = Inr (is, E)"
    using assms by (auto simp: allocate_embedding_id_def)
  then show ?thesis using assms None by (cases "is") (auto simp: allocate_embedding_id_def same_text_def Let_def)
qed (use assms in \<open>auto simp: allocate_embedding_id_def\<close>)

lemma deallocate_embedding_id_text: "deallocate_embedding_id d s Q = Inr (s', Q') \<Longrightarrow> same_text s s'"
  by (auto simp: deallocate_embedding_id_def same_text_def split: option.splits)

lemma reset_on_text: "reset_on d s Q = Inr (s', Q') \<Longrightarrow> same_text s s'"
  by (auto simp: reset_on_def seq_reset_def same_text_def)

lemma bp_allocate_shared_text: "bp_allocate_shared H s Q = Inr (s', Q') \<Longrightarrow> same_text s s'"
  by (auto simp: bp_allocate_shared_def split: if_splits prod.splits dest!: get_dp_rank_text) (auto simp: same_text_def)

lemma bp_process_beam_search_text: "bp_process_beam_search H b s Q = Inr (ok, s', Q') \<Longrightarrow> same_text s s'"
  by (auto simp: bp_process_beam_search_def Let_def split: if_splits prod.splits dest!: get_dp_rank_text) (auto simp: same_text_def)

lemma rollback_text: "rollback b e d s Q = Inr (s', Q') \<Longrightarrow> same_text s s'"
  by (auto simp: rollback_def split: if_splits dest!: reset_on_text deallocate_embedding_id_text intro: same_text_trans)

lemma grow_blocks_text: "grow_blocks H b e d n s Q = Inr (ok, s', Q') \<Longrightarrow> same_text s s'"
  by (auto simp: grow_blocks_def Let_def split: if_splits dest!: rollback_text) (auto simp: same_text_def)

lemma bp_allocate_text: "bp_allocate H n s Q = Inr (ok, s', Q') \<Longrightarrow> same_text s s'"
  by (auto simp: bp_allocate_def Let_def split: if_splits prod.splits
      dest!: get_dp_rank_text allocate_embedding_id_text bp_allocate_shared_text bp_process_beam_search_text grow_blocks_text)
    (auto simp: same_text_def)

end
