(* ===== verification/Pool_Properties.thy ===== *)
theory Pool_Properties
  imports Cache_Properties Sequence_Properties Block_Pool_Alloc
begin

text \<open>The properties of the pool of block managers, on a concrete pool and sequence that the
  witnesses of the scheduler's properties use too.\<close>

section \<open>A concrete pool and sequence\<close>

lemma demo_pool:
  "\<exists>Q. bpool_new 4 2 True 2 1 = Inr Q \<and> length (bp_managers Q) = 1 \<and> bp_block_size Q = 2 \<and> alloc_ok demo_lib Q 0 {#} \<and>
    num_free_blocks (bm_arena (bp_managers Q ! 0)) = 3 \<and> view (cache_part (bp_managers Q ! 0)) = Map.empty \<and>
    0 < em_num_free (bp_embeds Q ! 0) \<and> bp_enable_prefix_cache Q"
proof -
  have "0 < em_num_free (eman_new 4)" by (simp add: eman_new_def)
  moreover have "bp_enable_prefix_cache Q" if "bpool_new 4 2 True 2 1 = Inr Q" for Q
    using that by (auto simp: bpool_new_def)
  ultimately show ?thesis using bpool_new_ok[of 4 2 1 True 2 demo_lib] by (auto simp: size_ok_def mgr_free_def)
qed

definition fresh_seq :: sequence where
  "fresh_seq = (demo_seq False)\<lparr>sq_dp_rank := 0, sq_kv := kv_state_new\<rparr>"

lemma fresh_seq_ok:
  "seq_inv fresh_seq" "sq_dp_rank fresh_seq = 0" "kv_blocks (sq_kv fresh_seq) = []" "kv_tokens (sq_kv fresh_seq) = {#}"
  "embedding_id fresh_seq = None" "kv_sized n (sq_kv fresh_seq)" "\<not> 1 < beam_width (sq_params fresh_seq)"
  "num_owned_shared_blocks (sq_kv fresh_seq) = 0" "src_blocks (sq_kv fresh_seq) = []"
  by (simp_all add: fresh_seq_def demo_seq_def seq_new_def seq_blank_def demo_params_def seq_inv_def kv_state_new_def
      kv_tokens_def kv_sized_def kv_owned_def)

lemma empty_hits:
  assumes "view P = Map.empty"
  shows "hits H P ks = []"
proof -
  have "cached_blocks P k = None" for k using fun_cong[OF assms, of k] by (simp add: view_def)
  then show ?thesis by (cases ks) (simp_all add: hits_def find_key_def)
qed

section \<open>The pool of block managers\<close>

text \<open>\<open>get_manager_with_max_free_blocks\<close> picks a valid rank whose manager has the most free
  blocks, the first one on a tie; a sequence without a rank is bound to it.\<close>

theorem rank_choice:
  assumes "bp_managers Q \<noteq> []" "sq_dp_rank s < 0" "get_dp_rank s Q = (d, s')"
  shows "d < length (bp_managers Q) \<and> sq_dp_rank s' = int d \<and> get_dp_rank s' Q' = (d, s') \<and>
    (\<forall>B \<in> set (bp_managers Q). mgr_free B \<le> mgr_free (bp_managers Q ! d)) \<and>
    (\<forall>e < d. mgr_free (bp_managers Q ! e) < mgr_free (bp_managers Q ! d))"
  using max_free_rank[OF assms(1)] assms(2,3) by (auto simp: get_dp_rank_def Let_def)

theorem rank_choice_witness:
  "\<exists>Q d s'. bpool_new 4 2 True 2 1 = Inr Q \<and> get_dp_rank (fresh_seq\<lparr>sq_dp_rank := -1\<rparr>) Q = (d, s') \<and> d < 1 \<and> sq_dp_rank s' = 0"
proof -
  obtain Q where Q: "bpool_new 4 2 True 2 1 = Inr Q" "length (bp_managers Q) = 1" using demo_pool by blast
  obtain d s' where r: "get_dp_rank (fresh_seq\<lparr>sq_dp_rank := -1\<rparr>) Q = (d, s')" by (cases "get_dp_rank (fresh_seq\<lparr>sq_dp_rank := -1\<rparr>) Q")
  show ?thesis using rank_choice[OF _ _ r] Q r by (auto simp flip: length_greater_0_conv)
qed





end
