(* ===== verification/Scheduler_Properties.thy ===== *)
theory Scheduler_Properties
  imports Pool_Properties Scheduler_Order
begin

text \<open>The properties of the scheduler and of the order of requests. Their witnesses run the scheduler
  over a concrete pool of block managers.\<close>

section \<open>A concrete scheduler\<close>

text \<open>A scheduler over the concrete pool, and its one request.\<close>

definition demo_options :: sched_options where
  "demo_options = \<lparr>max_tokens_per_batch = 8, max_seqs_per_batch = 2, num_speculative_tokens = 0, so_schedule_overlap = False,
     cp_size = 1, flag_chunked_prefill = False, so_disagg_pd = False, online_preempt_offline = True, so_prefix_cache = True,
     so_fcfs = True, so_comparator = FCFSComparator, prefill_latency_ok = True, decode_latency_ok = True\<rparr>"

definition demo_req :: request where
  "demo_req = \<lparr>rq_prompt = [7, 8], rq_params = demo_params False, rq_best_of = 1, rq_sequences = [fresh_seq], rq_offline = False,
     rq_preempted = False, rq_cancelled = False, rq_stream = False, rq_last_token_done = False, rq_created = 0,
     rq_priority = P_NORMAL, rq_urgency = U_NORMAL, rq_starved = False, rq_deadline_ms = 0, rq_elapsed_ms = 0\<rparr>"

definition demo_sched :: "nat list \<Rightarrow> nat list \<Rightarrow> 'p \<Rightarrow> 'p sched" where
  "demo_sched new running Q = \<lparr>sc_reqs = (\<lambda>_. demo_req), request_queue = new, waiting_queue = [], waiting_queue_offline = [],
     running_queue = running, running_queue_offline = [], running_requests = [], running_sequences = [],
     running_sequences_budgets = [], last_step_prefill = False, sc_pool = Q, completed = [], failed = []\<rparr>"

definition checked_seq :: sequence where
  "checked_seq = fresh_seq\<lparr>finish_status_invalidated := False\<rparr>"

lemma fresh_seq_unfinished: "seq_finished_check fresh_seq = Inr (False, checked_seq)"
proof -
  have f: "tokens_view fresh_seq = [7, 8]" "sq_params fresh_seq = demo_params False" "sq_num_prompt_tokens fresh_seq = 2"
    "finish_status_invalidated fresh_seq"
    using demo_seq_ok(2,6)[of False]
    by (simp_all add: fresh_seq_def tokens_view_def) (simp_all add: demo_seq_def seq_new_def seq_blank_def demo_params_def)
  have "\<nexists>pre. [7, 8 :: int] = pre @ [5, 6]" by (auto simp: append_eq_Cons_conv)
  then have "stop_spec demo_checker [7, 8] 2 = FR_NONE" by (simp add: stop_spec_def demo_checker_def)
  then show ?thesis
    using finished_check_spec[OF fresh_seq_ok(1) f(4)] f demo_checker_ok by (simp add: demo_params_def int32_def checked_seq_def)
qed

lemma demo_alloc_seq:
  "\<exists>Q s' Q'. bpool_new 4 2 True 2 1 = Inr Q \<and> bp_allocate demo_lib 2 checked_seq Q = Inr (True, s', Q')"
proof -
  obtain Q where Q: "bpool_new 4 2 True 2 1 = Inr Q" "bp_block_size Q = 2" "alloc_ok demo_lib Q 0 {#}"
    "num_free_blocks (bm_arena (bp_managers Q ! 0)) = 3" "view (cache_part (bp_managers Q ! 0)) = Map.empty"
    "0 < em_num_free (bp_embeds Q ! 0)"
    using demo_pool by blast
  have s: "seq_inv checked_seq" "sq_dp_rank checked_seq = 0" "sq_kv checked_seq = sq_kv fresh_seq" "embedding_id checked_seq = None"
    "sq_params checked_seq = sq_params fresh_seq"
    using fresh_seq_ok by (simp_all add: checked_seq_def seq_inv_def)
  have "seq_alloc Q 0 checked_seq" using Q(2,3) fresh_seq_ok s by (simp add: seq_alloc_def embed_ok_def alloc_ok_def)
  moreover have "distinct_hits demo_lib Q 0 checked_seq" by (simp add: distinct_hits_def empty_hits[OF Q(5)])
  ultimately show ?thesis
    using bp_allocate_ok[of demo_lib Q 0 checked_seq "{#}" 2] Q fresh_seq_ok(4) s(3,4) by (auto simp: round_up_div_def)
qed

text \<open>One round of each loop for a request with one sequence that fits.\<close>

lemma prefill_single:
  assumes "so_disagg_pd C \<or> \<not> kvm_over_threshold K (sc_pool S)" "wait_q off S = [r]" "sc_reqs S r = x" "rq_sequences x = [s]"
    and "rq_best_of x = 1" "\<not> rq_cancelled x" "seq_finished_check s = Inr (False, s1)" "seq_finished_check s1 = Inr (False, s1)"
    and "maybe_align_cp_prefill_tokens C s1 (size_sub (sq_num_tokens s1) (kv_cache_tokens_num (sq_kv s1))) = n" "n \<le> tb" "0 < sb"
    and "kvm_allocate K (kv_cache_tokens_num (sq_kv s1) + n) s1 (sc_pool S) = Inr (True, s2, P)"
  shows "\<exists>S'. prefill_round C K off tb sb S = Inr (Go (tb - n) (sb - 1) S') \<and> wait_q off S' = [] \<and>
    running_sequences S' = running_sequences S @ [(r, 0)] \<and> running_sequences_budgets S' = running_sequences_budgets S @ [n] \<and>
    running_requests S' = running_requests S @ [Some r] \<and> wait_q (\<not> off) S' = wait_q (\<not> off) S"
proof -
  let ?S1 = "upd_req r (x\<lparr>rq_sequences := [s1]\<rparr>) S"
  let ?S2 = "(put_seq r 0 s2 ?S1)\<lparr>sc_pool := P\<rparr>"
  have d: "done_request r S = Inr (False, ?S1)"
    using assms(3-7) by (simp add: done_request_def request_finished_def)
  have f: "finished_seq r 0 ?S1 = Inr (False, ?S1)"
    using assms(8) by (simp add: finished_seq_def seq_at_def upd_req_def put_seq_def)
  have a: "alloc_prefill C K r 0 (kv_cache_tokens_num (sq_kv s1) + n) ?S1 = Inr (True, ?S2)"
    using assms(12) by (simp add: alloc_prefill_def alloc_seq_def seq_at_def upd_req_def del: bindE_eq_Inr)
  have "prefill_seqs C K r tb sb [0..<1] 0 0 [] [] ?S1 = Inr (Can_schedule, n, 1, [(r, 0)], [n], ?S2)"
    using f a assms(9-11) by (simp add: seq_at_def upd_req_def Let_def del: bindE_eq_Inr)
  moreover have "num_seqs r ?S1 = 1" by (simp add: num_seqs_def upd_req_def)
  ultimately have "prefill_round C K off tb sb S =
      Inr (Go (tb - n) (sb - 1) (schedule r [(r, 0)] [n] (set_wait_q off (remove1 r (wait_q off ?S2)) ?S2)))"
    using d assms(1,2,10,11) by (simp add: prefill_round_def pq_top_def Let_def del: bindE_eq_Inr)
  moreover have "wait_q w ?S2 = wait_q w S" for w by (simp add: wait_q_def put_seq_def upd_req_def)
  ultimately show ?thesis
    using assms(2) by (auto simp: schedule_def set_wait_q_def wait_q_def put_seq_def upd_req_def)
qed

lemma decode_single:
  assumes "run_q off S = [r]" "sc_reqs S r = x" "rq_sequences x = [s]" "\<not> beam_width (rq_params x) > 1"
    and "seq_finished_check s = Inr (False, s1)" "min_speculative_tokens_required C < tb" "0 < sb"
    and "kvm_allocate K (sq_num_tokens s1 + min_speculative_tokens_required C) s1 (sc_pool S) = Inr (True, s2, P)"
    and "if_cache_block_for_prefill s2 = (False, s3)"
  shows "\<exists>tb' sb' S'. decode_round C K off tb sb S = Inr (Go tb' sb' S') \<and> run_q off S' = [] \<and>
    running_requests S' = running_requests S @ [Some r]"
proof -
  let ?d = "min_speculative_tokens_required C"
  let ?S1 = "put_seq r 0 s1 S"
  let ?S2 = "(put_seq r 0 s2 ?S1)\<lparr>sc_pool := P\<rparr>"
  have f: "finished_seq r 0 S = Inr (False, ?S1)" using assms(2,3,5) by (simp add: finished_seq_def seq_at_def)
  have q: "seq_at r 0 ?S1 = Inr s1" using assms(2,3) by (simp add: seq_at_def put_seq_def upd_req_def)
  have a: "alloc_seq K r 0 (sq_num_tokens s1 + ?d) ?S1 = Inr (True, ?S2)"
    using assms(8) unfolding alloc_seq_def q bindE_Inr by (simp add: put_seq_def upd_req_def del: bindE_eq_Inr)
  have c: "cache_prefill K r 0 ?S2 = Inr (put_seq r 0 s3 ?S2)"
    using assms(2,3,9) by (simp add: cache_prefill_def seq_at_def put_seq_def upd_req_def del: bindE_eq_Inr)
  have "decode_seqs C K r tb sb [0..<1] 0 0 [] [] S = Inr (Can_schedule, ?d + 1, 1, [(r, 0)], [?d + 1], put_seq r 0 s3 ?S2)"
    using f q a c assms(6,7) by (simp add: Let_def del: bindE_eq_Inr)
  moreover have "num_seqs r S = 1" using assms(2,3) by (simp add: num_seqs_def)
  ultimately have "candidates C K off r tb sb S = Inr (Cand (Can_schedule, ?d + 1, 1, [(r, 0)], [?d + 1], put_seq r 0 s3 ?S2))"
    using assms(2,4) by (simp add: candidates_def del: bindE_eq_Inr)
  then show ?thesis
    using assms(1,6,7) by (simp add: decode_round_def Let_def run_q_def del: bindE_eq_Inr)
      (auto simp: schedule_def set_run_q_def put_seq_def upd_req_def run_q_def split: if_splits)
qed

lemma decode_loop_one:
  assumes "run_q off S \<noteq> []" "min_speculative_tokens_required C < tb" "decode_latency_ok C" "0 < sb"
    and "decode_round C K off tb sb S = Inr (Go tb' sb' S')" "run_q off S' = []"
  shows "decode_loop C K off tb sb S = Inr (tb', sb', S')"
proof -
  have "decode_loop C K off tb' sb' S' = Inr (tb', sb', S')" by (subst decode_loop.simps) (simp add: assms(6))
  then show ?thesis by (subst decode_loop.simps) (simp add: assms)
qed

text \<open>A new request is put into the batch with its two prompt tokens.\<close>

lemma checked_facts:
  "kv_cache_tokens_num (sq_kv checked_seq) = 0" "kv_cache_tokens_num (sq_kv fresh_seq) = 0" "sq_num_tokens checked_seq = 2"
  "seq_finished_check checked_seq = Inr (False, checked_seq)"
  by (simp_all add: checked_seq_def fresh_seq_def kv_state_new_def demo_seq_def seq_new_def seq_blank_def demo_params_def
      seq_finished_check_def)

lemma demo_prepare:
  "\<exists>Q S'. bpool_new 4 2 True 2 1 = Inr Q \<and>
    prepare_batch demo_options (pool_kv demo_lib 0 (\<lambda>_. False)) (\<lambda>_. None) (demo_sched [0] [] Q) = Inr S' \<and>
    running_sequences S' = [(0, 0)] \<and> running_sequences_budgets S' = [2] \<and> running_requests S' = [Some 0]"
proof -
  obtain Q s' Q' where Q: "bpool_new 4 2 True 2 1 = Inr Q" "bp_allocate demo_lib 2 checked_seq Q = Inr (True, s', Q')"
    using demo_alloc_seq by blast
  let ?K = "pool_kv demo_lib 0 (\<lambda>_. False)" and ?S = "(demo_sched [] [] Q)\<lparr>waiting_queue := [0]\<rparr>"
  let ?T = "demo_sched [] [] Q"
  have "upd_req 0 (sc_reqs ?T 0) ?T = ?T" by (simp add: upd_req_def)
  moreover have "seq_at 0 0 ?T = Inr fresh_seq" "so_prefix_cache demo_options" "push_waiting 0 ?T = ?S"
    by (simp_all add: seq_at_def demo_sched_def demo_req_def demo_options_def push_waiting_def set_wait_q_def wait_q_def)
  ultimately have "accept_request demo_options 0 ?T = Inr ?S"
    unfolding accept_request_def using checked_facts(2) by (simp add: Let_def del: bindE_eq_Inr)
  then have a: "accept_requests demo_options (demo_sched [0] [] Q) = Inr ?S"
    by (simp add: accept_requests_def demo_sched_def del: bindE_eq_Inr)
  have "\<exists>S'. prefill_round demo_options ?K False 8 2 ?S = Inr (Go (8 - 2) (2 - 1) S') \<and> wait_q False S' = [] \<and>
    running_sequences S' = running_sequences ?S @ [(0, 0)] \<and> running_sequences_budgets S' = running_sequences_budgets ?S @ [2] \<and>
    running_requests S' = running_requests ?S @ [Some 0] \<and> wait_q (\<not> False) S' = wait_q (\<not> False) ?S"
    by (rule prefill_single[where x = demo_req and s = fresh_seq and ?s1.0 = checked_seq and ?s2.0 = s' and P = Q'])
      (use Q(2) checked_facts fresh_seq_unfinished in \<open>simp_all add: pool_kv_def demo_sched_def wait_q_def demo_req_def
        maybe_align_cp_prefill_tokens_def demo_options_def numeral_2_eq_2\<close>)
  then obtain S2 where r: "prefill_round demo_options ?K False 8 2 ?S = Inr (Go 6 1 S2)" "waiting_queue S2 = []"
    "running_sequences S2 = [(0, 0)]" "running_sequences_budgets S2 = [2]" "running_requests S2 = [Some 0]" "waiting_queue_offline S2 = []"
    by (auto simp: wait_q_def demo_sched_def)
  have o: "prefill_latency_ok demo_options" "max_tokens_per_batch demo_options = 8" "max_seqs_per_batch demo_options = 2"
    by (simp_all add: demo_options_def)
  have "prefill_loop demo_options ?K False 8 2 ?S = Inr (Can_schedule, 6, 1, S2)"
    using r(1,2) o(1) by (simp add: prefill_loop.simps[of _ _ _ 8] prefill_loop.simps[of _ _ _ 6] wait_q_def)
  then have h1: "handle_prefill_requests demo_options ?K False 8 2 ?S = Inr (6, 1, S2\<lparr>last_step_prefill := True\<rparr>)"
    using r(2,3) by (simp add: handle_prefill_requests_def give_up_waiting_def wait_q_def)
  have "prefill_loop demo_options ?K True 6 1 (S2\<lparr>last_step_prefill := True\<rparr>) = Inr (Can_schedule, 6, 1, S2\<lparr>last_step_prefill := True\<rparr>)"
    using r(6) by (simp add: prefill_loop.simps wait_q_def)
  then have h2: "handle_prefill_requests demo_options ?K True 6 1 (S2\<lparr>last_step_prefill := True\<rparr>) = Inr (6, 1, S2\<lparr>last_step_prefill := True\<rparr>)"
    using r(3,6) by (simp add: handle_prefill_requests_def give_up_waiting_def wait_q_def)
  have cl: "clear_batch ?S = ?S" "running_requests ?S = []" "last_step_prefill ?S = False" "so_fcfs demo_options"
    by (simp_all add: clear_batch_def demo_sched_def demo_options_def)
  have "prepare_batch demo_options ?K (\<lambda>_. None) (demo_sched [0] [] Q) = Inr (S2\<lparr>last_step_prefill := True\<rparr>)"
    using a h1 h2 cl o r(3) by (simp add: prepare_batch_def schedule_batch_def requeue_running_def List.map_filter_def)
  then show ?thesis using Q(1) r(3-5) by simp
qed

lemma demo_online: "online (demo_sched new running Q)"
  by (simp add: online_def demo_sched_def demo_req_def demo_params_def)

text \<open>C22: the batch \<open>prepare_batch\<close> builds stays within its budgets, whatever the KV cache manager does: the
  tokens given to its sequences add up to at most \<open>max_tokens_per_batch\<close>, and it has at most
  \<open>max_seqs_per_batch\<close> sequences (at least one is allowed), each with its own budget.\<close>

theorem batch_within_budgets:
  assumes "prepare_batch C K conn S = Inr S'"
  shows "sum_list (running_sequences_budgets S') \<le> max_tokens_per_batch C \<and>
    length (running_sequences S') \<le> nat (max (max_seqs_per_batch C) 1) \<and>
    length (running_sequences_budgets S') = length (running_sequences S')"
  using prepare_batch_within[OF assms] by (auto simp: within_def)

theorem batch_within_budgets_witness:
  "\<exists>Q S'. bpool_new 4 2 True 2 1 = Inr Q \<and>
    prepare_batch demo_options (pool_kv demo_lib 0 (\<lambda>_. False)) (\<lambda>_. None) (demo_sched [0] [] Q) = Inr S' \<and>
    running_sequences S' = [(0, 0)] \<and> sum_list (running_sequences_budgets S') \<le> 8"
proof -
  obtain Q S' where Q: "bpool_new 4 2 True 2 1 = Inr Q" "running_sequences S' = [(0, 0)]"
    "prepare_batch demo_options (pool_kv demo_lib 0 (\<lambda>_. False)) (\<lambda>_. None) (demo_sched [0] [] Q) = Inr S'"
    using demo_prepare by blast
  show ?thesis using batch_within_budgets[OF Q(3)] Q by (auto simp: demo_options_def)
qed

text \<open>C23: the decode loop serves first come, first served: it takes requests into the batch from the
  front of the running queue, in order, preempts from the back, and gives up at most one
  request, only when the batch is empty; all others stay in the queue in their order. For
  online requests without beam search.\<close>

theorem decode_in_order:
  assumes "decode_loop C K False tb sb S = Inr (tb', sb', S')" "online S"
  shows "\<exists>xs fs zs. running_queue S = xs @ fs @ running_queue S' @ zs \<and>
    running_requests S' = running_requests S @ map Some xs \<and> failed S' = failed S @ fs \<and>
    waiting_queue S' = waiting_queue S @ rev zs \<and> length fs \<le> 1 \<and> (fs \<noteq> [] \<longrightarrow> running_sequences S' = [])"
  using decode_loop_served[OF assms] unfolding served_def by blast

theorem decode_in_order_witness:
  "\<exists>Q tb' sb' S'. bpool_new 4 2 True 2 1 = Inr Q \<and>
    decode_loop demo_options (pool_kv demo_lib 0 (\<lambda>_. False)) False 8 2 (demo_sched [] [0] Q) = Inr (tb', sb', S') \<and>
    running_requests S' = [Some 0] \<and> running_queue S' = [] \<and> waiting_queue S' = [] \<and> failed S' = []"
proof -
  obtain Q s' Q' where Q: "bpool_new 4 2 True 2 1 = Inr Q" "bp_allocate demo_lib 2 checked_seq Q = Inr (True, s', Q')"
    using demo_alloc_seq by blast
  let ?K = "pool_kv demo_lib 0 (\<lambda>_. False)" and ?S = "demo_sched [] [0] Q"
  have "sq_num_prompt_tokens s' = sq_num_prompt_tokens checked_seq" "sq_num_tokens s' = sq_num_tokens checked_seq"
    using bp_allocate_text[OF Q(2)] by (simp_all add: same_text_def)
  then have "\<exists>s3. if_cache_block_for_prefill s' = (False, s3)"
    by (simp add: if_cache_block_for_prefill_def checked_seq_def fresh_seq_def demo_seq_def seq_new_def seq_blank_def demo_params_def)
  then obtain s3 where s3: "if_cache_block_for_prefill s' = (False, s3)" ..
  have o: "min_speculative_tokens_required demo_options = 0"
    by (simp add: demo_options_def min_speculative_tokens_required_def)
  have "kvm_allocate ?K (sq_num_tokens checked_seq + 0) checked_seq (sc_pool ?S) = Inr (True, s', Q')"
    using Q(2) checked_facts(3) by (simp add: pool_kv_def demo_sched_def)
  then have "\<exists>tb' sb' S'. decode_round demo_options ?K False 8 2 ?S = Inr (Go tb' sb' S') \<and> run_q False S' = [] \<and>
      running_requests S' = running_requests ?S @ [Some 0]"
    by (intro decode_single[where x = demo_req and s = fresh_seq and ?s1.0 = checked_seq and ?s2.0 = s' and P = Q', OF _ _ _ _ fresh_seq_unfinished _ _ _ s3])
      (simp_all add: o demo_sched_def run_q_def demo_req_def demo_params_def)
  then obtain tb' sb' S' where rd: "decode_round demo_options ?K False 8 2 ?S = Inr (Go tb' sb' S')" "run_q False S' = []"
    and "running_requests S' = running_requests ?S @ [Some 0]" by blast
  then have r: "running_requests S' = [Some 0]" by (simp add: demo_sched_def)
  have c: "run_q False ?S \<noteq> []" "min_speculative_tokens_required demo_options < 8" "decode_latency_ok demo_options"
    by (simp_all add: run_q_def demo_sched_def min_speculative_tokens_required_def demo_options_def)
  have l: "decode_loop demo_options ?K False 8 2 ?S = Inr (tb', sb', S')" "running_queue S' = []"
    using decode_loop_one[OF c _ rd] rd(2) by (simp_all add: run_q_def)
  have q: "running_queue ?S = [0]" "running_requests ?S = []" "failed ?S = []" "waiting_queue ?S = []" by (simp_all add: demo_sched_def)
  obtain xs fs zs where d: "[0] = xs @ fs @ zs" "[Some 0] = map Some xs" "failed S' = fs" "waiting_queue S' = rev zs"
  proof -
    obtain xs fs zs where x: "running_queue ?S = xs @ fs @ running_queue S' @ zs" "running_requests S' = running_requests ?S @ map Some xs"
      "failed S' = failed ?S @ fs" "waiting_queue S' = waiting_queue ?S @ rev zs"
      using decode_in_order[OF l(1) demo_online] by blast
    then show thesis using that[of xs fs zs] q l(2) r by simp
  qed
  have "length xs = 1" using d(2) by (metis length_map length_Cons list.size(3) One_nat_def)
  then have "fs = []" "zs = []" using arg_cong[OF d(1), of length] by simp_all
  then show ?thesis using l r Q(1) d(3,4) by (intro exI[of _ Q] exI[of _ tb'] exI[of _ sb'] exI[of _ S']) simp
qed

text \<open>C24: no request is lost and none is duplicated: over a whole \<open>prepare_batch\<close>, with arrivals, finished
  and disconnected requests, prefill, preemption and requests given up, every request is in
  exactly as many places (queues, batch, completed, failed) as before. For online requests
  without beam search.\<close>

theorem requests_conserved:
  assumes "prepare_batch C K conn S = Inr S'" "online S"
  shows "all_ids S' = all_ids S"
  using prepare_batch_ids[OF assms] by simp

theorem requests_conserved_witness:
  "\<exists>Q S'. bpool_new 4 2 True 2 1 = Inr Q \<and>
    prepare_batch demo_options (pool_kv demo_lib 0 (\<lambda>_. False)) (\<lambda>_. None) (demo_sched [0] [] Q) = Inr S' \<and>
    all_ids S' = {#0#}"
proof -
  obtain Q S' where Q: "bpool_new 4 2 True 2 1 = Inr Q"
    "prepare_batch demo_options (pool_kv demo_lib 0 (\<lambda>_. False)) (\<lambda>_. None) (demo_sched [0] [] Q) = Inr S'"
    using demo_prepare by blast
  show ?thesis using requests_conserved[OF Q(2) demo_online] Q by (auto simp: demo_sched_def all_ids_def base_ids_def)
qed

text \<open>C25: the comparators that order by times, priorities and stages are strict weak orders, as
  \<open>std::priority_queue\<close> requires, and none of them is one when it is reversed: the negation
  holds of equal requests.\<close>

theorem comparator_orders:
  assumes "strategy = ''fcfs'' \<or> strategy = ''priority'' \<or> strategy = ''deadline'' \<or> strategy = ''decode_deadline'' \<or>
    strategy = ''urgency_priority''"
  shows "\<exists>cmp. create_comparator D strategy is_reversed = Inr cmp \<and> (strict_weak cmp \<longleftrightarrow> \<not> is_reversed)"
  using assms fcfs_order.keyed_reversed fcfs_order.keyed_strict_weak priority_order.keyed_reversed priority_order.keyed_strict_weak
    deadline_order.keyed_reversed deadline_order.keyed_strict_weak decode_deadline_order.keyed_reversed
    decode_deadline_order.keyed_strict_weak urgency_order.keyed_reversed urgency_order.keyed_strict_weak
  by (cases is_reversed) (auto simp: create_comparator_def Let_def)

theorem comparator_orders_witness:
  "\<exists>cmp. create_comparator \<lparr>tpot_density = (\<lambda>_. 0 :: int), ttft_density = (\<lambda>_. 0), sjf_density = (\<lambda>_. 0), near = (=)\<rparr>
    ''priority'' False = Inr cmp \<and> strict_weak cmp"
  using comparator_orders[of "''priority''" _ False] by simp

lemma expand_loop_fresh:
  "seq_new (rq_prompt x) (rq_params x) = Inr s \<Longrightarrow> expand_loop k x = Inr (x\<lparr>rq_sequences := rq_sequences x @ replicate k s\<rparr>)"
proof (induction k arbitrary: x)
  case (Suc k)
  from Suc.prems show ?case using Suc.IH[of "x\<lparr>rq_sequences := rq_sequences x @ [s]\<rparr>"]
    by (simp add: group_add_def del: bindE_eq_Inr)
qed simp

lemma expand_fresh:
  assumes "seq_new (rq_prompt x) (rq_params x) = Inr s0" "rq_sequences x = [s]" "1 < rq_best_of x" "\<not> 1 < beam_width (rq_params x)"
  shows "expand_sequences False x = Inr (True, x\<lparr>rq_sequences := s # replicate (rq_best_of x - 1) s0\<rparr>)"
  using assms by (simp add: expand_sequences_def expand_loop_fresh)

lemma request_unfinished:
  assumes "rq_sequences x = s # ss" "seq_finished_check s = Inr (False, s1)"
  shows "\<exists>x'. request_finished x = Inr (False, x') \<and> length (rq_sequences x') = length (rq_sequences x) \<and>
    rq_preempted x' = rq_preempted x \<and> rq_cancelled x' = rq_cancelled x"
  using assms by (simp add: request_finished_def)

text \<open>Without the prefix cache a request for several sequences aborts the scheduler: \<open>prepare_batch\<close>
  expands it before it waits, and the prefill loop checks that a request that was not
  preempted has one sequence only.\<close>

theorem best_of_aborts:
  assumes "\<not> so_prefix_cache C" "prefill_latency_ok C" "0 < max_tokens_per_batch C"
    and "so_disagg_pd C \<or> \<not> kvm_over_threshold K (sc_pool S)"
    and "request_queue S = [r]" "waiting_queue S = []" "running_requests S = []"
    and "\<not> rq_offline (sc_reqs S r)" "\<not> rq_preempted (sc_reqs S r)" "\<not> rq_cancelled (sc_reqs S r)"
    and "1 < rq_best_of (sc_reqs S r)" "\<not> 1 < beam_width (rq_params (sc_reqs S r))"
    and "seq_new (rq_prompt (sc_reqs S r)) (rq_params (sc_reqs S r)) = Inr s0"
    and "rq_sequences (sc_reqs S r) = [s]" "kv_cache_tokens_num (sq_kv s) = 0" "seq_finished_check s = Inr (False, s1)"
  shows "prepare_batch C K conn S = Inl Check_failed"
proof -
  let ?x = "(sc_reqs S r)\<lparr>rq_sequences := s # replicate (rq_best_of (sc_reqs S r) - 1) s0\<rparr>"
  let ?S = "(upd_req r ?x S)\<lparr>request_queue := [], waiting_queue := [r]\<rparr>"
  let ?n = "nat (max (max_seqs_per_batch C) 1)"
  have "accept_requests C S = Inr ?S"
    using assms expand_fresh[OF assms(13,14,11,12)]
    by (simp add: accept_requests_def accept_request_def Let_def seq_at_def nth_res_def upd_req_def push_waiting_def set_wait_q_def
        wait_q_def del: bindE_eq_Inr)
  moreover have "requeue_running C K [] ?S = Inr ?S" by (simp add: requeue_running_def)
  ultimately have p: "prepare_batch C K conn S = schedule_batch C K (clear_batch ?S)"
    using assms(7) by (simp add: prepare_batch_def List.map_filter_def upd_req_def)
  let ?T = "clear_batch ?S"
  obtain x' where x: "request_finished ?x = Inr (False, x')" "length (rq_sequences x') = rq_best_of (sc_reqs S r)"
    "\<not> rq_preempted x'" "\<not> rq_cancelled x'"
    using request_unfinished[of ?x s _ s1] assms(9-11,16) by fastforce
  have q: "wait_q False ?T = [r]" "sc_pool ?T = sc_pool S" "sc_reqs ?T r = ?x"
    by (simp_all add: clear_batch_def wait_q_def upd_req_def)
  have "done_request r ?T = Inr (False, upd_req r x' ?T)" using x q(3) by (simp add: done_request_def)
  then have "prefill_round C K False (max_tokens_per_batch C) ?n ?T = Inl Check_failed"
    using q assms(4,11) x by (simp add: prefill_round_def pq_top_def Let_def num_seqs_def upd_req_def check_def)
  then have "prefill_loop C K False (max_tokens_per_batch C) ?n ?T = Inl Check_failed"
    using q(1) assms(2,3) by (subst prefill_loop.simps) simp
  then show ?thesis using p by (simp add: schedule_batch_def handle_prefill_requests_def)
qed

theorem best_of_aborts_witness:
  "\<exists>Q. bpool_new 4 2 False 2 1 = Inr Q \<and>
    prepare_batch (demo_options\<lparr>so_prefix_cache := False\<rparr>) (pool_kv demo_lib 0 (\<lambda>_. False)) (\<lambda>_. None)
      ((demo_sched [0] [] Q)\<lparr>sc_reqs := (\<lambda>_. demo_req\<lparr>rq_best_of := 2\<rparr>)\<rparr>) = Inl Check_failed"
proof -
  have "\<exists>s0. seq_new [7, 8] (demo_params False) = Inr s0" by (simp add: seq_new_def demo_params_def Let_def)
  then obtain s0 where s0: "seq_new [7, 8] (demo_params False) = Inr s0" ..
  obtain Q where Q: "bpool_new 4 2 False 2 1 = Inr Q" using bpool_new_ok[of 4 2 1 False 2 demo_lib] by (auto simp: size_ok_def)
  have "prepare_batch (demo_options\<lparr>so_prefix_cache := False\<rparr>) (pool_kv demo_lib 0 (\<lambda>_. False)) (\<lambda>_. None)
      ((demo_sched [0] [] Q)\<lparr>sc_reqs := (\<lambda>_. demo_req\<lparr>rq_best_of := 2\<rparr>)\<rparr>) = Inl Check_failed"
    using checked_facts(2) fresh_seq_unfinished s0
    by (intro best_of_aborts[where r = 0 and s = fresh_seq and ?s1.0 = checked_seq and ?s0.0 = s0])
      (simp_all add: demo_sched_def demo_req_def demo_options_def pool_kv_def demo_params_def)
  then show ?thesis using Q by blast
qed

text \<open>A manager without free blocks; its state is the number of used blocks.\<close>

definition full_kv :: "nat kv_ops" where
  "full_kv = \<lparr>kvm_allocate = (\<lambda>n s P. Inr (False, s, P)), kvm_deallocate = (\<lambda>s P. Inr (s, P)), kvm_cache = (\<lambda>s P. Inr (s, P)),
     kvm_block_size = (\<lambda>_. 2), kvm_free_blocks = (\<lambda>_. [0]), kvm_used_blocks = (\<lambda>P. [P]), kvm_over_threshold = (\<lambda>_. True),
     kvm_ref_count = (\<lambda>_ _ _. Inr 1)\<rparr>"

text \<open>An offline request that cannot grow is not given up but crashes the scheduler. When it is the only
  running request and nothing else holds blocks, \<open>handle_abnormal_request\<close> takes it from the
  queue it was given, the offline queue, and pops the member \<open>running_queue_\<close>, the online
  queue, which is empty.\<close>

theorem offline_give_up_crash:
  assumes "running_queue_offline S = [r]" "running_queue S = []" "running_sequences S = []"
    and "rq_offline (sc_reqs S r)" "\<not> 1 < beam_width (rq_params (sc_reqs S r))" "rq_sequences (sc_reqs S r) = [s]"
    and "seq_finished_check s = Inr (False, s1)" "min_speculative_tokens_required C < tb" "0 < sb" "decode_latency_ok C"
    and "kvm_allocate K (sq_num_tokens s1 + min_speculative_tokens_required C) s1 (sc_pool S) = Inr (False, s2, P)"
    and "sum_list (kvm_used_blocks K P) = length (kv_blocks (sq_kv s2))"
  shows "decode_loop C K True tb sb S = Inl Out_of_range"
proof -
  let ?S1 = "put_seq r 0 s1 S"
  let ?S2 = "(put_seq r 0 s2 ?S1)\<lparr>sc_pool := P\<rparr>"
  have f: "finished_seq r 0 S = Inr (False, ?S1)" using assms(6,7) by (simp add: finished_seq_def seq_at_def)
  have q: "seq_at r 0 ?S1 = Inr s1" using assms(6) by (simp add: seq_at_def put_seq_def upd_req_def)
  have a: "alloc_seq K r 0 (sq_num_tokens s1 + min_speculative_tokens_required C) ?S1 = Inr (False, ?S2)"
    using assms(11) unfolding alloc_seq_def q bindE_Inr by (simp add: put_seq_def upd_req_def del: bindE_eq_Inr)
  have d: "decode_seqs C K r tb sb [0..<1] 0 0 [] [] S = Inr (Blocks_exhausted, 0, 0, [], [], ?S2)"
    using f q a assms(8,9) by (simp add: Let_def del: bindE_eq_Inr)
  have "num_seqs r S = 1" using assms(6) by (simp add: num_seqs_def)
  then have c: "candidates C K True r tb sb S = Inr (Cand (Blocks_exhausted, 0, 0, [], [], ?S2))"
    using d assms(5) by (simp add: candidates_def del: bindE_eq_Inr)
  have "rq_sequences (sc_reqs ?S2 r) = [s2]" using assms(6) by (simp add: put_seq_def upd_req_def)
  then have "total_num_blocks (sc_reqs ?S2 r) = length (kv_blocks (sq_kv s2))" by (simp add: total_num_blocks_def)
  moreover have "running_queue_offline ?S2 = [r]" "running_queue ?S2 = []" "running_sequences ?S2 = []" "rq_offline (sc_reqs ?S2 r)"
    "sc_pool ?S2 = P"
    using assms(1-4) by (simp_all add: put_seq_def upd_req_def)
  ultimately have "decode_round C K True tb sb S = Inl Out_of_range"
    using c assms(1,12) by (simp add: decode_round_def handle_abnormal_request_def run_q_def check_def)
  then show ?thesis using assms(1,8-10) by (subst decode_loop.simps) (simp add: run_q_def)
qed

theorem offline_give_up_crash_witness:
  "decode_loop demo_options full_kv True 8 2
    ((demo_sched [] [] 0)\<lparr>sc_reqs := (\<lambda>_. demo_req\<lparr>rq_offline := True\<rparr>), running_queue_offline := [0]\<rparr>) = Inl Out_of_range"
  using fresh_seq_unfinished
  by (intro offline_give_up_crash[where r = 0 and s = fresh_seq and ?s1.0 = checked_seq and ?s2.0 = checked_seq and P = 0])
    (simp_all add: demo_sched_def demo_req_def demo_options_def demo_params_def full_kv_def min_speculative_tokens_required_def
      checked_seq_def fresh_seq_ok(3))

end
