(* ===== verification/Chunked_Properties.thy ===== *)
theory Chunked_Properties
  imports Chunked_Order Scheduler_Properties
begin

text \<open>The properties of the chunked prefill scheduler. Their witnesses run it over a concrete pool of
  block managers without prefix cache.\<close>

section \<open>A concrete run\<close>

definition chunk_demo_options :: sched_options where
  "chunk_demo_options = demo_options\<lparr>max_tokens_per_batch := 1, so_prefix_cache := False\<rparr>"

definition chunk_demo :: chunk_options where
  "chunk_demo = \<lparr>max_tokens_per_chunk_for_prefill = 512, chunked_match_frequency = 2, profile_token_budget = None,
     tpot_latency_ok = True, unlimited_latency_ok = True\<rparr>"

definition chunk_flags :: factory_flags where
  "chunk_flags = \<lparr>use_mix_scheduler = False, enable_pd_ooc = False, enable_chunked_prefill = True, enable_prefill_sp = False,
     use_zero_evict = False\<rparr>"

lemma chunk_demo_facts:
  "create_continuous_scheduler chunk_flags chunk_demo_options = Inr Chunked_prefill_scheduler"
  "num_speculative_tokens chunk_demo_options = 0" "min_speculative_tokens_required chunk_demo_options = 0"
  "chunk_token_budget chunk_demo_options chunk_demo = 1" "size_of_int (max_seqs_per_batch chunk_demo_options) = 2"
  "size_of_int (max_tokens_per_chunk_for_prefill chunk_demo) = 512" "\<not> so_prefix_cache chunk_demo_options"
  "tpot_latency_ok chunk_demo" "unlimited_latency_ok chunk_demo"
  by (simp_all add: create_continuous_scheduler_def chunk_flags_def chunk_demo_options_def demo_options_def chunk_demo_def
      min_speculative_tokens_required_def chunk_token_budget_def size_of_int_def)

lemma plain_alloc_seq:
  "\<exists>Q s' Q'. bpool_new 4 2 False 2 1 = Inr Q \<and> bp_allocate demo_lib 1 checked_seq Q = Inr (True, s', Q') \<and>
    bp_allocate_shared demo_lib checked_seq Q = Inr (checked_seq, Q)"
proof -
  obtain Q where Q: "bpool_new 4 2 False 2 1 = Inr Q" "bp_block_size Q = 2" "alloc_ok demo_lib Q 0 {#}"
    "num_free_blocks (bm_arena (bp_managers Q ! 0)) = 3" "view (cache_part (bp_managers Q ! 0)) = Map.empty"
    "0 < em_num_free (bp_embeds Q ! 0)"
    using bpool_new_ok[of 4 2 1 False 2 demo_lib] by (auto simp: size_ok_def mgr_free_def eman_new_def)
  have "\<not> bp_enable_prefix_cache Q" using Q(1) by (auto simp: bpool_new_def)
  then have share: "bp_allocate_shared demo_lib checked_seq Q = Inr (checked_seq, Q)" by (simp add: bp_allocate_shared_def)
  have s: "seq_inv checked_seq" "sq_dp_rank checked_seq = 0" "sq_kv checked_seq = sq_kv fresh_seq" "embedding_id checked_seq = None"
    "sq_params checked_seq = sq_params fresh_seq"
    using fresh_seq_ok by (simp_all add: checked_seq_def seq_inv_def)
  have "seq_alloc Q 0 checked_seq" using Q(2,3) fresh_seq_ok s by (simp add: seq_alloc_def embed_ok_def alloc_ok_def)
  moreover have "distinct_hits demo_lib Q 0 checked_seq" by (simp add: distinct_hits_def empty_hits[OF Q(5)])
  ultimately show ?thesis
    using share bp_allocate_ok[of demo_lib Q 0 checked_seq "{#}" 1] Q fresh_seq_ok(4) s(3,4) by (auto simp: round_up_div_def)
qed

text \<open>A chunk of \<open>n\<close> tokens for a sequence without blocks, nothing being shared.\<close>

lemma allocate_blocks_fresh:
  assumes "seq_at r i S = Inr s" "i < num_seqs r S" "kv_blocks (sq_kv s) = []" "kv_cache_tokens_num (sq_kv s) = 0"
    "A s (sc_pool S) = Inr (s, sc_pool S)" "0 < n" "n \<le> sq_num_tokens s" "num_speculative_tokens C = 0"
    "kvm_allocate K n s (sc_pool S) = Inr (True, s2, P)"
  shows "allocate_blocks_for C X A K r i n S = Inr (True, n, (put_seq r i s2 S)\<lparr>sc_pool := P\<rparr>)"
proof -
  have l: "i < length (rq_sequences (sc_reqs S r))" using assms(2) by (simp add: num_seqs_def)
  have "rq_sequences (sc_reqs S r) ! i = s" using assms(1) l by (simp add: seq_at_def nth_res_def)
  then have "(rq_sequences (sc_reqs S r))[i := s] = rq_sequences (sc_reqs S r)" by (metis list_update_id)
  then have put: "put_seq r i s S = S" by (simp add: put_seq_def upd_req_def)
  have "allocate_shared_blocks_for X A r i S = Inr S"
    using assms(1,3,5) put by (simp add: allocate_shared_blocks_for_def share_seq_def del: bindE_eq_Inr)
  moreover have "min_speculative_tokens_required C = 0" using assms(8) by (simp add: min_speculative_tokens_required_def)
  ultimately show ?thesis
    using assms by (simp add: allocate_blocks_for_def alloc_seq_def Let_def min_absorb1 del: bindE_eq_Inr)
qed

lemma chunk_running_single:
  assumes "run_q off S = [r]" "sc_reqs S r = x" "rq_sequences x = [s]" "seq_finished_check s = Inr (False, s1)"
    and "kv_blocks (sq_kv s1) = []" "kv_cache_tokens_num (sq_kv s1) = 0" "A s1 (sc_pool S) = Inr (s1, sc_pool S)"
    and "num_speculative_tokens C = 0" "stage s1 \<noteq> CHUNKED_PREFILL" "cx_tokens cx = n" "0 < n" "n \<le> sq_num_tokens s1"
    and "n \<le> size_of_int (max_tokens_per_chunk_for_prefill X)" "0 < cx_seqs cx" "kvm_allocate K n s1 (sc_pool S) = Inr (True, s2, P)"
  shows "\<exists>cx' S'. chunk_running_round C X A K off cx S = Inr (Chunk_go cx' S') \<and> run_q off S' = [] \<and>
    running_requests S' = running_requests S @ [Some r] \<and> running_sequences S' = running_sequences S @ [(r, 0)] \<and> cx_tokens cx' = 0"
proof -
  let ?S1 = "put_seq r 0 s1 S"
  let ?S2 = "(put_seq r 0 s2 ?S1)\<lparr>sc_pool := P\<rparr>"
  have f: "finished_seq r 0 S = Inr (False, ?S1)" using assms(2-4) by (simp add: finished_seq_def seq_at_def)
  have q: "seq_at r 0 ?S1 = Inr s1" "sc_pool ?S1 = sc_pool S" "0 < num_seqs r ?S1"
    using assms(2,3) by (simp_all add: seq_at_def put_seq_def upd_req_def num_seqs_def)
  have a: "allocate_blocks_for C X A K r 0 n ?S1 = Inr (True, n, ?S2)"
    by (rule allocate_blocks_fresh) (use assms q in simp_all)
  have q2: "seq_at r 0 ?S2 = Inr s2" using assms(2,3) by (simp add: seq_at_def put_seq_def upd_req_def)
  have m: "min (size_of_int (max_tokens_per_chunk_for_prefill X)) (size_sub (cx_tokens cx) 0) = n" using assms(10,13) by simp
  have "min_speculative_tokens_required C = 0" using assms(8) by (simp add: min_speculative_tokens_required_def)
  then obtain pre where "chunk_running_seqs C X A K r (cx_tokens cx) (cx_seqs cx) [0..<1] 0 0 [] [] (cx_prefill cx) S =
      Inr (pre, Can_schedule, n, 1, [(r, 0)], [n], ?S2)"
    using f q(1) a q2 m assms(9-11,14) by (simp add: Let_def del: bindE_eq_Inr)
  moreover have "num_seqs r S = 1" using assms(2,3) by (simp add: num_seqs_def)
  ultimately show ?thesis
    using assms(1,10,14) by (simp add: chunk_running_round_def Let_def run_q_def del: bindE_eq_Inr)
      (auto simp: schedule_def set_run_q_def put_seq_def upd_req_def run_q_def split: if_splits)
qed

lemma prefill_stage_no_tokens:
  assumes "cx_tokens cx = 0" "running_sequences S \<noteq> []"
  shows "chunk_prefill_stage C X A K off cx S = Inr (cx, S)"
proof -
  have "chunk_prefill_loop C X A K off cx S = Inr (cx, S)" using assms by (subst chunk_prefill_loop.simps) simp
  then show ?thesis
    using assms by (simp add: chunk_prefill_stage_def chunk_handle_prefill_requests_def give_up_waiting_def Let_def del: bindE_eq_Inr)
qed

lemma chunk_prefill_single:
  assumes "wait_q off S = [r]" "sc_reqs S r = x" "rq_sequences x = [s]" "rq_best_of x = 1" "\<not> rq_cancelled x"
    and "seq_finished_check s = Inr (False, s1)" "seq_finished_check s1 = Inr (False, s1)"
    and "kv_blocks (sq_kv s1) = []" "kv_cache_tokens_num (sq_kv s1) = 0" "A s1 (sc_pool S) = Inr (s1, sc_pool S)"
    and "num_speculative_tokens C = 0" "cx_tokens cx = n" "0 < n" "n \<le> sq_num_tokens s1"
    and "n \<le> size_of_int (max_tokens_per_chunk_for_prefill X)" "0 < cx_seqs cx" "kvm_allocate K n s1 (sc_pool S) = Inr (True, s2, P)"
  shows "\<exists>S'. chunk_prefill_round C X A K off cx S =
      Inr (Chunk_go (cx\<lparr>cx_prefill := cx_prefill cx @ [(r, 0)], cx_tokens := 0, cx_seqs := cx_seqs cx - 1\<rparr>) S') \<and>
    wait_q off S' = [] \<and> wait_q (\<not> off) S' = wait_q (\<not> off) S \<and> running_queue_offline S' = running_queue_offline S \<and>
    running_sequences S' = running_sequences S @ [(r, 0)] \<and> running_sequences_budgets S' = running_sequences_budgets S @ [n] \<and>
    running_requests S' = running_requests S @ [Some r]"
proof -
  let ?S1 = "upd_req r (x\<lparr>rq_sequences := [s1]\<rparr>) S"
  let ?S2 = "(put_seq r 0 s2 ?S1)\<lparr>sc_pool := P\<rparr>"
  have d: "done_request r S = Inr (False, ?S1)"
    using assms(2-6) by (simp add: done_request_def request_finished_def)
  have f: "finished_seq r 0 ?S1 = Inr (False, ?S1)"
    using assms(7) by (simp add: finished_seq_def seq_at_def upd_req_def put_seq_def)
  have q: "seq_at r 0 ?S1 = Inr s1" "sc_pool ?S1 = sc_pool S" "num_seqs r ?S1 = 1"
    by (simp_all add: seq_at_def upd_req_def num_seqs_def)
  have a: "allocate_blocks_for C X A K r 0 n ?S1 = Inr (True, n, ?S2)"
    by (rule allocate_blocks_fresh) (use assms q in simp_all)
  have m: "min (min (size_of_int (max_tokens_per_chunk_for_prefill X)) (size_sub (cx_tokens cx) 0)) (sq_num_tokens s1) = n"
    using assms(12,14,15) by simp
  have "chunk_prefill_seqs C X A K r (cx_tokens cx) (cx_seqs cx) [0..<1] 0 0 [] [] ?S1 = Inr (Can_schedule, n, 1, [(r, 0)], [n], ?S2)"
    using f q(1) a m assms(12,16) by (simp add: Let_def del: bindE_eq_Inr)
  then have "chunk_prefill_round C X A K off cx S =
      Inr (Chunk_go (cx\<lparr>cx_prefill := cx_prefill cx @ [(r, 0)], cx_tokens := 0, cx_seqs := cx_seqs cx - 1\<rparr>)
        (schedule r [(r, 0)] [n] (set_wait_q off (remove1 r (wait_q off ?S2)) ?S2)))"
    using d q(3) assms(1,12,16) by (simp add: chunk_prefill_round_def pq_top_def Let_def del: bindE_eq_Inr)
  moreover have "wait_q w ?S2 = wait_q w S" for w by (simp add: wait_q_def put_seq_def upd_req_def)
  ultimately show ?thesis
    using assms(1) by (auto simp: schedule_def set_wait_q_def wait_q_def put_seq_def upd_req_def)
qed

text \<open>One of the two tokens of the prompt fits into the batch.\<close>

lemma chunk_demo_prepare:
  "\<exists>Q S'. bpool_new 4 2 False 2 1 = Inr Q \<and>
    chunk_prepare_batch chunk_demo_options chunk_demo (bp_allocate_shared demo_lib) (pool_kv demo_lib 0 (\<lambda>_. False)) (\<lambda>_. None)
      (demo_sched [0] [] Q) = Inr S' \<and>
    running_sequences S' = [(0, 0)] \<and> running_sequences_budgets S' = [1] \<and> running_requests S' = [Some 0]"
proof -
  obtain Q s' Q' where Q: "bpool_new 4 2 False 2 1 = Inr Q" "bp_allocate demo_lib 1 checked_seq Q = Inr (True, s', Q')"
    "bp_allocate_shared demo_lib checked_seq Q = Inr (checked_seq, Q)"
    using plain_alloc_seq by blast
  let ?C = chunk_demo_options and ?X = chunk_demo and ?A = "bp_allocate_shared demo_lib" and ?K = "pool_kv demo_lib 0 (\<lambda>_. False)"
  let ?T = "demo_sched [] [] Q" and ?S = "(demo_sched [] [] Q)\<lparr>waiting_queue := [0]\<rparr>"
  let ?cx = "chunk_ctx_init ?C ?X"
  have x: "expand_sequences False (sc_reqs ?T 0) = Inr (False, sc_reqs ?T 0)"
    by (simp add: expand_sequences_def demo_sched_def demo_req_def)
  have u: "upd_req 0 (sc_reqs ?T 0) ?T = ?T" by (simp add: upd_req_def)
  have "seq_at 0 0 ?T = Inr fresh_seq" "push_waiting 0 ?T = ?S"
    by (simp_all add: seq_at_def demo_sched_def demo_req_def push_waiting_def set_wait_q_def wait_q_def)
  then have "accept_request ?C 0 ?T = Inr ?S"
    unfolding accept_request_def using checked_facts(2) chunk_demo_facts(7) x u by (simp add: Let_def del: bindE_eq_Inr)
  then have a: "accept_requests ?C (demo_sched [0] [] Q) = Inr ?S"
    by (simp add: accept_requests_def demo_sched_def del: bindE_eq_Inr)
  have c: "?cx = \<lparr>cx_tokens = 1, cx_seqs = 2, cx_prefill = [], cx_budget_exhausted = False, cx_blocks_exhausted = False, cx_latency_ok = True\<rparr>"
    by (simp add: chunk_ctx_init_def chunk_demo_facts)
  have "\<exists>S'. chunk_prefill_round ?C ?X ?A ?K False ?cx ?S =
      Inr (Chunk_go (?cx\<lparr>cx_prefill := cx_prefill ?cx @ [(0, 0)], cx_tokens := 0, cx_seqs := cx_seqs ?cx - 1\<rparr>) S') \<and>
    wait_q False S' = [] \<and> wait_q (\<not> False) S' = wait_q (\<not> False) ?S \<and> running_queue_offline S' = running_queue_offline ?S \<and>
    running_sequences S' = running_sequences ?S @ [(0, 0)] \<and> running_sequences_budgets S' = running_sequences_budgets ?S @ [1] \<and>
    running_requests S' = running_requests ?S @ [Some 0]"
    by (rule chunk_prefill_single[where x = demo_req and s = fresh_seq and ?s1.0 = checked_seq and ?s2.0 = s' and P = Q'])
      (use Q(2,3) checked_facts fresh_seq_unfinished fresh_seq_ok(3) chunk_demo_facts c in
        \<open>simp_all add: pool_kv_def demo_sched_def wait_q_def demo_req_def checked_seq_def\<close>)
  then obtain S2 where r: "chunk_prefill_round ?C ?X ?A ?K False ?cx ?S = Inr (Chunk_go (?cx\<lparr>cx_prefill := [(0, 0)], cx_tokens := 0, cx_seqs := 1\<rparr>) S2)"
    "waiting_queue S2 = []" "running_sequences S2 = [(0, 0)]" "running_sequences_budgets S2 = [1]" "running_requests S2 = [Some 0]"
    "waiting_queue_offline S2 = []" "running_queue_offline S2 = []"
    using c by (auto simp: wait_q_def demo_sched_def)
  let ?cx2 = "?cx\<lparr>cx_prefill := [(0, 0)], cx_tokens := 0, cx_seqs := 1\<rparr>"
  have "chunk_prefill_loop ?C ?X ?A ?K False ?cx2 S2 = Inr (?cx2, S2)" by (subst chunk_prefill_loop.simps) simp
  then have "chunk_prefill_loop ?C ?X ?A ?K False ?cx ?S = Inr (?cx2, S2)"
    using r(1) c by (subst chunk_prefill_loop.simps) (simp add: wait_q_def)
  moreover have "?cx\<lparr>cx_latency_ok := unlimited_latency_ok ?X\<rparr> = ?cx" by (simp add: c chunk_demo_facts)
  ultimately have p1: "chunk_prefill_stage ?C ?X ?A ?K False ?cx ?S = Inr (?cx2, S2)"
    using r(2,3) c by (simp add: chunk_prefill_stage_def chunk_handle_prefill_requests_def give_up_waiting_def Let_def demo_sched_def)
  have p2: "chunk_prefill_stage ?C ?X ?A ?K True ?cx2 S2 = Inr (?cx2, S2)"
    using r(3) by (intro prefill_stage_no_tokens) simp_all
  have run: "handle_running_queue_requests ?C ?X ?A ?K False ?cx ?S = Inr (?cx, ?S)"
    by (subst handle_running_queue_requests.simps) (simp add: run_q_def demo_sched_def)
  have cl: "chunk_clear_batch ?S = ?S" "running_requests ?S = []" by (simp_all add: chunk_clear_batch_def demo_sched_def)
  have "chunk_schedule ?C ?X ?A ?K ?S = Inr (?cx2, S2)"
    using run p1 p2 by (simp add: chunk_schedule_def chunk_fill_def)
  then have "chunk_prepare_batch ?C ?X ?A ?K (\<lambda>_. None) (demo_sched [0] [] Q) = Inr S2"
    using a cl by (simp add: chunk_prepare_batch_def List.map_filter_def)
  then show ?thesis using Q(1) r(3-5) by blast
qed

section \<open>Budgets\<close>

text \<open>C26: the batches of the chunked prefill scheduler stay within their budgets, whatever the KV cache
  manager does: the chunks add up to at most the token budget, there are at most
  \<open>max_seqs_per_batch\<close> sequences, each with its own chunk, and no chunk is empty, so that every
  scheduled sequence advances.\<close>

theorem chunks_within_budgets:
  assumes "create_continuous_scheduler F C = Inr Chunked_prefill_scheduler" "chunk_prepare_batch C X A K conn S = Inr S'"
  shows "sum_list (running_sequences_budgets S') \<le> chunk_token_budget C X \<and>
    length (running_sequences S') \<le> size_of_int (max_seqs_per_batch C) \<and>
    length (running_sequences_budgets S') = length (running_sequences S') \<and> 0 \<notin> set (running_sequences_budgets S')"
proof -
  obtain S3 cx where s: "chunk_schedule C X A K (chunk_clear_batch S3) = Inr (cx, S')"
    using assms(2) by (auto simp: chunk_prepare_batch_def)
  from chunk_schedule_within[OF s chunked_no_speculation[OF assms(1)]] show ?thesis by (auto simp: chunk_clear_batch_def)
qed

theorem chunks_within_budgets_witness:
  "\<exists>Q S'. bpool_new 4 2 False 2 1 = Inr Q \<and>
    chunk_prepare_batch chunk_demo_options chunk_demo (bp_allocate_shared demo_lib) (pool_kv demo_lib 0 (\<lambda>_. False)) (\<lambda>_. None)
      (demo_sched [0] [] Q) = Inr S' \<and> running_sequences S' = [(0, 0)] \<and> sum_list (running_sequences_budgets S') \<le> 1"
proof -
  obtain Q S' where Q: "bpool_new 4 2 False 2 1 = Inr Q" "running_sequences S' = [(0, 0)]"
    "chunk_prepare_batch chunk_demo_options chunk_demo (bp_allocate_shared demo_lib) (pool_kv demo_lib 0 (\<lambda>_. False)) (\<lambda>_. None)
      (demo_sched [0] [] Q) = Inr S'"
    using chunk_demo_prepare by blast
  show ?thesis using chunks_within_budgets[OF chunk_demo_facts(1) Q(3)] Q chunk_demo_facts(4) by auto
qed

section \<open>The order of service\<close>



section \<open>Conservation\<close>

text \<open>No request is lost and none is duplicated by a step of the chunked prefill scheduler: over a whole
  \<open>prepare_batch\<close> every request is in exactly as many places (queues, batch, completed, failed)
  as before. For online requests without beam search.\<close>

theorem chunked_requests_conserved:
  assumes "chunk_prepare_batch C X A K conn S = Inr S'" "online S"
  shows "all_ids S' = all_ids S"
  using chunk_prepare_batch_ids[OF assms] by simp

theorem chunked_requests_conserved_witness:
  "\<exists>Q S'. bpool_new 4 2 False 2 1 = Inr Q \<and>
    chunk_prepare_batch chunk_demo_options chunk_demo (bp_allocate_shared demo_lib) (pool_kv demo_lib 0 (\<lambda>_. False)) (\<lambda>_. None)
      (demo_sched [0] [] Q) = Inr S' \<and> all_ids S' = {#0#}"
proof -
  obtain Q S' where Q: "bpool_new 4 2 False 2 1 = Inr Q"
    "chunk_prepare_batch chunk_demo_options chunk_demo (bp_allocate_shared demo_lib) (pool_kv demo_lib 0 (\<lambda>_. False)) (\<lambda>_. None)
      (demo_sched [0] [] Q) = Inr S'"
    using chunk_demo_prepare by blast
  show ?thesis using chunked_requests_conserved[OF Q(2) demo_online] Q by (auto simp: demo_sched_def all_ids_def base_ids_def)
qed

section \<open>Errors\<close>

text \<open>A preempted request with several unfinished sequences aborts the scheduler when the first ones use up
  the token budget: the next sequence is offered a chunk of no tokens, which passes the test of
  the budget, and \<open>allocate_blocks_for\<close> checks that the chunk is larger than the number of
  speculative tokens.\<close>

theorem used_up_budget_aborts:
  assumes "finished_seq r i S = Inr (False, S1)" "seq_at r i S1 = Inr s" "as < sb"
  shows "chunk_prefill_seqs C X A K r tb sb (i # is) tb as ps bs S = Inl Check_failed"
  using assms by (simp add: Let_def allocate_blocks_for_def check_def del: bindE_eq_Inr)

theorem used_up_budget_aborts_witness:
  "chunk_prefill_seqs chunk_demo_options chunk_demo (\<lambda>s P. Inr (s, P)) full_kv 0 1 2 [0] 1 1 [] [] (demo_sched [] [] 0) = Inl Check_failed"
proof -
  let ?S = "demo_sched [] [] (0 :: nat)"
  have "rq_sequences (sc_reqs ?S 0) = [fresh_seq]" by (simp add: demo_sched_def demo_req_def)
  then have "finished_seq 0 0 ?S = Inr (False, put_seq 0 0 checked_seq ?S)" "seq_at 0 0 (put_seq 0 0 checked_seq ?S) = Inr checked_seq"
    using fresh_seq_unfinished by (simp_all add: finished_seq_def seq_at_def put_seq_def upd_req_def del: bindE_eq_Inr)
  then show ?thesis by (rule used_up_budget_aborts) simp
qed

end
