(* ===== verification/Prefill_Only.thy ===== *)
theory Prefill_Only
  imports Scheduler_Order
begin

text \<open>
  \<open>core/scheduler/prefill_only_scheduler.{h,cpp}\<close>: the scheduler for chunked prefill with
  speculative decoding. A step serves the requests whose prompt was cut in the last step, then
  waiting requests, and decodes only when neither gave a sequence. The queues, the decode loop
  and the treatment of running requests are those of its base class, \<open>ContinuousScheduler\<close>.
  The two prefill functions of the source share the body that serves one request; it is
  \<open>po_request\<close> here. \<open>update_prefetch_result\<close> is true for a cache without a storage tier.
\<close>

section \<open>One request\<close>

text \<open>\<open>allocate(Sequence*)\<close> asks for all tokens of the sequence; offline requests may give way.\<close>

definition alloc_all :: "'p kv_ops \<Rightarrow> nat \<Rightarrow> nat \<Rightarrow> 'p sched \<Rightarrow> (bool \<times> 'p sched) res" where
  "alloc_all K r i S = bindE (seq_at r i S) (\<lambda>s. alloc_seq K r i (sq_num_tokens s) S)"

definition po_alloc :: "sched_options \<Rightarrow> 'p kv_ops \<Rightarrow> nat \<Rightarrow> nat \<Rightarrow> nat \<Rightarrow> 'p sched \<Rightarrow> (bool \<times> 'p sched) res" where
  "po_alloc C K r i n S =
     bindE (alloc_all K r i S) (\<lambda>(ok, S1).
       if ok then Inr (True, S1)
       else if online_preempt_offline C \<and> \<not> rq_offline (sc_reqs S1 r) \<and> running_queue_offline S1 \<noteq> []
       then bindE (check_if_enough_to_evict K n S1) (\<lambda>(enough, k).
              if enough then bindE (evict_offline_n K k S1) (alloc_all K r i) else Inr (False, S1))
       else Inr (False, S1))"

primrec po_seqs ::
    "sched_options \<Rightarrow> 'p kv_ops \<Rightarrow> nat \<Rightarrow> nat \<Rightarrow> nat \<Rightarrow> nat list \<Rightarrow> nat \<Rightarrow> nat \<Rightarrow> (nat \<times> nat) list \<Rightarrow> nat list \<Rightarrow>
      'p sched \<Rightarrow> 'p scan res" where
  "po_seqs C K r tb sb [] at as ps bs S = Inr (Can_schedule, at, as, ps, bs, S)"
| "po_seqs C K r tb sb (i # is) at as ps bs S =
     bindE (finished_seq r i S) (\<lambda>(fin, S1).
       if fin then po_seqs C K r tb sb is at as ps bs S1
       else bindE (seq_at r i S1) (\<lambda>s.
         let num_tokens = min (size_sub (sq_num_tokens s) (kv_cache_tokens_num (sq_kv s))) tb in
         if tb < at + num_tokens \<or> sb < as + 1 then Inr (Budget_exhausted, at, as, ps, bs, S1)
         else bindE (po_alloc C K r i num_tokens S1) (\<lambda>(ok, S2).
           if ok then po_seqs C K r tb sb is (at + num_tokens) (as + 1) (ps @ [(r, i)]) (bs @ [num_tokens]) S2
           else bindE (dealloc_seq K r i S2) (\<lambda>S3. Inr (Blocks_exhausted, at, as, ps, bs, S3)))))"

datatype 'p po_outcome =
    Po_done "'p sched"                                          \<comment> \<open>finished or cancelled\<close>
  | Po_sched nat nat "(nat \<times> nat) list" "nat list" "'p sched"   \<comment> \<open>to be scheduled\<close>
  | Po_full verdict "'p sched"                                  \<comment> \<open>does not fit\<close>

definition po_request :: "sched_options \<Rightarrow> 'p kv_ops \<Rightarrow> nat \<Rightarrow> nat \<Rightarrow> nat \<Rightarrow> 'p sched \<Rightarrow> 'p po_outcome res" where
  "po_request C K r tb sb S =
     bindE (done_request r S) (\<lambda>(fin, S1).
       if fin then bindE (dealloc_request K r S1) (\<lambda>S2. Inr (Po_done (S2\<lparr>completed := completed S2 @ [r]\<rparr>)))
       else bindE (check (rq_preempted (sc_reqs S1 r) \<or> num_seqs r S1 = 1)) (\<lambda>_.
         bindE (po_seqs C K r tb sb [0..<num_seqs r S1] 0 0 [] [] S1) (\<lambda>(v, at, as, ps, bs, S2).
           if v \<noteq> Can_schedule then bindE (foldE (\<lambda>(r, i). dealloc_seq K r i) ps S2) (\<lambda>S3. Inr (Po_full v S3))
           else Inr (Po_sched at as ps bs S2))))"

section \<open>Waiting requests\<close>

definition po_prefill_round :: "sched_options \<Rightarrow> 'p kv_ops \<Rightarrow> bool \<Rightarrow> nat \<Rightarrow> nat \<Rightarrow> 'p sched \<Rightarrow> 'p flow res" where
  "po_prefill_round C K off tb sb S =
     (if kvm_over_threshold K (sc_pool S) then Inr (Leave Blocks_exhausted tb sb S)
      else let r = pq_top C (sc_reqs S) (wait_q off S) in
      bindE (po_request C K r tb sb S) (\<lambda>out.
        case out of
          Po_done S1 \<Rightarrow> Inr (Go tb sb (set_wait_q off (remove1 r (wait_q off S1)) S1))
        | Po_sched at as ps bs S1 \<Rightarrow>
            Inr (Go (size_sub tb at) (size_sub sb as) (schedule r ps bs (set_wait_q off (remove1 r (wait_q off S1)) S1)))
        | Po_full v S1 \<Rightarrow> Inr (Leave v tb sb S1)))"

section \<open>Requests cut in the last step\<close>

text \<open>
  The vector \<open>last_step_prefill_requests\<close> is local to \<open>prepare_batch\<close>: what the loop does not
  reach or cannot schedule is not put back into a queue.
\<close>

primrec po_last_loop ::
    "sched_options \<Rightarrow> 'p kv_ops \<Rightarrow> nat list \<Rightarrow> nat \<Rightarrow> nat \<Rightarrow> 'p sched \<Rightarrow> (verdict \<times> nat \<times> nat \<times> 'p sched) res" where
  "po_last_loop C K [] tb sb S = Inr (Can_schedule, tb, sb, S)"
| "po_last_loop C K (r # rs) tb sb S =
     (if sb > 0 \<and> tb > 0 \<and> prefill_latency_ok C
      then if kvm_over_threshold K (sc_pool S) then Inr (Blocks_exhausted, tb, sb, S)
           else bindE (po_request C K r tb sb S) (\<lambda>out.
             case out of
               Po_done S1 \<Rightarrow> po_last_loop C K rs tb sb S1
             | Po_sched at as ps bs S1 \<Rightarrow> po_last_loop C K rs (size_sub tb at) (size_sub sb as) (schedule r ps bs S1)
             | Po_full v S1 \<Rightarrow> Inr (v, tb, sb, S1))
      else Inr (Can_schedule, tb, sb, S))"

definition give_up_last :: "'p kv_ops \<Rightarrow> nat list \<Rightarrow> verdict \<Rightarrow> 'p sched \<Rightarrow> 'p sched res" where
  "give_up_last K rs v S =
     (if running_sequences S = [] \<and> rs \<noteq> [] \<and> running_queue S = []
      then bindE (dealloc_request K (hd rs) S) (\<lambda>S1.
             if v = Can_schedule then Inl Fatal else Inr (S1\<lparr>failed := failed S1 @ [hd rs]\<rparr>))
      else Inr S)"

definition handle_last_step_prefill_requests ::
    "sched_options \<Rightarrow> 'p kv_ops \<Rightarrow> nat list \<Rightarrow> nat \<Rightarrow> nat \<Rightarrow> 'p sched \<Rightarrow> (nat \<times> nat \<times> 'p sched) res" where
  "handle_last_step_prefill_requests C K rs tb sb S =
     bindE (po_last_loop C K rs tb sb S) (\<lambda>(v, tb1, sb1, S1).
     bindE (give_up_last K rs v S1) (\<lambda>S2.
       Inr (tb1, sb1, if running_sequences S2 \<noteq> [] then S2\<lparr>last_step_prefill := True\<rparr> else S2)))"

section \<open>What the calls leave alone\<close>

lemma alloc_all_step: "alloc_all K r i S = Inr (ok, S') \<Longrightarrow> heap_step S S'"
  by (auto simp: alloc_all_def dest: alloc_seq_step)

lemma po_alloc_evicted: "po_alloc C K r i n S = Inr (ok, S') \<Longrightarrow> evicted S S'"
  unfolding po_alloc_def
  by (auto simp: split_beta intro: evicted_step evicted_trans[OF evicted_step evicted_trans[OF _ evicted_step]]
      dest!: alloc_all_step evict_offline_n_evicted split: if_splits)

lemma po_seqs_spec:
  assumes "po_seqs C K r tb sb is at as ps bs S = Inr (v, at', as', ps', bs', S')" "at \<le> tb" "as \<le> sb"
  shows "evicted S S' \<and> at' \<le> tb \<and> as' \<le> sb \<and>
    (\<exists>qs ds. ps' = ps @ qs \<and> bs' = bs @ ds \<and> length qs = length ds \<and> as' = as + length ds \<and> at' = at + sum_list ds)"
  using assms
proof (induction "is" arbitrary: at as ps bs S)
  case Nil
  then show ?case by (auto intro: evicted_step)
next
  case (Cons i "is")
  obtain fin S1 where f: "finished_seq r i S = Inr (fin, S1)" using Cons.prems(1) by auto
  have e1: "evicted S S1" using f by (intro evicted_step finished_seq_step)
  show ?case
  proof (cases fin)
    case True
    then have "po_seqs C K r tb sb is at as ps bs S1 = Inr (v, at', as', ps', bs', S')" using Cons.prems(1) f by simp
    from Cons.IH[OF this Cons.prems(2,3)] show ?thesis using evicted_trans[OF e1] by blast
  next
    case False
    obtain s where s: "seq_at r i S1 = Inr s" using Cons.prems(1) f False by auto
    let ?n = "min (size_sub (sq_num_tokens s) (kv_cache_tokens_num (sq_kv s))) tb"
    note unf = po_seqs.simps f s bindE_Inr prod.case Let_def if_not_P[OF False]
    show ?thesis
    proof (cases "tb < at + ?n \<or> sb < as + 1")
      case True
      then show ?thesis using Cons.prems e1 unfolding unf by simp
    next
      case within: False
      obtain ok S2 where a: "po_alloc C K r i ?n S1 = Inr (ok, S2)"
        using Cons.prems(1) unfolding unf if_not_P[OF within] by auto
      have e2: "evicted S S2" using e1 po_alloc_evicted[OF a] by (rule evicted_trans)
      show ?thesis
      proof (cases ok)
        case True
        then have "po_seqs C K r tb sb is (at + ?n) (as + 1) (ps @ [(r, i)]) (bs @ [?n]) S2 = Inr (v, at', as', ps', bs', S')"
          using Cons.prems(1) unfolding unf if_not_P[OF within] a by simp
        from Cons.IH[OF this] within obtain qs ds where ih: "evicted S2 S'" "at' \<le> tb" "as' \<le> sb" "ps' = (ps @ [(r, i)]) @ qs"
          "bs' = (bs @ [?n]) @ ds" "length qs = length ds" "as' = as + 1 + length ds" "at' = at + ?n + sum_list ds"
          by auto
        have "ps' = ps @ ((r, i) # qs) \<and> bs' = bs @ (?n # ds) \<and> length ((r, i) # qs) = length (?n # ds) \<and>
          as' = as + length (?n # ds) \<and> at' = at + sum_list (?n # ds)" using ih by simp
        then show ?thesis using ih(1-3) evicted_trans[OF e2] by blast
      next
        case nok: False
        then obtain S3 where "dealloc_seq K r i S2 = Inr S3" "S' = S3" "at' = at" "as' = as" "ps' = ps" "bs' = bs"
          using Cons.prems(1) unfolding unf if_not_P[OF within] a by auto
        then show ?thesis using evicted_trans[OF e2 evicted_step[OF dealloc_seq_step]] Cons.prems(2,3) by auto
      qed
    qed
  qed
qed

lemma po_request_cases:
  assumes "po_request C K r tb sb S = Inr out"
  obtains (finished) S1 where "heap_step S S1" "out = Po_done (S1\<lparr>completed := completed S1 @ [r]\<rparr>)"
    | (sched) at as ps bs S1 where "evicted S S1" "at \<le> tb" "as \<le> sb" "length ps = as" "length bs = as" "sum_list bs = at"
      "out = Po_sched at as ps bs S1"
    | (full) v S1 where "evicted S S1" "out = Po_full v S1"
proof -
  obtain fin S1 where d: "done_request r S = Inr (fin, S1)" using assms by (auto simp: po_request_def)
  have s1: "heap_step S S1" using d by (rule done_request_step)
  show thesis
  proof (cases fin)
    case True
    then obtain S2 where S2: "dealloc_request K r S1 = Inr S2" "out = Po_done (S2\<lparr>completed := completed S2 @ [r]\<rparr>)"
      using assms d by (auto simp: po_request_def)
    show thesis by (rule finished[OF heap_step_trans[OF s1 dealloc_request_step[OF S2(1)]] S2(2)])
  next
    case False
    obtain v at as ps bs S2 where p: "po_seqs C K r tb sb [0..<num_seqs r S1] 0 0 [] [] S1 = Inr (v, at, as, ps, bs, S2)"
      using assms d False by (auto simp: po_request_def)
    have sp: "evicted S1 S2" "at \<le> tb" "as \<le> sb" "length ps = as" "length bs = as" "sum_list bs = at"
      using po_seqs_spec[OF p] by auto
    have e: "evicted S S2" using evicted_step[OF s1] sp(1) by (rule evicted_trans)
    show thesis
    proof (cases "v = Can_schedule")
      case True
      show thesis by (rule sched[OF e sp(2-6)]) (use assms d False p True in \<open>auto simp: po_request_def check_def split: if_splits\<close>)
    next
      case nv: False
      obtain S3 where l: "foldE (\<lambda>(r, i). dealloc_seq K r i) ps S2 = Inr S3" "out = Po_full v S3"
        using assms d False p nv by (auto simp: po_request_def)
      have "heap_step S2 S3" by (rule foldE_step[OF l(1)]) (auto intro: dealloc_seq_step)
      from full[OF evicted_trans[OF e evicted_step[OF this]] l(2)] show thesis .
    qed
  qed
qed

lemma po_prefill_round_less:
  assumes "po_prefill_round C K off tb sb S = Inr (Go tb' sb' S')" "wait_q off S \<noteq> []"
  shows "prefill_measure off S' < prefill_measure off S"
proof -
  let ?r = "pq_top C (sc_reqs S) (wait_q off S)"
  have r: "?r \<in> set (wait_q off S)" using assms(2) by (rule pq_top_in)
  obtain out where o: "po_request C K ?r tb sb S = Inr out"
    using assms(1) by (auto simp: po_prefill_round_def Let_def split: if_splits)
  from this show ?thesis
  proof (cases rule: po_request_cases)
    case (finished S1)
    then have "S' = set_wait_q off (remove1 ?r (wait_q off S1)) (S1\<lparr>completed := completed S1 @ [?r]\<rparr>)"
      using assms(1) o by (auto simp: po_prefill_round_def Let_def split: if_splits)
    then show ?thesis using take_waiting_less[OF evicted_step[OF finished(1)] r] by (simp add: prefill_measure_def)
  next
    case (sched at as ps bs S1)
    then have "S' = schedule ?r ps bs (set_wait_q off (remove1 ?r (wait_q off S1)) S1)"
      using assms(1) o by (auto simp: po_prefill_round_def Let_def split: if_splits)
    then show ?thesis using take_waiting_less[OF sched(1) r] by (simp add: prefill_measure_def)
  next
    case (full v S1)
    then show ?thesis using assms(1) o by (auto simp: po_prefill_round_def Let_def split: if_splits)
  qed
qed

declare bindE_fundef_cong [fundef_cong]

function po_prefill_loop ::
    "sched_options \<Rightarrow> 'p kv_ops \<Rightarrow> bool \<Rightarrow> nat \<Rightarrow> nat \<Rightarrow> 'p sched \<Rightarrow> (verdict \<times> nat \<times> nat \<times> 'p sched) res" where
  "po_prefill_loop C K off tb sb S =
     (if wait_q off S \<noteq> [] \<and> sb > 0 \<and> tb > 0 \<and> prefill_latency_ok C
      then bindE (po_prefill_round C K off tb sb S) (\<lambda>f.
             case f of Go tb1 sb1 S1 \<Rightarrow> po_prefill_loop C K off tb1 sb1 S1 | Leave v tb1 sb1 S1 \<Rightarrow> Inr (v, tb1, sb1, S1))
      else Inr (Can_schedule, tb, sb, S))"
  by pat_completeness auto
termination
  by (relation "measure (\<lambda>(C, K, off, tb, sb, S). prefill_measure off S)") (auto intro: po_prefill_round_less)

declare po_prefill_loop.simps [simp del]

definition po_handle_prefill_requests ::
    "sched_options \<Rightarrow> 'p kv_ops \<Rightarrow> bool \<Rightarrow> nat \<Rightarrow> nat \<Rightarrow> 'p sched \<Rightarrow> (nat \<times> nat \<times> 'p sched) res" where
  "po_handle_prefill_requests C K off tb sb S =
     bindE (po_prefill_loop C K off tb sb S) (\<lambda>(v, tb1, sb1, S1).
     bindE (give_up_waiting C K off v S1) (\<lambda>S2.
       Inr (tb1, sb1, if running_sequences S2 \<noteq> [] then S2\<lparr>last_step_prefill := True\<rparr> else S2)))"

section \<open>prepare_batch\<close>

text \<open>
  Running requests go back to the queues; those in the middle of their prompt are collected
  when the last step was a prefill step, or when the strategy is not first come, first served.
\<close>

definition po_requeue_one :: "'p kv_ops \<Rightarrow> bool \<Rightarrow> nat \<Rightarrow> nat list \<times> 'p sched \<Rightarrow> (nat list \<times> 'p sched) res" where
  "po_requeue_one K if_back r = (\<lambda>(pending, S).
     bindE (handle_running_requests K r S) (\<lambda>S1.
     bindE (seq_at r 0 S1) (\<lambda>s.
       Inr (if stage s = CHUNKED_PREFILL then (pending @ [r], S1) else (pending, push_running if_back r S1)))))"

definition po_requeue_running :: "sched_options \<Rightarrow> 'p kv_ops \<Rightarrow> nat list \<Rightarrow> 'p sched \<Rightarrow> (nat list \<times> 'p sched) res" where
  "po_requeue_running C K rs S =
     (if so_fcfs C \<and> \<not> last_step_prefill S
      then bindE (foldE (requeue_one K False) (rev rs) S) (\<lambda>S1. Inr ([], S1))
      else foldE (po_requeue_one K (last_step_prefill S)) rs ([], S))"

definition po_schedule :: "sched_options \<Rightarrow> 'p kv_ops \<Rightarrow> nat list \<Rightarrow> 'p sched \<Rightarrow> 'p sched res" where
  "po_schedule C K pending S =
     (let tb = max_tokens_per_batch C; sb = nat (max (max_seqs_per_batch C) 1) in
      bindE (if pending = [] then Inr (tb, sb, S) else handle_last_step_prefill_requests C K pending tb sb S) (\<lambda>(tb1, sb1, S1).
      bindE (po_handle_prefill_requests C K False tb1 sb1 S1) (\<lambda>(tb2, sb2, S2).
      bindE (po_handle_prefill_requests C K True tb2 sb2 S2) (\<lambda>(tb3, sb3, S3).
        if running_sequences S3 \<noteq> [] then Inr S3
        else bindE (decode_loop C K False tb3 sb3 S3) (\<lambda>(tb4, sb4, S4).
             bindE (decode_loop C K True tb4 sb4 S4) (\<lambda>(tb5, sb5, S5). Inr S5))))))"

definition po_prepare_batch :: "sched_options \<Rightarrow> 'p kv_ops \<Rightarrow> (nat \<Rightarrow> bool option) \<Rightarrow> 'p sched \<Rightarrow> 'p sched res" where
  "po_prepare_batch C K conn S =
     bindE (accept_requests C S) (\<lambda>S1.
     bindE (sweep_running K conn (running_requests S1) S1) (\<lambda>(rs, S2).
     bindE (po_requeue_running C K (List.map_filter (\<lambda>x. x) rs) S2) (\<lambda>(pending, S3).
       po_schedule C K pending (clear_batch S3))))"

end
