(* ===== verification/Prefill_Only_Correct.thy ===== *)
theory Prefill_Only_Correct
  imports Prefill_Only
begin

text \<open>
  The batches of the prefill-only scheduler stay within their budgets; every request it starts
  a step with is accounted for except those cut in the last step that it does not schedule.
\<close>

section \<open>Budgets\<close>

lemma po_prefill_round_within:
  assumes "po_prefill_round C K off tb sb S = Inr f" "within M N tb sb S"
  shows "flow_within M N f"
proof (cases "kvm_over_threshold K (sc_pool S)")
  case True
  then show ?thesis using assms by (auto simp: po_prefill_round_def)
next
  case False
  let ?r = "pq_top C (sc_reqs S) (wait_q off S)"
  obtain out where o: "po_request C K ?r tb sb S = Inr out" using assms(1) False by (auto simp: po_prefill_round_def Let_def)
  from this show ?thesis
  proof (cases rule: po_request_cases)
    case (finished S1)
    have "same_batch S (set_wait_q off (remove1 ?r (wait_q off S1)) (S1\<lparr>completed := completed S1 @ [?r]\<rparr>))"
      using heap_step_batch[OF finished(1)] by simp
    then show ?thesis using assms False o finished(2) by (auto simp: po_prefill_round_def Let_def same_batch_within)
  next
    case (sched at as ps bs S1)
    let ?T = "set_wait_q off (remove1 ?r (wait_q off S1)) S1"
    have "same_batch S ?T" using evicted_batch[OF sched(1)] by simp
    then have "within M N tb sb ?T" using assms(2) same_batch_within by blast
    from schedule_within[OF this sched(4-6,2,3), of ?r] show ?thesis
      using assms(1) False o sched(7) by (auto simp: po_prefill_round_def Let_def)
  next
    case (full v S1)
    then show ?thesis using assms False o same_batch_within[OF evicted_batch[OF full(1)]]
      by (auto simp: po_prefill_round_def Let_def)
  qed
qed

lemma po_prefill_loop_within:
  "po_prefill_loop C K off tb sb S = Inr (v, tb', sb', S') \<Longrightarrow> within M N tb sb S \<Longrightarrow> within M N tb' sb' S'"
proof (induction C K off tb sb S rule: po_prefill_loop.induct)
  case (1 C K off tb sb S)
  show ?case
  proof (cases "wait_q off S \<noteq> [] \<and> sb > 0 \<and> tb > 0 \<and> prefill_latency_ok C")
    case False
    then show ?thesis using "1.prems" by (auto simp: po_prefill_loop.simps[of C K off tb sb S])
  next
    case True
    obtain f where f: "po_prefill_round C K off tb sb S = Inr f"
      using "1.prems"(1) True by (auto simp: po_prefill_loop.simps[of C K off tb sb S])
    have w: "flow_within M N f" using po_prefill_round_within[OF f "1.prems"(2)] .
    show ?thesis
    proof (cases f)
      case (Go tb1 sb1 S1)
      then show ?thesis using "1.IH"[OF True f Go] "1.prems"(1) True f w by (simp add: po_prefill_loop.simps[of C K off tb sb S])
    next
      case (Leave v1 tb1 sb1 S1)
      then show ?thesis using "1.prems"(1) True f w by (simp add: po_prefill_loop.simps[of C K off tb sb S])
    qed
  qed
qed

lemma po_handle_prefill_within:
  assumes "po_handle_prefill_requests C K off tb sb S = Inr (tb', sb', S')" "within M N tb sb S"
  shows "within M N tb' sb' S'"
proof -
  obtain v S1 S2 where h: "po_prefill_loop C K off tb sb S = Inr (v, tb', sb', S1)" "give_up_waiting C K off v S1 = Inr S2"
    "S' = (if running_sequences S2 \<noteq> [] then S2\<lparr>last_step_prefill := True\<rparr> else S2)"
    using assms(1) by (auto simp: po_handle_prefill_requests_def)
  have "same_batch S1 S'" unfolding h(3) using give_up_batch[OF h(2)] by simp
  then show ?thesis using po_prefill_loop_within[OF h(1) assms(2)] by (simp add: same_batch_within)
qed

lemma po_last_loop_within:
  "po_last_loop C K rs tb sb S = Inr (v, tb', sb', S') \<Longrightarrow> within M N tb sb S \<Longrightarrow> within M N tb' sb' S'"
proof (induction rs arbitrary: tb sb S)
  case (Cons r rs)
  show ?case
  proof (cases "sb > 0 \<and> tb > 0 \<and> prefill_latency_ok C \<and> \<not> kvm_over_threshold K (sc_pool S)")
    case False
    then show ?thesis using Cons.prems by (auto split: if_splits)
  next
    case True
    obtain out where o: "po_request C K r tb sb S = Inr out" using Cons.prems(1) True by auto
    from this show ?thesis
    proof (cases rule: po_request_cases)
      case (finished S1)
      have "within M N tb sb (S1\<lparr>completed := completed S1 @ [r]\<rparr>)"
        using heap_step_batch[OF finished(1)] Cons.prems(2) by (subst same_batch_within[where S = S]) simp_all
      then show ?thesis using Cons.IH Cons.prems(1) True o finished(2) by simp
    next
      case (sched at as ps bs S1)
      have "within M N tb sb S1" using Cons.prems(2) same_batch_within[OF evicted_batch[OF sched(1)]] by blast
      from Cons.IH[OF _ schedule_within[OF this sched(4-6,2,3)]] show ?thesis using Cons.prems(1) True o sched(7) by simp
    next
      case (full w S1)
      then show ?thesis using Cons.prems True o same_batch_within[OF evicted_batch[OF full(1)]] by auto
    qed
  qed
qed simp

lemma give_up_last_batch: "give_up_last K rs v S = Inr S' \<Longrightarrow> same_batch S S'"
  by (auto simp: give_up_last_def split: if_splits dest!: dealloc_request_step heap_step_batch)

lemma handle_last_within:
  assumes "handle_last_step_prefill_requests C K rs tb sb S = Inr (tb', sb', S')" "within M N tb sb S"
  shows "within M N tb' sb' S'"
proof -
  obtain v S1 S2 where h: "po_last_loop C K rs tb sb S = Inr (v, tb', sb', S1)" "give_up_last K rs v S1 = Inr S2"
    "S' = (if running_sequences S2 \<noteq> [] then S2\<lparr>last_step_prefill := True\<rparr> else S2)"
    using assms(1) by (auto simp: handle_last_step_prefill_requests_def)
  have "same_batch S1 S'" unfolding h(3) using give_up_last_batch[OF h(2)] by simp
  then show ?thesis using po_last_loop_within[OF h(1) assms(2)] by (simp add: same_batch_within)
qed

lemma po_schedule_within:
  assumes "po_schedule C K pending S = Inr S'" "running_sequences S = []" "running_sequences_budgets S = []"
  shows "\<exists>tb sb. within (max_tokens_per_batch C) (nat (max (max_seqs_per_batch C) 1)) tb sb S'"
proof -
  let ?w = "within (max_tokens_per_batch C) (nat (max (max_seqs_per_batch C) 1))"
  have "?w (max_tokens_per_batch C) (nat (max (max_seqs_per_batch C) 1)) S" using assms(2,3) by (simp add: within_def)
  then show ?thesis
    using assms(1) unfolding po_schedule_def Let_def
    by (auto split: if_splits dest!: handle_last_within po_handle_prefill_within decode_loop_within)
qed

lemma po_prepare_batch_within:
  assumes "po_prepare_batch C K conn S = Inr S'"
  shows "\<exists>tb sb. within (max_tokens_per_batch C) (nat (max (max_seqs_per_batch C) 1)) tb sb S'"
  using assms by (auto simp: po_prepare_batch_def clear_batch_def dest!: po_schedule_within)

section \<open>Requests cut in the last step\<close>

lemma po_requeue_one_ids:
  assumes "po_requeue_one K b r (pending, S) = Inr (pending', S')" "online S"
  shows "base_ids S' + mset pending' = add_mset r (base_ids S + mset pending) \<and> online S'"
proof -
  obtain S1 s where h: "handle_running_requests K r S = Inr S1" "seq_at r 0 S1 = Inr s"
    "(pending', S') = (if stage s = CHUNKED_PREFILL then (pending @ [r], S1) else (pending, push_running b r S1))"
    using assms(1) by (auto simp: po_requeue_one_def)
  have k: "keeps S S1" using handle_running_keeps[OF h(1)] .
  have o: "online S1" using keeps_online[OF k] assms(2) by simp
  show ?thesis
  proof (cases "stage s = CHUNKED_PREFILL")
    case True
    then show ?thesis using h(3) keeps_ids[OF k] o by simp
  next
    case False
    then have "requeue_one K b r S = Inr S'" "pending' = pending" using h by (auto simp: requeue_one_def)
    then show ?thesis using requeue_one_ids[OF _ assms(2)] by simp
  qed
qed

lemma po_requeue_loop_ids:
  "foldE (po_requeue_one K b) rs (pending, S) = Inr (pending', S') \<Longrightarrow> online S \<Longrightarrow>
    base_ids S' + mset pending' = base_ids S + mset pending + mset rs \<and> online S'"
proof (induction rs arbitrary: pending S)
  case (Cons r rs)
  obtain pe S1 where a: "po_requeue_one K b r (pending, S) = Inr (pe, S1)" "foldE (po_requeue_one K b) rs (pe, S1) = Inr (pending', S')"
    using Cons.prems(1) by auto
  from po_requeue_one_ids[OF a(1) Cons.prems(2)] Cons.IH[OF a(2)] show ?case by simp
qed simp

lemma po_requeue_ids:
  assumes "po_requeue_running C K rs S = Inr (pending, S')" "online S"
  shows "base_ids S' + mset pending = base_ids S + mset rs \<and> online S'"
proof (cases "so_fcfs C \<and> \<not> last_step_prefill S")
  case True
  then have "foldE (requeue_one K False) (rev rs) S = Inr S'" "pending = []"
    using assms(1) by (auto simp: po_requeue_running_def)
  then show ?thesis using requeue_loop_ids[OF _ assms(2)] by (simp add: add.commute)
next
  case False
  then have "foldE (po_requeue_one K (last_step_prefill S)) rs ([], S) = Inr (pending, S')"
    using assms(1) by (auto simp: po_requeue_running_def)
  from po_requeue_loop_ids[OF this assms(2)] show ?thesis by simp
qed

lemma over_threshold_idle:
  assumes "kvm_over_threshold K (sc_pool S)" "running_queue S \<noteq> []" "running_sequences S = []"
  shows "handle_last_step_prefill_requests C K rs tb sb S = Inr (tb, sb, S)" "po_handle_prefill_requests C K off tb sb S = Inr (tb, sb, S)"
proof -
  have "\<exists>v. po_last_loop C K rs tb sb S = Inr (v, tb, sb, S)" using assms(1) by (cases rs) auto
  then show "handle_last_step_prefill_requests C K rs tb sb S = Inr (tb, sb, S)"
    using assms(2,3) by (auto simp: handle_last_step_prefill_requests_def give_up_last_def simp del: bindE_eq_Inr)
  have "\<exists>v. po_prefill_loop C K off tb sb S = Inr (v, tb, sb, S)"
    using assms(1) by (subst po_prefill_loop.simps) (simp add: po_prefill_round_def)
  then show "po_handle_prefill_requests C K off tb sb S = Inr (tb, sb, S)"
    using assms(2,3) by (auto simp: po_handle_prefill_requests_def give_up_waiting_def simp del: bindE_eq_Inr)
qed

lemma po_schedule_over_threshold:
  assumes "po_schedule C K pending S = Inr S'" "kvm_over_threshold K (sc_pool S)" "running_queue S \<noteq> []" "running_sequences S = []" "online S"
  shows "all_ids S' = all_ids S"
proof -
  note idle = over_threshold_idle[OF assms(2-4)]
  let ?tb = "max_tokens_per_batch C" and ?sb = "nat (max (max_seqs_per_batch C) 1)"
  have "(if pending = [] then Inr (?tb, ?sb, S) else handle_last_step_prefill_requests C K pending ?tb ?sb S) = Inr (?tb, ?sb, S)"
    by (simp add: idle(1))
  then obtain tb4 sb4 S4 tb5 sb5 where d: "decode_loop C K False ?tb ?sb S = Inr (tb4, sb4, S4)" "decode_loop C K True tb4 sb4 S4 = Inr (tb5, sb5, S')"
    using assms(1,4) unfolding po_schedule_def Let_def by (auto simp: idle(2))
  have i: "all_ids S4 = all_ids S" "online S4" using decode_loop_ids[OF d(1) assms(5)] by simp_all
  then show ?thesis using d(2) decode_loop_offline[OF i(2)] by simp
qed

end
