(* ===== verification/Prefill_Only_Properties.thy ===== *)
theory Prefill_Only_Properties
  imports Prefill_Only_Correct Scheduler_Properties
begin

text \<open>The properties of the prefill-only scheduler.\<close>

text \<open>The batches of the prefill-only scheduler stay within their budgets.\<close>

theorem po_batch_within_budgets:
  assumes "po_prepare_batch C K conn S = Inr S'"
  shows "sum_list (running_sequences_budgets S') \<le> max_tokens_per_batch C \<and>
    length (running_sequences S') \<le> nat (max (max_seqs_per_batch C) 1) \<and>
    length (running_sequences_budgets S') = length (running_sequences S')"
  using po_prepare_batch_within[OF assms] by (auto simp: within_def)

text \<open>C28: requests are lost. Requests whose prompt was cut in the last step are taken out of all queues and
  kept in a local vector. When the cache has reached its threshold and other requests run, none of
  them is scheduled and the vector is dropped: after \<open>prepare_batch\<close> they are in no queue, not in the
  batch, and neither completed nor failed. For online requests without beam search.\<close>

theorem cut_requests_lost:
  assumes "accept_requests C S = Inr S1" "sweep_running K conn (running_requests S1) S1 = Inr (rs, S2)"
    and "po_requeue_running C K (List.map_filter (\<lambda>x. x) rs) S2 = Inr (pending, S3)"
    and "kvm_over_threshold K (sc_pool S3)" "running_queue S3 \<noteq> []"
    and "po_prepare_batch C K conn S = Inr S'" "online S"
  shows "all_ids S' + mset pending = all_ids S"
proof -
  have s: "po_schedule C K pending (clear_batch S3) = Inr S'" using assms(1-3,6) by (simp add: po_prepare_batch_def)
  have a: "all_ids S1 = all_ids S" "online S1" using accept_requests_ids[OF assms(1,7)] by simp_all
  have b: "base_ids S2 + mset (live rs) = all_ids S1" "online S2" using sweep_running_ids[OF assms(2) a(2)] by (simp_all add: all_ids_def)
  have c: "base_ids S3 + mset pending = base_ids S2 + mset (live rs)" "online S3"
    using po_requeue_ids[OF assms(3) b(2)] by (simp_all add: live_def)
  have d: "all_ids (clear_batch S3) = base_ids S3" "online (clear_batch S3)" "running_sequences (clear_batch S3) = []"
    "running_queue (clear_batch S3) \<noteq> []" "kvm_over_threshold K (sc_pool (clear_batch S3))"
    using c(2) assms(4,5) by (simp_all add: clear_batch_def all_ids_def base_ids_def online_def)
  show ?thesis using po_schedule_over_threshold[OF s d(5,4,3,2)] a b c d(1) by simp
qed

text \<open>One token of the two of the prompt is in the cache.\<close>

definition cut_seq :: sequence where
  "cut_seq = checked_seq\<lparr>sq_kv := kv_state_new\<lparr>kv_cache_tokens_num := 1\<rparr>\<rparr>"

definition cut_sched :: "nat sched" where
  "cut_sched = (demo_sched [] [1] 1)\<lparr>sc_reqs := (\<lambda>_. demo_req\<lparr>rq_sequences := [cut_seq]\<rparr>), running_requests := [Some 0],
     last_step_prefill := True\<rparr>"

lemma cut_seq_facts:
  "seq_finished_check cut_seq = Inr (False, cut_seq)" "stage cut_seq = CHUNKED_PREFILL" "sq_num_tokens cut_seq = 2"
  "kv_blocks (sq_kv cut_seq) = []"
  by (simp_all add: cut_seq_def checked_seq_def fresh_seq_def kv_state_new_def demo_seq_def seq_new_def seq_blank_def demo_params_def
      seq_finished_check_def stage_def)

lemma same_req: "sc_reqs S r = x \<Longrightarrow> upd_req r x S = S"
  by (auto simp: upd_req_def)

theorem cut_requests_lost_witness:
  "\<exists>S'. po_prepare_batch demo_options full_kv (\<lambda>_. None) cut_sched = Inr S' \<and> all_ids cut_sched = {#0, 1#} \<and> all_ids S' = {#1#}"
proof -
  let ?C = demo_options and ?K = full_kv
  let ?x = "demo_req\<lparr>rq_sequences := [cut_seq]\<rparr>"
  have o: "online cut_sched" by (simp add: online_def cut_sched_def demo_sched_def demo_req_def demo_params_def)
  have x: "rq_sequences ?x = [cut_seq]" "rq_best_of ?x = 1" "\<not> rq_cancelled ?x" by (simp_all add: demo_req_def)
  have dn: "done_request r S = Inr (False, S)" if "sc_reqs S r = ?x" for r S
  proof -
    have "request_finished ?x = Inr (False, ?x)" using x cut_seq_facts(1) by (simp add: request_finished_def)
    then show ?thesis using that x(3) same_req[OF that] by (simp add: done_request_def del: bindE_eq_Inr)
  qed
  have seq: "seq_at r 0 S = Inr cut_seq" "put_seq r 0 cut_seq S = S" if "sc_reqs S r = ?x" for r S
    using that x(1) same_req[OF that] by (simp_all add: seq_at_def put_seq_def)
  have fin: "finished_seq r 0 S = Inr (False, S)" if "sc_reqs S r = ?x" for r S
    using seq[OF that] cut_seq_facts(1) by (simp add: finished_seq_def)
  have r: "sc_reqs cut_sched n = ?x" for n by (simp add: cut_sched_def)
  have a: "accept_requests ?C cut_sched = Inr cut_sched" by (simp add: accept_requests_def cut_sched_def demo_sched_def)
  have "upd_req 0 (update_connection_status None (sc_reqs cut_sched 0)) cut_sched = cut_sched"
    using same_req[OF r] r by (simp add: update_connection_status_def)
  then have b: "sweep_running ?K (\<lambda>_. None) (running_requests cut_sched) cut_sched = Inr ([Some 0], cut_sched)"
    using dn[OF r, of 0] by (simp add: cut_sched_def del: bindE_eq_Inr)
  have n: "num_seqs m S = 1" if "sc_reqs S m = ?x" for m S using that x(1) by (simp add: num_seqs_def)
  have "expand_sequences True ?x = Inr (False, ?x)" using x by (simp add: expand_sequences_def)
  then have "handle_running_requests ?K 0 cut_sched = Inr cut_sched"
    using dn[OF r, of 0] fin[OF r, of 0] same_req[OF r, of 0] n[OF r, of 0] r
    by (simp add: handle_running_requests_def Let_def del: bindE_eq_Inr)
  then have c: "po_requeue_running ?C ?K (List.map_filter (\<lambda>x. x) [Some 0]) cut_sched = Inr ([0], cut_sched)"
    using seq(1)[OF r, of 0] cut_seq_facts(2)
    by (simp add: po_requeue_running_def po_requeue_one_def cut_sched_def demo_options_def List.map_filter_def del: bindE_eq_Inr)
  have d: "kvm_over_threshold ?K (sc_pool cut_sched)" "running_queue cut_sched \<noteq> []"
    by (simp_all add: full_kv_def cut_sched_def demo_sched_def)
  let ?T = "clear_batch cut_sched"
  have t: "sc_reqs ?T 1 = ?x" "run_q False ?T = [1]" "running_sequences ?T = []" "running_queue_offline ?T = []" "sc_pool ?T = 1"
    "running_queue ?T = [1]"
    by (simp_all add: clear_batch_def cut_sched_def demo_sched_def run_q_def)
  have C: "min_speculative_tokens_required ?C = 0" "max_tokens_per_batch ?C = 8" "nat (max (max_seqs_per_batch ?C) 1) = 2" "decode_latency_ok ?C"
    by (simp_all add: demo_options_def min_speculative_tokens_required_def)
  have al: "alloc_seq ?K 1 0 2 ?T = Inr (False, ?T)"
    using seq[OF t(1)] by (simp add: alloc_seq_def full_kv_def t(5) del: bindE_eq_Inr)
  have "decode_seqs ?C ?K 1 8 2 [0..<1] 0 0 [] [] ?T = Inr (Blocks_exhausted, 0, 0, [], [], ?T)"
    using fin[OF t(1)] seq(1)[OF t(1)] al cut_seq_facts(3) C(1) by (simp add: Let_def del: bindE_eq_Inr)
  moreover have "\<not> 1 < beam_width (rq_params ?x)" by (simp add: demo_req_def demo_params_def)
  ultimately have ca: "candidates ?C ?K False 1 8 2 ?T = Inr (Cand (Blocks_exhausted, 0, 0, [], [], ?T))"
    using t(1) n[OF t(1)] by (simp add: candidates_def del: bindE_eq_Inr)
  have "total_num_blocks ?x = 0" "kvm_used_blocks ?K 1 = [1]" using x(1) cut_seq_facts(4) by (simp_all add: total_num_blocks_def full_kv_def)
  then have "decode_round ?C ?K False 8 2 ?T = Inr (Leave Blocks_exhausted 8 2 ?T)"
    using ca t by (simp add: decode_round_def handle_abnormal_request_def Let_def check_def del: bindE_eq_Inr)
  then have l: "decode_loop ?C ?K False 8 2 ?T = Inr (8, 2, ?T)" using t(2) C(1,4) by (subst decode_loop.simps) simp
  have l2: "decode_loop ?C ?K True 8 2 ?T = Inr (8, 2, ?T)" using t(4) by (subst decode_loop.simps) (simp add: run_q_def)
  have th: "kvm_over_threshold ?K (sc_pool ?T)" "running_queue ?T \<noteq> []" using t by (simp_all add: full_kv_def)
  have "po_schedule ?C ?K [0] ?T = Inr ?T"
    unfolding po_schedule_def Let_def C(2,3) using over_threshold_idle[OF th t(3)] l l2 t(3) by (simp del: bindE_eq_Inr)
  then have p: "po_prepare_batch ?C ?K (\<lambda>_. None) cut_sched = Inr ?T"
    using a b c by (simp add: po_prepare_batch_def del: bindE_eq_Inr)
  then obtain S' where p: "po_prepare_batch ?C ?K (\<lambda>_. None) cut_sched = Inr S'" ..
  have i: "all_ids cut_sched = {#0, 1#}" by (simp add: all_ids_def base_ids_def cut_sched_def demo_sched_def)
  have "all_ids S' + mset [0] = all_ids cut_sched" using cut_requests_lost[OF a b c d p o] .
  then show ?thesis using p i by (intro exI[of _ S']) (simp add: add_mset_commute)
qed

end
