(* ===== verification/Zero_Eviction.thy ===== *)
theory Zero_Eviction
  imports Chunked_Prefill "HOL-Library.Word"
begin

text \<open>
  \<open>core/scheduler/zero_eviction_scheduler.{h,cpp}\<close>: a request is only admitted when a simulation
  of the decode steps to come finds enough blocks for all sequences. Counts of blocks are
  \<open>uint32_t\<close>, so they are 32-bit words and wrap.
\<close>

section \<open>The simulation\<close>

type_synonym uint32 = "32 word"

record sequence_status =
  num_block_need_to_use :: uint32
  num_release_block :: uint32

definition ceiling_div :: "uint32 \<Rightarrow> uint32 \<Rightarrow> uint32 res" where
  "ceiling_div l r = (if r = 0 then Inl Div_by_zero else Inr ((l + r - 1) div r))"

text \<open>The statuses that stay and the new number of remaining blocks.\<close>

fun update_request_status_each_step :: "sequence_status list \<Rightarrow> uint32 \<Rightarrow> sequence_status list \<times> uint32" where
  "update_request_status_each_step [] remaining = ([], remaining)"
| "update_request_status_each_step (s # ss) remaining =
     (if num_block_need_to_use s = 0 then update_request_status_each_step ss (remaining + num_release_block s)
      else case update_request_status_each_step ss remaining of (ts, rem) \<Rightarrow>
        (s\<lparr>num_block_need_to_use := num_block_need_to_use s - 1, num_release_block := num_release_block s + 1\<rparr> # ts, rem))"

definition get_max_iter_num :: "sequence_status list \<Rightarrow> uint32 res" where
  "get_max_iter_num ss =
     (case ss of [] \<Rightarrow> Inl Check_failed
      | s # ts \<Rightarrow> Inr (foldl (\<lambda>m t. if num_block_need_to_use t > m then num_block_need_to_use t else m) (num_block_need_to_use s) ts))"

definition get_num_reserved_full_blocks :: "sequence_status list \<Rightarrow> uint32" where
  "get_num_reserved_full_blocks ss = sum_list (map num_block_need_to_use ss)"

text \<open>The loop of the simulation; the first argument counts the iterations left.\<close>

fun simulate_steps :: "nat \<Rightarrow> uint32 \<Rightarrow> sequence_status list \<Rightarrow> bool" where
  "simulate_steps 0 remaining ss = True"
| "simulate_steps (Suc k) remaining ss =
     (let needed = of_nat (length ss) in
      if remaining < needed then False
      else case update_request_status_each_step ss (remaining - needed) of (ts, rem) \<Rightarrow>
        if rem > get_num_reserved_full_blocks ts then True else simulate_steps k rem ts)"

section \<open>BlockCapacityGuard\<close>

record 'p guard_env =
  ge_prefix_cache :: bool                 \<comment> \<open>\<open>FLAGS_enable_prefix_cache\<close>\<close>
  ge_max_decode :: int                    \<comment> \<open>\<open>FLAGS_max_decode_token_per_sequence\<close>\<close>
  ge_num_blocks :: nat                    \<comment> \<open>\<open>kv_cache_manager_->num_blocks()\<close>\<close>
  ge_idle :: "'p \<Rightarrow> bool"                 \<comment> \<open>\<open>kv_cache_utilization() == 0\<close>\<close>

text \<open>The unfinished sequences of the running queue, from its back.\<close>

fun get_running_sequences :: "nat list \<Rightarrow> 'p sched \<Rightarrow> ((nat \<times> nat) list \<times> 'p sched) res" where
  "get_running_sequences [] S = Inr ([], S)"
| "get_running_sequences (r # rs) S =
     bindE (active_seqs r [0..<num_seqs r S] S) (\<lambda>(js, S1).
     bindE (get_running_sequences rs S1) (\<lambda>(xs, S2). Inr (map (Pair r) js @ xs, S2)))"

definition guard_block_size :: "'p kv_ops \<Rightarrow> 'p sched \<Rightarrow> uint32" where
  "guard_block_size K S = of_nat (kvm_block_size K (sc_pool S))"

fun compute_reserved_block_num :: "'p kv_ops \<Rightarrow> (nat \<times> nat) list \<Rightarrow> 'p sched \<Rightarrow> uint32 res" where
  "compute_reserved_block_num K [] S = Inr 0"
| "compute_reserved_block_num K ((r, i) # cs) S =
     bindE (seq_at r i S) (\<lambda>s.
     bindE (ceiling_div (of_nat (sq_num_tokens s)) (guard_block_size K S)) (\<lambda>n.
     bindE (compute_reserved_block_num K cs S) (\<lambda>m. Inr (n + m))))"

definition prefix_cache_for_candidate_sequences ::
    "'p guard_env \<Rightarrow> 'p shared_op \<Rightarrow> (nat \<times> nat) list \<Rightarrow> 'p sched \<Rightarrow> 'p sched res" where
  "prefix_cache_for_candidate_sequences G A cs S =
     (if ge_prefix_cache G then foldE (\<lambda>(r, i). share_seq A r i) cs S else Inr S)"

fun total_kv_blocks :: "(nat \<times> nat) list \<Rightarrow> 'p sched \<Rightarrow> uint32 res" where
  "total_kv_blocks [] S = Inr 0"
| "total_kv_blocks ((r, i) # cs) S =
     bindE (seq_at r i S) (\<lambda>s. bindE (total_kv_blocks cs S) (\<lambda>m. Inr (of_nat (length (kv_blocks (sq_kv s))) + m)))"

definition get_needed_block_num_for_prefill :: "'p guard_env \<Rightarrow> uint32 \<Rightarrow> (nat \<times> nat) list \<Rightarrow> 'p sched \<Rightarrow> uint32 res" where
  "get_needed_block_num_for_prefill G reserved cs S =
     (if ge_prefix_cache G then Inr reserved
      else bindE (total_kv_blocks cs S) (\<lambda>total. bindE (check (reserved \<ge> total)) (\<lambda>_. Inr (reserved - total))))"

text \<open>The difference is computed in \<open>size_t\<close> and stored in an \<open>int32_t\<close>.\<close>

definition num_block_need_to_use_for :: "'p guard_env \<Rightarrow> 'p kv_ops \<Rightarrow> sequence \<Rightarrow> 'p sched \<Rightarrow> uint32 res" where
  "num_block_need_to_use_for G K s S =
     (let rem = word_of_int (ge_max_decode G - (int (sq_num_tokens s) - int (sq_num_prompt_tokens s))) :: uint32 in
      if sint rem < 0 then Inr 1 else ceiling_div rem (guard_block_size K S))"

fun first_low_ref :: "'p kv_ops \<Rightarrow> sequence \<Rightarrow> block list \<Rightarrow> 'p \<Rightarrow> nat res" where
  "first_low_ref K s [] P = Inr 0"
| "first_low_ref K s (b # bs) P =
     bindE (kvm_ref_count K s b P) (\<lambda>n. if n \<le> 2 then Inr (length (b # bs)) else first_low_ref K s bs P)"

definition num_release_block_for :: "'p kv_ops \<Rightarrow> sequence \<Rightarrow> 'p sched \<Rightarrow> uint32 res" where
  "num_release_block_for K s S =
     bindE (ceiling_div (of_nat (sq_num_tokens s)) (guard_block_size K S)) (\<lambda>n.
     bindE (first_low_ref K s (kv_blocks (sq_kv s)) (sc_pool S)) (\<lambda>m.
       Inr (n - of_nat (length (kv_blocks (sq_kv s))) + of_nat m)))"

fun get_all_sequence_status ::
    "'p guard_env \<Rightarrow> 'p kv_ops \<Rightarrow> (nat \<times> nat) list \<Rightarrow> 'p sched \<Rightarrow> sequence_status list res" where
  "get_all_sequence_status G K [] S = Inr []"
| "get_all_sequence_status G K ((r, i) # cs) S =
     bindE (seq_at r i S) (\<lambda>s.
     bindE (num_block_need_to_use_for G K s S) (\<lambda>n.
     bindE (num_release_block_for K s S) (\<lambda>m.
     bindE (get_all_sequence_status G K cs S) (\<lambda>ts.
       Inr (\<lparr>num_block_need_to_use = n, num_release_block = m\<rparr> # ts)))))"

text \<open>
  What the simulation starts from: the blocks left after the prefill of the candidates \<open>cs\<close>, and
  the status of all sequences. \<open>num_blocks_in_useless\<close> is the difference of all and of used
  blocks.
\<close>

definition guard_start ::
    "'p guard_env \<Rightarrow> 'p shared_op \<Rightarrow> 'p kv_ops \<Rightarrow> (nat \<times> nat) list \<Rightarrow> 'p sched \<Rightarrow> (uint32 \<times> sequence_status list \<times> 'p sched) res" where
  "guard_start G A K cs S =
     bindE (get_running_sequences (rev (running_queue S)) S) (\<lambda>(rq, S1).
     bindE (compute_reserved_block_num K cs S1) (\<lambda>reserved.
     bindE (prefix_cache_for_candidate_sequences G A cs S1) (\<lambda>S2.
     bindE (get_needed_block_num_for_prefill G reserved cs S2) (\<lambda>needed.
     bindE (nth_res (kvm_used_blocks K (sc_pool S2)) 0) (\<lambda>used.
     let remaining = of_nat (ge_num_blocks G) - of_nat used - needed in
     bindE (check (remaining > 0)) (\<lambda>_.
     bindE (get_all_sequence_status G K (running_sequences S2 @ cs @ rq) S2) (\<lambda>ss. Inr (remaining, ss, S2))))))))"

definition if_accept_candidate_sequences ::
    "'p guard_env \<Rightarrow> 'p shared_op \<Rightarrow> 'p kv_ops \<Rightarrow> (nat \<times> nat) list \<Rightarrow> 'p sched \<Rightarrow> (bool \<times> 'p sched) res" where
  "if_accept_candidate_sequences G A K cs S =
     bindE (guard_start G A K cs S) (\<lambda>(remaining, ss, S1).
     bindE (get_max_iter_num ss) (\<lambda>n. Inr (simulate_steps (unat n) remaining ss, S1)))"

section \<open>Admission\<close>

text \<open>The sequences of a request that can be scheduled, or \<open>None\<close> when the budgets are too small.\<close>

fun zero_collect ::
    "nat \<Rightarrow> nat \<Rightarrow> nat \<Rightarrow> nat list \<Rightarrow> (nat \<times> nat) list \<Rightarrow> 'p sched \<Rightarrow> (bool \<times> (nat \<times> nat) list \<times> 'p sched) res" where
  "zero_collect r tb sb [] ps S = Inr (True, ps, S)"
| "zero_collect r tb sb (i # is) ps S =
     bindE (finished_seq r i S) (\<lambda>(fin, S1).
       if fin then zero_collect r tb sb is ps S1
       else bindE (seq_at r i S1) (\<lambda>s.
         if tb < sq_num_tokens s \<or> sb < 1 then Inr (False, ps, S1) else zero_collect r tb sb is (ps @ [(r, i)]) S1))"

fun zero_allocate :: "'p kv_ops \<Rightarrow> (nat \<times> nat) list \<Rightarrow> nat list \<Rightarrow> 'p sched \<Rightarrow> (bool \<times> nat list \<times> 'p sched) res" where
  "zero_allocate K [] bs S = Inr (True, bs, S)"
| "zero_allocate K ((r, i) # ps) bs S =
     bindE (seq_at r i S) (\<lambda>s.
     bindE (alloc_seq K r i (sq_num_tokens s) S) (\<lambda>(ok, S1).
       if \<not> ok then Inr (False, bs, S1)
       else bindE (seq_at r i S1) (\<lambda>s1. zero_allocate K ps (bs @ [sq_num_tokens s1]) S1)))"

text \<open>What the guard object does when the function returns without success.\<close>

definition zero_release :: "'p guard_env \<Rightarrow> 'p kv_ops \<Rightarrow> (nat \<times> nat) list \<Rightarrow> 'p sched \<Rightarrow> 'p sched res" where
  "zero_release G K ps S = (if ge_prefix_cache G then foldE (\<lambda>(r, i). dealloc_seq K r i) ps S else Inr S)"

definition try_allocate_block_for ::
    "'p guard_env \<Rightarrow> 'p shared_op \<Rightarrow> 'p kv_ops \<Rightarrow> nat \<Rightarrow> nat \<Rightarrow> nat \<Rightarrow> 'p sched \<Rightarrow> (bool \<times> (nat \<times> nat) list \<times> nat list \<times> 'p sched) res" where
  "try_allocate_block_for G A K r tb sb S =
     bindE (zero_collect r tb sb [0..<num_seqs r S] [] S) (\<lambda>(fits, ps, S1).
       let fail = (\<lambda>T. bindE (zero_release G K ps T) (\<lambda>T1. Inr (False, [], [], T1))) in
       if \<not> fits then fail S1
       else bindE (check (ps \<noteq> [])) (\<lambda>_.
            bindE (if_accept_candidate_sequences G A K ps S1) (\<lambda>(accept, S2).
              if \<not> accept then fail S2
              else bindE (zero_allocate K ps [] S2) (\<lambda>(ok, bs, S3).
                if \<not> ok then fail S3 else Inr (True, ps, bs, S3)))))"

definition zero_prefill_round :: "sched_options \<Rightarrow> 'p guard_env \<Rightarrow> 'p shared_op \<Rightarrow> 'p kv_ops \<Rightarrow> nat \<Rightarrow> nat \<Rightarrow> 'p sched \<Rightarrow> 'p flow res" where
  "zero_prefill_round C G A K tb sb S =
     (let r = pq_top C (sc_reqs S) (waiting_queue S) in
      bindE (done_request r S) (\<lambda>(fin, S1).
        if fin
        then bindE (dealloc_request K r S1) (\<lambda>S2.
               Inr (Go tb sb (S2\<lparr>completed := completed S2 @ [r], waiting_queue := remove1 r (waiting_queue S2)\<rparr>)))
        else bindE (check (rq_preempted (sc_reqs S1 r) \<or> num_seqs r S1 = 1)) (\<lambda>_.
          bindE (try_allocate_block_for G A K r tb sb S1) (\<lambda>(ok, ps, bs, S2).
            if \<not> ok then Inr (Leave Blocks_exhausted tb sb S2)
            else Inr (Go (size_sub tb (sum_list bs)) (size_sub sb (length bs))
                   (schedule r ps bs (S2\<lparr>waiting_queue := remove1 r (waiting_queue S2)\<rparr>)))))))"

section \<open>What the calls leave alone\<close>

lemma get_running_sequences_step: "get_running_sequences rs S = Inr (xs, S') \<Longrightarrow> heap_step S S'"
  by (induction rs arbitrary: S xs) (auto dest!: active_seqs_step intro: heap_step_trans)

lemma guard_start_step:
  assumes "guard_start G A K cs S = Inr (rem, ss, S')"
  shows "heap_step S S'"
proof -
  obtain rq S1 where a: "get_running_sequences (rev (running_queue S)) S = Inr (rq, S1)"
    "prefix_cache_for_candidate_sequences G A cs S1 = Inr S'"
    using assms by (auto simp: guard_start_def Let_def)
  have "heap_step S1 S'"
    using a(2) by (auto simp: prefix_cache_for_candidate_sequences_def split: if_splits elim!: foldE_step intro: share_seq_step)
  then show ?thesis using get_running_sequences_step[OF a(1)] heap_step_trans by blast
qed

lemma if_accept_step: "if_accept_candidate_sequences G A K cs S = Inr (b, S') \<Longrightarrow> heap_step S S'"
  by (auto simp: if_accept_candidate_sequences_def dest: guard_start_step)

lemma zero_collect_step: "zero_collect r tb sb is ps S = Inr (b, qs, S') \<Longrightarrow> heap_step S S'"
proof (induction "is" arbitrary: ps S)
  case (Cons i "is")
  then show ?case by (auto split: if_splits dest!: finished_seq_step intro: heap_step_trans)
qed simp

lemma zero_allocate_step: "zero_allocate K ps bs S = Inr (b, ds, S') \<Longrightarrow> heap_step S S'"
proof (induction ps arbitrary: bs S)
  case (Cons p ps)
  then show ?case by (cases p) (auto split: if_splits dest!: alloc_seq_step intro: heap_step_trans)
qed simp

lemma zero_release_step: "zero_release G K ps S = Inr S' \<Longrightarrow> heap_step S S'"
  by (auto simp: zero_release_def split: if_splits elim!: foldE_step intro: dealloc_seq_step)

lemma try_allocate_step:
  assumes "try_allocate_block_for G A K r tb sb S = Inr (ok, ps, bs, S')"
  shows "heap_step S S'"
proof -
  obtain fits qs S1 where c: "zero_collect r tb sb [0..<num_seqs r S] [] S = Inr (fits, qs, S1)"
    using assms by (auto simp: try_allocate_block_for_def Let_def)
  have s1: "heap_step S S1" using c by (rule zero_collect_step)
  have "heap_step S1 S'"
  proof (cases fits)
    case False
    then show ?thesis using assms c by (auto simp: try_allocate_block_for_def Let_def dest: zero_release_step)
  next
    case True
    then obtain acc S2 where a: "if_accept_candidate_sequences G A K qs S1 = Inr (acc, S2)"
      using assms c by (auto simp: try_allocate_block_for_def Let_def)
    have "heap_step S2 S'"
      using assms c True a
      by (auto simp: try_allocate_block_for_def Let_def split: if_splits dest!: zero_release_step zero_allocate_step intro: heap_step_trans)
    then show ?thesis using if_accept_step[OF a] heap_step_trans by blast
  qed
  then show ?thesis using s1 heap_step_trans by blast
qed

lemma zero_prefill_round_less:
  assumes "zero_prefill_round C G A K tb sb S = Inr (Go tb' sb' S')" "waiting_queue S \<noteq> []"
  shows "length (waiting_queue S') < length (waiting_queue S)"
proof -
  let ?r = "pq_top C (sc_reqs S) (waiting_queue S)"
  have r: "?r \<in> set (waiting_queue S)" using assms(2) by (rule pq_top_in)
  obtain T where "heap_step S T" "waiting_queue S' = remove1 ?r (waiting_queue T)"
  proof -
    obtain fin S1 where d: "done_request ?r S = Inr (fin, S1)" using assms(1) by (auto simp: zero_prefill_round_def Let_def)
    have s1: "heap_step S S1" using d by (rule done_request_step)
    show thesis
    proof (cases fin)
      case True
      then obtain S2 where t: "dealloc_request K ?r S1 = Inr S2" "waiting_queue S' = remove1 ?r (waiting_queue S2)"
        using assms(1) d by (auto simp: zero_prefill_round_def Let_def)
      show thesis using that[OF heap_step_trans[OF s1 dealloc_request_step[OF t(1)]] t(2)] .
    next
      case False
      then obtain ps bs S2 where t: "try_allocate_block_for G A K ?r tb sb S1 = Inr (True, ps, bs, S2)"
        "waiting_queue S' = remove1 ?r (waiting_queue S2)"
        using assms(1) d by (auto simp: zero_prefill_round_def Let_def schedule_def split: if_splits)
      show thesis using that[OF heap_step_trans[OF s1 try_allocate_step[OF t(1)]] t(2)] .
    qed
  qed
  then show ?thesis using r heap_stepD(2) length_pos_if_in_set[OF r] by (fastforce simp: length_remove1)
qed

function zero_prefill_loop ::
    "sched_options \<Rightarrow> 'p guard_env \<Rightarrow> 'p shared_op \<Rightarrow> 'p kv_ops \<Rightarrow> nat \<Rightarrow> nat \<Rightarrow> 'p sched \<Rightarrow> (nat \<times> nat \<times> 'p sched) res" where
  "zero_prefill_loop C G A K tb sb S =
     (if waiting_queue S \<noteq> [] \<and> sb > 0 \<and> tb > 0 \<and> \<not> kvm_over_threshold K (sc_pool S)
      then bindE (zero_prefill_round C G A K tb sb S) (\<lambda>f.
             case f of Go tb1 sb1 S1 \<Rightarrow> zero_prefill_loop C G A K tb1 sb1 S1 | Leave v tb1 sb1 S1 \<Rightarrow> Inr (tb1, sb1, S1))
      else Inr (tb, sb, S))"
  by pat_completeness auto
termination
  by (relation "measure (\<lambda>(C, G, A, K, tb, sb, S). length (waiting_queue S))") (auto intro: zero_prefill_round_less)

declare zero_prefill_loop.simps [simp del]

definition zero_handle_prefill_requests ::
    "sched_options \<Rightarrow> 'p guard_env \<Rightarrow> 'p shared_op \<Rightarrow> 'p kv_ops \<Rightarrow> nat \<Rightarrow> nat \<Rightarrow> 'p sched \<Rightarrow> (nat \<times> nat \<times> 'p sched) res" where
  "zero_handle_prefill_requests C G A K tb sb S =
     bindE (zero_prefill_loop C G A K tb sb S) (\<lambda>(tb1, sb1, S1).
     bindE (if running_sequences S1 = [] \<and> waiting_queue S1 \<noteq> [] \<and> running_queue S1 = [] \<and> ge_idle G (sc_pool S1)
            then let r = pq_top C (sc_reqs S1) (waiting_queue S1) in
                 bindE (dealloc_request K r (S1\<lparr>waiting_queue := remove1 r (waiting_queue S1)\<rparr>)) (\<lambda>S2.
                   Inr (S2\<lparr>failed := failed S2 @ [r]\<rparr>))
            else Inr S1) (\<lambda>S3.
       Inr (tb1, sb1, if running_sequences S3 \<noteq> [] then S3\<lparr>last_step_prefill := True\<rparr> else S3)))"

section \<open>The simulation is sound\<close>

text \<open>
  The decode steps the simulation stands for: a sequence with \<open>(need, held)\<close> takes one block per
  step while it needs some, and gives all it holds back when it needs none.
\<close>

primrec feasible :: "nat \<Rightarrow> nat \<Rightarrow> (nat \<times> nat) list \<Rightarrow> bool" where
  "feasible 0 free ss = True"
| "feasible (Suc k) free ss =
     (let active = filter (\<lambda>(need, held). 0 < need) ss;
          released = sum_list (map snd (filter (\<lambda>(need, held). need = 0) ss)) in
      length active \<le> free \<and> feasible k (free - length active + released) (map (\<lambda>(need, held). (need - 1, held + 1)) active))"

definition status_pair :: "sequence_status \<Rightarrow> nat \<times> nat" where
  "status_pair s = (unat (num_block_need_to_use s), unat (num_release_block s))"

definition status_total :: "sequence_status list \<Rightarrow> nat" where
  "status_total ss = sum_list (map (\<lambda>s. unat (num_block_need_to_use s) + unat (num_release_block s)) ss)"

lemma feasible_total:
  "sum_list (map fst ss) \<le> free \<Longrightarrow> feasible k free ss"
proof (induction k arbitrary: free ss)
  case (Suc k)
  let ?a = "filter (\<lambda>(need, held). 0 < need) ss"
  have s: "sum_list (map fst ss) = length ?a + sum_list (map fst (map (\<lambda>(need, held). (need - 1, held + 1)) ?a))"
    by (induction ss) auto
  have "feasible k (free - length ?a + released) (map (\<lambda>(need, held). (need - 1, held + 1)) ?a)" for released
    by (rule Suc.IH) (use Suc.prems s in linarith)
  then show ?case using Suc.prems s by (simp add: Let_def)
qed simp

lemma unat_add_small: "unat (a :: uint32) + unat b < 2 ^ 32 \<Longrightarrow> unat (a + b) = unat a + unat b"
  by (simp add: unat_add_lem[symmetric])

lemma update_status_spec:
  "update_request_status_each_step ss rem = (ts, rem') \<Longrightarrow> unat rem + status_total ss < 2 ^ 32 \<Longrightarrow>
    map status_pair ts = map (\<lambda>(need, held). (need - 1, held + 1)) (filter (\<lambda>(need, held). 0 < need) (map status_pair ss)) \<and>
    unat rem' = unat rem + sum_list (map snd (filter (\<lambda>(need, held). need = 0) (map status_pair ss))) \<and>
    unat rem' + status_total ts \<le> unat rem + status_total ss"
proof (induction ss arbitrary: rem ts)
  case Nil
  then show ?case by simp
next
  case (Cons s ss)
  have t: "status_total (s # ss) = unat (num_block_need_to_use s) + unat (num_release_block s) + status_total ss"
    by (simp add: status_total_def)
  show ?case
  proof (cases "num_block_need_to_use s = 0")
    case True
    then have u: "update_request_status_each_step ss (rem + num_release_block s) = (ts, rem')" using Cons.prems(1) by simp
    have a: "unat (rem + num_release_block s) = unat rem + unat (num_release_block s)"
      using Cons.prems(2) t by (intro unat_add_small) linarith
    then have "unat (rem + num_release_block s) + status_total ss < 2 ^ 32" using Cons.prems(2) t by linarith
    from Cons.IH[OF u this] True show ?thesis by (simp add: a t status_pair_def)
  next
    case False
    obtain us where u: "update_request_status_each_step ss rem = (us, rem')"
      and ts: "ts = s\<lparr>num_block_need_to_use := num_block_need_to_use s - 1, num_release_block := num_release_block s + 1\<rparr> # us"
      using Cons.prems(1) False by (auto split: prod.splits)
    have n: "0 < unat (num_block_need_to_use s)" using False by (simp add: unat_gt_0)
    have "unat (num_block_need_to_use s - 1) = unat (num_block_need_to_use s) - 1" using False by (simp add: unat_minus_one)
    moreover have "unat (num_release_block s + 1) = unat (num_release_block s) + 1"
      using unat_add_small[of "num_release_block s" 1] Cons.prems(2) t n by simp
    moreover have "unat rem + status_total ss < 2 ^ 32" using Cons.prems(2) t by linarith
    note Cons.IH[OF u this]
    ultimately show ?thesis using n by (simp add: ts t status_pair_def) (simp add: status_total_def)
  qed
qed

lemma reserved_full_spec:
  "status_total ss < 2 ^ 32 \<Longrightarrow> unat (get_num_reserved_full_blocks ss) = sum_list (map fst (map status_pair ss))"
proof (induction ss)
  case (Cons s ss)
  have l: "sum_list (map fst (map status_pair xs)) \<le> status_total xs" for xs
    by (induction xs) (auto simp: status_total_def status_pair_def)
  have t: "status_total (s # ss) = unat (num_block_need_to_use s) + unat (num_release_block s) + status_total ss"
    by (simp add: status_total_def)
  then have ih: "unat (get_num_reserved_full_blocks ss) = sum_list (map fst (map status_pair ss))" using Cons by simp
  have "unat (num_block_need_to_use s + get_num_reserved_full_blocks ss) =
      unat (num_block_need_to_use s) + unat (get_num_reserved_full_blocks ss)"
    using Cons.prems t l[of ss] ih by (intro unat_add_small) linarith
  moreover have "fst (status_pair s) = unat (num_block_need_to_use s)" by (simp add: status_pair_def)
  ultimately show ?case using ih by (simp add: get_num_reserved_full_blocks_def)
qed (simp add: get_num_reserved_full_blocks_def)

lemma simulate_steps_sound:
  "simulate_steps m rem ss \<Longrightarrow> \<forall>s\<in>set ss. unat (num_block_need_to_use s) \<le> m \<Longrightarrow> unat rem + status_total ss < 2 ^ 32 \<Longrightarrow>
    length ss < 2 ^ 32 \<Longrightarrow> unat rem \<le> free \<Longrightarrow> feasible k free (map status_pair ss)"
proof (induction m arbitrary: rem ss free k)
  case 0
  then have "sum_list (map fst (map status_pair ss)) = 0" by (simp add: status_pair_def)
  then show ?case using feasible_total[of "map status_pair ss" free k] by linarith
next
  case (Suc m)
  show ?case
  proof (cases k)
    case (Suc k')
    let ?ps = "map status_pair ss"
    let ?a = "filter (\<lambda>(need, held). 0 < need) ?ps"
    let ?r = "sum_list (map snd (filter (\<lambda>(need, held). need = 0) ?ps))"
    have n: "unat (of_nat (length ss) :: uint32) = length ss" using Suc.prems(4) by (simp add: unat_of_nat)
    have le: "(of_nat (length ss) :: uint32) \<le> rem" using Suc.prems(1) by (auto simp: Let_def not_less split: if_splits)
    then have len: "length ss \<le> unat rem" using n by (simp add: word_le_nat_alt)
    obtain ts rem' where u: "update_request_status_each_step ss (rem - of_nat (length ss)) = (ts, rem')" by fastforce
    have d: "unat (rem - of_nat (length ss)) = unat rem - length ss" using unat_sub[OF le] n by simp
    have b: "unat (rem - of_nat (length ss)) + status_total ss < 2 ^ 32" using Suc.prems(3) d by linarith
    note sp = update_status_spec[OF u b]
    have "length ?a \<le> length ss" using length_filter_le[of _ ?ps] by simp
    then have a: "length ?a \<le> free" "unat rem' \<le> free - length ?a + ?r" using len Suc.prems(5) sp d by linarith+
    have bt: "status_total ts < 2 ^ 32" "unat rem' + status_total ts < 2 ^ 32" using sp b by linarith+
    have "feasible k' (free - length ?a + ?r) (map status_pair ts)"
    proof (cases "rem' > get_num_reserved_full_blocks ts")
      case True
      then have "sum_list (map fst (map status_pair ts)) < unat rem'" using reserved_full_spec[OF bt(1)] by (simp add: word_less_nat_alt)
      then show ?thesis using a(2) by (intro feasible_total) linarith
    next
      case False
      then have s: "simulate_steps m rem' ts" using Suc.prems(1) u by (simp add: Let_def split: if_splits)
      have "fst (status_pair s) \<le> m" if "s \<in> set ts" for s
      proof -
        have "status_pair s \<in> set (map (\<lambda>(need, held). (need - 1, held + 1)) ?a)" using sp that by (metis image_eqI list.set_map)
        then show ?thesis using Suc.prems(2) by (auto simp: status_pair_def)
      qed
      then have m: "\<forall>s\<in>set ts. unat (num_block_need_to_use s) \<le> m" by (simp add: status_pair_def)
      have "length ts \<le> length ss"
        using arg_cong[OF conjunct1[OF sp], of length] length_filter_le[of _ ?ps] by simp
      then have "length ts < 2 ^ 32" using Suc.prems(4) by linarith
      from Suc.IH[OF s m bt(2) this a(2)] show ?thesis .
    qed
    then show ?thesis using a(1) sp Suc by (simp add: Let_def)
  qed simp
qed

lemma max_iter_bound:
  assumes "get_max_iter_num ss = Inr m"
  shows "\<forall>s\<in>set ss. num_block_need_to_use s \<le> m"
proof -
  let ?f = "\<lambda>m t. if num_block_need_to_use t > m then num_block_need_to_use t else m"
  have f: "a \<le> foldl ?f a ts \<and> (\<forall>t\<in>set ts. num_block_need_to_use t \<le> foldl ?f a ts)" for a ts
  proof (induction ts arbitrary: a)
    case (Cons t ts)
    have "a \<le> ?f a t" "num_block_need_to_use t \<le> ?f a t" by auto
    then show ?case using Cons[of "?f a t"] by auto
  qed simp
  show ?thesis using assms f by (cases ss) (auto simp: get_max_iter_num_def)
qed

lemma if_accept_sound:
  assumes "if_accept_candidate_sequences G A K cs S = Inr (True, S')" "guard_start G A K cs S = Inr (remaining, ss, S1)"
    "unat remaining + status_total ss < 2 ^ 32" "length ss < 2 ^ 32"
  shows "feasible k (unat remaining) (map status_pair ss)"
proof -
  obtain m where m: "get_max_iter_num ss = Inr m" "simulate_steps (unat m) remaining ss"
    using assms(1,2) by (auto simp: if_accept_candidate_sequences_def)
  have "\<forall>s\<in>set ss. unat (num_block_need_to_use s) \<le> unat m" using max_iter_bound[OF m(1)] by (simp add: word_le_nat_alt)
  from simulate_steps_sound[OF m(2) this assms(3,4) order_refl] show ?thesis .
qed

end
