(* ===== verification/Admission_Properties.thy ===== *)
theory Admission_Properties
  imports Zero_Eviction Scheduler_Properties
begin

text \<open>The admission test of the zero-eviction scheduler.\<close>

text \<open>A cache of four blocks of two tokens, and a request for two prompt and at most two generated tokens.\<close>

definition guard_demo :: "nat \<Rightarrow> nat guard_env" where
  "guard_demo n = \<lparr>ge_prefix_cache = False, ge_max_decode = 2, ge_num_blocks = n, ge_idle = (\<lambda>_. True)\<rparr>"

lemma guard_demo_start:
  "guard_start (guard_demo n) (\<lambda>s P. Inr (s, P)) full_kv [(0, 0)] (demo_sched [] [] used) =
    (if (of_nat n - of_nat used :: uint32) = 1 then Inl Check_failed
     else Inr (of_nat n - of_nat used - 1, [\<lparr>num_block_need_to_use = 1, num_release_block = 1\<rparr>], demo_sched [] [] used))"
proof -
  let ?S = "demo_sched [] [] used"
  have s: "seq_at 0 0 ?S = Inr fresh_seq" by (simp add: seq_at_def demo_sched_def demo_req_def)
  have f: "sq_num_tokens fresh_seq = 2" "sq_num_prompt_tokens fresh_seq = 2"
    by (simp_all add: fresh_seq_def demo_seq_def seq_new_def seq_blank_def demo_params_def)
  have c: "ceiling_div 2 (guard_block_size full_kv ?S) = Inr 1"
    by (simp add: ceiling_div_def guard_block_size_def full_kv_def)
  have "get_running_sequences (rev (running_queue ?S)) ?S = Inr ([], ?S)" "kvm_used_blocks full_kv (sc_pool ?S) = [used]"
    "running_sequences ?S = []"
    by (simp_all add: demo_sched_def full_kv_def)
  then show ?thesis
    using s f c fresh_seq_ok(3)
    by (simp add: guard_start_def prefix_cache_for_candidate_sequences_def get_needed_block_num_for_prefill_def guard_demo_def Let_def
        num_block_need_to_use_for_def num_release_block_for_def check_def word_gt_0 del: bindE_eq_Inr)
qed



text \<open>The number of remaining blocks wraps around: when all blocks are in use, a candidate that needs one is
  accepted.\<close>

theorem overfull_candidate_accepted:
  "if_accept_candidate_sequences (guard_demo 4) (\<lambda>s P. Inr (s, P)) full_kv [(0, 0)] (demo_sched [] [] 4) = Inr (True, demo_sched [] [] 4)"
  by (simp add: if_accept_candidate_sequences_def guard_demo_start get_max_iter_num_def get_num_reserved_full_blocks_def Let_def
      del: bindE_eq_Inr)

end
