(* ===== verification/Batches.thy ===== *)
theory Batches
  imports Requests
begin

text \<open>
  \<open>core/framework/batch/batch.{h,cpp}\<close>, \<open>batch_factory.cpp\<close>, \<open>batch_forward_type.h\<close>: the batches built from
  the sequences the scheduler has chosen, one per rank, and what the sampled tokens do to the
  sequences. A pointer to a sequence is a pair of a request and an index into its sequences;
  the store has the requests, the queues \<open>is_pre_scheduled_step_prefill_\<close> and the sample slots of
  the sequences. Tensors, embeddings of images and log probabilities are not modelled; the beam
  search of a group is a parameter.
\<close>

section \<open>Store\<close>

type_synonym seq_ref = "nat \<times> nat"

record seq_store =
  st_reqs :: "nat \<Rightarrow> request"
  st_queue :: "seq_ref \<Rightarrow> bool list"
  st_slots :: "seq_ref \<Rightarrow> (nat \<times> nat) list"    \<comment> \<open>token position and sample id\<close>

definition ref_seq :: "seq_ref \<Rightarrow> seq_store \<Rightarrow> sequence res" where
  "ref_seq ref st = nth_res (rq_sequences (st_reqs st (fst ref))) (snd ref)"

definition put_ref :: "seq_ref \<Rightarrow> sequence \<Rightarrow> seq_store \<Rightarrow> seq_store" where
  "put_ref ref s st =
     st\<lparr>st_reqs := (st_reqs st)(fst ref := (st_reqs st (fst ref))
          \<lparr>rq_sequences := (rq_sequences (st_reqs st (fst ref)))[snd ref := s]\<rparr>)\<rparr>"

definition ref_finished :: "seq_ref \<Rightarrow> seq_store \<Rightarrow> (bool \<times> seq_store) res" where
  "ref_finished ref st =
     bindE (ref_seq ref st) (\<lambda>s. bindE (seq_finished_check s) (\<lambda>(b, s1). Inr (b, put_ref ref s1 st)))"

section \<open>Forward type\<close>

datatype forward_type = F_PREFILL | F_CHUNKED_PREFILL | F_DECODE | F_MIXED | F_EMPTY

fun of_stage :: "seq_stage \<Rightarrow> forward_type" where
  "of_stage PREFILL = F_PREFILL"
| "of_stage CHUNKED_PREFILL = F_CHUNKED_PREFILL"
| "of_stage DECODE = F_DECODE"

definition update_forward_type :: "seq_stage \<Rightarrow> forward_type \<Rightarrow> forward_type" where
  "update_forward_type stg t =
     (case t of
        F_PREFILL \<Rightarrow> if stg = CHUNKED_PREFILL then F_CHUNKED_PREFILL else if stg = DECODE then F_MIXED else t
      | F_CHUNKED_PREFILL \<Rightarrow> if stg = DECODE then F_MIXED else t
      | F_DECODE \<Rightarrow> if stg \<noteq> DECODE then F_MIXED else t
      | F_MIXED \<Rightarrow> t
      | F_EMPTY \<Rightarrow> of_stage stg)"

text \<open>The type of a batch does not depend on the order of its sequences.\<close>

definition forward_type_spec :: "seq_stage set \<Rightarrow> forward_type" where
  "forward_type_spec X =
     (if X = {} then F_EMPTY
      else if X = {DECODE} then F_DECODE
      else if DECODE \<in> X then F_MIXED
      else if CHUNKED_PREFILL \<in> X then F_CHUNKED_PREFILL else F_PREFILL)"

lemma forward_type_insert: "update_forward_type stg (forward_type_spec X) = forward_type_spec (insert stg X)"
proof -
  have "X = {} \<or> X = {DECODE} \<or> (DECODE \<in> X \<and> X \<noteq> {DECODE}) \<or> (DECODE \<notin> X \<and> X \<noteq> {})" by blast
  moreover have "insert stg X = {DECODE} \<longleftrightarrow> stg = DECODE \<and> X \<subseteq> {DECODE}" by auto
  ultimately show ?thesis by (cases stg) (auto simp: forward_type_spec_def update_forward_type_def)
qed

section \<open>Batches\<close>

record out_target =
  ot_sequence :: seq_ref
  ot_sample_id :: nat
  from_sample_slot :: bool

record batch =
  bt_sequences :: "seq_ref list"
  allowed_max_tokens :: "nat list"
  sequence_groups :: "nat list"
  batch_forward_type :: forward_type
  output_targets :: "out_target list"

definition batch_new :: batch where
  "batch_new = \<lparr>bt_sequences = [], allowed_max_tokens = [], sequence_groups = [], batch_forward_type = F_EMPTY, output_targets = []\<rparr>"

definition batch_add :: "seq_ref \<Rightarrow> nat \<Rightarrow> batch \<times> seq_store \<Rightarrow> (batch \<times> seq_store) res" where
  "batch_add ref allowed_max_token Bst =
     (case Bst of (B, st) \<Rightarrow>
      bindE (ref_finished ref st) (\<lambda>(fin, st1).
      bindE (check (\<not> fin)) (\<lambda>_.
      bindE (check (allowed_max_token > 0)) (\<lambda>_.
      bindE (ref_seq ref st1) (\<lambda>s.
        Inr (B\<lparr>bt_sequences := bt_sequences B @ [ref], allowed_max_tokens := allowed_max_tokens B @ [allowed_max_token],
               batch_forward_type := update_forward_type (stage s) (batch_forward_type B)\<rparr>, st1))))))"

definition batch_get_sequences :: "batch \<Rightarrow> seq_store \<Rightarrow> seq_ref list" where
  "batch_get_sequences B st =
     (if bt_sequences B \<noteq> [] then bt_sequences B
      else concat (map (\<lambda>r. map (Pair r) [0..<length (rq_sequences (st_reqs st r))]) (sequence_groups B)))"

definition refresh_forward_type :: "batch \<Rightarrow> seq_store \<Rightarrow> batch res" where
  "refresh_forward_type B st =
     bindE (foldE (\<lambda>ref t. bindE (ref_seq ref st) (\<lambda>s. Inr (update_forward_type (stage s) t))) (batch_get_sequences B st) F_EMPTY) (\<lambda>t.
       Inr (B\<lparr>batch_forward_type := t\<rparr>))"

definition refresh_sequences_from_groups :: "batch \<Rightarrow> seq_store \<Rightarrow> batch" where
  "refresh_sequences_from_groups B st =
     (if sequence_groups B = [] then B
      else let refs = concat (map (\<lambda>r. map (Pair r) [0..<length (rq_sequences (st_reqs st r))]) (sequence_groups B)) in
        B\<lparr>bt_sequences := refs, allowed_max_tokens := replicate (length refs) (2 ^ 32 - 1)\<rparr>)"

section \<open>Batch factory\<close>

definition is_beam_search :: "nat list \<Rightarrow> seq_store \<Rightarrow> bool" where
  "is_beam_search rs st \<longleftrightarrow> (\<exists>r \<in> set rs. beam_width (rq_params (st_reqs st r)) > 1)"

text \<open>\<open>batches[rank]\<close>, with an index of type \<open>int32_t\<close>.\<close>

definition at_rank :: "int \<Rightarrow> 'a list \<Rightarrow> nat res" where
  "at_rank rank bs = (if 0 \<le> rank \<and> nat rank < length bs then Inr (nat rank) else Inl Out_of_range)"

text \<open>A \<open>size_t\<close> budget is passed as \<open>uint32_t\<close>.\<close>

definition dispatch_one :: "seq_ref \<times> nat \<Rightarrow> batch list \<times> seq_store \<Rightarrow> (batch list \<times> seq_store) res" where
  "dispatch_one rb Bst =
     (case Bst of (Bs, st) \<Rightarrow>
      bindE (ref_seq (fst rb) st) (\<lambda>s.
      bindE (at_rank (sq_dp_rank s) Bs) (\<lambda>d.
      bindE (batch_add (fst rb) (snd rb mod 2 ^ 32) (Bs ! d, st)) (\<lambda>(B, st1). Inr (Bs[d := B], st1)))))"

definition add_group :: "nat \<Rightarrow> batch list \<times> seq_store \<Rightarrow> (batch list \<times> seq_store) res" where
  "add_group r Bst =
     (case Bst of (Bs, st) \<Rightarrow>
      bindE (ref_seq (r, 0) st) (\<lambda>s.
      bindE (at_rank (sq_dp_rank s) Bs) (\<lambda>d.
        Inr (Bs[d := (Bs ! d)\<lparr>sequence_groups := sequence_groups (Bs ! d) @ [r]\<rparr>], st))))"

definition create_batches :: "nat \<Rightarrow> nat list \<Rightarrow> seq_ref list \<Rightarrow> nat list \<Rightarrow> seq_store \<Rightarrow> (batch list \<times> seq_store) res" where
  "create_batches dp_size running_requests running_sequences budgets st =
     (if length budgets < length running_sequences then Inl Out_of_range
      else bindE (foldE dispatch_one (zip running_sequences budgets) (replicate dp_size batch_new, st)) (\<lambda>(Bs, st1).
           if is_beam_search running_requests st1 then foldE add_group running_requests (Bs, st1) else Inr (Bs, st1)))"

section \<open>Balancing over the cores\<close>

abbreviation num_npu_cores :: nat where
  "num_npu_cores \<equiv> 24"

definition core_row :: "nat \<Rightarrow> nat" where
  "core_row i = (if even (i div num_npu_cores) then i mod num_npu_cores else num_npu_cores - 1 - i mod num_npu_cores)"

definition assign_core :: "nat list \<Rightarrow> nat \<Rightarrow> nat \<Rightarrow> (nat \<Rightarrow> nat \<Rightarrow> nat) \<Rightarrow> (nat \<Rightarrow> nat \<Rightarrow> nat) res" where
  "assign_core base per_core i f =
     (if core_row i < num_npu_cores \<and> i div num_npu_cores < per_core
      then Inr (f(core_row i := (f (core_row i))(i div num_npu_cores := base ! i))) else Inl Out_of_range)"

text \<open>
  \<open>nth_element\<close> and \<open>sorted\<close> are the permutations that \<open>std::nth_element\<close> and \<open>std::sort\<close> make of the
  indices; the table of \<open>num_npu_cores\<close> rows and \<open>base_per_core\<close> columns starts with zeros.
\<close>

definition cal_seq_exchange_index ::
    "(nat list \<Rightarrow> nat list) \<Rightarrow> (nat list \<Rightarrow> nat list) \<Rightarrow> nat \<Rightarrow> (nat \<Rightarrow> nat option) res" where
  "cal_seq_exchange_index nth_element sort_desc num_seqs =
     (let base_per_core = num_seqs div num_npu_cores;
          remainder = num_seqs mod num_npu_cores;
          indices = (if remainder > 0 then nth_element [0..<num_seqs] else [0..<num_seqs]);
          base_indices = sort_desc (take (num_seqs - remainder) indices);
          remainder_indices = drop (num_seqs - remainder) indices in
      bindE (foldE (assign_core base_indices base_per_core) [0..<length base_indices] (\<lambda>_ _. 0)) (\<lambda>f.
        let shift1 = foldl (\<lambda>m (i, j). m(f i j \<mapsto> i + j * num_npu_cores)) (\<lambda>_. None)
                       (List.product [0..<num_npu_cores] [0..<base_per_core]);
            shift2 = foldl (\<lambda>m i. m(remainder_indices ! i \<mapsto> i + num_npu_cores * base_per_core)) shift1 [0..<remainder]
        in Inr shift2))"

section \<open>Output\<close>

record raw_token =
  rt_id :: int
  rt_has_embeddings :: bool

definition get_sample_source_position :: "nat \<Rightarrow> nat" where
  "get_sample_source_position token_position = (if token_position = 0 then 0 else token_position - 1)"

text \<open>The outputs the batch expects: one per sequence that is computed to its end, or one per sample slot.\<close>

definition targets_of :: "seq_ref \<Rightarrow> nat \<Rightarrow> seq_store \<Rightarrow> out_target list res" where
  "targets_of ref allowed st =
     bindE (ref_seq ref st) (\<lambda>s.
       let n_tokens = sq_num_tokens s; n_kv = kv_cache_tokens_num (sq_kv s) in
       if n_tokens \<le> n_kv then Inr []
       else bindE (check (allowed > 0)) (\<lambda>_.
         let seq_len = min (n_tokens - n_kv) allowed + n_kv; slots = st_slots st ref in
         if slots = []
         then Inr (if seq_len = n_tokens then [\<lparr>ot_sequence = ref, ot_sample_id = 0, from_sample_slot = False\<rparr>] else [])
         else Inr (map (\<lambda>(p, sid). \<lparr>ot_sequence = ref, ot_sample_id = sid, from_sample_slot = True\<rparr>)
                (filter (\<lambda>(p, sid). n_kv \<le> get_sample_source_position p \<and> get_sample_source_position p < seq_len) slots))))"

fun refresh_targets :: "(seq_ref \<times> nat) list \<Rightarrow> seq_store \<Rightarrow> out_target list res" where
  "refresh_targets [] st = Inr []"
| "refresh_targets (x # xs) st =
     bindE (targets_of (fst x) (snd x) st) (\<lambda>ts. bindE (refresh_targets xs st) (\<lambda>us. Inr (ts @ us)))"

definition refresh_output_targets :: "batch \<Rightarrow> seq_store \<Rightarrow> batch res" where
  "refresh_output_targets B st =
     bindE (refresh_targets (zip (bt_sequences B) (allowed_max_tokens B)) st) (\<lambda>ts. Inr (B\<lparr>output_targets := ts\<rparr>))"

definition push_step :: "seq_ref \<Rightarrow> bool \<Rightarrow> seq_store \<Rightarrow> seq_store" where
  "push_step ref b st =
     (let q = st_queue st ref @ [b] in st\<lparr>st_queue := (st_queue st)(ref := if length q > 2 then tl q else q)\<rparr>)"

definition pop_step :: "seq_ref \<Rightarrow> seq_store \<Rightarrow> seq_store res" where
  "pop_step ref st =
     (if st_queue st ref = [] then Inl Out_of_range else Inr (st\<lparr>st_queue := (st_queue st)(ref := tl (st_queue st ref))\<rparr>))"

definition update_sequence_state :: "bool \<Rightarrow> bool \<Rightarrow> seq_ref \<Rightarrow> seq_store \<Rightarrow> (bool \<times> seq_store) res" where
  "update_sequence_state chunked replace_fake_token ref st =
     (if \<not> chunked then Inr (False, st)
      else bindE (ref_seq ref st) (\<lambda>s.
        if \<not> replace_fake_token \<and> stage s = CHUNKED_PREFILL then Inr (True, push_step ref True st)
        else if \<not> replace_fake_token then Inr (False, st)
        else if st_queue st ref = [] then Inl Out_of_range
        else if hd (st_queue st ref) then bindE (pop_step ref st) (\<lambda>st1. Inr (True, st1))
        else Inr (False, st)))"

definition append_token_for_sequence :: "bool \<Rightarrow> bool \<Rightarrow> bool \<Rightarrow> int \<Rightarrow> nat \<Rightarrow> seq_ref \<Rightarrow> seq_store \<Rightarrow> seq_store res" where
  "append_token_for_sequence pd chunked replace_fake_token tid token_idx ref st =
     bindE (ref_seq ref st) (\<lambda>s.
       if \<not> replace_fake_token
       then bindE (append_token pd tid s) (\<lambda>s1.
              Inr (if chunked then push_step ref False (put_ref ref s1 st) else put_ref ref s1 st))
       else if \<not> sq_cancelled s
       then bindE (update_last_step_token pd tid token_idx s) (\<lambda>s1.
              let st1 = put_ref ref s1 st in if chunked \<and> token_idx = 0 then pop_step ref st1 else Inr st1)
       else Inr st)"

text \<open>The tokens of one output, until the sequence is finished.\<close>

fun append_outputs :: "bool \<Rightarrow> bool \<Rightarrow> bool \<Rightarrow> bool \<Rightarrow> seq_ref \<Rightarrow> raw_token list \<Rightarrow> nat \<Rightarrow> seq_store \<Rightarrow> seq_store res" where
  "append_outputs pd chunked replace slot ref [] k st = Inr st"
| "append_outputs pd chunked replace slot ref (t # ts) k st =
     bindE (append_token_for_sequence pd chunked replace (rt_id t) k ref st) (\<lambda>st1.
     bindE (if rt_has_embeddings t then bindE (ref_seq ref st1) (\<lambda>s. Inr (put_ref ref (update_embeddings s) st1)) else Inr st1) (\<lambda>st2.
       if slot then append_outputs pd chunked replace slot ref ts (k + 1) st2
       else bindE (ref_finished ref st2) (\<lambda>(fin, st3).
              if fin then Inr st3 else append_outputs pd chunked replace slot ref ts (k + 1) st3)))"

definition empty_placeholder :: "sequence \<Rightarrow> int" where
  "empty_placeholder s = (if tokens_view s = [] then 0 else hd (tokens_view s))"

definition process_target :: "bool \<Rightarrow> bool \<Rightarrow> bool \<Rightarrow> raw_token list list \<Rightarrow> nat \<times> out_target \<Rightarrow> seq_store \<Rightarrow> seq_store res" where
  "process_target pd chunked replace outputs it st =
     (let (output_idx, target) = it; ref = ot_sequence target; slot = from_sample_slot target in
      bindE (if slot then Inr (False, st)
             else bindE (ref_finished ref st) (\<lambda>(fin, st1).
                    if fin then Inr (True, st1) else update_sequence_state chunked replace ref st1)) (\<lambda>(skip, st2).
        if skip then Inr st2
        else if output_idx \<ge> length outputs \<or> outputs ! output_idx = []
        then if slot then bindE (ref_seq ref st2) (\<lambda>s. append_token_for_sequence pd chunked replace (empty_placeholder s) 0 ref st2)
             else Inr st2
        else append_outputs pd chunked replace slot ref (outputs ! output_idx) 0 st2))"

definition process_sample_output ::
    "(nat \<Rightarrow> seq_store \<Rightarrow> seq_store res) \<Rightarrow> bool \<Rightarrow> bool \<Rightarrow> bool \<Rightarrow> bool \<Rightarrow> raw_token list list \<Rightarrow> batch \<Rightarrow> seq_store \<Rightarrow> (batch \<times> seq_store) res" where
  "process_sample_output group_beam_search pd chunked overlap replace outputs B st =
     bindE (foldE (process_target pd chunked replace outputs) (List.enumerate 0 (output_targets B)) st) (\<lambda>st1.
       let B1 = (if replace then B\<lparr>output_targets := []\<rparr> else B) in
       if \<not> overlap \<or> replace
       then bindE (foldE group_beam_search (sequence_groups B) st1) (\<lambda>st2. Inr (B1, st2))
       else Inr (B1, st1))"

definition batch_finish :: "batch \<Rightarrow> seq_store \<Rightarrow> seq_store res" where
  "batch_finish B st =
     (let members = concat (map (\<lambda>r. map (Pair r) [0..<length (rq_sequences (st_reqs st r))]) (sequence_groups B)) in
      foldE (\<lambda>ref st. bindE (ref_seq ref st) (\<lambda>s. Inr (put_ref ref (seq_finish s) st))) (members @ batch_get_sequences B st) st)"

end
