(* ===== verification/Batches_Correct.thy ===== *)
theory Batches_Correct
  imports Batches
begin

text \<open>
  What the batch factory and the batches do: every sequence goes to the batch of its rank with
  its budget, the balancing is a permutation, and sampled tokens reach the sequences they
  belong to.
\<close>

section \<open>References\<close>

definition valid_ref :: "seq_store \<Rightarrow> seq_ref \<Rightarrow> bool" where
  "valid_ref st ref \<longleftrightarrow> snd ref < length (rq_sequences (st_reqs st (fst ref)))"

definition seq_of :: "seq_store \<Rightarrow> seq_ref \<Rightarrow> sequence" where
  "seq_of st ref = rq_sequences (st_reqs st (fst ref)) ! snd ref"

lemma ref_seq_valid: "valid_ref st ref \<Longrightarrow> ref_seq ref st = Inr (seq_of st ref)"
  by (simp add: ref_seq_def valid_ref_def seq_of_def)

lemma put_ref_sel [simp]:
  "valid_ref (put_ref ref s st) x = valid_ref st x"
  "valid_ref st ref \<Longrightarrow> seq_of (put_ref ref s st) x = (if x = ref then s else seq_of st x)"
  "st_queue (put_ref ref s st) = st_queue st" "st_slots (put_ref ref s st) = st_slots st"
  by (auto simp: valid_ref_def seq_of_def put_ref_def prod_eq_iff)

lemma finished_check_frame:
  assumes "seq_finished_check s = Inr (b, s')"
  shows "sq_dp_rank s' = sq_dp_rank s" "stage s' = stage s" "tokens_view s' = tokens_view s" "sq_kv s' = sq_kv s"
    "sq_num_tokens s' = sq_num_tokens s" "sq_num_prompt_tokens s' = sq_num_prompt_tokens s" "sq_params s' = sq_params s"
    "sq_cancelled s' = sq_cancelled s"
  using assms by (auto simp: seq_finished_check_def Let_def stage_def tokens_view_def split: if_splits)

section \<open>Dispatching\<close>

definition dispatchable :: "nat \<Rightarrow> seq_store \<Rightarrow> seq_ref \<times> nat \<Rightarrow> bool" where
  "dispatchable dp st x \<longleftrightarrow> valid_ref st (fst x) \<and> 0 \<le> sq_dp_rank (seq_of st (fst x)) \<and> nat (sq_dp_rank (seq_of st (fst x))) < dp \<and>
     0 < snd x \<and> snd x < 2 ^ 32 \<and> (\<exists>s'. seq_finished_check (seq_of st (fst x)) = Inr (False, s'))"

abbreviation rank_of :: "seq_store \<Rightarrow> seq_ref \<times> nat \<Rightarrow> nat" where
  "rank_of st x \<equiv> nat (sq_dp_rank (seq_of st (fst x)))"

definition extends :: "seq_store \<Rightarrow> (seq_ref \<times> nat) list \<Rightarrow> batch \<Rightarrow> batch \<Rightarrow> bool" where
  "extends st xs B B' \<longleftrightarrow> bt_sequences B' = bt_sequences B @ map fst xs \<and> allowed_max_tokens B' = allowed_max_tokens B @ map snd xs \<and>
     sequence_groups B' = sequence_groups B \<and>
     batch_forward_type B' = foldl (\<lambda>t x. update_forward_type (stage (seq_of st (fst x))) t) (batch_forward_type B) xs"

lemma dispatch_one_ok:
  assumes "dispatchable (length Bs) st x"
  shows "\<exists>B s'. dispatch_one x (Bs, st) = Inr (Bs[rank_of st x := B], put_ref (fst x) s' st) \<and> extends st [x] (Bs ! rank_of st x) B \<and>
    sq_dp_rank s' = sq_dp_rank (seq_of st (fst x)) \<and> stage s' = stage (seq_of st (fst x))"
proof -
  obtain s' where s': "seq_finished_check (seq_of st (fst x)) = Inr (False, s')" using assms by (auto simp: dispatchable_def)
  have v: "valid_ref st (fst x)" and r: "at_rank (sq_dp_rank (seq_of st (fst x))) Bs = Inr (rank_of st x)"
    and b: "snd x mod 2 ^ 32 = snd x" "0 < snd x"
    using assms by (auto simp: dispatchable_def at_rank_def)
  have "ref_finished (fst x) st = Inr (False, put_ref (fst x) s' st)" using v s' by (simp add: ref_finished_def ref_seq_valid)
  moreover have "ref_seq (fst x) (put_ref (fst x) s' st) = Inr s'" using v by (simp add: ref_seq_valid)
  moreover define B where "B = (Bs ! rank_of st x)\<lparr>bt_sequences := bt_sequences (Bs ! rank_of st x) @ [fst x],
      allowed_max_tokens := allowed_max_tokens (Bs ! rank_of st x) @ [snd x],
      batch_forward_type := update_forward_type (stage s') (batch_forward_type (Bs ! rank_of st x))\<rparr>"
  ultimately have "dispatch_one x (Bs, st) = Inr (Bs[rank_of st x := B], put_ref (fst x) s' st)"
    using r b ref_seq_valid[OF v] by (simp add: dispatch_one_def batch_add_def del: bindE_eq_Inr)
  moreover have "extends st [x] (Bs ! rank_of st x) B" using finished_check_frame(2)[OF s'] by (simp add: extends_def B_def)
  ultimately show ?thesis using finished_check_frame(1,2)[OF s'] by blast
qed

lemma dispatch_ok:
  assumes "\<forall>x \<in> set xs. dispatchable (length Bs) st x" "distinct (map fst xs)"
  shows "\<exists>Bs' st'. foldE dispatch_one xs (Bs, st) = Inr (Bs', st') \<and> length Bs' = length Bs \<and>
    (\<forall>d < length Bs. extends st (filter (\<lambda>x. rank_of st x = d) xs) (Bs ! d) (Bs' ! d))"
  using assms
proof (induction xs arbitrary: Bs st)
  case Nil
  then show ?case by (simp add: extends_def)
next
  case (Cons x xs)
  let ?r = "rank_of st x"
  obtain B s' where d: "dispatch_one x (Bs, st) = Inr (Bs[?r := B], put_ref (fst x) s' st)" "extends st [x] (Bs ! ?r) B"
    and f: "sq_dp_rank s' = sq_dp_rank (seq_of st (fst x))" "stage s' = stage (seq_of st (fst x))"
    using dispatch_one_ok[of Bs st x] Cons.prems(1) by auto
  let ?st = "put_ref (fst x) s' st"
  have v: "valid_ref st (fst x)" and r: "?r < length Bs" using Cons.prems(1) by (auto simp: dispatchable_def)
  have same: "rank_of ?st y = rank_of st y" "stage (seq_of ?st (fst y)) = stage (seq_of st (fst y))" for y
    using v f by simp_all
  have other: "fst y \<noteq> fst x" if "y \<in> set xs" for y
    using that Cons.prems(2) by (metis distinct.simps(2) image_eqI list.map(2) list.set_map)
  have "\<forall>y \<in> set xs. dispatchable (length (Bs[?r := B])) ?st y"
  proof
    fix y
    assume y: "y \<in> set xs"
    then have "dispatchable (length Bs) st y" using Cons.prems(1) by simp
    then show "dispatchable (length (Bs[?r := B])) ?st y" using v other[OF y] by (simp add: dispatchable_def)
  qed
  then obtain Bs' st' where ih: "foldE dispatch_one xs (Bs[?r := B], ?st) = Inr (Bs', st')" "length Bs' = length Bs"
    "\<forall>d < length Bs. extends ?st (filter (\<lambda>x. rank_of ?st x = d) xs) (Bs[?r := B] ! d) (Bs' ! d)"
    using Cons.IH[of "Bs[?r := B]" ?st] Cons.prems(2) by auto
  have "extends st (filter (\<lambda>y. rank_of st y = d) (x # xs)) (Bs ! d) (Bs' ! d)" if "d < length Bs" for d
  proof -
    have "extends st (filter (\<lambda>y. rank_of st y = d) xs) (Bs[?r := B] ! d) (Bs' ! d)"
      using ih(3) that unfolding extends_def same by blast
    then show ?thesis using d(2) r that by (cases "?r = d") (auto simp: extends_def)
  qed
  then show ?case using d(1) ih(1,2) by auto
qed

lemma foldl_forward_type:
  "foldl (\<lambda>t x. update_forward_type (g x) t) (forward_type_spec X) xs = forward_type_spec (g ` set xs \<union> X)"
proof (induction xs arbitrary: X)
  case (Cons x xs)
  then show ?case using Cons.IH[of "insert (g x) X"] by (simp add: forward_type_insert)
qed simp

lemma dispatch_params: "dispatch_one x y = Inr y' \<Longrightarrow> rq_params (st_reqs (snd y') r) = rq_params (st_reqs (snd y) r)"
  by (cases y) (auto simp: dispatch_one_def batch_add_def ref_finished_def put_ref_def split_beta)

lemma create_batches_ok:
  assumes "\<forall>x \<in> set (zip refs budgets). dispatchable dp st x" "distinct refs" "length budgets = length refs"
    and "\<forall>r \<in> set rs. \<not> beam_width (rq_params (st_reqs st r)) > 1"
  shows "\<exists>Bs st'. create_batches dp rs refs budgets st = Inr (Bs, st') \<and> length Bs = dp \<and>
    (\<forall>d < dp. zip (bt_sequences (Bs ! d)) (allowed_max_tokens (Bs ! d)) = filter (\<lambda>x. rank_of st x = d) (zip refs budgets) \<and>
      batch_forward_type (Bs ! d) =
        forward_type_spec ((\<lambda>x. stage (seq_of st (fst x))) ` set (filter (\<lambda>x. rank_of st x = d) (zip refs budgets))))"
proof -
  let ?xs = "zip refs budgets"
  have "distinct (map fst ?xs)" using assms(2,3) by simp
  then obtain Bs st' where d: "foldE dispatch_one ?xs (replicate dp batch_new, st) = Inr (Bs, st')" "length Bs = dp"
    "\<forall>d < dp. extends st (filter (\<lambda>x. rank_of st x = d) ?xs) batch_new (Bs ! d)"
    using dispatch_ok[of ?xs "replicate dp batch_new" st] assms(1) by auto
  have "rq_params (st_reqs st' r) = rq_params (st_reqs st r)" for r
    using foldE_invar[OF d(1), of "\<lambda>y. rq_params (st_reqs (snd y) r) = rq_params (st_reqs st r)"] dispatch_params by simp
  then have "create_batches dp rs refs budgets st = Inr (Bs, st')" using d(1) assms(3,4) by (simp add: create_batches_def is_beam_search_def)
  moreover have "zip (bt_sequences (Bs ! i)) (allowed_max_tokens (Bs ! i)) = filter (\<lambda>x. rank_of st x = i) ?xs \<and>
      batch_forward_type (Bs ! i) = forward_type_spec ((\<lambda>x. stage (seq_of st (fst x))) ` set (filter (\<lambda>x. rank_of st x = i) ?xs))"
    if "i < dp" for i
  proof
    let ?f = "filter (\<lambda>x. rank_of st x = i) ?xs"
    have e: "extends st ?f batch_new (Bs ! i)" using d(3) that by blast
    then show "zip (bt_sequences (Bs ! i)) (allowed_max_tokens (Bs ! i)) = ?f" by (simp add: extends_def batch_new_def zip_map_fst_snd)
    have "F_EMPTY = forward_type_spec {}" by (simp add: forward_type_spec_def)
    moreover have "batch_forward_type (Bs ! i) = foldl (\<lambda>t x. update_forward_type (stage (seq_of st (fst x))) t) F_EMPTY ?f"
      using e by (simp add: extends_def batch_new_def)
    ultimately show "batch_forward_type (Bs ! i) = forward_type_spec ((\<lambda>x. stage (seq_of st (fst x))) ` set ?f)"
      using foldl_forward_type[of "\<lambda>x. stage (seq_of st (fst x))" "{}" ?f] by simp
  qed
  ultimately show ?thesis using d(2) by blast
qed

section \<open>Balancing\<close>

definition core_target :: "nat \<Rightarrow> nat" where
  "core_target i = core_row i + i div 24 * 24"

lemma core_row_less: "core_row i < 24"
  by (auto simp: core_row_def)

lemma core_target_div: "core_target i div 24 = i div 24" "core_target i mod 24 = core_row i"
  using core_row_less[of i] by (simp_all add: core_target_def)

lemma core_target_inj: "core_target i = core_target j \<Longrightarrow> i = j"
proof -
  assume e: "core_target i = core_target j"
  have d: "i div 24 = j div 24" using arg_cong[OF e, of "\<lambda>x. x div 24"] by (simp add: core_target_div)
  have "core_row i = core_row j" using arg_cong[OF e, of "\<lambda>x. x mod 24"] by (simp add: core_target_div)
  moreover have "i mod 24 < 24" "j mod 24 < 24" by simp_all
  ultimately have "i mod 24 = j mod 24" using d by (auto simp: core_row_def split: if_splits)
  then show "i = j" using d by (metis div_mult_mod_eq)
qed

lemma core_target_less: "i < 24 * p \<Longrightarrow> core_target i < 24 * p"
  using core_target_div(1)[of i] by (metis div_less_iff_less_mult mult.commute zero_less_numeral)

text \<open>The table after the loop: position \<open>i\<close> of the base indices is in its row and column.\<close>

lemma assign_cores:
  assumes "length base = 24 * p" "n \<le> length base"
  shows "\<exists>f. foldE (assign_core base p) [0..<n] (\<lambda>_ _. 0) = Inr f \<and> (\<forall>i < n. f (core_row i) (i div 24) = base ! i)"
  using assms(2)
proof (induction n)
  case 0
  then show ?case by simp
next
  case (Suc n)
  then obtain f where f: "foldE (assign_core base p) [0..<n] (\<lambda>_ _. 0) = Inr f" "\<forall>i < n. f (core_row i) (i div 24) = base ! i" by auto
  let ?f = "f(core_row n := (f (core_row n))(n div 24 := base ! n))"
  have "n div 24 < p" using Suc.prems assms(1) by (simp add: less_mult_imp_div_less mult.commute)
  then have "foldE (assign_core base p) [0..<Suc n] (\<lambda>_ _. 0) = Inr ?f"
    using f(1) core_row_less[of n] by (simp add: foldE_append assign_core_def)
  moreover have "?f (core_row i) (i div 24) = base ! i" if "i < Suc n" for i
  proof (cases "i = n")
    case False
    then have "\<not> (core_row i = core_row n \<and> i div 24 = n div 24)" using core_target_inj[of i n] by (auto simp: core_target_def)
    moreover have "f (core_row i) (i div 24) = base ! i" using f(2) that False by simp
    ultimately show ?thesis by (cases "core_row i = core_row n") auto
  qed simp
  ultimately show ?case by blast
qed

lemma core_target_surj:
  assumes "t < 24 * p"
  shows "\<exists>i < 24 * p. core_target i = t"
proof -
  have "inj_on core_target {..<24 * p}" using core_target_inj by (auto intro: inj_onI)
  moreover have "core_target ` {..<24 * p} \<subseteq> {..<24 * p}" using core_target_less by auto
  ultimately have "core_target ` {..<24 * p} = {..<24 * p}" by (simp add: endo_inj_surj)
  then show ?thesis using assms by (metis imageE lessThan_iff)
qed

text \<open>A map built by writing distinct keys.\<close>

lemma foldl_upd_dom: "dom (foldl (\<lambda>m x. m(k x \<mapsto> v x)) m xs) = dom m \<union> k ` set xs"
  by (induction xs arbitrary: m) auto

lemma foldl_upd_get:
  assumes "inj_on k (set xs)" "x \<in> set xs" "distinct xs"
  shows "foldl (\<lambda>m x. m(k x \<mapsto> v x)) m xs (k x) = Some (v x)"
  using assms
proof (induction xs rule: rev_induct)
  case (snoc y xs)
  show ?case
  proof (cases "x = y")
    case False
    then have "k x \<noteq> k y" using snoc.prems(1,2) by (auto simp: inj_on_def)
    then show ?thesis using snoc False by (auto simp: inj_on_def)
  qed simp
qed simp

lemma foldl_upd_other: "y \<notin> k ` set xs \<Longrightarrow> foldl (\<lambda>m x. m(k x \<mapsto> v x)) m xs y = m y"
  by (induction xs arbitrary: m) auto

lemma split_perm:
  assumes "mset indices = mset [0..<n]" "mset base = mset (take (n - r) indices)" "r \<le> n"
  shows "distinct (base @ drop (n - r) indices)" "set (base @ drop (n - r) indices) = {..<n}" "length base = n - r"
    "length (drop (n - r) indices) = r"
proof -
  have "mset (base @ drop (n - r) indices) = mset [0..<n]" using assms by (metis append_take_drop_id mset_append)
  then show "distinct (base @ drop (n - r) indices)" "set (base @ drop (n - r) indices) = {..<n}"
    by (metis distinct_upt mset_eq_imp_distinct_iff) (metis \<open>mset (base @ drop (n - r) indices) = mset [0..<n]\<close> atLeast0LessThan atLeast_upt set_mset_mset)
  have l: "length indices = n" using mset_eq_length[OF assms(1)] by simp
  then show "length base = n - r" "length (drop (n - r) indices) = r" using mset_eq_length[OF assms(2)] assms(3) by simp_all
qed

lemma exchange_index_ok:
  assumes "\<And>xs. mset (nth_element xs) = mset xs" "\<And>xs. mset (sort_desc xs) = mset xs"
  shows "\<exists>m. cal_seq_exchange_index nth_element sort_desc n = Inr m \<and> dom m = {..<n} \<and> bij_betw (\<lambda>i. the (m i)) {..<n} {..<n}"
proof -
  define p where "p = n div 24"
  define r where "r = n mod 24"
  define ix where "ix = (if r > 0 then nth_element [0..<n] else [0..<n])"
  define base where "base = sort_desc (take (n - r) ix)"
  define rest where "rest = drop (n - r) ix"
  have n: "n = 24 * p + r" "r \<le> n" by (simp_all add: p_def r_def)
  have ix: "mset ix = mset [0..<n]" using assms(1) by (simp add: ix_def)
  have b: "mset base = mset (take (n - r) ix)" using assms(2) by (simp add: base_def)
  note sp = split_perm[OF ix b n(2), folded rest_def]
  have len: "length base = 24 * p" "length rest = r" using sp(3,4) n by simp_all
  obtain f where f: "foldE (assign_core base p) [0..<length base] (\<lambda>_ _. 0) = Inr f" "\<forall>i < 24 * p. f (core_row i) (i div 24) = base ! i"
    using assign_cores[OF len(1), of "length base"] len(1) by auto
  let ?P = "List.product [0..<24] [0..<p]"
  define m1 where "m1 = foldl (\<lambda>m (i, j). m(f i j \<mapsto> i + j * 24)) (\<lambda>_. None) ?P"
  define m where "m = foldl (\<lambda>m i. m(rest ! i \<mapsto> i + 24 * p)) m1 [0..<r]"
  have m1: "m1 = foldl (\<lambda>m x. m(f (fst x) (snd x) \<mapsto> fst x + snd x * 24)) (\<lambda>_. None) ?P"
    unfolding m1_def by (rule foldl_cong) auto
  have run: "cal_seq_exchange_index nth_element sort_desc n = Inr m"
    using f(1) by (simp add: cal_seq_exchange_index_def Let_def m_def m1_def p_def r_def ix_def base_def rest_def)
  have cell: "\<exists>i < 24 * p. x = (core_row i, i div 24)" if x: "x \<in> set ?P" for x
  proof -
    have "fst x + snd x * 24 < 24 * p" using x by (auto simp: less_mult_imp_div_less)
    then obtain i where i: "i < 24 * p" "core_target i = fst x + snd x * 24" using core_target_surj by blast
    then have "core_row i = fst x" "i div 24 = snd x" using core_target_div[of i] x by auto
    then show ?thesis using i(1) by (intro exI[of _ i]) auto
  qed
  have cellm: "(core_row i, i div 24) \<in> set ?P" if "i < 24 * p" for i
    using that core_row_less[of i] by (auto simp: less_mult_imp_div_less mult.commute)
  have inj: "inj_on (\<lambda>x. f (fst x) (snd x)) (set ?P)"
  proof (rule inj_onI)
    fix x y
    assume xy: "x \<in> set ?P" "y \<in> set ?P" "f (fst x) (snd x) = f (fst y) (snd y)"
    obtain i j where ij: "i < 24 * p" "x = (core_row i, i div 24)" "j < 24 * p" "y = (core_row j, j div 24)"
      using cell[OF xy(1)] cell[OF xy(2)] by blast
    then have "base ! i = base ! j" using xy(3) f(2) by simp
    then have "i = j" using sp(1) ij(1,3) len(1) nth_eq_iff_index_eq[of base i j] by simp
    then show "x = y" using ij by simp
  qed
  have g1: "m1 (base ! i) = Some (core_target i)" if i: "i < 24 * p" for i
    using foldl_upd_get[OF inj cellm[OF i] distinct_product[OF distinct_upt distinct_upt], of "\<lambda>x. fst x + snd x * 24" "\<lambda>_. None"] f(2) i
    unfolding m1 by (simp add: core_target_def)
  have k1: "(\<lambda>x. f (fst x) (snd x)) ` set ?P = set base"
  proof
    show "(\<lambda>x. f (fst x) (snd x)) ` set ?P \<subseteq> set base"
    proof
      fix y
      assume "y \<in> (\<lambda>x. f (fst x) (snd x)) ` set ?P"
      then obtain x where "x \<in> set ?P" "y = f (fst x) (snd x)" by blast
      then obtain i where "i < 24 * p" "y = base ! i" using cell[of x] f(2) by auto
      then show "y \<in> set base" using len(1) by simp
    qed
    show "set base \<subseteq> (\<lambda>x. f (fst x) (snd x)) ` set ?P"
    proof
      fix y
      assume "y \<in> set base"
      then obtain i where "i < 24 * p" "y = base ! i" using len(1) by (metis in_set_conv_nth)
      then show "y \<in> (\<lambda>x. f (fst x) (snd x)) ` set ?P" using cellm[of i] f(2) by force
    qed
  qed
  have d1: "dom m1 = set base" unfolding m1 foldl_upd_dom k1 by simp
  have rest: "(!) rest ` set [0..<r] = set rest" using len(2) by (auto simp: in_set_conv_nth)
  have dm: "dom m = {..<n}" using sp(2) unfolding m_def foldl_upd_dom d1 rest by auto
  have g2: "m (base ! i) = Some (core_target i)" if i: "i < 24 * p" for i
  proof -
    have "base ! i \<in> set base" using i len(1) by simp
    then have "base ! i \<notin> (!) rest ` set [0..<r]" using sp(1) unfolding rest by auto
    from foldl_upd_other[OF this, of "\<lambda>i. i + 24 * p" m1] show ?thesis unfolding m_def using g1[OF i] by simp
  qed
  have g3: "m (rest ! i) = Some (i + 24 * p)" if "i < r" for i
    unfolding m_def by (rule foldl_upd_get) (use sp(1) len(2) that in \<open>auto simp: inj_on_def nth_eq_iff_index_eq\<close>)
  have "the (m x) < n" if x: "x \<in> set (base @ rest)" for x
  proof -
    consider i where "i < 24 * p" "x = base ! i" | i where "i < r" "x = rest ! i" using x len unfolding set_append Un_iff in_set_conv_nth by metis
    then show ?thesis
    proof cases
      case 1
      then show ?thesis using g2[of i] core_target_less[of i p] n(1) by simp
    next
      case 2
      then show ?thesis using g3[of i] n(1) by simp
    qed
  qed
  then have "(\<lambda>i. the (m i)) ` {..<n} \<subseteq> {..<n}" using sp(2) by auto
  moreover have "{..<n} \<subseteq> (\<lambda>i. the (m i)) ` {..<n}"
  proof
    fix t
    assume t: "t \<in> {..<n}"
    show "t \<in> (\<lambda>i. the (m i)) ` {..<n}"
    proof (cases "t < 24 * p")
      case True
      then obtain i where i: "i < 24 * p" "core_target i = t" using core_target_surj by blast
      then have "base ! i \<in> {..<n}" using sp(2) len(1) by force
      then show ?thesis using g2[OF i(1)] i(2) by force
    next
      case False
      let ?i = "t - 24 * p"
      have i: "?i < r" using t n(1) False by simp
      then have "rest ! ?i \<in> {..<n}" using sp(2) len(2) by force
      then show ?thesis using g3[OF i] False by force
    qed
  qed
  ultimately have "bij_betw (\<lambda>i. the (m i)) {..<n} {..<n}"
    using finite_surj_inj[of "{..<n}" "\<lambda>i. the (m i)"] by (auto simp: bij_betw_def)
  then show ?thesis using run dm by blast
qed

section \<open>Sampled tokens\<close>

text \<open>
  Without overlap, chunks and sample slots: the tokens sampled for a sequence, one or, after
  speculation, several, are appended until a stop condition holds.
\<close>

fun until_stop :: "stopping_checker \<Rightarrow> nat \<Rightarrow> int list \<Rightarrow> int list \<Rightarrow> int list" where
  "until_stop C p view [] = []"
| "until_stop C p view (t # ts) = t # (if stop_spec C (view @ [t]) p \<noteq> FR_NONE then [] else until_stop C p (view @ [t]) ts)"

definition growable :: "sequence \<Rightarrow> nat \<Rightarrow> bool" where
  "growable s n \<longleftrightarrow> seq_inv s \<and> stage s = DECODE \<and> \<not> sq_finished s \<and> sq_num_tokens s + n \<le> length (sq_tokens s) \<and>
     sq_volatile_num_prompt_tokens s \<le> sq_num_tokens s \<and> checker_ok (sp_stopping_checker (sq_params s)) \<and>
     \<not> enable_schedule_overlap (sq_params s) \<and> \<not> is_onerec_model (sq_params s) \<and> \<not> is_embeddings (sq_params s)"

definition stops :: "sequence \<Rightarrow> bool" where
  "stops s \<longleftrightarrow> stop_spec (sp_stopping_checker (sq_params s)) (tokens_view s) (sq_num_prompt_tokens s) \<noteq> FR_NONE"

abbreviation valid_token :: "int \<Rightarrow> bool" where
  "valid_token t \<equiv> 0 \<le> t \<and> int32 t"

lemma append_token_frame:
  assumes "append_token pd t s = Inr s'"
  shows "sq_params s' = sq_params s" "sq_num_prompt_tokens s' = sq_num_prompt_tokens s" "sq_num_tokens s' = sq_num_tokens s + 1"
    "length (sq_tokens s') = length (sq_tokens s)" "sq_volatile_num_prompt_tokens s' = sq_volatile_num_prompt_tokens s"
    "sq_finished s' = sq_finished s" "finish_status_invalidated s'" "kv_cache_tokens_num (sq_kv s') = sq_num_tokens s"
  using assms by (auto simp: append_token_def Let_def count_token_def record_first_token_def split: if_splits)

lemma grow_step:
  assumes "growable s (Suc n)" "valid_token t"
  shows "\<exists>s1 s2. append_token pd t s = Inr s1 \<and> update_embeddings s1 = s1 \<and> seq_finished_check s1 = Inr (stops s2, s2) \<and>
    tokens_view s2 = tokens_view s @ [t] \<and> sq_params s2 = sq_params s \<and> sq_num_prompt_tokens s2 = sq_num_prompt_tokens s \<and>
    sq_finished s2 = stops s2 \<and> (\<not> stops s2 \<longrightarrow> growable s2 n)"
proof -
  have app: "appendable s" "seq_inv s" using assms(1) by (auto simp: growable_def appendable_def stage_def seq_inv_def split: if_splits)
  obtain s1 where s1: "append_token pd t s = Inr s1" "seq_inv s1" "tokens_view s1 = tokens_view s @ [t]"
    using append_token_ok[OF app(2,1), of t pd] assms by (auto simp: growable_def)
  note fr = append_token_frame[OF s1(1)]
  have u: "update_embeddings s1 = s1" using assms(1) fr(1) by (simp add: growable_def update_embeddings_def)
  define r where "r = stop_spec (sp_stopping_checker (sq_params s1)) (tokens_view s1) (sq_num_prompt_tokens s1)"
  define s2 where "s2 = (if r \<noteq> FR_NONE then s1\<lparr>finish_status_invalidated := False, sq_finish_reason := r, sq_finished := True\<rparr>
    else s1\<lparr>finish_status_invalidated := False\<rparr>)"
  have f: "seq_finished_check s1 = Inr (r \<noteq> FR_NONE, s2)"
    using finished_check_spec[OF s1(2) fr(7)] assms s1(3) fr(1) unfolding r_def s2_def by (simp add: growable_def)
  have sel: "tokens_view s2 = tokens_view s1" "sq_params s2 = sq_params s1" "sq_num_prompt_tokens s2 = sq_num_prompt_tokens s1"
    "sq_num_tokens s2 = sq_num_tokens s1" "sq_tokens s2 = sq_tokens s1" "sq_kv s2 = sq_kv s1"
    "sq_volatile_num_prompt_tokens s2 = sq_volatile_num_prompt_tokens s1" "sq_finished s2 = (r \<noteq> FR_NONE \<or> sq_finished s1)"
    by (simp_all add: s2_def tokens_view_def)
  have st: "stops s2 = (r \<noteq> FR_NONE)" by (simp add: stops_def sel r_def)
  have inv2: "seq_inv s2" using s1(2) sel by (simp add: seq_inv_def)
  have "stage s2 = DECODE" using assms(1) app(2) fr sel by (auto simp: stage_def growable_def seq_inv_def)
  then have "growable s2 n" if "\<not> stops s2" using assms(1) inv2 sel fr that st by (simp add: growable_def)
  then show ?thesis using s1 u f st sel fr(1,2,6) assms(1) by (auto simp: growable_def)
qed

text \<open>One sequence: \<open>grown\<close> is what \<open>append_outputs\<close> leaves of it.\<close>

definition grown :: "int list \<Rightarrow> sequence \<Rightarrow> sequence \<Rightarrow> bool" where
  "grown ts s s' \<longleftrightarrow> tokens_view s' = tokens_view s @ until_stop (sp_stopping_checker (sq_params s)) (sq_num_prompt_tokens s) (tokens_view s) ts \<and>
     sq_params s' = sq_params s \<and> sq_num_prompt_tokens s' = sq_num_prompt_tokens s \<and> (ts \<noteq> [] \<longrightarrow> sq_finished s' = stops s')"

lemma put_ref_twice: "put_ref ref s (put_ref ref s' st) = put_ref ref s st"
  by (simp add: put_ref_def)

lemma put_ref_same: "valid_ref st ref \<Longrightarrow> put_ref ref (seq_of st ref) st = st"
  by (simp add: put_ref_def seq_of_def valid_ref_def)

lemma append_outputs_ok:
  assumes "valid_ref st ref" "growable (seq_of st ref) (length ts)" "\<forall>t \<in> set ts. valid_token (rt_id t)"
  shows "\<exists>s'. append_outputs pd False False False ref ts k st = Inr (put_ref ref s' st) \<and> grown (map rt_id ts) (seq_of st ref) s'"
  using assms
proof (induction ts arbitrary: k st)
  case Nil
  then show ?case by (intro exI[of _ "seq_of st ref"]) (simp add: put_ref_same grown_def)
next
  case (Cons t ts)
  obtain s1 s2 where g: "append_token pd (rt_id t) (seq_of st ref) = Inr s1" "update_embeddings s1 = s1"
    "seq_finished_check s1 = Inr (stops s2, s2)" "tokens_view s2 = tokens_view (seq_of st ref) @ [rt_id t]"
    "sq_params s2 = sq_params (seq_of st ref)" "sq_num_prompt_tokens s2 = sq_num_prompt_tokens (seq_of st ref)"
    "sq_finished s2 = stops s2" "\<not> stops s2 \<longrightarrow> growable s2 (length ts)"
    using grow_step[of "seq_of st ref" "length ts" "rt_id t" pd] Cons.prems by auto
  note v = Cons.prems(1)
  have a: "append_token_for_sequence pd False False (rt_id t) k ref st = Inr (put_ref ref s1 st)"
    using v g(1) by (simp add: append_token_for_sequence_def ref_seq_valid)
  have e: "ref_seq ref (put_ref ref s1 st) = Inr s1" "put_ref ref (update_embeddings s1) (put_ref ref s1 st) = put_ref ref s1 st"
    "ref_finished ref (put_ref ref s1 st) = Inr (stops s2, put_ref ref s2 st)"
    using v g(2,3) by (simp_all add: ref_seq_valid put_ref_twice ref_finished_def)
  have run: "append_outputs pd False False False ref (t # ts) k st =
      (if stops s2 then Inr (put_ref ref s2 st) else append_outputs pd False False False ref ts (k + 1) (put_ref ref s2 st))"
    using a e by (cases "rt_has_embeddings t") (simp_all del: bindE_eq_Inr)
  show ?case
  proof (cases "stops s2")
    case True
    then have "grown (map rt_id (t # ts)) (seq_of st ref) s2" using g(4-7) by (simp add: grown_def stops_def)
    then show ?thesis unfolding run using True by auto
  next
    case False
    then obtain s' where s': "append_outputs pd False False False ref ts (k + 1) (put_ref ref s2 st) = Inr (put_ref ref s' (put_ref ref s2 st))"
      "grown (map rt_id ts) s2 s'"
      using Cons.IH[of "put_ref ref s2 st" "k + 1"] Cons.prems g(8) by auto
    have n: "until_stop (sp_stopping_checker (sq_params (seq_of st ref))) (sq_num_prompt_tokens (seq_of st ref)) (tokens_view (seq_of st ref))
        (map rt_id (t # ts)) = rt_id t # until_stop (sp_stopping_checker (sq_params s2)) (sq_num_prompt_tokens s2) (tokens_view s2) (map rt_id ts)"
      using False g(4-6) by (simp add: stops_def)
    have "sq_finished s' = stops s'"
    proof (cases ts)
      case Nil
      then have "s' = s2" using s'(1) v by (simp add: put_ref_twice) (metis put_ref_sel(2))
      then show ?thesis using g(7) by simp
    qed (use s'(2) in \<open>simp add: grown_def\<close>)
    then have "grown (map rt_id (t # ts)) (seq_of st ref) s'" using s'(2) g(4-6) unfolding grown_def n by simp
    then show ?thesis unfolding run using False s'(1) by (auto simp: put_ref_twice)
  qed
qed

text \<open>The targets of a batch, each with its output.\<close>

definition sampled :: "seq_store \<Rightarrow> out_target \<times> raw_token list \<Rightarrow> bool" where
  "sampled st x \<longleftrightarrow> \<not> from_sample_slot (fst x) \<and> valid_ref st (ot_sequence (fst x)) \<and> snd x \<noteq> [] \<and>
     growable (seq_of st (ot_sequence (fst x))) (length (snd x)) \<and> (\<forall>t \<in> set (snd x). valid_token (rt_id t)) \<and>
     (\<exists>s'. seq_finished_check (seq_of st (ot_sequence (fst x))) = Inr (False, s'))"

lemma finished_check_growable:
  assumes "seq_finished_check s = Inr (False, s')" "growable s n"
  shows "growable s' n"
  using assms by (auto simp: seq_finished_check_def Let_def growable_def seq_inv_def stage_def split: if_splits)

lemma grown_cong:
  "tokens_view s = tokens_view s0 \<Longrightarrow> sq_params s = sq_params s0 \<Longrightarrow> sq_num_prompt_tokens s = sq_num_prompt_tokens s0 \<Longrightarrow>
    grown ts s s' = grown ts s0 s'"
  by (simp add: grown_def)

lemma process_target_ok:
  assumes "sampled st (target, outputs ! i)" "i < length outputs"
  shows "\<exists>s'. process_target pd False False outputs (i, target) st = Inr (put_ref (ot_sequence target) s' st) \<and>
    grown (map rt_id (outputs ! i)) (seq_of st (ot_sequence target)) s'"
proof -
  let ?ref = "ot_sequence target"
  obtain s1 where s1: "seq_finished_check (seq_of st ?ref) = Inr (False, s1)" using assms(1) by (auto simp: sampled_def)
  have v: "valid_ref st ?ref" and ns: "\<not> from_sample_slot target" "outputs ! i \<noteq> []" using assms(1) by (auto simp: sampled_def)
  have f: "ref_finished ?ref st = Inr (False, put_ref ?ref s1 st)" using v s1 by (simp add: ref_finished_def ref_seq_valid)
  have "growable s1 (length (outputs ! i))" using finished_check_growable[OF s1] assms(1) by (auto simp: sampled_def)
  then obtain s' where s': "append_outputs pd False False False ?ref (outputs ! i) 0 (put_ref ?ref s1 st) =
      Inr (put_ref ?ref s' (put_ref ?ref s1 st))" "grown (map rt_id (outputs ! i)) s1 s'"
    using append_outputs_ok[of "put_ref ?ref s1 st" ?ref "outputs ! i" pd 0] v assms(1) by (auto simp: sampled_def)
  have "process_target pd False False outputs (i, target) st = Inr (put_ref ?ref s' st)"
    using f ns assms(2) s'(1) by (simp add: process_target_def update_sequence_state_def put_ref_twice del: bindE_eq_Inr)
  then show ?thesis using s'(2) grown_cong[of s1 "seq_of st ?ref"] finished_check_frame[OF s1] by auto
qed

lemma process_targets_ok:
  assumes "distinct (map ot_sequence targets)" "n + length targets \<le> length outputs"
    and "\<forall>i < length targets. sampled st (targets ! i, outputs ! (n + i))"
  shows "\<exists>st'. foldE (process_target pd False False outputs) (List.enumerate n targets) st = Inr st' \<and>
    (\<forall>i < length targets. grown (map rt_id (outputs ! (n + i))) (seq_of st (ot_sequence (targets ! i))) (seq_of st' (ot_sequence (targets ! i)))) \<and>
    (\<forall>ref. ref \<notin> ot_sequence ` set targets \<longrightarrow> seq_of st' ref = seq_of st ref)"
  using assms
proof (induction targets arbitrary: n st)
  case Nil
  then show ?case by simp
next
  case (Cons x xs)
  have x: "sampled st (x, outputs ! n)" using Cons.prems(3)[rule_format, of 0] by simp
  then obtain s' where s': "process_target pd False False outputs (n, x) st = Inr (put_ref (ot_sequence x) s' st)"
    "grown (map rt_id (outputs ! n)) (seq_of st (ot_sequence x)) s'"
    using process_target_ok[of st x outputs n pd] Cons.prems(2) by auto
  let ?st = "put_ref (ot_sequence x) s' st"
  have v: "valid_ref st (ot_sequence x)" using x by (simp add: sampled_def)
  have other: "ot_sequence (xs ! i) \<noteq> ot_sequence x" if "i < length xs" for i using Cons.prems(1) nth_mem[OF that] by (auto simp: image_iff)
  have "\<forall>i < length xs. sampled ?st (xs ! i, outputs ! (Suc n + i))"
  proof (intro allI impI)
    fix i
    assume i: "i < length xs"
    then have "sampled st (xs ! i, outputs ! (Suc n + i))" using Cons.prems(3)[rule_format, of "Suc i"] by simp
    then show "sampled ?st (xs ! i, outputs ! (Suc n + i))" using other[OF i] v by (simp add: sampled_def)
  qed
  then obtain st' where st': "foldE (process_target pd False False outputs) (List.enumerate (Suc n) xs) ?st = Inr st'"
    "\<forall>i < length xs. grown (map rt_id (outputs ! (Suc n + i))) (seq_of ?st (ot_sequence (xs ! i))) (seq_of st' (ot_sequence (xs ! i)))"
    "\<forall>ref. ref \<notin> ot_sequence ` set xs \<longrightarrow> seq_of st' ref = seq_of ?st ref"
    using Cons.IH[of "Suc n" ?st] Cons.prems(1,2) by auto
  have "grown (map rt_id (outputs ! (n + i))) (seq_of st (ot_sequence ((x # xs) ! i))) (seq_of st' (ot_sequence ((x # xs) ! i)))"
    if "i < length (x # xs)" for i
  proof (cases i)
    case 0
    then show ?thesis using st'(3)[rule_format, of "ot_sequence x"] Cons.prems(1) s'(2) v by simp
  next
    case (Suc j)
    then show ?thesis using st'(2)[rule_format, of j] that other[of j] v by simp
  qed
  moreover have "seq_of st' ref = seq_of st ref" if "ref \<notin> ot_sequence ` set (x # xs)" for ref
    using st'(3)[rule_format, of ref] that v by simp
  ultimately show ?case using s'(1) st'(1) by auto
qed

lemma sample_output_ok:
  assumes "distinct (map ot_sequence (output_targets B))" "length (output_targets B) \<le> length outputs" "sequence_groups B = []"
    and "\<forall>i < length (output_targets B). sampled st (output_targets B ! i, outputs ! i)"
  shows "\<exists>st'. process_sample_output gbs pd False overlap False outputs B st = Inr (B, st') \<and>
    (\<forall>i < length (output_targets B). grown (map rt_id (outputs ! i)) (seq_of st (ot_sequence (output_targets B ! i)))
       (seq_of st' (ot_sequence (output_targets B ! i)))) \<and>
    (\<forall>ref. ref \<notin> ot_sequence ` set (output_targets B) \<longrightarrow> seq_of st' ref = seq_of st ref)"
  using process_targets_ok[of "output_targets B" 0 outputs st pd] assms by (auto simp: process_sample_output_def)

end
