(* ===== verification/Int32_Map.thy ===== *)
theory Int32_Map
  imports Prelude
begin

text \<open>
  \<open>core/util/int32_map.h\<close>: a hash map with \<open>int32_t\<close> keys, open addressing and triangular probing.
  Slots are a list, empty when \<open>slots_\<close> is null; the value of a slot that is not filled is not
  constructed. Counters are \<open>nat\<close>; the one \<open>uint32_t\<close> operation that can wrap, doubling the
  capacity, is written out. \<open>assert\<close> is a check.
\<close>

unbundle bit_operations_syntax

section \<open>Data\<close>

record 'v slot =
  slot_key :: int
  slot_storage :: "'v option"

record 'v int32_map =
  im_slots :: "'v slot list option"    \<comment> \<open>\<open>None\<close> is the null pointer\<close>
  im_cap :: nat
  im_size :: nat
  im_tombstones :: nat

definition KEY_EMPTY :: int where
  "KEY_EMPTY = - (2 ^ 31)"

definition KEY_TOMBSTONE :: int where
  "KEY_TOMBSTONE = - (2 ^ 31) + 1"

definition MIN_LOAD_PCT :: nat where
  "MIN_LOAD_PCT = 25"

definition MAX_LOAD_PCT :: nat where
  "MAX_LOAD_PCT = 75"

definition MIN_CAPACITY :: nat where
  "MIN_CAPACITY = 2"

abbreviation empty_slot :: "'v slot" where
  "empty_slot \<equiv> \<lparr>slot_key = KEY_EMPTY, slot_storage = None\<rparr>"

definition im_new :: "'v int32_map" where
  "im_new = \<lparr>im_slots = None, im_cap = 0, im_size = 0, im_tombstones = 0\<rparr>"

section \<open>Helpers\<close>

definition is_filled :: "int \<Rightarrow> bool" where
  "is_filled k \<longleftrightarrow> k \<noteq> KEY_EMPTY \<and> k \<noteq> KEY_TOMBSTONE"

definition mix_hash :: "int \<Rightarrow> nat" where
  "mix_hash key =
     (let x0 = word_of_int key :: 32 word;
          x1 = (x0 XOR drop_bit 16 x0) * 0x7feb352d;
          x2 = (x1 XOR drop_bit 15 x1) * 0x846ca68b
      in unat (x2 XOR drop_bit 16 x2))"

fun probe_loop :: "'v slot list \<Rightarrow> nat \<Rightarrow> int \<Rightarrow> nat \<Rightarrow> nat \<Rightarrow> nat \<Rightarrow> nat option \<Rightarrow> (bool \<times> nat) res" where
  "probe_loop sl c key 0 idx step first_tomb =
     (case first_tomb of None \<Rightarrow> Inl Runtime_error | Some t \<Rightarrow> Inr (False, t))"
| "probe_loop sl c key (Suc n) idx step first_tomb =
     bindE (nth_res sl idx) (\<lambda>s.
       let k = slot_key s in
       if k = key then Inr (True, idx)
       else if k = KEY_EMPTY then Inr (False, case first_tomb of Some t \<Rightarrow> t | None \<Rightarrow> idx)
       else probe_loop sl c key n ((idx + (step + 1)) AND (c - 1)) (step + 1)
              (if k = KEY_TOMBSTONE \<and> first_tomb = None then Some idx else first_tomb))"

definition probe_insert_or_find :: "int \<Rightarrow> 'v int32_map \<Rightarrow> (bool \<times> nat) res" where
  "probe_insert_or_find key m =
     (case im_slots m of
        None \<Rightarrow> Inl Check_failed
      | Some sl \<Rightarrow> bindE (check (im_cap m > 0)) (\<lambda>_.
          probe_loop sl (im_cap m) key (im_cap m) (mix_hash key AND (im_cap m - 1)) 0 None))"

fun place_loop :: "nat \<Rightarrow> 'v slot list \<Rightarrow> nat \<Rightarrow> int \<Rightarrow> 'v \<Rightarrow> nat \<Rightarrow> nat \<Rightarrow> 'v slot list res" where
  "place_loop 0 arr c key v idx step = Inl Check_failed"
| "place_loop (Suc n) arr c key v idx step =
     bindE (nth_res arr idx) (\<lambda>s.
       if slot_key s = KEY_EMPTY \<or> slot_key s = KEY_TOMBSTONE
       then Inr (arr[idx := \<lparr>slot_key = key, slot_storage = Some v\<rparr>])
       else place_loop n arr c key v ((idx + (step + 1)) AND (c - 1)) (step + 1))"

definition place_new :: "'v slot list \<Rightarrow> nat \<Rightarrow> int \<Rightarrow> 'v \<Rightarrow> 'v slot list res" where
  "place_new arr c key v = place_loop c arr c key v (mix_hash key AND (c - 1)) 0"

definition rehash_slot :: "nat \<Rightarrow> 'v slot \<Rightarrow> 'v slot list \<Rightarrow> 'v slot list res" where
  "rehash_slot c s arr =
     (if \<not> is_filled (slot_key s) then Inr arr
      else case slot_storage s of None \<Rightarrow> Inl Use_after_free | Some v \<Rightarrow> place_new arr c (slot_key s) v)"

definition rehash :: "nat \<Rightarrow> 'v int32_map \<Rightarrow> 'v int32_map res" where
  "rehash new_cap m =
     bindE (check (new_cap AND (new_cap - 1) = 0 \<and> new_cap \<ge> MIN_CAPACITY)) (\<lambda>_.
     bindE (foldE (rehash_slot new_cap) (case im_slots m of None \<Rightarrow> [] | Some sl \<Rightarrow> sl) (replicate new_cap empty_slot)) (\<lambda>arr.
       Inr (m\<lparr>im_slots := Some arr, im_cap := new_cap, im_tombstones := 0\<rparr>)))"

definition maybe_rehash_after_erase :: "'v int32_map \<Rightarrow> 'v int32_map res" where
  "maybe_rehash_after_erase m =
     (if im_slots m = None then Inr m
      else if im_size m = 0 then Inr im_new
      else if im_size m * 100 < im_cap m * MIN_LOAD_PCT \<and> im_cap m div 2 \<ge> MIN_CAPACITY then rehash (im_cap m div 2) m
      else Inr m)"

section \<open>Operations\<close>

definition valid_key :: "int \<Rightarrow> unit res" where
  "valid_key key = (if key = KEY_EMPTY \<or> key = KEY_TOMBSTONE then Inl Invalid_argument else Inr ())"

definition im_contains :: "int \<Rightarrow> 'v int32_map \<Rightarrow> bool res" where
  "im_contains key m =
     bindE (valid_key key) (\<lambda>_.
       if im_slots m = None then Inr False
       else bindE (probe_insert_or_find key m) (\<lambda>(found, idx). Inr found))"

text \<open>The index of the iterator that \<open>find\<close> returns; \<open>end()\<close> is the capacity.\<close>

definition im_find :: "int \<Rightarrow> 'v int32_map \<Rightarrow> nat res" where
  "im_find key m =
     bindE (valid_key key) (\<lambda>_.
       if im_slots m = None then Inr (im_cap m)
       else bindE (probe_insert_or_find key m) (\<lambda>(found, idx). Inr (if found then idx else im_cap m)))"

definition set_slot :: "nat \<Rightarrow> 'v slot \<Rightarrow> 'v int32_map \<Rightarrow> 'v int32_map" where
  "set_slot i s m = m\<lparr>im_slots := map_option (\<lambda>sl. sl[i := s]) (im_slots m)\<rparr>"

definition im_erase :: "int \<Rightarrow> 'v int32_map \<Rightarrow> (bool \<times> 'v int32_map) res" where
  "im_erase key m =
     bindE (valid_key key) (\<lambda>_.
       if im_slots m = None then Inr (False, m)
       else bindE (probe_insert_or_find key m) (\<lambda>(found, idx).
         if \<not> found then Inr (False, m)
         else bindE (maybe_rehash_after_erase
                       ((set_slot idx \<lparr>slot_key = KEY_TOMBSTONE, slot_storage = None\<rparr> m)
                          \<lparr>im_size := im_size m - 1, im_tombstones := im_tombstones m + 1\<rparr>)) (\<lambda>m1. Inr (True, m1))))"

definition slot_at :: "nat \<Rightarrow> 'v int32_map \<Rightarrow> 'v slot res" where
  "slot_at i m = (case im_slots m of None \<Rightarrow> Inl Use_after_free | Some sl \<Rightarrow> nth_res sl i)"

definition value_at :: "nat \<Rightarrow> 'v int32_map \<Rightarrow> 'v res" where
  "value_at i m =
     bindE (slot_at i m) (\<lambda>s. case slot_storage s of None \<Rightarrow> Inl Use_after_free | Some v \<Rightarrow> Inr v)"

text \<open>The table grown or cleaned when one more filled slot would exceed the load, and the slot in it.\<close>

definition im_reserve :: "int \<Rightarrow> nat \<Rightarrow> 'v int32_map \<Rightarrow> (nat \<times> 'v int32_map) res" where
  "im_reserve key idx m =
     (if im_cap m * MAX_LOAD_PCT < (im_size m + im_tombstones m + 1) * 100
      then bindE (if (im_size m + 1) * 100 \<le> im_cap m * MAX_LOAD_PCT then rehash (im_cap m) m
                  else rehash (im_cap m * 2 mod 2 ^ 32) m) (\<lambda>m1.
           bindE (probe_insert_or_find key m1) (\<lambda>(found, idx1).
           bindE (check (\<not> found)) (\<lambda>_. Inr (idx1, m1))))
      else Inr (idx, m))"

definition im_emplace :: "int \<Rightarrow> 'v \<Rightarrow> 'v int32_map \<Rightarrow> ('v \<times> 'v int32_map) res" where
  "im_emplace key v m0 =
     bindE (valid_key key) (\<lambda>_.
     let m = (if im_slots m0 = None
              then m0\<lparr>im_slots := Some (replicate MIN_CAPACITY empty_slot), im_cap := MIN_CAPACITY, im_size := 0, im_tombstones := 0\<rparr>
              else m0) in
     bindE (probe_insert_or_find key m) (\<lambda>(found, idx).
       if found then bindE (value_at idx m) (\<lambda>w. Inr (w, m))
       else bindE (slot_at idx m) (\<lambda>s.
         if slot_key s = KEY_TOMBSTONE
         then Inr (v, (set_slot idx \<lparr>slot_key = key, slot_storage = Some v\<rparr> m)
                        \<lparr>im_tombstones := im_tombstones m - 1, im_size := im_size m + 1\<rparr>)
         else bindE (im_reserve key idx m) (\<lambda>(i, m1).
              bindE (slot_at i m1) (\<lambda>s1.
              bindE (check (slot_key s1 = KEY_EMPTY)) (\<lambda>_.
                Inr (v, (set_slot i \<lparr>slot_key = key, slot_storage = Some v\<rparr> m1)\<lparr>im_size := im_size m1 + 1\<rparr>)))))))"

section \<open>Iteration\<close>

text \<open>The iterator skips slots that are not filled; the entries in the order of a loop over the map.\<close>

definition im_advance :: "'v slot list \<Rightarrow> nat \<Rightarrow> nat" where
  "im_advance sl i = i + length (takeWhile (\<lambda>s. \<not> is_filled (slot_key s)) (drop i sl))"

function im_iterate :: "'v slot list \<Rightarrow> nat \<Rightarrow> (int \<times> 'v option) list" where
  "im_iterate sl i =
     (let j = im_advance sl i in
      if j < length sl then (slot_key (sl ! j), slot_storage (sl ! j)) # im_iterate sl (j + 1) else [])"
  by pat_completeness auto
termination
  by (relation "measure (\<lambda>(sl, i). length sl - i)") (auto simp: im_advance_def)

declare im_iterate.simps [simp del]

definition im_entries :: "'v int32_map \<Rightarrow> (int \<times> 'v option) list" where
  "im_entries m = (case im_slots m of None \<Rightarrow> [] | Some sl \<Rightarrow> im_iterate sl 0)"

section \<open>Triangular probing visits every slot\<close>

lemma and_low_mask: "(x :: nat) AND (2 ^ b - 1) = x mod 2 ^ b"
  by (simp add: take_bit_eq_mask mask_eq_exp_minus_1 flip: take_bit_eq_mod)

definition pidx :: "nat \<Rightarrow> int \<Rightarrow> nat \<Rightarrow> nat" where
  "pidx c key n = (mix_hash key + n * (n + 1) div 2) mod c"

lemma triangle_Suc: "Suc n * (Suc n + 1) div 2 = n * (n + 1) div 2 + (n + 1)"
proof -
  have "Suc n * (Suc n + 1) = n * (n + 1) + (n + 1) * 2" by simp
  then show ?thesis by (simp only: div_mult_self1)
qed

lemma pidx_step: "(pidx (2 ^ b) key n + (n + 1)) AND (2 ^ b - 1) = pidx (2 ^ b) key (Suc n)"
  unfolding and_low_mask pidx_def triangle_Suc by (simp only: mod_add_left_eq add.assoc)

lemma pidx_0: "mix_hash key AND (2 ^ b - 1) = pidx (2 ^ b) key 0"
  unfolding and_low_mask pidx_def by simp

lemma pidx_less [simp]: "pidx (2 ^ b) key n < 2 ^ b"
  by (simp add: pidx_def)

lemma triangle_inj_le:
  fixes i j :: nat
  assumes "i \<le> j" "j < 2 ^ b" "(h + i * (i + 1) div 2) mod 2 ^ b = (h + j * (j + 1) div 2) mod 2 ^ b"
  shows "i = j"
proof -
  let ?t = "\<lambda>n :: nat. n * (n + 1) div 2"
  have ev: "2 * ?t n = n * (n + 1)" for n by simp
  have "?t i \<le> ?t j" using assms(1) by (intro div_le_mono mult_le_mono) auto
  then have "2 ^ b dvd ?t j - ?t i" using assms(3) by (metis add_diff_cancel_left add_le_cancel_left mod_eq_dvd_iff_nat)
  then have "2 ^ (b + 1) dvd 2 * (?t j - ?t i)" by simp
  also have "2 * (?t j - ?t i) = (j - i) * (j + i + 1)"
  proof -
    obtain d where "j = i + d" using assms(1) le_Suc_ex by blast
    then show ?thesis unfolding diff_mult_distrib2 ev by (simp add: algebra_simps)
  qed
  finally have d: "2 ^ (b + 1) dvd (j - i) * (j + i + 1)" .
  show ?thesis
  proof (cases "odd (j - i)")
    case True
    then have "coprime (2 ^ (b + 1)) (j - i)" by simp
    then have "2 ^ (b + 1) dvd j + i + 1" using d coprime_dvd_mult_right_iff by blast
    then show ?thesis using assms(1,2) by (auto dest: dvd_imp_le)
  next
    case False
    then have "odd (j + i + 1)" using assms(1) by presburger
    then have "coprime (2 ^ (b + 1)) (j + i + 1)" by simp
    then have "2 ^ (b + 1) dvd j - i" using d coprime_dvd_mult_left_iff by blast
    then show ?thesis using assms(1,2) by (cases "j - i = 0") (auto dest: dvd_imp_le)
  qed
qed

lemma probe_covers:
  assumes "i < 2 ^ b"
  shows "\<exists>n < 2 ^ b. pidx (2 ^ b) key n = i"
proof -
  have "inj_on (pidx (2 ^ b) key) {..<2 ^ b}"
  proof (rule inj_onI)
    fix x y
    assume "x \<in> {..<2 ^ b}" "y \<in> {..<2 ^ b}" "pidx (2 ^ b) key x = pidx (2 ^ b) key y"
    then show "x = y"
      using triangle_inj_le[of x y b "mix_hash key"] triangle_inj_le[of y x b "mix_hash key"] by (cases "x \<le> y") (auto simp: pidx_def)
  qed
  moreover have "pidx (2 ^ b) key ` {..<2 ^ b} \<subseteq> {..<2 ^ b}" by auto
  ultimately have "pidx (2 ^ b) key ` {..<2 ^ b} = {..<2 ^ b}" by (simp add: endo_inj_surj)
  then show ?thesis using assms by (metis imageE lessThan_iff)
qed

end
