(* ===== verification/Int32_Map_Correct.thy ===== *)
theory Int32_Map_Correct
  imports Int32_Map
begin

text \<open>
  The table of \<open>Int32Map\<close> against a map from keys to values: the invariant of the slots, that a
  probe finds a key exactly when it is there and never runs over a full table, and the effect
  of each operation. The locale \<open>int_map\<close> is what a user of the map relies on.
\<close>

section \<open>Tables\<close>

text \<open>Keys of filled slots are distinct, so a key has at most one value.\<close>

definition uniq :: "'v slot list \<Rightarrow> bool" where
  "uniq sl \<longleftrightarrow> (\<forall>i < length sl. \<forall>j < length sl. is_filled (slot_key (sl ! i)) \<longrightarrow> slot_key (sl ! i) = slot_key (sl ! j) \<longrightarrow> i = j)"

text \<open>No slot on the probe path of the key before slot \<open>i\<close> is empty.\<close>

definition on_path :: "'v slot list \<Rightarrow> int \<Rightarrow> nat \<Rightarrow> bool" where
  "on_path sl key i \<longleftrightarrow>
     (\<exists>n < length sl. pidx (length sl) key n = i \<and> (\<forall>j < n. slot_key (sl ! pidx (length sl) key j) \<noteq> KEY_EMPTY))"

definition table_ok :: "'v slot list \<Rightarrow> bool" where
  "table_ok sl \<longleftrightarrow> (\<exists>b \<ge> 1. length sl = 2 ^ b) \<and> uniq sl \<and>
     (\<forall>i < length sl. is_filled (slot_key (sl ! i)) \<longrightarrow> slot_storage (sl ! i) \<noteq> None \<and> on_path sl (slot_key (sl ! i)) i)"

definition table_map :: "'v slot list \<Rightarrow> int \<Rightarrow> 'v option" where
  "table_map sl key =
     (if is_filled key then case find (\<lambda>s. slot_key s = key) sl of None \<Rightarrow> None | Some s \<Rightarrow> slot_storage s else None)"

definition num_with :: "(int \<Rightarrow> bool) \<Rightarrow> 'v slot list \<Rightarrow> nat" where
  "num_with P sl = length (filter (\<lambda>s. P (slot_key s)) sl)"

lemma filled_consts [simp]: "\<not> is_filled KEY_EMPTY" "\<not> is_filled KEY_TOMBSTONE" "KEY_EMPTY \<noteq> KEY_TOMBSTONE" "KEY_TOMBSTONE \<noteq> KEY_EMPTY"
  by (simp_all add: is_filled_def KEY_EMPTY_def KEY_TOMBSTONE_def)

lemma uniqD: "uniq sl \<Longrightarrow> i < length sl \<Longrightarrow> j < length sl \<Longrightarrow> is_filled (slot_key (sl ! i)) \<Longrightarrow> slot_key (sl ! i) = slot_key (sl ! j) \<Longrightarrow> i = j"
  unfolding uniq_def by blast

lemma upd_nth: "sl[i := s] ! j = (if i = j \<and> j < length sl then s else sl ! j)"
  by (cases "i < length sl") (auto simp: nth_list_update list_update_beyond)

lemma on_path_mono:
  assumes "on_path sl k i" "length sl' = length sl" "\<And>j. slot_key (sl ! j) \<noteq> KEY_EMPTY \<Longrightarrow> slot_key (sl' ! j) \<noteq> KEY_EMPTY"
  shows "on_path sl' k i"
  using assms unfolding on_path_def by (metis (no_types))

lemma table_map_Some:
  assumes "uniq sl"
  shows "table_map sl key = Some v \<longleftrightarrow> is_filled key \<and> (\<exists>i < length sl. slot_key (sl ! i) = key \<and> slot_storage (sl ! i) = Some v)"
proof (cases "find (\<lambda>s. slot_key s = key) sl")
  case None
  then have "\<And>s. s \<in> set sl \<Longrightarrow> slot_key s \<noteq> key" by (auto simp: find_None_iff)
  then have "\<And>i. i < length sl \<Longrightarrow> slot_key (sl ! i) \<noteq> key" by simp
  moreover have "table_map sl key = None" using None by (simp add: table_map_def)
  ultimately show ?thesis by auto
next
  case (Some s)
  then obtain i where i: "i < length sl" "slot_key (sl ! i) = key" "s = sl ! i" by (auto simp: find_Some_iff)
  show ?thesis
  proof (cases "is_filled key")
    case True
    have m: "table_map sl key = slot_storage (sl ! i)" using Some i True by (simp add: table_map_def)
    have "j = i" if "j < length sl" "slot_key (sl ! j) = key" for j using uniqD[OF assms i(1) that(1)] i(2) that(2) True by simp
    then show ?thesis unfolding m using True i(1,2) by blast
  next
    case False
    then show ?thesis by (simp add: table_map_def)
  qed
qed

lemma table_map_cong:
  assumes "uniq sl" "uniq sl'" "length sl' = length sl"
    and "\<And>i. i < length sl \<Longrightarrow> is_filled k \<Longrightarrow>
      (slot_key (sl' ! i) = k \<longleftrightarrow> slot_key (sl ! i) = k) \<and> (slot_key (sl ! i) = k \<longrightarrow> slot_storage (sl' ! i) = slot_storage (sl ! i))"
  shows "table_map sl' k = table_map sl k"
proof -
  have "table_map sl' k = Some v \<longleftrightarrow> table_map sl k = Some v" for v
    unfolding table_map_Some[OF assms(1)] table_map_Some[OF assms(2)] using assms(3,4) by metis
  then show ?thesis by (metis option.exhaust)
qed

lemma table_map_None:
  assumes "table_ok sl"
  shows "table_map sl key = None \<longleftrightarrow> \<not> (is_filled key \<and> (\<exists>i < length sl. slot_key (sl ! i) = key))"
proof -
  have u: "uniq sl" using assms by (simp add: table_ok_def)
  show ?thesis
    using table_map_Some[OF u, of key] assms unfolding table_ok_def by (metis not_None_eq)
qed

lemma num_with_update:
  assumes "i < length sl" "\<not> P (slot_key (sl ! i))"
  shows "num_with P (sl[i := s]) = num_with P sl + (if P (slot_key s) then 1 else 0)"
proof -
  have "sl = take i sl @ sl ! i # drop (Suc i) sl" using assms(1) by (simp add: id_take_nth_drop)
  then have "filter (\<lambda>s. P (slot_key s)) sl = filter (\<lambda>s. P (slot_key s)) (take i sl) @ filter (\<lambda>s. P (slot_key s)) (drop (Suc i) sl)"
    using assms(2) by (metis (no_types, lifting) filter.simps(2) filter_append)
  then show ?thesis using assms(1) by (simp add: num_with_def upd_conv_take_nth_drop)
qed

lemma num_with_remove:
  assumes "i < length sl" "P (slot_key (sl ! i))" "\<not> P (slot_key s)"
  shows "num_with P sl = num_with P (sl[i := s]) + 1"
  using num_with_update[of i "sl[i := s]" P "sl ! i"] assms by (simp add: num_with_def)

lemma num_with_split: "num_with is_filled sl + num_with (\<lambda>k. k = KEY_TOMBSTONE) sl + num_with (\<lambda>k. k = KEY_EMPTY) sl = length sl"
  by (induction sl) (auto simp: num_with_def is_filled_def)

lemma num_with_pos: "0 < num_with P sl \<longleftrightarrow> (\<exists>i < length sl. P (slot_key (sl ! i)))"
  unfolding num_with_def length_greater_0_conv filter_empty_conv by (metis in_set_conv_nth)

section \<open>Writing a slot\<close>

text \<open>A slot that is not filled gets a key whose path leads to it.\<close>

lemma table_put:
  assumes "table_ok sl" "i < length sl" "\<not> is_filled (slot_key (sl ! i))" "on_path sl key i" "is_filled key" "table_map sl key = None"
  shows "table_ok (sl[i := \<lparr>slot_key = key, slot_storage = Some v\<rparr>])"
    "table_map (sl[i := \<lparr>slot_key = key, slot_storage = Some v\<rparr>]) = (table_map sl)(key \<mapsto> v)"
proof -
  let ?sl = "sl[i := \<lparr>slot_key = key, slot_storage = Some v\<rparr>]"
  have new: "\<And>j. j < length sl \<Longrightarrow> slot_key (sl ! j) \<noteq> key" using table_map_None[OF assms(1)] assms(5,6) by blast
  have u: "uniq sl" using assms(1) by (simp add: table_ok_def)
  have u': "uniq ?sl" unfolding uniq_def using new uniqD[OF u] by (auto simp: upd_nth split: if_splits)
  have "key \<noteq> KEY_EMPTY" using assms(5) by auto
  then have path: "on_path ?sl k j" if "on_path sl k j" for k j
    by (rule_tac on_path_mono[OF that]) (simp_all add: upd_nth)
  show "table_ok ?sl"
    using assms(1,2) u' path assms(4) unfolding table_ok_def by (auto simp: upd_nth)
  show "table_map ?sl = (table_map sl)(key \<mapsto> v)"
  proof
    fix k
    show "table_map ?sl k = ((table_map sl)(key \<mapsto> v)) k"
    proof (cases "k = key")
      case True
      have "table_map ?sl key = Some v" unfolding table_map_Some[OF u'] using assms(2,5) by (auto intro!: exI[of _ i])
      then show ?thesis using True by simp
    next
      case False
      then have "table_map ?sl k = table_map sl k"
        using assms(3) by (intro table_map_cong[OF u u']) (auto simp: upd_nth)
      then show ?thesis using False by simp
    qed
  qed
qed

lemma table_remove:
  assumes "table_ok sl" "i < length sl" "slot_key (sl ! i) = key" "is_filled key"
  shows "table_ok (sl[i := \<lparr>slot_key = KEY_TOMBSTONE, slot_storage = None\<rparr>])"
    "table_map (sl[i := \<lparr>slot_key = KEY_TOMBSTONE, slot_storage = None\<rparr>]) = (table_map sl)(key := None)"
proof -
  let ?sl = "sl[i := \<lparr>slot_key = KEY_TOMBSTONE, slot_storage = None\<rparr>]"
  have u: "uniq sl" using assms(1) by (simp add: table_ok_def)
  have u': "uniq ?sl" unfolding uniq_def
  proof (intro allI impI)
    fix x y
    assume xy: "x < length ?sl" "y < length ?sl" "is_filled (slot_key (?sl ! x))" "slot_key (?sl ! x) = slot_key (?sl ! y)"
    then have "x \<noteq> i" "y \<noteq> i" using assms(2) by auto
    then show "x = y" using xy uniqD[OF u, of x y] by simp
  qed
  have path: "on_path ?sl k j" if "on_path sl k j" for k j
    by (rule on_path_mono[OF that]) (simp_all add: upd_nth)
  show ok: "table_ok ?sl"
    using assms(1,2) u' path unfolding table_ok_def by (auto simp: upd_nth)
  show "table_map ?sl = (table_map sl)(key := None)"
  proof
    fix k
    show "table_map ?sl k = ((table_map sl)(key := None)) k"
    proof (cases "k = key")
      case True
      have "slot_key (?sl ! j) \<noteq> key" if "j < length sl" for j
      proof (cases "j = i")
        case True
        then show ?thesis using assms(2,4) by auto
      next
        case False
        then show ?thesis using uniqD[OF u assms(2) that] assms(3,4) by (metis nth_list_update_neq)
      qed
      then have "\<not> (is_filled key \<and> (\<exists>j < length ?sl. slot_key (?sl ! j) = key))" by simp
      then have "table_map ?sl key = None" using table_map_None[OF ok, of key] by blast
      then show ?thesis using True by simp
    next
      case False
      then have "table_map ?sl k = table_map sl k"
        using assms(3,4) by (intro table_map_cong[OF u u']) (auto simp: upd_nth)
      then show ?thesis using False by simp
    qed
  qed
qed

lemma fresh_table:
  assumes "1 \<le> b"
  shows "table_ok (replicate (2 ^ b) empty_slot)" "table_map (replicate n empty_slot) = Map.empty"
    "num_with is_filled (replicate n empty_slot) = 0" "num_with (\<lambda>k. k = KEY_TOMBSTONE) (replicate n empty_slot) = 0"
proof -
  show "table_ok (replicate (2 ^ b) empty_slot)" using assms by (auto simp: table_ok_def uniq_def)
  show "table_map (replicate n empty_slot) = Map.empty"
    by (auto simp: table_map_def fun_eq_iff find_Some_iff split: option.split)
qed (simp_all add: num_with_def)

section \<open>Probing\<close>

text \<open>What a probe for a key returns on a table with a slot that is not filled.\<close>

definition probe_spec :: "'v slot list \<Rightarrow> int \<Rightarrow> (bool \<times> nat) res \<Rightarrow> bool" where
  "probe_spec sl key r \<longleftrightarrow>
     (\<exists>found i. r = Inr (found, i) \<and> i < length sl \<and> on_path sl key i \<and>
        (if found then slot_key (sl ! i) = key
         else \<not> is_filled (slot_key (sl ! i)) \<and> (\<forall>j < length sl. on_path sl key j \<longrightarrow> slot_key (sl ! j) \<noteq> key)))"

lemma probe_found: "i < length sl \<Longrightarrow> on_path sl key i \<Longrightarrow> slot_key (sl ! i) = key \<Longrightarrow> probe_spec sl key (Inr (True, i))"
  unfolding probe_spec_def by (intro exI[of _ True] exI[of _ i]) simp

lemma probe_missed:
  "i < length sl \<Longrightarrow> on_path sl key i \<Longrightarrow> \<not> is_filled (slot_key (sl ! i)) \<Longrightarrow> (\<And>j. on_path sl key j \<Longrightarrow> slot_key (sl ! j) \<noteq> key) \<Longrightarrow>
    probe_spec sl key (Inr (False, i))"
  unfolding probe_spec_def by (intro exI[of _ False] exI[of _ i]) simp

lemma on_pathI:
  "length sl = 2 ^ b \<Longrightarrow> n < 2 ^ b \<Longrightarrow> (\<And>j. j < n \<Longrightarrow> slot_key (sl ! pidx (2 ^ b) key j) \<noteq> KEY_EMPTY) \<Longrightarrow> on_path sl key (pidx (2 ^ b) key n)"
  unfolding on_path_def by auto

lemma on_pathE:
  assumes "on_path sl key i" "length sl = 2 ^ b"
  obtains n where "n < 2 ^ b" "pidx (2 ^ b) key n = i" "\<And>j. j < n \<Longrightarrow> slot_key (sl ! pidx (2 ^ b) key j) \<noteq> KEY_EMPTY"
  using assms unfolding on_path_def by auto

lemma probe_loop_spec:
  assumes b: "length sl = 2 ^ b" and "is_filled key" "n + r = 2 ^ b"
    and past: "\<forall>j < n. slot_key (sl ! pidx (2 ^ b) key j) \<noteq> key \<and> slot_key (sl ! pidx (2 ^ b) key j) \<noteq> KEY_EMPTY"
    and tomb: "case ft of None \<Rightarrow> \<forall>j < n. slot_key (sl ! pidx (2 ^ b) key j) \<noteq> KEY_TOMBSTONE
      | Some t \<Rightarrow> \<exists>j < n. t = pidx (2 ^ b) key j \<and> slot_key (sl ! t) = KEY_TOMBSTONE"
    and free: "\<exists>i < length sl. \<not> is_filled (slot_key (sl ! i))"
  shows "probe_spec sl key (probe_loop sl (2 ^ b) key r (pidx (2 ^ b) key n) n ft)"
  using assms(3) past tomb
proof (induction r arbitrary: n ft)
  case 0
  have all: "\<forall>j < 2 ^ b. slot_key (sl ! pidx (2 ^ b) key j) \<noteq> key \<and> slot_key (sl ! pidx (2 ^ b) key j) \<noteq> KEY_EMPTY"
    using 0 by simp
  obtain t j where t: "ft = Some t" "j < 2 ^ b" "t = pidx (2 ^ b) key j" "slot_key (sl ! t) = KEY_TOMBSTONE"
  proof (cases ft)
    case None
    obtain i where i: "i < 2 ^ b" "\<not> is_filled (slot_key (sl ! i))" using free b by auto
    then obtain j where "j < 2 ^ b" "pidx (2 ^ b) key j = i" using probe_covers by blast
    then have False using 0 None all i(2) by (auto simp: is_filled_def)
    then show ?thesis ..
  next
    case (Some t)
    then show ?thesis using that 0 by auto
  qed
  have "on_path sl key t" unfolding t(3) using all t(2) by (intro on_pathI[OF b]) auto
  moreover have "slot_key (sl ! i) \<noteq> key" if "on_path sl key i" for i using on_pathE[OF that b] all by metis
  ultimately show ?case using t b by (simp add: probe_missed)
next
  case (Suc r)
  let ?i = "pidx (2 ^ b) key n"
  have n: "n < 2 ^ b" and i: "?i < length sl" using Suc.prems(1) b by auto
  have path: "on_path sl key ?i" using n Suc.prems(2) by (intro on_pathI[OF b]) auto
  consider (key) "slot_key (sl ! ?i) = key" | (empty) "slot_key (sl ! ?i) = KEY_EMPTY" "KEY_EMPTY \<noteq> key"
    | (go) "slot_key (sl ! ?i) \<noteq> key" "slot_key (sl ! ?i) \<noteq> KEY_EMPTY" using assms(2) by fastforce
  then show ?case
  proof cases
    case key
    then show ?thesis using i path by (simp add: Let_def probe_found)
  next
    case empty
    have none: "slot_key (sl ! j) \<noteq> key" if j: "on_path sl key j" for j
    proof -
      obtain m where m: "pidx (2 ^ b) key m = j" "\<And>l. l < m \<Longrightarrow> slot_key (sl ! pidx (2 ^ b) key l) \<noteq> KEY_EMPTY"
        using on_pathE[OF j b] by metis
      then have "m \<le> n" using empty(1) not_le by blast
      then show ?thesis using m(1) Suc.prems(2) empty by (cases "m = n") auto
    qed
    show ?thesis
    proof (cases ft)
      case None
      then show ?thesis using empty i path none by (simp add: Let_def probe_missed)
    next
      case (Some t)
      then obtain j where "j < n" "t = pidx (2 ^ b) key j" "slot_key (sl ! t) = KEY_TOMBSTONE" using Suc.prems(3) by auto
      moreover have "on_path sl key t" unfolding calculation(2) using calculation(1) n Suc.prems(2) by (intro on_pathI[OF b]) auto
      ultimately show ?thesis using Some empty i none b by (simp add: Let_def probe_missed)
    qed
  next
    case go
    have "probe_spec sl key (probe_loop sl (2 ^ b) key r (pidx (2 ^ b) key (Suc n)) (Suc n)
        (if slot_key (sl ! ?i) = KEY_TOMBSTONE \<and> ft = None then Some ?i else ft))"
    proof (rule Suc.IH)
      show "case (if slot_key (sl ! ?i) = KEY_TOMBSTONE \<and> ft = None then Some ?i else ft) of
          None \<Rightarrow> \<forall>j < Suc n. slot_key (sl ! pidx (2 ^ b) key j) \<noteq> KEY_TOMBSTONE
        | Some t \<Rightarrow> \<exists>j < Suc n. t = pidx (2 ^ b) key j \<and> slot_key (sl ! t) = KEY_TOMBSTONE"
        using Suc.prems(3) by (auto split: option.splits simp: less_Suc_eq)
    qed (use Suc.prems go in \<open>auto simp: less_Suc_eq\<close>)
    then show ?thesis using go i pidx_step[of b key n] by (simp add: Let_def)
  qed
qed

lemma probe_spec_cases:
  assumes "probe_spec sl key r" "table_ok sl" "is_filled key"
  obtains (found) i v where "r = Inr (True, i)" "i < length sl" "slot_key (sl ! i) = key" "slot_storage (sl ! i) = Some v" "table_map sl key = Some v"
  | (missed) i where "r = Inr (False, i)" "i < length sl" "on_path sl key i" "\<not> is_filled (slot_key (sl ! i))" "table_map sl key = None"
proof -
  obtain b i where r: "r = Inr (b, i)" "i < length sl" "on_path sl key i"
    "if b then slot_key (sl ! i) = key
     else \<not> is_filled (slot_key (sl ! i)) \<and> (\<forall>j < length sl. on_path sl key j \<longrightarrow> slot_key (sl ! j) \<noteq> key)"
    using assms(1) unfolding probe_spec_def by blast
  show thesis
  proof (cases b)
    case True
    then have k: "slot_key (sl ! i) = key" using r(4) by simp
    have "slot_storage (sl ! i) \<noteq> None" using assms(2,3) r(2) k unfolding table_ok_def by blast
    then obtain v where v: "slot_storage (sl ! i) = Some v" by blast
    have u: "uniq sl" using assms(2) by (simp add: table_ok_def)
    have "table_map sl key = Some v" unfolding table_map_Some[OF u] using k v assms(3) r(2) by (intro conjI exI[of _ i]) auto
    then show thesis using found[of i v] r(1,2) True k v by simp
  next
    case False
    have "slot_key (sl ! j) \<noteq> key" if j: "j < length sl" for j
      using assms(2,3) r(4) False j unfolding table_ok_def by metis
    then have "table_map sl key = None" using table_map_None[OF assms(2), of key] by blast
    then show thesis using missed[of i] r False by simp
  qed
qed

lemma probe_ok:
  assumes "im_slots m = Some sl" "im_cap m = length sl" "table_ok sl" "is_filled key" "0 < num_with (\<lambda>k. \<not> is_filled k) sl"
  shows "probe_spec sl key (probe_insert_or_find key m)"
proof -
  obtain b where b: "length sl = 2 ^ b" using assms(3) by (auto simp: table_ok_def)
  have "probe_spec sl key (probe_loop sl (2 ^ b) key (2 ^ b) (pidx (2 ^ b) key 0) 0 None)"
    using assms(4,5) b by (intro probe_loop_spec) (simp_all add: num_with_pos)
  then show ?thesis using assms(1,2) b by (simp add: probe_insert_or_find_def pidx_0 del: One_nat_def)
qed

section \<open>Rehashing\<close>

lemma place_loop_ok:
  assumes b: "length arr = 2 ^ b" and "n + r = 2 ^ b"
    and "\<forall>j < n. is_filled (slot_key (arr ! pidx (2 ^ b) key j))" "\<exists>i < length arr. \<not> is_filled (slot_key (arr ! i))"
  shows "\<exists>i < length arr. on_path arr key i \<and> \<not> is_filled (slot_key (arr ! i)) \<and>
    place_loop r arr (2 ^ b) key v (pidx (2 ^ b) key n) n = Inr (arr[i := \<lparr>slot_key = key, slot_storage = Some v\<rparr>])"
  using assms(2,3)
proof (induction r arbitrary: n)
  case 0
  obtain i where i: "i < 2 ^ b" "\<not> is_filled (slot_key (arr ! i))" using assms(4) b by auto
  then show ?case using probe_covers[OF i(1), of key] 0 by auto
next
  case (Suc r)
  let ?i = "pidx (2 ^ b) key n"
  have i: "?i < length arr" using b by simp
  show ?case
  proof (cases "is_filled (slot_key (arr ! ?i))")
    case True
    then have "\<exists>i < length arr. on_path arr key i \<and> \<not> is_filled (slot_key (arr ! i)) \<and>
        place_loop r arr (2 ^ b) key v (pidx (2 ^ b) key (Suc n)) (Suc n) = Inr (arr[i := \<lparr>slot_key = key, slot_storage = Some v\<rparr>])"
      using Suc.IH[of "Suc n"] Suc.prems by (auto simp: less_Suc_eq)
    moreover have "slot_key (arr ! ?i) \<noteq> KEY_EMPTY" "slot_key (arr ! ?i) \<noteq> KEY_TOMBSTONE" using True by auto
    ultimately show ?thesis using i pidx_step[of b key n] by simp
  next
    case False
    have "on_path arr key ?i" using Suc.prems by (intro on_pathI[OF b]) (auto simp: is_filled_def)
    moreover have "slot_key (arr ! ?i) = KEY_EMPTY \<or> slot_key (arr ! ?i) = KEY_TOMBSTONE" using False by (auto simp: is_filled_def)
    ultimately show ?thesis using i False by (intro exI[of _ ?i]) simp
  qed
qed

text \<open>One filled slot moves into the new table.\<close>

lemma place_new_ok:
  assumes "table_ok arr" "length arr = c" "is_filled key" "table_map arr key = None" "num_with is_filled arr < c"
    "num_with (\<lambda>k. k = KEY_TOMBSTONE) arr = 0"
  shows "\<exists>arr'. place_new arr c key v = Inr arr' \<and> table_ok arr' \<and> length arr' = c \<and> table_map arr' = (table_map arr)(key \<mapsto> v) \<and>
    num_with is_filled arr' = num_with is_filled arr + 1 \<and> num_with (\<lambda>k. k = KEY_TOMBSTONE) arr' = 0"
proof -
  obtain b where b: "length arr = 2 ^ b" using assms(1) by (auto simp: table_ok_def)
  have "0 < num_with (\<lambda>k. k = KEY_EMPTY) arr" using num_with_split[of arr] assms(2,5,6) by simp
  then have "\<exists>i < length arr. \<not> is_filled (slot_key (arr ! i))" unfolding num_with_pos by auto
  then obtain i where i: "i < length arr" "on_path arr key i" "\<not> is_filled (slot_key (arr ! i))"
    "place_loop (2 ^ b) arr (2 ^ b) key v (pidx (2 ^ b) key 0) 0 = Inr (arr[i := \<lparr>slot_key = key, slot_storage = Some v\<rparr>])"
    using place_loop_ok[OF b, of 0 "2 ^ b" key v] by auto
  have t: "slot_key (arr ! i) \<noteq> KEY_TOMBSTONE" using assms(6) i(1) num_with_pos[of "\<lambda>k. k = KEY_TOMBSTONE" arr] by auto
  show ?thesis
    using table_put[OF assms(1) i(1,3,2) assms(3,4), of v] i(1,3,4) b assms(2,3,6) t
      num_with_update[of i arr is_filled "\<lparr>slot_key = key, slot_storage = Some v\<rparr>"]
      num_with_update[of i arr "\<lambda>k. k = KEY_TOMBSTONE" "\<lparr>slot_key = key, slot_storage = Some v\<rparr>"]
    by (auto simp: place_new_def pidx_0 simp del: One_nat_def)
qed

lemma key_not_before:
  assumes "uniq (pre @ s # post)" "is_filled (slot_key s)"
  shows "find (\<lambda>x. slot_key x = slot_key s) pre = None"
proof (rule ccontr)
  assume "find (\<lambda>x. slot_key x = slot_key s) pre \<noteq> None"
  then obtain i where i: "i < length pre" "slot_key (pre ! i) = slot_key s" by (auto simp: find_Some_iff)
  then show False
    using uniqD[OF assms(1), of "length pre" i] assms(2) by (auto simp: nth_append)
qed

lemma find_snoc: "find P (xs @ [x]) = (case find P xs of None \<Rightarrow> (if P x then Some x else None) | Some y \<Rightarrow> Some y)"
  by (induction xs) auto

lemma table_map_snoc:
  assumes "uniq (pre @ [s])"
  shows "table_map (pre @ [s]) = (if is_filled (slot_key s) then (table_map pre)(slot_key s := slot_storage s) else table_map pre)"
  using key_not_before[OF assms] by (auto simp: table_map_def fun_eq_iff find_snoc split: option.split)

text \<open>The loop of \<open>rehash_\<close>: the new table holds what the slots processed so far hold.\<close>

lemma rehash_loop:
  assumes "uniq (pre @ sl)" "\<forall>s \<in> set sl. is_filled (slot_key s) \<longrightarrow> slot_storage s \<noteq> None"
    and "table_ok arr" "length arr = c" "table_map arr = table_map pre" "num_with is_filled arr = num_with is_filled pre"
    and "num_with (\<lambda>k. k = KEY_TOMBSTONE) arr = 0" "num_with is_filled (pre @ sl) < c"
  shows "\<exists>arr'. foldE (rehash_slot c) sl arr = Inr arr' \<and> table_ok arr' \<and> length arr' = c \<and>
    table_map arr' = table_map (pre @ sl) \<and> num_with is_filled arr' = num_with is_filled (pre @ sl) \<and>
    num_with (\<lambda>k. k = KEY_TOMBSTONE) arr' = 0"
  using assms
proof (induction sl arbitrary: pre arr)
  case Nil
  then show ?case by simp
next
  case (Cons s sl)
  have u: "uniq (pre @ [s])"
    unfolding uniq_def
  proof (intro allI impI)
    fix i j
    assume ij: "i < length (pre @ [s])" "j < length (pre @ [s])" "is_filled (slot_key ((pre @ [s]) ! i))"
      "slot_key ((pre @ [s]) ! i) = slot_key ((pre @ [s]) ! j)"
    have "(pre @ s # sl) ! l = (pre @ [s]) ! l" if "l < length (pre @ [s])" for l using that by (auto simp: nth_append nth_Cons')
    then show "i = j" using uniqD[OF Cons.prems(1), of i j] ij by auto
  qed
  have a: "(pre @ [s]) @ sl = pre @ s # sl" by simp
  show ?case
  proof (cases "is_filled (slot_key s)")
    case False
    then have "rehash_slot c s arr = Inr arr" by (simp add: rehash_slot_def)
    moreover have "table_map arr = table_map (pre @ [s])" "num_with is_filled arr = num_with is_filled (pre @ [s])"
      using table_map_snoc[OF u] False Cons.prems(5,6) by (simp_all add: num_with_def)
    ultimately show ?thesis using Cons.IH[of "pre @ [s]" arr] Cons.prems a by simp
  next
    case True
    then obtain v where v: "slot_storage s = Some v" using Cons.prems(2) by auto
    have none: "table_map arr (slot_key s) = None" unfolding Cons.prems(5) using key_not_before[OF Cons.prems(1) True] by (simp add: table_map_def)
    have less: "num_with is_filled arr < c" using Cons.prems(6,8) True by (simp add: num_with_def)
    obtain arr' where p: "place_new arr c (slot_key s) v = Inr arr'" "table_ok arr'" "length arr' = c"
      "table_map arr' = (table_map arr)(slot_key s \<mapsto> v)" "num_with is_filled arr' = num_with is_filled arr + 1"
      "num_with (\<lambda>k. k = KEY_TOMBSTONE) arr' = 0"
      using place_new_ok[OF Cons.prems(3,4) True none less Cons.prems(7)] by blast
    have "rehash_slot c s arr = Inr arr'" using True v p(1) by (simp add: rehash_slot_def)
    moreover have "table_map arr' = table_map (pre @ [s])" "num_with is_filled arr' = num_with is_filled (pre @ [s])"
      using table_map_snoc[OF u] True Cons.prems(5,6) p(4,5) v by (simp_all add: num_with_def)
    ultimately show ?thesis using Cons.IH[of "pre @ [s]" arr'] Cons.prems(1,2,8) p(2,3,6) a by simp
  qed
qed

section \<open>The map\<close>

definition im_inv :: "'v int32_map \<Rightarrow> bool" where
  "im_inv m \<longleftrightarrow>
     (case im_slots m of
        None \<Rightarrow> im_cap m = 0 \<and> im_size m = 0 \<and> im_tombstones m = 0
      | Some sl \<Rightarrow> table_ok sl \<and> im_cap m = length sl \<and> im_size m = num_with is_filled sl \<and>
          im_tombstones m = num_with (\<lambda>k. k = KEY_TOMBSTONE) sl \<and> (im_size m + im_tombstones m) * 100 \<le> im_cap m * 75 \<and> im_cap m \<le> 2 ^ 31)"

definition im_map :: "'v int32_map \<Rightarrow> int \<Rightarrow> 'v option" where
  "im_map m = (case im_slots m of None \<Rightarrow> Map.empty | Some sl \<Rightarrow> table_map sl)"

lemma im_new_ok: "im_inv im_new" "im_map im_new = Map.empty"
  by (simp_all add: im_new_def im_inv_def im_map_def)

lemma rehash_ok:
  assumes "im_slots m = Some sl" "table_ok sl" "im_size m = num_with is_filled sl" "1 \<le> b" "im_size m < 2 ^ b"
  shows "\<exists>arr. rehash (2 ^ b) m = Inr (m\<lparr>im_slots := Some arr, im_cap := 2 ^ b, im_tombstones := 0\<rparr>) \<and> table_ok arr \<and> length arr = 2 ^ b \<and>
    table_map arr = table_map sl \<and> num_with is_filled arr = im_size m \<and> num_with (\<lambda>k. k = KEY_TOMBSTONE) arr = 0"
proof -
  have "\<forall>s \<in> set sl. is_filled (slot_key s) \<longrightarrow> slot_storage s \<noteq> None"
    using assms(2) unfolding table_ok_def by (metis in_set_conv_nth)
  moreover have "uniq ([] @ sl)" "table_map ([] :: 'a slot list) = Map.empty" "num_with is_filled ([] :: 'a slot list) = 0"
    using assms(2) by (simp_all add: table_ok_def table_map_def num_with_def fun_eq_iff)
  ultimately obtain arr where r: "foldE (rehash_slot (2 ^ b)) sl (replicate (2 ^ b) empty_slot) = Inr arr" "table_ok arr" "length arr = 2 ^ b"
    "table_map arr = table_map sl" "num_with is_filled arr = num_with is_filled sl" "num_with (\<lambda>k. k = KEY_TOMBSTONE) arr = 0"
    using rehash_loop[of "[]" sl "replicate (2 ^ b) empty_slot" "2 ^ b"] fresh_table[OF assms(4)] assms(3,5) by (auto simp: num_with_def)
  have "(2 :: nat) ^ b AND (2 ^ b - 1) = 0" unfolding and_low_mask by simp
  moreover have "MIN_CAPACITY \<le> 2 ^ b" using self_le_power[of 2 b] assms(4) by (simp add: MIN_CAPACITY_def)
  ultimately show ?thesis using r assms(1,3) by (intro exI[of _ arr]) (simp add: rehash_def)
qed

lemma im_invE:
  assumes "im_inv m" "im_slots m = Some sl"
  obtains b where "1 \<le> b" "im_cap m = 2 ^ b" "length sl = 2 ^ b" "table_ok sl" "im_size m = num_with is_filled sl"
    "im_tombstones m = num_with (\<lambda>k. k = KEY_TOMBSTONE) sl" "(im_size m + im_tombstones m) * 100 \<le> im_cap m * 75" "im_cap m \<le> 2 ^ 31"
    "0 < num_with (\<lambda>k. \<not> is_filled k) sl"
proof -
  from assms have i: "table_ok sl" "im_cap m = length sl" "im_size m = num_with is_filled sl"
    "im_tombstones m = num_with (\<lambda>k. k = KEY_TOMBSTONE) sl" "(im_size m + im_tombstones m) * 100 \<le> im_cap m * 75" "im_cap m \<le> 2 ^ 31"
    by (auto simp: im_inv_def)
  obtain b where b: "1 \<le> b" "length sl = 2 ^ b" using i(1) by (auto simp: table_ok_def)
  have "0 < length sl" using b(2) by (metis zero_less_numeral zero_less_power)
  then have "0 < num_with (\<lambda>k. k = KEY_EMPTY) sl" using num_with_split[of sl] i(2-5) by arith
  then have "0 < num_with (\<lambda>k. \<not> is_filled k) sl" unfolding num_with_pos by auto
  then show thesis using that b i by simp
qed

lemma probe_map:
  assumes "im_inv m" "im_slots m = Some sl" "is_filled key"
  shows "probe_spec sl key (probe_insert_or_find key m)"
  using im_invE[OF assms(1,2)] probe_ok[OF assms(2) _ _ assms(3)] by metis

lemma valid_key_filled: "is_filled key \<Longrightarrow> valid_key key = Inr ()" "\<not> is_filled key \<Longrightarrow> valid_key key = Inl Invalid_argument"
  by (auto simp: valid_key_def is_filled_def)

lemma contains_ok:
  assumes "im_inv m" "is_filled key"
  shows "im_contains key m = Inr (im_map m key \<noteq> None)"
proof (cases "im_slots m")
  case (Some sl)
  then have "table_ok sl" using assms(1) by (simp add: im_inv_def)
  from probe_spec_cases[OF probe_map[OF assms(1) Some assms(2)] this assms(2)]
  show ?thesis by cases (simp_all add: im_contains_def im_map_def Some valid_key_filled assms(2))
qed (simp add: im_contains_def im_map_def valid_key_filled assms(2))

lemma find_ok:
  assumes "im_inv m" "is_filled key"
  shows "\<exists>i. im_find key m = Inr i \<and> (case im_map m key of None \<Rightarrow> i = im_cap m | Some v \<Rightarrow> value_at i m = Inr v)"
proof (cases "im_slots m")
  case (Some sl)
  then have "table_ok sl" using assms(1) by (simp add: im_inv_def)
  from probe_spec_cases[OF probe_map[OF assms(1) Some assms(2)] this assms(2)]
  show ?thesis by cases (simp_all add: im_find_def im_map_def Some valid_key_filled assms(2) value_at_def slot_at_def)
qed (simp add: im_find_def im_map_def valid_key_filled assms(2))

lemma shrink_ok:
  assumes "im_slots m = Some sl" "table_ok sl" "im_cap m = length sl" "im_size m = num_with is_filled sl"
    "im_tombstones m = num_with (\<lambda>k. k = KEY_TOMBSTONE) sl" "(im_size m + im_tombstones m) * 100 \<le> im_cap m * 75" "im_cap m \<le> 2 ^ 31"
  shows "\<exists>m'. maybe_rehash_after_erase m = Inr m' \<and> im_inv m' \<and> im_map m' = table_map sl"
proof -
  obtain b where b: "1 \<le> b" "length sl = 2 ^ b" using assms(2) by (auto simp: table_ok_def)
  consider (none) "im_size m = 0"
    | (shrink) "im_size m \<noteq> 0" "im_size m * 100 < im_cap m * 25" "2 \<le> im_cap m div 2"
    | (stay) "im_size m \<noteq> 0" "\<not> (im_size m * 100 < im_cap m * 25 \<and> 2 \<le> im_cap m div 2)" by blast
  then show ?thesis
  proof cases
    case none
    then have "\<not> (\<exists>i < length sl. is_filled (slot_key (sl ! i)))" using assms(4) num_with_pos[of is_filled sl] by simp
    then have "table_map sl k = None" for k using table_map_None[OF assms(2), of k] by metis
    then have "table_map sl = Map.empty" by (rule ext)
    then show ?thesis using none assms(1) im_new_ok by (simp add: maybe_rehash_after_erase_def)
  next
    case shrink
    have h: "im_cap m div 2 = 2 ^ (b - 1)" "im_cap m = 2 * 2 ^ (b - 1)" using b assms(3) by (cases b; simp)+
    have b1: "1 \<le> b - 1" using shrink(3) h(1) by (cases "b - 1") auto
    have "im_size m < 2 ^ (b - 1)" using shrink(2) h(2) by linarith
    then obtain arr where "rehash (2 ^ (b - 1)) m = Inr (m\<lparr>im_slots := Some arr, im_cap := 2 ^ (b - 1), im_tombstones := 0\<rparr>)"
      "table_ok arr" "length arr = 2 ^ (b - 1)" "table_map arr = table_map sl" "num_with is_filled arr = im_size m"
      "num_with (\<lambda>k. k = KEY_TOMBSTONE) arr = 0"
      using rehash_ok[OF assms(1,2,4) b1] by blast
    then show ?thesis
      using shrink h assms(1,7) by (simp add: maybe_rehash_after_erase_def MIN_LOAD_PCT_def MIN_CAPACITY_def im_inv_def im_map_def)
  next
    case stay
    then have "maybe_rehash_after_erase m = Inr m"
      using assms(1) by (auto simp: maybe_rehash_after_erase_def MIN_LOAD_PCT_def MIN_CAPACITY_def)
    then show ?thesis using assms by (simp add: im_inv_def im_map_def)
  qed
qed

lemma erase_ok:
  assumes "im_inv m" "is_filled key"
  shows "\<exists>m'. im_erase key m = Inr (im_map m key \<noteq> None, m') \<and> im_inv m' \<and> im_map m' = (im_map m)(key := None)"
proof (cases "im_slots m")
  case None
  then show ?thesis using assms by (simp add: im_erase_def im_map_def valid_key_filled)
next
  case (Some sl)
  obtain b where i: "im_cap m = 2 ^ b" "length sl = 2 ^ b" "table_ok sl" "im_size m = num_with is_filled sl"
    "im_tombstones m = num_with (\<lambda>k. k = KEY_TOMBSTONE) sl" "(im_size m + im_tombstones m) * 100 \<le> im_cap m * 75" "im_cap m \<le> 2 ^ 31"
    using im_invE[OF assms(1) Some] by metis
  show ?thesis
  proof (cases rule: probe_spec_cases[OF probe_map[OF assms(1) Some assms(2)] i(3) assms(2), case_names found missed])
    case (missed j)
    then show ?thesis using assms Some by (simp add: im_erase_def im_map_def valid_key_filled fun_upd_idem)
  next
    case (found j v)
    let ?s = "\<lparr>slot_key = KEY_TOMBSTONE, slot_storage = None\<rparr> :: 'a slot"
    let ?m = "(set_slot j ?s m)\<lparr>im_size := im_size m - 1, im_tombstones := im_tombstones m + 1\<rparr>"
    have n: "num_with is_filled sl = num_with is_filled (sl[j := ?s]) + 1"
      using num_with_remove[of j sl is_filled ?s] found(2,3) assms(2) by simp
    have t: "num_with (\<lambda>k. k = KEY_TOMBSTONE) (sl[j := ?s]) = num_with (\<lambda>k. k = KEY_TOMBSTONE) sl + 1"
      using num_with_update[of j sl "\<lambda>k. k = KEY_TOMBSTONE" ?s] found(2,3) assms(2) by (auto simp: is_filled_def)
    note tr = table_remove[OF i(3) found(2,3) assms(2)]
    have "\<exists>m'. maybe_rehash_after_erase ?m = Inr m' \<and> im_inv m' \<and> im_map m' = table_map (sl[j := ?s])"
      using tr(1) i Some n t by (intro shrink_ok) (simp_all add: set_slot_def)
    then show ?thesis
      using found(1,5) assms(2) Some tr(2) by (auto simp: im_erase_def im_map_def valid_key_filled)
  qed
qed

lemma load_less:
  fixes s x :: nat
  assumes "(s + 1) * 100 \<le> x * 75"
  shows "s < x"
proof (rule ccontr)
  assume "\<not> s < x"
  then have "x * 75 \<le> s * 75" by simp
  also have "\<dots> < (s + 1) * 100" by simp
  finally show False using assms by simp
qed

text \<open>A new key goes into an empty slot of the table made ready for it.\<close>

lemma reserve_ok:
  assumes "im_inv m" "im_slots m = Some sl" "is_filled key" "table_map sl key = None" "(im_size m + 1) * 100 \<le> 2 ^ 31 * 75"
    and "i < length sl" "on_path sl key i" "slot_key (sl ! i) = KEY_EMPTY"
  shows "\<exists>j m' sl'. im_reserve key i m = Inr (j, m') \<and> im_slots m' = Some sl' \<and> table_ok sl' \<and> im_cap m' = length sl' \<and>
    im_size m' = im_size m \<and> num_with is_filled sl' = im_size m \<and> im_tombstones m' = num_with (\<lambda>k. k = KEY_TOMBSTONE) sl' \<and>
    (im_size m' + 1 + im_tombstones m') * 100 \<le> im_cap m' * 75 \<and> im_cap m' \<le> 2 ^ 31 \<and> table_map sl' = table_map sl \<and>
    j < length sl' \<and> on_path sl' key j \<and> slot_key (sl' ! j) = KEY_EMPTY"
proof -
  obtain b where inv: "1 \<le> b" "im_cap m = 2 ^ b" "length sl = 2 ^ b" "table_ok sl" "im_size m = num_with is_filled sl"
    "im_tombstones m = num_with (\<lambda>k. k = KEY_TOMBSTONE) sl" "(im_size m + im_tombstones m) * 100 \<le> im_cap m * 75" "im_cap m \<le> 2 ^ 31"
    using im_invE[OF assms(1,2)] by metis
  show ?thesis
  proof (cases "im_cap m * 75 < (im_size m + im_tombstones m + 1) * 100")
    case False
    then have "im_reserve key i m = Inr (i, m)" by (simp add: im_reserve_def MAX_LOAD_PCT_def)
    then show ?thesis using False assms(2,6-8) inv by (intro exI[of _ i] exI[of _ m] exI[of _ sl]) simp
  next
    case True
    define c where "c = (if (im_size m + 1) * 100 \<le> im_cap m * 75 then b else b + 1)"
    have two: "(2 :: nat) \<le> 2 ^ b" using self_le_power[of 2 b] inv(1) by simp
    have c: "1 \<le> c" "(im_size m + 1) * 100 \<le> 2 ^ c * 75"
      using inv(1,2,7) two by (auto simp: c_def)
    have c31: "(2 :: nat) ^ c \<le> 2 ^ 31"
    proof (cases "(im_size m + 1) * 100 \<le> im_cap m * 75")
      case True
      then show ?thesis using inv(2,8) by (simp add: c_def)
    next
      case False
      then have "(2 :: nat) ^ b < 2 ^ 31" using assms(5) inv(2) by linarith
      then have "b < 31" by (rule power_less_imp_less_exp[rotated]) simp
      then have "c \<le> 31" by (simp add: c_def)
      then show ?thesis by (rule power_increasing) simp
    qed
    have "im_size m < 2 ^ c" using load_less[OF c(2)] .
    then obtain arr where a: "rehash (2 ^ c) m = Inr (m\<lparr>im_slots := Some arr, im_cap := 2 ^ c, im_tombstones := 0\<rparr>)"
      "table_ok arr" "length arr = 2 ^ c" "table_map arr = table_map sl" "num_with is_filled arr = im_size m"
      "num_with (\<lambda>k. k = KEY_TOMBSTONE) arr = 0"
      using rehash_ok[OF assms(2) inv(4,5) c(1)] by blast
    let ?m = "m\<lparr>im_slots := Some arr, im_cap := 2 ^ c, im_tombstones := 0\<rparr>"
    have re: "(if (im_size m + 1) * 100 \<le> im_cap m * MAX_LOAD_PCT then rehash (im_cap m) m else rehash (im_cap m * 2 mod 2 ^ 32) m) = Inr ?m"
    proof (cases "(im_size m + 1) * 100 \<le> im_cap m * 75")
      case True
      then show ?thesis using a(1) inv(2) by (simp add: c_def MAX_LOAD_PCT_def)
    next
      case False
      then have "im_cap m * 2 = 2 ^ c" using inv(2) by (simp add: c_def)
      moreover have "(2 :: nat) ^ c mod 2 ^ 32 = 2 ^ c" using c31 by simp
      ultimately show ?thesis using a(1) False by (simp add: MAX_LOAD_PCT_def)
    qed
    have "im_inv ?m" using a(2,3,5,6) c(2) c31 by (simp add: im_inv_def)
    then have p: "probe_spec arr key (probe_insert_or_find key ?m)" using probe_map assms(3) by fastforce
    show ?thesis
    proof (cases rule: probe_spec_cases[OF p a(2) assms(3), case_names found missed])
      case (found j v)
      then show ?thesis using a(4) assms(4) by simp
    next
      case (missed j)
      have "\<not> (\<exists>i < length arr. slot_key (arr ! i) = KEY_TOMBSTONE)" using a(6) num_with_pos[of "\<lambda>k. k = KEY_TOMBSTONE" arr] by simp
      then have e: "slot_key (arr ! j) = KEY_EMPTY" using missed(2,4) by (auto simp: is_filled_def)
      have "im_reserve key i m = Inr (j, ?m)" using True re missed(1) by (simp add: im_reserve_def MAX_LOAD_PCT_def)
      then show ?thesis
        using a missed(2,3) e c(2) c31 by (intro exI[of _ j] exI[of _ ?m] exI[of _ arr]) simp
    qed
  qed
qed

lemma emplace_ok:
  assumes "im_inv m0" "is_filled key" "(im_size m0 + 1) * 100 \<le> 2 ^ 31 * 75"
  shows "\<exists>m'. im_emplace key v m0 = Inr (case im_map m0 key of None \<Rightarrow> v | Some w \<Rightarrow> w, m') \<and> im_inv m' \<and>
    im_map m' = (case im_map m0 key of None \<Rightarrow> (im_map m0)(key \<mapsto> v) | Some w \<Rightarrow> im_map m0)"
proof -
  let ?s = "\<lparr>slot_key = key, slot_storage = Some v\<rparr>"
  define m where "m = (if im_slots m0 = None
      then m0\<lparr>im_slots := Some (replicate MIN_CAPACITY empty_slot), im_cap := MIN_CAPACITY, im_size := 0, im_tombstones := 0\<rparr> else m0)"
  have m: "im_inv m" "im_map m = im_map m0" "im_size m = im_size m0" "im_slots m \<noteq> None"
    using assms(1) fresh_table[of 1] by (auto simp: m_def im_inv_def im_map_def MIN_CAPACITY_def)
  then obtain sl where sl: "im_slots m = Some sl" by blast
  have map: "table_map sl = im_map m0" using m(2) sl by (simp add: im_map_def)
  obtain b where inv: "im_cap m = 2 ^ b" "length sl = 2 ^ b" "table_ok sl" "im_size m = num_with is_filled sl"
    "im_tombstones m = num_with (\<lambda>k. k = KEY_TOMBSTONE) sl" "(im_size m + im_tombstones m) * 100 \<le> im_cap m * 75" "im_cap m \<le> 2 ^ 31"
    using im_invE[OF m(1) sl] by metis
  have run: "im_emplace key v m0 = bindE (probe_insert_or_find key m) (\<lambda>(found, idx).
       if found then bindE (value_at idx m) (\<lambda>w. Inr (w, m))
       else bindE (slot_at idx m) (\<lambda>s.
         if slot_key s = KEY_TOMBSTONE
         then Inr (v, (set_slot idx ?s m)\<lparr>im_tombstones := im_tombstones m - 1, im_size := im_size m + 1\<rparr>)
         else bindE (im_reserve key idx m) (\<lambda>(i, m1).
              bindE (slot_at i m1) (\<lambda>s1.
              bindE (check (slot_key s1 = KEY_EMPTY)) (\<lambda>_.
                Inr (v, (set_slot i ?s m1)\<lparr>im_size := im_size m1 + 1\<rparr>))))))"
    unfolding im_emplace_def valid_key_filled(1)[OF assms(2)] bindE_Inr Let_def m_def[symmetric] ..
  show ?thesis
  proof (cases rule: probe_spec_cases[OF probe_map[OF m(1) sl assms(2)] inv(3) assms(2), case_names found missed])
    case (found i w)
    then show ?thesis using run m(1,2) sl map by (simp add: value_at_def slot_at_def)
  next
    case (missed i)
    have i: "slot_at i m = Inr (sl ! i)" using sl missed(2) by (simp add: slot_at_def)
    have none: "im_map m0 key = None" using missed(5) map by simp
    show ?thesis
    proof (cases "slot_key (sl ! i) = KEY_TOMBSTONE")
      case True
      let ?m = "(set_slot i ?s m)\<lparr>im_tombstones := im_tombstones m - 1, im_size := im_size m + 1\<rparr>"
      have n: "num_with is_filled (sl[i := ?s]) = num_with is_filled sl + 1"
        using num_with_update[of i sl is_filled ?s] missed(2,4) assms(2) by simp
      have t: "num_with (\<lambda>k. k = KEY_TOMBSTONE) sl = num_with (\<lambda>k. k = KEY_TOMBSTONE) (sl[i := ?s]) + 1"
        using num_with_remove[of i sl "\<lambda>k. k = KEY_TOMBSTONE" ?s] missed(2) True assms(2) by (auto simp: is_filled_def)
      note put = table_put[OF inv(3) missed(2,4,3) assms(2) missed(5), of v]
      have "im_inv ?m" using put(1) sl inv n t by (simp add: im_inv_def set_slot_def)
      moreover have "im_map ?m = (im_map m0)(key \<mapsto> v)" using put(2) sl map by (simp add: im_map_def set_slot_def)
      ultimately show ?thesis using run missed(1) i True none by simp
    next
      case False
      then have e: "slot_key (sl ! i) = KEY_EMPTY" using missed(4) by (auto simp: is_filled_def)
      obtain j m1 sl1 where r: "im_reserve key i m = Inr (j, m1)" "im_slots m1 = Some sl1" "table_ok sl1" "im_cap m1 = length sl1"
        "im_size m1 = im_size m" "num_with is_filled sl1 = im_size m" "im_tombstones m1 = num_with (\<lambda>k. k = KEY_TOMBSTONE) sl1"
        "(im_size m1 + 1 + im_tombstones m1) * 100 \<le> im_cap m1 * 75" "im_cap m1 \<le> 2 ^ 31" "table_map sl1 = table_map sl"
        "j < length sl1" "on_path sl1 key j" "slot_key (sl1 ! j) = KEY_EMPTY"
        using reserve_ok[OF m(1) sl assms(2) missed(5) _ missed(2,3) e] assms(3) m(3) by auto
      let ?m = "(set_slot j ?s m1)\<lparr>im_size := im_size m1 + 1\<rparr>"
      have f: "\<not> is_filled (slot_key (sl1 ! j))" "table_map sl1 key = None" using r(10,13) missed(5) by simp_all
      note put = table_put[OF r(3,11) f(1) r(12) assms(2) f(2), of v]
      have n: "num_with is_filled (sl1[j := ?s]) = num_with is_filled sl1 + 1"
        using num_with_update[of j sl1 is_filled ?s] r(11) f(1) assms(2) by simp
      have t: "num_with (\<lambda>k. k = KEY_TOMBSTONE) (sl1[j := ?s]) = num_with (\<lambda>k. k = KEY_TOMBSTONE) sl1"
        using num_with_update[of j sl1 "\<lambda>k. k = KEY_TOMBSTONE" ?s] r(11,13) assms(2) by (auto simp: is_filled_def)
      have "im_inv ?m" using put(1) r(2,4-9) n t by (simp add: im_inv_def set_slot_def)
      moreover have "im_map ?m = (im_map m0)(key \<mapsto> v)" using put(2) r(2,10) map by (simp add: im_map_def set_slot_def)
      moreover have "slot_at j m1 = Inr (sl1 ! j)" using r(2,11) by (simp add: slot_at_def)
      ultimately show ?thesis using run missed(1) i False none r(1,13) by simp
    qed
  qed
qed

section \<open>Size and iteration\<close>

lemma size_card:
  assumes "im_inv m"
  shows "im_size m = card (dom (im_map m))"
proof (cases "im_slots m")
  case None
  then show ?thesis using assms by (simp add: im_inv_def im_map_def)
next
  case (Some sl)
  then have i: "table_ok sl" "im_size m = num_with is_filled sl" using assms by (simp_all add: im_inv_def)
  let ?I = "{i. i < length sl \<and> is_filled (slot_key (sl ! i))}"
  have u: "uniq sl" using i(1) by (simp add: table_ok_def)
  have "dom (table_map sl) = (\<lambda>i. slot_key (sl ! i)) ` ?I"
    using table_map_None[OF i(1)] by (force simp: dom_def)
  moreover have "inj_on (\<lambda>i. slot_key (sl ! i)) ?I" using uniqD[OF u] by (auto intro!: inj_onI)
  ultimately have "card (dom (table_map sl)) = card ?I" by (simp add: card_image)
  also have "\<dots> = num_with is_filled sl" by (simp add: num_with_def length_filter_conv_card)
  finally show ?thesis using Some i(2) by (simp add: im_map_def)
qed

lemma advance_le: "i \<le> length sl \<Longrightarrow> im_advance sl i \<le> length sl"
  unfolding im_advance_def using length_takeWhile_le[of "\<lambda>s. \<not> is_filled (slot_key s)" "drop i sl"] by simp

lemma iterate_filter:
  "im_iterate sl i = map (\<lambda>s. (slot_key s, slot_storage s)) (filter (\<lambda>s. is_filled (slot_key s)) (drop i sl))"
proof (induction sl i rule: im_iterate.induct)
  case (1 sl i)
  let ?P = "\<lambda>s. \<not> is_filled (slot_key s)"
  let ?k = "length (takeWhile ?P (drop i sl))"
  have split: "drop i sl = takeWhile ?P (drop i sl) @ drop (i + ?k) sl"
    by (metis add.commute append_take_drop_id drop_drop takeWhile_eq_take)
  have none: "filter (\<lambda>s. is_filled (slot_key s)) (takeWhile ?P (drop i sl)) = []"
    by (auto simp: filter_empty_conv dest: set_takeWhileD)
  show ?case
  proof (cases "i + ?k < length sl")
    case True
    then have d: "drop (i + ?k) sl = sl ! (i + ?k) # drop (i + ?k + 1) sl" by (simp add: Cons_nth_drop_Suc)
    have "drop i sl ! ?k = sl ! (i + ?k)" "?k < length (drop i sl)" using True by simp_all
    then have f: "is_filled (slot_key (sl ! (i + ?k)))" using nth_length_takeWhile[of ?P "drop i sl"] by simp
    have "filter (\<lambda>s. is_filled (slot_key s)) (drop i sl) = sl ! (i + ?k) # filter (\<lambda>s. is_filled (slot_key s)) (drop (i + ?k + 1) sl)"
      by (subst split) (use none d f in \<open>simp add: filter_append del: drop_drop\<close>)
    then show ?thesis using 1 True by (subst im_iterate.simps) (simp add: Let_def im_advance_def)
  next
    case False
    then have "filter (\<lambda>s. is_filled (slot_key s)) (drop i sl) = []"
      by (subst split) (use none in \<open>simp add: filter_append del: drop_drop\<close>)
    then show ?thesis using False by (subst im_iterate.simps) (simp add: Let_def im_advance_def)
  qed
qed

lemma entries_ok:
  assumes "im_inv m"
  shows "set (im_entries m) = {(k, Some v) |k v. im_map m k = Some v}" "distinct (map fst (im_entries m))"
proof -
  have "set (im_entries m) = {(k, Some v) |k v. im_map m k = Some v} \<and> distinct (map fst (im_entries m))"
  proof (cases "im_slots m")
    case None
    then show ?thesis by (simp add: im_entries_def im_map_def)
  next
    case (Some sl)
    then have ok: "table_ok sl" using assms by (simp add: im_inv_def)
    then have u: "uniq sl" by (simp add: table_ok_def)
    let ?f = "filter (\<lambda>s. is_filled (slot_key s)) sl"
    have e: "im_entries m = map (\<lambda>s. (slot_key s, slot_storage s)) ?f" by (simp add: im_entries_def Some iterate_filter)
    have "(k, x) \<in> set (im_entries m) \<longleftrightarrow> (\<exists>v. x = Some v \<and> table_map sl k = Some v)" for k x
    proof -
      have "(k, x) \<in> set (im_entries m) \<longleftrightarrow> is_filled k \<and> (\<exists>i < length sl. slot_key (sl ! i) = k \<and> slot_storage (sl ! i) = x)"
        unfolding e by (auto simp: in_set_conv_nth)
      also have "\<dots> \<longleftrightarrow> (\<exists>v. x = Some v \<and> table_map sl k = Some v)"
        unfolding table_map_Some[OF u] using ok unfolding table_ok_def by (metis option.exhaust)
      finally show ?thesis .
    qed
    moreover have "distinct (map slot_key ?f)"
      using u
    proof (induction sl rule: rev_induct)
      case (snoc s sl)
      have "uniq sl" unfolding uniq_def
      proof (intro allI impI)
        fix i j
        assume "i < length sl" "j < length sl" "is_filled (slot_key (sl ! i))" "slot_key (sl ! i) = slot_key (sl ! j)"
        then show "i = j" using uniqD[OF snoc.prems, of i j] by (simp add: nth_append)
      qed
      moreover have "is_filled (slot_key s) \<Longrightarrow> slot_key s \<notin> slot_key ` set sl"
        using key_not_before[OF snoc.prems] by (auto simp: find_None_iff)
      ultimately show ?case using snoc.IH by auto
    qed simp
    moreover have "map fst (im_entries m) = map slot_key ?f" unfolding e by simp
    ultimately show ?thesis using Some by (auto simp: im_map_def)
  qed
  then show "set (im_entries m) = {(k, Some v) |k v. im_map m k = Some v}" "distinct (map fst (im_entries m))" by simp_all
qed

section \<open>Sequences of calls\<close>

datatype 'v map_call = Emplace int 'v | Erase int | Contains int

datatype 'v map_answer = Value 'v | Flag bool

fun call_key :: "'v map_call \<Rightarrow> int" where
  "call_key (Emplace k v) = k"
| "call_key (Erase k) = k"
| "call_key (Contains k) = k"

text \<open>The calls on a map from keys to values, and on an implementation.\<close>

fun spec_call :: "'v map_call \<Rightarrow> (int \<Rightarrow> 'v option) \<Rightarrow> 'v map_answer \<times> (int \<Rightarrow> 'v option)" where
  "spec_call (Emplace k v) f = (case f k of None \<Rightarrow> (Value v, f(k \<mapsto> v)) | Some w \<Rightarrow> (Value w, f))"
| "spec_call (Erase k) f = (Flag (f k \<noteq> None), f(k := None))"
| "spec_call (Contains k) f = (Flag (f k \<noteq> None), f)"

fun spec_calls :: "'v map_call list \<Rightarrow> (int \<Rightarrow> 'v option) \<Rightarrow> 'v map_answer list \<times> (int \<Rightarrow> 'v option)" where
  "spec_calls [] f = ([], f)"
| "spec_calls (c # cs) f = (let (a, f1) = spec_call c f; (as, f2) = spec_calls cs f1 in (a # as, f2))"

fun run_call ::
    "(int \<Rightarrow> 'v \<Rightarrow> 'm \<Rightarrow> ('v \<times> 'm) res) \<Rightarrow> (int \<Rightarrow> 'm \<Rightarrow> (bool \<times> 'm) res) \<Rightarrow> (int \<Rightarrow> 'm \<Rightarrow> bool res) \<Rightarrow>
      'v map_call \<Rightarrow> 'm \<Rightarrow> ('v map_answer \<times> 'm) res" where
  "run_call emplace erase contains (Emplace k v) m = bindE (emplace k v m) (\<lambda>(w, m1). Inr (Value w, m1))"
| "run_call emplace erase contains (Erase k) m = bindE (erase k m) (\<lambda>(b, m1). Inr (Flag b, m1))"
| "run_call emplace erase contains (Contains k) m = bindE (contains k m) (\<lambda>b. Inr (Flag b, m))"

fun run_calls ::
    "(int \<Rightarrow> 'v \<Rightarrow> 'm \<Rightarrow> ('v \<times> 'm) res) \<Rightarrow> (int \<Rightarrow> 'm \<Rightarrow> (bool \<times> 'm) res) \<Rightarrow> (int \<Rightarrow> 'm \<Rightarrow> bool res) \<Rightarrow>
      'v map_call list \<Rightarrow> 'm \<Rightarrow> ('v map_answer list \<times> 'm) res" where
  "run_calls emplace erase contains [] m = Inr ([], m)"
| "run_calls emplace erase contains (c # cs) m =
     bindE (run_call emplace erase contains c m) (\<lambda>(a, m1).
     bindE (run_calls emplace erase contains cs m1) (\<lambda>(as, m2). Inr (a # as, m2)))"

lemma spec_call_card: "card (dom (snd (spec_call c f))) \<le> card (dom f) + 1"
proof (cases c)
  case (Emplace k v)
  then show ?thesis by (cases "finite (dom f)") (auto simp: card_insert_if split: option.split)
next
  case (Erase k)
  then show ?thesis using card_Diff1_le[of "dom f" k] by simp
qed simp

locale int_map =
  fixes inv :: "'m \<Rightarrow> bool"
    and abs_map :: "'m \<Rightarrow> int \<Rightarrow> 'v option"
    and emplace :: "int \<Rightarrow> 'v \<Rightarrow> 'm \<Rightarrow> ('v \<times> 'm) res"
    and erase :: "int \<Rightarrow> 'm \<Rightarrow> (bool \<times> 'm) res"
    and contains :: "int \<Rightarrow> 'm \<Rightarrow> bool res"
    and room :: nat
  assumes emplace_law: "inv m \<Longrightarrow> is_filled k \<Longrightarrow> card (dom (abs_map m)) < room \<Longrightarrow>
      \<exists>m'. emplace k v m = Inr (case abs_map m k of None \<Rightarrow> v | Some w \<Rightarrow> w, m') \<and> inv m' \<and>
        abs_map m' = (case abs_map m k of None \<Rightarrow> (abs_map m)(k \<mapsto> v) | Some w \<Rightarrow> abs_map m)"
    and erase_law: "inv m \<Longrightarrow> is_filled k \<Longrightarrow> \<exists>m'. erase k m = Inr (abs_map m k \<noteq> None, m') \<and> inv m' \<and> abs_map m' = (abs_map m)(k := None)"
    and contains_law: "inv m \<Longrightarrow> is_filled k \<Longrightarrow> contains k m = Inr (abs_map m k \<noteq> None)"
begin

lemma call_refines:
  assumes "inv m" "is_filled (call_key c)" "card (dom (abs_map m)) < room"
  shows "\<exists>m'. run_call emplace erase contains c m = Inr (fst (spec_call c (abs_map m)), m') \<and> inv m' \<and>
    abs_map m' = snd (spec_call c (abs_map m))"
proof (cases c)
  case (Emplace k v)
  then show ?thesis using emplace_law[OF assms(1) _ assms(3), of k v] assms(2) by (auto split: option.split)
next
  case (Erase k)
  then show ?thesis using erase_law[OF assms(1), of k] assms(2) by auto
next
  case (Contains k)
  then show ?thesis using contains_law[OF assms(1), of k] assms(1,2) by auto
qed

lemma calls_refine:
  assumes "inv m" "\<forall>c \<in> set cs. is_filled (call_key c)" "card (dom (abs_map m)) + length cs \<le> room"
  shows "\<exists>m'. run_calls emplace erase contains cs m = Inr (fst (spec_calls cs (abs_map m)), m') \<and> inv m' \<and>
    abs_map m' = snd (spec_calls cs (abs_map m))"
  using assms
proof (induction cs arbitrary: m)
  case (Cons c cs)
  obtain m1 where m1: "run_call emplace erase contains c m = Inr (fst (spec_call c (abs_map m)), m1)" "inv m1"
    "abs_map m1 = snd (spec_call c (abs_map m))"
    using call_refines[of m c] Cons.prems by auto
  then have "card (dom (abs_map m1)) + length cs \<le> room" using spec_call_card[of c "abs_map m"] Cons.prems(3) by simp
  then obtain m2 where "run_calls emplace erase contains cs m1 = Inr (fst (spec_calls cs (abs_map m1)), m2)" "inv m2"
    "abs_map m2 = snd (spec_calls cs (abs_map m1))"
    using Cons.IH[of m1] m1(2) Cons.prems(2) by auto
  then show ?case using m1 by (auto simp: split_beta Let_def)
qed simp

end

interpretation i32: int_map im_inv im_map im_emplace im_erase im_contains 1610612736
proof
  fix m :: "'a int32_map" and k v
  assume "im_inv m" "is_filled k" "card (dom (im_map m)) < 1610612736"
  then show "\<exists>m'. im_emplace k v m = Inr (case im_map m k of None \<Rightarrow> v | Some w \<Rightarrow> w, m') \<and> im_inv m' \<and>
      im_map m' = (case im_map m k of None \<Rightarrow> (im_map m)(k \<mapsto> v) | Some w \<Rightarrow> im_map m)"
    using emplace_ok[of m k v] size_card[of m] by simp
qed (use erase_ok contains_ok in blast)+

end
