(* ===== verification/Rate_Limiter.thy ===== *)
theory Rate_Limiter
  imports Prelude
begin

text \<open>
  \<open>core/common/rate_limiter.{h,cpp}\<close>: the counter of concurrent requests, which also holds the sleep
  state. It is an atomic \<open>int32_t\<close>, a \<open>32 word\<close> here. \<open>is_limited\<close> loads it and adds to it in two
  atomic operations, so the step relation \<open>rl_step\<close> has one step for each of them.
\<close>

section \<open>Operations\<close>

definition kSleeping :: "32 word" where
  "kSleeping = word_of_int (- (2 ^ 31))"

text \<open>The load and the two tests of \<open>is_limited\<close>; \<open>max_requests\<close> is the flag, with 0 for no limit.\<close>

definition refuses :: "int \<Rightarrow> 32 word \<Rightarrow> bool" where
  "refuses max_requests c \<longleftrightarrow> c = kSleeping \<or> (max_requests > 0 \<and> sint c \<ge> max_requests)"

definition is_limited :: "int \<Rightarrow> 32 word \<Rightarrow> bool \<times> 32 word" where
  "is_limited max_requests c = (if refuses max_requests c then (True, c) else (False, c + 1))"

definition decrease_one_request :: "32 word \<Rightarrow> 32 word" where
  "decrease_one_request c = c - 1"

definition decrease_requests :: "nat \<Rightarrow> 32 word \<Rightarrow> 32 word" where
  "decrease_requests n c = c - of_nat n"

definition try_set_sleeping :: "32 word \<Rightarrow> bool \<times> 32 word" where
  "try_set_sleeping c = (if c = 0 then (True, kSleeping) else (False, c))"

definition try_wakeup :: "32 word \<Rightarrow> bool \<times> 32 word" where
  "try_wakeup c = (if c = kSleeping then (True, 0) else (False, c))"

definition is_sleeping :: "32 word \<Rightarrow> bool" where
  "is_sleeping c \<longleftrightarrow> c = kSleeping"

section \<open>Interleaved calls\<close>

text \<open>Where a client is: not in a call, past the tests of \<open>is_limited\<close>, or admitted.\<close>

datatype client = Outside | Passed | Admitted

record limiter =
  counter :: "32 word"
  client_at :: "nat \<Rightarrow> client"

definition limiter_init :: limiter where
  "limiter_init = \<lparr>counter = 0, client_at = (\<lambda>_. Outside)\<rparr>"

abbreviation admitted :: "limiter \<Rightarrow> nat set" where
  "admitted s \<equiv> {t. client_at s t = Admitted}"

text \<open>Clients are numbered below \<open>N\<close>.\<close>

inductive rl_step :: "nat \<Rightarrow> int \<Rightarrow> limiter \<Rightarrow> limiter \<Rightarrow> bool" for N :: nat and max_requests :: int where
  load: "t < N \<Longrightarrow> client_at s t = Outside \<Longrightarrow> \<not> refuses max_requests (counter s) \<Longrightarrow>
    rl_step N max_requests s (s\<lparr>client_at := (client_at s)(t := Passed)\<rparr>)"
| add: "client_at s t = Passed \<Longrightarrow>
    rl_step N max_requests s (s\<lparr>counter := counter s + 1, client_at := (client_at s)(t := Admitted)\<rparr>)"
| finish: "client_at s t = Admitted \<Longrightarrow>
    rl_step N max_requests s (s\<lparr>counter := decrease_one_request (counter s), client_at := (client_at s)(t := Outside)\<rparr>)"
| finish_many: "T \<subseteq> admitted s \<Longrightarrow>
    rl_step N max_requests s (s\<lparr>counter := decrease_requests (card T) (counter s), client_at := (\<lambda>t. if t \<in> T then Outside else client_at s t)\<rparr>)"
| sleep: "try_set_sleeping (counter s) = (True, c) \<Longrightarrow> rl_step N max_requests s (s\<lparr>counter := c\<rparr>)"
| wakeup: "try_wakeup (counter s) = (True, c) \<Longrightarrow> rl_step N max_requests s (s\<lparr>counter := c\<rparr>)"

abbreviation rl_reachable :: "nat \<Rightarrow> int \<Rightarrow> limiter \<Rightarrow> bool" where
  "rl_reachable N max_requests \<equiv> (rl_step N max_requests)\<^sup>*\<^sup>* limiter_init"

section \<open>Accounting\<close>

text \<open>The counter is the number of admitted clients, on top of the sleep value when it sleeps.\<close>

definition rl_inv :: "nat \<Rightarrow> limiter \<Rightarrow> bool" where
  "rl_inv N s \<longleftrightarrow> (\<forall>t. client_at s t \<noteq> Outside \<longrightarrow> t < N) \<and>
     (counter s = of_nat (card (admitted s)) \<or> counter s = kSleeping + of_nat (card (admitted s)))"

lemma admitted_bound:
  assumes "rl_inv N s"
  shows "finite (admitted s)" "card (admitted s) \<le> N"
proof -
  have "admitted s \<subseteq> {..<N}" using assms by (auto simp: rl_inv_def)
  then show "finite (admitted s)" "card (admitted s) \<le> N" using finite_subset card_mono[of "{..<N}"] by fastforce+
qed

lemma small_counter:
  assumes "n < 2 ^ 31"
  shows "(of_nat n :: 32 word) = kSleeping \<longleftrightarrow> False" "kSleeping + (of_nat n :: 32 word) = 0 \<longleftrightarrow> False"
    "kSleeping + of_nat n = kSleeping \<longleftrightarrow> n = 0" "(of_nat n :: 32 word) = 0 \<longleftrightarrow> n = 0"
proof -
  have u: "unat (of_nat m :: 32 word) = m" if "m < 2 ^ 32" for m using that by (simp add: unat_of_nat)
  have k: "unat kSleeping = 2 ^ 31" by (simp add: kSleeping_def)
  then have "kSleeping = (of_nat (2 ^ 31) :: 32 word)" using u[of "2 ^ 31"] by (simp add: unsigned_word_eqI word_unat_eq_iff)
  then have "kSleeping + (of_nat n :: 32 word) = of_nat (2 ^ 31 + n)" by simp
  then have "unat (kSleeping + (of_nat n :: 32 word)) = 2 ^ 31 + n" using u[of "2 ^ 31 + n"] assms by simp
  then show "kSleeping + (of_nat n :: 32 word) = 0 \<longleftrightarrow> False" by auto
  show "(of_nat n :: 32 word) = kSleeping \<longleftrightarrow> False" using u[of n] k assms by auto
  have "unat (of_nat n :: 32 word) = n" using u[of n] assms by simp
  then show "(of_nat n :: 32 word) = 0 \<longleftrightarrow> n = 0" by auto
  then show "kSleeping + of_nat n = kSleeping \<longleftrightarrow> n = 0" by simp
qed

lemma card_admit:
  assumes "finite (admitted s)" "client_at s t \<noteq> Admitted"
  shows "card (admitted (s\<lparr>client_at := (client_at s)(t := Admitted)\<rparr>)) = card (admitted s) + 1"
proof -
  have "admitted (s\<lparr>client_at := (client_at s)(t := Admitted)\<rparr>) = insert t (admitted s)" by auto
  then show ?thesis using assms by simp
qed

lemma card_release:
  assumes "finite (admitted s)" "T \<subseteq> admitted s"
  shows "card (admitted s) = card {t. t \<notin> T \<and> client_at s t = Admitted} + card T"
proof -
  have "{t. t \<notin> T \<and> client_at s t = Admitted} = admitted s - T" by auto
  then show ?thesis using assms card_Diff_subset[of T "admitted s"] card_mono[OF assms] finite_subset[OF assms(2,1)] by simp
qed

lemma rl_inv_init: "rl_inv N limiter_init"
  by (simp add: rl_inv_def limiter_init_def)

lemma rl_inv_step:
  assumes "rl_step N max_requests s s'" "rl_inv N s" "N < 2 ^ 31"
  shows "rl_inv N s'"
proof -
  note fin = admitted_bound[OF assms(2)]
  have n: "card (admitted s) < 2 ^ 31" using fin(2) assms(3) by simp
  show ?thesis
    using assms(1)
  proof (cases rule: rl_step.cases)
    case (load t)
    then have "admitted s' = admitted s" by auto
    then show ?thesis using load assms(2) by (auto simp: rl_inv_def)
  next
    case (add t)
    then show ?thesis using card_admit[OF fin(1), of t] assms(2) by (auto simp: rl_inv_def)
  next
    case (finish t)
    have "card (admitted s) = card {u. u \<notin> {t} \<and> client_at s u = Admitted} + 1"
      using card_release[OF fin(1), of "{t}"] finish(2) by simp
    moreover have "admitted s' = {u. u \<notin> {t} \<and> client_at s u = Admitted}" using finish by auto
    ultimately show ?thesis using finish assms(2) by (auto simp: rl_inv_def decrease_one_request_def)
  next
    case (finish_many T)
    have "admitted s' = {t. t \<notin> T \<and> client_at s t = Admitted}" using finish_many by auto
    then show ?thesis using finish_many card_release[OF fin(1) finish_many(2)] assms(2) by (auto simp: rl_inv_def decrease_requests_def)
  next
    case (sleep c)
    then have "counter s = 0" "c = kSleeping" by (auto simp: try_set_sleeping_def split: if_splits)
    then show ?thesis using sleep(1) assms(2) small_counter[OF n] by (auto simp: rl_inv_def)
  next
    case (wakeup c)
    then have "counter s = kSleeping" "c = 0" by (auto simp: try_wakeup_def split: if_splits)
    then show ?thesis using wakeup(1) assms(2) small_counter[OF n] by (auto simp: rl_inv_def)
  qed
qed

lemma rl_reachable_inv: "rl_reachable N max_requests s \<Longrightarrow> N < 2 ^ 31 \<Longrightarrow> rl_inv N s"
  by (induction rule: rtranclp_induct) (auto intro: rl_inv_init rl_inv_step)

end
