(* ===== verification/Util_Properties.thy ===== *)
theory Util_Properties
  imports Scheduler_Properties Batches_Correct Int32_Map_Correct Rate_Limiter
begin

text \<open>The properties of the batches, of the hash map and of the rate limiter.\<close>

section \<open>Batches\<close>

text \<open>A store in which every request has one sequence, before and after its prompt is computed.\<close>

definition demo_store :: "sequence \<Rightarrow> seq_store" where
  "demo_store s = \<lparr>st_reqs = (\<lambda>_. demo_req\<lparr>rq_sequences := [s]\<rparr>), st_queue = (\<lambda>_. []), st_slots = (\<lambda>_. [])\<rparr>"

lemma demo_store_seq: "seq_of (demo_store s) (r, 0) = s" "valid_ref (demo_store s) (r, 0)"
  by (simp_all add: demo_store_def seq_of_def valid_ref_def)

text \<open>C30: \<open>create_batches\<close> gives every running sequence, with its token budget, to the batch of its rank
  and to no other, in the order of the running sequences; the forward type of a batch is that of
  the set of the stages of its sequences, whatever their order.\<close>

theorem create_batches_dispatch:
  assumes "\<forall>x \<in> set (zip refs budgets). dispatchable dp st x" "distinct refs" "length budgets = length refs"
    and "\<forall>r \<in> set rs. \<not> beam_width (rq_params (st_reqs st r)) > 1"
  shows "\<exists>Bs st'. create_batches dp rs refs budgets st = Inr (Bs, st') \<and> length Bs = dp \<and>
    (\<forall>d < dp. zip (bt_sequences (Bs ! d)) (allowed_max_tokens (Bs ! d)) = filter (\<lambda>x. rank_of st x = d) (zip refs budgets) \<and>
      batch_forward_type (Bs ! d) =
        forward_type_spec ((\<lambda>x. stage (seq_of st (fst x))) ` set (filter (\<lambda>x. rank_of st x = d) (zip refs budgets))))"
  by (rule create_batches_ok[OF assms])

theorem create_batches_dispatch_witness:
  "\<exists>Bs st'. create_batches 1 [0, 1] [(0, 0), (1, 0)] [2, 3] (demo_store fresh_seq) = Inr (Bs, st') \<and> length Bs = 1 \<and>
    zip (bt_sequences (Bs ! 0)) (allowed_max_tokens (Bs ! 0)) = [((0, 0), 2), ((1, 0), 3)] \<and> batch_forward_type (Bs ! 0) = F_PREFILL"
proof -
  have d: "dispatchable 1 (demo_store fresh_seq) ((r, 0), n)" if "0 < n" "n < 2 ^ 32" for r n
    using that fresh_seq_ok(2) fresh_seq_unfinished by (simp add: dispatchable_def demo_store_seq)
  have s: "stage fresh_seq = PREFILL" by (simp add: stage_def fresh_seq_def demo_seq_def seq_new_def seq_blank_def demo_params_def kv_state_new_def)
  have "\<forall>x \<in> set (zip [(0, 0), (1, 0)] [2, 3]). dispatchable 1 (demo_store fresh_seq) x" using d by simp
  moreover have "\<forall>r \<in> set [0, 1]. \<not> beam_width (rq_params (st_reqs (demo_store fresh_seq) r)) > 1"
    by (simp add: demo_store_def demo_req_def demo_params_def)
  ultimately show ?thesis
    using create_batches_dispatch[of "[(0, 0), (1, 0)]" "[2, 3]" 1 "demo_store fresh_seq" "[0, 1]"] fresh_seq_ok(2) s
    by (auto simp: demo_store_seq forward_type_spec_def)
qed

text \<open>C31: \<open>cal_seq_exchange_index\<close> never leaves its table of cores and gives a permutation of the
  sequences of the batch, for whatever permutations \<open>std::nth_element\<close> and \<open>std::sort\<close> make.\<close>

theorem exchange_index_permutation:
  assumes "\<And>xs. mset (nth_element xs) = mset xs" "\<And>xs. mset (sort_desc xs) = mset xs"
  shows "\<exists>m. cal_seq_exchange_index nth_element sort_desc n = Inr m \<and> dom m = {..<n} \<and> bij_betw (\<lambda>i. the (m i)) {..<n} {..<n}"
  by (rule exchange_index_ok[OF assms])

theorem exchange_index_permutation_witness:
  "\<exists>m. cal_seq_exchange_index rev rev 50 = Inr m \<and> dom m = {..<50} \<and> bij_betw (\<lambda>i. the (m i)) {..<50} {..<50}"
  by (rule exchange_index_permutation) simp_all


definition decode_batch :: batch where
  "decode_batch = batch_new\<lparr>bt_sequences := [(0, 0)], output_targets := [\<lparr>ot_sequence = (0, 0), ot_sample_id = 0, from_sample_slot = False\<rparr>]\<rparr>"

definition spec_tokens :: "raw_token list list" where
  "spec_tokens = [[\<lparr>rt_id = 4, rt_has_embeddings = False\<rparr>, \<lparr>rt_id = 9, rt_has_embeddings = False\<rparr>, \<lparr>rt_id = 3, rt_has_embeddings = False\<rparr>]]"


section \<open>The hash map\<close>

text \<open>C33: any sequence of \<open>emplace\<close>, \<open>erase\<close> and \<open>contains\<close> calls with admissible keys on a new \<open>Int32Map\<close>
  returns, call by call, what the same calls on a finite map return; the map then holds the
  same entries, \<open>size\<close> is their number, and iterating yields each of them once.\<close>

theorem int32_map_refines:
  assumes "\<forall>c \<in> set cs. is_filled (call_key c)" "length cs \<le> 1610612736"
  shows "\<exists>m'. run_calls im_emplace im_erase im_contains cs im_new = Inr (fst (spec_calls cs Map.empty), m') \<and>
    im_map m' = snd (spec_calls cs Map.empty) \<and> im_size m' = card (dom (im_map m')) \<and>
    set (im_entries m') = {(k, Some v) |k v. im_map m' k = Some v} \<and> distinct (map fst (im_entries m'))"
proof -
  obtain m' where "run_calls im_emplace im_erase im_contains cs im_new = Inr (fst (spec_calls cs Map.empty), m')" "im_inv m'"
    "im_map m' = snd (spec_calls cs Map.empty)"
    using i32.calls_refine[OF im_new_ok(1) assms(1)] assms(2) unfolding im_new_ok(2) by auto
  then show ?thesis using size_card[of m'] entries_ok[of m'] by blast
qed

theorem int32_map_refines_witness:
  "\<exists>m'. run_calls im_emplace im_erase im_contains [Emplace 5 True, Emplace (-7) False, Emplace 5 False, Erase 9, Erase (-7), Contains 5] im_new =
      Inr ([Value True, Value False, Value True, Flag False, Flag True, Flag True], m') \<and> im_map m' = [5 \<mapsto> True] \<and> im_size m' = 1"
proof -
  let ?cs = "[Emplace 5 True, Emplace (-7) False, Emplace 5 False, Erase 9, Erase (-7), Contains 5]"
  have s: "spec_calls ?cs Map.empty = ([Value True, Value False, Value True, Flag False, Flag True, Flag True], [5 \<mapsto> True])"
    by (auto simp: fun_eq_iff)
  have "\<forall>c \<in> set ?cs. is_filled (call_key c)" by (simp add: is_filled_def KEY_EMPTY_def KEY_TOMBSTONE_def)
  then obtain m' where "run_calls im_emplace im_erase im_contains ?cs im_new = Inr (fst (spec_calls ?cs Map.empty), m')"
    "im_map m' = snd (spec_calls ?cs Map.empty)" "im_size m' = card (dom (im_map m'))"
    using int32_map_refines[of ?cs] by fastforce
  then show ?thesis unfolding s by (intro exI[of _ m'] conjI) simp_all
qed

section \<open>The rate limiter\<close>

text \<open>C34: for fewer than \<open>2^31\<close> clients, in every reachable state of interleaved calls the counter of
  the rate limiter is the number of admitted requests, or that number on top of the sleep value;
  so it sleeps only when no request is admitted.\<close>

theorem rate_counter_accounts:
  assumes "rl_reachable N max_requests s" "N < 2 ^ 31"
  shows "(counter s = of_nat (card (admitted s)) \<or> counter s = kSleeping + of_nat (card (admitted s))) \<and>
    card (admitted s) \<le> N \<and> (is_sleeping (counter s) \<longrightarrow> admitted s = {})"
proof -
  note inv = rl_reachable_inv[OF assms]
  note b = admitted_bound[OF inv]
  have n: "card (admitted s) < 2 ^ 31" using b(2) assms(2) by simp
  have c: "counter s = of_nat (card (admitted s)) \<or> counter s = kSleeping + of_nat (card (admitted s))" using inv by (simp add: rl_inv_def)
  moreover have "admitted s = {}" if "is_sleeping (counter s)"
  proof -
    have "card (admitted s) = 0" using c that small_counter[OF n] unfolding is_sleeping_def by auto
    then show ?thesis using b(1) by simp
  qed
  ultimately show ?thesis using b(2) by blast
qed

text \<open>Client 0 passes the tests, the limiter goes to sleep, and the client adds itself.\<close>

definition race_state :: limiter where
  "race_state = \<lparr>counter = kSleeping + 1, client_at = (\<lambda>_. Outside)(0 := Admitted)\<rparr>"

lemma race_state_reachable: "max_requests \<ge> 0 \<Longrightarrow> 0 < N \<Longrightarrow> rl_reachable N max_requests race_state"
proof -
  assume m: "max_requests \<ge> 0" and N: "0 < N"
  let ?p = "(\<lambda>_. Outside)(0 := Passed) :: nat \<Rightarrow> client"
  have "\<not> refuses max_requests (counter limiter_init)" using m by (auto simp: refuses_def limiter_init_def kSleeping_def)
  then have "rl_step N max_requests limiter_init \<lparr>counter = 0, client_at = ?p\<rparr>"
    using rl_step.load[of 0 N limiter_init max_requests] N by (simp add: limiter_init_def)
  moreover have "rl_step N max_requests \<lparr>counter = 0, client_at = ?p\<rparr> \<lparr>counter = kSleeping, client_at = ?p\<rparr>"
    using rl_step.sleep[of "\<lparr>counter = 0, client_at = ?p\<rparr>" kSleeping N max_requests] by (simp add: try_set_sleeping_def)
  moreover have "rl_step N max_requests \<lparr>counter = kSleeping, client_at = ?p\<rparr> race_state"
    using rl_step.add[of "\<lparr>counter = kSleeping, client_at = ?p\<rparr>" 0 N max_requests] by (simp add: race_state_def)
  ultimately show ?thesis by (meson converse_rtranclp_into_rtranclp rtranclp.rtrancl_refl)
qed

theorem rate_counter_accounts_witness:
  "card (admitted race_state) \<le> 1 \<and> (counter race_state = of_nat (card (admitted race_state)) \<or>
    counter race_state = kSleeping + of_nat (card (admitted race_state)))"
  using rate_counter_accounts[OF race_state_reachable, of 0 1] by auto

text \<open>The test and the increment of \<open>is_limited\<close> are two atomic operations. Between them the
  limiter can be put to sleep, and then: a request is admitted after the sleep, \<open>is_sleeping\<close> no
  longer holds, the next request is not refused, and \<open>try_wakeup\<close> fails.\<close>

theorem rate_sleep_race:
  assumes "max_requests \<ge> 0" "0 < N"
  shows "\<exists>s. rl_reachable N max_requests s \<and> admitted s \<noteq> {} \<and> counter s = kSleeping + 1 \<and> \<not> is_sleeping (counter s) \<and>
    \<not> fst (is_limited max_requests (counter s)) \<and> \<not> fst (try_wakeup (counter s))"
proof -
  have k: "kSleeping + 1 \<noteq> kSleeping" "sint (kSleeping + 1) < 0" by (simp_all add: kSleeping_def)
  then have "\<not> refuses max_requests (kSleeping + 1)" using assms(1) by (simp add: refuses_def)
  then show ?thesis
    using race_state_reachable[OF assms] k(1)
    by (intro exI[of _ race_state]) (auto simp: race_state_def is_sleeping_def is_limited_def try_wakeup_def)
qed

theorem rate_sleep_race_witness:
  "\<exists>s. rl_reachable 2 5 s \<and> admitted s \<noteq> {} \<and> counter s = kSleeping + 1 \<and> \<not> is_sleeping (counter s) \<and>
    \<not> fst (is_limited 5 (counter s)) \<and> \<not> fst (try_wakeup (counter s))"
  by (rule rate_sleep_race) simp_all

end
