(* ===== verification/Reasoning_Parser.thy ===== *)
theory Reasoning_Parser
  imports Prelude "HOL-Library.Sublist"
begin

text \<open>
  \<open>parser/reasoning_detector.{h,cpp}\<close>, \<open>detector_registry.cpp\<close>, \<open>reasoning_parser.cpp\<close>: text of a model is
  split into reasoning and answer at a start and an end tag, at once or chunk by chunk. A
  character is a byte. The string functions of Abseil are parameters (\<open>absl\<close>); \<open>absl_ok\<close> is what
  their documentation says of those the theorems use.
\<close>

section \<open>Abseil\<close>

record absl =
  StrContains :: "string \<Rightarrow> string \<Rightarrow> bool"
  StartsWith :: "string \<Rightarrow> string \<Rightarrow> bool"
  StrReplaceAll :: "string \<Rightarrow> (string \<times> string) list \<Rightarrow> string"
  StrReplaceAll_target :: "(string \<times> string) list \<Rightarrow> string \<Rightarrow> int \<times> string"    \<comment> \<open>the count, and the target\<close>
  StripAsciiWhitespace :: "string \<Rightarrow> string"
  StrSplit_once :: "string \<Rightarrow> string \<Rightarrow> string list"    \<comment> \<open>with \<open>MaxSplits(delimiter, 1)\<close>\<close>

text \<open>The first occurrence of a delimiter.\<close>

definition first_split :: "string \<Rightarrow> string \<Rightarrow> string \<Rightarrow> string \<Rightarrow> bool" where
  "first_split t s p q \<longleftrightarrow> s = p @ t @ q \<and> \<not> sublist t (p @ butlast t)"

definition absl_ok :: "absl \<Rightarrow> bool" where
  "absl_ok A \<longleftrightarrow>
     (\<forall>s t. StrContains A s t \<longleftrightarrow> sublist t s) \<and> (\<forall>s p. StartsWith A s p \<longleftrightarrow> prefix p s) \<and>
     (\<forall>s t p q. first_split t s p q \<longrightarrow> StrSplit_once A s t = [p, q])"

section \<open>ReasoningDetector\<close>

record reasoning_result =
  normal_text :: "string option"
  reasoning_text :: "string option"

record reasoning_detector =
  think_start_token :: string
  think_end_token :: string
  in_reasoning :: bool
  stream_reasoning :: bool
  rd_buffer :: string
  stripped_think_start :: bool

definition detector_new :: "string \<Rightarrow> string \<Rightarrow> bool \<Rightarrow> bool \<Rightarrow> reasoning_detector" where
  "detector_new start_tag end_tag force_reasoning stream =
     \<lparr>think_start_token = start_tag, think_end_token = end_tag, in_reasoning = force_reasoning, stream_reasoning = stream,
      rd_buffer = [], stripped_think_start = False\<rparr>"

definition no_text :: reasoning_result where
  "no_text = \<lparr>normal_text = None, reasoning_text = None\<rparr>"

text \<open>The two parts around the end tag; the second is trimmed.\<close>

definition split_result :: "absl \<Rightarrow> string \<Rightarrow> string \<Rightarrow> reasoning_result res" where
  "split_result A text tag =
     (let parts = StrSplit_once A text tag in
      bindE (nth_res parts 0) (\<lambda>r.
        Inr \<lparr>normal_text = Some (if length parts > 1 then StripAsciiWhitespace A (parts ! 1) else []), reasoning_text = Some r\<rparr>))"

definition detect_and_parse :: "absl \<Rightarrow> string \<Rightarrow> reasoning_detector \<Rightarrow> reasoning_result res" where
  "detect_and_parse A text D =
     (if \<not> (in_reasoning D \<or> StrContains A text (think_start_token D))
      then Inr \<lparr>normal_text = Some text, reasoning_text = None\<rparr>
      else let processed_text = StripAsciiWhitespace A (StrReplaceAll A text [(think_start_token D, [])]) in
        if \<not> StrContains A processed_text (think_end_token D)
        then Inr \<lparr>normal_text = None, reasoning_text = Some processed_text\<rparr>
        else split_result A processed_text (think_end_token D))"

text \<open>
  \<open>StrReplaceAll\<close> with a target returns the number of replacements; assigned to the string it
  becomes its only character.
\<close>

definition strip_start :: "absl \<Rightarrow> string \<Rightarrow> reasoning_detector \<Rightarrow> string \<times> reasoning_detector" where
  "strip_start A current_text D =
     (if \<not> stripped_think_start D \<and> StrContains A current_text (think_start_token D)
      then ([char_of (fst (StrReplaceAll_target A [(think_start_token D, [])] current_text))],
            D\<lparr>stripped_think_start := True, in_reasoning := True\<rparr>)
      else (current_text, D))"

definition is_partial_tag :: "absl \<Rightarrow> string \<Rightarrow> string \<Rightarrow> bool" where
  "is_partial_tag A tag text \<longleftrightarrow> StartsWith A tag text \<and> tag \<noteq> text"

definition parse_streaming_increment :: "absl \<Rightarrow> string \<Rightarrow> reasoning_detector \<Rightarrow> (reasoning_result \<times> reasoning_detector) res" where
  "parse_streaming_increment A new_text D0 =
     (let D1 = D0\<lparr>rd_buffer := rd_buffer D0 @ new_text\<rparr> in
      if is_partial_tag A (think_start_token D1) (rd_buffer D1) \<or> is_partial_tag A (think_end_token D1) (rd_buffer D1)
      then Inr (no_text, D1)
      else let (current_text, D) = strip_start A (rd_buffer D1) D1 in
        if in_reasoning D \<and> StrContains A current_text (think_end_token D)
        then bindE (split_result A current_text (think_end_token D)) (\<lambda>r.
               Inr (r, D\<lparr>rd_buffer := [], in_reasoning := False\<rparr>))
        else if in_reasoning D
        then if stream_reasoning D
             then Inr (\<lparr>normal_text = None, reasoning_text = Some current_text\<rparr>, D\<lparr>rd_buffer := []\<rparr>)
             else Inr (no_text, D)
        else Inr (\<lparr>normal_text = Some current_text, reasoning_text = None\<rparr>, D\<lparr>rd_buffer := []\<rparr>))"

section \<open>Registry and parser\<close>

definition auto_paser_map :: "(string \<times> string) list" where
  "auto_paser_map =
     [(''glm4_moe'', ''glm45''), (''deepseek_v32'', ''deepseekv32''), (''kimi_k2'', ''kimi''), (''step3'', ''step3'')]"

definition kimi_tag :: "string \<Rightarrow> string" where
  "kimi_tag name = [CHR 0xE2, CHR 0x97, CHR 0x81] @ name @ [CHR 0xE2, CHR 0x96, CHR 0xB7]"

text \<open>Start tag, end tag, and the default of \<open>force_reasoning\<close> where the registration has one.\<close>

definition paser_factories :: "(string \<times> string \<times> string \<times> bool option) list" where
  "paser_factories =
     [(''deepseek-r1'', ''<think>'', ''</think>'', Some True), (''deepseek-v3'', ''<think>'', ''</think>'', None),
      (''glm45'', ''<think>'', ''</think>'', None), (''glm47'', ''<think>'', ''</think>'', None),
      (''glm5'', ''<think>'', ''</think>'', None), (''kimi'', kimi_tag ''think'', kimi_tag ''/think'', Some False),
      (''qwen3'', ''<think>'', ''</think>'', None), (''qwen35'', ''<think>'', ''</think>'', None),
      (''qwen3-thinking'', ''<think>'', ''</think>'', Some True), (''qwen35-thinking'', ''<think>'', ''</think>'', Some True),
      (''step3'', ''<think>'', ''</think>'', None)]"

definition get_detector :: "string \<Rightarrow> bool \<Rightarrow> bool \<Rightarrow> reasoning_detector res" where
  "get_detector model_type stream force =
     (case map_of paser_factories model_type of
        None \<Rightarrow> Inl Fatal
      | Some (start_tag, end_tag, default_force) \<Rightarrow>
          Inr (detector_new start_tag end_tag (case default_force of None \<Rightarrow> force | Some b \<Rightarrow> b) stream))"

definition has_detector :: "string \<Rightarrow> bool" where
  "has_detector parser_name \<longleftrightarrow> map_of paser_factories parser_name \<noteq> None"

definition get_parser_name_by_model_type :: "string \<Rightarrow> string res" where
  "get_parser_name_by_model_type model_type =
     (case map_of auto_paser_map model_type of None \<Rightarrow> Inl Fatal | Some p \<Rightarrow> Inr p)"

definition get_parser_auto :: "string \<Rightarrow> string \<Rightarrow> string res" where
  "get_parser_auto parser model_type =
     (if parser = [] then Inr []
      else if parser = ''auto'' then get_parser_name_by_model_type model_type
      else if has_detector parser then Inr parser else Inl Fatal)"

text \<open>A stream of chunks, with the text of both kinds put together.\<close>

fun parse_stream :: "absl \<Rightarrow> string list \<Rightarrow> reasoning_detector \<Rightarrow> (string \<times> string \<times> reasoning_detector) res" where
  "parse_stream A [] D = Inr ([], [], D)"
| "parse_stream A (c # cs) D =
     bindE (parse_streaming_increment A c D) (\<lambda>(r, D1).
     bindE (parse_stream A cs D1) (\<lambda>(normal, reasoning, D2).
       Inr ((case normal_text r of None \<Rightarrow> [] | Some s \<Rightarrow> s) @ normal,
            (case reasoning_text r of None \<Rightarrow> [] | Some s \<Rightarrow> s) @ reasoning, D2)))"

section \<open>Splitting\<close>

lemma first_split_exists:
  assumes "sublist t s" "t \<noteq> []"
  shows "\<exists>p q. first_split t s p q"
proof -
  define P where "P n \<longleftrightarrow> (\<exists>p q. s = p @ t @ q \<and> length p = n)" for n
  obtain n where "P n" using assms(1) by (auto simp: sublist_def P_def)
  then have l: "P (LEAST n. P n)" by (rule LeastI)
  then obtain p q where pq: "s = p @ t @ q" "length p = (LEAST n. P n)" unfolding P_def by blast
  have "\<not> sublist t (p @ butlast t)"
  proof
    assume "sublist t (p @ butlast t)"
    then obtain u v where uv: "p @ butlast t = u @ t @ v" by (auto simp: sublist_def)
    have "length u + length t + length v = length p + (length t - 1)" using arg_cong[OF uv, of length] by simp
    then have less: "length u < length p" using assms(2) by (cases t) auto
    have "s = (p @ butlast t) @ [last t] @ q" using pq(1) assms(2) by (metis append.assoc append_butlast_last_id)
    then have "P (length u)" unfolding P_def uv by (intro exI[of _ u] exI[of _ "v @ [last t] @ q"]) simp
    then show False using less pq(2) Least_le[of P "length u"] by simp
  qed
  then show ?thesis using pq(1) by (auto simp: first_split_def)
qed

lemma first_split_le:
  assumes "first_split t s p q" "s @ r = p' @ t @ q'" "t \<noteq> []"
  shows "length p \<le> length p'"
proof (rule ccontr)
  assume "\<not> length p \<le> length p'"
  then have less: "length p' < length p" by simp
  have e: "p @ t @ q @ r = p' @ t @ q'" using assms(1,2) by (simp add: first_split_def)
  have "take (length p' + length t) (p @ t @ q @ r) = p' @ t" unfolding e by simp
  moreover have "length p' + length t \<le> length (p @ butlast t)" using less assms(3) by (cases t) auto
  moreover have "p @ t @ q @ r = (p @ butlast t) @ last t # q @ r" using assms(3) by simp
  ultimately have "take (length p' + length t) (p @ butlast t) = p' @ t" by (metis take_append diff_is_0_eq' take0 append_Nil2)
  then have "p @ butlast t = (p' @ t) @ drop (length p' + length t) (p @ butlast t)" by (metis append_take_drop_id)
  then have "sublist t (p @ butlast t)" by (metis append.assoc sublist_appendI)
  then show False using assms(1) by (simp add: first_split_def)
qed

lemma first_split_unique:
  assumes "first_split t s p q" "first_split t (s @ r) p' q'" "t \<noteq> []"
  shows "p = p'" "q' = q @ r"
proof -
  have e: "p @ t @ q @ r = p' @ t @ q'" using assms(1,2) by (simp add: first_split_def)
  have "length p \<le> length p'" using first_split_le[OF assms(1) _ assms(3), of r p' q'] assms(2) by (simp add: first_split_def)
  moreover have "length p' \<le> length p"
    using first_split_le[OF assms(2) _ assms(3), of "[]" p "q @ r"] e assms(1) by (simp add: first_split_def)
  ultimately have "length p = length p'" by simp
  then show "p = p'" "q' = q @ r" using e by (auto simp: append_eq_append_conv)
qed

section \<open>Streams\<close>

lemma abslD:
  assumes "absl_ok A"
  shows "StrContains A s t \<longleftrightarrow> sublist t s" "StartsWith A s p \<longleftrightarrow> prefix p s" "first_split t s u v \<Longrightarrow> StrSplit_once A s t = [u, v]"
  using assms by (auto simp: absl_ok_def)

lemma split_result_first:
  assumes "absl_ok A" "first_split t s p q"
  shows "split_result A s t = Inr \<lparr>normal_text = Some (StripAsciiWhitespace A q), reasoning_text = Some p\<rparr>"
  using abslD(3)[OF assms] by (simp add: split_result_def)

text \<open>A chunk that leaves the buffered text without a start tag.\<close>

lemma increment_cases:
  assumes "absl_ok A" "\<not> sublist (think_start_token D) (rd_buffer D @ c)"
  shows "parse_streaming_increment A c D =
    (let text = rd_buffer D @ c in
     if is_partial_tag A (think_start_token D) text \<or> is_partial_tag A (think_end_token D) text then Inr (no_text, D\<lparr>rd_buffer := text\<rparr>)
     else if in_reasoning D \<and> sublist (think_end_token D) text
     then bindE (split_result A text (think_end_token D)) (\<lambda>r. Inr (r, D\<lparr>rd_buffer := [], in_reasoning := False\<rparr>))
     else if in_reasoning D
     then if stream_reasoning D then Inr (\<lparr>normal_text = None, reasoning_text = Some text\<rparr>, D\<lparr>rd_buffer := []\<rparr>)
          else Inr (no_text, D\<lparr>rd_buffer := text\<rparr>)
     else Inr (\<lparr>normal_text = Some text, reasoning_text = None\<rparr>, D\<lparr>rd_buffer := []\<rparr>))"
  using assms by (simp add: parse_streaming_increment_def strip_start_def Let_def abslD(1))

lemma sublist_front: "sublist t xs \<Longrightarrow> sublist t (xs @ ys)"
  by (metis append.assoc sublist_def)

lemma sublist_back: "sublist t ys \<Longrightarrow> sublist t (xs @ ys)"
  by (metis append.assoc sublist_def)

text \<open>Outside reasoning all text is passed on.\<close>

lemma normal_stream:
  assumes "absl_ok A" "\<not> in_reasoning D" "\<not> sublist (think_start_token D) (rd_buffer D @ concat cs)"
  shows "\<exists>normal D'. parse_stream A cs D = Inr (normal, [], D') \<and> normal @ rd_buffer D' = rd_buffer D @ concat cs"
  using assms(2,3)
proof (induction cs arbitrary: D)
  case Nil
  then show ?case by simp
next
  case (Cons c cs)
  have no: "\<not> sublist (think_start_token D) (rd_buffer D @ c)" using Cons.prems(2) sublist_front[of _ "rd_buffer D @ c" "concat cs"] by auto
  show ?case
  proof (cases "is_partial_tag A (think_start_token D) (rd_buffer D @ c) \<or> is_partial_tag A (think_end_token D) (rd_buffer D @ c)")
    case True
    then have "parse_streaming_increment A c D = Inr (no_text, D\<lparr>rd_buffer := rd_buffer D @ c\<rparr>)"
      using increment_cases[OF assms(1) no] by (simp add: Let_def)
    moreover have "\<exists>normal D'. parse_stream A cs (D\<lparr>rd_buffer := rd_buffer D @ c\<rparr>) = Inr (normal, [], D') \<and>
        normal @ rd_buffer D' = (rd_buffer D @ c) @ concat cs"
      using Cons.IH[of "D\<lparr>rd_buffer := rd_buffer D @ c\<rparr>"] Cons.prems by simp
    ultimately show ?thesis by (auto simp: no_text_def)
  next
    case False
    then have "parse_streaming_increment A c D = Inr (\<lparr>normal_text = Some (rd_buffer D @ c), reasoning_text = None\<rparr>, D\<lparr>rd_buffer := []\<rparr>)"
      using increment_cases[OF assms(1) no] Cons.prems(1) by (simp add: Let_def)
    moreover have "\<exists>normal D'. parse_stream A cs (D\<lparr>rd_buffer := []\<rparr>) = Inr (normal, [], D') \<and> normal @ rd_buffer D' = concat cs"
      using Cons.IH[of "D\<lparr>rd_buffer := []\<rparr>"] Cons.prems sublist_back[of _ "concat cs" "rd_buffer D @ c"] by auto
    ultimately show ?thesis by auto
  qed
qed

text \<open>Reasoning that is not streamed is collected up to the end tag.\<close>

lemma collected_stream:
  assumes "absl_ok A" "in_reasoning D" "\<not> stream_reasoning D" "\<not> sublist (think_start_token D) (rd_buffer D @ concat cs)"
    and "think_end_token D \<noteq> []" "\<not> sublist (think_end_token D) (think_start_token D)"
    and "first_split (think_end_token D) (rd_buffer D @ concat cs) R N" "\<not> sublist (think_end_token D) (rd_buffer D)"
  shows "\<exists>normal D' N0 N1. parse_stream A cs D = Inr (normal, R, D') \<and> N = N0 @ N1 \<and>
    normal @ rd_buffer D' = StripAsciiWhitespace A N0 @ N1"
  using assms(2-8)
proof (induction cs arbitrary: D)
  case Nil
  then show ?case by (simp add: first_split_def sublist_appendI)
next
  case (Cons c cs)
  let ?t = "rd_buffer D @ c" and ?e = "think_end_token D"
  have no: "\<not> sublist (think_start_token D) ?t" using Cons.prems(3) sublist_front[of _ ?t "concat cs"] by auto
  show ?case
  proof (cases "sublist ?e ?t")
    case False
    then have "parse_streaming_increment A c D = Inr (no_text, D\<lparr>rd_buffer := ?t\<rparr>)"
      using increment_cases[OF assms(1) no] Cons.prems(1,2) by (simp add: Let_def)
    moreover have "\<exists>normal D' N0 N1. parse_stream A cs (D\<lparr>rd_buffer := ?t\<rparr>) = Inr (normal, R, D') \<and> N = N0 @ N1 \<and>
        normal @ rd_buffer D' = StripAsciiWhitespace A N0 @ N1"
      using Cons.IH[of "D\<lparr>rd_buffer := ?t\<rparr>"] Cons.prems False by simp
    ultimately show ?thesis by (auto simp: no_text_def)
  next
    case True
    obtain p q where pq: "first_split ?e ?t p q" using first_split_exists[OF True Cons.prems(4)] by blast
    have eq: "p = R" "N = q @ concat cs"
      using first_split_unique[OF pq _ Cons.prems(4), of "concat cs" R N] Cons.prems(6) by simp_all
    have "\<not> is_partial_tag A (think_start_token D) ?t" "\<not> is_partial_tag A ?e ?t"
    proof -
      show "\<not> is_partial_tag A (think_start_token D) ?t"
        using True Cons.prems(5) abslD(2)[OF assms(1)] by (auto simp: is_partial_tag_def prefix_def dest: sublist_front)
      show "\<not> is_partial_tag A ?e ?t"
        using True sublist_length_le[OF True] abslD(2)[OF assms(1)] by (auto simp: is_partial_tag_def prefix_def)
    qed
    then have "parse_streaming_increment A c D =
        Inr (\<lparr>normal_text = Some (StripAsciiWhitespace A q), reasoning_text = Some p\<rparr>, D\<lparr>rd_buffer := [], in_reasoning := False\<rparr>)"
      using increment_cases[OF assms(1) no] Cons.prems(1) True split_result_first[OF assms(1) pq] by (simp add: Let_def)
    moreover have "\<exists>normal D'. parse_stream A cs (D\<lparr>rd_buffer := [], in_reasoning := False\<rparr>) = Inr (normal, [], D') \<and>
        normal @ rd_buffer D' = concat cs"
      using normal_stream[OF assms(1), of "D\<lparr>rd_buffer := [], in_reasoning := False\<rparr>" cs] Cons.prems(3)
        sublist_back[of _ "concat cs" ?t] by auto
    ultimately obtain normal D' where "parse_stream A (c # cs) D = Inr (StripAsciiWhitespace A q @ normal, R, D')"
      "normal @ rd_buffer D' = concat cs" using eq(1) by auto
    then show ?thesis using eq(2) by (intro exI[of _ "StripAsciiWhitespace A q @ normal"] exI[of _ D'] exI[of _ q] exI[of _ "concat cs"]) simp
  qed
qed

text \<open>Streamed reasoning looks for the end tag in one chunk at a time.\<close>

lemma streamed_chunks:
  assumes "absl_ok A" "in_reasoning D" "stream_reasoning D" "rd_buffer D = []"
    and "\<forall>c \<in> set cs. \<not> sublist (think_start_token D) c \<and> \<not> sublist (think_end_token D) c \<and>
      \<not> prefix c (think_start_token D) \<and> \<not> prefix c (think_end_token D)"
  shows "parse_stream A cs D = Inr ([], concat cs, D)"
  using assms(5)
proof (induction cs)
  case (Cons c cs)
  have "D\<lparr>rd_buffer := []\<rparr> = D" using assms(4) by simp
  then have "parse_streaming_increment A c D = Inr (\<lparr>normal_text = None, reasoning_text = Some c\<rparr>, D)"
    using increment_cases[OF assms(1), of D c] assms(2-4) Cons.prems by (simp add: is_partial_tag_def abslD(2)[OF assms(1)])
  then show ?case using Cons by simp
qed simp

end
