(* ===== verification/Parser_Properties.thy ===== *)
theory Parser_Properties
  imports Reasoning_Parser
begin

text \<open>The properties of the reasoning parser. Their witnesses use an implementation of the string functions.\<close>

section \<open>String functions\<close>

fun split_once :: "string \<Rightarrow> string \<Rightarrow> string list" where
  "split_once t [] = (if t = [] then [[], []] else [[]])"
| "split_once t (c # cs) =
     (if prefix t (c # cs) then [[], drop (length t) (c # cs)]
      else case split_once t cs of [p, q] \<Rightarrow> [c # p, q] | _ \<Rightarrow> [c # cs])"

primrec replace_all :: "nat \<Rightarrow> string \<Rightarrow> string \<Rightarrow> string \<Rightarrow> int \<times> string" where
  "replace_all 0 t u s = (0, s)"
| "replace_all (Suc n) t u s =
     (case split_once t s of [p, q] \<Rightarrow> let (k, r) = replace_all n t u q in (k + 1, p @ u @ r) | _ \<Rightarrow> (0, s))"

definition trim :: "string \<Rightarrow> string" where
  "trim s = (let sp = (\<lambda>c. c = CHR '' '' \<or> c = CHR 0x0A) in rev (dropWhile sp (rev (dropWhile sp s))))"

definition demo_absl :: absl where
  "demo_absl = \<lparr>StrContains = (\<lambda>s t. sublist t s), StartsWith = (\<lambda>s p. prefix p s),
     StrReplaceAll = (\<lambda>s rs. foldl (\<lambda>s (t, u). snd (replace_all (length s) t u s)) s rs),
     StrReplaceAll_target = (\<lambda>rs s. foldl (\<lambda>(k, s) (t, u). let (n, r) = replace_all (length s) t u s in (k + n, r)) (0, s) rs),
     StripAsciiWhitespace = trim, StrSplit_once = (\<lambda>s t. split_once t s)\<rparr>"

lemma split_once_first: "first_split t s p q \<Longrightarrow> split_once t s = [p, q]"
proof (induction s arbitrary: p)
  case Nil
  then show ?case by (auto simp: first_split_def)
next
  case (Cons c cs)
  have ne: "t \<noteq> []" using Cons.prems by (auto simp: first_split_def)
  show ?case
  proof (cases "prefix t (c # cs)")
    case True
    then obtain r where r: "c # cs = t @ r" by (auto simp: prefix_def)
    have "\<not> sublist t (butlast t)" using ne sublist_length_le[of t "butlast t"] by (cases t) auto
    then have "first_split t (c # cs) [] r" using r by (simp add: first_split_def)
    then have "p = []" "q = r" using first_split_unique[of t "c # cs" "[]" r "[]" p q] Cons.prems ne by simp_all
    then show ?thesis using True arg_cong[OF r, of "drop (length t)"] by simp
  next
    case False
    then obtain p' where p: "p = c # p'" "cs = p' @ t @ q" using Cons.prems by (cases p) (auto simp: first_split_def prefix_def)
    have "\<not> sublist t (p' @ butlast t)" using Cons.prems p(1) sublist_back[of t "p' @ butlast t" "[c]"] by (auto simp: first_split_def)
    then have "split_once t cs = [p', q]" using Cons.IH[of p'] p(2) by (simp add: first_split_def)
    then show ?thesis using False p(1) by simp
  qed
qed

lemma demo_absl_ok: "absl_ok demo_absl"
  by (simp add: absl_ok_def demo_absl_def split_once_first)

section \<open>Streaming\<close>



text \<open>When a stream carries the start tag, \<open>parse_streaming_increment\<close> assigns the number of replacements
  made by \<open>StrReplaceAll\<close> to the text: the reasoning passed on is one character with that code, and
  the text of the chunk is lost.\<close>

theorem start_tag_garbled:
  assumes "absl_ok A" "\<not> stripped_think_start D" "stream_reasoning D" "sublist (think_start_token D) (rd_buffer D @ c)"
    and "\<not> is_partial_tag A (think_end_token D) (rd_buffer D @ c)" "1 < length (think_end_token D)"
  shows "\<exists>D'. parse_streaming_increment A c D =
    Inr (\<lparr>normal_text = None,
          reasoning_text = Some [char_of (fst (StrReplaceAll_target A [(think_start_token D, [])] (rd_buffer D @ c)))]\<rparr>, D')"
proof -
  let ?t = "rd_buffer D @ c"
  have "\<not> is_partial_tag A (think_start_token D) ?t"
    using assms(4) sublist_length_le[OF assms(4)] by (auto simp: is_partial_tag_def abslD(2)[OF assms(1)] prefix_def)
  moreover have "\<not> sublist (think_end_token D) [x]" for x using assms(6) sublist_length_le[of "think_end_token D" "[x]"] by auto
  ultimately show ?thesis
    using assms(2-5) by (simp add: parse_streaming_increment_def strip_start_def Let_def abslD(1)[OF assms(1)])
qed

theorem start_tag_garbled_witness:
  "\<exists>D D'. get_detector ''qwen3'' True False = Inr D \<and>
    parse_streaming_increment demo_absl ''<think>because'' D = Inr (\<lparr>normal_text = None, reasoning_text = Some [CHR 0x01]\<rparr>, D')"
proof -
  let ?D = "detector_new ''<think>'' ''</think>'' False True"
  have D: "get_detector ''qwen3'' True False = Inr ?D" by (simp add: get_detector_def paser_factories_def)
  have "split_once ''<think>'' ''because'' = [''because'']" by simp
  then have r: "fst (StrReplaceAll_target demo_absl [(''<think>'', [])] ''<think>because'') = 1"
    by (simp add: demo_absl_def numeral_eq_Suc)
  have "\<exists>D'. parse_streaming_increment demo_absl ''<think>because'' ?D = Inr (\<lparr>normal_text = None, reasoning_text = Some [char_of (1 :: int)]\<rparr>, D')"
    using start_tag_garbled[OF demo_absl_ok, of ?D "''<think>because''"] r
    by (simp add: detector_new_def sublist_Cons_right is_partial_tag_def abslD(2)[OF demo_absl_ok])
  moreover have "char_of (1 :: int) = CHR 0x01" by (simp add: char_of_def)
  ultimately show ?thesis using D by auto
qed

text \<open>Streamed reasoning looks for the end tag in one chunk at a time: a tag that is cut after other
  text is never found, although the whole text contains it, and everything after it, the answer
  included, is passed on as reasoning.\<close>

theorem cut_end_tag_missed:
  assumes "absl_ok A" "in_reasoning D" "stream_reasoning D" "rd_buffer D = []" "sublist (think_end_token D) (concat cs)"
    and "\<forall>c \<in> set cs. \<not> sublist (think_start_token D) c \<and> \<not> sublist (think_end_token D) c \<and>
      \<not> prefix c (think_start_token D) \<and> \<not> prefix c (think_end_token D)"
  shows "parse_stream A cs D = Inr ([], concat cs, D)"
  using streamed_chunks[OF assms(1-4,6)] .

theorem cut_end_tag_missed_witness:
  "\<exists>D. get_detector ''deepseek-r1'' True False = Inr D \<and>
    parse_stream demo_absl [''so</th'', ''ink>yes''] D = Inr ([], ''so</think>yes'', D)"
proof -
  let ?D = "detector_new ''<think>'' ''</think>'' True True"
  have "get_detector ''deepseek-r1'' True False = Inr ?D" by (simp add: get_detector_def paser_factories_def)
  moreover have "parse_stream demo_absl [''so</th'', ''ink>yes''] ?D = Inr ([], concat [''so</th'', ''ink>yes''], ?D)"
    by (rule cut_end_tag_missed[OF demo_absl_ok]) (simp_all add: detector_new_def sublist_Cons_right)
  ultimately show ?thesis by auto
qed

end
