(* ===== verification/Tiktoken.thy ===== *)
theory Tiktoken
  imports Prelude
begin

text \<open>
  \<open>core/framework/tokenizer/tiktoken_tokenizer.{h,cpp}\<close>: byte pair encoding. A character is a byte.
  The vocabulary file is the list of its lines. The third-party functions are the record
  \<open>tk_lib\<close>: what a line of the file says (Abseil), the matcher of a pattern and of a list of quoted
  tokens (RE2), and the test for a UTF-8 character (SentencePiece). A matcher returns the text
  before the match, the match, and the rest.
\<close>

section \<open>Data\<close>

type_synonym matcher = "string \<Rightarrow> (string \<times> string \<times> string) option"

record tk_lib =
  StrSplit_space :: "string \<Rightarrow> string list"
  Base64Unescape :: "string \<Rightarrow> string option"
  SimpleAtoi :: "string \<Rightarrow> int option"
  RE2_pattern :: "string \<Rightarrow> matcher option"    \<comment> \<open>\<open>None\<close> when the pattern does not compile\<close>
  RE2_alternatives :: "string list \<Rightarrow> matcher"
  IsValidDecodeUTF8 :: "string \<Rightarrow> bool \<times> nat"

record tokenizer_args =
  special_tokens :: "(string \<times> int) list"
  pattern :: string
  prefix_tokens :: "string list"

record tiktoken =
  encoder :: "string \<Rightarrow> int option"
  decoder :: "int \<Rightarrow> string option"
  regex :: "matcher option"
  special_token_encoder :: "string \<Rightarrow> int option"
  special_token_decoder :: "int \<Rightarrow> string option"
  special_token_regex :: "matcher option"
  prefix_token_ids :: "int list"

text \<open>\<open>try_emplace\<close> keeps an entry that is there.\<close>

definition try_emplace :: "'k \<Rightarrow> 'v \<Rightarrow> ('k \<Rightarrow> 'v option) \<Rightarrow> 'k \<Rightarrow> 'v option" where
  "try_emplace k v m = (if m k = None then m(k \<mapsto> v) else m)"

section \<open>Construction\<close>

definition vocab_line :: "tk_lib \<Rightarrow> string \<Rightarrow> (string \<times> int) option" where
  "vocab_line L line =
     (if line = [] then None
      else case StrSplit_space L line of
        [a, b] \<Rightarrow> (case Base64Unescape L a of None \<Rightarrow> None | Some tok \<Rightarrow> map_option (Pair tok) (SimpleAtoi L b))
      | _ \<Rightarrow> None)"

definition add_vocab :: "tiktoken \<Rightarrow> string \<times> int \<Rightarrow> tiktoken" where
  "add_vocab T x = T\<lparr>encoder := try_emplace (fst x) (snd x) (encoder T), decoder := try_emplace (snd x) (fst x) (decoder T)\<rparr>"

text \<open>A file that cannot be opened is \<open>None\<close>.\<close>

definition load_vocab :: "tk_lib \<Rightarrow> string list option \<Rightarrow> tiktoken \<Rightarrow> tiktoken res" where
  "load_vocab L file T =
     (case file of None \<Rightarrow> Inl Fatal | Some lines \<Rightarrow> Inr (foldl add_vocab T (List.map_filter (vocab_line L) lines)))"

definition add_special :: "tiktoken \<Rightarrow> string \<times> int \<Rightarrow> tiktoken" where
  "add_special T x =
     T\<lparr>special_token_encoder := try_emplace (fst x) (snd x) (special_token_encoder T),
       special_token_decoder := try_emplace (snd x) (fst x) (special_token_decoder T)\<rparr>"

definition load_special_tokens :: "tk_lib \<Rightarrow> (string \<times> int) list \<Rightarrow> tiktoken \<Rightarrow> tiktoken" where
  "load_special_tokens L xs T =
     (let ys = filter (\<lambda>x. fst x \<noteq> []) xs; T1 = foldl add_special T ys
      in if ys = [] then T1 else T1\<lparr>special_token_regex := Some (RE2_alternatives L (map fst ys))\<rparr>)"

definition token_to_id :: "tiktoken \<Rightarrow> string \<Rightarrow> int option" where
  "token_to_id T token = (case special_token_encoder T token of Some i \<Rightarrow> Some i | None \<Rightarrow> encoder T token)"

definition id_to_token :: "tiktoken \<Rightarrow> int \<Rightarrow> string" where
  "id_to_token T i =
     (case special_token_decoder T i of Some s \<Rightarrow> s | None \<Rightarrow> (case decoder T i of Some s \<Rightarrow> s | None \<Rightarrow> []))"

definition tokenizer_blank :: tiktoken where
  "tokenizer_blank = \<lparr>encoder = Map.empty, decoder = Map.empty, regex = None, special_token_encoder = Map.empty,
     special_token_decoder = Map.empty, special_token_regex = None, prefix_token_ids = []\<rparr>"

definition tokenizer_new :: "tk_lib \<Rightarrow> string list option \<Rightarrow> tokenizer_args \<Rightarrow> tiktoken res" where
  "tokenizer_new L file args =
     bindE (load_vocab L file tokenizer_blank) (\<lambda>T1.
     let T2 = (if special_tokens args = [] then T1 else load_special_tokens L (special_tokens args) T1) in
     bindE (if pattern args = [] then Inr T2
            else case RE2_pattern L (pattern args) of None \<Rightarrow> Inl Fatal | Some r \<Rightarrow> Inr (T2\<lparr>regex := Some r\<rparr>)) (\<lambda>T3.
       Inr (T3\<lparr>prefix_token_ids := List.map_filter (token_to_id T3) (filter (\<lambda>t. t \<noteq> []) (prefix_tokens args))\<rparr>)))"

section \<open>Byte pair encoding\<close>

abbreviation kMaxRank :: int where
  "kMaxRank \<equiv> 2 ^ 31 - 1"

text \<open>A part is its start and the rank of the pair that begins with it.\<close>

type_synonym parts = "(nat \<times> int) list"

definition substr :: "string \<Rightarrow> nat \<Rightarrow> nat \<Rightarrow> string" where
  "substr piece s e = take (e - s) (drop s piece)"

definition get_rank :: "(string \<Rightarrow> int option) \<Rightarrow> string \<Rightarrow> parts \<Rightarrow> nat \<Rightarrow> nat \<Rightarrow> int option" where
  "get_rank enc piece ps start skip =
     (if start + skip + 2 < length ps then enc (substr piece (fst (ps ! start)) (fst (ps ! (start + skip + 2)))) else None)"

definition set_rank :: "nat \<Rightarrow> int \<Rightarrow> parts \<Rightarrow> parts" where
  "set_rank i r ps = ps[i := (fst (ps ! i), r)]"

definition init_rank :: "(string \<Rightarrow> int option) \<Rightarrow> string \<Rightarrow> nat \<Rightarrow> parts \<Rightarrow> parts res" where
  "init_rank enc piece i ps =
     (case get_rank enc piece ps i 0 of
        None \<Rightarrow> Inr ps
      | Some r \<Rightarrow> bindE (check (r \<noteq> kMaxRank)) (\<lambda>_. Inr (set_rank i r ps)))"

fun min_scan :: "int list \<Rightarrow> nat \<Rightarrow> int \<Rightarrow> nat \<Rightarrow> int \<times> nat" where
  "min_scan [] i min_rank min_i = (min_rank, min_i)"
| "min_scan (r # rs) i min_rank min_i = (if r < min_rank then min_scan rs (i + 1) r i else min_scan rs (i + 1) min_rank min_i)"

definition erase_at :: "nat \<Rightarrow> parts \<Rightarrow> parts" where
  "erase_at i ps = take i ps @ drop (i + 1) ps"

definition merge_at :: "(string \<Rightarrow> int option) \<Rightarrow> string \<Rightarrow> nat \<Rightarrow> parts \<Rightarrow> parts" where
  "merge_at enc piece i ps =
     (let rank_or = (\<lambda>j ps. case get_rank enc piece ps j 1 of None \<Rightarrow> kMaxRank | Some r \<Rightarrow> r);
          ps1 = set_rank i (rank_or i ps) ps;
          ps2 = (if i > 0 then set_rank (i - 1) (rank_or (i - 1) ps1) ps1 else ps1)
      in erase_at (i + 1) ps2)"

lemma min_scan_bound:
  "snd (min_scan rs i m j) < i + length rs \<or> (snd (min_scan rs i m j) = j \<and> fst (min_scan rs i m j) = m)"
proof (induction rs arbitrary: i m j)
  case (Cons r rs)
  show ?case using Cons.IH[of "i + 1" r i] Cons.IH[of "i + 1" m j] by (cases "r < m") auto
qed simp

lemma length_merge_at: "i + 1 < length ps \<Longrightarrow> length (merge_at enc piece i ps) = length ps - 1"
  by (auto simp: merge_at_def Let_def erase_at_def set_rank_def)

function merge_loop :: "(string \<Rightarrow> int option) \<Rightarrow> string \<Rightarrow> parts \<Rightarrow> parts" where
  "merge_loop enc piece ps =
     (if length ps > 1
      then let (min_rank, min_i) = min_scan (map snd (butlast ps)) 0 kMaxRank 0 in
        if min_rank = kMaxRank then ps else merge_loop enc piece (merge_at enc piece min_i ps)
      else ps)"
  by pat_completeness auto
termination
proof (relation "measure (\<lambda>(enc, piece, ps). length ps)", goal_cases)
  case (2 enc piece ps x min_rank min_i)
  then have "min_i < length (butlast ps)" using min_scan_bound[of "map snd (butlast ps)" 0 kMaxRank 0] by (auto simp: prod_eq_iff)
  then show ?case by (simp add: length_merge_at)
qed simp

declare merge_loop.simps [simp del]

text \<open>The ids of the parts; a part that is no token is dropped.\<close>

definition emit :: "(string \<Rightarrow> int option) \<Rightarrow> string \<Rightarrow> parts \<Rightarrow> int list" where
  "emit enc piece ps =
     List.map_filter (\<lambda>i. enc (substr piece (fst (ps ! i)) (fst (ps ! (i + 1))))) [0..<length ps - 1]"

definition byte_pair_encode :: "tiktoken \<Rightarrow> string \<Rightarrow> int list \<Rightarrow> int list res" where
  "byte_pair_encode T piece ids =
     (if piece = [] then Inr ids
      else let ps = map (\<lambda>i. (i, kMaxRank)) [0..<length piece + 1] in
        bindE (foldE (init_rank (encoder T) piece) [0..<length ps - 2] ps) (\<lambda>ps1.
          Inr (ids @ emit (encoder T) piece (merge_loop (encoder T) piece ps1))))"

section \<open>Encoding\<close>

text \<open>
  A loop over \<open>FindAndConsume\<close>; it may never end when a match is empty, which is \<open>None\<close>. The body
  gets the text before the match and the match.
\<close>

partial_function (option) find_loop ::
    "matcher \<Rightarrow> (string \<Rightarrow> string \<Rightarrow> int list \<Rightarrow> int list res option) \<Rightarrow> string \<Rightarrow> int list \<Rightarrow> (string \<times> int list) res option" where
  "find_loop F body input ids =
     (case F input of
        None \<Rightarrow> Some (Inr (input, ids))
      | Some x \<Rightarrow>
          Option.bind (body (fst x) (fst (snd x)) ids) (\<lambda>r.
            case r of Inl e \<Rightarrow> Some (Inl e) | Inr ids1 \<Rightarrow> find_loop F body (snd (snd x)) ids1))"

definition encode_piece :: "tiktoken \<Rightarrow> string \<Rightarrow> string \<Rightarrow> int list \<Rightarrow> int list res option" where
  "encode_piece T skipped piece ids =
     Some (case encoder T piece of Some i \<Rightarrow> Inr (ids @ [i]) | None \<Rightarrow> byte_pair_encode T piece ids)"

definition encode_internal :: "tiktoken \<Rightarrow> string \<Rightarrow> int list \<Rightarrow> int list res option" where
  "encode_internal T text ids =
     (case regex T of
        None \<Rightarrow> Some (byte_pair_encode T text ids)
      | Some F \<Rightarrow> map_option (\<lambda>r. bindE r (\<lambda>(rest, ids1). Inr ids1)) (find_loop F (encode_piece T) text ids))"

definition encode_special :: "tiktoken \<Rightarrow> string \<Rightarrow> string \<Rightarrow> int list \<Rightarrow> int list res option" where
  "encode_special T sub_input special ids =
     map_option (\<lambda>r. bindE r (\<lambda>ids1.
        Inr (case special_token_encoder T special of None \<Rightarrow> ids1 | Some i \<Rightarrow> ids1 @ [i]))) (encode_internal T sub_input ids)"

definition tk_encode :: "tiktoken \<Rightarrow> string \<Rightarrow> int list \<Rightarrow> int list res option" where
  "tk_encode T text ids0 =
     (let ids = prefix_token_ids T @ ids0 in
      case special_token_regex T of
        None \<Rightarrow> encode_internal T text ids
      | Some F \<Rightarrow>
          Option.bind (find_loop F (encode_special T) text ids) (\<lambda>r.
            case r of Inl e \<Rightarrow> Some (Inl e) | Inr (rest, ids1) \<Rightarrow> encode_internal T rest ids1))"

section \<open>Decoding\<close>

definition replacement_char :: string where
  "replacement_char = [CHR 0xEF, CHR 0xBF, CHR 0xBD]"

partial_function (option) utf8_loop :: "(string \<Rightarrow> bool \<times> nat) \<Rightarrow> string \<Rightarrow> string \<Rightarrow> string option" where
  "utf8_loop V bytes out =
     (if bytes = [] then Some out
      else if fst (V bytes) then utf8_loop V (drop (snd (V bytes)) bytes) (out @ take (snd (V bytes)) bytes)
      else Some (out @ replacement_char))"

definition id_bytes :: "tiktoken \<Rightarrow> bool \<Rightarrow> int \<Rightarrow> string" where
  "id_bytes T skip_special_tokens i =
     (case special_token_decoder T i of
        Some s \<Rightarrow> if skip_special_tokens then [] else s
      | None \<Rightarrow> (case decoder T i of Some s \<Rightarrow> s | None \<Rightarrow> []))"

definition tk_decode :: "tk_lib \<Rightarrow> tiktoken \<Rightarrow> int list \<Rightarrow> bool \<Rightarrow> string option" where
  "tk_decode L T ids skip_special_tokens =
     utf8_loop (IsValidDecodeUTF8 L) (concat (map (id_bytes T skip_special_tokens) ids)) []"

end
