(* ===== verification/Tiktoken_Correct.thy ===== *)
theory Tiktoken_Correct
  imports Tiktoken
begin

text \<open>
  The merge loop with its cached ranks is byte pair encoding as it is usually described: merge
  the leftmost adjacent pair of least rank until no pair is a token. Encoding loses nothing, and
  decoding gives the text back.
\<close>

section \<open>The reference\<close>

definition pair_rank :: "(string \<Rightarrow> int option) \<Rightarrow> string list \<Rightarrow> nat \<Rightarrow> int option" where
  "pair_rank enc segs i = enc (segs ! i @ segs ! (i + 1))"

definition best_pair :: "(string \<Rightarrow> int option) \<Rightarrow> string list \<Rightarrow> nat option" where
  "best_pair enc segs =
     (let pairs = [0..<length segs - 1] in
      List.find (\<lambda>i. case pair_rank enc segs i of None \<Rightarrow> False
                   | Some r \<Rightarrow> list_all (\<lambda>j. case pair_rank enc segs j of None \<Rightarrow> True | Some r' \<Rightarrow> r \<le> r') pairs) pairs)"

definition merge_segs :: "nat \<Rightarrow> string list \<Rightarrow> string list" where
  "merge_segs i segs = take i segs @ [segs ! i @ segs ! (i + 1)] @ drop (i + 2) segs"

lemma best_pair_Some:
  "best_pair enc segs = Some i \<longleftrightarrow> i + 1 < length segs \<and>
     (\<exists>r. pair_rank enc segs i = Some r \<and> (\<forall>j r'. j + 1 < length segs \<longrightarrow> pair_rank enc segs j = Some r' \<longrightarrow> r \<le> r') \<and>
       (\<forall>j r'. j < i \<longrightarrow> pair_rank enc segs j = Some r' \<longrightarrow> r < r'))"
  (is "?l = ?r")
proof
  assume ?l
  then have i: "i < length segs - 1" "case pair_rank enc segs i of None \<Rightarrow> False
      | Some r \<Rightarrow> \<forall>j \<in> set [0..<length segs - 1]. (case pair_rank enc segs j of None \<Rightarrow> True | Some r' \<Rightarrow> r \<le> r')"
    and first: "\<forall>j < i. \<not> (case pair_rank enc segs j of None \<Rightarrow> False
      | Some r \<Rightarrow> \<forall>j \<in> set [0..<length segs - 1]. (case pair_rank enc segs j of None \<Rightarrow> True | Some r' \<Rightarrow> r \<le> r'))"
    unfolding best_pair_def Let_def find_Some_iff list_all_iff by auto
  obtain r where r: "pair_rank enc segs i = Some r" using i(2) by (cases "pair_rank enc segs i") auto
  have le: "r \<le> r'" if "j < length segs - 1" "pair_rank enc segs j = Some r'" for j r'
    using i(2) r that by (auto dest!: bspec[of _ _ j])
  have "r < r'" if "j < i" "pair_rank enc segs j = Some r'" for j r'
  proof (rule ccontr)
    assume "\<not> r < r'"
    then have "\<forall>k \<in> set [0..<length segs - 1]. (case pair_rank enc segs k of None \<Rightarrow> True | Some x \<Rightarrow> r' \<le> x)"
      using le by (fastforce split: option.split)
    then show False using first that by auto
  qed
  then show ?r using i(1) r le by (auto simp: less_diff_conv)
next
  assume ?r
  then obtain r where r: "i < length segs - 1" "pair_rank enc segs i = Some r"
    "\<forall>j r'. j + 1 < length segs \<longrightarrow> pair_rank enc segs j = Some r' \<longrightarrow> r \<le> r'"
    "\<forall>j r'. j < i \<longrightarrow> pair_rank enc segs j = Some r' \<longrightarrow> r < r'" by auto
  have "\<not> (case pair_rank enc segs j of None \<Rightarrow> False
      | Some r \<Rightarrow> \<forall>k \<in> set [0..<length segs - 1]. (case pair_rank enc segs k of None \<Rightarrow> True | Some r' \<Rightarrow> r \<le> r'))" if "j < i" for j
  proof (cases "pair_rank enc segs j")
    case (Some r')
    then have "r < r'" using r(4) that by blast
    then show ?thesis using Some r(1,2) by (auto intro!: bexI[of _ i])
  qed simp
  then show ?l unfolding best_pair_def Let_def find_Some_iff list_all_iff
    using r(1-3) by (intro exI[of _ i]) (auto simp: less_diff_conv split: option.split)
qed

lemma best_pair_None: "best_pair enc segs = None \<longleftrightarrow> (\<forall>i. i + 1 < length segs \<longrightarrow> pair_rank enc segs i = None)"
proof
  assume none: "best_pair enc segs = None"
  show "\<forall>i. i + 1 < length segs \<longrightarrow> pair_rank enc segs i = None"
  proof (rule ccontr)
    let ?I = "{i. i + 1 < length segs \<and> pair_rank enc segs i \<noteq> None}"
    assume "\<not> (\<forall>i. i + 1 < length segs \<longrightarrow> pair_rank enc segs i = None)"
    then have ne: "?I \<noteq> {}" by auto
    have fin: "finite ?I" by (rule finite_subset[of _ "{..<length segs}"]) auto
    define r where "r = Min ((\<lambda>i. the (pair_rank enc segs i)) ` ?I)"
    have le: "r \<le> the (pair_rank enc segs j)" if "j \<in> ?I" for j unfolding r_def using fin that by simp
    have "r \<in> (\<lambda>i. the (pair_rank enc segs i)) ` ?I" unfolding r_def using fin ne by (intro Min_in) auto
    then obtain i0 where "i0 \<in> ?I \<and> the (pair_rank enc segs i0) = r" by auto
    then have l: "(LEAST i. i \<in> ?I \<and> the (pair_rank enc segs i) = r) \<in> ?I \<and>
        the (pair_rank enc segs (LEAST i. i \<in> ?I \<and> the (pair_rank enc segs i) = r)) = r" by (rule LeastI)
    define i where "i = (LEAST i. i \<in> ?I \<and> the (pair_rank enc segs i) = r)"
    have i: "i + 1 < length segs" "pair_rank enc segs i = Some r" using l unfolding i_def by auto
    have "r < r'" if "j < i" "pair_rank enc segs j = Some r'" for j r'
      using not_less_Least[of j "\<lambda>i. i \<in> ?I \<and> the (pair_rank enc segs i) = r"] le[of j] that i(1) unfolding i_def by fastforce
    then have "best_pair enc segs = Some i" unfolding best_pair_Some using i le by fastforce
    then show False using none by simp
  qed
next
  assume a: "\<forall>i. i + 1 < length segs \<longrightarrow> pair_rank enc segs i = None"
  show "best_pair enc segs = None"
  proof (cases "best_pair enc segs")
    case (Some i)
    then show ?thesis using a unfolding best_pair_Some by auto
  qed
qed

lemma length_merge_segs: "i + 1 < length segs \<Longrightarrow> length (merge_segs i segs) = length segs - 1"
  by (simp add: merge_segs_def)

function bpe_ref :: "(string \<Rightarrow> int option) \<Rightarrow> string list \<Rightarrow> string list" where
  "bpe_ref enc segs = (case best_pair enc segs of None \<Rightarrow> segs | Some i \<Rightarrow> bpe_ref enc (merge_segs i segs))"
  by pat_completeness auto
termination
  by (relation "measure (\<lambda>(enc, segs). length segs)") (auto simp: best_pair_Some length_merge_segs)

declare bpe_ref.simps [simp del]

lemma bpe_ref_step:
  "best_pair enc segs = None \<Longrightarrow> bpe_ref enc segs = segs"
  "best_pair enc segs = Some i \<Longrightarrow> bpe_ref enc segs = bpe_ref enc (merge_segs i segs)"
  by (subst bpe_ref.simps, simp)+

lemma concat_merge_segs: "i + 1 < length segs \<Longrightarrow> concat (merge_segs i segs) = concat segs"
proof -
  assume i: "i + 1 < length segs"
  have "segs = take i segs @ segs ! i # segs ! (i + 1) # drop (i + 2) segs"
    using i by (metis Cons_nth_drop_Suc Suc_eq_plus1 add_2_eq_Suc' append_take_drop_id Suc_lessD)
  then have "concat segs = concat (take i segs @ segs ! i # segs ! (i + 1) # drop (i + 2) segs)" by simp
  then show ?thesis by (simp add: merge_segs_def)
qed

text \<open>Nothing is lost, what is merged is a token, and at the end no pair is one.\<close>

lemma bpe_ref_ok:
  assumes "\<forall>s \<in> set segs. P s" "\<And>s. enc s \<noteq> None \<Longrightarrow> P s"
  shows "concat (bpe_ref enc segs) = concat segs \<and> (\<forall>s \<in> set (bpe_ref enc segs). P s) \<and>
    (\<forall>i. i + 1 < length (bpe_ref enc segs) \<longrightarrow> enc (bpe_ref enc segs ! i @ bpe_ref enc segs ! (i + 1)) = None)"
  using assms
proof (induction enc segs rule: bpe_ref.induct)
  case (1 enc segs)
  show ?case
  proof (cases "best_pair enc segs")
    case None
    then show ?thesis using 1(2) by (auto simp: bpe_ref_step(1) best_pair_None pair_rank_def)
  next
    case (Some i)
    then have i: "i + 1 < length segs" "enc (segs ! i @ segs ! (i + 1)) \<noteq> None" by (auto simp: best_pair_Some pair_rank_def)
    have "P (segs ! i @ segs ! (i + 1))" using 1(3) i(2) by blast
    then have "\<forall>s \<in> set (merge_segs i segs). P s"
      using 1(2) by (auto simp: merge_segs_def dest: in_set_takeD in_set_dropD)
    then show ?thesis using 1(1)[OF Some _ 1(3)] concat_merge_segs[OF i(1)] by (simp add: bpe_ref_step(2)[OF Some])
  qed
qed

section \<open>The cached ranks\<close>

abbreviation rank_or :: "int option \<Rightarrow> int" where
  "rank_or x \<equiv> (case x of None \<Rightarrow> kMaxRank | Some r \<Rightarrow> r)"

definition starts_ok :: "string \<Rightarrow> parts \<Rightarrow> bool" where
  "starts_ok piece ps \<longleftrightarrow> 1 < length ps \<and> fst (ps ! 0) = 0 \<and> fst (ps ! (length ps - 1)) = length piece \<and>
     (\<forall>i j. i \<le> j \<longrightarrow> j < length ps \<longrightarrow> fst (ps ! i) \<le> fst (ps ! j))"

definition cache_ok :: "(string \<Rightarrow> int option) \<Rightarrow> string \<Rightarrow> parts \<Rightarrow> bool" where
  "cache_ok enc piece ps \<longleftrightarrow> starts_ok piece ps \<and> (\<forall>i < length ps - 1. snd (ps ! i) = rank_or (get_rank enc piece ps i 0))"

definition segs_of :: "string \<Rightarrow> parts \<Rightarrow> string list" where
  "segs_of piece ps = map (\<lambda>i. substr piece (fst (ps ! i)) (fst (ps ! (i + 1)))) [0..<length ps - 1]"

lemma length_segs_of [simp]: "length (segs_of piece ps) = length ps - 1"
  by (simp add: segs_of_def)

lemma segs_of_nth: "k + 1 < length ps \<Longrightarrow> segs_of piece ps ! k = substr piece (fst (ps ! k)) (fst (ps ! (k + 1)))"
  by (simp add: segs_of_def less_diff_conv)

definition ranks_ok :: "(string \<Rightarrow> int option) \<Rightarrow> bool" where
  "ranks_ok enc \<longleftrightarrow> (\<forall>t r. enc t = Some r \<longrightarrow> r < kMaxRank)"

lemma substr_append:
  assumes "s \<le> m" "m \<le> e"
  shows "substr piece s m @ substr piece m e = substr piece s e"
proof -
  have e: "e - s = (m - s) + (e - m)" using assms by simp
  show ?thesis unfolding substr_def e take_add drop_drop using assms by simp
qed

lemma segs_of_pair:
  assumes "starts_ok piece ps" "i + 2 < length ps"
  shows "segs_of piece ps ! i @ segs_of piece ps ! (i + 1) = substr piece (fst (ps ! i)) (fst (ps ! (i + 2)))"
  using assms by (simp add: segs_of_nth starts_ok_def substr_append)

lemma pair_rank_cached:
  assumes "starts_ok piece ps" "i + 2 < length ps"
  shows "pair_rank enc (segs_of piece ps) i = get_rank enc piece ps i 0"
  using segs_of_pair[OF assms] assms(2) by (simp add: pair_rank_def get_rank_def)

lemma min_scan_spec:
  assumes "min_scan rs n m j = (r, i)"
  shows "r \<le> m \<and> (\<forall>x \<in> set rs. r \<le> x) \<and>
    ((r = m \<and> i = j) \<or> (\<exists>k < length rs. i = n + k \<and> rs ! k = r \<and> r < m \<and> (\<forall>l < k. r < rs ! l)))"
  using assms
proof (induction rs arbitrary: n m j)
  case (Cons x xs)
  show ?case
  proof (cases "x < m")
    case True
    then have "min_scan xs (n + 1) x n = (r, i)" using Cons.prems by simp
    note ih = Cons.IH[OF this]
    show ?thesis
    proof (cases "r = x \<and> i = n")
      case True
      then show ?thesis using ih \<open>x < m\<close> by (auto intro!: exI[of _ 0])
    next
      case False
      then obtain k where "k < length xs" "i = n + 1 + k" "xs ! k = r" "r < x" "\<forall>l < k. r < xs ! l" using ih by auto
      then have "\<exists>k < length (x # xs). i = n + k \<and> (x # xs) ! k = r \<and> r < m \<and> (\<forall>l < k. r < (x # xs) ! l)"
        using \<open>x < m\<close> by (intro exI[of _ "Suc k"]) (auto simp: less_Suc_eq_0_disj)
      then show ?thesis using ih \<open>x < m\<close> by auto
    qed
  next
    case False
    then have "min_scan xs (n + 1) m j = (r, i)" using Cons.prems by simp
    note ih = Cons.IH[OF this]
    show ?thesis
    proof (cases "r = m \<and> i = j")
      case True
      then show ?thesis using ih False by auto
    next
      case nz: False
      then obtain k where "k < length xs" "i = n + 1 + k" "xs ! k = r" "r < m" "\<forall>l < k. r < xs ! l" using ih by auto
      then have "\<exists>k < length (x # xs). i = n + k \<and> (x # xs) ! k = r \<and> r < m \<and> (\<forall>l < k. r < (x # xs) ! l)"
        using False by (intro exI[of _ "Suc k"]) (auto simp: less_Suc_eq_0_disj)
      then show ?thesis using ih False by auto
    qed
  qed
qed simp

lemma scan_best:
  assumes "cache_ok enc piece ps" "ranks_ok enc"
    and "min_scan (map snd (butlast ps)) 0 kMaxRank 0 = (r, i)"
  shows "best_pair enc (segs_of piece ps) = (if r = kMaxRank then None else Some i)" "r \<noteq> kMaxRank \<Longrightarrow> i + 2 < length ps"
proof -
  let ?rs = "map snd (butlast ps)" and ?g = "\<lambda>i. get_rank enc piece ps i 0"
  have st: "starts_ok piece ps" and len: "1 < length ps" using assms(1) by (auto simp: cache_ok_def starts_ok_def)
  have cached: "?rs ! k = rank_or (?g k)" if "k < length ps - 1" for k
    using assms(1) that by (simp add: cache_ok_def nth_butlast)
  have pr: "pair_rank enc (segs_of piece ps) k = ?g k" if "k + 1 < length (segs_of piece ps)" for k
    using pair_rank_cached[OF st, of k] that by simp
  have lt: "x < kMaxRank" if "?g k = Some x" for k x using assms(2) that by (auto simp: get_rank_def ranks_ok_def split: if_splits)
  have bound: "k + 2 < length ps" if "?g k = Some x" for k x using that by (simp add: get_rank_def split: if_splits)
  note ms = min_scan_spec[OF assms(3)]
  have le: "r \<le> rank_or (?g k)" if "k < length ps - 1" for k
    using ms cached[OF that] that by (metis length_butlast length_map nth_mem)
  show "best_pair enc (segs_of piece ps) = (if r = kMaxRank then None else Some i)" "r \<noteq> kMaxRank \<Longrightarrow> i + 2 < length ps"
  proof -
    show "i + 2 < length ps" if "r \<noteq> kMaxRank"
    proof -
      have "i < length ps - 1" "?rs ! i = r" using ms that by auto
      then show ?thesis using cached[of i] that bound[of i] by (cases "?g i") auto
    qed
    show "best_pair enc (segs_of piece ps) = (if r = kMaxRank then None else Some i)"
    proof (cases "r = kMaxRank")
      case True
      have "?g k = None" if "k < length ps - 1" for k
        using le[OF that] True lt[of k] by (cases "?g k") auto
      then show ?thesis using True pr by (simp add: best_pair_None)
    next
      case False
      then obtain "i < length ps - 1" "?rs ! i = r" and first: "\<forall>l < i. r < ?rs ! l" using ms by auto
      then have gi: "?g i = Some r" using cached[of i] False by (cases "?g i") auto
      have "r < x" if "j < i" "?g j = Some x" for j x
        using first that cached[of j] \<open>i < length ps - 1\<close> by auto
      moreover have "r \<le> x" if "j + 1 < length (segs_of piece ps)" "?g j = Some x" for j x using le[of j] that by simp
      moreover have "i + 1 < length (segs_of piece ps)" using bound[OF gi] by simp
      ultimately have "best_pair enc (segs_of piece ps) = Some i" unfolding best_pair_Some using gi pr by auto
      then show ?thesis using False by simp
    qed
  qed
qed

section \<open>Merging\<close>

lemma merge_at_nth:
  assumes "i + 2 < length ps" "k < length ps - 1"
  shows "merge_at enc piece i ps ! k = (fst (ps ! (if k \<le> i then k else k + 1)),
    if k = i then rank_or (get_rank enc piece ps i 1) else if k + 1 = i then rank_or (get_rank enc piece ps k 1)
    else snd (ps ! (if k \<le> i then k else k + 1)))"
proof -
  have g: "get_rank enc piece (set_rank i r ps) j 1 = get_rank enc piece ps j 1" for r j
    using assms(1) by (simp add: get_rank_def set_rank_def nth_list_update)
  show ?thesis
    using assms unfolding merge_at_def Let_def g
    by (cases "ps = []") (auto simp: erase_at_def nth_append set_rank_def nth_list_update min_def)
qed

lemma merge_at_ok:
  assumes "cache_ok enc piece ps" "i + 2 < length ps"
  shows "cache_ok enc piece (merge_at enc piece i ps)" "segs_of piece (merge_at enc piece i ps) = merge_segs i (segs_of piece ps)"
proof -
  let ?ps = "merge_at enc piece i ps"
  have len: "length ?ps = length ps - 1" using assms(2) by (simp add: length_merge_at)
  have st: "starts_ok piece ps" and c: "\<And>k. k < length ps - 1 \<Longrightarrow> snd (ps ! k) = rank_or (get_rank enc piece ps k 0)"
    using assms(1) by (auto simp: cache_ok_def)
  have f: "fst (?ps ! k) = fst (ps ! (if k \<le> i then k else k + 1))" if "k < length ps - 1" for k
    using merge_at_nth[OF assms(2) that] by simp
  have "Suc (length ps - Suc (Suc 0)) = length ps - Suc 0" using assms(2) by simp
  then have st': "starts_ok piece ?ps"
    using st assms(2) unfolding starts_ok_def len by (auto simp: f)
  have "snd (?ps ! k) = rank_or (get_rank enc piece ?ps k 0)" if k: "k < length ?ps - 1" for k
  proof -
    have "k < length ps - 1" using k len by simp
    note n = merge_at_nth[OF assms(2) this]
    consider "k = i" | "k + 1 = i" | "k + 1 < i" | "i < k" by linarith
    then show ?thesis
    proof cases
      case 1
      then show ?thesis using n k assms(2) len by (simp add: get_rank_def f less_diff_conv)
    next
      case 2
      then show ?thesis using n k assms(2) len by (auto simp: get_rank_def f less_diff_conv)
    next
      case 3
      then show ?thesis using n k c[of k] assms(2) len by (simp add: get_rank_def f less_diff_conv)
    next
      case 4
      then show ?thesis using n k c[of "k + 1"] assms(2) len by (simp add: get_rank_def f less_diff_conv)
    qed
  qed
  then show "cache_ok enc piece ?ps" using st' by (simp add: cache_ok_def)
  show "segs_of piece ?ps = merge_segs i (segs_of piece ps)"
  proof (rule nth_equalityI)
    show "length (segs_of piece ?ps) = length (merge_segs i (segs_of piece ps))"
      using assms(2) len length_merge_segs[of i "segs_of piece ps"] by simp
    fix k
    assume "k < length (segs_of piece ?ps)"
    then have k: "k < length ps - 2" using len by simp
    then have s: "segs_of piece ?ps ! k = substr piece (fst (?ps ! k)) (fst (?ps ! (k + 1)))" using len by (intro segs_of_nth) simp
    consider "k < i" | "k = i" | "i < k" by linarith
    then show "segs_of piece ?ps ! k = merge_segs i (segs_of piece ps) ! k"
    proof cases
      case 1
      then show ?thesis using s k f[of k] f[of "k + 1"] assms(2) by (simp add: merge_segs_def nth_append segs_of_nth)
    next
      case 2
      then show ?thesis using s k f[of k] f[of "k + 1"] assms(2) segs_of_pair[OF st, of i] by (simp add: merge_segs_def nth_append)
    next
      case 3
      then show ?thesis using s k f[of k] f[of "k + 1"] assms(2) by (simp add: merge_segs_def nth_append segs_of_nth nth_Cons')
    qed
  qed
qed

lemma merge_loop_ok:
  assumes "cache_ok enc piece ps" "ranks_ok enc"
  shows "segs_of piece (merge_loop enc piece ps) = bpe_ref enc (segs_of piece ps)"
  using assms
proof (induction enc piece ps rule: merge_loop.induct)
  case (1 enc piece ps)
  obtain r i where m: "min_scan (map snd (butlast ps)) 0 kMaxRank 0 = (r, i)" by (metis surj_pair)
  have len: "1 < length ps" using 1(2) by (simp add: cache_ok_def starts_ok_def)
  note b = scan_best[OF 1(2,3) m]
  show ?case
  proof (cases "r = kMaxRank")
    case True
    then have "merge_loop enc piece ps = ps" using m by (subst merge_loop.simps) simp
    then show ?thesis using b(1) True by (simp add: bpe_ref_step(1))
  next
    case False
    then have "merge_loop enc piece ps = merge_loop enc piece (merge_at enc piece i ps)" using m len by (subst merge_loop.simps) simp
    moreover have "segs_of piece (merge_loop enc piece (merge_at enc piece i ps)) = bpe_ref enc (segs_of piece (merge_at enc piece i ps))"
      using 1(1)[OF len m[symmetric] refl False merge_at_ok(1)[OF 1(2) b(2)[OF False]] 1(3)] .
    moreover have "bpe_ref enc (segs_of piece ps) = bpe_ref enc (merge_segs i (segs_of piece ps))"
      using b(1) False by (simp add: bpe_ref_step(2))
    ultimately show ?thesis using merge_at_ok(2)[OF 1(2) b(2)[OF False]] by simp
  qed
qed

text \<open>The first ranks.\<close>

definition first_parts :: "(string \<Rightarrow> int option) \<Rightarrow> string \<Rightarrow> nat \<Rightarrow> parts" where
  "first_parts enc piece n = map (\<lambda>i. (i, if i < n then rank_or (enc (substr piece i (i + 2))) else kMaxRank)) [0..<length piece + 1]"

lemma first_parts_nth: "i < length piece + 1 \<Longrightarrow>
    first_parts enc piece n ! i = (i, if i < n then rank_or (enc (substr piece i (i + 2))) else kMaxRank)"
  by (simp add: first_parts_def del: upt_Suc)

lemma length_first_parts [simp]: "length (first_parts enc piece n) = length piece + 1"
  by (simp add: first_parts_def)

lemma init_ranks:
  assumes "ranks_ok enc" "n \<le> length piece - 1"
  shows "foldE (init_rank enc piece) [0..<n] (first_parts enc piece 0) = Inr (first_parts enc piece n)"
  using assms(2)
proof (induction n)
  case (Suc n)
  let ?p = "first_parts enc piece n"
  have n: "n + 2 < length ?p" using Suc.prems by simp
  then have g: "get_rank enc piece ?p n 0 = enc (substr piece n (n + 2))"
    using first_parts_nth[of n piece enc n] first_parts_nth[of "n + 2" piece enc n] by (simp add: get_rank_def del: upt_Suc)
  have upd: "first_parts enc piece (Suc n) = set_rank n (rank_or (enc (substr piece n (n + 2)))) ?p"
    by (rule nth_equalityI) (use n in \<open>auto simp: set_rank_def nth_list_update first_parts_nth simp del: upt_Suc\<close>)
  have "init_rank enc piece n ?p = Inr (first_parts enc piece (Suc n))"
  proof (cases "enc (substr piece n (n + 2))")
    case None
    have "set_rank n kMaxRank ?p = ?p" using n first_parts_nth[of n piece enc n] by (simp add: set_rank_def list_update_same_conv del: upt_Suc)
    then show ?thesis using None g upd by (simp add: init_rank_def del: upt_Suc)
  next
    case (Some r)
    then have "r \<noteq> kMaxRank" using assms(1) by (auto simp: ranks_ok_def)
    then show ?thesis using Some g upd by (simp add: init_rank_def check_def del: upt_Suc)
  qed
  then show ?case using Suc by (simp add: foldE_append upt_Suc_append del: upt_Suc)
qed simp

lemma first_parts_ok:
  assumes "piece \<noteq> []"
  shows "cache_ok enc piece (first_parts enc piece (length piece - 1))"
    "segs_of piece (first_parts enc piece (length piece - 1)) = map (\<lambda>c. [c]) piece"
proof -
  let ?p = "first_parts enc piece (length piece - 1)"
  have len: "length ?p = length piece + 1" by simp
  have "starts_ok piece ?p" using assms unfolding starts_ok_def len by (simp add: first_parts_nth)
  moreover have "snd (?p ! i) = rank_or (get_rank enc piece ?p i 0)" if "i < length ?p - 1" for i
    using that unfolding get_rank_def len by (auto simp: first_parts_nth)
  ultimately show "cache_ok enc piece ?p" unfolding cache_ok_def by blast
  show "segs_of piece ?p = map (\<lambda>c. [c]) piece"
  proof (rule nth_equalityI)
    fix i
    assume "i < length (segs_of piece ?p)"
    then have i: "i < length piece" by simp
    then have "segs_of piece ?p ! i = substr piece i (i + 1)" using segs_of_nth[of i ?p piece] by (simp add: first_parts_nth)
    also have "\<dots> = [piece ! i]" using i by (simp add: substr_def take_Suc_conv_app_nth Cons_nth_drop_Suc[symmetric])
    finally show "segs_of piece ?p ! i = map (\<lambda>c. [c]) piece ! i" using i by simp
  qed simp
qed

text \<open>\<open>byte_pair_encode\<close> is the reference.\<close>

lemma emit_segs: "emit enc piece ps = List.map_filter enc (segs_of piece ps)"
  by (simp add: emit_def segs_of_def map_filter_def comp_def filter_map)

lemma byte_pair_encode_ref:
  assumes "ranks_ok (encoder T)"
  shows "byte_pair_encode T piece ids = Inr (ids @ List.map_filter (encoder T) (bpe_ref (encoder T) (map (\<lambda>c. [c]) piece)))"
proof (cases "piece = []")
  case True
  have "best_pair (encoder T) [] = None" by (simp add: best_pair_None)
  then show ?thesis using True by (simp add: byte_pair_encode_def bpe_ref_step(1) map_filter_simps)
next
  case False
  let ?p = "first_parts (encoder T) piece (length piece - 1)"
  have "foldE (init_rank (encoder T) piece) [0..<length piece - 1] (first_parts (encoder T) piece 0) = Inr ?p"
    by (rule init_ranks[OF assms]) simp
  moreover have "map (\<lambda>i. (i, kMaxRank)) [0..<length piece + 1] = first_parts (encoder T) piece 0" by (simp add: first_parts_def)
  ultimately have "byte_pair_encode T piece ids = Inr (ids @ emit (encoder T) piece (merge_loop (encoder T) piece ?p))"
    using False by (simp add: byte_pair_encode_def Let_def del: upt_Suc)
  then show ?thesis using merge_loop_ok[OF first_parts_ok(1)[OF False] assms] first_parts_ok(2)[OF False] by (simp add: emit_segs del: upt_Suc)
qed

end
