(* ===== verification/Tiktoken_Roundtrip.thy ===== *)
theory Tiktoken_Roundtrip
  imports Tiktoken_Correct
begin

text \<open>A tokenizer built from a vocabulary without duplicates is consistent, and decoding what it encoded gives the text back.\<close>

section \<open>Consistent tokenizers\<close>

text \<open>What RE2 says of a match, for a pattern that never matches the empty string; and a pattern that leaves no gaps.\<close>

definition matches_ok :: "matcher \<Rightarrow> bool" where
  "matches_ok F \<longleftrightarrow> (\<forall>s b p r. F s = Some (b, p, r) \<longrightarrow> s = b @ p @ r \<and> p \<noteq> [])"

definition covering :: "matcher \<Rightarrow> bool" where
  "covering F \<longleftrightarrow> (\<forall>s. s \<noteq> [] \<longrightarrow> (\<exists>p r. F s = Some ([], p, r)))"

definition tk_ok :: "tiktoken \<Rightarrow> bool" where
  "tk_ok T \<longleftrightarrow> ranks_ok (encoder T) \<and> (\<forall>c. encoder T [c] \<noteq> None) \<and>
     (\<forall>t r. encoder T t = Some r \<longrightarrow> decoder T r = Some t \<and> special_token_decoder T r = None) \<and>
     (\<forall>t i. special_token_encoder T t = Some i \<longrightarrow> special_token_decoder T i = Some t) \<and>
     (\<forall>F. regex T = Some F \<longrightarrow> matches_ok F \<and> covering F) \<and>
     (\<forall>F. special_token_regex T = Some F \<longrightarrow> matches_ok F \<and> (\<forall>s b p r. F s = Some (b, p, r) \<longrightarrow> special_token_encoder T p \<noteq> None))"

definition id_text :: "tiktoken \<Rightarrow> int list \<Rightarrow> string" where
  "id_text T ids = concat (map (id_bytes T False) ids)"

lemma id_text_append [simp]: "id_text T (xs @ ys) = id_text T xs @ id_text T ys" "id_text T [] = []"
  by (simp_all add: id_text_def)

lemma id_text_token: "tk_ok T \<Longrightarrow> encoder T t = Some i \<Longrightarrow> id_text T [i] = t"
  by (simp add: id_text_def id_bytes_def tk_ok_def)

lemma id_text_special: "tk_ok T \<Longrightarrow> special_token_encoder T t = Some i \<Longrightarrow> id_text T [i] = t"
  by (simp add: id_text_def id_bytes_def tk_ok_def)

lemma id_text_segs:
  assumes "tk_ok T" "\<forall>s \<in> set segs. encoder T s \<noteq> None"
  shows "id_text T (List.map_filter (encoder T) segs) = concat segs"
  using assms(2)
proof (induction segs)
  case (Cons s segs)
  then obtain i where "encoder T s = Some i" by auto
  then show ?case using Cons id_text_token[OF assms(1), of s i] id_text_append(1)[of T "[i]"] by (simp add: map_filter_simps)
qed (simp add: map_filter_simps)

text \<open>\<open>gives T r text\<close>: a step that returns appends ids for exactly \<open>text\<close>.\<close>

definition gives :: "tiktoken \<Rightarrow> int list \<Rightarrow> int list res \<Rightarrow> string \<Rightarrow> bool" where
  "gives T ids r text \<longleftrightarrow> (\<exists>xs. r = Inr (ids @ xs) \<and> id_text T xs = text)"

lemma gives_trans: "gives T ids (Inr ids1) t \<Longrightarrow> gives T ids1 r u \<Longrightarrow> gives T ids r (t @ u)"
  by (auto simp: gives_def)

lemma byte_pair_gives:
  assumes "tk_ok T"
  shows "gives T ids (byte_pair_encode T piece ids) piece"
proof -
  let ?segs = "bpe_ref (encoder T) (map (\<lambda>c. [c]) piece)"
  have r: "ranks_ok (encoder T)" using assms by (simp add: tk_ok_def)
  have "\<forall>s \<in> set (map (\<lambda>c. [c]) piece). encoder T s \<noteq> None" using assms by (auto simp: tk_ok_def)
  note b = bpe_ref_ok[of _ "\<lambda>s. encoder T s \<noteq> None" "encoder T", OF this]
  then have "concat ?segs = piece" "\<forall>s \<in> set ?segs. encoder T s \<noteq> None" by (auto simp: concat_map_singleton)
  then show ?thesis using id_text_segs[OF assms, of ?segs] by (simp add: gives_def byte_pair_encode_ref[OF r])
qed

section \<open>The loops\<close>

text \<open>The loop over the matches returns, and its body has been given all of the text before the rest.\<close>

lemma find_loop_gives:
  assumes "matches_ok F" "\<And>b p r s ids. F s = Some (b, p, r) \<Longrightarrow> \<exists>x. body b p ids = Some x \<and> gives T ids x (b @ p)"
  shows "\<exists>rest ids' xs. find_loop F body input ids = Some (Inr (rest, ids')) \<and> ids' = ids @ xs \<and> input = id_text T xs @ rest \<and> F rest = None"
proof (induction "length input" arbitrary: input ids rule: less_induct)
  case less
  show ?case
  proof (cases "F input")
    case None
    then show ?thesis by (subst find_loop.simps) simp
  next
    case (Some x)
    obtain b p r where x: "x = (b, p, r)" by (metis prod_cases3)
    have i: "input = b @ p @ r" "p \<noteq> []" using assms(1) Some x by (auto simp: matches_ok_def)
    obtain ids1 xs where b: "body b p ids = Some (Inr (ids @ xs))" "id_text T xs = b @ p"
      using assms(2)[OF Some[unfolded x], of ids] by (auto simp: gives_def)
    have "length r < length input" using i by simp
    from less[OF this, of "ids @ xs"] obtain rest ys where
      "find_loop F body r (ids @ xs) = Some (Inr (rest, (ids @ xs) @ ys))" "r = id_text T ys @ rest" "F rest = None" by auto
    moreover have "find_loop F body input ids = find_loop F body r (ids @ xs)"
      using Some x b(1) by (subst find_loop.simps) simp
    ultimately show ?thesis using i(1) b(2) by (intro exI[of _ rest] exI[of _ "ids @ xs @ ys"] exI[of _ "xs @ ys"]) simp
  qed
qed

lemma encode_internal_gives:
  assumes "tk_ok T"
  shows "\<exists>x. encode_internal T text ids = Some x \<and> gives T ids x text"
proof (cases "regex T")
  case None
  then show ?thesis using byte_pair_gives[OF assms] by (simp add: encode_internal_def)
next
  case (Some F)
  then have F: "matches_ok F" "covering F" using assms by (auto simp: tk_ok_def)
  have nogap: "b = []" if "F s = Some (b, p, r)" for b p r s
  proof -
    have "s \<noteq> []" using F(1) that by (auto simp: matches_ok_def)
    then show ?thesis using F(2) that by (force simp: covering_def)
  qed
  have body: "\<exists>x. encode_piece T b p ids = Some x \<and> gives T ids x (b @ p)" if "F s = Some (b, p, r)" for b p r s ids
  proof (cases "encoder T p")
    case None
    then show ?thesis using byte_pair_gives[OF assms] nogap[OF that] by (simp add: encode_piece_def)
  next
    case (Some i)
    then show ?thesis using id_text_token[OF assms Some] nogap[OF that] by (simp add: encode_piece_def gives_def)
  qed
  obtain rest xs where l: "find_loop F (encode_piece T) text ids = Some (Inr (rest, ids @ xs))" "text = id_text T xs @ rest" "F rest = None"
    using find_loop_gives[OF F(1), of "encode_piece T" T "text" ids] body by blast
  have "rest = []" using F(2) l(3) by (force simp: covering_def)
  then show ?thesis using l Some by (simp add: encode_internal_def gives_def)
qed

lemma tk_encode_gives:
  assumes "tk_ok T"
  shows "\<exists>xs. tk_encode T text ids = Some (Inr (prefix_token_ids T @ ids @ xs)) \<and> id_text T xs = text"
proof (cases "special_token_regex T")
  case None
  then show ?thesis using encode_internal_gives[OF assms, of "text" "prefix_token_ids T @ ids"] by (auto simp: tk_encode_def gives_def Let_def)
next
  case (Some F)
  then have F: "matches_ok F" "\<And>s b p r. F s = Some (b, p, r) \<Longrightarrow> special_token_encoder T p \<noteq> None" using assms unfolding tk_ok_def by blast+
  have body: "\<exists>x. encode_special T b p ids = Some x \<and> gives T ids x (b @ p)" if f: "F s = Some (b, p, r)" for b p r s ids
  proof -
    obtain i where i: "special_token_encoder T p = Some i" using F(2)[OF f] by auto
    obtain xs where "encode_internal T b ids = Some (Inr (ids @ xs))" "id_text T xs = b"
      using encode_internal_gives[OF assms, of b ids] by (auto simp: gives_def)
    then show ?thesis using i id_text_special[OF assms i] by (simp add: encode_special_def gives_def)
  qed
  obtain rest xs where l: "find_loop F (encode_special T) text (prefix_token_ids T @ ids) = Some (Inr (rest, (prefix_token_ids T @ ids) @ xs))"
    "text = id_text T xs @ rest"
    using find_loop_gives[OF F(1), of "encode_special T" T "text" "prefix_token_ids T @ ids"] body by blast
  obtain ys where "encode_internal T rest ((prefix_token_ids T @ ids) @ xs) = Some (Inr (((prefix_token_ids T @ ids) @ xs) @ ys))" "id_text T ys = rest"
    using encode_internal_gives[OF assms, of rest "(prefix_token_ids T @ ids) @ xs"] by (auto simp: gives_def)
  then show ?thesis using l Some by (intro exI[of _ "xs @ ys"]) (simp add: tk_encode_def Let_def)
qed

section \<open>UTF-8\<close>

text \<open>The test of SentencePiece consumes at least one byte of a valid character and no more than there are.\<close>

definition utf8_lib_ok :: "(string \<Rightarrow> bool \<times> nat) \<Rightarrow> bool" where
  "utf8_lib_ok V \<longleftrightarrow> (\<forall>s. s \<noteq> [] \<longrightarrow> fst (V s) \<longrightarrow> 0 < snd (V s) \<and> snd (V s) \<le> length s)"

function valid_prefix :: "(string \<Rightarrow> bool \<times> nat) \<Rightarrow> string \<Rightarrow> string" where
  "valid_prefix V s = (if s \<noteq> [] \<and> fst (V s) \<and> 0 < snd (V s) then take (snd (V s)) s @ valid_prefix V (drop (snd (V s)) s) else [])"
  by pat_completeness auto
termination
  by (relation "measure (\<lambda>(V, s). length s)") auto

declare valid_prefix.simps [simp del]

lemma utf8_loop_ok:
  assumes "utf8_lib_ok V"
  shows "utf8_loop V s out = Some (out @ valid_prefix V s @ (if valid_prefix V s = s then [] else replacement_char))"
proof (induction "length s" arbitrary: s out rule: less_induct)
  case less
  show ?case
  proof (cases "s \<noteq> [] \<and> fst (V s)")
    case False
    then have "valid_prefix V s = []" by (subst valid_prefix.simps) auto
    moreover have "utf8_loop V s out = Some (if s = [] then out else out @ replacement_char)" using False by (subst utf8_loop.simps) auto
    ultimately show ?thesis by auto
  next
    case True
    let ?n = "snd (V s)"
    have n: "0 < ?n" "?n \<le> length s" using assms True by (auto simp: utf8_lib_ok_def)
    then have "length (drop ?n s) < length s" using True by simp
    note ih = less[OF this, of "out @ take ?n s"]
    have v: "valid_prefix V s = take ?n s @ valid_prefix V (drop ?n s)" using True n(1) by (subst valid_prefix.simps) simp
    have "valid_prefix V s = s \<longleftrightarrow> valid_prefix V (drop ?n s) = drop ?n s"
      unfolding v by (metis append_take_drop_id same_append_eq)
    moreover have "utf8_loop V s out = utf8_loop V (drop ?n s) (out @ take ?n s)" using True by (subst utf8_loop.simps) simp
    ultimately show ?thesis using ih v by simp
  qed
qed

section \<open>Loading\<close>

lemma foldl_try_emplace:
  assumes "distinct (map f xs)" "\<forall>x \<in> set xs. m (f x) = None"
  shows "foldl (\<lambda>m x. try_emplace (f x) (g x) m) m xs = m ++ map_of (map (\<lambda>x. (f x, g x)) xs)"
  using assms
proof (induction xs arbitrary: m)
  case (Cons x xs)
  have e: "try_emplace (f x) (g x) m = m(f x \<mapsto> g x)" using Cons.prems(2) by (simp add: try_emplace_def)
  have out: "f x \<notin> dom (map_of (map (\<lambda>x. (f x, g x)) xs))"
    using Cons.prems(1) by (auto simp: dom_map_of_conv_image_fst image_image)
  have d: "distinct (map f xs)" "\<forall>y \<in> set xs. (m(f x \<mapsto> g x)) (f y) = None" using Cons.prems by (auto simp: image_iff)
  have "foldl (\<lambda>m x. try_emplace (f x) (g x) m) (m(f x \<mapsto> g x)) xs = m(f x \<mapsto> g x) ++ map_of (map (\<lambda>x. (f x, g x)) xs)"
    by (rule Cons.IH[OF d])
  also have "\<dots> = m ++ (map_of (map (\<lambda>x. (f x, g x)) xs))(f x \<mapsto> g x)" unfolding map_add_upd_left[OF out] map_add_upd ..
  finally show ?case by (simp only: foldl.simps e list.map map_of.simps fst_conv snd_conv)
qed simp

lemma foldl_add_sel:
  "encoder (foldl add_vocab T xs) = foldl (\<lambda>m x. try_emplace (fst x) (snd x) m) (encoder T) xs"
  "decoder (foldl add_vocab T xs) = foldl (\<lambda>m x. try_emplace (snd x) (fst x) m) (decoder T) xs"
  "special_token_encoder (foldl add_vocab T xs) = special_token_encoder T" "special_token_decoder (foldl add_vocab T xs) = special_token_decoder T"
  "regex (foldl add_vocab T xs) = regex T" "special_token_regex (foldl add_vocab T xs) = special_token_regex T"
  "special_token_encoder (foldl add_special T xs) = foldl (\<lambda>m x. try_emplace (fst x) (snd x) m) (special_token_encoder T) xs"
  "special_token_decoder (foldl add_special T xs) = foldl (\<lambda>m x. try_emplace (snd x) (fst x) m) (special_token_decoder T) xs"
  "encoder (foldl add_special T xs) = encoder T" "decoder (foldl add_special T xs) = decoder T"
  "regex (foldl add_special T xs) = regex T" "special_token_regex (foldl add_special T xs) = special_token_regex T"
  by (induction xs arbitrary: T) (simp_all add: add_vocab_def add_special_def)

lemma map_of_inverse:
  assumes "distinct (map fst xs)" "distinct (map snd xs)" "map_of xs t = Some r"
  shows "map_of (map (\<lambda>x. (snd x, fst x)) xs) r = Some t"
proof (rule map_of_is_SomeI)
  show "distinct (map fst (map (\<lambda>x. (snd x, fst x)) xs))" using assms(2) by (simp add: comp_def)
  show "(r, t) \<in> set (map (\<lambda>x. (snd x, fst x)) xs)" using map_of_SomeD[OF assms(3)] by force
qed

text \<open>A vocabulary and special tokens without duplicates, with all bytes among the tokens.\<close>

definition good_vocab :: "(string \<times> int) list \<Rightarrow> (string \<times> int) list \<Rightarrow> bool" where
  "good_vocab vs sp \<longleftrightarrow> distinct (map fst vs) \<and> distinct (map snd vs) \<and> distinct (map fst sp) \<and> distinct (map snd sp) \<and>
     (\<forall>x \<in> set vs. snd x < kMaxRank \<and> snd x \<notin> snd ` set sp) \<and> (\<forall>c. [c] \<in> fst ` set vs)"

definition matchers_ok :: "tk_lib \<Rightarrow> string \<Rightarrow> string list \<Rightarrow> bool" where
  "matchers_ok L pat toks \<longleftrightarrow> (pat \<noteq> [] \<longrightarrow> (\<exists>F. RE2_pattern L pat = Some F \<and> matches_ok F \<and> covering F)) \<and>
     (toks \<noteq> [] \<longrightarrow> matches_ok (RE2_alternatives L toks) \<and> (\<forall>s b p r. RE2_alternatives L toks s = Some (b, p, r) \<longrightarrow> p \<in> set toks))"

lemma tokenizer_new_ok:
  fixes args :: tokenizer_args
  defines "sp \<equiv> filter (\<lambda>x. fst x \<noteq> []) (special_tokens args)"
  assumes "good_vocab (List.map_filter (vocab_line L) lines) sp" "matchers_ok L (pattern args) (map fst sp)"
  shows "\<exists>T. tokenizer_new L (Some lines) args = Inr T \<and> tk_ok T"
proof -
  let ?vs = "List.map_filter (vocab_line L) lines"
  define T1 where "T1 = foldl add_vocab tokenizer_blank ?vs"
  define T2 where "T2 = (if special_tokens args = [] then T1 else load_special_tokens L (special_tokens args) T1)"
  define rx where "rx = (if pattern args = [] then None else RE2_pattern L (pattern args))"
  define T3 where "T3 = T2\<lparr>regex := rx\<rparr>"
  note g = assms(2)[unfolded good_vocab_def]
  have T1: "encoder T1 = map_of ?vs" "decoder T1 = map_of (map (\<lambda>x. (snd x, fst x)) ?vs)" "special_token_encoder T1 = Map.empty"
    "special_token_decoder T1 = Map.empty" "regex T1 = None" "special_token_regex T1 = None"
    using g foldl_try_emplace[of fst ?vs Map.empty snd] foldl_try_emplace[of snd ?vs Map.empty fst]
    by (simp_all add: T1_def foldl_add_sel tokenizer_blank_def)
  have T2: "encoder T2 = encoder T1" "decoder T2 = decoder T1" "special_token_encoder T2 = map_of sp"
    "special_token_decoder T2 = map_of (map (\<lambda>x. (snd x, fst x)) sp)" "regex T2 = None"
    "special_token_regex T2 = (if sp = [] then None else Some (RE2_alternatives L (map fst sp)))"
    using g foldl_try_emplace[of fst sp Map.empty snd] foldl_try_emplace[of snd sp Map.empty fst] T1
    by (auto simp: T2_def load_special_tokens_def Let_def foldl_add_sel sp_def)
  have new: "tokenizer_new L (Some lines) args =
      Inr (T3\<lparr>prefix_token_ids := List.map_filter (token_to_id T3) (filter (\<lambda>t. t \<noteq> []) (prefix_tokens args))\<rparr>)"
  proof (cases "pattern args = []")
    case True
    then have "T3 = T2" using T2(5) by (simp add: T3_def rx_def)
    then show ?thesis using True by (simp add: tokenizer_new_def load_vocab_def T1_def[symmetric] T2_def[symmetric] Let_def)
  next
    case False
    then obtain F where "RE2_pattern L (pattern args) = Some F" using assms(3) by (auto simp: matchers_ok_def)
    then show ?thesis using False by (simp add: tokenizer_new_def load_vocab_def T1_def[symmetric] T2_def[symmetric] Let_def T3_def rx_def)
  qed
  have "tk_ok (T3\<lparr>prefix_token_ids := p\<rparr>)" for p
    unfolding tk_ok_def
  proof (intro conjI)
    show "ranks_ok (encoder (T3\<lparr>prefix_token_ids := p\<rparr>))" using g T1(1) T2(1) by (auto simp: T3_def ranks_ok_def dest!: map_of_SomeD)
    show "\<forall>c. encoder (T3\<lparr>prefix_token_ids := p\<rparr>) [c] \<noteq> None" using g T1(1) T2(1) by (simp add: T3_def map_of_eq_None_iff)
    show "\<forall>t r. encoder (T3\<lparr>prefix_token_ids := p\<rparr>) t = Some r \<longrightarrow> decoder (T3\<lparr>prefix_token_ids := p\<rparr>) r = Some t \<and>
        special_token_decoder (T3\<lparr>prefix_token_ids := p\<rparr>) r = None"
    proof (intro allI impI)
      fix t r
      assume "encoder (T3\<lparr>prefix_token_ids := p\<rparr>) t = Some r"
      then have e: "map_of ?vs t = Some r" using T1(1) T2(1) by (simp add: T3_def)
      then have "(t, r) \<in> set ?vs" by (rule map_of_SomeD)
      then have "r \<notin> snd ` set sp" using g by force
      then show "decoder (T3\<lparr>prefix_token_ids := p\<rparr>) r = Some t \<and> special_token_decoder (T3\<lparr>prefix_token_ids := p\<rparr>) r = None"
        using map_of_inverse[OF _ _ e] g T1(2) T2(2,4) by (simp add: T3_def map_of_eq_None_iff image_image)
    qed
    show "\<forall>t i. special_token_encoder (T3\<lparr>prefix_token_ids := p\<rparr>) t = Some i \<longrightarrow> special_token_decoder (T3\<lparr>prefix_token_ids := p\<rparr>) i = Some t"
      using map_of_inverse[of sp] g T2(3,4) by (simp add: T3_def)
    show "\<forall>F. regex (T3\<lparr>prefix_token_ids := p\<rparr>) = Some F \<longrightarrow> matches_ok F \<and> covering F"
      using assms(3) by (auto simp: T3_def rx_def matchers_ok_def)
    show "\<forall>F. special_token_regex (T3\<lparr>prefix_token_ids := p\<rparr>) = Some F \<longrightarrow> matches_ok F \<and>
        (\<forall>s b q r. F s = Some (b, q, r) \<longrightarrow> special_token_encoder (T3\<lparr>prefix_token_ids := p\<rparr>) q \<noteq> None)"
      using assms(3) T2(3,6) by (auto simp: T3_def matchers_ok_def map_of_eq_None_iff split: if_splits)
  qed
  then show ?thesis using new by auto
qed

end
