(* ===== verification/Tokenizer_Properties.thy ===== *)
theory Tokenizer_Properties
  imports Tiktoken_Roundtrip "HOL-Library.Sublist"
begin

text \<open>The properties of the byte pair tokenizer. Their witnesses use a small vocabulary.\<close>

section \<open>Byte pair encoding\<close>

text \<open>C36: \<open>byte_pair_encode\<close>, which caches the rank of each pair and updates at most two of them at a merge,
  computes byte pair encoding: from single bytes, merge the leftmost adjacent pair of least rank
  until no adjacent pair is a token. Its ids are those of the resulting segments.\<close>

theorem bpe_equals_reference:
  assumes "ranks_ok (encoder T)"
  shows "byte_pair_encode T piece ids = Inr (ids @ List.map_filter (encoder T) (bpe_ref (encoder T) (map (\<lambda>c. [c]) piece)))"
  by (rule byte_pair_encode_ref[OF assms])

definition demo_vocab :: tiktoken where
  "demo_vocab = tokenizer_blank\<lparr>encoder := map_of [(''a'', 1), (''b'', 2), (''c'', 3), (''bc'', 4), (''ab'', 5), (''abc'', 6)]\<rparr>"

theorem bpe_equals_reference_witness:
  "byte_pair_encode demo_vocab ''abcab'' [0] = Inr [0, 6, 5]"
proof -
  have r: "ranks_ok (encoder demo_vocab)" by (auto simp: ranks_ok_def demo_vocab_def split: if_splits)
  have "List.map_filter (encoder demo_vocab) (bpe_ref (encoder demo_vocab) (map (\<lambda>c. [c]) ''abcab'')) = [6, 5]" by code_simp
  then show ?thesis using bpe_equals_reference[OF r, of "''abcab''" "[0]"] by simp
qed

section \<open>Round trip\<close>

text \<open>C37: a tokenizer built from a vocabulary without duplicate tokens or ranks that has all single bytes,
  with a pattern that leaves no gaps: \<open>encode\<close> returns for every text, and \<open>decode\<close> of the ids it
  appended gives back the text, special tokens included, if the text is UTF-8.\<close>

theorem encode_decode_roundtrip:
  assumes "good_vocab (List.map_filter (vocab_line L) lines) (filter (\<lambda>x. fst x \<noteq> []) (special_tokens args))"
    and "matchers_ok L (pattern args) (map fst (filter (\<lambda>x. fst x \<noteq> []) (special_tokens args)))"
    and "utf8_lib_ok (IsValidDecodeUTF8 L)" "valid_prefix (IsValidDecodeUTF8 L) s = s"
  shows "\<exists>T ids. tokenizer_new L (Some lines) args = Inr T \<and> tk_encode T s ids0 = Some (Inr (prefix_token_ids T @ ids0 @ ids)) \<and>
    tk_decode L T ids False = Some s"
proof -
  obtain T where T: "tokenizer_new L (Some lines) args = Inr T" "tk_ok T" using tokenizer_new_ok[OF assms(1,2)] by blast
  obtain ids where ids: "tk_encode T s ids0 = Some (Inr (prefix_token_ids T @ ids0 @ ids))" "id_text T ids = s"
    using tk_encode_gives[OF T(2)] by blast
  have "tk_decode L T ids False = Some s"
    using utf8_loop_ok[OF assms(3)] assms(4) ids(2) by (simp add: tk_decode_def id_text_def)
  then show ?thesis using T(1) ids(1) by blast
qed

text \<open>Matchers that take the whole text, and the first special token; lines that are tokens.\<close>

fun find_token :: "string list \<Rightarrow> matcher" where
  "find_token toks [] = None"
| "find_token toks (c # cs) =
     (case List.find (\<lambda>t. t \<noteq> [] \<and> prefix t (c # cs)) toks of
        Some t \<Rightarrow> Some ([], t, drop (length t) (c # cs))
      | None \<Rightarrow> (case find_token toks cs of None \<Rightarrow> None | Some (b, p, r) \<Rightarrow> Some (c # b, p, r)))"

definition demo_rank :: "string \<Rightarrow> int" where
  "demo_rank s = (if length s = 1 then int (of_char (hd s) :: nat) else 256)"

definition demo_tk_lib :: tk_lib where
  "demo_tk_lib = \<lparr>StrSplit_space = (\<lambda>s. [s, s]), Base64Unescape = Some, SimpleAtoi = (\<lambda>s. Some (demo_rank s)),
     RE2_pattern = (\<lambda>_. Some (\<lambda>s. if s = [] then None else Some ([], s, []))), RE2_alternatives = find_token,
     IsValidDecodeUTF8 = (\<lambda>s. (True, 1))\<rparr>"

definition demo_lines :: "string list" where
  "demo_lines = ''ab'' # map (\<lambda>n. [char_of (n :: nat)]) [0..<256]"

definition demo_args :: tokenizer_args where
  "demo_args = \<lparr>special_tokens = [(''<s>'', 300)], pattern = ''.+'', prefix_tokens = []\<rparr>"

lemma find_token_ok: "find_token toks s = Some (b, p, r) \<Longrightarrow> s = b @ p @ r \<and> p \<noteq> [] \<and> p \<in> set toks"
proof (induction s arbitrary: b)
  case (Cons c cs)
  show ?case
  proof (cases "List.find (\<lambda>t. t \<noteq> [] \<and> prefix t (c # cs)) toks")
    case None
    then show ?thesis using Cons by (auto split: option.splits)
  next
    case (Some t)
    then have "t \<in> set toks" "t \<noteq> []" "prefix t (c # cs)" by (auto simp: find_Some_iff)
    then show ?thesis using Some Cons.prems by (auto simp: prefix_def)
  qed
qed simp

lemma map_filter_total: "\<forall>x \<in> set xs. f x = Some (g x) \<Longrightarrow> List.map_filter f xs = map g xs"
  by (induction xs) (simp_all add: map_filter_simps)

lemma demo_vocab_lines: "List.map_filter (vocab_line demo_tk_lib) demo_lines = map (\<lambda>s. (s, demo_rank s)) demo_lines"
proof -
  have "vocab_line demo_tk_lib s = Some (s, demo_rank s)" if "s \<in> set demo_lines" for s
    using that by (auto simp: demo_lines_def vocab_line_def demo_tk_lib_def)
  then show ?thesis by (intro map_filter_total) simp
qed

lemma demo_good_vocab: "good_vocab (List.map_filter (vocab_line demo_tk_lib) demo_lines) [(''<s>'', 300)]"
proof -
  let ?b = "map (\<lambda>n. [char_of (n :: nat)]) [0..<256]"
  have r: "map demo_rank ?b = map int [0..<256]" by (simp add: demo_rank_def comp_def of_char_of)
  have d: "distinct ?b"
  proof -
    have "distinct (map demo_rank ?b)" unfolding r by (simp add: distinct_map)
    then show ?thesis unfolding distinct_map[of demo_rank ?b] by (rule conjunct1)
  qed
  have ab: "''ab'' \<notin> set ?b" "(256 :: int) \<notin> set (map int [0..<256])" "demo_rank ''ab'' = 256" by (auto simp: demo_rank_def)
  have lt: "demo_rank s < 257" if "s \<in> set demo_lines" for s
    using that ab(3) by (auto simp: demo_lines_def demo_rank_def of_char_of)
  have byte: "[c] \<in> set ?b" for c
  proof -
    have "(of_char c :: nat) \<in> set [0..<256]" using nat_of_char_less_256[of c] by simp
    moreover have "[c] = [char_of (of_char c :: nat)]" by simp
    ultimately show ?thesis unfolding set_map by (rule rev_image_eqI)
  qed
  let ?v = "map (\<lambda>s. (s, demo_rank s)) demo_lines"
  have f: "map fst ?v = ''ab'' # ?b" by (simp add: demo_lines_def comp_def)
  have s: "map snd ?v = 256 # map int [0..<256]" unfolding r[symmetric] using ab(3) by (simp add: demo_lines_def comp_def)
  have "distinct (map fst ?v)" unfolding f using d ab(1) by simp
  moreover have "distinct (map snd ?v)" unfolding s using ab(2) by (simp add: distinct_map)
  moreover have "\<forall>x \<in> set ?v. snd x < kMaxRank \<and> snd x \<notin> snd ` set [(''<s>'', 300)]" using lt by force
  moreover have "[c] \<in> fst ` set ?v" for c unfolding set_map[symmetric] f using byte by simp
  ultimately show ?thesis unfolding good_vocab_def demo_vocab_lines by simp
qed

theorem encode_decode_roundtrip_witness:
  "\<exists>T ids. tokenizer_new demo_tk_lib (Some demo_lines) demo_args = Inr T \<and> tk_encode T ''cab<s>!'' [] = Some (Inr (prefix_token_ids T @ [] @ ids)) \<and>
    tk_decode demo_tk_lib T ids False = Some ''cab<s>!''"
proof (rule encode_decode_roundtrip)
  show "good_vocab (List.map_filter (vocab_line demo_tk_lib) demo_lines) (filter (\<lambda>x. fst x \<noteq> []) (special_tokens demo_args))"
    using demo_good_vocab by (simp add: demo_args_def)
  show "matchers_ok demo_tk_lib (pattern demo_args) (map fst (filter (\<lambda>x. fst x \<noteq> []) (special_tokens demo_args)))"
    using find_token_ok[of "[''<s>'']"] by (auto simp: matchers_ok_def matches_ok_def covering_def demo_tk_lib_def demo_args_def split: if_splits)
  show "utf8_lib_ok (IsValidDecodeUTF8 demo_tk_lib)" by (auto simp: utf8_lib_ok_def demo_tk_lib_def Suc_le_eq)
  have "valid_prefix (\<lambda>s. (True, 1)) s = s" for s :: string
  proof (induction s)
    case (Cons c s)
    then show ?case by (subst valid_prefix.simps) simp
  qed (subst valid_prefix.simps, simp)
  then show "valid_prefix (IsValidDecodeUTF8 demo_tk_lib) ''cab<s>!'' = ''cab<s>!''" by (simp add: demo_tk_lib_def)
qed

end
