(* ===== verification/Locks.thy ===== *)
theory Locks
  imports Prelude
begin

text \<open>
  \<open>core/util/spin_lock.h\<close>, \<open>spin_rw_lock.h\<close>, \<open>blocking_counter.h\<close>: each load, exchange, compare-and-set and
  locked increment of a thread is one step of a relation; a thread is a number, and its location
  says where in the code it is. A compare-and-set may fail for no reason, as the weak one does.
  The reader count is an \<open>int\<close>: its absolute value is at most the number of threads.
\<close>

section \<open>Spin lock\<close>

datatype spin_loc = S_idle | S_want | S_held

record spin_state =
  lock_word :: nat
  spin_at :: "nat \<Rightarrow> spin_loc"

definition spin_init :: spin_state where
  "spin_init = \<lparr>lock_word = 0, spin_at = (\<lambda>_. S_idle)\<rparr>"

text \<open>\<open>xchg_64\<close> writes 1 and returns the old value.\<close>

inductive spin_step :: "spin_state \<Rightarrow> spin_state \<Rightarrow> bool" where
  spin_lock: "spin_at s t = S_idle \<Longrightarrow> spin_step s (s\<lparr>spin_at := (spin_at s)(t := S_want)\<rparr>)"
| spin_xchg: "spin_at s t = S_want \<Longrightarrow>
    spin_step s (s\<lparr>lock_word := 1, spin_at := (spin_at s)(t := if lock_word s = 0 then S_held else S_want)\<rparr>)"
| spin_unlock: "spin_at s t = S_held \<Longrightarrow> spin_step s (s\<lparr>lock_word := 0, spin_at := (spin_at s)(t := S_idle)\<rparr>)"

definition spin_inv :: "spin_state \<Rightarrow> bool" where
  "spin_inv s \<longleftrightarrow> (\<forall>t. spin_at s t = S_held \<longrightarrow> lock_word s \<noteq> 0) \<and> (\<forall>t u. spin_at s t = S_held \<longrightarrow> spin_at s u = S_held \<longrightarrow> t = u)"

lemma spin_inv_step: "spin_step s s' \<Longrightarrow> spin_inv s \<Longrightarrow> spin_inv s'"
proof (induction rule: spin_step.induct)
  case (spin_unlock s t)
  then have "\<forall>u. spin_at s u = S_held \<longrightarrow> u = t" by (auto simp: spin_inv_def)
  then show ?case by (auto simp: spin_inv_def)
qed (auto simp: spin_inv_def split: if_splits)

section \<open>Locks with one owner\<close>

locale exclusive_lock =
  fixes step :: "'s \<Rightarrow> 's \<Rightarrow> bool" and initial :: 's and owner :: "'s \<Rightarrow> nat \<Rightarrow> bool" and inv :: "'s \<Rightarrow> bool"
  assumes inv_initial: "inv initial"
    and inv_step: "step s s' \<Longrightarrow> inv s \<Longrightarrow> inv s'"
    and inv_owner: "inv s \<Longrightarrow> owner s t \<Longrightarrow> owner s u \<Longrightarrow> t = u"
begin

lemma reachable_inv: "step\<^sup>*\<^sup>* initial s \<Longrightarrow> inv s"
  by (induction rule: rtranclp_induct) (auto intro: inv_initial inv_step)

lemma one_owner: "step\<^sup>*\<^sup>* initial s \<Longrightarrow> owner s t \<Longrightarrow> owner s u \<Longrightarrow> t = u"
  using inv_owner reachable_inv by blast

end

interpretation spin: exclusive_lock spin_step spin_init "\<lambda>s t. spin_at s t = S_held" spin_inv
proof
  show "spin_inv spin_init" by (simp add: spin_inv_def spin_init_def)
  show "spin_step s s' \<Longrightarrow> spin_inv s \<Longrightarrow> spin_inv s'" for s s' by (rule spin_inv_step)
  show "spin_inv s \<Longrightarrow> spin_at s t = S_held \<Longrightarrow> spin_at s u = S_held \<Longrightarrow> t = u" for s t u by (auto simp: spin_inv_def)
qed

section \<open>Reader-writer lock\<close>

text \<open>
  \<open>Rd\<close> and \<open>Wr\<close> acquire; their flag says whether the call is a \<open>try\<close>, which gives up instead of
  spinning. \<open>Un\<close> releases; its flag says whether the write lock is held.
\<close>

datatype rw_loc =
    Idle
  | Rd_start bool
  | Rd_test bool int
  | Rd_cas bool int
  | Reading
  | Wr_start bool
  | Wr_cas bool
  | Wr_won
  | Writing
  | Un_start bool
  | Un_cas bool int
  | Un_error

record rw_state =
  ref_cnt :: int
  wait_write :: int
  rw_at :: "nat \<Rightarrow> rw_loc"

definition rw_init :: rw_state where
  "rw_init = \<lparr>ref_cnt = 0, wait_write = 0, rw_at = (\<lambda>_. Idle)\<rparr>"

abbreviation goto :: "nat \<Rightarrow> rw_loc \<Rightarrow> rw_state \<Rightarrow> rw_state" where
  "goto t l s \<equiv> s\<lparr>rw_at := (rw_at s)(t := l)\<rparr>"

definition retry_read :: "bool \<Rightarrow> rw_loc" where
  "retry_read once = (if once then Idle else Rd_start False)"

definition retry_write :: "bool \<Rightarrow> rw_loc" where
  "retry_write once = (if once then Idle else Wr_start False)"

text \<open>Threads are numbered below \<open>N\<close>.\<close>

inductive rw_step :: "nat \<Rightarrow> rw_state \<Rightarrow> rw_state \<Rightarrow> bool" for N :: nat where
  rdlock: "t < N \<Longrightarrow> rw_at s t = Idle \<Longrightarrow> rw_step N s (goto t (Rd_start once) s)"
| rd_load: "rw_at s t = Rd_start once \<Longrightarrow> rw_step N s (goto t (Rd_test once (ref_cnt s)) s)"
| rd_test: "rw_at s t = Rd_test once v \<Longrightarrow>
    rw_step N s (goto t (if 0 \<le> v \<and> wait_write s = 0 then Rd_cas once v else retry_read once) s)"
| rd_cas: "rw_at s t = Rd_cas once v \<Longrightarrow> ref_cnt s = v \<Longrightarrow> rw_step N s (goto t Reading (s\<lparr>ref_cnt := v + 1\<rparr>))"
| rd_fail: "rw_at s t = Rd_cas once v \<Longrightarrow> rw_step N s (goto t (retry_read once) s)"
| wrlock: "t < N \<Longrightarrow> rw_at s t = Idle \<Longrightarrow> rw_step N s (goto t (Wr_start False) (s\<lparr>wait_write := wait_write s + 1\<rparr>))"
| try_wrlock: "t < N \<Longrightarrow> rw_at s t = Idle \<Longrightarrow> rw_step N s (goto t (Wr_start True) s)"
| wr_load: "rw_at s t = Wr_start once \<Longrightarrow> rw_step N s (goto t (if ref_cnt s = 0 then Wr_cas once else retry_write once) s)"
| wr_cas: "rw_at s t = Wr_cas once \<Longrightarrow> ref_cnt s = 0 \<Longrightarrow> rw_step N s (goto t (if once then Writing else Wr_won) (s\<lparr>ref_cnt := -1\<rparr>))"
| wr_fail: "rw_at s t = Wr_cas once \<Longrightarrow> rw_step N s (goto t (retry_write once) s)"
| wr_done: "rw_at s t = Wr_won \<Longrightarrow> rw_step N s (goto t Writing (s\<lparr>wait_write := wait_write s - 1\<rparr>))"
| unlock_read: "rw_at s t = Reading \<Longrightarrow> rw_step N s (goto t (Un_start False) s)"
| unlock_write: "rw_at s t = Writing \<Longrightarrow> rw_step N s (goto t (Un_start True) s)"
| un_load: "rw_at s t = Un_start w \<Longrightarrow>
    rw_step N s (goto t (if ref_cnt s = -1 \<or> 0 < ref_cnt s then Un_cas w (ref_cnt s) else Un_error) s)"
| un_cas: "rw_at s t = Un_cas w v \<Longrightarrow> ref_cnt s = v \<Longrightarrow>
    rw_step N s (goto t Idle (s\<lparr>ref_cnt := (if v = -1 then 0 else v - 1)\<rparr>))"
| un_fail: "rw_at s t = Un_cas w v \<Longrightarrow> rw_step N s (goto t (Un_start w) s)"

fun holds_read :: "rw_loc \<Rightarrow> bool" where
  "holds_read Reading = True"
| "holds_read (Un_start w) = (\<not> w)"
| "holds_read (Un_cas w v) = (\<not> w)"
| "holds_read l = False"

fun holds_write :: "rw_loc \<Rightarrow> bool" where
  "holds_write Wr_won = True"
| "holds_write Writing = True"
| "holds_write (Un_start w) = w"
| "holds_write (Un_cas w v) = w"
| "holds_write l = False"

fun waits_write :: "rw_loc \<Rightarrow> bool" where
  "waits_write (Wr_start once) = (\<not> once)"
| "waits_write (Wr_cas once) = (\<not> once)"
| "waits_write Wr_won = True"
| "waits_write l = False"

abbreviation threads :: "rw_state \<Rightarrow> (rw_loc \<Rightarrow> bool) \<Rightarrow> nat set" where
  "threads s P \<equiv> {t. P (rw_at s t)}"

text \<open>The count is the number of readers, or -1 with one writer and no reader; the other counter is the number of waiting writers.\<close>

definition rw_inv :: "nat \<Rightarrow> rw_state \<Rightarrow> bool" where
  "rw_inv N s \<longleftrightarrow> (\<forall>t. rw_at s t \<noteq> Idle \<longrightarrow> t < N) \<and> (\<forall>t. rw_at s t \<noteq> Un_error) \<and>
     (\<forall>t once v. rw_at s t = Rd_cas once v \<longrightarrow> 0 \<le> v) \<and>
     ref_cnt s = int (card (threads s holds_read)) - int (card (threads s holds_write)) \<and>
     card (threads s holds_write) \<le> 1 \<and> (threads s holds_write \<noteq> {} \<longrightarrow> threads s holds_read = {}) \<and>
     wait_write s = int (card (threads s waits_write))"

lemma threads_finite: "rw_inv N s \<Longrightarrow> \<not> P Idle \<Longrightarrow> finite (threads s P)"
proof -
  assume inv: "rw_inv N s" and P: "\<not> P Idle"
  have "t < N" if "P (rw_at s t)" for t
  proof -
    have "rw_at s t \<noteq> Idle" using that P by metis
    then show ?thesis using inv by (simp add: rw_inv_def)
  qed
  then have "threads s P \<subseteq> {..<N}" by blast
  then show "finite (threads s P)" using finite_subset finite_lessThan by blast
qed

text \<open>How one move of a thread changes a count.\<close>

lemma card_goto:
  assumes "finite (threads s P)"
  shows "card {u. P (((rw_at s)(t := l)) u)} =
    (if P (rw_at s t) then if P l then card (threads s P) else card (threads s P) - 1
     else if P l then card (threads s P) + 1 else card (threads s P))"
proof -
  have e: "{u. P (((rw_at s)(t := l)) u)} = (if P l then insert t (threads s P) else threads s P - {t})" by auto
  show ?thesis unfolding e using assms by (auto simp: card_insert_if)
qed

lemma card_pos: "finite (threads s P) \<Longrightarrow> P (rw_at s t) \<Longrightarrow> 0 < card (threads s P)"
  by (auto simp: card_gt_0_iff)

lemma rw_below: "rw_inv N s \<Longrightarrow> rw_at s t \<noteq> Idle \<Longrightarrow> t < N"
  by (simp add: rw_inv_def)

lemma rw_holder:
  assumes "rw_inv N s"
  shows "holds_read (rw_at s t) \<Longrightarrow> 0 < ref_cnt s" "holds_write (rw_at s t) \<Longrightarrow> ref_cnt s = -1"
    "ref_cnt s = 0 \<Longrightarrow> threads s holds_write = {} \<and> threads s holds_read = {}" "0 \<le> ref_cnt s \<Longrightarrow> threads s holds_write = {}"
proof -
  have f: "finite (threads s holds_read)" "finite (threads s holds_write)" using threads_finite[OF assms] by simp_all
  note i = assms[unfolded rw_inv_def]
  show "0 < ref_cnt s" if "holds_read (rw_at s t)"
  proof -
    have "threads s holds_write = {}" using i that by auto
    then show ?thesis using i card_pos[OF f(1) that] by simp
  qed
  show w: "ref_cnt s = -1" if "holds_write (rw_at s t)" for t
  proof -
    have "threads s holds_read = {}" using i that by auto
    then show ?thesis using i card_pos[OF f(2) that] by simp
  qed
  show nw: "threads s holds_write = {}" if "0 \<le> ref_cnt s" using w that by fastforce
  show "threads s holds_write = {} \<and> threads s holds_read = {}" if "ref_cnt s = 0"
    using nw that i f(1) by simp
qed

text \<open>A move keeps the invariant if it changes the counters as it changes what the thread holds.\<close>

lemma rw_inv_move:
  assumes "rw_inv N s" "t < N" "l \<noteq> Un_error" "\<And>once v. l = Rd_cas once v \<Longrightarrow> 0 \<le> v"
    and "c = ref_cnt s + (of_bool (holds_read l) - of_bool (holds_read (rw_at s t))) - (of_bool (holds_write l) - of_bool (holds_write (rw_at s t)))"
    and "q = wait_write s + (of_bool (waits_write l) - of_bool (waits_write (rw_at s t)))"
    and "holds_write l \<Longrightarrow> \<not> holds_write (rw_at s t) \<Longrightarrow> ref_cnt s = 0" "holds_read l \<Longrightarrow> \<not> holds_read (rw_at s t) \<Longrightarrow> 0 \<le> ref_cnt s"
    and "\<not> (holds_write l \<and> holds_read (rw_at s t))" "\<not> (holds_read l \<and> holds_write (rw_at s t))"
  shows "rw_inv N (goto t l (s\<lparr>ref_cnt := c, wait_write := q\<rparr>))"
proof -
  note i = assms(1)[unfolded rw_inv_def]
  have f: "finite (threads s holds_read)" "finite (threads s holds_write)" "finite (threads s waits_write)"
    using threads_finite[OF assms(1)] by simp_all
  note h = rw_holder[OF assms(1)]
  have pos: "holds_read (rw_at s t) \<Longrightarrow> 0 < card (threads s holds_read)" "holds_write (rw_at s t) \<Longrightarrow> 0 < card (threads s holds_write)"
    "waits_write (rw_at s t) \<Longrightarrow> 0 < card (threads s waits_write)" using card_pos f by blast+
  let ?R = "{u. holds_read (((rw_at s)(t := l)) u)}" and ?W = "{u. holds_write (((rw_at s)(t := l)) u)}"
  have cnt: "c = int (card ?R) - int (card ?W)"
    using assms(5) i pos(1,2) unfolding card_goto[OF f(1)] card_goto[OF f(2)] by (auto simp: of_nat_diff)
  have q: "q = int (card {u. waits_write (((rw_at s)(t := l)) u)})"
    using assms(6) i pos(3) unfolding card_goto[OF f(3)] by (auto simp: of_nat_diff)
  have "card (threads s holds_write) \<le> 1" using i by simp
  moreover have "card (threads s holds_write) = 0" if "holds_write l" "\<not> holds_write (rw_at s t)" using h(3)[OF assms(7)[OF that]] by simp
  ultimately have w1: "card ?W \<le> 1" unfolding card_goto[OF f(2)] by auto
  have excl: "?W \<noteq> {} \<longrightarrow> ?R = {}"
  proof (intro impI)
    assume "?W \<noteq> {}"
    then obtain u where u: "holds_write (((rw_at s)(t := l)) u)" by blast
    show "?R = {}"
    proof (cases "u = t")
      case True
      then have l: "holds_write l" "\<not> holds_read l" using u by (simp, cases l) auto
      have "threads s holds_read = {}"
      proof (cases "holds_write (rw_at s t)")
        case True
        then have "threads s holds_write \<noteq> {}" by blast
        then show ?thesis using i by simp
      next
        case False
        then show ?thesis using h(3)[OF assms(7)[OF l(1)]] by simp
      qed
      then show ?thesis using l(2) by auto
    next
      case False
      then have "holds_write (rw_at s u)" using u by simp
      then have "threads s holds_read = {}" "ref_cnt s = -1" using i h(2)[of u] by auto
      moreover have "\<not> holds_read l" using assms(8,10) \<open>ref_cnt s = -1\<close> \<open>threads s holds_read = {}\<close> by auto
      ultimately show ?thesis by auto
    qed
  qed
  show ?thesis unfolding rw_inv_def using i assms(2,3,4) cnt q w1 excl by auto
qed

lemma rw_inv_stay:
  assumes "rw_inv N s" "t < N" "l \<noteq> Un_error" "\<And>once v. l = Rd_cas once v \<Longrightarrow> 0 \<le> v"
    and "holds_read l = holds_read (rw_at s t)" "holds_write l = holds_write (rw_at s t)" "waits_write l = waits_write (rw_at s t)"
  shows "rw_inv N (goto t l s)"
proof -
  have "\<not> (holds_write (rw_at s t) \<and> holds_read (rw_at s t))" by (cases "rw_at s t") auto
  then have "rw_inv N (goto t l (s\<lparr>ref_cnt := ref_cnt s, wait_write := wait_write s\<rparr>))"
    using assms(2-7) by (intro rw_inv_move[OF assms(1)]) auto
  then show ?thesis by simp
qed

lemma retry_sel [simp]:
  "\<not> holds_read (retry_read b)" "\<not> holds_write (retry_read b)" "\<not> waits_write (retry_read b)" "retry_read b \<noteq> Un_error"
  "retry_read b \<noteq> Rd_cas once v"
  "\<not> holds_read (retry_write b)" "\<not> holds_write (retry_write b)" "waits_write (retry_write b) = (\<not> b)" "retry_write b \<noteq> Un_error"
  "retry_write b \<noteq> Rd_cas once v"
  by (simp_all add: retry_read_def retry_write_def)

lemma rw_inv_step:
  assumes "rw_step N s s'" "rw_inv N s"
  shows "rw_inv N s'"
  using assms(1)
proof (cases rule: rw_step.cases)
  case (rdlock t once)
  then show ?thesis using rw_inv_stay[OF assms(2), of t "Rd_start once"] by simp
next
  case (rd_load t once)
  then show ?thesis using rw_inv_stay[OF assms(2), of t "Rd_test once (ref_cnt s)"] rw_below[OF assms(2), of t] by simp
next
  case (rd_test t once v)
  then have "t < N" using rw_below[OF assms(2), of t] by simp
  then show ?thesis unfolding rd_test(1)
    by (intro rw_inv_stay[OF assms(2)]) (use rd_test(2) in \<open>simp_all split: if_splits\<close>)
next
  case (rd_cas t once v)
  have "0 \<le> v" using rd_cas(2) assms(2) by (auto simp: rw_inv_def)
  then show ?thesis using rw_inv_move[OF assms(2), of t Reading "v + 1" "wait_write s"] rd_cas rw_below[OF assms(2), of t] by simp
next
  case (rd_fail t once v)
  then show ?thesis using rw_inv_stay[OF assms(2), of t "retry_read once"] rw_below[OF assms(2), of t] by simp
next
  case (wrlock t)
  then show ?thesis using rw_inv_move[OF assms(2), of t "Wr_start False" "ref_cnt s" "wait_write s + 1"] by simp
next
  case (try_wrlock t)
  then show ?thesis using rw_inv_stay[OF assms(2), of t "Wr_start True"] by simp
next
  case (wr_load t once)
  then show ?thesis using rw_inv_stay[OF assms(2), of t "if ref_cnt s = 0 then Wr_cas once else retry_write once"] rw_below[OF assms(2), of t]
    by (cases "ref_cnt s = 0") simp_all
next
  case (wr_cas t once)
  then show ?thesis using rw_inv_move[OF assms(2), of t "if once then Writing else Wr_won" "-1" "wait_write s"] rw_below[OF assms(2), of t]
    by (cases once) simp_all
next
  case (wr_fail t once)
  then show ?thesis using rw_inv_stay[OF assms(2), of t "retry_write once"] rw_below[OF assms(2), of t] by simp
next
  case (wr_done t)
  then show ?thesis using rw_inv_move[OF assms(2), of t Writing "ref_cnt s" "wait_write s - 1"] rw_below[OF assms(2), of t] by simp
next
  case (unlock_read t)
  then show ?thesis using rw_inv_stay[OF assms(2), of t "Un_start False"] rw_below[OF assms(2), of t] by simp
next
  case (unlock_write t)
  then show ?thesis using rw_inv_stay[OF assms(2), of t "Un_start True"] rw_below[OF assms(2), of t] by simp
next
  case (un_load t w)
  have "ref_cnt s = -1 \<or> 0 < ref_cnt s" using un_load(2) rw_holder(1,2)[OF assms(2), of t] by (cases w) auto
  then show ?thesis using un_load rw_inv_stay[OF assms(2), of t "Un_cas w (ref_cnt s)"] rw_below[OF assms(2), of t] by auto
next
  case (un_cas t w v)
  have "(w \<longrightarrow> ref_cnt s = -1) \<and> (\<not> w \<longrightarrow> 0 < ref_cnt s)" using un_cas(2) rw_holder(1,2)[OF assms(2), of t] by auto
  then show ?thesis
    using un_cas rw_inv_move[OF assms(2), of t Idle "if v = -1 then 0 else v - 1" "wait_write s"] rw_below[OF assms(2), of t] by (cases w) auto
next
  case (un_fail t w v)
  then show ?thesis using rw_inv_stay[OF assms(2), of t "Un_start w"] rw_below[OF assms(2), of t] by simp
qed

interpretation rw: exclusive_lock "rw_step N" rw_init "\<lambda>s t. holds_write (rw_at s t)" "rw_inv N"
proof
  show "rw_inv N rw_init" by (simp add: rw_inv_def rw_init_def)
  show "rw_step N s s' \<Longrightarrow> rw_inv N s \<Longrightarrow> rw_inv N s'" for s s' by (rule rw_inv_step)
  show "t = u" if "rw_inv N s" "holds_write (rw_at s t)" "holds_write (rw_at s u)" for s t u
  proof (rule ccontr)
    assume "t \<noteq> u"
    then have "card {t, u} = 2" by simp
    have "finite (threads s holds_write)" using threads_finite[OF that(1)] by simp
    then have "card {t, u} \<le> card (threads s holds_write)" using that(2,3) by (intro card_mono) auto
    then have "2 \<le> card (threads s holds_write)" using \<open>card {t, u} = 2\<close> by simp
    then show False using that(1) by (simp add: rw_inv_def)
  qed
qed

section \<open>Blocking counter\<close>

datatype dec_loc = D_pending | D_notify | D_done

datatype wait_loc = W_idle | W_wait | W_done | W_timeout

text \<open>\<open>bc_word\<close> is \<open>state_\<close>, twice the count plus the flag of the waiters.\<close>

record bc_state =
  bc_word :: int
  notified :: bool
  dec_at :: "nat \<Rightarrow> dec_loc"
  wait_at :: "nat \<Rightarrow> wait_loc"

definition bc_init :: "nat \<Rightarrow> bc_state" where
  "bc_init initial_count = \<lparr>bc_word = int initial_count * 2, notified = False, dec_at = (\<lambda>_. D_pending), wait_at = (\<lambda>_. W_idle)\<rparr>"

text \<open>\<open>n\<close> threads call \<open>decrement_count\<close> once each; any number of threads call \<open>wait\<close> or \<open>wait_for\<close>.\<close>

inductive bc_step :: "nat \<Rightarrow> bc_state \<Rightarrow> bc_state \<Rightarrow> bool" for n :: nat where
  decrement: "i < n \<Longrightarrow> dec_at s i = D_pending \<Longrightarrow> v = bc_word s - 2 \<Longrightarrow>
    bc_step n s (s\<lparr>bc_word := v, dec_at := (dec_at s)(i := if v \<noteq> 1 then D_done else D_notify)\<rparr>)"
| notify: "dec_at s i = D_notify \<Longrightarrow> bc_step n s (s\<lparr>notified := True, dec_at := (dec_at s)(i := D_done)\<rparr>)"
| wait: "wait_at s t = W_idle \<Longrightarrow> v = bc_word s \<Longrightarrow>
    bc_step n s (s\<lparr>bc_word := (if even v then v + 1 else v), wait_at := (wait_at s)(t := if v div 2 = 0 then W_done else W_wait)\<rparr>)"
| wake: "wait_at s t = W_wait \<Longrightarrow> notified s \<Longrightarrow> bc_step n s (s\<lparr>wait_at := (wait_at s)(t := W_done)\<rparr>)"
| timeout: "wait_at s t = W_wait \<Longrightarrow> bc_step n s (s\<lparr>wait_at := (wait_at s)(t := W_timeout)\<rparr>)"

definition pending :: "nat \<Rightarrow> bc_state \<Rightarrow> nat set" where
  "pending n s = {i. i < n \<and> dec_at s i = D_pending}"

definition bc_inv :: "nat \<Rightarrow> bc_state \<Rightarrow> bool" where
  "bc_inv n s \<longleftrightarrow> bc_word s = 2 * int (card (pending n s)) + of_bool (\<exists>t. wait_at s t \<noteq> W_idle) \<and>
     (\<forall>i. dec_at s i \<noteq> D_pending \<longrightarrow> i < n) \<and> (notified s \<longrightarrow> pending n s = {}) \<and> (\<forall>i. dec_at s i = D_notify \<longrightarrow> pending n s = {}) \<and>
     (\<forall>t. wait_at s t = W_done \<longrightarrow> pending n s = {}) \<and>
     (\<forall>t. wait_at s t = W_wait \<longrightarrow> pending n s = {} \<longrightarrow> notified s \<or> (\<exists>i. dec_at s i = D_notify))"

lemma pending_finite [simp]: "finite (pending n s)"
  by (simp add: pending_def)

lemma pending_cong: "dec_at s' = dec_at s \<Longrightarrow> pending n s' = pending n s"
  by (simp add: pending_def)

lemma bc_inv_decrement:
  assumes "bc_inv n s" "i < n" "dec_at s i = D_pending" "v = bc_word s - 2"
  shows "bc_inv n (s\<lparr>bc_word := v, dec_at := (dec_at s)(i := if v \<noteq> 1 then D_done else D_notify)\<rparr>)"
proof -
  let ?s = "s\<lparr>bc_word := v, dec_at := (dec_at s)(i := if v \<noteq> 1 then D_done else D_notify)\<rparr>"
  have i: "i \<in> pending n s" using assms(2,3) by (simp add: pending_def)
  have p: "pending n ?s = pending n s - {i}" by (auto simp: pending_def)
  have pos: "0 < card (pending n s)" using i card_gt_0_iff[of "pending n s"] by auto
  have c: "int (card (pending n ?s)) = int (card (pending n s)) - 1" unfolding p using i pos by simp
  note inv = assms(1)[unfolded bc_inv_def]
  have w: "v = 2 * int (card (pending n ?s)) + of_bool (\<exists>t. wait_at s t \<noteq> W_idle)" using inv assms(4) c by simp
  have last: "v = 1 \<longleftrightarrow> pending n ?s = {} \<and> (\<exists>t. wait_at s t \<noteq> W_idle)"
  proof
    assume v: "v = 1"
    have some: "\<exists>t. wait_at s t \<noteq> W_idle"
    proof (rule ccontr)
      assume "\<not> (\<exists>t. wait_at s t \<noteq> W_idle)"
      then have "v = 2 * int (card (pending n ?s))" using w by simp
      then show False using v by presburger
    qed
    then have "card (pending n ?s) = 0" using w v by simp
    then show "pending n ?s = {} \<and> (\<exists>t. wait_at s t \<noteq> W_idle)" using some by simp
  qed (use w in simp)
  show ?thesis unfolding bc_inv_def
  proof (intro conjI)
    show "bc_word ?s = 2 * int (card (pending n ?s)) + of_bool (\<exists>t. wait_at ?s t \<noteq> W_idle)" using w by simp
    show "\<forall>j. dec_at ?s j \<noteq> D_pending \<longrightarrow> j < n" using inv assms(2) by simp
    show "notified ?s \<longrightarrow> pending n ?s = {}" using inv p by auto
    show "\<forall>j. dec_at ?s j = D_notify \<longrightarrow> pending n ?s = {}" using inv i last by auto
    show "\<forall>t. wait_at ?s t = W_done \<longrightarrow> pending n ?s = {}" using inv p by auto
    show "\<forall>t. wait_at ?s t = W_wait \<longrightarrow> pending n ?s = {} \<longrightarrow> notified ?s \<or> (\<exists>j. dec_at ?s j = D_notify)"
    proof (intro allI impI)
      fix t
      assume t: "wait_at ?s t = W_wait" "pending n ?s = {}"
      have "\<exists>t. wait_at s t \<noteq> W_idle" using t(1) by (intro exI[of _ t]) simp
      then have "v = 1" using last t(2) by blast
      then show "notified ?s \<or> (\<exists>j. dec_at ?s j = D_notify)" by auto
    qed
  qed
qed

lemma bc_inv_step: "bc_step n s s' \<Longrightarrow> bc_inv n s \<Longrightarrow> bc_inv n s'"
proof (induction rule: bc_step.induct)
  case (decrement i s v)
  then show ?case by (intro bc_inv_decrement) auto
next
  case (notify s i)
  have "pending n (s\<lparr>notified := True, dec_at := (dec_at s)(i := D_done)\<rparr>) = pending n s" using notify(1) by (auto simp: pending_def)
  then show ?case using notify by (auto simp: bc_inv_def)
next
  case (wait s t v)
  let ?s = "s\<lparr>bc_word := (if even v then v + 1 else v), wait_at := (wait_at s)(t := if v div 2 = 0 then W_done else W_wait)\<rparr>"
  have p: "pending n ?s = pending n s" by (rule pending_cong) simp
  have w: "v = 2 * int (card (pending n s)) + of_bool (\<exists>t. wait_at s t \<noteq> W_idle)" using wait by (simp add: bc_inv_def)
  then have d: "v div 2 = int (card (pending n s))" by simp
  have word: "bc_word ?s = 2 * int (card (pending n s)) + 1" using w by auto
  have some: "\<exists>u. wait_at ?s u \<noteq> W_idle" by (rule exI[of _ t]) auto
  show ?case using wait(3) p d word some by (auto simp: bc_inv_def)
next
  case (wake s t)
  have "pending n (s\<lparr>wait_at := (wait_at s)(t := W_done)\<rparr>) = pending n s" by (rule pending_cong) simp
  then show ?case using wake by (auto simp: bc_inv_def)
next
  case (timeout s t)
  have "pending n (s\<lparr>wait_at := (wait_at s)(t := W_timeout)\<rparr>) = pending n s" by (rule pending_cong) simp
  then show ?case using timeout by (auto simp: bc_inv_def)
qed

lemma bc_reachable_inv: "(bc_step n)\<^sup>*\<^sup>* (bc_init n) s \<Longrightarrow> bc_inv n s"
proof (induction rule: rtranclp_induct)
  case base
  have "pending n (bc_init n) = {..<n}" by (auto simp: pending_def bc_init_def)
  then show ?case by (simp add: bc_inv_def) (simp add: bc_init_def)
qed (rule bc_inv_step)

end
