(* ===== verification/Sync_Properties.thy ===== *)
theory Sync_Properties
  imports Locks
begin

text \<open>The properties of the spin locks and of the blocking counter, with a run of each.\<close>

section \<open>Reader-writer lock\<close>

text \<open>C38: in every reachable state of any number of threads that lock, try to lock and unlock, at most
  one thread holds the write lock, no thread then holds a read lock, the unlocking of a holder
  never takes the error branch, and the counter stays within the number of threads.\<close>

theorem rw_lock_exclusion:
  assumes "(rw_step N)\<^sup>*\<^sup>* rw_init s"
  shows "(\<forall>t u. holds_write (rw_at s t) \<longrightarrow> (holds_write (rw_at s u) \<longrightarrow> t = u) \<and> \<not> holds_read (rw_at s u)) \<and>
    (\<forall>t. rw_at s t \<noteq> Un_error) \<and> -1 \<le> ref_cnt s \<and> ref_cnt s \<le> int N \<and> 0 \<le> wait_write s \<and> wait_write s \<le> int N"
proof -
  note inv = rw.reachable_inv[OF assms]
  note i = inv[unfolded rw_inv_def]
  have "threads s P \<subseteq> {..<N}" if "\<not> P Idle" for P
  proof
    fix t
    assume "t \<in> threads s P"
    then have "rw_at s t \<noteq> Idle" using that by (metis mem_Collect_eq)
    then show "t \<in> {..<N}" using rw_below[OF inv] by simp
  qed
  then have b: "card (threads s P) \<le> N" if "\<not> P Idle" for P using card_mono[of "{..<N}"] that by fastforce
  have "(holds_write (rw_at s u) \<longrightarrow> t = u) \<and> \<not> holds_read (rw_at s u)" if "holds_write (rw_at s t)" for t u
  proof
    show "holds_write (rw_at s u) \<longrightarrow> t = u" using rw.one_owner[OF assms that] by blast
    have "threads s holds_write \<noteq> {}" using that by blast
    then have "threads s holds_read = {}" using i by simp
    then show "\<not> holds_read (rw_at s u)" by blast
  qed
  moreover have "-1 \<le> ref_cnt s \<and> ref_cnt s \<le> int N \<and> 0 \<le> wait_write s \<and> wait_write s \<le> int N"
    using i b[of holds_read] b[of waits_write] by simp
  ultimately show ?thesis using i by blast
qed

text \<open>Thread 1 takes the write lock while thread 0 waits to read.\<close>

definition writer_state :: rw_state where
  "writer_state = \<lparr>ref_cnt = -1, wait_write = 0, rw_at = (\<lambda>_. Idle)(0 := Rd_start False, 1 := Writing)\<rparr>"

lemma writer_state_reachable: "(rw_step 2)\<^sup>*\<^sup>* rw_init writer_state"
proof -
  let ?at = "\<lambda>l. (\<lambda>_. Idle)(0 := Rd_start False, 1 := l) :: nat \<Rightarrow> rw_loc"
  have "(rw_step 2)\<^sup>*\<^sup>* rw_init (goto 0 (Rd_start False) rw_init)"
    by (rule r_into_rtranclp, rule rw_step.rdlock) (simp_all add: rw_init_def)
  also have "rw_step 2 \<dots> \<lparr>ref_cnt = 0, wait_write = 1, rw_at = ?at (Wr_start False)\<rparr>"
    using rw_step.wrlock[of 1 2 "goto 0 (Rd_start False) rw_init"] by (simp add: rw_init_def)
  also (rtranclp.rtrancl_into_rtrancl) have "rw_step 2 \<dots> \<lparr>ref_cnt = 0, wait_write = 1, rw_at = ?at (Wr_cas False)\<rparr>"
    using rw_step.wr_load[of "\<lparr>ref_cnt = 0, wait_write = 1, rw_at = ?at (Wr_start False)\<rparr>" 1 False 2] by simp
  also (rtranclp.rtrancl_into_rtrancl) have "rw_step 2 \<dots> \<lparr>ref_cnt = -1, wait_write = 1, rw_at = ?at Wr_won\<rparr>"
    using rw_step.wr_cas[of "\<lparr>ref_cnt = 0, wait_write = 1, rw_at = ?at (Wr_cas False)\<rparr>" 1 False 2] by simp
  also (rtranclp.rtrancl_into_rtrancl) have "rw_step 2 \<dots> writer_state"
    using rw_step.wr_done[of "\<lparr>ref_cnt = -1, wait_write = 1, rw_at = ?at Wr_won\<rparr>" 1 2] by (simp add: writer_state_def)
  finally (rtranclp.rtrancl_into_rtrancl) show ?thesis .
qed

theorem rw_lock_exclusion_witness:
  "holds_write (rw_at writer_state 1) \<and> \<not> holds_write (rw_at writer_state 0) \<and> \<not> holds_read (rw_at writer_state 0) \<and> ref_cnt writer_state \<le> 2"
proof -
  have "holds_write (rw_at writer_state 1)" by (simp add: writer_state_def)
  then show ?thesis using rw_lock_exclusion[OF writer_state_reachable] by (metis of_nat_numeral zero_neq_one)
qed

section \<open>Blocking counter\<close>

text \<open>C39: \<open>wait\<close> of \<open>BlockingCounter\<close> returns only after all decrements; and no wakeup is lost: when all
  decrementing threads have left \<open>decrement_count\<close>, every thread that waits finds the flag set.\<close>

theorem counter_no_lost_wakeup:
  assumes "(bc_step n)\<^sup>*\<^sup>* (bc_init n) s"
  shows "(wait_at s t = W_done \<longrightarrow> (\<forall>i < n. dec_at s i \<noteq> D_pending)) \<and>
    (wait_at s t = W_wait \<longrightarrow> (\<forall>i < n. dec_at s i = D_done) \<longrightarrow> notified s)"
proof -
  note i = bc_reachable_inv[OF assms, unfolded bc_inv_def]
  have "\<forall>i < n. dec_at s i \<noteq> D_pending" if "wait_at s t = W_done" using i that by (auto simp: pending_def)
  moreover have "notified s" if w: "wait_at s t = W_wait" and d: "\<forall>i < n. dec_at s i = D_done"
  proof -
    have "pending n s = {}" using d by (auto simp: pending_def)
    then have "notified s \<or> (\<exists>j. dec_at s j = D_notify)" using i w by (simp, blast)
    moreover have "dec_at s j \<noteq> D_notify" for j
    proof
      assume "dec_at s j = D_notify"
      moreover have "j < n" using i \<open>dec_at s j = D_notify\<close> by simp
      ultimately show False using d by simp
    qed
    ultimately show ?thesis by blast
  qed
  ultimately show ?thesis by blast
qed

text \<open>One decrement that finds a waiter, and its notification.\<close>

definition notified_state :: bc_state where
  "notified_state = \<lparr>bc_word = 1, notified = True, dec_at = (\<lambda>_. D_pending)(0 := D_done), wait_at = (\<lambda>_. W_idle)(7 := W_wait)\<rparr>"

lemma notified_state_reachable: "(bc_step 1)\<^sup>*\<^sup>* (bc_init 1) notified_state"
proof -
  let ?w = "(\<lambda>_. W_idle)(7 := W_wait) :: nat \<Rightarrow> wait_loc"
  let ?s0 = "\<lparr>bc_word = 2, notified = False, dec_at = (\<lambda>_. D_pending), wait_at = (\<lambda>_. W_idle)\<rparr>"
  have "(bc_step 1)\<^sup>*\<^sup>* (bc_init 1) ?s0" by (simp add: bc_init_def)
  also have "bc_step 1 ?s0 \<lparr>bc_word = 3, notified = False, dec_at = (\<lambda>_. D_pending), wait_at = ?w\<rparr>"
    using bc_step.wait[of ?s0 7 2 1] by simp
  also (rtranclp.rtrancl_into_rtrancl) have "bc_step 1 \<dots> \<lparr>bc_word = 1, notified = False, dec_at = (\<lambda>_. D_pending)(0 := D_notify), wait_at = ?w\<rparr>"
    using bc_step.decrement[of 0 1 "\<lparr>bc_word = 3, notified = False, dec_at = (\<lambda>_. D_pending), wait_at = ?w\<rparr>" 1] by simp
  also (rtranclp.rtrancl_into_rtrancl) have "bc_step 1 \<dots> notified_state"
    using bc_step.notify[of "\<lparr>bc_word = 1, notified = False, dec_at = (\<lambda>_. D_pending)(0 := D_notify), wait_at = ?w\<rparr>" 0 1]
    by (simp add: notified_state_def)
  finally (rtranclp.rtrancl_into_rtrancl) show ?thesis .
qed

theorem counter_no_lost_wakeup_witness:
  "wait_at notified_state 7 = W_wait \<and> dec_at notified_state 0 = D_done \<and> notified notified_state"
proof -
  have "wait_at notified_state 7 = W_wait" "\<forall>i < 1. dec_at notified_state i = D_done" by (simp_all add: notified_state_def)
  then show ?thesis using counter_no_lost_wakeup[OF notified_state_reachable, of 7] by blast
qed

end
