(* ===== verification/Spec2Isabelle.thy ===== *)
theory Spec2Isabelle
  imports Page_Properties Chunked_Properties Prefill_Only_Properties Admission_Properties
    Util_Properties Parser_Properties Tokenizer_Properties Sync_Properties
begin

text \<open>
  \<^bold>\<open>Verification of the scheduling and the KV-cache memory management of xLLM\<close>

  xLLM is a C++ inference engine for large language models. While it generates tokens it keeps
  keys and values of all earlier tokens in fixed-size blocks. The development models the code
  that owns these blocks, from the reference-counted handles up to the pool the schedulers
  call, the sequences that hold them, the scheduler that decides which sequences run, the
  batches it builds, and the page allocator of the XTensor mode; and, beside these, the byte pair
  tokenizer, the parser of reasoning text, the rate limiter, a hash map, and the locks. Sources
  are under \<open>src/xllm/core/\<close> unless their path says otherwise; definitions have the name of the C++ function where possible, with
  a prefix where two classes share a name (\<open>bm_\<close> \<open>BlockManagerImpl\<close>, \<open>bp_\<close> \<open>BlockManagerPool\<close>,
  \<open>pc_\<close> \<open>PrefixCache\<close>, \<open>em_\<close> \<open>EmbeddingManager\<close>, \<open>kv_\<close> \<open>KVCacheState\<close>, \<open>vp_\<close> \<open>VirtPage\<close>, \<open>pa_\<close>
  \<open>PageAllocator\<close>, \<open>xb_\<close> \<open>XTensorBlockManagerImpl\<close>, \<open>im_\<close> \<open>Int32Map\<close>, \<open>rl_\<close> \<open>RateLimiter\<close>,
  \<open>chunk_\<close>, \<open>po_\<close> and \<open>zero_\<close> the chunked prefill, prefill-only and zero-eviction schedulers).

  \<^bold>\<open>How the code is modelled\<close>

  An object is a record of its fields; a method takes and returns the records it changes. A
  failed \<open>CHECK\<close>, \<open>LOG(FATAL)\<close>, an exception, a use after free and an out-of-range access are
  values of \<open>err\<close> (theory \<open>Prelude\<close>), so a theorem that an operation returns \<open>Inr\<close> says that none
  of them happens. Sizes are \<open>nat\<close>; where an unsigned subtraction can wrap, or a value is
  truncated to 32 bits, the model writes it out. Reference counts live in an explicit heap, and
  constructors, copies and destructors of handles are calls on it. Loops are structural
  recursion, recursion with a measure, or, for the waiting loops of the page allocator, fuel:
  the loop of \<open>alloc_kv_cache_page\<close> is shown to need one round, so any positive fuel is enough.

  \<^bold>\<open>Components\<close>

  \<^item> \<open>Hash_Keys\<close> (\<open>util/hash_util.h\<close>): the 16-byte key of a prefix and its comparison functors.
    xxHash and \<open>std::hash\<close> are parameters, with the one assumption that a hash has 16 bytes.
  \<^item> \<open>Blocks\<close> (\<open>framework/block/block.{h,cpp}\<close>): handles, reference counts, the free stack.
    \<open>arena_inv A T\<close> says that the handles in existence are exactly the multiset \<open>T\<close> and that
    every block is either free or counted; the locale \<open>handle_store\<close> is what the clients use.
  \<^item> \<open>DNode_List\<close>, \<open>Prefix_Cache\<close>, \<open>Prefix_Cache_Correct\<close>, \<open>Prefix_Cache_Evict\<close>,
    \<open>Prefix_Cache_Roundtrip\<close> (\<open>framework/prefix_cache/prefix_cache.{h,cpp}\<close>): the intrusive LRU
    list as pointer updates, refined to lists through the locale \<open>lru_lists\<close>; \<open>match\<close>, both
    \<open>insert\<close>, \<open>evict\<close> and \<open>compute_hash_keys\<close>, related to a map from keys to blocks (\<open>view\<close>).
  \<^item> \<open>Block_Manager\<close>, \<open>Block_Usage\<close> (\<open>framework/block/block_manager_impl.{h,cpp}\<close>): allocation with
    eviction, sharing, caching, and the counter of used blocks. \<open>bm_inv\<close> ties free stack,
    counters, cache and client handles together.
  \<^item> \<open>Embedding_Manager\<close> (\<open>framework/block/embedding_manager.{h,cpp}\<close>): ids of embeddings.
  \<^item> \<open>KV_State\<close> (\<open>framework/request/sequence_kv_state.{h,cpp}\<close>): the blocks of a sequence.
  \<^item> \<open>Stopping\<close>, \<open>Sequences\<close>, \<open>Incremental_Decoder\<close> (\<open>framework/request/stopping_checker.cpp\<close>,
    \<open>sequence.{h,cpp}\<close>, \<open>incremental_decoder.{h,cpp}\<close>): when a sequence stops, its tokens with and
    without overlapped scheduling (\<open>ov_run\<close> runs the overlapped schedule and is refined to plain
    appending), and the text streamed to the client.
  \<^item> \<open>Block_Pool\<close>, \<open>Block_Pool_Correct\<close>, \<open>Block_Pool_Alloc\<close>
    (\<open>framework/block/block_manager_pool.{h,cpp}\<close>): one manager and one embedding manager per
    rank, and \<open>allocate\<close>, \<open>deallocate\<close> and their parts on a sequence. \<open>alloc_ok\<close> and \<open>rank_ok\<close>
    are the invariant of a rank for the handles held.
  \<^item> \<open>Page_Allocator\<close>, \<open>Page_Allocator_Steps\<close>, \<open>Page_Allocator_Inv\<close>, \<open>Page_Source\<close>
    (\<open>framework/xtensor/page_allocator.{h,cpp}\<close>): one definition per critical section, the step
    relation \<open>pa_step\<close> that interleaves them, its invariants, and the locale \<open>page_source\<close> that
    \<open>XTensorBlockManagerImpl\<close> relies on.
  \<^item> \<open>Virt_Page\<close>, \<open>Phy_Page_Pool\<close>, \<open>XTensor_Block_Manager\<close>, \<open>XTensor_Blocks\<close>
    (\<open>framework/xtensor/\<close>): blocks of a page, the pool of physical pages, and the block manager
    that carves blocks out of pages.
  \<^item> \<open>Requests\<close> (\<open>framework/request/request.{h,cpp}\<close>, \<open>sequences_group.cpp\<close>,
    \<open>priority_comparator.cpp\<close>): groups of sequences and the orders of the queues; the locale
    \<open>keyed_comparator\<close> is what a comparator by a key promises to \<open>std::priority_queue\<close>.
  \<^item> \<open>Scheduler\<close>, \<open>Scheduler_Decode\<close>, \<open>Scheduler_Correct\<close>, \<open>Scheduler_Order\<close>
    (\<open>scheduler/continuous_scheduler.{h,cpp}\<close>): \<open>prepare_batch\<close>, with the prefill and the decode
    loop, beam search, preemption, and requests given up. The KV cache manager is the record
    \<open>kv_ops\<close> of its virtual methods, which \<open>pool_kv\<close> fills with \<open>BlockManagerPool\<close>; budgets and the
    conservation of requests are shown for every manager.
  \<^item> \<open>Chunked_Prefill\<close>, \<open>Chunked_Correct\<close>, \<open>Chunked_Order\<close>
    (\<open>scheduler/chunked_prefill_scheduler.{h,cpp}\<close>, \<open>scheduler_factory.cpp\<close>): the scheduler that
    fills a batch with decode steps first and chunks of prompts then, over the same queues, and
    the choice between the schedulers. The locale \<open>chunk_invariant\<close> carries a property that its
    two loops preserve over a whole step; it is interpreted for the budgets, for the
    conservation of requests and for the admission of waiting requests.
  \<^item> \<open>Prefill_Only\<close>, \<open>Prefill_Only_Correct\<close> (\<open>scheduler/prefill_only_scheduler.{h,cpp}\<close>): the scheduler
    for chunked prefill with speculative decoding, which serves requests cut in the last step
    first.
  \<^item> \<open>Zero_Eviction\<close> (\<open>scheduler/zero_eviction_scheduler.{h,cpp}\<close>): the admission test that simulates
    the decode steps to come, on 32-bit words, and the admission of requests; \<open>feasible\<close> is the
    run of decode steps it stands for.
  \<^item> \<open>Batches\<close>, \<open>Batches_Correct\<close> (\<open>framework/batch/batch.{h,cpp}\<close>, \<open>batch_factory.cpp\<close>,
    \<open>batch_forward_type.h\<close>): sequences are dispatched to the batch of their rank, balanced over the
    cores, and receive the sampled tokens. A pointer to a sequence is a reference into a store.
  \<^item> \<open>Int32_Map\<close>, \<open>Int32_Map_Correct\<close> (\<open>util/int32_map.h\<close>): open addressing with triangular probing;
    \<open>im_map\<close> is the finite map a table stands for, and the locale \<open>int_map\<close> is its contract.
  \<^item> \<open>Rate_Limiter\<close> (\<open>common/rate_limiter.{h,cpp}\<close>): the atomic counter as a 32-bit word, and the
    step relation \<open>rl_step\<close> with one step per atomic operation of concurrent calls.
  \<^item> \<open>Reasoning_Parser\<close> (\<open>src/xllm/parser/\<close>): the split of text into reasoning and answer, at once and
    chunk by chunk. The string functions of Abseil are parameters, with \<open>absl_ok\<close> what their
    documentation says.
  \<^item> \<open>Tiktoken\<close>, \<open>Tiktoken_Correct\<close>, \<open>Tiktoken_Roundtrip\<close>
    (\<open>framework/tokenizer/tiktoken_tokenizer.{h,cpp}\<close>): vocabulary, merge loop, encoding and decoding.
    The loops over the matches of a pattern may run forever, so they return an option; they are
    shown to return when no match is empty.
  \<^item> \<open>Locks\<close> (\<open>util/spin_lock.h\<close>, \<open>spin_rw_lock.h\<close>, \<open>blocking_counter.h\<close>): step relations with one step
    per atomic access; the locale \<open>exclusive_lock\<close> is what both locks promise.

  \<^bold>\<open>What is shown\<close>

  The properties are numbered C1, C2, \<dots>; each is followed by an instance on concrete data.
  \<open>Cache_Properties\<close> has those of handles, prefix cache, block manager, embedding ids and KV
  state: safety of every release, longest-prefix matching, insertion and eviction against the
  abstract map, the pointer lists against lists, the counter of used blocks, distinct slots.
  \<open>Page_Properties\<close> has those of the XTensor layer: every virtual page is in one place and no
  worker exceeds its memory under any interleaving, a race that breaks the accounting, and
  the block manager over the allocator. \<open>Sequence_Properties\<close> has stopping, appending, the
  refinement of overlapped scheduling, preemption and streaming. \<open>Pool_Properties\<close> has the pool,
  where all of these meet. \<open>Scheduler_Properties\<close> has the budgets of a batch, the order in which
  requests are served, that none is lost, the comparators, and two runs that abort;
  \<open>Chunked_Properties\<close> has the same for the chunked prefill scheduler, and decode-maximal batching;
  \<open>Prefill_Only_Properties\<close> has the budgets of the prefill-only scheduler and requests it loses, and
  \<open>Admission_Properties\<close> the soundness of the zero-eviction test. \<open>Util_Properties\<close>
  has the batches, the hash map against a finite map, and the rate limiter with its race;
  \<open>Parser_Properties\<close> has the parser of reasoning text; \<open>Tokenizer_Properties\<close> has byte pair
  encoding against its textbook description and the round trip of encoding and decoding;
  \<open>Sync_Properties\<close> has mutual exclusion of the locks and the wakeups of the counter. This
  theory has a run across sequence, manager and cache in which the counter of used blocks
  drifts.

  \<^bold>\<open>Not modelled\<close>

  Metrics and logging; log probabilities and all other floating point; multi-modal data; the
  host and storage tiers of \<open>HierarchyBlockManagerPool\<close>; the workers, to which the page
  allocator's broadcasts go (their success is a parameter); latency-aware scheduling, the
  ordered set that holds the running requests under the strategies \<open>deadline\<close> and \<open>priority\<close>
  (its comparator is not a strict order, so the library leaves its behaviour open), the loop
  that runs the batches, and the schedulers that mix stages, split them over instances or run
  a fixed number of steps; the input builders of a batch, samplers, the other tokenizers,
  models, kernels and the service, as the manifest lists them.
\<close>

section \<open>The counter of used blocks\<close>

text \<open>The equations that run the cache operations on concrete states.\<close>

lemma alloc_loop_Suc_0: "alloc_loop (Suc 0) A = bindE (pop_free A) (\<lambda>(b, A1). Inr ([b], A1))"
  by (cases "pop_free A") auto

lemmas alloc_run = bman_new_def init_arena_def bm_allocate_one_def Let_def nth_res_def block_new_def pcache_new_def upt_rec
  bm_allocate_def has_enough_blocks_def alloc_loop_Suc_0 pop_free_def

lemmas cache_run = slice_res_def sub_slice_def touch_or_add_def find_key_def Let_def block_key_def xxh3_128bits_hash_def
  block_assign_def dec_ref_count_def inc_ref_count_def null_block_def append_local_def set_hash_value_def

lemmas release_run = bm_deallocate_def deallocate_one_def block_ref_count_def block_is_valid_def destroy_blocks_def block_destroy_def

lemmas share_run = bm_allocate_shared_def pc_match_def round_down_def copy_blocks_def block_copy_def count_shared_def
  add_shared_kv_blocks_def kv_state_new_def

text \<open>C40: the counter of used blocks drifts. A prompt of one block is cached and released, so that no
  block is in use. Then the same prompt arrives: \<open>allocate_shared\<close> counts the matched block,
  \<open>add_shared_kv_blocks\<close> drops it again because the whole prompt would be cached, and the
  counter says one used block while the sequence holds none.\<close>

theorem full_match_overcounts:
  "bindE (bman_new 3 2 True) (\<lambda>B0. bindE (bm_allocate H 1 B0) (\<lambda>(bs, B1).
    bindE (bm_cache H 0 [1, 2] bs 0 B1) (\<lambda>(bs', B2).
    bindE (bm_deallocate bs' B2) (\<lambda>B3.
    bindE (destroy_blocks bs' (bm_arena B3)) (\<lambda>A.
    bindE (bm_allocate_shared H [1, 2] [] (B3\<lparr>bm_arena := A\<rparr>)) (\<lambda>(found, B4).
    bindE (add_shared_kv_blocks found 2 (bm_arena B4) kv_state_new) (\<lambda>(A', K).
      Inr (num_used_blocks B3, length found, kv_blocks K, num_used_blocks B4)))))))) = Inr (0, 1, [], 1)"
  apply (simp add: alloc_run del: bindE_eq_Inr)
  apply (simp add: bm_cache_def pc_insert_def Let_def del: bindE_eq_Inr)
  apply (subst insert_loop.simps)
  apply (simp add: cache_run del: bindE_eq_Inr)
  apply (subst insert_loop.simps)
  apply (simp add: cache_run del: bindE_eq_Inr)
  apply (simp add: release_run cache_run del: bindE_eq_Inr)
  apply (simp add: share_run Let_def del: bindE_eq_Inr)
  apply (subst match_loop.simps)
  apply (simp add: cache_run block_copy_def del: bindE_eq_Inr)
  apply (subst match_loop.simps)
  apply (simp add: share_run release_run cache_run del: bindE_eq_Inr)
  done

end
